(* ===== verification/Prelude.thy ===== *)
theory Prelude
  imports Main "HOL-Library.Word"
begin

text \<open>
  Shared vocabulary of the EDSM development: machine integers of the C code as words, the
  outcome of a C call (a value, or the fault that stops it), memory cells and
  \<^verbatim>\<open>memcpy\<close>, the little-endian representation of \<^verbatim>\<open>uint16_t\<close>
  and \<^verbatim>\<open>uint32_t\<close> objects, and the runtime environment (outcomes of
  \<^verbatim>\<open>malloc\<close>, the monotonic clock).
\<close>

unbundle bit_operations_syntax

section \<open>Integers\<close>

type_synonym byte = "8 word"
type_synonym u16 = "16 word"
type_synonym u32 = "32 word"
type_synonym u64 = "64 word"

text \<open>\<^verbatim>\<open>int\<close> is kept as a 32-bit word, read with \<^term>\<open>sint\<close>.\<close>

type_synonym i32 = "32 word"

definition SUCCESS :: int where "SUCCESS = 0"
definition FAILURE :: int where "FAILURE = - 1"

lemma SUCCESS_FAILURE [simp]: "SUCCESS \<noteq> FAILURE" "FAILURE \<noteq> SUCCESS"
  by (simp_all add: SUCCESS_def FAILURE_def)

section \<open>Outcomes of calls\<close>

text \<open>
  A call ends with a value (\<^term>\<open>Inr\<close>) or is stopped by a fault (\<^term>\<open>Inl\<close>):
  a failed \<^verbatim>\<open>assert\<close>, the use of a null or freed pointer, an access outside
  the object, the use of an indeterminate value, a signed overflow, a division by zero, a call of
  \<^verbatim>\<open>abort\<close> or \<^verbatim>\<open>exit\<close>, an object used at a type it does not have, or an element
  inserted into a list it is already in.
\<close>

datatype fault =
    AssertionFailed
  | NullDereference
  | UseAfterFree
  | OutOfBounds
  | Uninitialised
  | SignedOverflow
  | DivisionByZero
  | Aborted
  | TypeConfusion
  | ListCorrupted
  | OutOfFuel

type_synonym 'a res = "fault + 'a"

definition res_bind :: "'a res \<Rightarrow> ('a \<Rightarrow> 'b res) \<Rightarrow> 'b res" where
  "res_bind m f = (case m of Inl e \<Rightarrow> Inl e | Inr x \<Rightarrow> f x)"

definition check :: "fault \<Rightarrow> bool \<Rightarrow> unit res" where
  "check e b = (if b then Inr () else Inl e)"

definition non_null :: "'a option \<Rightarrow> 'a res" where
  "non_null p = (case p of None \<Rightarrow> Inl NullDereference | Some x \<Rightarrow> Inr x)"

definition determinate :: "'a option \<Rightarrow> 'a res" where
  "determinate v = (case v of None \<Rightarrow> Inl Uninitialised | Some x \<Rightarrow> Inr x)"

lemma res_bind_Inr [simp]: "res_bind (Inr x) f = f x"
  by (simp add: res_bind_def)

lemma res_bind_Inl [simp]: "res_bind (Inl e) f = Inl e"
  by (simp add: res_bind_def)

lemma res_bind_eq_Inr [simp]:
  "(res_bind m f = Inr y) = (\<exists>x. m = Inr x \<and> f x = Inr y)"
  by (cases m) auto

lemma res_bind_assoc [simp]:
  "res_bind (res_bind m f) g = res_bind m (\<lambda>x. res_bind (f x) g)"
  by (cases m) auto

lemma check_True [simp]: "b \<Longrightarrow> check e b = Inr ()"
  by (simp add: check_def)

lemma check_False [simp]: "\<not> b \<Longrightarrow> check e b = Inl e"
  by (simp add: check_def)

lemma check_eq_Inr [simp]: "(check e b = Inr u) = b"
  by (simp add: check_def)

lemma non_null_simps [simp]:
  "non_null None = Inl NullDereference" "non_null (Some x) = Inr x"
  by (simp_all add: non_null_def)

lemma determinate_simps [simp]:
  "determinate None = Inl Uninitialised" "determinate (Some x) = Inr x"
  by (simp_all add: determinate_def)

section \<open>Conversions and signed arithmetic\<close>

definition in_int :: "int \<Rightarrow> bool" where
  "in_int x \<longleftrightarrow> - (2 ^ 31) \<le> x \<and> x < 2 ^ 31"

definition in_int64 :: "int \<Rightarrow> bool" where
  "in_int64 x \<longleftrightarrow> - (2 ^ 63) \<le> x \<and> x < 2 ^ 63"

definition size_t_of_int :: "i32 \<Rightarrow> nat" where
  "size_t_of_int n = unat (scast n :: u64)"

definition int_sub :: "i32 \<Rightarrow> i32 \<Rightarrow> int res" where
  "int_sub a b = res_bind (check SignedOverflow (in_int (sint a - sint b)))
     (\<lambda>_. Inr (sint a - sint b))"

definition int_double :: "i32 \<Rightarrow> i32 res" where
  "int_double n = res_bind (check SignedOverflow (in_int (sint n * 2))) (\<lambda>_. Inr (n * 2))"

lemma uint_int_unat: "uint (w :: 'a::len word) = int (unat w)"
  by simp

lemma sint_small: "unat (w :: u32) < 2 ^ 31 \<Longrightarrow> sint w = int (unat w)"
proof -
  assume "unat w < 2 ^ 31"
  then have u: "uint w < 2 ^ 31" by (simp only: uint_int_unat of_nat_less_numeral_power_cancel_iff)
  have "- (2 ^ 31) \<le> uint w" by (rule order_trans [OF _ uint_ge_0]) simp
  from signed_take_bit_int_eq_self [OF this u] show ?thesis by (simp add: sint_uint)
qed

lemma size_t_small: "unat (w :: u32) < 2 ^ 31 \<Longrightarrow> size_t_of_int w = unat w"
proof -
  assume a: "unat w < 2 ^ 31"
  have "scast w = (word_of_int (sint w) :: u64)"
    by (rule scast_eq)
  also have "\<dots> = word_of_nat (unat w)"
    by (simp only: sint_small [OF a] of_int_of_nat_eq)
  finally have "unat (scast w :: u64) = unat w mod 2 ^ LENGTH(64)"
    by (simp only: unat_of_nat)
  also have "\<dots> = unat w"
    using a by simp
  finally show ?thesis by (simp only: size_t_of_int_def)
qed

lemma unat_u32_bound: "unat (x::u32) < 2 ^ 32"
  using unsigned_less [of x, where ?'a = nat] by simp

lemma unat_u32_of_nat: "n < 2 ^ 32 \<Longrightarrow> unat (word_of_nat n :: u32) = n"
  by (simp add: unat_of_nat)

lemma unat_add: "unat (x::u32) + unat y < 2 ^ 32 \<Longrightarrow> unat (x + y) = unat x + unat y"
  by (simp add: unat_word_ariths)

lemma unat_double: "unat (x::u32) * 2 < 2 ^ 32 \<Longrightarrow> unat (x * 2) = unat x * 2"
  by (simp add: unat_word_ariths)

lemma unat_sub_le: "unat (y::u32) \<le> unat x \<Longrightarrow> unat (x - y) = unat x - unat y"
  by (simp add: unat_sub word_le_nat_alt)

lemma take_drop_add: "take (m + n) (drop k xs) = take m (drop k xs) @ take n (drop (k + m) xs)"
  by (simp add: take_add add.commute)

lemma in_int_nat: "n < 2 ^ 31 \<Longrightarrow> in_int (int n)"
  using of_nat_less_numeral_power_cancel_iff [of n Num.One] 
  by (simp add: in_int_def)

lemma in_int_doubled: "in_int (2 * 2 ^ k) \<longleftrightarrow> k < 30"
proof
  assume "in_int (2 * 2 ^ k)"
  then have "(2 :: int) ^ Suc k < 2 ^ 31" by (simp add: in_int_def)
  then have "Suc k < 31" by (rule power_less_imp_less_exp [rotated]) simp
  then show "k < 30" by simp
next
  assume "k < 30"
  then have "(2 :: int) ^ Suc k < 2 ^ 31" by (intro power_strict_increasing) simp_all
  moreover have "- (2 ^ 31) \<le> (2 :: int) * 2 ^ k" by (rule order_trans [of _ 0]) simp_all
  ultimately show "in_int (2 * 2 ^ k)" by (simp add: in_int_def)
qed

text \<open>
  \<^verbatim>\<open>for (int i = 0; i < n; ++i)\<close> with an unsigned bound: the comparison is unsigned, and the increment
  overflows after \<open>2\<^sup>3\<^sup>1\<close> rounds. \<open>rounds m\<close> runs the body \<open>m\<close> times.
\<close>

definition int_loop :: "nat \<Rightarrow> (nat \<Rightarrow> 'a res) \<Rightarrow> 'a res" where
  "int_loop n rounds = (if n < 2 ^ 31 then rounds n else res_bind (rounds (2 ^ 31)) (\<lambda>_. Inl SignedOverflow))"

lemma int_loop_short [simp]: "n < 2 ^ 31 \<Longrightarrow> int_loop n rounds = rounds n"
  by (simp add: int_loop_def)

lemma int_loop_Inr: "int_loop n rounds = Inr x \<longleftrightarrow> n < 2 ^ 31 \<and> rounds n = Inr x"
  by (simp add: int_loop_def)

lemma in_int_diff: "a < 2 ^ 31 \<Longrightarrow> b < 2 ^ 31 \<Longrightarrow> in_int (int a - int b)"
  by (simp add: in_int_def)

section \<open>Memory cells\<close>

text \<open>
  A byte of an object is indeterminate (\<^term>\<open>None\<close>) until something is stored in it.
\<close>

type_synonym cell = "byte option"

definition cells :: "byte list \<Rightarrow> cell list" where
  "cells bs = map Some bs"

definition uninit :: "nat \<Rightarrow> cell list" where
  "uninit n = replicate n None"

text \<open>
  \<^verbatim>\<open>memcpy(dst + d, src + s, n)\<close> between distinct objects; every byte touched must
  lie inside its object.
\<close>

definition memcpy :: "'a list \<Rightarrow> int \<Rightarrow> 'a list \<Rightarrow> int \<Rightarrow> nat \<Rightarrow> 'a list res" where
  "memcpy dst d src s n =
     (if n = 0 then Inr dst
      else if 0 \<le> d \<and> nat d + n \<le> length dst \<and> 0 \<le> s \<and> nat s + n \<le> length src
      then Inr (take (nat d) dst @ take n (drop (nat s) src) @ drop (nat d + n) dst)
      else Inl OutOfBounds)"

lemma length_cells [simp]: "length (cells bs) = length bs"
  by (simp add: cells_def)

lemma cells_append [simp]: "cells (xs @ ys) = cells xs @ cells ys"
  by (simp add: cells_def)

lemma cells_Nil [simp]: "cells [] = []"
  by (simp add: cells_def)

lemma take_cells [simp]: "take n (cells bs) = cells (take n bs)"
  by (simp add: cells_def take_map)

lemma drop_cells [simp]: "drop n (cells bs) = cells (drop n bs)"
  by (simp add: cells_def drop_map)

lemma cells_inject [simp]: "cells xs = cells ys \<longleftrightarrow> xs = ys"
  by (simp add: cells_def inj_map_eq_map inj_def)

lemma length_uninit [simp]: "length (uninit n) = n"
  by (simp add: uninit_def)

lemma memcpy_ok:
  assumes "0 \<le> d" "nat d + n \<le> length dst" "0 \<le> s" "nat s + n \<le> length src"
  shows "memcpy dst d src s n =
           Inr (take (nat d) dst @ take n (drop (nat s) src) @ drop (nat d + n) dst)"
  using assms by (simp add: memcpy_def)

lemma length_memcpy: "memcpy dst d src s n = Inr dst' \<Longrightarrow> length dst' = length dst"
  by (auto simp: memcpy_def split: if_splits)

lemma memcpy_whole: "memcpy dst 0 src 0 n = Inr (take n src @ drop n dst)"
  if "n \<le> length dst" "n \<le> length src"
  using that by (simp add: memcpy_def)

text \<open>The values stored in a run of cells, if all of them are determinate.\<close>

fun bytes_of :: "cell list \<Rightarrow> byte list option" where
  "bytes_of [] = Some []"
| "bytes_of (None # cs) = None"
| "bytes_of (Some b # cs) = map_option (Cons b) (bytes_of cs)"

lemma bytes_of_cells [simp]: "bytes_of (cells bs) = Some bs"
  by (induction bs) (auto simp: cells_def)

lemma bytes_of_eq_Some: "bytes_of cs = Some bs \<longleftrightarrow> cs = cells bs"
proof
  show "bytes_of cs = Some bs \<Longrightarrow> cs = cells bs"
    by (induction cs arbitrary: bs rule: bytes_of.induct) (auto simp: cells_def)
qed simp

section \<open>Little-endian objects\<close>

definition bytes_of_u16 :: "u16 \<Rightarrow> byte list" where
  "bytes_of_u16 w = [ucast w, ucast (drop_bit 8 w)]"

definition bytes_of_u32 :: "u32 \<Rightarrow> byte list" where
  "bytes_of_u32 w =
     [ucast w, ucast (drop_bit 8 w), ucast (drop_bit 16 w), ucast (drop_bit 24 w)]"

fun u16_of_bytes :: "byte list \<Rightarrow> u16 option" where
  "u16_of_bytes [a, b] = Some (ucast a OR push_bit 8 (ucast b))"
| "u16_of_bytes _ = None"

fun u32_of_bytes :: "byte list \<Rightarrow> u32 option" where
  "u32_of_bytes [a, b, c, d] =
     Some (ucast a OR push_bit 8 (ucast b) OR push_bit 16 (ucast c) OR push_bit 24 (ucast d))"
| "u32_of_bytes _ = None"

lemma length_bytes_of_u16 [simp]: "length (bytes_of_u16 w) = 2"
  by (simp add: bytes_of_u16_def)

lemma length_bytes_of_u32 [simp]: "length (bytes_of_u32 w) = 4"
  by (simp add: bytes_of_u32_def)

lemma u16_roundtrip [simp]: "u16_of_bytes (bytes_of_u16 w) = Some w"
proof -
  have "ucast (ucast w :: byte) OR push_bit 8 (ucast (ucast (drop_bit 8 w) :: byte)) = w"
    by (rule bit_word_eqI) (auto simp: bit_simps)
  then show ?thesis by (simp add: bytes_of_u16_def)
qed

lemma u32_roundtrip [simp]: "u32_of_bytes (bytes_of_u32 w) = Some w"
proof -
  have "ucast (ucast w :: byte) OR push_bit 8 (ucast (ucast (drop_bit 8 w) :: byte))
      OR push_bit 16 (ucast (ucast (drop_bit 16 w) :: byte))
      OR push_bit 24 (ucast (ucast (drop_bit 24 w) :: byte)) = w"
  proof (rule bit_word_eqI)
    fix n :: nat
    assume "n < LENGTH(32)"
    then consider "n < 8" | "8 \<le> n" "n < 16" | "16 \<le> n" "n < 24" | "24 \<le> n" "n < 32"
      by fastforce
    then show "bit (ucast (ucast w :: byte) OR push_bit 8 (ucast (ucast (drop_bit 8 w) :: byte))
        OR push_bit 16 (ucast (ucast (drop_bit 16 w) :: byte))
        OR push_bit 24 (ucast (ucast (drop_bit 24 w) :: byte)) :: u32) n = bit w n"
      by cases (auto simp: bit_simps)
  qed
  then show ?thesis by (simp add: bytes_of_u32_def)
qed

lemma bytes_of_u32_inject [simp]: "bytes_of_u32 v = bytes_of_u32 w \<longleftrightarrow> v = w"
  by (metis u32_roundtrip option.inject)

definition u16_of_cells :: "cell list \<Rightarrow> u16 option" where
  "u16_of_cells cs = Option.bind (bytes_of cs) u16_of_bytes"

definition u32_of_cells :: "cell list \<Rightarrow> u32 option" where
  "u32_of_cells cs = Option.bind (bytes_of cs) u32_of_bytes"

lemma u16_of_cells_roundtrip [simp]: "u16_of_cells (cells (bytes_of_u16 w)) = Some w"
  by (simp add: u16_of_cells_def)

lemma u32_of_cells_roundtrip [simp]: "u32_of_cells (cells (bytes_of_u32 w)) = Some w"
  by (simp add: u32_of_cells_def)

lemma u32_of_cells_uninit [simp]: "u32_of_cells (uninit (Suc n)) = None"
  by (simp add: u32_of_cells_def uninit_def)

lemma u16_of_cells_uninit [simp]: "u16_of_cells (uninit (Suc n)) = None"
  by (simp add: u16_of_cells_def uninit_def)

section \<open>The C runtime\<close>

record timeval =
  tv_sec :: int
  tv_usec :: int

text \<open>
  What the code asks of the C library and the kernel outside sockets: whether
  \<^verbatim>\<open>malloc(n)\<close> returns a block, and the time of \<^verbatim>\<open>CLOCK_MONOTONIC\<close>
  (as seconds and nanoseconds).
\<close>

record runtime =
  malloc_ok :: "nat \<Rightarrow> bool"
  monotonic :: "int \<times> int"

definition malloc :: "runtime \<Rightarrow> nat \<Rightarrow> cell list option" where
  "malloc rt n = (if malloc_ok rt n then Some (uninit n) else None)"

definition enough_memory :: "runtime \<Rightarrow> bool" where
  "enough_memory rt \<longleftrightarrow> (\<forall>n. malloc_ok rt n)"

definition good_runtime :: runtime where
  "good_runtime = \<lparr>malloc_ok = (\<lambda>_. True), monotonic = (0, 0)\<rparr>"

lemma enough_memory_good [simp]: "enough_memory good_runtime"
  by (simp add: enough_memory_def good_runtime_def)

lemma malloc_enough [simp]: "enough_memory rt \<Longrightarrow> malloc rt n = Some (uninit n)"
  by (simp add: malloc_def enough_memory_def)

end
