(* ===== verification/Timing.thy ===== *)
theory Timing
  imports Prelude "HOL-Library.Signed_Division"
begin

text \<open>
  The clock helpers of \<^verbatim>\<open>src/src/timing.c\<close>. \<^verbatim>\<open>time_t\<close>,
  \<^verbatim>\<open>suseconds_t\<close> and \<^verbatim>\<open>int64_t\<close> are 64-bit signed; C division
  truncates towards zero (\<open>sdiv\<close>).
\<close>

definition USECS_PER_SEC :: int where "USECS_PER_SEC = 1000000"
definition NSECS_PER_USEC :: int where "NSECS_PER_USEC = 1000"

definition get_monotonic_time :: "runtime \<Rightarrow> timeval" where
  "get_monotonic_time rt =
     (case monotonic rt of (s, ns) \<Rightarrow> \<lparr>tv_sec = s, tv_usec = ns sdiv NSECS_PER_USEC\<rparr>)"

definition get_elapsed_us :: "runtime \<Rightarrow> timeval \<Rightarrow> int res" where
  "get_elapsed_us rt start =
     (let stop = get_monotonic_time rt;
          ds = tv_sec stop - tv_sec start;
          du = tv_usec stop - tv_usec start
      in if in_int64 ds \<and> in_int64 (ds * USECS_PER_SEC) \<and> in_int64 du
            \<and> in_int64 (ds * USECS_PER_SEC + du)
         then Inr (ds * USECS_PER_SEC + du) else Inl SignedOverflow)"

lemma get_monotonic_time_usec:
  assumes "monotonic rt = (s, ns)" "0 \<le> ns" "ns < 1000000000"
  shows "tv_sec (get_monotonic_time rt) = s"
    and "tv_usec (get_monotonic_time rt) = ns div 1000"
    and "0 \<le> tv_usec (get_monotonic_time rt)" "tv_usec (get_monotonic_time rt) < USECS_PER_SEC"
  using assms
  by (auto simp: get_monotonic_time_def NSECS_PER_USEC_def USECS_PER_SEC_def
      signed_divide_int_def sgn_if zdiv_eq_0_iff)

end
