(* ===== verification/Message.thy ===== *)
theory Message
  imports Timing
begin

text \<open>
  The message buffer of \<^verbatim>\<open>src/src/message.c\<close>: one block holding a head, the data
  and a tail. \<^verbatim>\<open>data\<close> is the pointer of the code, as an offset into the block.
  Parameters of type \<^verbatim>\<open>int\<close> are 32-bit words read with \<^term>\<open>sint\<close>;
  mixed comparisons convert to unsigned, as C does.
\<close>

section \<open>Data and operations\<close>

record edsm_message =
  created :: timeval
  buffer :: "cell list"
  data :: int
  buffer_size :: u32
  head_size :: u32
  data_size :: u32
  tail_size :: u32
  msg_next :: "nat option"

definition sizeof_edsm_message :: nat where "sizeof_edsm_message = 56"

definition edsm_message_create :: "runtime \<Rightarrow> i32 \<Rightarrow> i32 \<Rightarrow> edsm_message option res" where
  "edsm_message_create rt head tail =
     (case malloc rt sizeof_edsm_message of
        None \<Rightarrow> Inr None
      | Some _ \<Rightarrow>
          res_bind (check SignedOverflow (in_int (sint head + sint tail))) (\<lambda>_.
          case malloc rt (unat (head + tail)) of
            None \<Rightarrow> Inr None
          | Some buf \<Rightarrow>
              Inr (Some \<lparr>created = get_monotonic_time rt, buffer = buf, data = sint head,
                buffer_size = head + tail, head_size = head, data_size = 0,
                tail_size = tail, msg_next = None\<rparr>)))"

text \<open>\<^term>\<open>None\<close> is the destroyed message: what remains of it is a dangling pointer.\<close>

definition edsm_message_destroy :: "edsm_message \<Rightarrow> edsm_message option" where
  "edsm_message_destroy msg = None"

definition edsm_message_resize ::
    "runtime \<Rightarrow> edsm_message \<Rightarrow> i32 \<Rightarrow> i32 \<Rightarrow> (int \<times> edsm_message option) res" where
  "edsm_message_resize rt msg new_head_size new_tail_size =
     (let old_buffer = buffer msg;
          old_buffer_size = buffer_size msg;
          old_head_size = head_size msg;
          bsz = new_head_size + data_size msg + new_tail_size
      in case malloc rt (unat bsz) of
           None \<Rightarrow> Inr (FAILURE, edsm_message_destroy msg)
         | Some buf \<Rightarrow>
             res_bind (if sint new_head_size > sint old_head_size
                       then int_sub new_head_size old_head_size else Inr 0) (\<lambda>cpy_dst_start.
             res_bind (if sint new_head_size > sint old_head_size
                       then Inr 0 else int_sub old_head_size new_head_size) (\<lambda>cpy_src_start.
             let cpy_size = (if old_buffer_size < bsz then old_buffer_size else bsz)
             in res_bind (memcpy buf cpy_dst_start old_buffer cpy_src_start
                            (size_t_of_int cpy_size)) (\<lambda>buf'.
                Inr (SUCCESS, Some (msg\<lparr>buffer := buf', buffer_size := bsz,
                  tail_size := new_tail_size, head_size := new_head_size,
                  data := uint new_head_size\<rparr>))))))"

definition edsm_message_clone :: "runtime \<Rightarrow> edsm_message \<Rightarrow> edsm_message option res" where
  "edsm_message_clone rt msg =
     (case malloc rt sizeof_edsm_message of
        None \<Rightarrow> Inr None
      | Some _ \<Rightarrow>
         (case malloc rt (unat (buffer_size msg)) of
            None \<Rightarrow> Inr None
          | Some buf \<Rightarrow>
              res_bind (memcpy buf (uint (head_size msg)) (buffer msg) (data msg)
                          (unat (data_size msg))) (\<lambda>buf'.
              Inr (Some \<lparr>created = created msg, buffer = buf', data = uint (head_size msg),
                buffer_size = buffer_size msg, head_size = head_size msg,
                data_size = data_size msg, tail_size = tail_size msg, msg_next = None\<rparr>))))"

definition edsm_message_put :: "edsm_message \<Rightarrow> i32 \<Rightarrow> edsm_message res" where
  "edsm_message_put msg bytes =
     res_bind (check AssertionFailed (bytes \<le> tail_size msg)) (\<lambda>_.
     Inr (msg\<lparr>data_size := data_size msg + bytes, tail_size := tail_size msg - bytes\<rparr>))"

definition edsm_message_push :: "edsm_message \<Rightarrow> i32 \<Rightarrow> edsm_message res" where
  "edsm_message_push msg bytes =
     res_bind (check AssertionFailed (bytes \<le> head_size msg)) (\<lambda>_.
     Inr (msg\<lparr>data_size := data_size msg + bytes, data := data msg - sint bytes,
       head_size := head_size msg - bytes\<rparr>))"

definition edsm_message_pull :: "edsm_message \<Rightarrow> i32 \<Rightarrow> edsm_message res" where
  "edsm_message_pull msg bytes =
     res_bind (check AssertionFailed (bytes \<le> data_size msg)) (\<lambda>_.
     Inr (msg\<lparr>data := data msg + sint bytes, head_size := head_size msg + bytes,
       data_size := data_size msg - bytes\<rparr>))"

definition edsm_message_pull_tail :: "edsm_message \<Rightarrow> i32 \<Rightarrow> edsm_message res" where
  "edsm_message_pull_tail msg bytes =
     res_bind (check AssertionFailed (bytes \<le> data_size msg)) (\<lambda>_.
     Inr (msg\<lparr>tail_size := tail_size msg + bytes, data_size := data_size msg - bytes\<rparr>))"

text \<open>
  \<^verbatim>\<open>edsm_message_write(msg, src, bytes)\<close>. The outcome of the resize is ignored, as
  in the code: after a failed one the message is gone and the next access is a use after free.
\<close>

definition edsm_message_write ::
    "runtime \<Rightarrow> edsm_message \<Rightarrow> cell list \<Rightarrow> i32 \<Rightarrow> (int \<times> edsm_message) res" where
  "edsm_message_write rt msg src bytes =
     res_bind
       (if \<not> bytes \<le> tail_size msg
        then res_bind (if bytes < buffer_size msg then Inr (buffer_size msg * 2)
                       else int_double bytes) (\<lambda>new_tail.
             res_bind (edsm_message_resize rt msg (head_size msg) new_tail) (\<lambda>(rc, m).
             Inr m))
        else Inr (Some msg))
       (\<lambda>m. case m of
          None \<Rightarrow> Inl UseAfterFree
        | Some m' \<Rightarrow>
            res_bind (memcpy (buffer m') (data m' + uint (data_size m')) src 0
                        (size_t_of_int bytes)) (\<lambda>buf.
            res_bind (edsm_message_put (m'\<lparr>buffer := buf\<rparr>) bytes) (\<lambda>m''.
            Inr (SUCCESS, m''))))"

text \<open>
  \<^verbatim>\<open>edsm_message_read(msg, dst + d, bytes)\<close>, with the object read into before and
  after the call.
\<close>

definition edsm_message_read ::
    "edsm_message \<Rightarrow> cell list \<Rightarrow> int \<Rightarrow> i32 \<Rightarrow> (int \<times> cell list \<times> edsm_message) res" where
  "edsm_message_read msg dst d bytes =
     (if \<not> bytes \<le> data_size msg then Inr (FAILURE, dst, msg)
      else res_bind (memcpy dst d (buffer msg) (data msg) (size_t_of_int bytes)) (\<lambda>dst'.
           res_bind (edsm_message_pull msg bytes) (\<lambda>msg'.
           Inr (SUCCESS, dst', msg'))))"

text \<open>The bytes a message's data pointer points to.\<close>

definition data_ptr :: "edsm_message \<Rightarrow> cell list" where
  "data_ptr msg = drop (nat (data msg)) (buffer msg)"

definition edsm_message_write_message ::
    "runtime \<Rightarrow> edsm_message \<Rightarrow> edsm_message option \<Rightarrow> (int \<times> edsm_message) res" where
  "edsm_message_write_message rt dst val =
     (case val of
        None \<Rightarrow>
          res_bind (edsm_message_write rt dst (cells (bytes_of_u32 0)) 4) (\<lambda>(rc, dst').
          Inr (SUCCESS, dst'))
      | Some v \<Rightarrow>
          res_bind (edsm_message_write rt dst (cells (bytes_of_u32 (data_size v))) 4)
            (\<lambda>(rc, dst').
          if rc = FAILURE then Inr (FAILURE, dst') else
          res_bind (edsm_message_write rt dst' (data_ptr v) (data_size v)) (\<lambda>(rc', dst'').
          if rc' = FAILURE then Inr (FAILURE, dst'') else Inr (SUCCESS, dst''))))"

text \<open>
  \<^verbatim>\<open>edsm_message_read_message(msg, &p)\<close>: \<^verbatim>\<open>p0\<close> is the pointer
  \<^verbatim>\<open>p\<close> before the call; the result holds it after the call.
\<close>

definition edsm_message_read_message ::
    "runtime \<Rightarrow> edsm_message \<Rightarrow> edsm_message option
       \<Rightarrow> (int \<times> edsm_message option \<times> edsm_message) res" where
  "edsm_message_read_message rt msg p0 =
     res_bind (edsm_message_read msg (uninit 4) 0 4) (\<lambda>(rc, sz, msg1).
     if rc = FAILURE then Inr (FAILURE, p0, msg1) else
     res_bind (determinate (u32_of_cells sz)) (\<lambda>size.
     if size = 0 then Inr (SUCCESS, None, msg1) else
     res_bind (edsm_message_create rt 0 size) (\<lambda>p.
     res_bind (non_null p) (\<lambda>q.
     res_bind (edsm_message_put q size) (\<lambda>q1.
     res_bind (edsm_message_read msg1 (buffer q1) (data q1) (data_size q1))
       (\<lambda>(rc', buf, msg2).
     if rc' = FAILURE then Inr (FAILURE, Some (q1\<lparr>buffer := buf\<rparr>), msg2)
     else Inr (SUCCESS, Some (q1\<lparr>buffer := buf\<rparr>), msg2)))))))"

text \<open>
  A C string argument is the list of its bytes before the terminating zero.
\<close>

definition edsm_message_write_string ::
    "runtime \<Rightarrow> edsm_message \<Rightarrow> byte list \<Rightarrow> (int \<times> edsm_message) res" where
  "edsm_message_write_string rt dst str =
     (let size = word_of_nat (length str) :: u32 in
      res_bind (edsm_message_write rt dst (cells (bytes_of_u32 size)) 4) (\<lambda>(rc, dst').
      if rc = FAILURE then Inr (FAILURE, dst') else
      res_bind (edsm_message_write rt dst' (cells (str @ [0])) size) (\<lambda>(rc', dst'').
      if rc' = FAILURE then Inr (FAILURE, dst'') else Inr (SUCCESS, dst''))))"

text \<open>The result is the character array returned, \<^term>\<open>None\<close> for a null pointer.\<close>

definition edsm_message_read_string ::
    "runtime \<Rightarrow> edsm_message \<Rightarrow> (cell list option \<times> edsm_message) res" where
  "edsm_message_read_string rt msg =
     res_bind (edsm_message_read msg (uninit 4) 0 4) (\<lambda>(rc, sz, msg1).
     if rc = FAILURE then Inr (None, msg1) else
     res_bind (determinate (u32_of_cells sz)) (\<lambda>size.
     res_bind (non_null (malloc rt (unat (size + 1)))) (\<lambda>out.
     res_bind (check OutOfBounds (unat size < length out)) (\<lambda>_.
     let out1 = out[unat size := Some 0] in
     res_bind (edsm_message_read msg1 out1 0 size) (\<lambda>(rc', out2, msg2).
     if rc' = FAILURE then Inr (None, msg2) else Inr (Some out2, msg2))))))"

text \<open>The string a character array holds: its bytes up to the first zero.\<close>

fun c_string :: "cell list \<Rightarrow> byte list res" where
  "c_string [] = Inl OutOfBounds"
| "c_string (None # cs) = Inl Uninitialised"
| "c_string (Some b # cs) =
     (if b = 0 then Inr [] else res_bind (c_string cs) (\<lambda>s. Inr (b # s)))"

section \<open>Well-formed messages\<close>

text \<open>
  The pointer and the three sizes of a well-formed message agree with its block;
  \<^term>\<open>content\<close> is its data and \<open>used\<close> counts the bytes before the tail.
\<close>

definition wf_message :: "edsm_message \<Rightarrow> bool" where
  "wf_message m \<longleftrightarrow>
     data m = int (unat (head_size m)) \<and> length (buffer m) = unat (buffer_size m) \<and>
     unat (head_size m) + unat (data_size m) + unat (tail_size m) = unat (buffer_size m)"

definition content :: "edsm_message \<Rightarrow> cell list" where
  "content m = take (unat (data_size m)) (drop (unat (head_size m)) (buffer m))"

definition used :: "edsm_message \<Rightarrow> nat" where
  "used m = unat (head_size m) + unat (data_size m)"

lemma length_content: "wf_message m \<Longrightarrow> length (content m) = unat (data_size m)"
  by (auto simp add: wf_message_def content_def)

lemma used_bound: "wf_message m \<Longrightarrow> used m < 2 ^ 32"
  using unat_u32_bound [of "buffer_size m"] by (auto simp add: wf_message_def used_def)

lemma wf_data_nat: "wf_message m \<Longrightarrow> nat (data m) = unat (head_size m)"
  by (simp add: wf_message_def)

lemma create_wf:
  assumes "enough_memory rt" "unat h + unat t < 2 ^ 31"
  shows "\<exists>m. edsm_message_create rt h t = Inr (Some m) \<and> wf_message m \<and> content m = []
    \<and> head_size m = h \<and> tail_size m = t \<and> data_size m = 0 \<and> buffer_size m = h + t"
proof -
  have s: "sint h = int (unat h)" "sint t = int (unat t)"
    using assms(2) by (simp_all only: sint_small)
  have "in_int (int (unat h) + int (unat t))"
    using in_int_nat [OF assms(2)] by simp
  moreover have "unat (h + t) = unat h + unat t" using assms(2) by (intro unat_add) simp
  ultimately show ?thesis using assms(1) s
    by (auto simp: edsm_message_create_def wf_message_def content_def )
qed
lemma put_ok:
  assumes "wf_message m" "unat n \<le> unat (tail_size m)"
  shows "\<exists>m'. edsm_message_put m n = Inr m' \<and> wf_message m' \<and> buffer m' = buffer m \<and> head_size m' = head_size m
     \<and> data_size m' = data_size m + n \<and>
     content m' = content m @ take (unat n) (drop (used m) (buffer m)) \<and> used m' = used m + unat n"
proof -
  have "unat (data_size m) + unat n < 2 ^ 32"
    using assms unat_u32_bound [of "buffer_size m"] by (auto simp: wf_message_def)
  then have d: "unat (data_size m + n) = unat (data_size m) + unat n" by (rule unat_add)
  show ?thesis using assms 
    by (simp add: edsm_message_put_def wf_message_def content_def used_def d unat_sub_le take_drop_add
       word_le_nat_alt )
qed

lemma pull_ok:
  assumes "wf_message m" "unat n \<le> unat (data_size m)" "unat n < 2 ^ 31"
  shows "\<exists>m'. edsm_message_pull m n = Inr m' \<and> wf_message m' \<and> buffer m' = buffer m
    \<and> content m' = drop (unat n) (content m) \<and> used m' = used m"
proof -
  have "unat (head_size m) + unat n < 2 ^ 32"
    using assms unat_u32_bound [of "buffer_size m"] by (auto simp: wf_message_def)
  then have d: "unat (head_size m + n) = unat (head_size m) + unat n" by (rule unat_add)
  show ?thesis using assms sint_small [OF assms(3)]
    by (simp add: edsm_message_pull_def wf_message_def content_def used_def d unat_sub_le
       word_le_nat_alt drop_take uint_int_unat add.commute [of "unat n"] del: of_nat_unat)
qed

lemma clone_ok:
  assumes "enough_memory rt" "wf_message m"
  shows "\<exists>c. edsm_message_clone rt m = Inr (Some c) \<and> wf_message c \<and> content c = content m
     \<and> created c = created m"
  using assms 
  by (auto simp add: edsm_message_clone_def wf_message_def content_def memcpy_def min_def)

lemma resize_tail:
  assumes rt: "enough_memory rt" and wf: "wf_message m"
    and t: "unat (tail_size m) \<le> unat t" and b: "used m + unat t < 2 ^ 31"
  shows "\<exists>m'. edsm_message_resize rt m (head_size m) t = Inr (SUCCESS, Some m') \<and> wf_message m'
     \<and> content m' = content m \<and> used m' = used m \<and> tail_size m' = t \<and> head_size m' = head_size m
     \<and> data_size m' = data_size m"
proof -
  let ?b = "head_size m + data_size m + t"
  have hd: "unat (head_size m + data_size m) = unat (head_size m) + unat (data_size m)"
    using b by (intro unat_add) (simp add: used_def)
  then have ub: "unat ?b = used m + unat t"
    using b by (simp add: used_def unat_add)
  have le: "unat (buffer_size m) \<le> unat ?b"
    using wf t ub by (simp add: wf_message_def used_def)
  define sz where "sz = (if buffer_size m < ?b then buffer_size m else ?b)"
  have sz: "unat sz = unat (buffer_size m)" "unat sz < 2 ^ 31"
    using le ub b by (auto simp: sz_def word_less_nat_alt)
  have len: "length (buffer m) = unat (buffer_size m)"
    using wf by (simp add: wf_message_def)
  have mc: "memcpy (uninit (unat ?b)) 0 (buffer m) 0 (size_t_of_int sz) =
      Inr (buffer m @ uninit (unat ?b - unat (buffer_size m)))"
    using size_t_small [OF sz(2)] sz le len by (cases "buffer m") (simp_all add: memcpy_def uninit_def)
  have s: "int_sub (head_size m) (head_size m) = Inr 0"
    by (simp add: int_sub_def in_int_def)
  show ?thesis
    using wf rt ub le len sz mc s
    by (simp add: edsm_message_resize_def Let_def sz_def [symmetric] wf_message_def content_def used_def)
qed

lemma write_fits:
  assumes wf: "wf_message m" and n: "unat n \<le> unat (tail_size m)" "unat n < 2 ^ 31" "unat n \<le> length src"
  shows "\<exists>m'. edsm_message_write rt m src n = Inr (SUCCESS, m') \<and> wf_message m' \<and>
     content m' = content m @ take (unat n) src \<and> used m' = used m + unat n \<and> head_size m' = head_size m"
proof -
  let ?buf = "take (used m) (buffer m) @ take (unat n) src @ drop (used m + unat n) (buffer m)"
  have d: "data m + uint (data_size m) = int (used m)" "used m + unat n \<le> length (buffer m)"
    using wf n by (simp_all add: wf_message_def used_def)
  have mc: "memcpy (buffer m) (data m + uint (data_size m)) src 0 (size_t_of_int n) = Inr ?buf"
    unfolding size_t_small [OF n(2)] d(1) using d(2) n(3) by (subst memcpy_ok) auto
  have wf': "wf_message (m\<lparr>buffer := ?buf\<rparr>)"
    using wf d n by (auto simp: wf_message_def)
  have t: "unat n \<le> unat (tail_size (m\<lparr>buffer := ?buf\<rparr>))" using n by simp
  have c: "content (m\<lparr>buffer := ?buf\<rparr>) = content m"
    using d by (simp add: content_def used_def drop_take)
  from put_ok [OF wf' t] d(2) n(3) show ?thesis
    unfolding c using n(1) mc by (auto simp: edsm_message_write_def word_le_nat_alt used_def)
qed

lemma grown_tail:
  assumes wf: "wf_message m" and tl: "unat (tail_size m) < unat n"
    and b: "3 * (used m + unat n) < 2 ^ 31"
  defines "t \<equiv> (if n < buffer_size m then buffer_size m * 2 else n * 2)"
  shows "unat t = 2 * max (unat (buffer_size m)) (unat n) \<and> unat (buffer_size m) < used m + unat n
     \<and> (if n < buffer_size m then Inr (buffer_size m * 2) else int_double n) = Inr t"
proof -
  have bs: "unat (buffer_size m) < used m + unat n"
    using wf tl by (simp add: wf_message_def used_def)
  have "\<not> n < buffer_size m \<Longrightarrow> int_double n = Inr (n * 2)"
    using b by (simp add: int_double_def sint_small in_int_def uint_int_unat del: of_nat_unat)
  with bs b show ?thesis by (simp add: t_def unat_double word_less_nat_alt)
qed

lemma write_ok:
  assumes rt: "enough_memory rt" and wf: "wf_message m" and n: "unat n \<le> length src"
    and b: "3 * (used m + unat n) < 2 ^ 31"
  shows "\<exists>m'. edsm_message_write rt m src n = Inr (SUCCESS, m') \<and> wf_message m' \<and>
     content m' = content m @ take (unat n) src \<and> used m' = used m + unat n \<and> head_size m' = head_size m"
proof (cases "n \<le> tail_size m")
  case True
  with b n show ?thesis by (intro write_fits [OF wf]) (auto simp: word_le_nat_alt)
next
  case False
  then have tl: "unat (tail_size m) < unat n" by (simp add: word_le_nat_alt)
  define t where "t = (if n < buffer_size m then buffer_size m * 2 else n * 2)"
  obtain ut: "unat t = 2 * max (unat (buffer_size m)) (unat n)"
    and bs: "unat (buffer_size m) < used m + unat n"
    and grow: "(if n < buffer_size m then Inr (buffer_size m * 2) else int_double n) = Inr t"
    using grown_tail [OF wf tl b] by (auto simp: t_def)
  have t1: "unat (tail_size m) \<le> unat t" and t2: "used m + unat t < 2 ^ 31"
    using ut tl bs b by auto
  obtain m' where m': "edsm_message_resize rt m (head_size m) t = Inr (SUCCESS, Some m')"
      "wf_message m'" "content m' = content m" "used m' = used m" "tail_size m' = t"
      "head_size m' = head_size m" "data_size m' = data_size m"
    using resize_tail [OF rt wf t1 t2] by blast
  have n': "unat n \<le> unat (tail_size m')" "unat n < 2 ^ 31" using ut m'(5) b by auto
  have eq: "edsm_message_write rt m src n = edsm_message_write rt m' src n"
  proof -
    have "n \<le> tail_size m'" using n' by (simp add: word_le_nat_alt)
    then show ?thesis
      using False m'(1) grow by (simp add: edsm_message_write_def)
  qed
  show ?thesis unfolding eq
    using write_fits [OF m'(2) n' n] m'(3,4,6) by simp
qed

lemma read_ok:
  assumes wf: "wf_message m" and n: "unat n \<le> length (content m)" "unat n < 2 ^ 31"
    and d: "0 \<le> d" "nat d + unat n \<le> length dst"
  shows "\<exists>m'. edsm_message_read m dst d n =
      Inr (SUCCESS, take (nat d) dst @ take (unat n) (content m) @ drop (nat d + unat n) dst, m')
     \<and> wf_message m' \<and> content m' = drop (unat n) (content m) \<and> used m' = used m"
proof -
  have n1: "unat n \<le> unat (data_size m)" using n wf by (simp add: length_content)
  obtain m' where m': "edsm_message_pull m n = Inr m'" "wf_message m'"
     "content m' = drop (unat n) (content m)" "used m' = used m"
    using pull_ok [OF wf n1 n(2)] by blast
  have "memcpy dst d (buffer m) (data m) (size_t_of_int n) =
     Inr (take (nat d) dst @ take (unat n) (content m) @ drop (nat d + unat n) dst)"
    unfolding size_t_small [OF n(2)]
    using wf n1 d by (subst memcpy_ok) (auto simp: wf_message_def content_def min_def)
  then show ?thesis using m' n1 by (simp add: edsm_message_read_def word_le_nat_alt)
qed

lemma read_short:
  assumes "wf_message m" "length (content m) < unat n"
  shows "edsm_message_read m dst d n = Inr (FAILURE, dst, m)"
  using assms by (simp add: edsm_message_read_def word_le_nat_alt length_content)


definition holds :: "edsm_message \<Rightarrow> byte list \<Rightarrow> bool" where
  "holds m bs \<longleftrightarrow> wf_message m \<and> content m = cells bs"

lemma holds_create:
  assumes "enough_memory rt" "unat h + unat t < 2 ^ 31"
  obtains m where "edsm_message_create rt h t = Inr (Some m)" "holds m []" "used m = unat h"
    "unat (tail_size m) = unat t" "data_size m = 0"
  using create_wf [OF assms] by (auto simp: holds_def used_def)

lemma holds_write:
  assumes "enough_memory rt" "holds m bs" "3 * (used m + length xs) < 2 ^ 31"
  obtains m' where
    "edsm_message_write rt m (cells xs @ ys) (word_of_nat (length xs)) = Inr (SUCCESS, m')"
    "holds m' (bs @ xs)" "used m' = used m + length xs"
proof -
  have u: "unat (word_of_nat (length xs) :: u32) = length xs"
    using assms(3) by (simp add: unat_u32_of_nat)
  show ?thesis
    using write_ok [OF assms(1), of m "word_of_nat (length xs)" "cells xs @ ys"] assms(2,3) u that
    by (auto simp: holds_def)
qed

lemma holds_read:
  assumes "holds m bs" "n \<le> length bs" "n < 2 ^ 31" "0 \<le> d" "nat d + n \<le> length dst"
  obtains m' where
    "edsm_message_read m dst d (word_of_nat n) =
       Inr (SUCCESS, take (nat d) dst @ cells (take n bs) @ drop (nat d + n) dst, m')"
    "holds m' (drop n bs)" "used m' = used m"
proof -
  have u: "unat (word_of_nat n :: u32) = n"
    using assms(3) by (simp add: unat_u32_of_nat)
  show ?thesis
    using read_ok [of m "word_of_nat n" d dst] assms u that by (auto simp: holds_def)
qed

lemma holds_read_short:
  assumes "holds m bs" "length bs < unat n"
  shows "edsm_message_read m dst d n = Inr (FAILURE, dst, m)"
  using assms read_short [of m n] by (simp add: holds_def)

lemma holds_used: "holds m bs \<Longrightarrow> length bs \<le> used m"
  using length_content by (fastforce simp: holds_def used_def)

lemma holds_data_ptr:
  assumes "holds v bs"
  shows "\<exists>rest. data_ptr v = cells bs @ rest" "data_size v = word_of_nat (length bs)"
proof -
  have "content v = take (unat (data_size v)) (data_ptr v)"
    using assms by (simp add: holds_def wf_message_def content_def data_ptr_def)
  then have "data_ptr v = content v @ drop (unat (data_size v)) (data_ptr v)"
    by (metis append_take_drop_id)
  then show "\<exists>rest. data_ptr v = cells bs @ rest" using assms by (metis holds_def)
  have "unat (data_size v) = length bs"
    using assms length_content by (fastforce simp: holds_def)
  moreover have "data_size v = word_of_nat (unat (data_size v))" by simp
  ultimately show "data_size v = word_of_nat (length bs)" by (simp only:)
qed

definition write_u32 :: "runtime \<Rightarrow> edsm_message \<Rightarrow> u32 \<Rightarrow> (int \<times> edsm_message) res" where
  "write_u32 rt m v = edsm_message_write rt m (cells (bytes_of_u32 v)) 4"

definition read_u32 :: "edsm_message \<Rightarrow> (int \<times> u32 option \<times> edsm_message) res" where
  "read_u32 m = res_bind (edsm_message_read m (uninit 4) 0 4) (\<lambda>(rc, v, m').
     Inr (rc, u32_of_cells v, m'))"

lemma holds_write_u32:
  assumes "enough_memory rt" "holds m bs" "3 * (used m + 4) < 2 ^ 31"
  obtains m' where "write_u32 rt m v = Inr (SUCCESS, m')" "holds m' (bs @ bytes_of_u32 v)"
    "used m' = used m + 4"
  using holds_write [OF assms(1,2), of "bytes_of_u32 v" "[]"] assms(3) by (auto simp: write_u32_def)

lemma holds_read_u32:
  assumes "holds m (bytes_of_u32 v @ bs)"
  obtains m' where "read_u32 m = Inr (SUCCESS, Some v, m')" "holds m' bs" "used m' = used m"
proof -
  from holds_read [OF assms, of 4 0 "uninit 4"] obtain m' where
    "edsm_message_read m (uninit 4) 0 4 = Inr (SUCCESS, cells (bytes_of_u32 v), m')"
    "holds m' bs" "used m' = used m"
    by auto
  then show ?thesis by (intro that [of m']) (simp_all add: read_u32_def)
qed

lemma holds_read_u32_short:
  assumes "holds m bs" "length bs < 4"
  shows "read_u32 m = Inr (FAILURE, None, m)"
  using assms u32_of_cells_uninit [of 3] by (simp add: read_u32_def holds_read_short)


section \<open>Nested messages and strings\<close>

lemma write_message_ok:
  assumes rt: "enough_memory rt" and d: "holds d bs" and v: "holds v xs"
    and b: "3 * (used d + 4 + length xs) < 2 ^ 31"
  obtains d' where "edsm_message_write_message rt d (Some v) = Inr (SUCCESS, d')"
    "holds d' (bs @ bytes_of_u32 (word_of_nat (length xs)) @ xs)" "used d' = used d + 4 + length xs"
proof -
  obtain rest where p: "data_ptr v = cells xs @ rest" and s: "data_size v = word_of_nat (length xs)"
    using holds_data_ptr [OF v] by blast
  obtain d1 where d1: "write_u32 rt d (data_size v) = Inr (SUCCESS, d1)"
      "holds d1 (bs @ bytes_of_u32 (data_size v))" "used d1 = used d + 4"
    using holds_write_u32 [OF rt d] b by (metis add_lessD1 distrib_left)
  obtain d2 where d2: "edsm_message_write rt d1 (cells xs @ rest) (word_of_nat (length xs))
      = Inr (SUCCESS, d2)"
      "holds d2 ((bs @ bytes_of_u32 (data_size v)) @ xs)" "used d2 = used d1 + length xs"
    using holds_write [OF rt d1(2)] b d1(3) by metis
  show ?thesis
    using that [of d2] d1 d2 p s by (simp add: edsm_message_write_message_def write_u32_def)
qed

lemma write_message_null:
  assumes rt: "enough_memory rt" and d: "holds d bs" and b: "3 * (used d + 4) < 2 ^ 31"
  obtains d' where "edsm_message_write_message rt d None = Inr (SUCCESS, d')"
    "holds d' (bs @ bytes_of_u32 0)" "used d' = used d + 4"
proof -
  from holds_write_u32 [OF assms, of 0] obtain d' where
    "write_u32 rt d 0 = Inr (SUCCESS, d')" "holds d' (bs @ bytes_of_u32 0)" "used d' = used d + 4"
    by metis
  then show ?thesis
    by (intro that [of d']) (simp_all add: edsm_message_write_message_def write_u32_def)
qed

lemma read_u32_eq:
  assumes "read_u32 m = Inr (rc, v, m')"
  obtains c where "edsm_message_read m (uninit 4) 0 4 = Inr (rc, c, m')" "u32_of_cells c = v"
  using assms by (auto simp: read_u32_def)

lemma read_message_null:
  assumes "holds m (bytes_of_u32 0 @ bs)"
  obtains m' where "edsm_message_read_message rt m p = Inr (SUCCESS, None, m')" "holds m' bs"
    "used m' = used m"
proof -
  obtain m' where m': "read_u32 m = Inr (SUCCESS, Some 0, m')" "holds m' bs" "used m' = used m"
    using holds_read_u32 [OF assms] by metis
  from m'(1) obtain c where "edsm_message_read m (uninit 4) 0 4 = Inr (SUCCESS, c, m')" "u32_of_cells c = Some 0"
    by (rule read_u32_eq)
  with m' show ?thesis by (intro that [of m']) (simp_all add: edsm_message_read_message_def)
qed

lemma read_message_ok:
  assumes rt: "enough_memory rt" 
    and m: "holds m (bytes_of_u32 (word_of_nat (length xs)) @ xs @ bs)"
    and xs: "xs \<noteq> []" "length xs < 2 ^ 31"
  obtains v m' where "edsm_message_read_message rt m p = Inr (SUCCESS, Some v, m')"
    "holds v xs" "holds m' bs" "used m' = used m" "used v = length xs"
proof -
  let ?n = "word_of_nat (length xs) :: u32"
  have un: "unat ?n = length xs" using xs by (simp add: unat_u32_of_nat)
  then have n0: "?n \<noteq> 0" using xs by (metis length_0_conv unat_0)
  obtain m1 where m1: "read_u32 m = Inr (SUCCESS, Some ?n, m1)" "holds m1 (xs @ bs)" "used m1 = used m"
    using holds_read_u32 [OF m] by metis
  from m1(1) obtain c where c: "edsm_message_read m (uninit 4) 0 4 = Inr (SUCCESS, c, m1)"
      "u32_of_cells c = Some ?n"
    by (rule read_u32_eq)
  obtain q where q: "edsm_message_create rt 0 ?n = Inr (Some q)" "wf_message q" "content q = []"
      "head_size q = 0" "tail_size q = ?n" "data_size q = 0"
    using create_wf [OF rt, of 0 ?n] xs un by auto
  obtain q1 where q1: "edsm_message_put q ?n = Inr q1" "wf_message q1" "buffer q1 = buffer q"
      "head_size q1 = 0" "data_size q1 = ?n" 
    using put_ok [OF q(2), of ?n] q(4,5,6) by auto
  have b: "length (buffer q1) = length xs" "data q1 = 0"
    using q q1 un by (auto simp: wf_message_def)
  have le: "length xs \<le> length (xs @ bs)" "nat (data q1) + length xs \<le> length (buffer q1)" "0 \<le> data q1"
    using b by simp_all
  obtain m2 where m2: "edsm_message_read m1 (buffer q1) (data q1) ?n = Inr (SUCCESS, cells xs, m2)"
      "holds m2 bs" "used m2 = used m1"
    using holds_read [OF m1(2) le(1) xs(2) le(3,2)] b by auto
  let ?v = "q1\<lparr>buffer := cells xs\<rparr>"
  have v: "holds ?v xs" "used ?v = length xs"
    using q1 b un by (auto simp: holds_def wf_message_def content_def used_def)
  show ?thesis
    using that [of ?v m2] c n0 q(1) q1(1,5) m2 v m1(3)
    by (simp add: edsm_message_read_message_def)
qed

lemma write_string_ok:
  assumes rt: "enough_memory rt" and d: "holds d bs"
    and b: "3 * (used d + 4 + length str) < 2 ^ 31"
  obtains d' where "edsm_message_write_string rt d str = Inr (SUCCESS, d')"
    "holds d' (bs @ bytes_of_u32 (word_of_nat (length str)) @ str)"
    "used d' = used d + 4 + length str"
proof -
  let ?n = "word_of_nat (length str) :: u32"
  obtain d1 where d1: "write_u32 rt d ?n = Inr (SUCCESS, d1)"
      "holds d1 (bs @ bytes_of_u32 ?n)" "used d1 = used d + 4"
    using holds_write_u32 [OF rt d] b by (metis add_lessD1 distrib_left)
  obtain d2 where d2: "edsm_message_write rt d1 (cells str @ cells [0]) ?n = Inr (SUCCESS, d2)"
      "holds d2 ((bs @ bytes_of_u32 ?n) @ str)" "used d2 = used d1 + length str"
    using holds_write [OF rt d1(2)] b d1(3) by metis
  show ?thesis
    using that [of d2] d1 d2 by (simp add: edsm_message_write_string_def write_u32_def)
qed

lemma c_string_cells: "0 \<notin> set s \<Longrightarrow> c_string (cells s @ Some 0 # rest) = Inr s"
  by (induction s) (auto simp: cells_def)

lemma drop_last_update: "drop n ((replicate (Suc n) x)[n := y]) = [y]"
  by (induction n) auto

lemma read_string_ok:
  assumes rt: "enough_memory rt"
    and m: "holds m (bytes_of_u32 (word_of_nat (length str)) @ str @ bs)"
    and len: "length str < 2 ^ 31"
  obtains m' where "edsm_message_read_string rt m = Inr (Some (cells (str @ [0])), m')"
    "holds m' bs" "used m' = used m"
proof -
  let ?n = "word_of_nat (length str) :: u32"
  have un: "unat ?n = length str" "unat (?n + 1) = Suc (length str)"
    using len by (simp_all add: unat_u32_of_nat unat_add)
  obtain m1 where m1: "read_u32 m = Inr (SUCCESS, Some ?n, m1)" "holds m1 (str @ bs)" "used m1 = used m"
    using holds_read_u32 [OF m] by metis
  from m1(1) obtain c where c: "edsm_message_read m (uninit 4) 0 4 = Inr (SUCCESS, c, m1)"
      "u32_of_cells c = Some ?n"
    by (rule read_u32_eq)
  let ?out = "(uninit (Suc (length str)))[length str := Some 0]"
  have le: "length str \<le> length (str @ bs)" "(0::int) \<le> 0" "nat 0 + length str \<le> length ?out"
    by simp_all
  have dr: "drop (length str) ?out = cells [0]"
    by (simp only: uninit_def cells_def drop_last_update list.map)
  obtain m2 where m2: "edsm_message_read m1 ?out 0 ?n = Inr (SUCCESS, cells (str @ [0]), m2)"
      "holds m2 bs" "used m2 = used m1"
    using holds_read [OF m1(2) le(1) len le(2,3)] dr by auto
  show ?thesis
    using that [of m2] c m2 m1(3) rt un by (simp add: edsm_message_read_string_def Let_def)
qed


section \<open>Fresh messages and rows of integers\<close>

definition write_u16 :: "runtime \<Rightarrow> edsm_message \<Rightarrow> u16 \<Rightarrow> (int \<times> edsm_message) res" where
  "write_u16 rt m v = edsm_message_write rt m (cells (bytes_of_u16 v)) 2"

definition read_u16 :: "edsm_message \<Rightarrow> (int \<times> u16 option \<times> edsm_message) res" where
  "read_u16 m = res_bind (edsm_message_read m (uninit 2) 0 2) (\<lambda>(rc, v, m').
     Inr (rc, u16_of_cells v, m'))"

lemma holds_write_u16:
  assumes "enough_memory rt" "holds m bs" "3 * (used m + 2) < 2 ^ 31"
  obtains m' where "write_u16 rt m v = Inr (SUCCESS, m')" "holds m' (bs @ bytes_of_u16 v)" "used m' = used m + 2"
  using holds_write [OF assms(1,2), of "bytes_of_u16 v" "[]"] assms(3) by (auto simp: write_u16_def)

lemma holds_read_u16:
  assumes "holds m (bytes_of_u16 v @ bs)"
  obtains m' where "read_u16 m = Inr (SUCCESS, Some v, m')" "holds m' bs" "used m' = used m"
proof -
  from holds_read [OF assms, of 2 0 "uninit 2"] obtain m' where
    "edsm_message_read m (uninit 2) 0 2 = Inr (SUCCESS, cells (bytes_of_u16 v), m')"
    "holds m' bs" "used m' = used m"
    by auto
  then show ?thesis by (intro that [of m']) (simp_all add: read_u16_def)
qed

text \<open>A message to write into: a null pointer is not checked for.\<close>

definition new_message :: "runtime \<Rightarrow> i32 \<Rightarrow> edsm_message res" where
  "new_message rt tail = res_bind (edsm_message_create rt 0 tail) non_null"

text \<open>Writes of several integers in a row, their outcomes ignored.\<close>

fun write_u32s :: "runtime \<Rightarrow> edsm_message \<Rightarrow> u32 list \<Rightarrow> edsm_message res" where
  "write_u32s rt m [] = Inr m"
| "write_u32s rt m (v # vs) = res_bind (write_u32 rt m v) (\<lambda>(rc, m'). write_u32s rt m' vs)"

lemma new_message_ok:
  assumes "enough_memory rt" "unat n < 2 ^ 31"
  obtains m where "new_message rt n = Inr m" "holds m []" "used m = 0"
proof -
  have "unat (0 :: u32) + unat n < 2 ^ 31" using assms(2) by simp
  with assms(1) obtain m where "edsm_message_create rt 0 n = Inr (Some m)" "holds m []" "used m = unat (0 :: u32)"
    by (rule holds_create)
  then show ?thesis by (intro that [of m]) (simp_all add: new_message_def)
qed

lemma write_u32s_ok:
  assumes "enough_memory rt"
  shows "holds m bs \<Longrightarrow> 3 * (used m + 4 * length vs) < 2 ^ 31 \<Longrightarrow>
     \<exists>m'. write_u32s rt m vs = Inr m' \<and> holds m' (bs @ concat (map bytes_of_u32 vs))
       \<and> used m' = used m + 4 * length vs"
proof (induction vs arbitrary: m bs)
  case Nil
  then show ?case by simp
next
  case (Cons v vs)
  have "3 * (used m + 4) < 2 ^ 31" using Cons.prems(2) by simp
  with assms Cons.prems(1) obtain m1 where m1: "write_u32 rt m v = Inr (SUCCESS, m1)" "holds m1 (bs @ bytes_of_u32 v)"
      "used m1 = used m + 4" by (rule holds_write_u32)
  with Cons.IH [OF m1(2)] Cons.prems(2) show ?case by auto
qed

declare write_u32s.simps(2) [simp del]

section \<open>The cursor operations on the three windows of a block\<close>

datatype cursor_op = Put i32 | Push i32 | Pull i32 | Pull_Tail i32

fun cursor_arg :: "cursor_op \<Rightarrow> i32" where
  "cursor_arg (Put n) = n"
| "cursor_arg (Push n) = n"
| "cursor_arg (Pull n) = n"
| "cursor_arg (Pull_Tail n) = n"

fun cursor_apply :: "cursor_op \<Rightarrow> edsm_message \<Rightarrow> edsm_message res" where
  "cursor_apply (Put n) m = edsm_message_put m n"
| "cursor_apply (Push n) m = edsm_message_push m n"
| "cursor_apply (Pull n) m = edsm_message_pull m n"
| "cursor_apply (Pull_Tail n) m = edsm_message_pull_tail m n"

type_synonym windows = "cell list \<times> cell list \<times> cell list"

definition windows :: "edsm_message \<Rightarrow> windows" where
  "windows m = (take (unat (head_size m)) (buffer m), content m, drop (used m) (buffer m))"

fun window_spec :: "cursor_op \<Rightarrow> windows \<Rightarrow> windows res" where
  "window_spec (Put n) (h, d, t) =
     (if unat n \<le> length t then Inr (h, d @ take (unat n) t, drop (unat n) t)
      else Inl AssertionFailed)"
| "window_spec (Push n) (h, d, t) =
     (let k = length h - unat n in
      if unat n \<le> length h then Inr (take k h, drop k h @ d, t) else Inl AssertionFailed)"
| "window_spec (Pull n) (h, d, t) =
     (if unat n \<le> length d then Inr (h @ take (unat n) d, drop (unat n) d, t)
      else Inl AssertionFailed)"
| "window_spec (Pull_Tail n) (h, d, t) =
     (let k = length d - unat n in
      if unat n \<le> length d then Inr (h, take k d, drop k d @ t) else Inl AssertionFailed)"

lemma window_lengths:
  assumes "wf_message m"
  shows "length (take (unat (head_size m)) (buffer m)) = unat (head_size m)"
    and "length (drop (used m) (buffer m)) = unat (tail_size m)"
    and "length (content m) = unat (data_size m)"
  using assms by (auto simp: wf_message_def used_def content_def)

lemma windows_put:
  assumes wf: "wf_message m"
  shows "map_sum id windows (edsm_message_put m n) = window_spec (Put n) (windows m)
     \<and> (\<forall>m'. edsm_message_put m n = Inr m' \<longrightarrow> wf_message m')"
proof (cases "unat n \<le> unat (tail_size m)")
  case True
  obtain m1 where m1: "edsm_message_put m n = Inr m1" "wf_message m1" "buffer m1 = buffer m"
      "head_size m1 = head_size m"
      "content m1 = content m @ take (unat n) (drop (used m) (buffer m))" "used m1 = used m + unat n"
    using put_ok [OF wf True] by blast
  then show ?thesis
    using True window_lengths [OF wf] by (simp add: windows_def add.commute)
next
  case False
  then show ?thesis
    using window_lengths [OF wf] by (simp add: edsm_message_put_def windows_def word_le_nat_alt)
qed

lemma windows_pull:
  assumes wf: "wf_message m" and n: "unat n < 2 ^ 31"
  shows "map_sum id windows (edsm_message_pull m n) = window_spec (Pull n) (windows m)
     \<and> (\<forall>m'. edsm_message_pull m n = Inr m' \<longrightarrow> wf_message m')"
proof (cases "unat n \<le> unat (data_size m)")
  case True
  obtain m1 where m1: "edsm_message_pull m n = Inr m1" "wf_message m1" "buffer m1 = buffer m"
      "content m1 = drop (unat n) (content m)" "used m1 = used m"
    using pull_ok [OF wf True n] by blast
  have "unat (head_size m1) = unat (head_size m) + unat n"
    using m1(4,5) True window_lengths(3) [OF wf] window_lengths(3) [OF m1(2)] by (simp add: used_def)
  then have "take (unat (head_size m1)) (buffer m)
      = take (unat (head_size m)) (buffer m) @ take (unat n) (content m)"
    using True by (simp add: take_add content_def min_def)
  with m1 True window_lengths [OF wf] show ?thesis by (simp add: windows_def)
next
  case False
  then show ?thesis
    using window_lengths [OF wf] by (simp add: edsm_message_pull_def windows_def word_le_nat_alt)
qed

lemma windows_push:
  assumes wf: "wf_message m" and n: "unat n < 2 ^ 31"
  shows "map_sum id windows (edsm_message_push m n) = window_spec (Push n) (windows m)
     \<and> (\<forall>m'. edsm_message_push m n = Inr m' \<longrightarrow> wf_message m')"
proof (cases "unat n \<le> unat (head_size m)")
  case True
  have "unat (data_size m) + unat n < 2 ^ 32"
    using wf True unat_u32_bound [of "buffer_size m"] by (auto simp: wf_message_def)
  then have d: "unat (data_size m + n) = unat (data_size m) + unat n" by (rule unat_add)
  have h: "unat (head_size m - n) = unat (head_size m) - unat n" using True by (rule unat_sub_le)
  let ?k = "unat (head_size m) - unat n"
  have "take (unat n + unat (data_size m)) (drop ?k (buffer m))
      = take (unat n) (drop ?k (buffer m)) @ content m"
    using True by (simp add: take_drop_add content_def)
  moreover have "take (unat n) (drop ?k (buffer m)) = drop ?k (take (unat (head_size m)) (buffer m))"
    using True by (simp add: drop_take)
  ultimately show ?thesis
    using True wf n window_lengths [OF wf]
    by (auto simp: edsm_message_push_def windows_def wf_message_def used_def d h sint_small
        word_le_nat_alt content_def min_def of_nat_diff uint_int_unat add.commute [of "unat n"]
        Let_def simp del: of_nat_unat)
next
  case False
  then show ?thesis
    using window_lengths [OF wf] by (simp add: edsm_message_push_def windows_def word_le_nat_alt)
qed

lemma windows_pull_tail:
  assumes wf: "wf_message m"
  shows "map_sum id windows (edsm_message_pull_tail m n) = window_spec (Pull_Tail n) (windows m)
     \<and> (\<forall>m'. edsm_message_pull_tail m n = Inr m' \<longrightarrow> wf_message m')"
proof (cases "unat n \<le> unat (data_size m)")
  case True
  have "unat (tail_size m) + unat n < 2 ^ 32"
    using wf True unat_u32_bound [of "buffer_size m"] by (auto simp: wf_message_def)
  then have t: "unat (tail_size m + n) = unat (tail_size m) + unat n" by (rule unat_add)
  have d: "unat (data_size m - n) = unat (data_size m) - unat n" using True by (rule unat_sub_le)
  let ?k = "unat (data_size m) - unat n" let ?h = "unat (head_size m)"
  have "drop (?h + ?k) (buffer m) = take (unat n) (drop (?h + ?k) (buffer m))
      @ drop (unat n) (drop (?h + ?k) (buffer m))"
    by (rule append_take_drop_id [symmetric])
  moreover have "drop (unat n) (drop (?h + ?k) (buffer m)) = drop (?h + ?k + unat n) (buffer m)"
    by (simp add: add.commute)
  moreover have "take (unat n) (drop (?h + ?k) (buffer m)) = drop ?k (content m)"
    using True by (simp add: content_def drop_take add.commute)
  moreover have "?h + ?k + unat n = used m" using True by (simp add: used_def)
  ultimately have "drop (?h + ?k) (buffer m) = drop ?k (content m) @ drop (used m) (buffer m)"
    by (simp only:)
  then show ?thesis
    using True wf window_lengths [OF wf]
    by (auto simp: edsm_message_pull_tail_def windows_def wf_message_def used_def d t
        word_le_nat_alt content_def min_def Let_def)
next
  case False
  then show ?thesis
    using window_lengths [OF wf] by (simp add: edsm_message_pull_tail_def windows_def word_le_nat_alt)
qed

section \<open>A byte queue\<close>

text \<open>
  What the rest of the program relies on: bytes put come out in order, in pieces of any length,
  and a read past the end takes nothing. \<open>rep m bs u\<close>: the queue \<open>m\<close> holds
  \<open>bs\<close> and has \<open>u\<close> bytes of its block spent; \<open>room\<close> bounds what may be spent.
\<close>

fun put_all :: "('m \<Rightarrow> byte list \<Rightarrow> 'm res) \<Rightarrow> 'm \<Rightarrow> byte list list \<Rightarrow> 'm res" where
  "put_all put m [] = Inr m"
| "put_all put m (xs # xss) = res_bind (put m xs) (\<lambda>m'. put_all put m' xss)"

fun get_all :: "('m \<Rightarrow> nat \<Rightarrow> (byte list option \<times> 'm) res) \<Rightarrow> 'm \<Rightarrow> nat list
    \<Rightarrow> (byte list option list \<times> 'm) res" where
  "get_all get m [] = Inr ([], m)"
| "get_all get m (n # ns) = res_bind (get m n) (\<lambda>(x, m').
     res_bind (get_all get m' ns) (\<lambda>(xs, m''). Inr (x # xs, m'')))"

locale byte_queue =
  fixes put :: "'m \<Rightarrow> byte list \<Rightarrow> 'm res"
    and get :: "'m \<Rightarrow> nat \<Rightarrow> (byte list option \<times> 'm) res"
    and rep :: "'m \<Rightarrow> byte list \<Rightarrow> nat \<Rightarrow> bool"
    and room :: nat
  assumes put_law: "rep m bs u \<Longrightarrow> u + length xs \<le> room \<Longrightarrow>
      \<exists>m'. put m xs = Inr m' \<and> rep m' (bs @ xs) (u + length xs)"
    and get_law: "rep m bs u \<Longrightarrow> n \<le> length bs \<Longrightarrow> u \<le> room \<Longrightarrow>
      \<exists>m'. get m n = Inr (Some (take n bs), m') \<and> rep m' (drop n bs) u"
    and get_short_law: "rep m bs u \<Longrightarrow> length bs < n \<Longrightarrow> n \<le> room \<Longrightarrow>
      get m n = Inr (None, m)"
begin

lemma put_all_law:
  "rep m bs u \<Longrightarrow> u + length (concat xss) \<le> room \<Longrightarrow>
     \<exists>m'. put_all put m xss = Inr m' \<and> rep m' (bs @ concat xss) (u + length (concat xss))"
proof (induction xss arbitrary: m bs u)
  case Nil
  then show ?case by simp
next
  case (Cons xs xss)
  obtain m1 where m1: "put m xs = Inr m1" "rep m1 (bs @ xs) (u + length xs)"
    using put_law [OF Cons.prems(1), of xs] Cons.prems(2) by auto
  from Cons.IH [OF this(2)] Cons.prems(2) m1(1) show ?case by (auto simp: add.assoc)
qed

lemma get_all_law:
  "rep m (concat xss @ bs) u \<Longrightarrow> u \<le> room \<Longrightarrow>
     \<exists>m'. get_all get m (map length xss) = Inr (map Some xss, m') \<and> rep m' bs u"
proof (induction xss arbitrary: m)
  case Nil
  then show ?case by simp
next
  case (Cons xs xss)
  have "length xs \<le> length (concat (xs # xss) @ bs)" by simp
  from get_law [OF Cons.prems(1) this Cons.prems(2)] obtain m1 where
    m1: "get m (length xs) = Inr (Some xs, m1)" "rep m1 (concat xss @ bs) u"
    by auto
  from Cons.IH [OF m1(2) Cons.prems(2)] m1(1) show ?case by auto
qed

lemma round_trip:
  assumes "rep m [] u" "u + length (concat xss) \<le> room"
  shows "\<exists>m1 m2. put_all put m xss = Inr m1
     \<and> get_all get m1 (map length xss) = Inr (map Some xss, m2) \<and> rep m2 [] (u + length (concat xss))"
  using put_all_law [OF assms] get_all_law [of _ xss "[]"] assms(2) by fastforce

end

definition message_put :: "runtime \<Rightarrow> edsm_message \<Rightarrow> byte list \<Rightarrow> edsm_message res" where
  "message_put rt m xs = res_bind
     (edsm_message_write rt m (cells xs) (word_of_nat (length xs))) (\<lambda>(rc, m'). Inr m')"

definition message_get :: "edsm_message \<Rightarrow> nat \<Rightarrow> (byte list option \<times> edsm_message) res" where
  "message_get m n = res_bind
     (edsm_message_read m (uninit n) 0 (word_of_nat n)) (\<lambda>(rc, xs, m').
     Inr (if rc = FAILURE then None else bytes_of xs, m'))"

definition message_room :: nat where "message_room = 715827882"

lemma message_room_iff: "n \<le> message_room \<longleftrightarrow> 3 * n < 2 ^ 31"
  by (auto simp: message_room_def)

interpretation message_queue: byte_queue
  "message_put (rt\<lparr>malloc_ok := (\<lambda>_. True)\<rparr>)" message_get "\<lambda>m bs u. holds m bs \<and> used m = u" message_room for rt
proof unfold_locales
  fix m :: edsm_message and bs xs :: "byte list" and u
  assume m: "holds m bs \<and> used m = u" and b: "u + length xs \<le> message_room"
  have "enough_memory (rt\<lparr>malloc_ok := (\<lambda>_. True)\<rparr>)" by (simp add: enough_memory_def)
  from holds_write [OF this, of m bs xs "[]"] m b obtain m' where
    "edsm_message_write (rt\<lparr>malloc_ok := (\<lambda>_. True)\<rparr>) m (cells xs) (word_of_nat (length xs))
       = Inr (SUCCESS, m')" "holds m' (bs @ xs)" "used m' = used m + length xs"
    by (auto simp: message_room_iff)
  then show
    "\<exists>m'. message_put (rt\<lparr>malloc_ok := (\<lambda>_. True)\<rparr>) m xs = Inr m'
       \<and> holds m' (bs @ xs) \<and> used m' = u + length xs"
    using m by (auto simp: message_put_def)
next
  fix m :: edsm_message and bs :: "byte list" and u n
  assume m: "holds m bs \<and> used m = u" and n: "n \<le> length bs" and b: "u \<le> message_room"
  have "n < 2 ^ 31" using m n b holds_used [of m bs] by (simp add: message_room_def)
  from holds_read [OF _ n this, of m 0 "uninit n"] m obtain m' where
    "edsm_message_read m (uninit n) 0 (word_of_nat n) = Inr (SUCCESS, cells (take n bs), m')"
    "holds m' (drop n bs)" "used m' = used m"
    by auto
  then show
    "\<exists>m'. message_get m n = Inr (Some (take n bs), m') \<and> holds m' (drop n bs) \<and> used m' = u"
    using m by (auto simp: message_get_def)
next
  fix m :: edsm_message and bs :: "byte list" and u n
  assume m: "holds m bs \<and> used m = u" and n: "length bs < n" and b: "n \<le> message_room"
  have "unat (word_of_nat n :: u32) = n" using b by (intro unat_u32_of_nat) (simp add: message_room_def)
  with m n show "message_get m n = Inr (None, m)"
    by (simp add: message_get_def holds_read_short [of m bs])
qed

lemma enough_memory_update: "enough_memory rt \<Longrightarrow> rt\<lparr>malloc_ok := (\<lambda>_. True)\<rparr> = rt"
  by (cases rt) (simp add: enough_memory_def fun_eq_iff)

section \<open>Properties\<close>

text \<open>
  C22: a message is a faithful byte queue: any sequence of writes into a fresh message, of pieces
  of any length and whatever head and tail it was created with, succeeds (growing the block when
  the tail is too short), and reads of the same lengths return the same pieces in the same order and
  leave the message empty.
\<close>

theorem message_write_read_roundtrip:
  assumes "enough_memory rt" "unat h + unat t < 2 ^ 31"
    and "unat h + length (concat xss) \<le> message_room"
  shows "\<exists>m m1 m2. edsm_message_create rt h t = Inr (Some m)
     \<and> put_all (message_put rt) m xss = Inr m1
     \<and> get_all message_get m1 (map length xss) = Inr (map Some xss, m2)
     \<and> holds m2 []"
proof -
  obtain m where "edsm_message_create rt h t = Inr (Some m)" "holds m []" "used m = unat h"
    using holds_create [OF assms(1,2)] by metis
  with message_queue.round_trip [of m "unat h" xss rt] enough_memory_update [OF assms(1)] assms(3)
  show ?thesis by auto
qed

theorem message_write_read_roundtrip_witness:
  "\<exists>m m1 m2. edsm_message_create good_runtime 0 3 = Inr (Some m)
     \<and> put_all (message_put good_runtime) m [[48, 49], [50, 51, 52, 53, 54], []] = Inr m1
     \<and> get_all message_get m1 (map length [[48, 49 :: byte], [50, 51, 52, 53, 54], []])
         = Inr ([Some [48, 49], Some [50, 51, 52, 53, 54], Some []], m2)
     \<and> holds m2 []"
  using message_write_read_roundtrip [of good_runtime 0 3 "[[48, 49], [50, 51, 52, 53, 54], []]"]
  by (simp only: enough_memory_good list.map) (simp add: message_room_def)

text \<open>
  C40: the four cursor operations refine the view of a block as head, data and tail windows: each
  moves the border between two windows by its argument, asserts exactly when the window it takes from
  is too short, moves no byte of the block, and keeps the block well formed.
\<close>

theorem cursor_refines_windows:
  assumes "wf_message m" "unat (cursor_arg c) < 2 ^ 31"
  shows "map_sum id windows (cursor_apply c m) = window_spec c (windows m)
     \<and> (\<forall>m'. cursor_apply c m = Inr m' \<longrightarrow> wf_message m')"
proof (cases c)
  case (Put n)
  show ?thesis unfolding Put cursor_apply.simps by (rule windows_put [OF assms(1)])
next
  case (Push n)
  show ?thesis unfolding Push cursor_apply.simps
    using windows_push [OF assms(1)] assms(2) unfolding Push cursor_arg.simps by blast
next
  case (Pull n)
  show ?thesis unfolding Pull cursor_apply.simps
    using windows_pull [OF assms(1)] assms(2) unfolding Pull cursor_arg.simps by blast
next
  case (Pull_Tail n)
  show ?thesis unfolding Pull_Tail cursor_apply.simps by (rule windows_pull_tail [OF assms(1)])
qed

theorem cursor_refines_windows_witness:
  "\<exists>m. wf_message m
     \<and> map_sum id windows (cursor_apply (Pull 2) m) = Inr ([Some 1, Some 2], [Some 3], [None])"
proof -
  let ?m = "\<lparr>created = \<lparr>tv_sec = 0, tv_usec = 0\<rparr>, buffer = [Some 1, Some 2, Some 3, None], data = 0,
    buffer_size = 4, head_size = 0, data_size = 3, tail_size = 1, msg_next = None\<rparr>"
  have wf: "wf_message ?m" by (simp add: wf_message_def)
  have "map_sum id windows (cursor_apply (Pull 2) ?m) = window_spec (Pull 2) (windows ?m)"
    using cursor_refines_windows [OF wf, of "Pull 2"] by simp
  also have "\<dots> = Inr ([Some 1, Some 2], [Some 3], [None])"
    by (simp add: windows_def content_def used_def)
  finally show ?thesis using wf by (intro exI [of _ ?m] conjI)
qed


text \<open>
  A submessage written into a message comes after what the message already holds, and wherever
  it is met at the front of a message it is read back with the same bytes, leaving what follows it;
  an empty one comes back as a null pointer.
\<close>

theorem submessage_roundtrip:
  assumes rt: "enough_memory rt" and d: "holds d bs" and v: "holds v xs"
    and b: "used d + 4 + length xs \<le> message_room"
  shows "\<exists>d1 enc. edsm_message_write_message rt d (Some v) = Inr (SUCCESS, d1) \<and> holds d1 (bs @ enc)
     \<and> (\<forall>e rest p. holds e (enc @ rest) \<longrightarrow>
          (\<exists>w e1. edsm_message_read_message rt e p = Inr (SUCCESS, w, e1) \<and> holds e1 rest
             \<and> (if xs = [] then w = None else \<exists>u. w = Some u \<and> holds u xs)))"
proof -
  let ?enc = "bytes_of_u32 (word_of_nat (length xs)) @ xs"
  have b': "3 * (used d + 4 + length xs) < 2 ^ 31" using b by (simp only: message_room_iff)
  obtain d1 where d1: "edsm_message_write_message rt d (Some v) = Inr (SUCCESS, d1)"
      "holds d1 (bs @ ?enc)"
    using write_message_ok [OF rt d v b'] by metis
  have "\<exists>w e1. edsm_message_read_message rt e p = Inr (SUCCESS, w, e1) \<and> holds e1 rest
         \<and> (if xs = [] then w = None else \<exists>u. w = Some u \<and> holds u xs)"
    if e: "holds e (?enc @ rest)" for e rest p
  proof (cases "xs = []")
    case True
    with e have "holds e (bytes_of_u32 0 @ rest)" by simp
    from read_message_null [OF this, of rt p] True show ?thesis by simp metis
  next
    case False
    have len: "length xs < 2 ^ 31" using b' by simp
    from e have "holds e (bytes_of_u32 (word_of_nat (length xs)) @ xs @ rest)" by simp
    from read_message_ok [OF rt this False len, of p] False show ?thesis by simp metis
  qed
  with d1 show ?thesis by (intro exI [of _ d1] exI [of _ ?enc]) blast
qed

text \<open>A message holding given bytes, with no head and no tail.\<close>

definition message_of :: "byte list \<Rightarrow> edsm_message" where
  "message_of xs = \<lparr>created = \<lparr>tv_sec = 0, tv_usec = 0\<rparr>, buffer = cells xs, data = 0,
     buffer_size = word_of_nat (length xs), head_size = 0, data_size = word_of_nat (length xs),
     tail_size = 0, msg_next = None\<rparr>"

lemma holds_message_of: "length xs < 2 ^ 32 \<Longrightarrow> holds (message_of xs) xs \<and> used (message_of xs) = length xs"
  by (simp add: message_of_def holds_def used_def wf_message_def content_def unat_u32_of_nat)

theorem submessage_roundtrip_witness:
  "\<exists>d1 enc. edsm_message_write_message good_runtime (message_of [7]) (Some (message_of [8, 9]))
       = Inr (SUCCESS, d1) \<and> holds d1 ([7] @ enc)
     \<and> (\<forall>e rest p. holds e (enc @ rest) \<longrightarrow>
          (\<exists>w e1. edsm_message_read_message good_runtime e p = Inr (SUCCESS, w, e1) \<and> holds e1 rest
             \<and> (if [8, 9 :: byte] = [] then w = None else \<exists>u. w = Some u \<and> holds u [8, 9])))"
proof (rule submessage_roundtrip)
  show "holds (message_of [7]) [7]" "holds (message_of [8, 9]) [8, 9]"
    by (simp_all add: holds_message_of)
  show "used (message_of [7]) + 4 + length [8, 9 :: byte] \<le> message_room"
    by (simp add: holds_message_of message_room_def)
qed simp

text \<open>
  A string without zero bytes written into a message is read back as a fresh array that holds
  that string, zero terminated, wherever it is met at the front of a message.
\<close>

theorem string_roundtrip:
  assumes rt: "enough_memory rt" and d: "holds d bs" and z: "0 \<notin> set str"
    and b: "used d + 4 + length str \<le> message_room"
  shows "\<exists>d1 enc. edsm_message_write_string rt d str = Inr (SUCCESS, d1) \<and> holds d1 (bs @ enc)
     \<and> (\<forall>e rest. holds e (enc @ rest) \<longrightarrow>
          (\<exists>out e1. edsm_message_read_string rt e = Inr (Some out, e1) \<and> holds e1 rest
             \<and> c_string out = Inr str))"
proof -
  let ?enc = "bytes_of_u32 (word_of_nat (length str)) @ str"
  have b': "3 * (used d + 4 + length str) < 2 ^ 31" using b by (simp only: message_room_iff)
  obtain d1 where d1: "edsm_message_write_string rt d str = Inr (SUCCESS, d1)" "holds d1 (bs @ ?enc)"
    using write_string_ok [OF rt d b'] by metis
  have "\<exists>out e1. edsm_message_read_string rt e = Inr (Some out, e1) \<and> holds e1 rest \<and> c_string out = Inr str"
    if "holds e (?enc @ rest)" for e rest
  proof -
    from that have "holds e (bytes_of_u32 (word_of_nat (length str)) @ str @ rest)" by simp
    moreover have "length str < 2 ^ 31" using b' by simp
    moreover have "c_string (cells (str @ [0])) = Inr str"
      using c_string_cells [OF z, of "[]"] by (simp add: cells_def)
    ultimately show ?thesis using read_string_ok [OF rt] by metis
  qed
  with d1 show ?thesis by (intro exI [of _ d1] exI [of _ ?enc]) blast
qed

theorem string_roundtrip_witness:
  "\<exists>d1 enc. edsm_message_write_string good_runtime (message_of []) [116, 97, 115, 107] = Inr (SUCCESS, d1)
     \<and> holds d1 ([] @ enc)
     \<and> (\<forall>e rest. holds e (enc @ rest) \<longrightarrow>
          (\<exists>out e1. edsm_message_read_string good_runtime e = Inr (Some out, e1) \<and> holds e1 rest
             \<and> c_string out = Inr [116, 97, 115, 107]))"
proof (rule string_roundtrip)
  show "holds (message_of []) []" by (simp add: holds_message_of)
  show "used (message_of []) + 4 + length [116 :: byte, 97, 115, 107] \<le> message_room"
    by (simp add: holds_message_of message_room_def)
qed simp_all

text \<open>
  The length prefix of a string is trusted: the prefix \<open>0xFFFFFFFF\<close> wraps to an allocation of
  zero bytes and the terminating zero is stored outside it, whatever follows the prefix.
\<close>

theorem read_string_length_wraps:
  assumes "enough_memory rt" "holds m (bytes_of_u32 0xFFFFFFFF @ bs)"
  shows "edsm_message_read_string rt m = Inl OutOfBounds"
proof -
  obtain m1 where m1: "read_u32 m = Inr (SUCCESS, Some 0xFFFFFFFF, m1)"
    using holds_read_u32 [OF assms(2)] by metis
  then obtain c where "edsm_message_read m (uninit 4) 0 4 = Inr (SUCCESS, c, m1)"
      "u32_of_cells c = Some 0xFFFFFFFF"
    by (rule read_u32_eq)
  then show ?thesis using assms(1) by (simp add: edsm_message_read_string_def)
qed

theorem read_string_length_wraps_witness:
  "edsm_message_read_string good_runtime (message_of (bytes_of_u32 0xFFFFFFFF @ [65])) = Inl OutOfBounds"
  by (rule read_string_length_wraps [of _ _ "[65]"]) (simp_all add: holds_message_of)


text \<open>
  A write that has to grow the block when memory is short does not fail: the message is destroyed
  and then used, and the fault is a use after free.
\<close>

theorem write_after_failed_resize:
  assumes "\<forall>k. k > 0 \<longrightarrow> \<not> malloc_ok rt k"
    and "wf_message m" "unat (tail_size m) < unat n" "3 * (used m + unat n) < 2 ^ 31"
  shows "edsm_message_write rt m src n = Inl UseAfterFree"
proof -
  define t where "t = (if n < buffer_size m then buffer_size m * 2 else n * 2)"
  obtain ut: "unat t = 2 * max (unat (buffer_size m)) (unat n)"
    and grow: "(if n < buffer_size m then Inr (buffer_size m * 2) else int_double n) = Inr t"
    using grown_tail [OF assms(2-4)] by (auto simp: t_def)
  have "unat (head_size m + data_size m) = used m"
    using assms(4) unat_add [of "head_size m" "data_size m"] by (simp add: used_def)
  then have "unat (head_size m + data_size m + t) = used m + unat t"
    using assms(2-4) ut by (subst unat_add) (auto simp: wf_message_def used_def)
  moreover have "0 < used m + unat t" using ut assms(3) by (simp add: max_def)
  ultimately have "malloc rt (unat (head_size m + data_size m + t)) = None"
    using assms(1) by (simp only: malloc_def if_False)
  then have "edsm_message_resize rt m (head_size m) t = Inr (FAILURE, None)"
    by (simp add: edsm_message_resize_def edsm_message_destroy_def)
  moreover have "\<not> n \<le> tail_size m" using assms(3) by (simp add: word_le_nat_alt)
  ultimately show ?thesis using grow by (simp add: edsm_message_write_def)
qed

theorem write_after_failed_resize_witness:
  "edsm_message_write (good_runtime\<lparr>malloc_ok := \<lambda>k. k = 0\<rparr>) (message_of [1]) (cells [2]) 1
     = Inl UseAfterFree"
proof (rule write_after_failed_resize)
  show "wf_message (message_of [1])" using holds_message_of [of "[1]"] by (simp add: holds_def)
  show "3 * (used (message_of [1]) + unat (1 :: u32)) < 2 ^ 31"
    using holds_message_of [of "[1]"] by simp
  show "unat (tail_size (message_of [1])) < unat (1 :: u32)" by (simp add: message_of_def)
qed simp

definition resize_safe :: "edsm_message \<Rightarrow> i32 \<Rightarrow> i32 \<Rightarrow> bool" where
  "resize_safe m h t \<longleftrightarrow>
     (head_size m < h \<longrightarrow> tail_size m \<le> t) \<and> (h < head_size m \<longrightarrow> t \<le> tail_size m)"

text \<open>
  \<^verbatim>\<open>edsm_message_resize\<close> keeps the data of a message exactly when the
  tail does not move against the head: growing the head while shrinking the tail, or the other way
  round, makes its \<^verbatim>\<open>memcpy\<close> leave one of the two blocks.
\<close>

theorem resize_safe_iff:
  assumes rt: "enough_memory rt" and wf: "wf_message m"
    and b: "unat (buffer_size m) < 2 ^ 31" "unat h + unat (data_size m) + unat t < 2 ^ 31"
  shows "if resize_safe m h t
     then \<exists>m'. edsm_message_resize rt m h t = Inr (SUCCESS, Some m') \<and> wf_message m'
       \<and> content m' = content m \<and> head_size m' = h \<and> tail_size m' = t
     else edsm_message_resize rt m h t = Inl OutOfBounds"
proof -
  let ?b = "h + data_size m + t"
  have ub: "unat ?b = unat h + unat (data_size m) + unat t"
    using b(2) by (simp add: unat_add)
  have hs: "unat (head_size m) < 2 ^ 31" using wf b by (simp add: wf_message_def)
  have sh: "sint h = int (unat h)" "sint (head_size m) = int (unat (head_size m))"
    using b hs by (simp_all only: sint_small)
  have diff: "int_sub x y = Inr (int (unat x - unat y))"
    if "unat y \<le> unat x" "unat x < 2 ^ 31" for x y
    unfolding int_sub_def sint_small [OF that(2)] sint_small [OF le_less_trans [OF that]]
    using that by (simp only: in_int_diff le_less_trans [OF that] check_True res_bind_Inr of_nat_diff)
  define sz where "sz = (if buffer_size m < ?b then buffer_size m else ?b)"
  have sz: "unat sz = min (unat (buffer_size m)) (unat ?b)" "unat sz < 2 ^ 31"
    using ub b by (auto simp: sz_def word_less_nat_alt)
  define dst where "dst = unat h - unat (head_size m)"
  define src where "src = unat (head_size m) - unat h"
  let ?mc = "memcpy (uninit (unat ?b)) (int dst) (buffer m) (int src) (unat sz)"
  have eq: "edsm_message_resize rt m h t = res_bind ?mc (\<lambda>buf'.
      Inr (SUCCESS, Some (m\<lparr>buffer := buf', buffer_size := ?b, tail_size := t, head_size := h,
        data := uint h\<rparr>)))"
  proof -
    have "(if sint h > sint (head_size m) then int_sub h (head_size m) else Inr 0) = Inr (int dst)"
      using diff [of "head_size m" h] b(2) unfolding sh dst_def by (simp del: of_nat_unat)
    moreover have "(if sint h > sint (head_size m) then Inr 0 else int_sub (head_size m) h) = Inr (int src)"
      using diff [of h "head_size m"] hs unfolding sh src_def by (simp del: of_nat_unat)
    ultimately show ?thesis
      using rt size_t_small [OF sz(2)] by (simp add: edsm_message_resize_def Let_def sz_def [symmetric])
  qed
  have len: "length (buffer m) = unat (buffer_size m)"
    "unat (head_size m) + unat (data_size m) + unat (tail_size m) = unat (buffer_size m)"
    using wf by (simp_all add: wf_message_def)
  show ?thesis
  proof (cases "resize_safe m h t")
    case True
    then have safe: "dst + unat sz \<le> unat ?b" "src + unat sz \<le> length (buffer m)"
      and inside: "unat h - dst + unat (data_size m) \<le> unat sz" "dst \<le> unat h"
        "unat h + src - dst = unat (head_size m)"
      using ub len unfolding sz(1) dst_def src_def resize_safe_def word_less_nat_alt word_le_nat_alt
      by (auto simp: min_def)
    let ?buf = "take dst (uninit (unat ?b)) @ take (unat sz) (drop src (buffer m))
       @ drop (dst + unat sz) (uninit (unat ?b))"
    have "?mc = Inr ?buf"
      using safe memcpy_ok [of "int dst" "unat sz" "uninit (unat ?b)" "int src" "buffer m"] by simp
    moreover have "take (unat (data_size m)) (drop (unat h) ?buf) = content m"
      using inside safe by (simp add: content_def drop_take)
    moreover have "length ?buf = unat ?b" using safe by simp
    ultimately show ?thesis
      using True ub unfolding eq by (simp add: wf_message_def content_def)
  next
    case False
    then have "\<not> (dst + unat sz \<le> unat ?b \<and> src + unat sz \<le> length (buffer m))" "unat sz \<noteq> 0"
      using ub len unfolding sz(1) dst_def src_def resize_safe_def word_less_nat_alt word_le_nat_alt
      by (auto simp: min_def)
    then have "?mc = Inl OutOfBounds" by (auto simp: memcpy_def)
    with False show ?thesis unfolding eq by simp
  qed
qed

theorem resize_safe_iff_witness:
  "edsm_message_resize good_runtime (message_of [1, 2]) 4 0 \<noteq> Inl OutOfBounds
   \<and> edsm_message_resize good_runtime ((message_of [1, 2])\<lparr>data_size := 0, tail_size := 2\<rparr>) 4 0 = Inl OutOfBounds"
proof -
  have wf: "wf_message (message_of [1, 2])" "wf_message ((message_of [1, 2])\<lparr>data_size := 0, tail_size := 2\<rparr>)"
    by (simp_all add: message_of_def wf_message_def)
  show ?thesis
    using resize_safe_iff [OF enough_memory_good wf(1), of 4 0] resize_safe_iff [OF enough_memory_good wf(2), of 4 0]
    by (simp add: message_of_def resize_safe_def) auto
qed

end
