(* ===== verification/Uthash.thy ===== *)
theory Uthash
  imports Prelude "HOL-Library.Multiset"
begin

text \<open>
  The hash table of \<^verbatim>\<open>src/uthash/uthash.h\<close>, as far as EDSM uses it:
  Jenkins' hash, lookup, insertion with bucket expansion, iteration and counting. An element is
  known by its address \<open>'p\<close>; the key is read through the element at every use, as the
  macros do through \<^verbatim>\<open>hh.key\<close>, so the operations take the function from elements
  to key bytes. Chains are lists in \<^verbatim>\<open>hh_next\<close> order and the application order
  (\<^verbatim>\<open>prev\<close>/\<^verbatim>\<open>next\<close>) is one list. A table whose allocation fails
  ends the process in the code; the model allocates without failure.
\<close>

section \<open>Jenkins' hash\<close>

type_synonym jen_state = "u32 \<times> u32 \<times> u32"

definition jen_round :: "u32 \<Rightarrow> u32 \<Rightarrow> u32 \<Rightarrow> u32 \<Rightarrow> u32" where
  "jen_round x y z s = (x - y - z) XOR s"

definition HASH_JEN_MIX :: "jen_state \<Rightarrow> jen_state" where
  "HASH_JEN_MIX s0 = (case s0 of (a, b, c) \<Rightarrow>
     let a = jen_round a b c (drop_bit 13 c);
         b = jen_round b c a (push_bit 8 a);
         c = jen_round c a b (drop_bit 13 b);
         a = jen_round a b c (drop_bit 12 c);
         b = jen_round b c a (push_bit 16 a);
         c = jen_round c a b (drop_bit 5 b);
         a = jen_round a b c (drop_bit 3 c);
         b = jen_round b c a (push_bit 10 a);
         c = jen_round c a b (drop_bit 15 b)
     in (a, b, c))"

definition jen_word :: "byte list \<Rightarrow> nat \<Rightarrow> u32" where
  "jen_word key n = ucast (key ! n) + push_bit 8 (ucast (key ! (n + 1)))
     + push_bit 16 (ucast (key ! (n + 2))) + push_bit 24 (ucast (key ! (n + 3)))"

function jen_blocks :: "byte list \<Rightarrow> jen_state \<Rightarrow> byte list \<times> jen_state" where
  "jen_blocks key (i, j, h) =
     (if 12 \<le> length key
      then jen_blocks (drop 12 key)
             (HASH_JEN_MIX (i + jen_word key 0, j + jen_word key 4, h + jen_word key 8))
      else (key, (i, j, h)))"
  by pat_completeness auto
termination
  by (relation "measure (\<lambda>(key, _). length key)") auto

declare jen_blocks.simps [simp del]

definition jen_tail_byte :: "byte list \<Rightarrow> nat \<Rightarrow> nat \<Rightarrow> u32" where
  "jen_tail_byte key n s = (if n < length key then push_bit s (ucast (key ! n)) else 0)"

text \<open>The \<^verbatim>\<open>switch\<close> with fall-through adds byte \<open>n\<close> exactly when the rest has more than \<open>n\<close> bytes.\<close>

definition HASH_JEN :: "byte list \<Rightarrow> u32" where
  "HASH_JEN key = (case jen_blocks key (0x9e3779b9, 0x9e3779b9, 0xfeedbeef) of (r, (i, j, h)) \<Rightarrow>
     let h = h + word_of_nat (length key) + jen_tail_byte r 10 24 + jen_tail_byte r 9 16
               + jen_tail_byte r 8 8;
         j = j + jen_tail_byte r 7 24 + jen_tail_byte r 6 16 + jen_tail_byte r 5 8
               + jen_tail_byte r 4 0;
         i = i + jen_tail_byte r 3 24 + jen_tail_byte r 2 16 + jen_tail_byte r 1 8
               + jen_tail_byte r 0 0
     in case HASH_JEN_MIX (i, j, h) of (_, _, h') \<Rightarrow> h')"

section \<open>The table\<close>

record 'p UT_hash_handle =
  elmt :: 'p
  hashv :: u32

record 'p UT_hash_bucket =
  hh_chain :: "'p UT_hash_handle list"
  bkt_count :: u32
  expand_mult :: u32

record 'p UT_hash_table =
  buckets :: "'p UT_hash_bucket list"
  num_buckets :: u32
  log2_num_buckets :: u32
  num_items :: u32
  app_order :: "'p list"
  ideal_chain_maxlen :: u32
  nonideal_items :: u32
  ineff_expands :: u32
  noexpand :: u32

text \<open>The head pointer of a table; \<^term>\<open>None\<close> is the null pointer of an empty table.\<close>

type_synonym 'p uthash = "'p UT_hash_table option"

definition HASH_INITIAL_NUM_BUCKETS :: u32 where "HASH_INITIAL_NUM_BUCKETS = 32"
definition HASH_INITIAL_NUM_BUCKETS_LOG2 :: u32 where "HASH_INITIAL_NUM_BUCKETS_LOG2 = 5"
definition HASH_BKT_CAPACITY_THRESH :: u32 where "HASH_BKT_CAPACITY_THRESH = 10"

definition empty_bucket :: "'p UT_hash_bucket" where
  "empty_bucket = \<lparr>hh_chain = [], bkt_count = 0, expand_mult = 0\<rparr>"

definition HASH_MAKE_TABLE :: "'p UT_hash_table" where
  "HASH_MAKE_TABLE =
     \<lparr>buckets = replicate (unat HASH_INITIAL_NUM_BUCKETS) empty_bucket,
      num_buckets = HASH_INITIAL_NUM_BUCKETS,
      log2_num_buckets = HASH_INITIAL_NUM_BUCKETS_LOG2,
      num_items = 0, app_order = [], ideal_chain_maxlen = 0, nonideal_items = 0,
      ineff_expands = 0, noexpand = 0\<rparr>"

definition HASH_TO_BKT :: "u32 \<Rightarrow> u32 \<Rightarrow> nat" where
  "HASH_TO_BKT hv num_bkts = unat (hv AND (num_bkts - 1))"

fun HASH_FIND_IN_BKT ::
    "('p \<Rightarrow> byte list) \<Rightarrow> 'p UT_hash_handle list \<Rightarrow> byte list \<Rightarrow> 'p option" where
  "HASH_FIND_IN_BKT keyof [] k = None"
| "HASH_FIND_IN_BKT keyof (h # hs) k =
     (if length (keyof (elmt h)) = length k \<and> keyof (elmt h) = k then Some (elmt h)
      else HASH_FIND_IN_BKT keyof hs k)"

definition HASH_FIND :: "('p \<Rightarrow> byte list) \<Rightarrow> 'p uthash \<Rightarrow> byte list \<Rightarrow> 'p option" where
  "HASH_FIND keyof head k =
     (case head of
        None \<Rightarrow> None
      | Some tbl \<Rightarrow>
          HASH_FIND_IN_BKT keyof
            (hh_chain (buckets tbl ! HASH_TO_BKT (HASH_JEN k) (num_buckets tbl))) k)"

text \<open>One item moved into the new bucket array by an expansion.\<close>

definition rehash_item ::
    "u32 \<Rightarrow> u32 \<Rightarrow> 'p UT_hash_handle \<Rightarrow> 'p UT_hash_bucket list \<times> u32
       \<Rightarrow> 'p UT_hash_bucket list \<times> u32" where
  "rehash_item num ideal h s = (case s of (bs, nonideal) \<Rightarrow>
     let b = HASH_TO_BKT (hashv h) num;
         bk = bs ! b;
         c = bkt_count bk + 1
     in if ideal < c
        then (bs[b := \<lparr>hh_chain = h # hh_chain bk, bkt_count = c, expand_mult = c div ideal\<rparr>],
              nonideal + 1)
        else (bs[b := \<lparr>hh_chain = h # hh_chain bk, bkt_count = c,
                expand_mult = expand_mult bk\<rparr>], nonideal))"

definition ideal_chain :: "'p UT_hash_table \<Rightarrow> u32" where
  "ideal_chain tbl =
     drop_bit (unat (log2_num_buckets tbl + 1)) (num_items tbl)
     + (if num_items tbl AND (num_buckets tbl * 2 - 1) \<noteq> 0 then 1 else 0)"

definition HASH_EXPAND_BUCKETS :: "'p UT_hash_table \<Rightarrow> 'p UT_hash_table" where
  "HASH_EXPAND_BUCKETS tbl =
     (let ideal = ideal_chain tbl;
          (bs, nonideal) = fold (rehash_item (num_buckets tbl * 2) ideal)
            (concat (map hh_chain (buckets tbl)))
            (replicate (unat (2 * num_buckets tbl)) empty_bucket, 0);
          ineff = (if drop_bit 1 (num_items tbl) < nonideal then ineff_expands tbl + 1 else 0)
      in tbl\<lparr>buckets := bs, num_buckets := num_buckets tbl * 2,
           log2_num_buckets := log2_num_buckets tbl + 1, ideal_chain_maxlen := ideal,
           nonideal_items := nonideal, ineff_expands := ineff,
           noexpand := (if 1 < ineff then 1 else noexpand tbl)\<rparr>)"

definition HASH_ADD_TO_BKT :: "'p UT_hash_table \<Rightarrow> nat \<Rightarrow> 'p UT_hash_handle \<Rightarrow> 'p UT_hash_table" where
  "HASH_ADD_TO_BKT tbl b h =
     (let bk = buckets tbl ! b;
          bk' = bk\<lparr>hh_chain := h # hh_chain bk, bkt_count := bkt_count bk + 1\<rparr>;
          tbl' = tbl\<lparr>buckets := (buckets tbl)[b := bk']\<rparr>
      in if (expand_mult bk' + 1) * HASH_BKT_CAPACITY_THRESH \<le> bkt_count bk'
            \<and> noexpand tbl' \<noteq> 1
         then HASH_EXPAND_BUCKETS tbl' else tbl')"

definition HASH_ADD :: "('p \<Rightarrow> byte list) \<Rightarrow> 'p uthash \<Rightarrow> 'p \<Rightarrow> 'p uthash" where
  "HASH_ADD keyof head p =
     (let tbl = (case head of None \<Rightarrow> HASH_MAKE_TABLE | Some t \<Rightarrow> t);
          tbl1 = tbl\<lparr>app_order := app_order tbl @ [p], num_items := num_items tbl + 1\<rparr>;
          h = HASH_JEN (keyof p)
      in Some (HASH_ADD_TO_BKT tbl1 (HASH_TO_BKT h (num_buckets tbl1)) \<lparr>elmt = p, hashv = h\<rparr>))"

text \<open>The elements in the order \<^verbatim>\<open>HASH_ITER\<close> visits them.\<close>

definition HASH_ITER :: "'p uthash \<Rightarrow> 'p list" where
  "HASH_ITER head = (case head of None \<Rightarrow> [] | Some tbl \<Rightarrow> app_order tbl)"

definition HASH_COUNT :: "'p uthash \<Rightarrow> u32" where
  "HASH_COUNT head = (case head of None \<Rightarrow> 0 | Some tbl \<Rightarrow> num_items tbl)"

text \<open>
  The consistency check of the debugging build: every bucket count is the length of its chain, and
  the number of items is both the sum of the counts and the length of the application order.
\<close>

definition HASH_FSCK :: "'p uthash \<Rightarrow> bool" where
  "HASH_FSCK head =
     (case head of
        None \<Rightarrow> True
      | Some tbl \<Rightarrow>
          list_all (\<lambda>bk. bkt_count bk = word_of_nat (length (hh_chain bk)))
            (take (unat (num_buckets tbl)) (buckets tbl))
          \<and> word_of_nat (sum_list (map (length \<circ> hh_chain)
                (take (unat (num_buckets tbl)) (buckets tbl)))) = num_items tbl
          \<and> word_of_nat (length (app_order tbl)) = num_items tbl)"

section \<open>The invariant of a table\<close>

definition all_handles :: "'p UT_hash_bucket list \<Rightarrow> 'p UT_hash_handle list" where
  "all_handles bs = concat (map hh_chain bs)"

definition wf_buckets :: "u32 \<Rightarrow> 'p UT_hash_bucket list \<Rightarrow> bool" where
  "wf_buckets num bs \<longleftrightarrow>
     (\<forall>b < length bs. bkt_count (bs ! b) = word_of_nat (length (hh_chain (bs ! b)))
        \<and> (\<forall>h \<in> set (hh_chain (bs ! b)). HASH_TO_BKT (hashv h) num = b))"

definition wf_table :: "('p \<Rightarrow> byte list) \<Rightarrow> 'p UT_hash_table \<Rightarrow> bool" where
  "wf_table keyof tbl \<longleftrightarrow>
     unat (log2_num_buckets tbl) < 32 \<and> num_buckets tbl = 2 ^ unat (log2_num_buckets tbl)
     \<and> length (buckets tbl) = unat (num_buckets tbl)
     \<and> wf_buckets (num_buckets tbl) (buckets tbl)
     \<and> mset (map elmt (all_handles (buckets tbl))) = mset (app_order tbl)
     \<and> num_items tbl = word_of_nat (length (app_order tbl))
     \<and> (\<forall>h \<in> set (all_handles (buckets tbl)). hashv h = HASH_JEN (keyof (elmt h)))"

definition wf_uthash :: "('p \<Rightarrow> byte list) \<Rightarrow> 'p uthash \<Rightarrow> bool" where
  "wf_uthash keyof head \<longleftrightarrow> (case head of None \<Rightarrow> True | Some tbl \<Rightarrow> wf_table keyof tbl)"

text \<open>Whether one more expansion keeps the number of buckets in its 32 bits.\<close>

definition can_expand :: "'p uthash \<Rightarrow> bool" where
  "can_expand head \<longleftrightarrow> (case head of None \<Rightarrow> True | Some tbl \<Rightarrow> unat (log2_num_buckets tbl) < 31)"

lemma HASH_TO_BKT_less:
  assumes "k < 32"
  shows "HASH_TO_BKT hv (2 ^ k) < 2 ^ k"
proof -
  have "hv AND (2 ^ k - 1) = take_bit k hv"
    by (simp add: take_bit_eq_mask mask_eq_exp_minus_1)
  then have "HASH_TO_BKT hv (2 ^ k) = take_bit k (unat hv)"
    by (simp only: HASH_TO_BKT_def unsigned_take_bit_eq)
  then show ?thesis by (simp only: take_bit_nat_less_exp)
qed

lemma unat_pow2: "k < 32 \<Longrightarrow> unat (2 ^ k :: u32) = 2 ^ k"
proof -
  assume "k < 32"
  then have "(2 :: nat) ^ k < 2 ^ 32" by (intro power_strict_increasing) simp_all
  then have "unat (word_of_nat (2 ^ k) :: u32) = 2 ^ k" by (rule unat_u32_of_nat)
  then show ?thesis by simp
qed

lemma mset_all_handles_update:
  assumes "b < length bs" "hh_chain bk = h # hh_chain (bs ! b)"
  shows "mset (all_handles (bs[b := bk])) = add_mset h (mset (all_handles bs))"
  using assms
proof (induction bs arbitrary: b)
  case Nil
  then show ?case by simp
next
  case (Cons x bs)
  then show ?case by (cases b) (auto simp: all_handles_def)
qed

lemma wf_buckets_update:
  assumes "wf_buckets num bs" "b < length bs" "HASH_TO_BKT (hashv h) num = b"
    and "hh_chain bk = h # hh_chain (bs ! b)" "bkt_count bk = bkt_count (bs ! b) + 1"
  shows "wf_buckets num (bs[b := bk])"
  using assms by (auto simp: wf_buckets_def nth_list_update)

lemma all_handles_empty [simp]: "all_handles (replicate n empty_bucket) = []"
  by (simp add: all_handles_def empty_bucket_def)

lemma wf_buckets_empty [simp]: "wf_buckets num (replicate n empty_bucket)"
  by (simp add: wf_buckets_def empty_bucket_def)

lemma rehash_item_wf:
  assumes "rehash_item num ideal h (bs, n) = (bs', n')"
    and "wf_buckets num bs" "HASH_TO_BKT (hashv h) num < length bs"
  shows "wf_buckets num bs'" "length bs' = length bs"
    "mset (all_handles bs') = add_mset h (mset (all_handles bs))"
proof -
  let ?b = "HASH_TO_BKT (hashv h) num"
  obtain bk where "bs' = bs[?b := bk]" "hh_chain bk = h # hh_chain (bs ! ?b)"
      "bkt_count bk = bkt_count (bs ! ?b) + 1"
    using assms(1) by (auto simp: rehash_item_def Let_def split: if_splits)
  then show "wf_buckets num bs'" "length bs' = length bs"
      "mset (all_handles bs') = add_mset h (mset (all_handles bs))"
    using wf_buckets_update [OF assms(2,3) refl] mset_all_handles_update [OF assms(3)] by simp_all
qed

lemma rehash_all_wf:
  assumes "wf_buckets num bs" "\<forall>hv. HASH_TO_BKT hv num < length bs"
  shows "\<exists>bs' n'. fold (rehash_item num ideal) hs (bs, n) = (bs', n')
     \<and> wf_buckets num bs' \<and> length bs' = length bs
     \<and> mset (all_handles bs') = mset hs + mset (all_handles bs)"
  using assms
proof (induction hs arbitrary: bs n)
  case Nil
  then show ?case by simp
next
  case (Cons h hs)
  obtain bs1 n1 where 1: "rehash_item num ideal h (bs, n) = (bs1, n1)" by fastforce
  have b: "HASH_TO_BKT (hashv h) num < length bs" using Cons.prems(2) by blast
  have wf1: "wf_buckets num bs1" "length bs1 = length bs"
    "mset (all_handles bs1) = add_mset h (mset (all_handles bs))"
    by (rule rehash_item_wf [OF 1 Cons.prems(1) b])+
  from Cons.IH [OF wf1(1), of n1] Cons.prems(2) wf1 1 show ?case by auto
qed

lemma expand_wf:
  assumes wf: "wf_table keyof tbl" and lg: "unat (log2_num_buckets tbl) < 31"
  shows "wf_table keyof (HASH_EXPAND_BUCKETS tbl)"
    and "app_order (HASH_EXPAND_BUCKETS tbl) = app_order tbl"
    and "log2_num_buckets (HASH_EXPAND_BUCKETS tbl) = log2_num_buckets tbl + 1"
proof -
  let ?k = "unat (log2_num_buckets tbl)" let ?hs = "all_handles (buckets tbl)"
  have num: "num_buckets tbl * 2 = 2 ^ Suc ?k" "unat (log2_num_buckets tbl + 1) = Suc ?k"
    using wf lg by (simp_all add: wf_table_def unat_add)
  have len: "unat (2 * num_buckets tbl) = 2 ^ Suc ?k"
    using num(1) lg unat_pow2 [of "Suc ?k"] by (simp add: mult.commute)
  obtain bs n where f: "fold (rehash_item (2 ^ Suc ?k) (ideal_chain tbl)) ?hs (replicate (2 ^ Suc ?k) empty_bucket, 0) = (bs, n)"
      and bs: "wf_buckets (2 ^ Suc ?k) bs" "length bs = 2 ^ Suc ?k" "mset (all_handles bs) = mset ?hs"
    using rehash_all_wf [of "2 ^ Suc ?k" "replicate (2 ^ Suc ?k) empty_bucket" "ideal_chain tbl" ?hs 0]
      HASH_TO_BKT_less [of "Suc ?k"] lg by auto
  have 1: "buckets (HASH_EXPAND_BUCKETS tbl) = bs" "num_buckets (HASH_EXPAND_BUCKETS tbl) = 2 ^ Suc ?k"
    "log2_num_buckets (HASH_EXPAND_BUCKETS tbl) = log2_num_buckets tbl + 1"
    "app_order (HASH_EXPAND_BUCKETS tbl) = app_order tbl" "num_items (HASH_EXPAND_BUCKETS tbl) = num_items tbl"
    using f unfolding HASH_EXPAND_BUCKETS_def Let_def num(1) len all_handles_def
    by (simp_all del: power_Suc)
  have "mset (map elmt (all_handles bs)) = mset (map elmt ?hs)"
    using bs(3) by simp
  moreover have "set (all_handles bs) = set ?hs" using bs(3) by (metis set_mset_mset)
  ultimately show "wf_table keyof (HASH_EXPAND_BUCKETS tbl)"
    using wf bs(1,2) 1 num(2) lg unat_pow2 [of "Suc ?k"] unfolding wf_table_def by simp
  show "app_order (HASH_EXPAND_BUCKETS tbl) = app_order tbl"
    "log2_num_buckets (HASH_EXPAND_BUCKETS tbl) = log2_num_buckets tbl + 1" using 1 by simp_all
qed

lemma add_to_bkt_wf:
  assumes wf: "wf_table keyof tbl" and lg: "unat (log2_num_buckets tbl) < 31"
    and h: "h = HASH_JEN (keyof p)"
  defines "t \<equiv> HASH_ADD_TO_BKT (tbl\<lparr>app_order := app_order tbl @ [p], num_items := num_items tbl + 1\<rparr>)
     (HASH_TO_BKT h (num_buckets tbl)) \<lparr>elmt = p, hashv = h\<rparr>"
  shows "wf_table keyof t \<and> app_order t = app_order tbl @ [p]"
proof -
  let ?b = "HASH_TO_BKT h (num_buckets tbl)"
  define bk where "bk = (buckets tbl ! ?b)\<lparr>hh_chain := \<lparr>elmt = p, hashv = h\<rparr> # hh_chain (buckets tbl ! ?b),
    bkt_count := bkt_count (buckets tbl ! ?b) + 1\<rparr>"
  define t1 where "t1 = tbl\<lparr>app_order := app_order tbl @ [p], num_items := num_items tbl + 1,
    buckets := (buckets tbl)[?b := bk]\<rparr>"
  have b: "?b < length (buckets tbl)"
    using wf HASH_TO_BKT_less [of "unat (log2_num_buckets tbl)"] unat_pow2 by (simp add: wf_table_def)
  have m: "mset (all_handles ((buckets tbl)[?b := bk])) = add_mset \<lparr>elmt = p, hashv = h\<rparr> (mset (all_handles (buckets tbl)))"
    by (rule mset_all_handles_update [OF b]) (simp add: bk_def)
  then have s: "set (all_handles ((buckets tbl)[?b := bk])) = insert \<lparr>elmt = p, hashv = h\<rparr> (set (all_handles (buckets tbl)))"
    by (metis set_mset_mset set_mset_add_mset_insert)
  have w: "wf_buckets (num_buckets tbl) ((buckets tbl)[?b := bk])"
    using wf b by (intro wf_buckets_update [where h = "\<lparr>elmt = p, hashv = h\<rparr>"]) (auto simp: wf_table_def bk_def)
  have "mset (map elmt (all_handles ((buckets tbl)[?b := bk]))) = add_mset p (mset (map elmt (all_handles (buckets tbl))))"
    using m by simp
  then have wf1: "wf_table keyof t1"
    using wf w s unfolding wf_table_def t1_def by (simp add: h)
  have "t = t1 \<or> t = HASH_EXPAND_BUCKETS t1"
    by (auto simp: t_def HASH_ADD_TO_BKT_def Let_def t1_def bk_def)
  moreover have "log2_num_buckets t1 = log2_num_buckets tbl" "app_order t1 = app_order tbl @ [p]"
    by (simp_all add: t1_def)
  ultimately show ?thesis using wf1 expand_wf [OF wf1] lg by auto
qed

lemma wf_make_table: "wf_table keyof HASH_MAKE_TABLE"
  by (simp add: wf_table_def HASH_MAKE_TABLE_def HASH_INITIAL_NUM_BUCKETS_def
      HASH_INITIAL_NUM_BUCKETS_LOG2_def)

lemma HASH_ADD_wf:
  assumes "wf_uthash keyof head" "can_expand head"
  shows "wf_uthash keyof (HASH_ADD keyof head p) \<and> HASH_ITER (HASH_ADD keyof head p) = HASH_ITER head @ [p]"
proof (cases head)
  case None
  have "unat (log2_num_buckets HASH_MAKE_TABLE) < 31"
    by (simp add: HASH_MAKE_TABLE_def HASH_INITIAL_NUM_BUCKETS_LOG2_def)
  from add_to_bkt_wf [OF wf_make_table this refl] None show ?thesis
    by (simp add: HASH_ADD_def Let_def wf_uthash_def HASH_ITER_def) (simp add: HASH_MAKE_TABLE_def)
next
  case (Some tbl)
  then show ?thesis
    using add_to_bkt_wf [of keyof tbl, OF _ _ refl] assms
    by (simp add: HASH_ADD_def Let_def wf_uthash_def HASH_ITER_def can_expand_def)
qed

lemma find_in_bkt_Some: "HASH_FIND_IN_BKT keyof hs k = Some p \<Longrightarrow> p \<in> elmt ` set hs \<and> keyof p = k"
  by (induction hs) (auto split: if_splits)

lemma find_in_bkt_None: "HASH_FIND_IN_BKT keyof hs k = None \<Longrightarrow> h \<in> set hs \<Longrightarrow> keyof (elmt h) \<noteq> k"
  by (induction hs) (auto split: if_splits)

lemma chain_subset: "b < length bs \<Longrightarrow> set (hh_chain (bs ! b)) \<subseteq> set (all_handles bs)"
  by (auto simp: all_handles_def intro!: bexI [of _ "bs ! b"])

lemma HASH_FIND_Some:
  assumes "wf_uthash keyof head" "HASH_FIND keyof head k = Some p"
  shows "p \<in> set (HASH_ITER head) \<and> keyof p = k"
proof -
  from assms(2) obtain tbl where head: "head = Some tbl" by (cases head) (auto simp: HASH_FIND_def)
  let ?b = "HASH_TO_BKT (HASH_JEN k) (num_buckets tbl)"
  have wf: "wf_table keyof tbl" using assms(1) head by (simp add: wf_uthash_def)
  then have b: "?b < length (buckets tbl)"
    using HASH_TO_BKT_less [of "unat (log2_num_buckets tbl)"] unat_pow2 by (simp add: wf_table_def)
  have "p \<in> elmt ` set (hh_chain (buckets tbl ! ?b)) \<and> keyof p = k"
    using assms(2) head by (intro find_in_bkt_Some) (simp add: HASH_FIND_def)
  then have "p \<in> set (map elmt (all_handles (buckets tbl)))" "keyof p = k"
    using chain_subset [OF b] by auto
  moreover have "set (map elmt (all_handles (buckets tbl))) = set (app_order tbl)"
    using wf by (metis wf_table_def set_mset_mset)
  ultimately show ?thesis using head by (simp add: HASH_ITER_def)
qed

lemma HASH_FIND_None:
  assumes "wf_uthash keyof head" "HASH_FIND keyof head k = None" "p \<in> set (HASH_ITER head)"
  shows "keyof p \<noteq> k"
proof
  assume k: "keyof p = k"
  from assms(3) obtain tbl where head: "head = Some tbl" by (cases head) (auto simp: HASH_ITER_def)
  have wf: "wf_table keyof tbl" using assms(1) head by (simp add: wf_uthash_def)
  have "p \<in> set (map elmt (all_handles (buckets tbl)))"
    using wf assms(3) head by (metis wf_table_def set_mset_mset HASH_ITER_def option.simps(5))
  then obtain b h where h: "b < length (buckets tbl)" "h \<in> set (hh_chain (buckets tbl ! b))" "p = elmt h"
    by (auto simp: all_handles_def in_set_conv_nth [of _ "buckets tbl"])
  then have "hashv h = HASH_JEN k" "HASH_TO_BKT (hashv h) (num_buckets tbl) = b"
    using wf k chain_subset [OF h(1)] by (auto simp: wf_table_def wf_buckets_def)
  with h head assms(2) have "keyof (elmt h) \<noteq> k"
    by (intro find_in_bkt_None) (auto simp: HASH_FIND_def)
  with h(3) k show False by simp
qed

lemma HASH_FSCK_wf: "wf_uthash keyof head \<Longrightarrow> HASH_FSCK head"
proof (cases head)
  case (Some tbl)
  assume "wf_uthash keyof head"
  with Some have wf: "wf_table keyof tbl" by (simp add: wf_uthash_def)
  have "length (map elmt (all_handles (buckets tbl))) = length (app_order tbl)"
    using wf by (metis wf_table_def size_mset)
  then have "sum_list (map (length \<circ> hh_chain) (buckets tbl)) = length (app_order tbl)"
    by (simp add: all_handles_def length_concat comp_def)
  then show ?thesis
    using wf Some by (auto simp: HASH_FSCK_def wf_table_def wf_buckets_def list_all_length)
qed (simp add: HASH_FSCK_def)

text \<open>Every insertion doubles the number of buckets at most once.\<close>

definition few_items :: "'p uthash \<Rightarrow> bool" where
  "few_items head \<longleftrightarrow> length (HASH_ITER head) < 26 \<and>
     (case head of None \<Rightarrow> True | Some tbl \<Rightarrow> unat (log2_num_buckets tbl) \<le> 5 + length (app_order tbl))"

lemma few_items_can_expand: "few_items head \<Longrightarrow> can_expand head"
  by (auto simp: few_items_def can_expand_def HASH_ITER_def split: option.splits)

lemma log2_add:
  assumes "wf_uthash keyof head" "can_expand head"
  shows "case HASH_ADD keyof head p of None \<Rightarrow> False | Some t \<Rightarrow>
     unat (log2_num_buckets t) \<le> Suc (case head of None \<Rightarrow> 5 | Some u \<Rightarrow> unat (log2_num_buckets u))"
proof -
  have e: "log2_num_buckets (HASH_ADD_TO_BKT t b h) = log2_num_buckets t
      \<or> log2_num_buckets (HASH_ADD_TO_BKT t b h) = log2_num_buckets t + 1" for t :: "'p UT_hash_table" and b h
    by (auto simp: HASH_ADD_TO_BKT_def HASH_EXPAND_BUCKETS_def Let_def split: prod.splits)
  let ?t = "case head of None \<Rightarrow> HASH_MAKE_TABLE | Some t \<Rightarrow> t"
  let ?t1 = "?t\<lparr>app_order := app_order ?t @ [p], num_items := num_items ?t + 1\<rparr>"
  let ?h = "HASH_JEN (keyof p)"
  have l: "unat (log2_num_buckets ?t) = (case head of None \<Rightarrow> 5 | Some u \<Rightarrow> unat (log2_num_buckets u))"
    by (auto simp: HASH_MAKE_TABLE_def HASH_INITIAL_NUM_BUCKETS_LOG2_def split: option.splits)
  moreover have "unat (log2_num_buckets ?t) < 31"
    using assms(2) by (auto simp: can_expand_def HASH_MAKE_TABLE_def HASH_INITIAL_NUM_BUCKETS_LOG2_def
        split: option.splits)
  moreover have "log2_num_buckets ?t1 = log2_num_buckets ?t" by simp
  ultimately show ?thesis
    using e [of ?t1 "HASH_TO_BKT ?h (num_buckets ?t1)" "\<lparr>elmt = p, hashv = ?h\<rparr>"]
    by (auto simp: HASH_ADD_def Let_def unat_add)
qed

lemma few_items_add:
  assumes "wf_uthash keyof head" "few_items head" "Suc (length (HASH_ITER head)) < 26"
  shows "few_items (HASH_ADD keyof head p)"
  using HASH_ADD_wf [OF assms(1) few_items_can_expand [OF assms(2)], of p]
    log2_add [OF assms(1) few_items_can_expand [OF assms(2)], of p] assms(2,3)
  by (auto simp: few_items_def HASH_ITER_def split: option.splits)

lemma HASH_COUNT_wf: "wf_uthash keyof head \<Longrightarrow> HASH_COUNT head = word_of_nat (length (HASH_ITER head))"
  by (auto simp: wf_uthash_def wf_table_def HASH_COUNT_def HASH_ITER_def split: option.splits)

lemma wf_uthash_cong:
  assumes "\<And>p. p \<in> set (HASH_ITER head) \<Longrightarrow> keyof' p = keyof p" "wf_uthash keyof head"
  shows "wf_uthash keyof' head"
proof (cases head)
  case (Some tbl)
  with assms(2) have wf: "wf_table keyof tbl" by (simp add: wf_uthash_def)
  then have "set (map elmt (all_handles (buckets tbl))) = set (app_order tbl)"
    by (metis wf_table_def set_mset_mset)
  then have "\<forall>h \<in> set (all_handles (buckets tbl)). keyof' (elmt h) = keyof (elmt h)"
    using assms(1) Some by (auto simp: HASH_ITER_def)
  with wf have "wf_table keyof' tbl" by (auto simp: wf_table_def)
  with Some show ?thesis by (simp add: wf_uthash_def)
qed (simp add: wf_uthash_def)

section \<open>The contract of a table indexed by a key\<close>

text \<open>
  What the users of a table rely on, whatever the hash function does: a lookup returns an element
  in the table that has the key, and fails only when there is none; insertion appends to the
  iteration order.
\<close>

locale key_table =
  fixes find :: "'t \<Rightarrow> 'k \<Rightarrow> 'p option"
    and add :: "'t \<Rightarrow> 'p \<Rightarrow> 't"
    and items :: "'t \<Rightarrow> 'p list"
    and key :: "'p \<Rightarrow> 'k"
    and inv :: "'t \<Rightarrow> bool"
    and room :: "'t \<Rightarrow> bool"
  assumes find_in: "inv t \<Longrightarrow> find t k = Some p \<Longrightarrow> p \<in> set (items t) \<and> key p = k"
    and find_none: "inv t \<Longrightarrow> find t k = None \<Longrightarrow> p \<in> set (items t) \<Longrightarrow> key p \<noteq> k"
    and inv_add: "inv t \<Longrightarrow> room t \<Longrightarrow> inv (add t p)"
    and items_add: "inv t \<Longrightarrow> room t \<Longrightarrow> items (add t p) = items t @ [p]"
begin

definition keyed :: "'t \<Rightarrow> bool" where
  "keyed t \<longleftrightarrow> inv t \<and> distinct (map key (items t))"

lemma find_iff: "keyed t \<Longrightarrow> find t k = Some p \<longleftrightarrow> p \<in> set (items t) \<and> key p = k"
proof
  show "keyed t \<Longrightarrow> find t k = Some p \<Longrightarrow> p \<in> set (items t) \<and> key p = k"
    using find_in by (auto simp: keyed_def)
  assume k: "keyed t" and p: "p \<in> set (items t) \<and> key p = k"
  then obtain q where q: "find t k = Some q" using find_none by (cases "find t k") (auto simp: keyed_def)
  with find_in k have "q \<in> set (items t)" "key q = k" by (auto simp: keyed_def)
  with p k have "q = p" by (auto simp: keyed_def distinct_map inj_on_def)
  with q show "find t k = Some p" by simp
qed

lemma find_None_iff: "inv t \<Longrightarrow> find t k = None \<longleftrightarrow> k \<notin> key ` set (items t)"
  by (cases "find t k") (auto dest: find_none find_in)

lemma keyed_add: "keyed t \<Longrightarrow> room t \<Longrightarrow> find t (key p) = None \<Longrightarrow> keyed (add t p)"
  using find_None_iff [of t "key p"] by (auto simp: keyed_def inv_add items_add)

lemma find_add:
  assumes "keyed t" "room t" "find t (key p) = None"
  shows "find (add t p) k = (if k = key p then Some p else find t k)"
proof -
  have kt: "keyed (add t p)" by (rule keyed_add [OF assms])
  have it: "items (add t p) = items t @ [p]" using assms by (simp add: keyed_def items_add)
  show ?thesis
  proof (cases "find t k")
    case None
    then show ?thesis
      using find_iff [OF kt, of k p] find_None_iff [of "add t p" k] find_None_iff [of t k] it kt assms(1)
      by (auto simp: keyed_def)
  next
    case (Some q)
    then show ?thesis
      using find_iff [OF kt, of k q] find_iff [OF assms(1), of k q] it assms(3) by auto
  qed
qed

end

interpretation uthash: key_table "HASH_FIND keyof" "HASH_ADD keyof" HASH_ITER keyof
    "wf_uthash keyof" can_expand for keyof
  by unfold_locales (simp_all add: HASH_FIND_Some HASH_FIND_None HASH_ADD_wf)

lemma empty_table [simp]:
  "uthash.keyed keyof None" "can_expand None" "few_items None" "HASH_FIND keyof None k = None" "HASH_ITER None = []"
  "wf_uthash keyof None"
  by (simp_all add: uthash.keyed_def wf_uthash_def HASH_ITER_def can_expand_def HASH_FIND_def few_items_def)

text \<open>Only the keys of the elements in the table matter.\<close>

lemma keyed_cong:
  assumes same: "\<And>p. p \<in> set (HASH_ITER head) \<Longrightarrow> keyof' p = keyof p" and k: "uthash.keyed keyof head"
  shows "uthash.keyed keyof' head" "HASH_FIND keyof' head k = HASH_FIND keyof head k"
proof -
  have "wf_uthash keyof' head"
    by (rule wf_uthash_cong [OF same]) (use k in \<open>simp_all add: uthash.keyed_def\<close>)
  moreover have "map keyof' (HASH_ITER head) = map keyof (HASH_ITER head)" using same by simp
  ultimately show k': "uthash.keyed keyof' head" using k unfolding uthash.keyed_def by argo
  have "HASH_FIND keyof' head k = Some p \<longleftrightarrow> HASH_FIND keyof head k = Some p" for p
    using same by (auto simp: uthash.find_iff [OF k] uthash.find_iff [OF k'])
  then show "HASH_FIND keyof' head k = HASH_FIND keyof head k" by (metis not_None_eq)
qed

section \<open>Properties\<close>

text \<open>Inserting an element whose key is not in the table keeps the table well formed and its
  keys distinct, whether or not the buckets are expanded; afterwards a lookup of that key finds the
  element, every other lookup answers as before, and iteration visits the new element last.\<close>

theorem hash_add_then_find:
  assumes "wf_uthash keyof head" "distinct (map keyof (HASH_ITER head))" "can_expand head"
    and "HASH_FIND keyof head (keyof p) = None"
  shows "wf_uthash keyof (HASH_ADD keyof head p)
    \<and> distinct (map keyof (HASH_ITER (HASH_ADD keyof head p)))
    \<and> HASH_ITER (HASH_ADD keyof head p) = HASH_ITER head @ [p]
    \<and> HASH_FIND keyof (HASH_ADD keyof head p) k
        = (if k = keyof p then Some p else HASH_FIND keyof head k)"
proof -
  have k: "uthash.keyed keyof head" using assms by (simp add: uthash.keyed_def)
  from uthash.keyed_add [OF k assms(3,4)] uthash.find_add [OF k assms(3,4)] HASH_ADD_wf [OF assms(1,3)]
  show ?thesis unfolding uthash.keyed_def by blast
qed

lemma hash_add_then_find_witness:
  "HASH_FIND bytes_of_u32 (HASH_ADD bytes_of_u32 None 7) (bytes_of_u32 9) = None
   \<and> HASH_ITER (HASH_ADD bytes_of_u32 None 7) = [7]"
  using hash_add_then_find [of bytes_of_u32 None 7 "bytes_of_u32 9"]
  by (simp add: wf_uthash_def can_expand_def HASH_FIND_def HASH_ITER_def)

text \<open>The consistency check of the debugging build (\<^verbatim>\<open>HASH_FSCK\<close>) accepts the table after
  every insertion, so it never ends the process; each bucket then holds exactly the items whose
  stored hash value selects it.\<close>

theorem hash_fsck_after_add:
  assumes "wf_uthash keyof head" "can_expand head"
  shows "HASH_FSCK (HASH_ADD keyof head p)
    \<and> (case HASH_ADD keyof head p of None \<Rightarrow> False
       | Some tbl \<Rightarrow> \<forall>b < length (buckets tbl). list_all
           (\<lambda>h. HASH_TO_BKT (hashv h) (num_buckets tbl) = b) (hh_chain (buckets tbl ! b)))"
proof -
  have wf: "wf_uthash keyof (HASH_ADD keyof head p)"
    by (rule conjunct1 [OF HASH_ADD_wf [OF assms]])
  have "\<exists>tbl. HASH_ADD keyof head p = Some tbl"
    unfolding HASH_ADD_def Let_def by (rule exI) (rule refl)
  then obtain tbl where tbl: "HASH_ADD keyof head p = Some tbl" ..
  from wf [unfolded tbl] have "wf_buckets (num_buckets tbl) (buckets tbl)"
    unfolding wf_uthash_def wf_table_def option.case by (elim conjE)
  then show ?thesis
    using HASH_FSCK_wf [OF wf] unfolding tbl option.case wf_buckets_def list_all_iff by blast
qed

lemma hash_fsck_after_add_witness: "HASH_FSCK (HASH_ADD bytes_of_u32 None 7)"
  using hash_fsck_after_add [of bytes_of_u32 None 7] by (simp add: wf_uthash_def can_expand_def)

end
