(* ===== verification/Socket.thy ===== *)
theory Socket
  imports Timing
begin

text \<open>
  The socket layer, \<^verbatim>\<open>src/src/socket.c\<close> and \<^verbatim>\<open>socket.h\<close>. The
  calls of the operating system are the fields of a record, each one a function of the state of the
  outside world \<open>'w\<close>; what the code relies on about them is stated where it is used.
  \<^verbatim>\<open>errno\<close> is read from the world. A \<^verbatim>\<open>struct sockaddr_storage\<close> is its
  128 bytes in the Linux layout: the family in bytes 0 and 1, the port of an IPv4 or IPv6 address in
  bytes 2 and 3.
\<close>

section \<open>The operating system\<close>

type_synonym sockaddr = "byte list"

definition sizeof_sockaddr :: nat where "sizeof_sockaddr = 128"

definition AF_UNSPEC :: int where "AF_UNSPEC = 0"
definition AF_INET :: int where "AF_INET = 2"
definition AF_INET6 :: int where "AF_INET6 = 10"
definition SOCK_STREAM :: int where "SOCK_STREAM = 1"
definition IPPROTO_TCP :: int where "IPPROTO_TCP = 6"
definition EINPROGRESS :: int where "EINPROGRESS = 115"
definition O_NONBLOCK :: i32 where "O_NONBLOCK = 0x800"
definition AI_PASSIVE :: i32 where "AI_PASSIVE = 1"
definition AI_NUMERICHOST :: i32 where "AI_NUMERICHOST = 4"
definition AI_V4MAPPED :: i32 where "AI_V4MAPPED = 8"
definition AI_NUMERICSERV :: i32 where "AI_NUMERICSERV = 0x400"

record addr_hints =
  ai_family :: int
  ai_socktype :: int
  ai_flags :: i32

record addrinfo =
  ai_addr :: "sockaddr option"
  ai_addrlen :: nat

record 'w os =
  os_socket :: "int \<Rightarrow> int \<Rightarrow> int \<Rightarrow> 'w \<Rightarrow> int \<times> 'w"
  os_reuseaddr :: "int \<Rightarrow> 'w \<Rightarrow> int \<times> 'w"
  os_getaddrinfo :: "byte list option \<Rightarrow> byte list option \<Rightarrow> addr_hints \<Rightarrow> 'w
                       \<Rightarrow> (int \<times> addrinfo option) \<times> 'w"
  os_freeaddrinfo :: "addrinfo option \<Rightarrow> 'w \<Rightarrow> 'w"
  os_bind :: "int \<Rightarrow> sockaddr \<Rightarrow> nat \<Rightarrow> 'w \<Rightarrow> int \<times> 'w"
  os_listen :: "int \<Rightarrow> int \<Rightarrow> 'w \<Rightarrow> int \<times> 'w"
  os_accept :: "int \<Rightarrow> 'w \<Rightarrow> (int \<times> sockaddr) \<times> 'w"
  os_connect :: "int \<Rightarrow> sockaddr \<Rightarrow> nat \<Rightarrow> 'w \<Rightarrow> int \<times> 'w"
  os_select_write :: "int \<Rightarrow> timeval \<Rightarrow> 'w \<Rightarrow> int \<times> 'w"
  os_so_error :: "int \<Rightarrow> 'w \<Rightarrow> int \<times> 'w"
  os_getfl :: "int \<Rightarrow> 'w \<Rightarrow> i32 \<times> 'w"
  os_setfl :: "int \<Rightarrow> i32 \<Rightarrow> 'w \<Rightarrow> int \<times> 'w"
  os_errno :: "'w \<Rightarrow> int"
  os_close :: "int \<Rightarrow> 'w \<Rightarrow> 'w"
  os_write :: "int \<Rightarrow> cell list \<Rightarrow> 'w \<Rightarrow> int \<times> 'w"
  os_read :: "int \<Rightarrow> nat \<Rightarrow> 'w \<Rightarrow> (int \<times> byte list) \<times> 'w"

section \<open>Operations\<close>

text \<open>\<^verbatim>\<open>snprintf\<close> with \<^verbatim>\<open>%d\<close> or \<^verbatim>\<open>%hu\<close> of a port number.\<close>

fun decimal :: "nat \<Rightarrow> byte list" where
  "decimal n = (if n < 10 then [word_of_nat (48 + n)]
                else decimal (n div 10) @ [word_of_nat (48 + n mod 10)])"

declare decimal.simps [simp del]

definition listen_hints :: addr_hints where
  "listen_hints = \<lparr>ai_family = AF_INET6, ai_socktype = SOCK_STREAM,
     ai_flags = AI_V4MAPPED OR AI_NUMERICHOST OR AI_PASSIVE\<rparr>"

definition edsm_socket_listen :: "'w os \<Rightarrow> u16 \<Rightarrow> int \<Rightarrow> 'w \<Rightarrow> (int \<times> 'w) res" where
  "edsm_socket_listen os local_port backlog w0 =
     (case os_socket os AF_INET6 SOCK_STREAM IPPROTO_TCP w0 of (sockfd, w1) \<Rightarrow>
      if sockfd < 0 then Inr (- 1, w1) else
      case os_reuseaddr os sockfd w1 of (r, w2) \<Rightarrow>
      if r < 0 then Inr (- 1, os_close os sockfd w2) else
      case os_getaddrinfo os None (Some (decimal (unat local_port))) listen_hints w2 of
        ((ret, results), w3) \<Rightarrow>
      if ret \<noteq> 0 then Inr (- 1, os_close os sockfd w3) else
      case results of None \<Rightarrow> Inl AssertionFailed | Some ai \<Rightarrow>
      case ai_addr ai of None \<Rightarrow> Inl AssertionFailed | Some addr \<Rightarrow>
      case os_bind os sockfd addr (ai_addrlen ai) w3 of (b, w4) \<Rightarrow>
      if b < 0 then Inr (- 1, os_close os sockfd (os_freeaddrinfo os results w4)) else
      case os_listen os sockfd backlog w4 of (l, w5) \<Rightarrow>
      if l < 0 then Inr (- 1, os_close os sockfd (os_freeaddrinfo os results w5)) else
      Inr (sockfd, os_freeaddrinfo os results w5))"

text \<open>\<^verbatim>\<open>set_nonblock\<close>; the flags are the bits of an \<^verbatim>\<open>int\<close>.\<close>

definition set_nonblock :: "'w os \<Rightarrow> int \<Rightarrow> bool \<Rightarrow> 'w \<Rightarrow> int \<times> 'w" where
  "set_nonblock os sockfd enable w0 =
     (case os_getfl os sockfd w0 of (flags, w1) \<Rightarrow>
      if flags = - 1 then (- 1, w1)
      else if enable \<and> flags AND O_NONBLOCK = 0 then
        (case os_setfl os sockfd (flags OR O_NONBLOCK) w1 of (r, w2) \<Rightarrow>
          if r = - 1 then (- 1, w2) else (0, w2))
      else if \<not> enable \<and> flags AND O_NONBLOCK \<noteq> 0 then
        (case os_setfl os sockfd (flags AND NOT O_NONBLOCK) w1 of (r, w2) \<Rightarrow>
          if r = - 1 then (- 1, w2) else (0, w2))
      else (0, w1))"

definition ss_family :: "sockaddr \<Rightarrow> int" where
  "ss_family addr = (case u16_of_bytes (take 2 addr) of None \<Rightarrow> - 1 | Some f \<Rightarrow> uint f)"

definition edsm_socket_connect :: "'w os \<Rightarrow> sockaddr \<Rightarrow> timeval option \<Rightarrow> 'w \<Rightarrow> int \<times> 'w" where
  "edsm_socket_connect os dest timeout w0 =
     (case os_socket os (ss_family dest) SOCK_STREAM IPPROTO_TCP w0 of (sockfd, w1) \<Rightarrow>
      if sockfd < 0 then (FAILURE, w1) else
      case (case timeout of None \<Rightarrow> (0, w1) | Some _ \<Rightarrow> set_nonblock os sockfd True w1) of (_, w2) \<Rightarrow>
      case os_connect os sockfd dest sizeof_sockaddr w2 of (rtn, w3) \<Rightarrow>
      if rtn = - 1 \<and> os_errno os w3 \<noteq> EINPROGRESS then (FAILURE, os_close os sockfd w3) else
      case timeout of
        None \<Rightarrow> (sockfd, w3)
      | Some t \<Rightarrow>
          case os_select_write os sockfd t w3 of (s, w4) \<Rightarrow>
          if s < 0 then (FAILURE, os_close os sockfd w4)
          else if s = 0 then (FAILURE, os_close os sockfd w4)
          else
            case os_so_error os sockfd w4 of (err, w5) \<Rightarrow>
            if err \<noteq> 0 then (FAILURE, os_close os sockfd w5) else
            case set_nonblock os sockfd False w5 of (_, w6) \<Rightarrow> (sockfd, w6))"

text \<open>
  \<^verbatim>\<open>edsm_socket_read(fd, buffer, size)\<close>. The system call stores what it read at the
  current end of what was read before; it terminates because every round that goes on reads at
  least one byte.
\<close>

function socket_read_loop ::
    "'w os \<Rightarrow> int \<Rightarrow> cell list \<Rightarrow> int \<Rightarrow> int \<Rightarrow> 'w \<Rightarrow> (int \<times> cell list \<times> 'w) res" where
  "socket_read_loop os sockfd buf bytes_read sz w =
     (if bytes_read < sz
      then case os_read os sockfd (nat (sz - bytes_read)) w of ((ret, bs), w') \<Rightarrow>
        if ret < 1 then Inr (- 1, buf, w')
        else case memcpy buf bytes_read (cells bs) 0 (nat ret) of
            Inl e \<Rightarrow> Inl e
          | Inr buf' \<Rightarrow> socket_read_loop os sockfd buf' (bytes_read + ret) sz w'
      else Inr (0, buf, w))"
  by pat_completeness auto
termination
  by (relation "measure (\<lambda>(_, _, _, bytes_read, sz, _). nat (sz - bytes_read))") auto

declare socket_read_loop.simps [simp del]

definition edsm_socket_read ::
    "'w os \<Rightarrow> int \<Rightarrow> cell list \<Rightarrow> i32 \<Rightarrow> 'w \<Rightarrow> (int \<times> cell list \<times> 'w) res" where
  "edsm_socket_read os sockfd buf sz w = socket_read_loop os sockfd buf 0 (sint sz) w"

definition htons :: "u16 \<Rightarrow> byte list" where
  "htons p = [ucast (drop_bit 8 p), ucast p]"

text \<open>The two branches of the code store to the same place: both \<^verbatim>\<open>sin_port\<close> and \<^verbatim>\<open>sin6_port\<close> are bytes 2 and 3.\<close>

definition edsm_socket_set_sockaddr_port :: "sockaddr \<Rightarrow> u16 \<Rightarrow> sockaddr" where
  "edsm_socket_set_sockaddr_port addr port =
     take 2 addr @ htons port @ drop 4 addr"

definition ntohs :: "byte list \<Rightarrow> u16" where
  "ntohs bs = (case u16_of_bytes (rev bs) of None \<Rightarrow> 0 | Some p \<Rightarrow> p)"

text \<open>
  \<^verbatim>\<open>edsm_socket_addr_to_string\<close>: the text of the address, as \<^verbatim>\<open>inet_ntop\<close>
  writes it (a parameter), and the port number.
\<close>

definition edsm_socket_addr_to_string ::
    "(int \<Rightarrow> byte list \<Rightarrow> byte list) \<Rightarrow> sockaddr \<Rightarrow> byte list \<times> int" where
  "edsm_socket_addr_to_string inet_ntop addr =
     (if ss_family addr = AF_INET
      then (inet_ntop AF_INET (take 4 (drop 4 addr)), uint (ntohs (take 2 (drop 2 addr))))
      else (inet_ntop AF_INET6 (take 16 (drop 8 addr)), uint (ntohs (take 2 (drop 2 addr)))))"

definition build_sockaddr_hints_fallback :: addr_hints where
  "build_sockaddr_hints_fallback =
     \<lparr>ai_family = AF_INET, ai_socktype = 0, ai_flags = AI_NUMERICSERV OR AI_V4MAPPED\<rparr>"

text \<open>
  \<^verbatim>\<open>edsm_socket_build_sockaddr\<close>: both attempts use the fallback hints, as in the code.
  The block the address is copied into has \<^verbatim>\<open>sizeof(struct sockaddr_storage)\<close> bytes.
\<close>

definition edsm_socket_build_sockaddr ::
    "'w os \<Rightarrow> byte list option \<Rightarrow> u16 \<Rightarrow> sockaddr \<Rightarrow> 'w \<Rightarrow> (int \<times> sockaddr \<times> 'w) res" where
  "edsm_socket_build_sockaddr os ip port dest w0 =
     (case ip of None \<Rightarrow> Inl AssertionFailed | Some host \<Rightarrow>
      let serv = (if 0 < port then Some (decimal (unat port)) else None) in
      case (case os_getaddrinfo os ip serv build_sockaddr_hints_fallback w0 of ((err, res), w1) \<Rightarrow>
              if err \<noteq> 0 then os_getaddrinfo os ip serv build_sockaddr_hints_fallback w1
              else ((err, res), w1)) of ((err, results), w2) \<Rightarrow>
      if err \<noteq> 0 then Inr (FAILURE, dest, w2) else
      res_bind (non_null results) (\<lambda>ai.
      res_bind (non_null (ai_addr ai)) (\<lambda>addr.
      res_bind (memcpy (replicate (length dest) 0) 0 addr 0 (ai_addrlen ai)) (\<lambda>dest'.
      Inr (int (ai_addrlen ai), dest', os_freeaddrinfo os results w2)))))"

text \<open>\<^verbatim>\<open>slash_to_netmask\<close>: the shift is done in \<^verbatim>\<open>int\<close>.\<close>

definition slash_to_netmask :: "i32 \<Rightarrow> u32 res" where
  "slash_to_netmask slash =
     (if sint slash \<le> 0 then Inr 0
      else if 32 \<le> sint slash then Inr 0xFFFFFFFF
      else let k = nat (32 - sint slash)
           in res_bind (check SignedOverflow (in_int (2 ^ k) \<and> in_int (2 ^ k - 1))) (\<lambda>_.
              Inr (NOT (2 ^ k - 1))))"

section \<open>Properties\<close>

text \<open>
  A file descriptor that delivers a byte stream: a read of \<open>n > 0\<close> bytes returns some of
  the next bytes, at least one and at most \<open>n\<close>, in pieces of its own choice; at the end of
  the stream it returns 0.
\<close>

definition delivers :: "'w os \<Rightarrow> int \<Rightarrow> ('w \<Rightarrow> byte list) \<Rightarrow> bool" where
  "delivers os fd stream \<longleftrightarrow>
     (\<forall>n w. 0 < n \<longrightarrow> (case os_read os fd n w of ((ret, bs), w') \<Rightarrow>
        bs = take (length bs) (stream w) \<and> ret = int (length bs) \<and> length bs \<le> n
        \<and> stream w' = drop (length bs) (stream w)
        \<and> (stream w \<noteq> [] \<longrightarrow> bs \<noteq> [])))"

lemma socket_read_loop_stream:
  assumes "delivers os fd stream"
  shows "n \<le> m \<Longrightarrow> m \<le> length buf \<Longrightarrow>
     \<exists>buf' w'. socket_read_loop os fd buf (int n) (int m) w =
       Inr (if m - n \<le> length (stream w) then 0 else - 1, buf', w')
     \<and> (m - n \<le> length (stream w) \<longrightarrow>
          buf' = take n buf @ cells (take (m - n) (stream w)) @ drop m buf
          \<and> stream w' = drop (m - n) (stream w))"
proof (induction "m - n" arbitrary: n buf w rule: less_induct)
  case less
  show ?case
  proof (cases "n < m")
    case False
    with less.prems show ?thesis by (simp add: socket_read_loop.simps)
  next
    case nm: True
    obtain ret bs w' where rd: "os_read os fd (m - n) w = ((ret, bs), w')" by (metis surj_pair)
    from assms nm rd have d: "bs = take (length bs) (stream w)" "ret = int (length bs)"
      "length bs \<le> m - n" "stream w' = drop (length bs) (stream w)" "stream w \<noteq> [] \<longrightarrow> bs \<noteq> []"
      unfolding delivers_def by (auto dest!: spec [of _ "m - n"] spec [of _ w])
    show ?thesis
    proof (cases "bs = []")
      case nil: True
      with d have "stream w = []" by blast
      with nm rd d nil show ?thesis by (simp add: socket_read_loop.simps [of _ _ _ "int n"] nat_diff_distrib)
    next
      case False
      let ?k = "length bs"
      define buf1 where "buf1 = take n buf @ cells bs @ drop (n + ?k) buf"
      have k: "0 < ?k" "n + ?k \<le> m" using False d(3) nm by auto
      have len: "length buf1 = length buf" using k less.prems by (simp add: buf1_def)
      have step: "socket_read_loop os fd buf (int n) (int m) w = socket_read_loop os fd buf1 (int (n + ?k)) (int m) w'"
        using rd d(2) k less.prems False
        by (simp add: socket_read_loop.simps [of _ _ _ "int n"] nat_diff_distrib memcpy_def buf1_def
            Suc_le_eq nm)
      have "m - (n + ?k) < m - n" using k nm by (intro diff_less_mono2) auto
      from less.hyps [OF this k(2), of buf1 w'] less.prems len obtain buf' w'' where
        r: "socket_read_loop os fd buf1 (int (n + ?k)) (int m) w' =
              Inr (if m - (n + ?k) \<le> length (stream w') then 0 else - 1, buf', w'')"
          "m - (n + ?k) \<le> length (stream w') \<longrightarrow>
             buf' = take (n + ?k) buf1 @ cells (take (m - (n + ?k)) (stream w')) @ drop m buf1
             \<and> stream w'' = drop (m - (n + ?k)) (stream w')"
        by auto
      have kl: "?k \<le> length (stream w)" by (metis d(1) length_take min.cobounded1)
      have c: "m - (n + ?k) \<le> length (stream w') \<longleftrightarrow> m - n \<le> length (stream w)"
        using d(4) k kl by auto
      have "m - n = ?k + (m - (n + ?k))" using k by simp
      then have "take (m - n) (stream w) = take ?k (stream w) @ take (m - (n + ?k)) (drop ?k (stream w))"
        by (metis take_add)
      then have "take (m - n) (stream w) = bs @ take (m - (n + ?k)) (stream w')"
        by (simp only: d(1) [symmetric] d(4) [symmetric])
      moreover have "take (n + ?k) buf1 = take n buf @ cells bs" "drop m buf1 = drop m buf"
        using k less.prems by (simp_all add: buf1_def)
      ultimately show ?thesis
        using r c step d(4) k by (auto simp: add.commute)
    qed
  qed
qed

text \<open>Whatever pieces the kernel hands out, \<^verbatim>\<open>edsm_socket_read\<close> of \<open>n\<close> bytes
  ends; it succeeds exactly when the peer sends that many bytes, and then the buffer holds the next
  \<open>n\<close> bytes of the stream, the rest of the buffer is as before and the rest of the stream is left
  for the next read.\<close>

theorem socket_read_exact:
  assumes "delivers os fd stream" "unat n < 2 ^ 31" "unat n \<le> length buf"
  shows "\<exists>buf' w'. edsm_socket_read os fd buf n w =
       Inr (if unat n \<le> length (stream w) then 0 else - 1, buf', w')
     \<and> (unat n \<le> length (stream w) \<longrightarrow>
          buf' = cells (take (unat n) (stream w)) @ drop (unat n) buf
          \<and> stream w' = drop (unat n) (stream w))"
  using socket_read_loop_stream [OF assms(1), of 0 "unat n" buf w] assms(2,3)
  by (simp add: edsm_socket_read_def sint_small del: of_nat_unat)

text \<open>A file descriptor that sends 5 bytes, two at a time, for the concrete instances.\<close>

definition no_os :: "byte list os" where
  "no_os = \<lparr>os_socket = (\<lambda>_ _ _ w. (- 1, w)), os_reuseaddr = (\<lambda>_ w. (0, w)),
     os_getaddrinfo = (\<lambda>_ _ _ w. ((0, Some \<lparr>ai_addr = Some (replicate 28 0), ai_addrlen = 28\<rparr>), w)),
     os_freeaddrinfo = (\<lambda>_ w. w), os_bind = (\<lambda>_ _ _ w. (0, w)), os_listen = (\<lambda>_ _ w. (0, w)),
     os_accept = (\<lambda>_ w. ((- 1, []), w)), os_connect = (\<lambda>_ _ _ w. (0, w)),
     os_select_write = (\<lambda>_ _ w. (1, w)), os_so_error = (\<lambda>_ w. (0, w)),
     os_getfl = (\<lambda>_ w. (2, w)), os_setfl = (\<lambda>_ _ w. (0, w)), os_errno = (\<lambda>_. 0),
     os_close = (\<lambda>_ w. w), os_write = (\<lambda>_ bs w. (int (length bs), w)),
     os_read = (\<lambda>_ n w. ((int (min (min n 2) (length w)), take (min n 2) w), drop (min n 2) w))\<rparr>"

lemma no_os_delivers: "delivers no_os fd (\<lambda>w. w)"
proof -
  have "take (min n 2) w = take (min (length w) (min n 2)) w"
    "drop (min n 2) w = drop (min (length w) (min n 2)) w" for n and w :: "byte list"
    by (simp_all add: min_def)
  then show ?thesis by (auto simp: delivers_def no_os_def)
qed

lemma socket_read_exact_witness:
  "\<exists>buf' w'. edsm_socket_read no_os 4 (uninit 3) 3 [1, 2, 3, 4, 5] = Inr (0, buf', w')
     \<and> buf' = cells [1, 2, 3] \<and> w' = [4, 5]"
  using socket_read_exact [OF no_os_delivers, of 3 "uninit 3" 4 "[1, 2, 3, 4, 5]"]
  by (auto simp: uninit_def)

text \<open>
  Accounting of open descriptors: a successful \<^verbatim>\<open>socket\<close> call opens a descriptor that was
  closed, \<^verbatim>\<open>close\<close> closes one, and no other call used here opens or closes any.
\<close>

definition accounts :: "'w os \<Rightarrow> ('w \<Rightarrow> int set) \<Rightarrow> bool" where
  "accounts os fds \<longleftrightarrow>
     (\<forall>a b c w. case os_socket os a b c w of (fd, w') \<Rightarrow>
        if fd < 0 then fds w' = fds w else fd \<notin> fds w \<and> fds w' = insert fd (fds w))
     \<and> (\<forall>fd w. fds (os_close os fd w) = fds w - {fd})
     \<and> (\<forall>fd w. fds (snd (os_reuseaddr os fd w)) = fds w)
     \<and> (\<forall>a b c w. fds (snd (os_getaddrinfo os a b c w)) = fds w)
     \<and> (\<forall>a w. fds (os_freeaddrinfo os a w) = fds w)
     \<and> (\<forall>a b c w. fds (snd (os_bind os a b c w)) = fds w)
     \<and> (\<forall>a b w. fds (snd (os_listen os a b w)) = fds w)
     \<and> (\<forall>a b c w. fds (snd (os_connect os a b c w)) = fds w)
     \<and> (\<forall>a b w. fds (snd (os_select_write os a b w)) = fds w)
     \<and> (\<forall>a w. fds (snd (os_so_error os a w)) = fds w)
     \<and> (\<forall>a w. fds (snd (os_getfl os a w)) = fds w)
     \<and> (\<forall>a b w. fds (snd (os_setfl os a b w)) = fds w)"

lemma accounts_simps:
  assumes "accounts os fds"
  shows "os_reuseaddr os fd w = (r, w') \<Longrightarrow> fds w' = fds w"
    "os_getaddrinfo os a1 a2 a3 w = (ai, w') \<Longrightarrow> fds w' = fds w"
    "os_bind os fd a4 a5 w = (r, w') \<Longrightarrow> fds w' = fds w"
    "os_listen os fd a6 w = (r, w') \<Longrightarrow> fds w' = fds w"
    "os_connect os fd a4 a5 w = (r, w') \<Longrightarrow> fds w' = fds w"
    "os_select_write os fd t w = (r, w') \<Longrightarrow> fds w' = fds w"
    "os_so_error os fd w = (r, w') \<Longrightarrow> fds w' = fds w"
    "os_getfl os fd w = (fl, w') \<Longrightarrow> fds w' = fds w"
    "os_setfl os fd fl w = (r, w') \<Longrightarrow> fds w' = fds w"
    "fds (os_freeaddrinfo os b w) = fds w" "fds (os_close os fd w) = fds w - {fd}"
  using assms unfolding accounts_def by (metis snd_conv)+

lemma set_nonblock_fds: "accounts os fds \<Longrightarrow> set_nonblock os fd e w = (r, w') \<Longrightarrow> fds w' = fds w"
  by (auto simp: set_nonblock_def accounts_simps split: prod.splits if_splits)

lemma accounts_socket:
  "accounts os fds \<Longrightarrow> os_socket os a b c w = (fd, w') \<Longrightarrow>
     if fd < 0 then fds w' = fds w else fd \<notin> fds w \<and> fds w' = insert fd (fds w)"
  unfolding accounts_def by (metis (mono_tags, lifting) case_prod_conv)

text \<open>Opening a passive connection leaks no descriptor on any path: when
  \<^verbatim>\<open>edsm_socket_listen\<close> returns \<^verbatim>\<open>-1\<close> exactly the descriptors open before
  are open after, and otherwise the returned one is new and open in addition.\<close>

theorem listen_no_leak:
  assumes "accounts os fds" "edsm_socket_listen os port backlog w = Inr (fd, w')"
  shows "if fd = - 1 then fds w' = fds w else 0 \<le> fd \<and> fd \<notin> fds w \<and> fds w' = insert fd (fds w)"
proof -
  let ?ps = "Some (decimal (unat port))"
  obtain s w1 where 1: "os_socket os AF_INET6 SOCK_STREAM IPPROTO_TCP w = (s, w1)" by fastforce
  obtain r w2 where 2: "os_reuseaddr os s w1 = (r, w2)" by fastforce
  obtain g ai w3 where 3: "os_getaddrinfo os None ?ps listen_hints w2 = ((g, ai), w3)" by (metis surj_pair)
  note a = accounts_simps [OF assms(1)]
  have f: "fds w2 = fds w1" "fds w3 = fds w1" using a(1) [OF 2] a(2) [OF 3] by simp_all
  note s = accounts_socket [OF assms(1) 1]
  show ?thesis
  proof (cases "\<exists>r addr. ai = Some r \<and> ai_addr r = Some addr")
    case False
    then show ?thesis
      using assms(2) s a(10,11) f
      by (auto simp: edsm_socket_listen_def 1 2 3 split: if_splits option.splits)
  next
    case True
    then obtain res addr where ai: "ai = Some res" "ai_addr res = Some addr" by blast
    obtain b w4 where 4: "os_bind os s addr (ai_addrlen res) w3 = (b, w4)" by fastforce
    obtain l w5 where 5: "os_listen os s backlog w4 = (l, w5)" by fastforce
    have "fds w4 = fds w1" "fds w5 = fds w1" using f a(3) [OF 4] a(4) [OF 5] by simp_all
    with ai show ?thesis
      using assms(2) s a(10,11) f
      by (auto simp: edsm_socket_listen_def 1 2 3 4 5 split: if_splits)
  qed
qed

text \<open>Opening an active connection leaks no descriptor on any path, with or without a timeout,
  whether the connection is refused, times out or fails late.\<close>

theorem connect_no_leak:
  assumes "accounts os fds" "edsm_socket_connect os dest timeout w = (fd, w')"
  shows "if fd = - 1 then fds w' = fds w else 0 \<le> fd \<and> fd \<notin> fds w \<and> fds w' = insert fd (fds w)"
proof -
  note a = accounts_simps [OF assms(1)] and nb = set_nonblock_fds [OF assms(1)]
  obtain s w1 where 1: "os_socket os (ss_family dest) SOCK_STREAM IPPROTO_TCP w = (s, w1)" by fastforce
  obtain x w2 where 2: "(case timeout of None \<Rightarrow> (0, w1) | Some _ \<Rightarrow> set_nonblock os s True w1) = (x, w2)"
    by fastforce
  obtain r w3 where 3: "os_connect os s dest sizeof_sockaddr w2 = (r, w3)" by fastforce
  have f: "fds w2 = fds w1" "fds w3 = fds w1" using 2 nb a(5) [OF 3] by (auto split: option.splits)
  note s = accounts_socket [OF assms(1) 1]
  show ?thesis
  proof (cases timeout)
    case None
    with 2 have [simp]: "w2 = w1" by simp
    from None show ?thesis
      using assms(2) s f 3 a(11)
      by (auto simp: edsm_socket_connect_def 1 FAILURE_def split: if_splits)
  next
    case (Some t)
    obtain l w4 where 4: "os_select_write os s t w3 = (l, w4)" by fastforce
    obtain e w5 where 5: "os_so_error os s w4 = (e, w5)" by fastforce
    obtain y w6 where 6: "set_nonblock os s False w5 = (y, w6)" by fastforce
    have "fds w4 = fds w1" "fds w5 = fds w1" "fds w6 = fds w1"
      using f a(6) [OF 4] a(7) [OF 5] nb [OF 6] by simp_all
    with Some 2 show ?thesis
      using assms(2) s f 3 a(11)
      by (auto simp: edsm_socket_connect_def 1 4 5 6 FAILURE_def split: if_splits)
  qed
qed

text \<open>An operating system that counts descriptors, for the concrete instances.\<close>

definition count_os :: "int list os" where
  "count_os = \<lparr>os_socket = (\<lambda>_ _ _ w. (fold max w 2 + 1, (fold max w 2 + 1) # w)), os_reuseaddr = (\<lambda>_ w. (0, w)),
     os_getaddrinfo = (\<lambda>_ _ _ w. ((0, Some \<lparr>ai_addr = Some (replicate 28 0), ai_addrlen = 28\<rparr>), w)),
     os_freeaddrinfo = (\<lambda>_ w. w), os_bind = (\<lambda>_ _ _ w. (0, w)), os_listen = (\<lambda>_ _ w. (0, w)),
     os_accept = (\<lambda>_ w. ((- 1, []), w)), os_connect = (\<lambda>_ _ _ w. (0, w)),
     os_select_write = (\<lambda>_ _ w. (1, w)), os_so_error = (\<lambda>_ w. (0, w)),
     os_getfl = (\<lambda>_ w. (2, w)), os_setfl = (\<lambda>_ _ w. (0, w)), os_errno = (\<lambda>_. 0),
     os_close = (\<lambda>fd w. filter (\<lambda>x. x \<noteq> fd) w), os_write = (\<lambda>_ bs w. (int (length bs), w)),
     os_read = (\<lambda>_ n w. ((0, []), w))\<rparr>"

lemma fold_max_upper: "a \<le> fold max w a \<and> (\<forall>x \<in> set w. x \<le> fold max w (a :: int))"
  by (induction w arbitrary: a) (auto, (meson max.boundedE)+)

lemma count_os_accounts: "accounts count_os set"
proof -
  have "fold max w 2 + 1 \<notin> set w" "2 \<le> fold max w (2 :: int)" for w
    using fold_max_upper [of 2 w] by force+
  then have "\<not> fold max w (2 :: int) + 1 < 0" "fold max w (2 :: int) + 1 \<notin> set w" for w
    by (smt (verit))+
  then show ?thesis by (auto simp: accounts_def count_os_def)
qed

lemma listen_no_leak_witness:
  "\<exists>w'. edsm_socket_listen count_os 7 0 [3] = Inr (4, w') \<and> set w' = insert 4 {3}"
  using listen_no_leak [OF count_os_accounts, of 7 0 "[3]" 4 "[4, 3]"]
  by (simp add: edsm_socket_listen_def count_os_def)

lemma connect_no_leak_witness:
  "\<exists>w'. edsm_socket_connect count_os (replicate 128 0) None [3] = (4, w') \<and> set w' = insert 4 {3}"
  using connect_no_leak [OF count_os_accounts, of "replicate 128 0" None "[3]" 4 "[4, 3]"]
  by (simp add: edsm_socket_connect_def count_os_def)

text \<open>After a successful call of \<^verbatim>\<open>set_nonblock\<close> the descriptor's flags differ from the flags
  before in \<^verbatim>\<open>O_NONBLOCK\<close> at most, and that flag is set exactly when it was asked for.\<close>

theorem set_nonblock_flags:
  assumes "os_getfl os fd w = (fl, w1)" "fl \<noteq> - 1"
    and "\<And>fl' w2 r w3. os_setfl os fd fl' w2 = (r, w3) \<Longrightarrow> r \<noteq> - 1 \<Longrightarrow> flags_of w3 = fl'"
    and "flags_of w1 = fl" and "set_nonblock os fd enable w = (0, w')"
  shows "flags_of w' = (if enable then fl OR O_NONBLOCK else fl AND NOT O_NONBLOCK)"
proof -
  have "bit ((2 :: u32) ^ k) n \<longleftrightarrow> n = k" if "k < 32" for k n
    using that by (auto simp: bit_exp_iff)
  from this [of 11] have nb: "bit O_NONBLOCK n \<longleftrightarrow> n = 11" for n
    by (simp add: O_NONBLOCK_def)
  have on: "fl AND O_NONBLOCK \<noteq> 0 \<longleftrightarrow> bit fl 11"
    by (auto simp: bit_eq_iff [of "fl AND O_NONBLOCK" 0] bit_and_iff nb dest: bit_imp_le_length)
  have set: "fl AND O_NONBLOCK \<noteq> 0 \<Longrightarrow> fl OR O_NONBLOCK = fl"
    unfolding on by (auto simp: bit_eq_iff [of "fl OR O_NONBLOCK" fl] bit_or_iff nb)
  have clr: "fl AND O_NONBLOCK = 0 \<Longrightarrow> fl AND NOT O_NONBLOCK = fl"
    using on by (auto simp: bit_eq_iff [of "fl AND NOT O_NONBLOCK" fl] bit_and_iff bit_not_iff nb
        dest: bit_imp_le_length)
  show ?thesis
    using assms set clr by (auto simp: set_nonblock_def split: prod.splits if_splits)
qed

text \<open>The port stored in an address, of either family, is the port read back from it, and nothing
  but the port's two bytes changes.\<close>

theorem port_roundtrip:
  assumes "4 \<le> length addr"
  shows "snd (edsm_socket_addr_to_string ntop (edsm_socket_set_sockaddr_port addr port)) = uint port
    \<and> length (edsm_socket_set_sockaddr_port addr port) = length addr
    \<and> ss_family (edsm_socket_set_sockaddr_port addr port) = ss_family addr
    \<and> drop 4 (edsm_socket_set_sockaddr_port addr port) = drop 4 addr"
proof -
  have h: "length (htons port) = 2" "ntohs (htons port) = port"
    using u16_roundtrip [of port] by (simp_all add: htons_def ntohs_def bytes_of_u16_def)
  with assms show ?thesis
    by (simp add: edsm_socket_addr_to_string_def edsm_socket_set_sockaddr_port_def ss_family_def)
qed

lemma port_roundtrip_witness:
  "snd (edsm_socket_addr_to_string (\<lambda>_ _. []) (edsm_socket_set_sockaddr_port (replicate 128 0) 8080)) = 8080"
  using port_roundtrip [of "replicate 128 0" "\<lambda>_ _. []" 8080] by simp

text \<open>\<^verbatim>\<open>slash_to_netmask\<close> of every prefix length but 1 is the mask whose leading bits, and only
  those, are set; for 1 it shifts into the sign of an \<^verbatim>\<open>int\<close>, which C does not define.\<close>

theorem slash_to_netmask_bits:
  "case slash_to_netmask slash of
     Inl e \<Rightarrow> sint slash = 1 \<and> e = SignedOverflow
   | Inr m \<Rightarrow> sint slash \<noteq> 1 \<and> (\<forall>n. bit m n = (n < 32 \<and> 32 - sint slash \<le> int n))"
proof -
  have m: "bit (NOT (2 ^ k - 1) :: u32) n \<longleftrightarrow> n < 32 \<and> k \<le> n" if "k < 32" for k n
  proof -
    have "NOT (2 ^ k - 1) = NOT (mask k :: u32)" by (simp add: mask_eq_exp_minus_1)
    then show ?thesis by (auto simp: bit_not_iff bit_mask_iff)
  qed
  have "(0xFFFFFFFF :: u32) = - 1" by simp
  then have "bit (0xFFFFFFFF :: u32) n \<longleftrightarrow> n < 32" for n
    by (simp only: bit_minus_1_iff possible_bit_word) simp
  moreover have "in_int (2 ^ k) \<and> in_int (2 ^ k - 1) \<longleftrightarrow> k < 31" for k :: nat
  proof -
    have "(2 :: int) ^ k < 2 ^ 31 \<longleftrightarrow> k < 31" by (rule power_strict_increasing_iff) simp
    moreover obtain x where "(2 :: int) ^ k = x" "0 < x" by simp
    ultimately show ?thesis by (auto simp: in_int_def)
  qed
  ultimately show ?thesis
    using m by (cases "nat (32 - sint slash) < 31") (auto simp: slash_to_netmask_def Let_def)
qed

lemma set_nonblock_flags_witness:
  "\<exists>w'. set_nonblock (count_os\<lparr>os_getfl := \<lambda>_ w. (word_of_int (hd w), w),
       os_setfl := \<lambda>_ fl w. (0, [uint fl])\<rparr>) 4 True [2] = (0, w') \<and> word_of_int (hd w') = (2 OR O_NONBLOCK :: u32)"
  using set_nonblock_flags [of "count_os\<lparr>os_getfl := \<lambda>_ w. (word_of_int (hd w), w),
      os_setfl := \<lambda>_ fl w. (0, [uint fl])\<rparr>" 4 "[2]" 2 "[2]" "\<lambda>w. word_of_int (hd w)" True]
  by (simp add: set_nonblock_def O_NONBLOCK_def)

end
