(* ===== verification/Protocol.thy ===== *)
theory Protocol
  imports Message Uthash Socket
begin

text \<open>
  Peers, framing and dispatch: \<^verbatim>\<open>src/src/protocol.c\<close> and
  \<^verbatim>\<open>src/src/protocol_util.c\<close>. The global variables of the program are the fields of
  a record, which the theories of the other components extend; \<open>world\<close> is the operating
  system. The table of peers holds addresses, and \<open>peer_mem\<close> is the memory they point to. A
  message handler is a function pointer: an element of \<open>'h\<close>, run by a parameter
  \<open>call\<close> of the operations that may run one. Sends and handlers hold their locks while they run, so
  each operation is one step.
\<close>

section \<open>State\<close>

record peer_information =
  peer_id :: u32
  sock_fd :: int
  peer_addr :: sockaddr

record ('h, 'w) proto =
  world :: 'w
  my_id :: u32
  listen_port :: u16
  peers :: "nat uthash"
  peer_mem :: "nat \<Rightarrow> peer_information option"
  peer_brk :: nat
  message_handlers :: "(u32 \<times> 'h) uthash"

type_synonym ('h, 'w, 'z) call =
  "'h \<Rightarrow> u32 \<Rightarrow> edsm_message \<Rightarrow> ('h, 'w, 'z) proto_scheme
     \<Rightarrow> (int \<times> ('h, 'w, 'z) proto_scheme) res"

definition MSG_TYPE_PROTO_INIT :: u32 where "MSG_TYPE_PROTO_INIT = 1"
definition MSG_TYPE_TASK :: u32 where "MSG_TYPE_TASK = 2"
definition MSG_TYPE_DOBJ :: u32 where "MSG_TYPE_DOBJ = 3"

definition FD_SETSIZE :: int where "FD_SETSIZE = 1024"

text \<open>The structure an address points to; a freed or never allocated one may not be used.\<close>

definition peer_at :: "('h, 'w, 'z) proto_scheme \<Rightarrow> nat \<Rightarrow> peer_information res" where
  "peer_at s p = (case peer_mem s p of None \<Rightarrow> Inl UseAfterFree | Some pr \<Rightarrow> Inr pr)"

text \<open>The key \<^verbatim>\<open>hh\<close> of a peer: the bytes of its \<^verbatim>\<open>id\<close> field, read through the pointer.\<close>

definition peer_key :: "(nat \<Rightarrow> peer_information option) \<Rightarrow> nat \<Rightarrow> byte list" where
  "peer_key mem p = (case mem p of None \<Rightarrow> [] | Some pr \<Rightarrow> bytes_of_u32 (peer_id pr))"

definition find_peer :: "('h, 'w, 'z) proto_scheme \<Rightarrow> u32 \<Rightarrow> nat option" where
  "find_peer s i = HASH_FIND (peer_key (peer_mem s)) (peers s) (bytes_of_u32 i)"

definition add_peer :: "('h, 'w, 'z) proto_scheme \<Rightarrow> nat \<Rightarrow> ('h, 'w, 'z) proto_scheme" where
  "add_peer s p = s\<lparr>peers := HASH_ADD (peer_key (peer_mem s)) (peers s) p\<rparr>"

section \<open>Operations of protocol\_util.c\<close>

definition read_message_from_socket ::
    "runtime \<Rightarrow> 'w os \<Rightarrow> int \<Rightarrow> 'w \<Rightarrow> (edsm_message option \<times> 'w) res" where
  "read_message_from_socket rt os fd w =
     res_bind (edsm_socket_read os fd (uninit 4) 4 w) (\<lambda>(rc, sz, w1).
     if rc = - 1 then Inr (None, w1) else
     res_bind (determinate (u32_of_cells sz)) (\<lambda>msg_size.
     res_bind (edsm_message_create rt 0 msg_size) (\<lambda>m.
     case m of
       None \<Rightarrow> Inr (None, w1)
     | Some new_msg \<Rightarrow>
         res_bind (edsm_socket_read os fd (buffer new_msg) msg_size w1) (\<lambda>(rc', buf, w2).
         if rc' = - 1 then Inr (None, w2) else
         res_bind (edsm_message_put (new_msg\<lparr>buffer := buf\<rparr>) msg_size) (\<lambda>msg'.
         Inr (Some msg', w2))))))"

text \<open>The bytes a \<^verbatim>\<open>write\<close> of \<open>n\<close> bytes from a pointer passes to the system.\<close>

definition bytes_at :: "cell list \<Rightarrow> nat \<Rightarrow> cell list res" where
  "bytes_at p n = (if n \<le> length p then Inr (take n p) else Inl OutOfBounds)"

definition fd_send_message ::
    "'w os \<Rightarrow> int \<Rightarrow> u32 \<Rightarrow> edsm_message \<Rightarrow> 'w \<Rightarrow> (int \<times> 'w) res" where
  "fd_send_message os fd msg_type msg w0 =
     (case os_write os fd (cells (bytes_of_u32 (data_size msg + 4))) w0 of (bytes1, w1) \<Rightarrow>
      if bytes1 \<le> 0 then Inr (FAILURE, w1) else
      case os_write os fd (cells (bytes_of_u32 msg_type)) w1 of (bytes2, w2) \<Rightarrow>
      if bytes2 \<le> 0 then Inr (FAILURE, w2) else
      res_bind (bytes_at (data_ptr msg) (unat (data_size msg))) (\<lambda>body.
      case os_write os fd body w2 of (bytes3, w3) \<Rightarrow>
      if bytes3 \<le> 0 then Inr (FAILURE, w3) else Inr (SUCCESS, w3)))"

definition initialize_peer ::
    "runtime \<Rightarrow> ('h, 'w, 'z) proto_scheme \<Rightarrow> (nat \<times> ('h, 'w, 'z) proto_scheme) res" where
  "initialize_peer rt s =
     res_bind (non_null (malloc rt 232)) (\<lambda>_.
     Inr (peer_brk s, s\<lparr>peer_mem := (peer_mem s)(peer_brk s \<mapsto>
         \<lparr>peer_id = 0, sock_fd = - 1, peer_addr = replicate sizeof_sockaddr 0\<rparr>),
       peer_brk := Suc (peer_brk s)\<rparr>))"

definition destroy_peer ::
    "('h, 'w, 'z) proto_scheme \<Rightarrow> nat \<Rightarrow> ('h, 'w, 'z) proto_scheme res" where
  "destroy_peer s p = res_bind (peer_at s p) (\<lambda>_. Inr (s\<lparr>peer_mem := (peer_mem s)(p := None)\<rparr>))"

text \<open>The set of descriptors and the largest one, after adding every peer.\<close>

fun fdset_add ::
    "('h, 'w, 'z) proto_scheme \<Rightarrow> nat list \<Rightarrow> int list \<times> int \<Rightarrow> (int list \<times> int) res" where
  "fdset_add s [] acc = Inr acc"
| "fdset_add s (p # ps) acc =
     res_bind (peer_at s p) (\<lambda>pr.
     res_bind (check OutOfBounds (0 \<le> sock_fd pr \<and> sock_fd pr < FD_SETSIZE)) (\<lambda>_.
     case acc of (fds, max_fd) \<Rightarrow>
       fdset_add s ps (sock_fd pr # fds, if sock_fd pr > max_fd then sock_fd pr else max_fd)))"

definition fdset_add_peers ::
    "('h, 'w, 'z) proto_scheme \<Rightarrow> int list \<Rightarrow> int \<Rightarrow> (int list \<times> int) res" where
  "fdset_add_peers s fds max_fd = fdset_add s (HASH_ITER (peers s)) (fds, max_fd)"

fun append_peers ::
    "runtime \<Rightarrow> ('h, 'w, 'z) proto_scheme \<Rightarrow> nat list \<Rightarrow> edsm_message \<Rightarrow> edsm_message res" where
  "append_peers rt s [] msg = Inr msg"
| "append_peers rt s (p # ps) msg =
     res_bind (peer_at s p) (\<lambda>pr.
     res_bind (write_u32 rt msg (peer_id pr)) (\<lambda>(rc1, m1).
     res_bind (edsm_message_write rt m1 (cells (peer_addr pr)) 128) (\<lambda>(rc2, m2).
     append_peers rt s ps m2)))"

definition append_peerlist_to_message ::
    "runtime \<Rightarrow> ('h, 'w, 'z) proto_scheme \<Rightarrow> edsm_message \<Rightarrow> edsm_message res" where
  "append_peerlist_to_message rt s msg =
     (let num_peers = HASH_COUNT (peers s) in
      res_bind (write_u32 rt msg num_peers) (\<lambda>(rc, m1).
      if 0 < num_peers then append_peers rt s (HASH_ITER (peers s)) m1 else Inr m1))"

text \<open>
  The loop of \<^verbatim>\<open>read_peerlist_from_message\<close>; the outcomes of the reads are ignored, and
  an address that was not read stays zero. The address follows every id in the message, but is read
  only when the id is new.
\<close>

fun read_peers ::
    "runtime \<Rightarrow> nat \<Rightarrow> edsm_message \<Rightarrow> ('h, 'w, 'z) proto_scheme
       \<Rightarrow> (edsm_message \<times> ('h, 'w, 'z) proto_scheme) res" where
  "read_peers rt 0 msg s = Inr (msg, s)"
| "read_peers rt (Suc n) msg s =
     res_bind (read_u32 msg) (\<lambda>(rc, v, m1).
     res_bind (determinate v) (\<lambda>new_peer_id.
     case find_peer s new_peer_id of
       Some _ \<Rightarrow> read_peers rt n m1 s
     | None \<Rightarrow>
         res_bind (initialize_peer rt s) (\<lambda>(p, s1).
         res_bind (edsm_message_read m1 (cells (replicate sizeof_sockaddr 0)) 0 128)
           (\<lambda>(rc', a, m2).
         res_bind (determinate (bytes_of a)) (\<lambda>addr.
         read_peers rt n m2 (add_peer (s1\<lparr>peer_mem := (peer_mem s1)(p \<mapsto>
           \<lparr>peer_id = new_peer_id, sock_fd = - 1, peer_addr = addr\<rparr>)\<rparr>) p))))))"

definition read_peerlist_from_message ::
    "runtime \<Rightarrow> edsm_message \<Rightarrow> ('h, 'w, 'z) proto_scheme
       \<Rightarrow> (edsm_message \<times> ('h, 'w, 'z) proto_scheme) res" where
  "read_peerlist_from_message rt msg s =
     res_bind (read_u32 msg) (\<lambda>(rc, v, m1).
     let num_peers = (case v of None \<Rightarrow> 0 | Some n \<Rightarrow> n) in
     int_loop (unat num_peers) (\<lambda>n. read_peers rt n m1 s))"

section \<open>Operations of protocol.c\<close>

fun peer_ids :: "('h, 'w, 'z) proto_scheme \<Rightarrow> nat list \<Rightarrow> u32 list res" where
  "peer_ids s [] = Inr []"
| "peer_ids s (p # ps) =
     res_bind (peer_at s p) (\<lambda>pr. res_bind (peer_ids s ps) (\<lambda>ids. Inr (peer_id pr # ids)))"

text \<open>The ids of the new list, in its order.\<close>

definition edsm_proto_get_peer_ids :: "('h, 'w, 'z) proto_scheme \<Rightarrow> u32 list res" where
  "edsm_proto_get_peer_ids s = peer_ids s (HASH_ITER (peers s))"

definition edsm_proto_local_id :: "('h, 'w, 'z) proto_scheme \<Rightarrow> u32" where
  "edsm_proto_local_id s = my_id s"

definition handler_key :: "u32 \<times> 'h \<Rightarrow> byte list" where
  "handler_key h = bytes_of_u32 (fst h)"

definition handle_message ::
    "('h, 'w, 'z) call \<Rightarrow> edsm_message \<Rightarrow> u32 \<Rightarrow> u32 \<Rightarrow> ('h, 'w, 'z) proto_scheme
       \<Rightarrow> (int \<times> ('h, 'w, 'z) proto_scheme) res" where
  "handle_message call msg msg_type peer s =
     (case HASH_FIND handler_key (message_handlers s) (bytes_of_u32 msg_type) of
        Some h \<Rightarrow> res_bind (call (snd h) peer msg s) (\<lambda>(_, s'). Inr (SUCCESS, s'))
      | None \<Rightarrow> Inr (FAILURE, s))"

definition send_to_peer ::
    "'w os \<Rightarrow> nat \<Rightarrow> u32 \<Rightarrow> edsm_message \<Rightarrow> ('h, 'w, 'z) proto_scheme
       \<Rightarrow> (int \<times> ('h, 'w, 'z) proto_scheme) res" where
  "send_to_peer os p msg_type msg s =
     res_bind (peer_at s p) (\<lambda>pr.
     res_bind (check AssertionFailed (sock_fd pr \<noteq> - 1)) (\<lambda>_.
     res_bind (fd_send_message os (sock_fd pr) msg_type msg (world s)) (\<lambda>(rc, w).
     Inr (rc, s\<lparr>world := w\<rparr>))))"

fun broadcast ::
    "'w os \<Rightarrow> nat list \<Rightarrow> u32 \<Rightarrow> edsm_message \<Rightarrow> ('h, 'w, 'z) proto_scheme
       \<Rightarrow> (int \<times> ('h, 'w, 'z) proto_scheme) res" where
  "broadcast os [] msg_type msg s = Inr (SUCCESS, s)"
| "broadcast os (p # ps) msg_type msg s =
     res_bind (send_to_peer os p msg_type msg s) (\<lambda>(rc, s').
     if rc = FAILURE then Inr (FAILURE, s') else broadcast os ps msg_type msg s')"

definition edsm_proto_send ::
    "runtime \<Rightarrow> 'w os \<Rightarrow> ('h, 'w, 'z) call \<Rightarrow> u32 \<Rightarrow> u32 \<Rightarrow> edsm_message
       \<Rightarrow> ('h, 'w, 'z) proto_scheme \<Rightarrow> (int \<times> ('h, 'w, 'z) proto_scheme) res" where
  "edsm_proto_send rt os call peer msg_type msg s =
     (if peer \<noteq> 0 then
        if peer = my_id s then
          res_bind (edsm_message_clone rt msg) (\<lambda>clone.
          res_bind (non_null clone) (\<lambda>c.
          res_bind (handle_message call c msg_type peer s) (\<lambda>(_, s').
          Inr (SUCCESS, s'))))
        else (case find_peer s peer of
            None \<Rightarrow> Inr (FAILURE, s)
          | Some p \<Rightarrow> send_to_peer os p msg_type msg s)
      else broadcast os (HASH_ITER (peers s)) msg_type msg s)"

definition edsm_proto_register_handler ::
    "runtime \<Rightarrow> u32 \<Rightarrow> 'h \<Rightarrow> ('h, 'w, 'z) proto_scheme
       \<Rightarrow> (int \<times> ('h, 'w, 'z) proto_scheme) res" where
  "edsm_proto_register_handler rt message_type handler_f s =
     res_bind (non_null (malloc rt 72)) (\<lambda>_.
     Inr (SUCCESS, s\<lparr>message_handlers :=
       HASH_ADD handler_key (message_handlers s) (message_type, handler_f)\<rparr>))"


section \<open>Framing\<close>

definition frame :: "u32 \<Rightarrow> byte list \<Rightarrow> byte list" where
  "frame t bs = bytes_of_u32 (word_of_nat (length bs + 4)) @ bytes_of_u32 t @ bs"

text \<open>A system whose \<^verbatim>\<open>write\<close> takes all the bytes it is given; \<open>written\<close> is what was written to each descriptor.\<close>

definition accepts :: "'w os \<Rightarrow> ('w \<Rightarrow> int \<Rightarrow> byte list) \<Rightarrow> bool" where
  "accepts os written \<longleftrightarrow>
     (\<forall>fd bs w. case os_write os fd (cells bs) w of (n, w') \<Rightarrow>
        n = int (length bs) \<and> written w' = (written w)(fd := written w fd @ bs))"

lemma acceptsD:
  assumes "accepts os written"
  obtains w' where "os_write os fd (cells bs) w = (int (length bs), w')"
    "written w' = (written w)(fd := written w fd @ bs)"
proof -
  obtain n w' where "os_write os fd (cells bs) w = (n, w')" by fastforce
  with assms that show ?thesis unfolding accepts_def by (metis (mono_tags, lifting) case_prod_conv)
qed

lemma bytes_at_holds:
  assumes "holds m bs"
  shows "bytes_at (data_ptr m) (unat (data_size m)) = Inr (cells bs)" "data_size m + 4 = word_of_nat (length bs + 4)"
proof -
  have "unat (data_size m) = length bs" using assms length_content by (fastforce simp: holds_def)
  moreover obtain rest where "data_ptr m = cells bs @ rest" using holds_data_ptr [OF assms] by blast
  ultimately show "bytes_at (data_ptr m) (unat (data_size m)) = Inr (cells bs)" by (simp add: bytes_at_def)
  show "data_size m + 4 = word_of_nat (length bs + 4)"
    using holds_data_ptr(2) [OF assms] by simp
qed

lemma fd_send_ok:
  assumes "accepts os written" "holds m bs"
  shows "\<exists>w'. fd_send_message os fd t m w = Inr (if bs = [] then FAILURE else SUCCESS, w')
     \<and> written w' = (written w)(fd := written w fd @ frame t bs)"
proof -
  let ?h = "bytes_of_u32 (word_of_nat (length bs + 4))"
  obtain w1 where 1: "os_write os fd (cells ?h) w = (int (length ?h), w1)"
      "written w1 = (written w)(fd := written w fd @ ?h)" by (rule acceptsD [OF assms(1)])
  obtain w2 where 2: "os_write os fd (cells (bytes_of_u32 t)) w1 = (int (length (bytes_of_u32 t)), w2)"
      "written w2 = (written w1)(fd := written w1 fd @ bytes_of_u32 t)" by (rule acceptsD [OF assms(1)])
  obtain w3 where 3: "os_write os fd (cells bs) w2 = (int (length bs), w3)"
      "written w3 = (written w2)(fd := written w2 fd @ bs)" by (rule acceptsD [OF assms(1)])
  show ?thesis
    using 1 2 3 by (intro exI [of _ w3])
      (simp add: fd_send_message_def bytes_at_holds [OF assms(2)] frame_def fun_eq_iff del: of_nat_add)
qed

lemma socket_read_ok:
  assumes "delivers os fd stream" "stream w = bs @ rest" "length buf = length bs" "length bs < 2 ^ 31"
  shows "\<exists>w'. edsm_socket_read os fd buf (word_of_nat (length bs)) w = Inr (0, cells bs, w') \<and> stream w' = rest"
  using socket_read_exact [OF assms(1), of "word_of_nat (length bs)" buf w] assms(2-)
  by (auto simp: unat_u32_of_nat)

lemma read_frame:
  assumes rt: "enough_memory rt" and d: "delivers os fd stream" and st: "stream w = frame t bs @ rest"
    and len: "length bs + 4 < 2 ^ 31"
  shows "\<exists>m w'. read_message_from_socket rt os fd w = Inr (Some m, w')
     \<and> holds m (bytes_of_u32 t @ bs) \<and> stream w' = rest"
proof -
  let ?n = "word_of_nat (length bs + 4) :: u32" let ?xs = "bytes_of_u32 t @ bs"
  have un: "unat ?n = length ?xs" using len by (subst unat_u32_of_nat) simp_all
  obtain w1 where 1: "edsm_socket_read os fd (uninit 4) 4 w = Inr (0, cells (bytes_of_u32 ?n), w1)"
      "stream w1 = ?xs @ rest"
    using socket_read_ok [OF d, of w "bytes_of_u32 ?n" "?xs @ rest" "uninit 4"] st
    by (auto simp: frame_def simp del: of_nat_add)
  obtain m where m: "edsm_message_create rt 0 ?n = Inr (Some m)" "wf_message m" "content m = []"
      "head_size m = 0" "tail_size m = ?n" "data_size m = 0" "buffer_size m = 0 + ?n"
    using create_wf [OF rt, of 0 ?n] un len by (auto simp del: of_nat_add)
  have b: "length (buffer m) = length ?xs" using m(2,7) un by (simp add: wf_message_def)
  have n: "?n = word_of_nat (length ?xs)" by simp
  have "\<exists>w2. edsm_socket_read os fd (buffer m) ?n w1 = Inr (0, cells ?xs, w2) \<and> stream w2 = rest"
    unfolding n by (rule socket_read_ok [OF d 1(2) b]) (use len in simp)
  then obtain w2 where 2: "edsm_socket_read os fd (buffer m) ?n w1 = Inr (0, cells ?xs, w2)" "stream w2 = rest"
    by blast
  let ?m = "m\<lparr>buffer := cells ?xs\<rparr>"
  have wf: "wf_message ?m" using m(2) b by (simp add: wf_message_def)
  obtain m2 where m2: "edsm_message_put ?m ?n = Inr m2" "wf_message m2"
      "content m2 = content ?m @ take (unat ?n) (drop (used ?m) (buffer ?m))"
    using put_ok [OF wf, of ?n] m(5) by auto
  have "content m2 = cells ?xs"
    using m2(3) m(4,6) un by (simp add: content_def used_def)
  then have "holds m2 ?xs" using m2(2) by (simp add: holds_def)
  with 1 2 m m2 show ?thesis
    by (simp add: read_message_from_socket_def del: of_nat_add cells_append)
qed

text \<open>Several messages, sent and received in order.\<close>

fun send_frames :: "'w os \<Rightarrow> int \<Rightarrow> (u32 \<times> edsm_message) list \<Rightarrow> 'w \<Rightarrow> 'w res" where
  "send_frames os fd [] w = Inr w"
| "send_frames os fd ((t, m) # ms) w =
     res_bind (fd_send_message os fd t m w) (\<lambda>(rc, w').
     if rc = FAILURE then Inr w' else send_frames os fd ms w')"

fun read_frames :: "runtime \<Rightarrow> 'w os \<Rightarrow> int \<Rightarrow> nat \<Rightarrow> 'w \<Rightarrow> (edsm_message option list \<times> 'w) res" where
  "read_frames rt os fd 0 w = Inr ([], w)"
| "read_frames rt os fd (Suc n) w =
     res_bind (read_message_from_socket rt os fd w) (\<lambda>(m, w').
     res_bind (read_frames rt os fd n w') (\<lambda>(ms, w''). Inr (m # ms, w'')))"

definition frames :: "(u32 \<times> byte list) list \<Rightarrow> byte list" where
  "frames fs = concat (map (\<lambda>(t, bs). frame t bs) fs)"

lemma send_frames_ok:
  assumes "accepts os written"
  shows "list_all2 (\<lambda>(t, m) (u, bs). t = u \<and> holds m bs \<and> bs \<noteq> []) ms fs \<Longrightarrow>
     \<exists>w'. send_frames os fd ms w = Inr w' \<and> written w' = (written w)(fd := written w fd @ frames fs)"
proof (induction ms fs arbitrary: w rule: list_all2_induct)
  case Nil
  then show ?case by (simp add: frames_def)
next
  case (Cons x ms y fs)
  obtain t m bs where [simp]: "x = (t, m)" "y = (t, bs)" and h: "holds m bs" "bs \<noteq> []"
    using Cons.hyps by (cases x; cases y) auto
  obtain w1 where 1: "fd_send_message os fd t m w = Inr (SUCCESS, w1)"
      "written w1 = (written w)(fd := written w fd @ frame t bs)"
    using fd_send_ok [OF assms h(1), of fd t w] h(2) by auto
  from Cons.IH [of w1] 1 show ?case by (auto simp: frames_def fun_eq_iff)
qed

lemma read_frames_ok:
  assumes "enough_memory rt" "delivers os fd stream"
  shows "stream w = frames fs @ rest \<Longrightarrow> list_all (\<lambda>(t, bs). length bs + 4 < 2 ^ 31) fs \<Longrightarrow>
     \<exists>rs w'. read_frames rt os fd (length fs) w = Inr (rs, w') \<and> stream w' = rest
       \<and> list_all2 (\<lambda>r (t, bs). \<exists>m. r = Some m \<and> holds m (bytes_of_u32 t @ bs)) rs fs"
proof (induction fs arbitrary: w)
  case Nil
  then show ?case by (simp add: frames_def)
next
  case (Cons f fs)
  obtain t bs where [simp]: "f = (t, bs)" by fastforce
  have "stream w = frame t bs @ (frames fs @ rest)" "length bs + 4 < 2 ^ 31"
    using Cons.prems by (simp_all add: frames_def)
  from read_frame [OF assms this] obtain m w1 where
    1: "read_message_from_socket rt os fd w = Inr (Some m, w1)" "holds m (bytes_of_u32 t @ bs)"
      "stream w1 = frames fs @ rest" by blast
  from Cons.IH [OF 1(3)] Cons.prems 1 show ?case by auto
qed

text \<open>C9: message boundaries survive the byte stream: if what one side writes to a descriptor is what
  the other side's descriptor delivers, in any pieces, then sending non-empty messages in turn and
  receiving as many times gives each message back, in order, its type in front of its data, and
  leaves the bytes that follow unread.\<close>

theorem frames_roundtrip:
  assumes "accepts os written" "written w fd = []"
    and "list_all2 (\<lambda>(t, m) (u, bs). t = u \<and> holds m bs \<and> bs \<noteq> []) ms fs"
    and "list_all (\<lambda>(t, bs). length bs + 4 < 2 ^ 31) fs"
    and "enough_memory rt" "delivers os2 fd2 stream"
  shows "\<exists>w'. send_frames os fd ms w = Inr w' \<and>
     (\<forall>r rest. stream r = written w' fd @ rest \<longrightarrow>
       (\<exists>rs r'. read_frames rt os2 fd2 (length ms) r = Inr (rs, r') \<and> stream r' = rest
          \<and> list_all2 (\<lambda>x (t, bs). \<exists>m. x = Some m \<and> holds m (bytes_of_u32 t @ bs)) rs fs))"
proof -
  obtain w' where "send_frames os fd ms w = Inr w'" "written w' fd = frames fs"
    using send_frames_ok [OF assms(1,3), of fd w] assms(2) by auto
  moreover have "length ms = length fs" using assms(3) by (rule list_all2_lengthD)
  ultimately show ?thesis using read_frames_ok [OF assms(5,6) _ assms(4)] by auto
qed

text \<open>A message with no data is written to the stream complete with its size and type, and its
  sender is told that sending failed: \<^verbatim>\<open>fd_send_message\<close> takes the 0 that \<^verbatim>\<open>write\<close>
  returns for no bytes for an error.\<close>

theorem empty_message_reported_failed:
  assumes "accepts os written" "holds m []"
  shows "\<exists>w'. fd_send_message os fd t m w = Inr (FAILURE, w')
     \<and> written w' = (written w)(fd := written w fd @ frame t [])"
  using fd_send_ok [OF assms, of fd t w] by simp

text \<open>A system that records what is written to each descriptor, for the concrete instances.\<close>

definition tape_os :: "(int \<Rightarrow> byte list) os" where
  "tape_os = \<lparr>os_socket = (\<lambda>_ _ _ w. (- 1, w)), os_reuseaddr = (\<lambda>_ w. (0, w)),
     os_getaddrinfo = (\<lambda>_ _ _ w. ((0, Some \<lparr>ai_addr = Some (replicate 28 0), ai_addrlen = 28\<rparr>), w)),
     os_freeaddrinfo = (\<lambda>_ w. w), os_bind = (\<lambda>_ _ _ w. (0, w)), os_listen = (\<lambda>_ _ w. (0, w)),
     os_accept = (\<lambda>_ w. ((- 1, []), w)), os_connect = (\<lambda>_ _ _ w. (0, w)),
     os_select_write = (\<lambda>_ _ w. (1, w)), os_so_error = (\<lambda>_ w. (0, w)),
     os_getfl = (\<lambda>_ w. (2, w)), os_setfl = (\<lambda>_ _ w. (0, w)), os_errno = (\<lambda>_. 0),
     os_close = (\<lambda>_ w. w),
     os_write = (\<lambda>fd bs w. (int (length bs), w(fd := w fd @ map the bs))),
     os_read = (\<lambda>_ n w. ((0, []), w))\<rparr>"

lemma tape_os_accepts: "accepts tape_os (\<lambda>w. w)"
  by (simp add: accepts_def tape_os_def cells_def)

lemma frames_roundtrip_witness:
  "\<exists>w'. send_frames tape_os 5 [(3, message_of [1, 2]), (2, message_of [9])] (\<lambda>_. []) = Inr w' \<and>
     (\<exists>rs r'. read_frames good_runtime no_os 4 2 (w' 5 @ [7]) = Inr (rs, r') \<and> r' = [7]
        \<and> list_all2 (\<lambda>x (t, bs). \<exists>m. x = Some m \<and> holds m (bytes_of_u32 t @ bs)) rs
            [(3, [1, 2]), (2, [9])])"
proof -
  have h: "list_all2 (\<lambda>(t :: u32, m) (u, bs). t = u \<and> holds m bs \<and> bs \<noteq> [])
      [(3, message_of [1, 2]), (2, message_of [9])] [(3, [1, 2]), (2, [9])]"
    by (simp add: holds_message_of)
  have l: "list_all (\<lambda>(t :: u32, bs :: byte list). length bs + 4 < 2 ^ 31) [(3, [1, 2]), (2, [9])]" by simp
  obtain w' where w: "send_frames tape_os 5 [(3, message_of [1, 2]), (2, message_of [9])] (\<lambda>_. []) = Inr w'"
    "\<forall>r rest. r = w' 5 @ rest \<longrightarrow>
       (\<exists>rs r'. read_frames good_runtime no_os 4 2 r = Inr (rs, r') \<and> r' = rest
          \<and> list_all2 (\<lambda>x (t, bs). \<exists>m. x = Some m \<and> holds m (bytes_of_u32 t @ bs)) rs
            [(3, [1, 2]), (2, [9])])"
    using frames_roundtrip [OF tape_os_accepts _ h l enough_memory_good no_os_delivers,
        of "\<lambda>_. []" 5 4]
    by (auto simp del: send_frames.simps read_frames.simps simp: numeral_2_eq_2)
  then show ?thesis by blast
qed

lemma empty_message_reported_failed_witness:
  "\<exists>w'. fd_send_message tape_os 5 3 (message_of []) (\<lambda>_. []) = Inr (FAILURE, w')
     \<and> w' 5 = bytes_of_u32 4 @ bytes_of_u32 3"
  using empty_message_reported_failed [OF tape_os_accepts, of "message_of []" 5 3 "\<lambda>_. []"]
  by (auto simp: holds_message_of frame_def)


section \<open>Sending to peers\<close>

definition peer_of :: "('h, 'w, 'z) proto_scheme \<Rightarrow> nat \<Rightarrow> peer_information" where
  "peer_of s p = the (peer_mem s p)"

text \<open>The ids of the peers, in the order \<^verbatim>\<open>HASH_ITER\<close> visits them.\<close>

definition ids_of :: "('h, 'w, 'z) proto_scheme \<Rightarrow> u32 list" where
  "ids_of s = map (peer_id \<circ> peer_of s) (HASH_ITER (peers s))"

definition wf_peers :: "('h, 'w, 'z) proto_scheme \<Rightarrow> bool" where
  "wf_peers s \<longleftrightarrow> wf_uthash (peer_key (peer_mem s)) (peers s)
     \<and> (\<forall>p \<in> set (HASH_ITER (peers s)). peer_mem s p \<noteq> None) \<and> distinct (ids_of s)"

text \<open>Every peer has a connection of its own and an id that is neither 0 nor the local id.\<close>

definition connected :: "('h, 'w, 'z) proto_scheme \<Rightarrow> bool" where
  "connected s \<longleftrightarrow> wf_peers s \<and> 0 \<notin> set (ids_of s) \<and> my_id s \<notin> set (ids_of s)
     \<and> (\<forall>p \<in> set (HASH_ITER (peers s)). sock_fd (peer_of s p) \<noteq> - 1)
     \<and> inj_on (sock_fd \<circ> peer_of s) (set (HASH_ITER (peers s)))"

text \<open>All the bytes written to the peer with a given id.\<close>

definition out :: "('w \<Rightarrow> int \<Rightarrow> byte list) \<Rightarrow> ('h, 'w, 'z) proto_scheme \<Rightarrow> u32 \<Rightarrow> byte list" where
  "out written s i = (case find_peer s i of None \<Rightarrow> []
     | Some p \<Rightarrow> written (world s) (sock_fd (peer_of s p)))"

lemma peer_key_eq: "peer_mem s p \<noteq> None \<Longrightarrow> peer_key (peer_mem s) p = bytes_of_u32 (peer_id (peer_of s p))"
  by (auto simp: peer_key_def peer_of_def)

lemma keyed_peers: "wf_peers s \<Longrightarrow> uthash.keyed (peer_key (peer_mem s)) (peers s)"
proof -
  assume wf: "wf_peers s"
  then have "map (peer_key (peer_mem s)) (HASH_ITER (peers s)) = map bytes_of_u32 (ids_of s)"
    by (auto simp: wf_peers_def ids_of_def peer_key_eq)
  with wf show ?thesis
    by (simp add: uthash.keyed_def wf_peers_def distinct_map inj_on_def)
qed

lemma find_peer_iff:
  assumes "wf_peers s"
  shows "find_peer s i = Some p \<longleftrightarrow> p \<in> set (HASH_ITER (peers s)) \<and> peer_id (peer_of s p) = i"
  using uthash.find_iff [OF keyed_peers [OF assms], of "bytes_of_u32 i" p] assms
  by (auto simp: find_peer_def wf_peers_def peer_key_eq)

lemma find_peer_None:
  assumes "wf_peers s"
  shows "find_peer s i = None \<longleftrightarrow> i \<notin> set (ids_of s)"
proof -
  have "(\<exists>p. find_peer s i = Some p) \<longleftrightarrow> i \<in> set (ids_of s)"
    unfolding find_peer_iff [OF assms] by (auto simp: ids_of_def)
  then show ?thesis by (metis not_None_eq)
qed

lemma peer_of_world [simp]: "peer_of (s\<lparr>world := w\<rparr>) = peer_of s"
  by (simp add: peer_of_def fun_eq_iff)

lemma connected_cong:
  assumes "peer_mem s = peer_mem t" "peers s = peers t" "my_id s = my_id t"
  shows "connected s = connected t" "ids_of s = ids_of t"
proof -
  have "peer_of s = peer_of t" using assms(1) by (simp add: peer_of_def fun_eq_iff)
  then show "connected s = connected t" "ids_of s = ids_of t"
    by (simp_all only: connected_def wf_peers_def ids_of_def assms)
qed

lemma ids_of_world [simp]:
  "ids_of (s\<lparr>world := w\<rparr>) = ids_of s" "find_peer (s\<lparr>world := w\<rparr>) = find_peer s"
  "wf_peers (s\<lparr>world := w\<rparr>) = wf_peers s" "connected (s\<lparr>world := w\<rparr>) = connected s"
  by (simp_all add: ids_of_def find_peer_def wf_peers_def connected_def fun_eq_iff)

lemma send_to_peer_ok:
  assumes acc: "accepts os written" and c: "connected s" and p: "p \<in> set (HASH_ITER (peers s))"
    and h: "holds m bs" "bs \<noteq> []"
  shows "\<exists>w. send_to_peer os p t m s = Inr (SUCCESS, s\<lparr>world := w\<rparr>)
     \<and> out written (s\<lparr>world := w\<rparr>)
         = (out written s)(peer_id (peer_of s p) := out written s (peer_id (peer_of s p)) @ frame t bs)"
proof -
  have wf: "wf_peers s" and fd: "sock_fd (peer_of s p) \<noteq> - 1" and inj: "inj_on (sock_fd \<circ> peer_of s) (set (HASH_ITER (peers s)))"
    using c p by (auto simp: connected_def)
  have "peer_mem s p = Some (peer_of s p)" using wf p by (auto simp: wf_peers_def peer_of_def)
  moreover obtain w where w: "fd_send_message os (sock_fd (peer_of s p)) t m (world s) = Inr (SUCCESS, w)"
      "written w = (written (world s))(sock_fd (peer_of s p) := written (world s) (sock_fd (peer_of s p)) @ frame t bs)"
    using fd_send_ok [OF acc h(1), of "sock_fd (peer_of s p)" t "world s"] h(2) by auto
  ultimately have "send_to_peer os p t m s = Inr (SUCCESS, s\<lparr>world := w\<rparr>)"
    using fd by (simp add: send_to_peer_def peer_at_def)
  moreover have "out written (s\<lparr>world := w\<rparr>) i = ((out written s)(peer_id (peer_of s p) :=
      out written s (peer_id (peer_of s p)) @ frame t bs)) i" for i
  proof (cases "find_peer s i")
    case None
    with find_peer_None [OF wf] p have "i \<noteq> peer_id (peer_of s p)" by (auto simp: ids_of_def)
    with None show ?thesis by (simp add: out_def)
  next
    case (Some q)
    then have q: "q \<in> set (HASH_ITER (peers s))" "peer_id (peer_of s q) = i" using find_peer_iff [OF wf] by auto
    have fp: "find_peer s (peer_id (peer_of s p)) = Some p" using find_peer_iff [OF wf] p by auto
    show ?thesis
    proof (cases "q = p")
      case True
      with Some q w(2) fp show ?thesis by (simp add: out_def)
    next
      case False
      with q p inj have "sock_fd (peer_of s q) \<noteq> sock_fd (peer_of s p)" by (auto simp: inj_on_def)
      moreover have "i \<noteq> peer_id (peer_of s p)" using False fp Some by auto
      ultimately show ?thesis using Some w(2) by (simp add: out_def)
    qed
  qed
  ultimately show ?thesis by blast
qed

lemma broadcast_ok:
  assumes "accepts os written" "holds m bs" "bs \<noteq> []"
  shows "connected s \<Longrightarrow> set ps \<subseteq> set (HASH_ITER (peers s)) \<Longrightarrow> distinct ps \<Longrightarrow>
     \<exists>w. broadcast os ps t m s = Inr (SUCCESS, s\<lparr>world := w\<rparr>)
     \<and> (\<forall>i. out written (s\<lparr>world := w\<rparr>) i =
          (if i \<in> peer_id ` peer_of s ` set ps then out written s i @ frame t bs else out written s i))"
proof (induction ps arbitrary: s)
  case Nil
  then show ?case by (intro exI [of _ "world s"]) simp
next
  case (Cons p ps)
  from send_to_peer_ok [OF assms(1) Cons.prems(1) _ assms(2,3), of p t] Cons.prems obtain w where
    w: "send_to_peer os p t m s = Inr (SUCCESS, s\<lparr>world := w\<rparr>)"
      "out written (s\<lparr>world := w\<rparr>) = (out written s)(peer_id (peer_of s p) := out written s (peer_id (peer_of s p)) @ frame t bs)"
    by auto
  from Cons.IH [of "s\<lparr>world := w\<rparr>"] Cons.prems obtain w' where
    w': "broadcast os ps t m (s\<lparr>world := w\<rparr>) = Inr (SUCCESS, s\<lparr>world := w'\<rparr>)"
      "\<forall>i. out written (s\<lparr>world := w'\<rparr>) i = (if i \<in> peer_id ` peer_of s ` set ps
          then out written (s\<lparr>world := w\<rparr>) i @ frame t bs else out written (s\<lparr>world := w\<rparr>) i)"
    by auto
  have "distinct (ids_of s)" using Cons.prems(1) by (simp add: connected_def wf_peers_def)
  then have "inj_on (peer_id \<circ> peer_of s) (set (HASH_ITER (peers s)))"
    by (simp add: ids_of_def distinct_map)
  with Cons.prems have "peer_id (peer_of s p) \<notin> peer_id ` peer_of s ` set ps"
    by (auto simp: inj_on_def)
  with w w' show ?case by (intro exI [of _ w']) auto
qed

text \<open>
  What the components above rely on: a send to a peer, or to all peers, succeeds, appends one frame
  to the bytes written to exactly the peers addressed, and changes nothing else of the state.
\<close>

locale transport =
  fixes send :: "u32 \<Rightarrow> u32 \<Rightarrow> edsm_message \<Rightarrow> 's \<Rightarrow> (int \<times> 's) res"
    and out_to :: "'s \<Rightarrow> u32 \<Rightarrow> byte list"
    and ids :: "'s \<Rightarrow> u32 list"
    and ready :: "'s \<Rightarrow> bool"
    and rest :: "'s \<Rightarrow> 'r"
  assumes unicast: "ready s \<Longrightarrow> p \<in> set (ids s) \<Longrightarrow> holds m bs \<Longrightarrow> bs \<noteq> [] \<Longrightarrow>
      \<exists>s'. send p t m s = Inr (SUCCESS, s') \<and> ready s' \<and> ids s' = ids s \<and> rest s' = rest s
        \<and> out_to s' = (out_to s)(p := out_to s p @ frame t bs)"
    and to_all: "ready s \<Longrightarrow> holds m bs \<Longrightarrow> bs \<noteq> [] \<Longrightarrow>
      \<exists>s'. send 0 t m s = Inr (SUCCESS, s') \<and> ready s' \<and> ids s' = ids s \<and> rest s' = rest s
        \<and> (\<forall>i. out_to s' i = (if i \<in> set (ids s) then out_to s i @ frame t bs else out_to s i))"

text \<open>Sending one message to a list of peers, giving up at the first failure.\<close>

fun send_each ::
    "(u32 \<Rightarrow> u32 \<Rightarrow> edsm_message \<Rightarrow> 's \<Rightarrow> (int \<times> 's) res) \<Rightarrow> u32 list \<Rightarrow> u32 \<Rightarrow> edsm_message \<Rightarrow> 's
       \<Rightarrow> (int \<times> 's) res" where
  "send_each send [] t m s = Inr (SUCCESS, s)"
| "send_each send (p # ps) t m s =
     res_bind (send p t m s) (\<lambda>(rc, s').
     if rc = FAILURE then Inr (FAILURE, s') else send_each send ps t m s')"

context transport
begin

lemma send_each_ok:
  assumes "holds m bs" "bs \<noteq> []"
  shows "ready s \<Longrightarrow> set ps \<subseteq> set (ids s) \<Longrightarrow> distinct ps \<Longrightarrow>
     \<exists>s'. send_each send ps t m s = Inr (SUCCESS, s') \<and> ready s' \<and> ids s' = ids s \<and> rest s' = rest s
       \<and> (\<forall>i. out_to s' i = (if i \<in> set ps then out_to s i @ frame t bs else out_to s i))"
proof (induction ps arbitrary: s)
  case Nil
  then show ?case by simp
next
  case (Cons p ps)
  from unicast [OF Cons.prems(1) _ assms, of p t] Cons.prems obtain s1 where
    1: "send p t m s = Inr (SUCCESS, s1)" "ready s1" "ids s1 = ids s" "rest s1 = rest s"
      "out_to s1 = (out_to s)(p := out_to s p @ frame t bs)" by auto
  from Cons.IH [OF 1(2)] Cons.prems 1(3) obtain s2 where
    2: "send_each send ps t m s1 = Inr (SUCCESS, s2)" "ready s2" "ids s2 = ids s1" "rest s2 = rest s1"
      "\<forall>i. out_to s2 i = (if i \<in> set ps then out_to s1 i @ frame t bs else out_to s1 i)" by auto
  show ?case using 1 2 Cons.prems(3) by (intro exI [of _ s2]) auto
qed

end

interpretation edsm: transport "edsm_proto_send rt os call" "out written" ids_of
    "\<lambda>s. connected s \<and> accepts os written" "\<lambda>s. s\<lparr>world := w0\<rparr>" for rt os call written w0
proof (unfold_locales, goal_cases)
  case (1 s p m bs t)
  note s = 1(1) and p = 1(2) and h = 1(3,4)
  from s p have wf: "wf_peers s" "p \<noteq> 0" "p \<noteq> my_id s" by (auto simp: connected_def)
  obtain a where a: "a \<in> set (HASH_ITER (peers s))" "peer_id (peer_of s a) = p"
    using p by (auto simp: ids_of_def)
  then have "find_peer s p = Some a" using find_peer_iff [OF wf(1)] by simp
  with send_to_peer_ok [of os written s a m bs t] s a h wf(2,3)
  show ?case
    by (auto simp: edsm_proto_send_def)
next
  case (2 s m bs t)
  note s = 2(1) and h = 2(2,3)
  have "distinct (HASH_ITER (peers s))"
    using s by (auto simp: connected_def wf_peers_def ids_of_def distinct_map)
  with broadcast_ok [of os written m bs s "HASH_ITER (peers s)" t] s h
  show ?case
    by (auto simp: edsm_proto_send_def ids_of_def)
qed


section \<open>Peer lists\<close>

text \<open>A peer as a list of peers describes it, and the bytes of such a list.\<close>

definition entry :: "peer_information \<Rightarrow> byte list" where
  "entry pr = bytes_of_u32 (peer_id pr) @ peer_addr pr"

definition peers_list :: "('h, 'w, 'z) proto_scheme \<Rightarrow> peer_information list" where
  "peers_list s = map (peer_of s) (HASH_ITER (peers s))"

definition peerlist_bytes :: "peer_information list \<Rightarrow> byte list" where
  "peerlist_bytes prs = bytes_of_u32 (word_of_nat (length prs)) @ concat (map entry prs)"

lemma length_entries:
  "list_all (\<lambda>pr. length (peer_addr pr) = 128) prs \<Longrightarrow> length (concat (map entry prs)) = 132 * length prs"
  by (induction prs) (auto simp: entry_def)

lemma append_peers_ok:
  assumes rt: "enough_memory rt"
  shows "holds m bs \<Longrightarrow> 3 * (used m + 132 * length ps) < 2 ^ 31 \<Longrightarrow>
     \<forall>p \<in> set ps. peer_mem s p \<noteq> None \<and> length (peer_addr (peer_of s p)) = 128 \<Longrightarrow>
     \<exists>m'. append_peers rt s ps m = Inr m' \<and> holds m' (bs @ concat (map entry (map (peer_of s) ps)))
       \<and> used m' = used m + 132 * length ps"
proof (induction ps arbitrary: m bs)
  case Nil
  then show ?case by simp
next
  case (Cons p ps)
  let ?pr = "peer_of s p"
  have pr: "peer_at s p = Inr ?pr" "length (peer_addr ?pr) = 128"
    using Cons.prems(3) by (auto simp: peer_at_def peer_of_def)
  have b: "3 * (used m + 4) < 2 ^ 31" "3 * (used m + 4 + length (peer_addr ?pr)) < 2 ^ 31"
    using Cons.prems(2) pr(2) by simp_all
  obtain m1 where m1: "write_u32 rt m (peer_id ?pr) = Inr (SUCCESS, m1)" "holds m1 (bs @ bytes_of_u32 (peer_id ?pr))"
      "used m1 = used m + 4"
    by (rule holds_write_u32 [OF rt Cons.prems(1) b(1)])
  obtain m2 where m2: "edsm_message_write rt m1 (cells (peer_addr ?pr) @ []) (word_of_nat (length (peer_addr ?pr)))
        = Inr (SUCCESS, m2)" "holds m2 ((bs @ bytes_of_u32 (peer_id ?pr)) @ peer_addr ?pr)"
      "used m2 = used m1 + length (peer_addr ?pr)"
    by (rule holds_write [OF rt m1(2)]) (use b(2) m1(3) in simp)
  have "3 * (used m2 + 132 * length ps) < 2 ^ 31"
    using Cons.prems(2) m1(3) m2(3) pr(2) by simp
  from Cons.IH [OF m2(2) this] Cons.prems(3) pr m1 m2 show ?case
    by (auto simp: entry_def)
qed

lemma append_peerlist_ok:
  assumes rt: "enough_memory rt" and wf: "wf_peers s" and h: "holds m bs"
    and b: "3 * (used m + 4 + 132 * length (peers_list s)) < 2 ^ 31"
    and addr: "list_all (\<lambda>pr. length (peer_addr pr) = 128) (peers_list s)"
  shows "\<exists>m'. append_peerlist_to_message rt s m = Inr m' \<and> holds m' (bs @ peerlist_bytes (peers_list s))"
proof -
  let ?n = "length (HASH_ITER (peers s))"
  have cnt: "HASH_COUNT (peers s) = word_of_nat ?n" using wf by (auto simp: wf_peers_def HASH_COUNT_wf)
  have un: "unat (word_of_nat ?n :: u32) = ?n"
    using b by (intro unat_u32_of_nat) (simp add: peers_list_def)
  have b1: "3 * (used m + 4) < 2 ^ 31" using b by simp
  obtain m1 where m1: "write_u32 rt m (word_of_nat ?n) = Inr (SUCCESS, m1)"
      "holds m1 (bs @ bytes_of_u32 (word_of_nat ?n))" "used m1 = used m + 4"
    by (rule holds_write_u32 [OF rt h b1])
  have "\<forall>p \<in> set (HASH_ITER (peers s)). peer_mem s p \<noteq> None \<and> length (peer_addr (peer_of s p)) = 128"
    using wf addr by (auto simp: wf_peers_def peers_list_def list_all_iff)
  from append_peers_ok [OF rt m1(2) _ this] b m1(3) obtain m2 where
    m2: "append_peers rt s (HASH_ITER (peers s)) m1 = Inr m2"
      "holds m2 ((bs @ bytes_of_u32 (word_of_nat ?n)) @ concat (map entry (peers_list s)))"
    by (auto simp: peers_list_def)
  show ?thesis
  proof (cases "?n = 0")
    case True
    with m1 cnt show ?thesis
      by (simp add: append_peerlist_to_message_def peerlist_bytes_def peers_list_def)
  next
    case False
    then have "(0 :: u32) < word_of_nat ?n" using un by (metis unat_0 unsigned_0 word_gt_0)
    with m1 m2 cnt show ?thesis
      by (simp add: append_peerlist_to_message_def peerlist_bytes_def peers_list_def)
  qed
qed


text \<open>The allocator has given out the addresses below \<open>peer_brk\<close> only.\<close>

definition fresh_peers :: "('h, 'w, 'z) proto_scheme \<Rightarrow> bool" where
  "fresh_peers s \<longleftrightarrow> (\<forall>p. peer_brk s \<le> p \<longrightarrow> peer_mem s p = None)"

definition new_peer :: "peer_information \<Rightarrow> ('h, 'w, 'z) proto_scheme \<Rightarrow> ('h, 'w, 'z) proto_scheme" where
  "new_peer pr s = add_peer (s\<lparr>peer_brk := Suc (peer_brk s), peer_mem := (peer_mem s)(peer_brk s \<mapsto> pr)\<rparr>) (peer_brk s)"

lemma new_peer_ok:
  assumes wf: "wf_peers s" and fr: "fresh_peers s" and few: "few_items (peers s)"
    and new: "find_peer s (peer_id pr) = None"
  shows "wf_peers (new_peer pr s) \<and> fresh_peers (new_peer pr s) \<and> peers_list (new_peer pr s) = peers_list s @ [pr]
     \<and> HASH_ITER (peers (new_peer pr s)) = HASH_ITER (peers s) @ [peer_brk s]"
proof -
  let ?p = "peer_brk s" let ?mem = "(peer_mem s)(?p \<mapsto> pr)"
  have notin: "p \<noteq> ?p" "peer_mem s p \<noteq> None" if "p \<in> set (HASH_ITER (peers s))" for p
    using that wf fr by (auto simp: wf_peers_def fresh_peers_def)
  have "wf_uthash (peer_key ?mem) (peers s)"
    by (rule wf_uthash_cong [of _ _ "peer_key (peer_mem s)"])
      (use notin wf in \<open>auto simp: peer_key_def wf_peers_def\<close>)
  from HASH_ADD_wf [OF this few_items_can_expand [OF few], of ?p] have
    add: "wf_uthash (peer_key ?mem) (HASH_ADD (peer_key ?mem) (peers s) ?p)"
      "HASH_ITER (HASH_ADD (peer_key ?mem) (peers s) ?p) = HASH_ITER (peers s) @ [?p]" by auto
  have m: "map (peer_of (new_peer pr s)) (HASH_ITER (peers s)) = peers_list s"
    using notin by (auto simp: peers_list_def peer_of_def new_peer_def add_peer_def)
  have it: "HASH_ITER (peers (new_peer pr s)) = HASH_ITER (peers s) @ [?p]"
    using add(2) by (simp add: new_peer_def add_peer_def)
  have pl: "peers_list (new_peer pr s) = peers_list s @ [pr]"
    using m unfolding peers_list_def it by (simp add: peer_of_def new_peer_def add_peer_def)
  then have ids: "ids_of (new_peer pr s) = ids_of s @ [peer_id pr]"
    by (simp add: ids_of_def peers_list_def flip: map_map)
  have "wf_peers (new_peer pr s)"
    unfolding wf_peers_def it ids
    using add(1) notin wf new find_peer_None [OF wf]
    by (auto simp: new_peer_def add_peer_def wf_peers_def)
  moreover have "fresh_peers (new_peer pr s)"
    using fr by (auto simp: fresh_peers_def new_peer_def add_peer_def)
  ultimately show ?thesis using pl it by simp
qed

lemma new_peer_few:
  assumes "wf_peers s" "fresh_peers s" "few_items (peers s)" "Suc (length (HASH_ITER (peers s))) < 26"
  shows "few_items (peers (new_peer pr s))"
proof -
  let ?s = "s\<lparr>peer_mem := (peer_mem s)(peer_brk s \<mapsto> pr), peer_brk := Suc (peer_brk s)\<rparr>"
  have "wf_uthash (peer_key (peer_mem ?s)) (peers s)"
    by (rule wf_uthash_cong [of _ _ "peer_key (peer_mem s)"])
      (use assms(1,2) in \<open>auto simp: peer_key_def wf_peers_def fresh_peers_def\<close>)
  from few_items_add [OF this assms(3,4)] show ?thesis
    by (simp add: new_peer_def add_peer_def)
qed

lemma read_peers_known:
  assumes "holds m (bytes_of_u32 i @ bs)" "find_peer s i = Some p"
  shows "\<exists>m'. read_peers rt (Suc n) m s = read_peers rt n m' s \<and> holds m' bs"
proof -
  obtain m1 where "read_u32 m = Inr (SUCCESS, Some i, m1)" "holds m1 bs"
    using holds_read_u32 [OF assms(1)] by metis
  with assms(2) show ?thesis by auto
qed

lemma read_peers_new:
  assumes rt: "enough_memory rt" and m: "holds m (bytes_of_u32 i @ a @ bs)" and a: "length a = 128"
    and new: "find_peer s i = None"
  shows "\<exists>m'. read_peers rt (Suc n) m s
       = read_peers rt n m' (new_peer \<lparr>peer_id = i, sock_fd = - 1, peer_addr = a\<rparr> s) \<and> holds m' bs"
proof -
  obtain m1 where m1: "read_u32 m = Inr (SUCCESS, Some i, m1)" "holds m1 (a @ bs)"
    using holds_read_u32 [OF m] by metis
  obtain m2 where m2: "edsm_message_read m1 (cells (replicate sizeof_sockaddr 0)) 0 (word_of_nat 128) =
      Inr (SUCCESS, take (nat 0) (cells (replicate sizeof_sockaddr 0)) @ cells (take 128 (a @ bs))
        @ drop (nat 0 + 128) (cells (replicate sizeof_sockaddr 0)), m2)" "holds m2 (drop 128 (a @ bs))"
    by (rule holds_read [OF m1(2), of 128 0 "cells (replicate sizeof_sockaddr 0)"])
      (use a in \<open>simp_all add: sizeof_sockaddr_def\<close>)
  have "edsm_message_read m1 (cells (replicate sizeof_sockaddr 0)) 0 128 = Inr (SUCCESS, cells a, m2)" "holds m2 bs"
    using m2 a by (simp_all add: sizeof_sockaddr_def)
  with m1(1) new rt show ?thesis
    by (auto simp: initialize_peer_def new_peer_def)
qed

declare read_peers.simps(2) [simp del]

lemma read_peers_ok:
  assumes rt: "enough_memory rt"
  shows "wf_peers s \<Longrightarrow> fresh_peers s \<Longrightarrow> few_items (peers s) \<Longrightarrow>
     length (HASH_ITER (peers s)) + length prs < 26 \<Longrightarrow>
     list_all (\<lambda>pr. length (peer_addr pr) = 128) prs \<Longrightarrow> distinct (map peer_id prs) \<Longrightarrow>
     set (ids_of s) \<inter> peer_id ` set prs = {} \<Longrightarrow> holds m (concat (map entry prs) @ rest) \<Longrightarrow>
     \<exists>m' s'. read_peers rt (length prs) m s = Inr (m', s') \<and> holds m' rest \<and> wf_peers s' \<and> few_items (peers s')
       \<and> peers_list s' = peers_list s @ map (\<lambda>pr. pr\<lparr>sock_fd := - 1\<rparr>) prs"
proof (induction prs arbitrary: m s)
  case Nil
  then show ?case by simp
next
  case (Cons pr prs)
  let ?pr = "pr\<lparr>sock_fd := - 1\<rparr>"
  have pr: "\<lparr>peer_id = peer_id pr, sock_fd = - 1, peer_addr = peer_addr pr\<rparr> = ?pr" by simp
  have new: "find_peer s (peer_id pr) = None"
    using Cons.prems(1,7) find_peer_None by auto
  have h: "holds m (bytes_of_u32 (peer_id pr) @ peer_addr pr @ concat (map entry prs) @ rest)"
    using Cons.prems(8) by (simp add: entry_def [of pr])
  obtain m1 where m1: "read_peers rt (Suc (length prs)) m s = read_peers rt (length prs) m1 (new_peer ?pr s)"
      "holds m1 (concat (map entry prs) @ rest)"
    using read_peers_new [OF rt h _ new, of "length prs"] Cons.prems(5) unfolding pr by auto
  have n: "wf_peers (new_peer ?pr s)" "fresh_peers (new_peer ?pr s)" "peers_list (new_peer ?pr s) = peers_list s @ [?pr]"
      "HASH_ITER (peers (new_peer ?pr s)) = HASH_ITER (peers s) @ [peer_brk s]"
    using new_peer_ok [OF Cons.prems(1-3), of ?pr] new by auto
  have few: "few_items (peers (new_peer ?pr s))"
    using new_peer_few [OF Cons.prems(1-3)] Cons.prems(4) by simp
  have ids: "ids_of (new_peer ?pr s) = ids_of s @ [peer_id pr]"
    using n(3) by (simp add: ids_of_def peers_list_def flip: map_map)
  have "\<exists>m' s'. read_peers rt (length prs) m1 (new_peer ?pr s) = Inr (m', s') \<and> holds m' rest \<and> wf_peers s'
       \<and> few_items (peers s')
       \<and> peers_list s' = peers_list (new_peer ?pr s) @ map (\<lambda>pr. pr\<lparr>sock_fd := - 1\<rparr>) prs"
    by (rule Cons.IH [OF n(1,2) few]) (use Cons.prems n(4) ids m1(2) in auto)
  with m1(1) n(3) show ?case by auto
qed


lemma read_peerlist_ok:
  assumes rt: "enough_memory rt" and prs: "distinct (map peer_id prs)" "list_all (\<lambda>pr. length (peer_addr pr) = 128) prs"
      "length prs < 26"
    and e: "holds e (peerlist_bytes prs @ rest)" and s2: "peers s2 = None" "fresh_peers s2"
  shows "\<exists>e' s3. read_peerlist_from_message rt e s2 = Inr (e', s3) \<and> holds e' rest \<and> wf_peers s3 \<and> few_items (peers s3)
     \<and> peers_list s3 = map (\<lambda>pr. pr\<lparr>sock_fd := - 1\<rparr>) prs"
proof -
  have un: "unat (word_of_nat (length prs) :: u32) = length prs"
    using prs(3) by (intro unat_u32_of_nat) simp
  obtain e1 where e1: "read_u32 e = Inr (SUCCESS, Some (word_of_nat (length prs)), e1)"
      "holds e1 (concat (map entry prs) @ rest)"
    using holds_read_u32 [of e "word_of_nat (length prs)" "concat (map entry prs) @ rest"] e
    by (auto simp: peerlist_bytes_def)
  have empty: "HASH_ITER (peers s2) = []" "wf_peers s2" "few_items (peers s2)" "ids_of s2 = []" "peers_list s2 = []"
    using s2(1) by (simp_all add: HASH_ITER_def wf_peers_def wf_uthash_def few_items_def ids_of_def peers_list_def)
  from read_peers_ok [OF rt empty(2) s2(2) empty(3) _ prs(2,1) _ e1(2)] empty prs(3) e1(1) un
  show ?thesis by (auto simp: read_peerlist_from_message_def)
qed

text \<open>A node that knows no peer and reads the list another node appended to a message ends up with
  exactly the peers of that node, in its order, with their ids and addresses and not yet connected, and
  reads not a byte more than the list (for at most 25 peers; every address has the size of a
  \<^verbatim>\<open>struct sockaddr_storage\<close>).\<close>

theorem peerlist_roundtrip:
  assumes "enough_memory rt" "wf_peers s" "holds m bs"
    and "used m + 4 + 132 * length (peers_list s) \<le> message_room" "length (peers_list s) < 26"
    and "list_all (\<lambda>pr. length (peer_addr pr) = 128) (peers_list s)"
  shows "\<exists>m1 enc. append_peerlist_to_message rt s m = Inr m1 \<and> holds m1 (bs @ enc) \<and>
     (\<forall>e (s2 :: ('h, 'w, 'z) proto_scheme) rest. holds e (enc @ rest) \<longrightarrow> peers s2 = None \<longrightarrow> fresh_peers s2 \<longrightarrow>
       (\<exists>e' s3. read_peerlist_from_message rt e s2 = Inr (e', s3) \<and> holds e' rest \<and> wf_peers s3
          \<and> peers_list s3 = map (\<lambda>pr. pr\<lparr>sock_fd := - 1\<rparr>) (peers_list s)))"
proof -
  let ?prs = "peers_list s"
  obtain m1 where m1: "append_peerlist_to_message rt s m = Inr m1" "holds m1 (bs @ peerlist_bytes ?prs)"
    using append_peerlist_ok [OF assms(1-3) _ assms(6)] assms(4) by (auto simp only: message_room_iff)
  have "distinct (map peer_id ?prs)"
    using assms(2) by (simp add: wf_peers_def ids_of_def peers_list_def)
  from read_peerlist_ok [OF assms(1) this assms(6,5)]
  have "\<exists>e' s3. read_peerlist_from_message rt e s2 = Inr (e', s3) \<and> holds e' rest \<and> wf_peers s3
          \<and> peers_list s3 = map (\<lambda>pr. pr\<lparr>sock_fd := - 1\<rparr>) ?prs"
    if "holds e (peerlist_bytes ?prs @ rest)" "peers s2 = None" "fresh_peers s2"
    for e and s2 :: "('h, 'w, 'z) proto_scheme" and rest
    using that by blast
  with m1 show ?thesis by blast
qed

text \<open>A list that names a peer that is already known is misread: the address of the known peer is not
  skipped, so its first four bytes are taken for the id of the next peer.\<close>

theorem known_peer_desyncs:
  assumes "enough_memory rt" "find_peer s i = Some p" "find_peer s k = None"
    and "wf_peers s" "fresh_peers s" "few_items (peers s)" "length a = 124" "length b = 128"
    and "holds e (bytes_of_u32 2 @ (bytes_of_u32 i @ bytes_of_u32 k @ a) @ bytes_of_u32 j @ b)"
  shows "\<exists>e' s'. read_peerlist_from_message rt e s = Inr (e', s')
     \<and> peers_list s' = peers_list s @ [\<lparr>peer_id = k, sock_fd = - 1, peer_addr = a @ bytes_of_u32 j\<rparr>]
     \<and> holds e' b"
proof -
  obtain e1 where e1: "read_u32 e = Inr (SUCCESS, Some 2, e1)"
      "holds e1 (bytes_of_u32 i @ bytes_of_u32 k @ (a @ bytes_of_u32 j) @ b)"
    using holds_read_u32 [of e 2] assms(9) by (metis append_assoc)
  obtain e2 where e2: "read_peers rt (Suc 1) e1 s = read_peers rt 1 e2 s"
      "holds e2 (bytes_of_u32 k @ (a @ bytes_of_u32 j) @ b)"
    using read_peers_known [OF e1(2) assms(2), of rt 1] by blast
  obtain e3 where e3: "read_peers rt (Suc 0) e2 s =
        read_peers rt 0 e3 (new_peer \<lparr>peer_id = k, sock_fd = - 1, peer_addr = a @ bytes_of_u32 j\<rparr> s)"
      "holds e3 b"
    using read_peers_new [OF assms(1) e2(2) _ assms(3), of 0] assms(7) by auto
  have "read_peers rt 2 e1 s = Inr (e3, new_peer \<lparr>peer_id = k, sock_fd = - 1, peer_addr = a @ bytes_of_u32 j\<rparr> s)"
    using e2(1) e3(1) by (simp add: numeral_2_eq_2)
  then have "read_peerlist_from_message rt e s =
      Inr (e3, new_peer \<lparr>peer_id = k, sock_fd = - 1, peer_addr = a @ bytes_of_u32 j\<rparr> s)"
    using e1(1) by (simp add: read_peerlist_from_message_def)
  with new_peer_ok [OF assms(4-6), of "\<lparr>peer_id = k, sock_fd = - 1, peer_addr = a @ bytes_of_u32 j\<rparr>"] assms(3) e3(2)
  show ?thesis by auto
qed

text \<open>C24: sending: a non-empty message to peer 0 reaches every peer once, to the id of a peer that peer only,
  and in both cases nothing else is written; an id that is neither a peer's nor the node's own is
  reported as a failure and nothing is written.\<close>

theorem proto_send_delivers:
  assumes "connected s" "accepts os written" "holds m bs" "bs \<noteq> []"
  shows "(p = 0 \<longrightarrow> (\<exists>s'. edsm_proto_send rt os call p t m s = Inr (SUCCESS, s')
        \<and> (\<forall>i. out written s' i = (if i \<in> set (ids_of s) then out written s i @ frame t bs else out written s i))))
    \<and> (p \<in> set (ids_of s) \<longrightarrow> (\<exists>s'. edsm_proto_send rt os call p t m s = Inr (SUCCESS, s')
        \<and> out written s' = (out written s)(p := out written s p @ frame t bs)))
    \<and> (p \<notin> set (ids_of s) \<longrightarrow> p \<noteq> 0 \<longrightarrow> p \<noteq> my_id s \<longrightarrow>
        edsm_proto_send rt os call p t m s = Inr (FAILURE, s))"
proof (intro conjI impI)
  show "p = 0 \<Longrightarrow> \<exists>s'. edsm_proto_send rt os call p t m s = Inr (SUCCESS, s')
        \<and> (\<forall>i. out written s' i = (if i \<in> set (ids_of s) then out written s i @ frame t bs else out written s i))"
    using edsm.to_all [OF conjI [OF assms(1,2)] assms(3,4), of rt call t "world s"] by auto
  show "p \<in> set (ids_of s) \<Longrightarrow> \<exists>s'. edsm_proto_send rt os call p t m s = Inr (SUCCESS, s')
        \<and> out written s' = (out written s)(p := out written s p @ frame t bs)"
    using edsm.unicast [OF conjI [OF assms(1,2)] _ assms(3,4), of p rt call t "world s"] by auto
  show "p \<notin> set (ids_of s) \<Longrightarrow> p \<noteq> 0 \<Longrightarrow> p \<noteq> my_id s \<Longrightarrow> edsm_proto_send rt os call p t m s = Inr (FAILURE, s)"
    using find_peer_None [of s p] assms(1) by (simp add: edsm_proto_send_def connected_def)
qed


text \<open>A node that is connected to peers 2 and 3, for the concrete instances.\<close>

definition lone_node :: "(nat, int \<Rightarrow> byte list) proto" where
  "lone_node = \<lparr>world = (\<lambda>_. []), my_id = 1, listen_port = 4321, peers = None,
     peer_mem = Map.empty, peer_brk = 0, message_handlers = None\<rparr>"

definition sample_peer :: "u32 \<Rightarrow> int \<Rightarrow> peer_information" where
  "sample_peer i fd = \<lparr>peer_id = i, sock_fd = fd, peer_addr = replicate 128 0\<rparr>"

definition node_of_three :: "(nat, int \<Rightarrow> byte list) proto" where
  "node_of_three = new_peer (sample_peer 3 6) (new_peer (sample_peer 2 5) lone_node)"

lemma lone_node_ok: "wf_peers lone_node" "fresh_peers lone_node" "few_items (peers lone_node)"
  "peers_list lone_node = []" "HASH_ITER (peers lone_node) = []" "find_peer lone_node i = None"
  by (simp_all add: lone_node_def wf_peers_def wf_uthash_def HASH_ITER_def ids_of_def fresh_peers_def
      few_items_def peers_list_def find_peer_def HASH_FIND_def)

lemma ids_of_peers_list: "ids_of s = map peer_id (peers_list s)"
  by (simp add: ids_of_def peers_list_def)

lemma node_of_three_ok: "wf_peers node_of_three" "fresh_peers node_of_three" "few_items (peers node_of_three)"
  "peers_list node_of_three = [sample_peer 2 5, sample_peer 3 6]" "my_id node_of_three = 1"
  "HASH_ITER (peers node_of_three) = [0, 1]" "ids_of node_of_three = [2, 3]"
proof -
  let ?n = "new_peer (sample_peer 2 5) lone_node"
  have 1: "wf_peers ?n" "fresh_peers ?n" "peers_list ?n = [sample_peer 2 5]"
    "HASH_ITER (peers ?n) = [peer_brk lone_node]"
    using new_peer_ok [OF lone_node_ok(1-3), of "sample_peer 2 5"] by (simp_all add: lone_node_ok)
  have 2: "few_items (peers ?n)"
    using new_peer_few [OF lone_node_ok(1-3)] by (simp add: lone_node_ok)
  have 3: "find_peer ?n (peer_id (sample_peer 3 6)) = None"
    unfolding find_peer_None [OF 1(1)] ids_of_peers_list 1(3) by (simp add: sample_peer_def)
  have 4: "peer_brk lone_node = 0" "peer_brk ?n = 1"
    by (simp_all add: lone_node_def new_peer_def add_peer_def)
  show "few_items (peers node_of_three)"
    unfolding node_of_three_def using new_peer_few [OF 1(1,2) 2] 1(4) by simp
  show "wf_peers node_of_three" "fresh_peers node_of_three"
    "peers_list node_of_three = [sample_peer 2 5, sample_peer 3 6]" "HASH_ITER (peers node_of_three) = [0, 1]"
    unfolding node_of_three_def using new_peer_ok [OF 1(1,2) 2 3] 1(3,4) 4 by simp_all
  then show "ids_of node_of_three = [2, 3]" by (simp add: ids_of_peers_list sample_peer_def)
  show "my_id node_of_three = 1"
    by (simp add: node_of_three_def new_peer_def add_peer_def lone_node_def)
qed

lemma node_of_three_connected: "connected node_of_three"
proof -
  have "peer_of node_of_three 0 = sample_peer 2 5" "peer_of node_of_three 1 = sample_peer 3 6"
    using node_of_three_ok(4) unfolding peers_list_def node_of_three_ok(6) by simp_all
  then show ?thesis
    unfolding connected_def node_of_three_ok by (simp add: node_of_three_ok(1) sample_peer_def inj_on_def)
qed

lemma peerlist_roundtrip_witness:
  "\<exists>m1 enc. append_peerlist_to_message good_runtime node_of_three (message_of []) = Inr m1 \<and> holds m1 enc \<and>
     (\<forall>e. holds e enc \<longrightarrow> (\<exists>e' s3. read_peerlist_from_message good_runtime e lone_node = Inr (e', s3)
        \<and> peers_list s3 = [sample_peer 2 (- 1), sample_peer 3 (- 1)]))"
proof -
  have h: "holds (message_of []) []" "used (message_of []) = 0" by (simp_all add: holds_message_of)
  have l: "list_all (\<lambda>pr. length (peer_addr pr) = 128) (peers_list node_of_three)"
    by (simp add: node_of_three_ok sample_peer_def)
  from peerlist_roundtrip [OF enough_memory_good node_of_three_ok(1) h(1) _ _ l,
      where ?'h = nat and ?'w = "int \<Rightarrow> byte list" and ?'z = unit] obtain m1 enc where
    m1: "append_peerlist_to_message good_runtime node_of_three (message_of []) = Inr m1" "holds m1 enc"
    and r: "\<And>e (s2 :: (nat, int \<Rightarrow> byte list) proto) rest. holds e (enc @ rest) \<Longrightarrow> peers s2 = None \<Longrightarrow> fresh_peers s2 \<Longrightarrow>
       \<exists>e' s3. read_peerlist_from_message good_runtime e s2 = Inr (e', s3) \<and> holds e' rest \<and> wf_peers s3
          \<and> peers_list s3 = map (\<lambda>pr. pr\<lparr>sock_fd := - 1\<rparr>) (peers_list node_of_three)"
    by (auto simp: h(2) node_of_three_ok message_room_def)
  have "peers lone_node = None" by (simp add: lone_node_def)
  with r [of _ "[]" lone_node] lone_node_ok(2) have "\<forall>e. holds e enc \<longrightarrow>
      (\<exists>e' s3. read_peerlist_from_message good_runtime e lone_node = Inr (e', s3)
        \<and> peers_list s3 = [sample_peer 2 (- 1), sample_peer 3 (- 1)])"
    by (fastforce simp: node_of_three_ok sample_peer_def)
  with m1 show ?thesis by blast
qed

lemma known_peer_desyncs_witness:
  "\<exists>e' s'. read_peerlist_from_message good_runtime
      (message_of (bytes_of_u32 2 @ (bytes_of_u32 2 @ bytes_of_u32 9 @ replicate 124 0) @ bytes_of_u32 4 @ replicate 128 0))
      node_of_three = Inr (e', s')
     \<and> ids_of s' = [2, 3, 9]"
proof -
  have f: "find_peer node_of_three 2 = Some 0"
  proof -
    have "peer_of node_of_three 0 = sample_peer 2 5"
      using node_of_three_ok(4) unfolding peers_list_def node_of_three_ok(6) by simp
    then show ?thesis
      unfolding find_peer_iff [OF node_of_three_ok(1)] node_of_three_ok(6) by (simp add: sample_peer_def)
  qed
  have n: "find_peer node_of_three 9 = None"
    unfolding find_peer_None [OF node_of_three_ok(1)] node_of_three_ok(7) by simp
  let ?e = "bytes_of_u32 2 @ (bytes_of_u32 2 @ bytes_of_u32 9 @ replicate 124 0) @ bytes_of_u32 4 @ replicate 128 0"
  have "holds (message_of ?e) ?e" by (rule conjunct1 [OF holds_message_of]) simp
  from known_peer_desyncs [OF enough_memory_good f n node_of_three_ok(1-3) length_replicate length_replicate this]
  obtain e' s' where r: "read_peerlist_from_message good_runtime (message_of ?e) node_of_three = Inr (e', s')"
    and l: "peers_list s' = peers_list node_of_three
      @ [\<lparr>peer_id = 9, sock_fd = - 1, peer_addr = replicate 124 0 @ bytes_of_u32 4\<rparr>]"
    by blast
  have "ids_of s' = [2, 3, 9]"
    unfolding ids_of_peers_list l node_of_three_ok(4) by (simp add: sample_peer_def)
  with r show ?thesis by blast
qed

lemma proto_send_delivers_witness:
  "\<exists>s'. edsm_proto_send good_runtime tape_os (\<lambda>_ _ _ s. Inr (0, s)) 0 3 (message_of [7]) node_of_three = Inr (SUCCESS, s')
     \<and> out (\<lambda>w. w) s' 2 = out (\<lambda>w. w) node_of_three 2 @ frame 3 [7]"
proof -
  have h: "holds (message_of [7]) [7]" by (simp add: holds_message_of)
  have "\<exists>s'. edsm_proto_send good_runtime tape_os (\<lambda>_ _ _ s. Inr (0, s)) 0 3 (message_of [7]) node_of_three
        = Inr (SUCCESS, s')
     \<and> (\<forall>i. out (\<lambda>w. w) s' i = (if i \<in> set (ids_of node_of_three)
          then out (\<lambda>w. w) node_of_three i @ frame 3 [7] else out (\<lambda>w. w) node_of_three i))"
    using proto_send_delivers [OF node_of_three_connected tape_os_accepts h, of 0 good_runtime "\<lambda>_ _ _ s. Inr (0, s)" 3]
    by simp
  then show ?thesis by (auto simp: node_of_three_ok(7))
qed

end
