(* ===== verification/Utlist.thy ===== *)
theory Utlist
  imports Prelude "HOL-Library.Multiset"
begin

text \<open>
  The singly linked list macros of \<^verbatim>\<open>src/uthash/utlist.h\<close> that EDSM uses. The nodes
  are addresses \<open>'p\<close>, and the \<^verbatim>\<open>next\<close> fields of all nodes are one function
  from addresses to optional addresses; \<^term>\<open>None\<close> is the null pointer. A loop over a list
  that may be cyclic is a partial function, whose value \<^term>\<open>None\<close> is a loop that never ends.
  The sort is modelled on the suffixes its two cursors point at.
\<close>

type_synonym 'p links = "'p \<Rightarrow> 'p option"

section \<open>The macros\<close>

definition LL_PREPEND :: "'p links \<Rightarrow> 'p option \<Rightarrow> 'p \<Rightarrow> 'p links \<times> 'p option" where
  "LL_PREPEND nx head add = (nx(add := head), Some add)"

partial_function (option) ll_tail :: "'p links \<Rightarrow> 'p \<Rightarrow> 'p option" where
  "ll_tail nx tmp = (case nx tmp of None \<Rightarrow> Some tmp | Some n \<Rightarrow> ll_tail nx n)"

definition LL_APPEND :: "'p links \<Rightarrow> 'p option \<Rightarrow> 'p \<Rightarrow> ('p links \<times> 'p option) option" where
  "LL_APPEND nx head add =
     (let nx1 = nx(add := None)
      in case head of
           None \<Rightarrow> Some (nx1, Some add)
         | Some h \<Rightarrow> map_option (\<lambda>tmp. (nx1(tmp := Some add), head)) (ll_tail nx1 h))"

text \<open>The node at which the search loop of a deletion stops.\<close>

partial_function (option) ll_before :: "'p links \<Rightarrow> 'p \<Rightarrow> 'p \<Rightarrow> 'p option" where
  "ll_before nx del tmp =
     (case nx tmp of
        None \<Rightarrow> Some tmp
      | Some n \<Rightarrow> if n \<noteq> del then ll_before nx del n else Some tmp)"

definition LL_DELETE :: "'p links \<Rightarrow> 'p option \<Rightarrow> 'p \<Rightarrow> ('p links \<times> 'p option) res option" where
  "LL_DELETE nx head del =
     (if head = Some del then Some (Inr (nx, nx del))
      else case head of
          None \<Rightarrow> Some (Inl NullDereference)
        | Some h \<Rightarrow>
            map_option (\<lambda>tmp. case nx tmp of
                None \<Rightarrow> Inr (nx, head)
              | Some _ \<Rightarrow> Inr (nx(tmp := nx del), head))
              (ll_before nx del h))"

partial_function (option) ll_count_from :: "'p links \<Rightarrow> 'p option \<Rightarrow> nat \<Rightarrow> nat option" where
  "ll_count_from nx el counter =
     (case el of None \<Rightarrow> Some counter | Some p \<Rightarrow> ll_count_from nx (nx p) (Suc counter))"

definition LL_COUNT :: "'p links \<Rightarrow> 'p option \<Rightarrow> nat option" where
  "LL_COUNT nx head = ll_count_from nx head 0"

text \<open>The first node whose field has the value sought, or the null pointer.\<close>

partial_function (option) LL_SEARCH_SCALAR ::
    "'p links \<Rightarrow> ('p \<Rightarrow> bool) \<Rightarrow> 'p option \<Rightarrow> 'p option option" where
  "LL_SEARCH_SCALAR nx hit out =
     (case out of
        None \<Rightarrow> Some None
      | Some p \<Rightarrow> if hit p then Some out else LL_SEARCH_SCALAR nx hit (nx p))"

text \<open>
  The nodes a traversal visits. \<^verbatim>\<open>LL_FOREACH_SAFE\<close> reads \<^verbatim>\<open>next\<close>
  before its body runs, so a body that frees the current node visits the same nodes.
\<close>

partial_function (option) LL_FOREACH :: "'p links \<Rightarrow> 'p option \<Rightarrow> 'p list option" where
  "LL_FOREACH nx el =
     (case el of
        None \<Rightarrow> Some []
      | Some p \<Rightarrow> Option.bind (LL_FOREACH nx (nx p)) (\<lambda>ps. Some (p # ps)))"

section \<open>Sorting\<close>

text \<open>
  \<^verbatim>\<open>_ls_p\<close> and \<^verbatim>\<open>_ls_q\<close> point into the chain of \<^verbatim>\<open>next\<close>
  fields that the pass started with: they are modelled by the suffix of the list from there. Only
  nodes already taken have their \<^verbatim>\<open>next\<close> overwritten.
\<close>

fun ls_advance :: "nat \<Rightarrow> 'a list \<Rightarrow> nat \<times> 'a list" where
  "ls_advance 0 q = (0, q)"
| "ls_advance (Suc i) q =
     (case q of
        [] \<Rightarrow> (0, [])
      | [_] \<Rightarrow> (1, [])
      | _ # q' \<Rightarrow> (case ls_advance i q' of (n, r) \<Rightarrow> (Suc n, r)))"

function ls_merge ::
    "('a \<Rightarrow> 'a \<Rightarrow> int) \<Rightarrow> 'a list \<Rightarrow> nat \<Rightarrow> 'a list \<Rightarrow> nat \<Rightarrow> 'a list \<times> 'a list" where
  "ls_merge cmp p psize q qsize =
     (if 0 < psize \<or> (0 < qsize \<and> q \<noteq> [])
      then if psize = 0
           then apfst (Cons (hd q)) (ls_merge cmp p psize (tl q) (qsize - 1))
           else if qsize = 0 \<or> q = [] \<or> cmp (hd p) (hd q) \<le> 0
           then apfst (Cons (hd p)) (ls_merge cmp (tl p) (psize - 1) q qsize)
           else apfst (Cons (hd q)) (ls_merge cmp p psize (tl q) (qsize - 1))
      else ([], q))"
  by pat_completeness auto
termination
  by (relation "measure (\<lambda>(_, _, psize, q, _). psize + length q)") auto

declare ls_merge.simps [simp del]

lemma ls_advance_eq: "ls_advance n q = (min n (length q), drop n q)"
  by (induction n q rule: ls_advance.induct) (auto split: list.splits)

fun merge_by :: "('a \<Rightarrow> 'a \<Rightarrow> int) \<Rightarrow> 'a list \<Rightarrow> 'a list \<Rightarrow> 'a list" where
  "merge_by cmp [] ys = ys"
| "merge_by cmp xs [] = xs"
| "merge_by cmp (x # xs) (y # ys) =
     (if cmp x y \<le> 0 then x # merge_by cmp xs (y # ys) else y # merge_by cmp (x # xs) ys)"

lemma merge_by_Nil2 [simp]: "merge_by cmp xs [] = xs"
  by (cases xs) auto

lemma ls_merge_eq:
  "psize \<le> length p \<Longrightarrow>
     ls_merge cmp p psize q qsize = (merge_by cmp (take psize p) (take qsize q), drop qsize q)"
proof (induction cmp p psize q qsize rule: ls_merge.induct)
  case (1 cmp p psize q qsize)
  show ?case
  proof (cases psize; cases "qsize = 0 \<or> q = []")
    assume "psize = 0" "qsize = 0 \<or> q = []"
    then show ?thesis by (subst ls_merge.simps) auto
  next
    assume 0: "psize = 0" "\<not> (qsize = 0 \<or> q = [])"
    then obtain y q' m where "q = y # q'" "qsize = Suc m" by (cases q; cases qsize) auto
    with 0 "1.IH"(1) show ?thesis by (subst ls_merge.simps) auto
  next
    fix n assume n: "psize = Suc n" "qsize = 0 \<or> q = []"
    with "1.prems" obtain x p' where "p = x # p'" by (cases p) auto
    with n "1.IH"(2) "1.prems" show ?thesis by (subst ls_merge.simps) auto
  next
    fix n assume n: "psize = Suc n" "\<not> (qsize = 0 \<or> q = [])"
    with "1.prems" obtain x p' where p: "p = x # p'" by (cases p) auto
    from n obtain y q' m where q: "q = y # q'" "qsize = Suc m" by (cases q; cases qsize) auto
    show ?thesis
    proof (cases "cmp x y \<le> 0")
      case True
      with n p q "1.IH"(2) "1.prems" show ?thesis by (subst ls_merge.simps) auto
    next
      case False
      with n p q "1.IH"(3) "1.prems" show ?thesis by (subst ls_merge.simps) auto
    qed
  qed
qed

lemma length_merge_by [simp]: "length (merge_by cmp xs ys) = length xs + length ys"
  by (induction cmp xs ys rule: merge_by.induct) auto

lemma mset_merge_by [simp]: "mset (merge_by cmp xs ys) = mset xs + mset ys"
  by (induction cmp xs ys rule: merge_by.induct) auto

lemma set_merge_by [simp]: "set (merge_by cmp xs ys) = set xs \<union> set ys"
  by (induction cmp xs ys rule: merge_by.induct) auto

text \<open>One pass: pairs of runs of \<open>2 ^ k\<close> nodes are merged; the number of merges is returned.\<close>

function ls_pass :: "('a \<Rightarrow> 'a \<Rightarrow> int) \<Rightarrow> nat \<Rightarrow> 'a list \<Rightarrow> 'a list \<times> nat" where
  "ls_pass cmp k p =
     (if p = [] then ([], 0)
      else case ls_advance (2 ^ k) p of (psize, q) \<Rightarrow>
        (case ls_merge cmp p psize q (2 ^ k) of (out, q') \<Rightarrow>
          (case ls_pass cmp k q' of (rest, nmerges) \<Rightarrow> (out @ rest, Suc nmerges))))"
  by pat_completeness auto
termination
proof (relation "measure (\<lambda>(_, _, p). length p)")
  show "wf (measure (\<lambda>(_ :: 'a \<Rightarrow> 'a \<Rightarrow> int, _ :: nat, p :: 'a list). length p))" by simp
  fix cmp :: "'a \<Rightarrow> 'a \<Rightarrow> int" and k p psize q out q'
  assume p: "p \<noteq> []" and "(psize, q) = ls_advance (2 ^ k) p"
    and "(out, q') = ls_merge cmp p psize q (2 ^ k)"
  then have "q' = drop (2 ^ k) (drop (2 ^ k) p)" by (auto simp: ls_advance_eq ls_merge_eq)
  moreover have "(0 :: nat) < 2 ^ k" by simp
  ultimately show "((cmp, k, q'), cmp, k, p) \<in> measure (\<lambda>(_, _, p). length p)"
    using p by (cases p) auto
qed

declare ls_pass.simps [simp del]

lemma ls_pass_unfold:
  "ls_pass cmp k [] = ([], 0)"
  "p \<noteq> [] \<Longrightarrow> ls_pass cmp k p =
     (case ls_pass cmp k (drop (2 ^ Suc k) p) of (rest, n) \<Rightarrow>
        (merge_by cmp (take (2 ^ k) p) (take (2 ^ k) (drop (2 ^ k) p)) @ rest, Suc n))"
  by (subst ls_pass.simps, simp)
    (subst ls_pass.simps, simp add: ls_advance_eq ls_merge_eq min_def mult_2 split: prod.splits)

lemma drop_induct [case_names Nil drop]:
  assumes "P []" "\<And>p. p \<noteq> [] \<Longrightarrow> P (drop n p) \<Longrightarrow> P p" "0 < (n :: nat)"
  shows "P p"
proof (induction "length p" arbitrary: p rule: less_induct)
  case less
  show ?case
  proof (cases "p = []")
    case False
    with less assms(3) have "P (drop n p)" by simp
    with False show ?thesis by (rule assms(2))
  qed (simp add: assms(1))
qed

lemma ls_pass_mset: "mset (fst (ls_pass cmp k p)) = mset p"
proof (induction p rule: drop_induct [of _ "2 ^ Suc k"])
  case (drop p)
  have "mset (take (2 ^ k) p) + mset (take (2 ^ k) (drop (2 ^ k) p)) + mset (drop (2 ^ Suc k) p) = mset p"
    by (metis append_take_drop_id drop_drop mset_append mult_2 power_Suc union_assoc)
  with drop show ?case by (auto simp: ls_pass_unfold split: prod.splits)
qed (auto simp: ls_pass_unfold)

lemma ls_pass_nmerges: "length p \<le> snd (ls_pass cmp k p) * 2 ^ Suc k
   \<and> (1 < snd (ls_pass cmp k p) \<longrightarrow> 2 ^ Suc k < length p)"
proof (induction p rule: drop_induct [of _ "2 ^ Suc k"])
  case (drop p)
  then show ?case
    by (cases "length p \<le> 2 ^ Suc k") (auto simp: ls_pass_unfold split: prod.splits)
qed (auto simp: ls_pass_unfold)

lemma ls_pass_few: "snd (ls_pass cmp k p) \<le> length p"
proof (induction p rule: drop_induct [of _ "2 ^ Suc k"])
  case (drop p)
  have "length (drop (2 ^ Suc k) p) < length p" using drop.hyps by simp
  with drop show ?case by (auto simp: ls_pass_unfold simp del: length_drop split: prod.splits)
qed (auto simp: ls_pass_unfold)

text \<open>The sort: passes over runs of doubling length until a pass makes at most one merge.\<close>

function merge_sort_from :: "('a \<Rightarrow> 'a \<Rightarrow> int) \<Rightarrow> nat \<Rightarrow> 'a list \<Rightarrow> 'a list" where
  "merge_sort_from cmp k xs =
     (case ls_pass cmp k xs of (ys, nmerges) \<Rightarrow>
        if nmerges \<le> 1 then ys else merge_sort_from cmp (Suc k) ys)"
  by pat_completeness auto
termination
proof (relation "measure (\<lambda>(_, k, xs). length xs - 2 ^ k)")
  show "wf (measure (\<lambda>(_ :: 'a \<Rightarrow> 'a \<Rightarrow> int, k :: nat, xs :: 'a list). length xs - 2 ^ k))" by simp
  fix cmp :: "'a \<Rightarrow> 'a \<Rightarrow> int" and k xs ys n
  assume "(ys, n) = ls_pass cmp k xs" "\<not> n \<le> 1"
  then have "ls_pass cmp k xs = (ys, n)" "1 < n" by simp_all
  with ls_pass_nmerges [of xs cmp k] ls_pass_mset [of cmp k xs]
  have "2 ^ Suc k < length xs" "length ys = length xs" by (auto dest: mset_eq_length)
  moreover obtain m where "(2 :: nat) ^ k = m" "0 < m" by simp
  ultimately show "((cmp, Suc k, ys), cmp, k, xs) \<in> measure (\<lambda>(_, k, xs). length xs - 2 ^ k)"
    by simp
qed

declare merge_sort_from.simps [simp del]

definition merge_sort :: "('a \<Rightarrow> 'a \<Rightarrow> int) \<Rightarrow> 'a list \<Rightarrow> 'a list" where
  "merge_sort cmp xs = (if xs = [] then [] else merge_sort_from cmp 0 xs)"

text \<open>
  The macro itself. Its counters are \<^verbatim>\<open>int\<close>: the number of merges is counted up in a pass, and
  the run length is doubled after every pass, the last one included. The other counters do not exceed the run length.
\<close>

function LL_SORT_from :: "('a \<Rightarrow> 'a \<Rightarrow> int) \<Rightarrow> nat \<Rightarrow> 'a list \<Rightarrow> 'a list res" where
  "LL_SORT_from cmp k xs =
     (case ls_pass cmp k xs of (ys, nmerges) \<Rightarrow>
        if \<not> in_int (int nmerges) \<or> \<not> in_int (2 * 2 ^ k) then Inl SignedOverflow
        else if nmerges \<le> 1 then Inr ys
        else LL_SORT_from cmp (Suc k) ys)"
  by pat_completeness auto
termination
  by (relation "measure (\<lambda>(_, k, _). 31 - k)") (auto simp: in_int_doubled)

declare LL_SORT_from.simps [simp del]

definition LL_SORT :: "('a \<Rightarrow> 'a \<Rightarrow> int) \<Rightarrow> 'a list \<Rightarrow> 'a list res" where
  "LL_SORT cmp xs = (if xs = [] then Inr [] else LL_SORT_from cmp 0 xs)"

text \<open>Up to \<open>2\<^sup>3\<^sup>0\<close> nodes the counters stay in range and the macro sorts; with more nodes the run length overflows.\<close>

lemma LL_SORT_from_eq:
  "k \<le> 30 \<Longrightarrow> 2 ^ k < length xs \<or> k = 0 \<Longrightarrow>
     LL_SORT_from cmp k xs = (if length xs \<le> 2 ^ 30 then Inr (merge_sort_from cmp k xs) else Inl SignedOverflow)"
proof (induction cmp k xs rule: LL_SORT_from.induct)
  case (1 cmp k xs)
  obtain ys n where p: "ls_pass cmp k xs = (ys, n)" by fastforce
  have len: "length ys = length xs" using ls_pass_mset [of cmp k xs] p by (auto dest: mset_eq_length)
  have more: "1 < n \<longleftrightarrow> 2 ^ Suc k < length xs" "n \<le> length xs"
  proof -
    have m: "length xs \<le> n * 2 ^ Suc k" "1 < n \<longrightarrow> 2 ^ Suc k < length xs" using ls_pass_nmerges [of xs cmp k] p by simp_all
    have "length xs \<le> 2 ^ Suc k" if "n \<le> 1" using m(1) mult_le_mono1 [OF that, of "2 ^ Suc k"] by linarith
    with m(2) show "1 < n \<longleftrightarrow> 2 ^ Suc k < length xs" by (meson not_less)
    show "n \<le> length xs" using ls_pass_few [of cmp k xs] p by simp
  qed
  show ?case
  proof (cases "in_int (int n) \<and> k < 30")
    case False
    have "2 ^ 30 < length xs"
    proof (cases "k < 30")
      case True
      with False have "\<not> in_int (int n)" by simp
      then show ?thesis using more(2) by (simp add: in_int_def)
    next
      case False
      then have "k = 30" using "1.prems"(1) by simp
      then show ?thesis using "1.prems"(2) by simp
    qed
    moreover have "\<not> in_int (int n) \<or> \<not> in_int (2 * 2 ^ k)" using False in_int_doubled [of k] by auto
    ultimately show ?thesis by (subst LL_SORT_from.simps) (simp add: p)
  next
    case True
    then have i: "in_int (int n)" "in_int (2 * 2 ^ k)" using in_int_doubled [of k] by auto
    show ?thesis
    proof (cases "n \<le> 1")
      case True
      then have "length xs \<le> 2 ^ Suc k" using more(1) by simp
      also have "(2 :: nat) ^ Suc k \<le> 2 ^ 30" using \<open>in_int (int n) \<and> k < 30\<close> by (intro power_increasing) simp_all
      finally show ?thesis using True i by (subst LL_SORT_from.simps, subst merge_sort_from.simps) (simp add: p)
    next
      case False
      have "LL_SORT_from cmp (Suc k) ys = (if length ys \<le> 2 ^ 30 then Inr (merge_sort_from cmp (Suc k) ys) else Inl SignedOverflow)"
        using "1.IH" [OF p [symmetric] _ False] i True more(1) False len by simp
      then show ?thesis using False i len by (subst LL_SORT_from.simps, subst merge_sort_from.simps) (simp add: p)
    qed
  qed
qed

lemma LL_SORT_eq: "LL_SORT cmp xs = (if length xs \<le> 2 ^ 30 then Inr (merge_sort cmp xs) else Inl SignedOverflow)"
  by (simp add: LL_SORT_def merge_sort_def LL_SORT_from_eq)


section \<open>What a sort promises\<close>

text \<open>A comparison function usable for sorting: its sign is a total preorder.\<close>

locale comparator =
  fixes cmp :: "'a \<Rightarrow> 'a \<Rightarrow> int"
  assumes total: "cmp a b \<le> 0 \<or> cmp b a \<le> 0"
    and trans: "cmp a b \<le> 0 \<Longrightarrow> cmp b c \<le> 0 \<Longrightarrow> cmp a c \<le> 0"
begin

abbreviation ordered :: "'a list \<Rightarrow> bool" where
  "ordered \<equiv> sorted_wrt (\<lambda>a b. cmp a b \<le> 0)"

lemma ordered_merge_by: "c = cmp \<Longrightarrow> ordered xs \<Longrightarrow> ordered ys \<Longrightarrow> ordered (merge_by c xs ys)"
proof (induction c xs ys rule: merge_by.induct)
  case (3 c x xs y ys)
  then show ?case using total [of x y] by (auto intro: trans)
qed simp_all

definition runs :: "nat \<Rightarrow> 'a list \<Rightarrow> bool" where
  "runs n xs \<longleftrightarrow> (\<forall>i. ordered (take n (drop (i * n) xs)))"

lemma runs_unfold: "runs n xs \<longleftrightarrow> ordered (take n xs) \<and> runs n (drop n xs)"
proof
  show "runs n xs \<Longrightarrow> ordered (take n xs) \<and> runs n (drop n xs)"
    unfolding runs_def by (auto simp: add.commute dest: spec [of _ 0] spec [of _ "Suc _"])
  assume a: "ordered (take n xs) \<and> runs n (drop n xs)"
  show "runs n xs"
    unfolding runs_def
  proof
    fix i show "ordered (take n (drop (i * n) xs))"
      using a by (cases i) (auto simp: runs_def add.commute)
  qed
qed

lemma runs_Nil [simp]: "runs n []" by (simp add: runs_def)

lemma runs_1: "runs 1 xs"
proof -
  have "ordered (take 1 ys)" for ys by (cases ys) auto
  then show ?thesis by (simp add: runs_def)
qed

lemma runs_append:
  "ordered xs \<Longrightarrow> runs n ys \<Longrightarrow> length xs = n \<or> (length xs \<le> n \<and> ys = []) \<Longrightarrow> runs n (xs @ ys)"
  by (subst runs_unfold) auto

lemma ls_pass_runs: "runs (2 ^ k) p \<Longrightarrow> runs (2 ^ Suc k) (fst (ls_pass cmp k p))"
proof (induction p rule: drop_induct [of _ "2 ^ Suc k"])
  case (drop p)
  let ?N = "2 ^ k :: nat"
  obtain rest n where r: "ls_pass cmp k (drop (2 ^ Suc k) p) = (rest, n)" by fastforce
  have d: "ordered (take ?N p)" "ordered (take ?N (drop ?N p))" "runs ?N (drop ?N (drop ?N p))"
    using drop.prems by (simp_all only: runs_unfold [of ?N p] runs_unfold [of ?N "drop ?N p"])
  then have "runs (2 ^ Suc k) rest" using drop.IH r by (simp add: mult_2)
  moreover have "length p < 2 ^ Suc k \<Longrightarrow> rest = []" using r by (simp add: ls_pass_unfold)
  moreover have "ordered (merge_by cmp (take ?N p) (take ?N (drop ?N p)))"
    using d by (intro ordered_merge_by refl)
  moreover obtain m where "?N = m" "0 < m" by simp
  ultimately have "runs (2 ^ Suc k) (merge_by cmp (take ?N p) (take ?N (drop ?N p)) @ rest)"
    by (intro runs_append) (auto simp: min_def not_le)
  with r drop.hyps show ?case by (simp add: ls_pass_unfold)
qed (auto simp: ls_pass_unfold)

lemma merge_sort_from_correct:
  "c = cmp \<Longrightarrow> runs (2 ^ k) xs \<Longrightarrow>
     ordered (merge_sort_from c k xs) \<and> mset (merge_sort_from c k xs) = mset xs"
proof (induction c k xs rule: merge_sort_from.induct)
  case (1 c k xs)
  note [simp] = "1.prems"(1)
  obtain ys n where p: "ls_pass c k xs = (ys, n)" by fastforce
  have r: "runs (2 ^ Suc k) ys" using ls_pass_runs [OF "1.prems"(2)] p by simp
  have m: "mset ys = mset xs" using ls_pass_mset [of cmp k xs] p by simp
  show ?case
  proof (cases "n \<le> 1")
    case True
    have "length xs \<le> n * 2 ^ Suc k" using ls_pass_nmerges [of xs cmp k] p by simp
    also have "\<dots> \<le> 1 * 2 ^ Suc k" using True by (rule mult_le_mono1)
    finally have "length ys \<le> 2 ^ Suc k" using m by (auto dest: mset_eq_length)
    with r have "ordered ys" using runs_unfold [of "2 ^ Suc k" ys] by simp
    with True p m show ?thesis by (simp add: merge_sort_from.simps)
  next
    case False
    with 1(1) [OF p [symmetric] False _ r] p m show ?thesis
      by (subst (1 2) merge_sort_from.simps) simp
  qed
qed

theorem merge_sort_correct: "ordered (merge_sort cmp xs) \<and> mset (merge_sort cmp xs) = mset xs"
  using merge_sort_from_correct [OF refl, of 0 xs] runs_1 by (simp add: merge_sort_def)

end

section \<open>The macros implement lists\<close>

declare ll_tail.simps [simp del] ll_before.simps [simp del] ll_count_from.simps [simp del]
  LL_SEARCH_SCALAR.simps [simp del] LL_FOREACH.simps [simp del]

text \<open>The nodes reached from a head pointer, up to the null pointer.\<close>

fun chain :: "'p links \<Rightarrow> 'p option \<Rightarrow> 'p list \<Rightarrow> bool" where
  "chain nx head [] = (head = None)"
| "chain nx head (p # ps) = (head = Some p \<and> chain nx (nx p) ps)"

lemma chain_fun_eq: "chain nx head ps \<Longrightarrow> chain nx head qs \<Longrightarrow> ps = qs"
  by (induction nx head ps arbitrary: qs rule: chain.induct) (case_tac qs; auto)+

lemma chain_suffix: "chain nx head (ps @ q # qs) \<Longrightarrow> chain nx (Some q) (q # qs)"
  by (induction ps arbitrary: head) auto

lemma chain_distinct: "chain nx head ps \<Longrightarrow> distinct ps"
proof (induction ps arbitrary: head)
  case (Cons p ps)
  have "p \<notin> set ps"
  proof
    assume "p \<in> set ps"
    then obtain as bs where "ps = as @ p # bs" by (auto simp: in_set_conv_decomp)
    with Cons.prems have "chain nx (Some p) (p # bs)" "chain nx (Some p) (p # ps)"
      using chain_suffix [of nx head "p # as" p bs] by auto
    then have "p # bs = p # ps" by (rule chain_fun_eq)
    with \<open>ps = as @ p # bs\<close> show False by simp
  qed
  with Cons show ?case by auto
qed simp

lemma chain_cong: "\<forall>p \<in> set ps. nx' p = nx p \<Longrightarrow> chain nx' head ps = chain nx head ps"
  by (induction ps arbitrary: head) auto

lemma chain_upd [simp]: "a \<notin> set ps \<Longrightarrow> chain (nx(a := v)) head ps = chain nx head ps"
  by (rule chain_cong) auto

lemma LL_FOREACH_chain: "chain nx head ps \<Longrightarrow> LL_FOREACH nx head = Some ps"
  by (induction ps arbitrary: head) (simp_all add: LL_FOREACH.simps)

lemma ll_count_from_chain: "chain nx head ps \<Longrightarrow> ll_count_from nx head n = Some (n + length ps)"
  by (induction ps arbitrary: head n) (simp_all add: ll_count_from.simps)

lemma LL_COUNT_chain: "chain nx head ps \<Longrightarrow> LL_COUNT nx head = Some (length ps)"
  by (simp add: LL_COUNT_def ll_count_from_chain)

lemma LL_SEARCH_SCALAR_chain: "chain nx head ps \<Longrightarrow> LL_SEARCH_SCALAR nx hit head = Some (find hit ps)"
  by (induction ps arbitrary: head) (simp_all add: LL_SEARCH_SCALAR.simps)

lemma LL_PREPEND_chain:
  "chain nx head ps \<Longrightarrow> a \<notin> set ps \<Longrightarrow>
     case LL_PREPEND nx head a of (nx', head') \<Rightarrow> chain nx' head' (a # ps)"
  by (simp add: LL_PREPEND_def)

lemma ll_tail_chain: "chain nx (Some h) (h # ps) \<Longrightarrow> ll_tail nx h = Some (last (h # ps))"
proof (induction ps arbitrary: h)
  case (Cons p ps)
  then show ?case by (subst ll_tail.simps) auto
qed (simp add: ll_tail.simps)

lemma chain_append_last:
  "chain nx (Some h) (h # ps) \<Longrightarrow> a \<notin> set (h # ps) \<Longrightarrow> nx a = None \<Longrightarrow>
     chain (nx(last (h # ps) := Some a)) (Some h) (h # ps @ [a])"
proof (induction ps arbitrary: h)
  case (Cons p ps)
  from Cons.prems(1) have "h \<noteq> p" "h \<notin> set ps" using chain_distinct [OF Cons.prems(1)] by auto
  then have "last (p # ps) \<noteq> h" by (metis last_in_set list.distinct(1) set_ConsD)
  with Cons.IH [of p] Cons.prems show ?case by auto
qed auto

text \<open>\<^verbatim>\<open>LL_APPEND\<close> of a node that is not in the list ends, and leaves a list with
  the same nodes followed by the new one; no field outside the list changes.\<close>

theorem ll_append_refines:
  assumes "chain nx head ps" "a \<notin> set ps"
  shows "\<exists>nx' head'. LL_APPEND nx head a = Some (nx', head') \<and> chain nx' head' (ps @ [a])
     \<and> (\<forall>p. p \<notin> set (a # ps) \<longrightarrow> nx' p = nx p)"
proof (cases ps)
  case Nil
  with assms show ?thesis by (simp add: LL_APPEND_def)
next
  case (Cons h qs)
  let ?nx = "nx(a := None)"
  from assms Cons have c: "chain ?nx (Some h) (h # qs)" "head = Some h"
    using chain_upd [OF assms(2), of nx None head] by auto
  have "last (h # qs) \<in> set ps" using Cons by (metis last_in_set list.distinct(1))
  with c Cons assms ll_tail_chain [OF c(1)] chain_append_last [OF c(1), of a] show ?thesis
    by (auto simp: LL_APPEND_def)
qed

definition unlink :: "'p links \<Rightarrow> 'p \<Rightarrow> 'p \<Rightarrow> 'p links" where
  "unlink nx tmp del = (case nx tmp of None \<Rightarrow> nx | Some _ \<Rightarrow> nx(tmp := nx del))"

lemma unlink_other: "p \<noteq> b \<Longrightarrow> unlink nx b del p = nx p"
  by (simp add: unlink_def split: option.splits)

lemma ll_before_chain:
  "chain nx (Some h) (h # ps) \<Longrightarrow> h \<noteq> del \<Longrightarrow>
     \<exists>b. ll_before nx del h = Some b \<and> b \<in> set (h # ps)
       \<and> chain (unlink nx b del) (Some h) (h # remove1 del ps)"
proof (induction ps arbitrary: h)
  case Nil
  then show ?case by (simp add: ll_before.simps unlink_def)
next
  case (Cons p ps)
  note d = chain_distinct [OF Cons.prems(1)]
  show ?case
  proof (cases "p = del")
    case True
    with Cons.prems d show ?thesis by (subst ll_before.simps) (auto simp: unlink_def)
  next
    case False
    from Cons.prems have "chain nx (Some p) (p # ps)" by simp
    from Cons.IH [OF this False] obtain b where
      b: "ll_before nx del p = Some b" "b \<in> set (p # ps)"
        "chain (unlink nx b del) (Some p) (p # remove1 del ps)"
      by blast
    have "ll_before nx del h = Some b"
      using Cons.prems False b(1) by (subst ll_before.simps) simp
    moreover have "unlink nx b del h = Some p"
      using b(2) d Cons.prems(1) by (subst unlink_other) auto
    ultimately show ?thesis using b False by auto
  qed
qed

text \<open>\<^verbatim>\<open>LL_DELETE\<close> on a list that is not empty ends without touching a null
  pointer and unlinks exactly the node to delete; a node that is not in the list leaves it as it
  was. The fields of nodes outside the list do not change.\<close>

theorem ll_delete_refines:
  assumes "chain nx head ps" "ps \<noteq> []"
  shows "\<exists>nx' head'. LL_DELETE nx head del = Some (Inr (nx', head'))
     \<and> chain nx' head' (remove1 del ps) \<and> (\<forall>p. p \<notin> set ps \<longrightarrow> nx' p = nx p)"
proof -
  from assms obtain h qs where ps: "ps = h # qs" "head = Some h" by (cases ps) auto
  show ?thesis
  proof (cases "h = del")
    case True
    with assms ps show ?thesis by (simp add: LL_DELETE_def)
  next
    case False
    with ps assms ll_before_chain [of nx h qs del] obtain b where
      b: "ll_before nx del h = Some b" "b \<in> set (h # qs)"
        "chain (unlink nx b del) (Some h) (h # remove1 del qs)"
      by auto
    have "LL_DELETE nx head del = Some (Inr (unlink nx b del, head))"
      using b ps False by (auto simp: LL_DELETE_def unlink_def split: option.splits)
    moreover have "\<forall>p. p \<notin> set ps \<longrightarrow> unlink nx b del p = nx p"
      using b(2) ps(1) by (metis unlink_other)
    ultimately show ?thesis using b(3) ps False by auto
  qed
qed

text \<open>A list of two nodes, for the concrete instances.\<close>

definition two_nodes :: "nat links" where
  "two_nodes = (\<lambda>_. None)(1 := Some 2)"

lemma ll_append_refines_witness: "\<exists>nx' head'. LL_APPEND two_nodes (Some 1) 5 = Some (nx', head')
    \<and> chain nx' head' [1, 2, 5]"
  using ll_append_refines [of two_nodes "Some 1" "[1, 2]" 5] by (auto simp: two_nodes_def)

lemma ll_delete_refines_witness: "\<exists>nx' head'. LL_DELETE two_nodes (Some 1) 2 = Some (Inr (nx', head'))
    \<and> chain nx' head' [1]"
  using ll_delete_refines [of two_nodes "Some 1" "[1, 2]" 2] by (auto simp: two_nodes_def)

end
