(* ===== verification/Reply_Waiter.thy ===== *)
theory Reply_Waiter
  imports Utlist
begin

text \<open>
  Waiting for replies, \<^verbatim>\<open>src/src/dobj/reply_waiter.c\<close>. A waiter holds the list of
  the peers that have not answered yet; each reply removes one node of that list and frees it, and
  a waiting thread goes on when the list is the null pointer. The first section has the nodes and
  their \<^verbatim>\<open>next\<close> fields as the code has them; the second one is the abstract waiter,
  a list of ids, that the other components use and that the first one is proved to implement.
\<close>

section \<open>The code on nodes\<close>

text \<open>
  The memory of \<^verbatim>\<open>struct edsm_proto_peer_id\<close> nodes: the \<^verbatim>\<open>id\<close> and
  \<^verbatim>\<open>next\<close> fields of every address, and which addresses are allocated.
\<close>

record 'p peer_nodes =
  node_id :: "'p \<Rightarrow> u32"
  node_next :: "'p links"
  node_live :: "'p \<Rightarrow> bool"

record 'p waiter_nodes =
  nodes :: "'p peer_nodes"
  wait_head :: "'p option"

definition free_node :: "'p peer_nodes \<Rightarrow> 'p \<Rightarrow> 'p peer_nodes res" where
  "free_node ns p =
     (if node_live ns p then Inr (ns\<lparr>node_live := (node_live ns)(p := False)\<rparr>)
      else Inl UseAfterFree)"

definition edsm_reply_waiter_set_wait_on :: "'p waiter_nodes \<Rightarrow> 'p option \<Rightarrow> 'p waiter_nodes" where
  "edsm_reply_waiter_set_wait_on w peers = w\<lparr>wait_head := peers\<rparr>"

text \<open>
  \<^term>\<open>None\<close> is a loop over a cyclic list; the count of the remaining nodes, which the
  code computes and does not use, is part of the model because it is such a loop.
\<close>

definition edsm_reply_waiter_add_reply ::
    "'p waiter_nodes \<Rightarrow> u32 \<Rightarrow> (int \<times> 'p waiter_nodes) res option" where
  "edsm_reply_waiter_add_reply w peer_id =
     Option.bind
       (LL_SEARCH_SCALAR (node_next (nodes w)) (\<lambda>p. node_id (nodes w) p = peer_id) (wait_head w))
       (\<lambda>peer.
     Option.bind
       (case peer of
          None \<Rightarrow> Some (Inr w)
        | Some p \<Rightarrow>
            map_option (\<lambda>r. res_bind r (\<lambda>(nx, head).
                res_bind (free_node ((nodes w)\<lparr>node_next := nx\<rparr>) p) (\<lambda>ns.
                Inr (w\<lparr>nodes := ns, wait_head := head\<rparr>))))
              (LL_DELETE (node_next (nodes w)) (wait_head w) p))
       (\<lambda>r. case r of
          Inl e \<Rightarrow> Some (Inl e)
        | Inr w' \<Rightarrow>
            map_option (\<lambda>count. Inr (SUCCESS, w')) (LL_COUNT (node_next (nodes w')) (wait_head w'))))"

text \<open>\<^verbatim>\<open>edsm_reply_waiter_wait\<close> returns when the list is empty and blocks otherwise.\<close>

definition edsm_reply_waiter_wait :: "'p waiter_nodes \<Rightarrow> int option" where
  "edsm_reply_waiter_wait w = (if wait_head w \<noteq> None then None else Some SUCCESS)"

section \<open>The abstract waiter\<close>

type_synonym waiter = "u32 list"

definition waiter_create :: waiter where "waiter_create = []"

definition waiter_set_wait_on :: "waiter \<Rightarrow> u32 list \<Rightarrow> waiter" where
  "waiter_set_wait_on w peers = peers"

definition waiter_add_reply :: "waiter \<Rightarrow> u32 \<Rightarrow> waiter" where
  "waiter_add_reply w peer_id = remove1 peer_id w"

definition waiter_done :: "waiter \<Rightarrow> bool" where
  "waiter_done w \<longleftrightarrow> w = []"

text \<open>A waiter in memory implements an abstract one: its nodes are allocated and carry the ids.\<close>

definition implements :: "'p waiter_nodes \<Rightarrow> waiter \<Rightarrow> bool" where
  "implements w ids \<longleftrightarrow>
     (\<exists>ps. chain (node_next (nodes w)) (wait_head w) ps \<and> list_all (node_live (nodes w)) ps
        \<and> map (node_id (nodes w)) ps = ids)"

section \<open>Properties\<close>

lemma find_remove1:
  assumes "find (\<lambda>p. f p = k) ps = Some p" "distinct ps"
  shows "p \<in> set ps" "map f (remove1 p ps) = remove1 k (map f ps)"
proof -
  show "p \<in> set ps" using assms(1) by (auto simp: find_Some_iff)
  show "map f (remove1 p ps) = remove1 k (map f ps)"
    using assms by (induction ps) (auto simp: find_Some_iff split: if_splits)
qed

text \<open>C39: a reply removes from the waiting list exactly the first node with the replier's id, and
  frees no node that does not carry that id; a reply of a peer that is not waited for changes nothing.
  The loops end, and nothing freed is touched.\<close>

theorem add_reply_refines:
  assumes "implements w ids"
  shows "\<exists>w'. edsm_reply_waiter_add_reply w k = Some (Inr (SUCCESS, w'))
     \<and> implements w' (waiter_add_reply ids k)
     \<and> (k \<notin> set ids \<longrightarrow> w' = w)
     \<and> (\<forall>p. node_live (nodes w') p \<noteq> node_live (nodes w) p \<longrightarrow> node_id (nodes w) p = k)"
proof -
  from assms obtain ps where ps: "chain (node_next (nodes w)) (wait_head w) ps"
    "list_all (node_live (nodes w)) ps" "map (node_id (nodes w)) ps = ids"
    by (auto simp: implements_def)
  note d = chain_distinct [OF ps(1)]
  note search = LL_SEARCH_SCALAR_chain [OF ps(1), of "\<lambda>p. node_id (nodes w) p = k"]
  show ?thesis
  proof (cases "find (\<lambda>p. node_id (nodes w) p = k) ps")
    case None
    then have "k \<notin> set ids" using ps(3) by (auto simp: find_None_iff)
    then have "implements w (waiter_add_reply ids k)"
      using assms by (simp add: waiter_add_reply_def remove1_idem)
    then show ?thesis
      by (simp add: edsm_reply_waiter_add_reply_def search None LL_COUNT_chain [OF ps(1)])
  next
    case (Some p)
    note fr = find_remove1 [OF Some d]
    from fr(1) have "ps \<noteq> []" by auto
    from ll_delete_refines [OF ps(1) this, of p] obtain nx head where
      del: "LL_DELETE (node_next (nodes w)) (wait_head w) p = Some (Inr (nx, head))"
        "chain nx head (remove1 p ps)"
      by blast
    have idp: "node_id (nodes w) p = k" using Some by (auto simp: find_Some_iff)
    have live: "node_live (nodes w) p" using ps(2) fr(1) by (auto simp: list_all_iff)
    define w' where "w' = w\<lparr>nodes := (nodes w)\<lparr>node_next := nx,
      node_live := (node_live (nodes w))(p := False)\<rparr>, wait_head := head\<rparr>"
    have "edsm_reply_waiter_add_reply w k = Some (Inr (SUCCESS, w'))"
      using live LL_COUNT_chain [OF del(2)]
      by (simp add: edsm_reply_waiter_add_reply_def search Some del(1) free_node_def w'_def)
    moreover have "implements w' (waiter_add_reply ids k)"
      unfolding implements_def
      by (rule exI [of _ "remove1 p ps"])
        (use del(2) fr(2) ps d in \<open>auto simp: w'_def waiter_add_reply_def list_all_iff\<close>)
    moreover have "k \<in> set ids" using fr(1) idp ps(3) by auto
    ultimately show ?thesis using idp by (intro exI [of _ w']) (auto simp: w'_def)
  qed
qed

text \<open>Two nodes with ids 7 and 9, for the concrete instances.\<close>

definition two_waiting :: "nat waiter_nodes" where
  "two_waiting = \<lparr>nodes = \<lparr>node_id = (\<lambda>_. 0)(1 := 7, 2 := 9), node_next = two_nodes,
     node_live = (\<lambda>p. p = 1 \<or> p = 2)\<rparr>, wait_head = Some 1\<rparr>"

lemma implements_two_waiting: "implements two_waiting [7, 9]"
  unfolding implements_def by (rule exI [of _ "[1, 2]"]) (simp add: two_waiting_def two_nodes_def)

lemma add_reply_refines_witness:
  "\<exists>w'. edsm_reply_waiter_add_reply two_waiting 9 = Some (Inr (SUCCESS, w')) \<and> implements w' [7]"
  using add_reply_refines [OF implements_two_waiting, of 9] by (auto simp: waiter_add_reply_def)

lemma mset_add_replies: "mset (fold (\<lambda>r w. waiter_add_reply w r) rs ids) = mset ids - mset rs"
proof (induction rs arbitrary: ids)
  case (Cons r rs)
  have "mset ids - {#r#} - mset rs = mset ids - add_mset r (mset rs)"
    by (metis diff_diff_add_mset add_mset_add_single union_commute)
  with Cons.IH [of "waiter_add_reply ids r"] show ?case by (simp add: waiter_add_reply_def)
qed simp

text \<open>After the replies \<open>rs\<close>, in whatever order they arrive, a thread waiting for
  the peers \<open>ids\<close> is released exactly when every peer has replied at least as often as it is
  listed; replies of other peers and further replies of the same peer do not count for anyone else.\<close>

theorem waiter_released_iff:
  "waiter_done (fold (\<lambda>r w. waiter_add_reply w r) rs (waiter_set_wait_on w ids))
     \<longleftrightarrow> mset ids \<subseteq># mset rs"
  unfolding waiter_done_def waiter_set_wait_on_def
  by (metis mset_add_replies mset_zero_iff Diff_eq_empty_iff_mset)

lemma wait_iff_done: "implements w ids \<Longrightarrow> edsm_reply_waiter_wait w = Some SUCCESS \<longleftrightarrow> waiter_done ids"
  by (auto simp: implements_def edsm_reply_waiter_wait_def waiter_done_def neq_Nil_conv
      elim: chain.elims)

end
