(* ===== verification/Dobj.thy ===== *)
theory Dobj
  imports Protocol Reply_Waiter
begin

text \<open>
  Distributed objects, \<^verbatim>\<open>src/src/dobj/dobj.c\<close>. An object is the structure
  \<^verbatim>\<open>edsm_dobj\<close> followed in the same block by the fields of a mutex, a barrier or a memory
  region, its \<open>body\<close>; a cast to a structure the block does not hold is a fault. The objects
  are in a hash table of addresses, like the peers. The message handler of an object is an element of
  \<open>'k\<close>, run by a parameter \<open>call_obj\<close>. A function that blocks is split at that point.
\<close>

section \<open>State\<close>

record request_entry =
  req_time :: u32
  req_peer :: u32

text \<open>The structures that embed an object: a mutex, a barrier and a memory region.\<close>

record mutex_fields =
  l_time :: u32
  local_locked :: bool
  requests :: "request_entry list"
  mutex_waiter :: waiter
  local_request :: "request_entry option"

record memory_page_twin =
  original_page_head :: nat
  twin_data :: "byte list"

record region_fields =
  head :: nat
  region_size :: nat
  contents :: "byte list"
  writable :: "nat \<Rightarrow> bool"
  twins :: "memory_page_twin list"
  lamport_timestamp :: u32

datatype obj_body =
    Mutex_Body mutex_fields
  | Barrier_Body "waiter option"
  | Region_Body region_fields

record 'k edsm_dobj =
  obj_id :: u32
  ref_count :: u32
  inited :: i32
  obj_handler :: 'k
  obj_peers :: "u32 list"
  obj_waiter :: waiter
  body :: obj_body

record ('h, 'w, 'k) dobjs = "('h, 'w) proto" +
  max_obj_id :: u32
  objects :: "nat uthash"
  obj_mem :: "nat \<Rightarrow> 'k edsm_dobj option"
  obj_brk :: nat
  object_lock :: "nat option"

type_synonym ('h, 'w, 'k, 'z) call_obj =
  "'k \<Rightarrow> nat \<Rightarrow> u32 \<Rightarrow> edsm_message option \<Rightarrow> ('h, 'w, 'k, 'z) dobjs_scheme
     \<Rightarrow> (int \<times> ('h, 'w, 'k, 'z) dobjs_scheme) res"

definition DOBJ_MSG_TYPE_CREATE :: u32 where "DOBJ_MSG_TYPE_CREATE = 1"
definition DOBJ_MSG_TYPE_GET :: u32 where "DOBJ_MSG_TYPE_GET = 2"
definition DOBJ_MSG_TYPE_GET_REPLY :: u32 where "DOBJ_MSG_TYPE_GET_REPLY = 3"
definition DOBJ_MSG_TYPE_OBJ_MSG :: u32 where "DOBJ_MSG_TYPE_OBJ_MSG = 4"

definition sizeof_edsm_dobj :: nat where "sizeof_edsm_dobj = 96"

definition obj_at :: "('h, 'w, 'k, 'z) dobjs_scheme \<Rightarrow> nat \<Rightarrow> 'k edsm_dobj res" where
  "obj_at s a = (case obj_mem s a of None \<Rightarrow> Inl UseAfterFree | Some ob \<Rightarrow> Inr ob)"

definition put_obj :: "('h, 'w, 'k, 'z) dobjs_scheme \<Rightarrow> nat \<Rightarrow> 'k edsm_dobj \<Rightarrow> ('h, 'w, 'k, 'z) dobjs_scheme" where
  "put_obj s a ob = s\<lparr>obj_mem := (obj_mem s)(a \<mapsto> ob)\<rparr>"

definition obj_key :: "(nat \<Rightarrow> 'k edsm_dobj option) \<Rightarrow> nat \<Rightarrow> byte list" where
  "obj_key mem a = (case mem a of None \<Rightarrow> [] | Some ob \<Rightarrow> bytes_of_u32 (obj_id ob))"

definition find_obj :: "('h, 'w, 'k, 'z) dobjs_scheme \<Rightarrow> u32 \<Rightarrow> nat option" where
  "find_obj s i = HASH_FIND (obj_key (obj_mem s)) (objects s) (bytes_of_u32 i)"

section \<open>Operations\<close>

text \<open>
  \<^verbatim>\<open>edsm_dobj_create\<close> between taking and releasing the object lock, and the id it returns,
  which it reads after the lock is released. A failed send ends the process.
\<close>

definition edsm_dobj_create_locked ::
    "runtime \<Rightarrow> 'w os \<Rightarrow> ('h, 'w, ('k, 'z) dobjs_ext) call \<Rightarrow> ('h, 'w, 'k, 'z) dobjs_scheme
       \<Rightarrow> ('h, 'w, 'k, 'z) dobjs_scheme res" where
  "edsm_dobj_create_locked rt os call s0 =
     (let s = s0\<lparr>max_obj_id := max_obj_id s0 + 1\<rparr> in
      res_bind (new_message rt 8) (\<lambda>m.
      res_bind (write_u32s rt m [DOBJ_MSG_TYPE_CREATE, max_obj_id s]) (\<lambda>m1.
      res_bind (edsm_proto_send rt os call 0 MSG_TYPE_DOBJ m1 s) (\<lambda>(rc, s').
      res_bind (check Aborted (rc \<noteq> FAILURE)) (\<lambda>_. Inr s')))))"

definition edsm_dobj_create_result :: "('h, 'w, 'k, 'z) dobjs_scheme \<Rightarrow> u32" where
  "edsm_dobj_create_result s = max_obj_id s"

definition edsm_dobj_handle_create ::
    "u32 \<Rightarrow> edsm_message \<Rightarrow> ('h, 'w, 'k, 'z) dobjs_scheme
       \<Rightarrow> (int \<times> ('h, 'w, 'k, 'z) dobjs_scheme) res" where
  "edsm_dobj_handle_create peer msg s =
     res_bind (edsm_message_read msg (cells (bytes_of_u32 (max_obj_id s))) 0 4) (\<lambda>(rc, c, msg').
     res_bind (determinate (u32_of_cells c)) (\<lambda>v. Inr (rc, s\<lparr>max_obj_id := v\<rparr>)))"

text \<open>\<^verbatim>\<open>_read_dobj\<close>: the id read, the object found, and the rest of the message.\<close>

definition read_dobj ::
    "edsm_message \<Rightarrow> ('h, 'w, 'k, 'z) dobjs_scheme \<Rightarrow> (u32 \<times> nat option \<times> edsm_message) res" where
  "read_dobj msg s =
     res_bind (read_u32 msg) (\<lambda>(rc, v, msg').
     res_bind (determinate v) (\<lambda>dobj_id. Inr (dobj_id, find_obj s dobj_id, msg')))"

definition add_peer_reference :: "u32 \<Rightarrow> 'k edsm_dobj \<Rightarrow> 'k edsm_dobj" where
  "add_peer_reference peer ob =
     (if peer \<in> set (obj_peers ob) then ob else ob\<lparr>obj_peers := obj_peers ob @ [peer]\<rparr>)"

definition edsm_dobj_send_get_reply ::
    "runtime \<Rightarrow> 'w os \<Rightarrow> ('h, 'w, ('k, 'z) dobjs_ext) call \<Rightarrow> u32 \<Rightarrow> u32 \<Rightarrow> u32
       \<Rightarrow> ('h, 'w, 'k, 'z) dobjs_scheme \<Rightarrow> (int \<times> ('h, 'w, 'k, 'z) dobjs_scheme) res" where
  "edsm_dobj_send_get_reply rt os call peer dobj_id have_reference s =
     res_bind (new_message rt 8) (\<lambda>m.
     res_bind (write_u32s rt m [DOBJ_MSG_TYPE_GET_REPLY, dobj_id, have_reference]) (\<lambda>m1.
     edsm_proto_send rt os call peer MSG_TYPE_DOBJ m1 s))"

definition edsm_dobj_handle_get_reply ::
    "u32 \<Rightarrow> edsm_message \<Rightarrow> ('h, 'w, 'k, 'z) dobjs_scheme
       \<Rightarrow> (int \<times> ('h, 'w, 'k, 'z) dobjs_scheme) res" where
  "edsm_dobj_handle_get_reply peer msg s =
     res_bind (read_dobj msg s) (\<lambda>(dobj_id, dobj, msg1).
     res_bind (read_u32 msg1) (\<lambda>(rc, have_reference, msg2).
     case dobj of
       None \<Rightarrow> Inr (SUCCESS, s)
     | Some a \<Rightarrow>
         res_bind (determinate have_reference) (\<lambda>have.
         res_bind (obj_at s a) (\<lambda>ob.
         let ob1 = (if have \<noteq> 0 then add_peer_reference peer ob else ob)
         in Inr (SUCCESS, put_obj s a (ob1\<lparr>obj_waiter := waiter_add_reply (obj_waiter ob1) peer\<rparr>))))))"

definition edsm_dobj_send_get ::
    "runtime \<Rightarrow> 'w os \<Rightarrow> ('h, 'w, ('k, 'z) dobjs_ext) call \<Rightarrow> u32
       \<Rightarrow> ('h, 'w, 'k, 'z) dobjs_scheme \<Rightarrow> (int \<times> ('h, 'w, 'k, 'z) dobjs_scheme) res" where
  "edsm_dobj_send_get rt os call dobj_id s =
     res_bind (new_message rt 8) (\<lambda>m.
     res_bind (write_u32s rt m [DOBJ_MSG_TYPE_GET, dobj_id]) (\<lambda>m1.
     edsm_proto_send rt os call 0 MSG_TYPE_DOBJ m1 s))"

definition edsm_dobj_handle_get ::
    "runtime \<Rightarrow> 'w os \<Rightarrow> ('h, 'w, ('k, 'z) dobjs_ext) call \<Rightarrow> u32 \<Rightarrow> edsm_message
       \<Rightarrow> ('h, 'w, 'k, 'z) dobjs_scheme \<Rightarrow> (int \<times> ('h, 'w, 'k, 'z) dobjs_scheme) res" where
  "edsm_dobj_handle_get rt os call peer msg s =
     res_bind (read_dobj msg s) (\<lambda>(dobj_id, dobj, msg1).
     case dobj of
       Some a \<Rightarrow>
         res_bind (obj_at s a) (\<lambda>ob.
         res_bind (edsm_dobj_send_get_reply rt os call peer dobj_id 1
                     (put_obj s a (add_peer_reference peer ob))) (\<lambda>(_, s').
         Inr (SUCCESS, s')))
     | None \<Rightarrow>
         res_bind (edsm_dobj_send_get_reply rt os call peer dobj_id 0 s) (\<lambda>(_, s').
         Inr (SUCCESS, s')))"

text \<open>
  \<^verbatim>\<open>edsm_dobj_get\<close> up to the point where it waits: the address of the object and whether it
  was created and has to wait for the replies. The block is zeroed; \<open>blank\<close> is its body then.
\<close>

definition edsm_dobj_get_start ::
    "runtime \<Rightarrow> 'w os \<Rightarrow> ('h, 'w, ('k, 'z) dobjs_ext) call \<Rightarrow> u32 \<Rightarrow> nat \<Rightarrow> obj_body \<Rightarrow> 'k
       \<Rightarrow> ('h, 'w, 'k, 'z) dobjs_scheme \<Rightarrow> (nat \<times> bool \<times> ('h, 'w, 'k, 'z) dobjs_scheme) res" where
  "edsm_dobj_get_start rt os call i sz blank handler s =
     res_bind (check AssertionFailed (sizeof_edsm_dobj \<le> sz)) (\<lambda>_.
     case find_obj s i of
       Some a \<Rightarrow> Inr (a, False, s)
     | None \<Rightarrow>
         res_bind (non_null (malloc rt sz)) (\<lambda>_.
         let a = obj_brk s;
             ob = \<lparr>obj_id = i, ref_count = 0, inited = 0, obj_handler = handler, obj_peers = [],
                   obj_waiter = waiter_create, body = blank\<rparr>;
             s1 = (put_obj s a ob)\<lparr>obj_brk := Suc a\<rparr>;
             s2 = s1\<lparr>objects := HASH_ADD (obj_key (obj_mem s1)) (objects s1) a\<rparr>
         in res_bind (edsm_proto_get_peer_ids s2) (\<lambda>ids.
            res_bind (edsm_dobj_send_get rt os call i
                (put_obj s2 a (ob\<lparr>obj_waiter := waiter_set_wait_on (obj_waiter ob) ids\<rparr>))) (\<lambda>(_, s3).
            Inr (a, True, s3)))))"

text \<open>The rest: \<^term>\<open>None\<close> while the caller is still blocked.\<close>

definition edsm_dobj_get_finish ::
    "nat \<Rightarrow> bool \<Rightarrow> ('h, 'w, 'k, 'z) dobjs_scheme \<Rightarrow> (nat \<times> ('h, 'w, 'k, 'z) dobjs_scheme) res option" where
  "edsm_dobj_get_finish a wait s =
     (case obj_at s a of
        Inl e \<Rightarrow> Some (Inl e)
      | Inr ob \<Rightarrow>
          if wait \<and> \<not> waiter_done (obj_waiter ob) then None
          else Some (Inr (a, put_obj s a (ob\<lparr>ref_count := ref_count ob + 1\<rparr>))))"

definition edsm_dobj_test_and_init ::
    "nat \<Rightarrow> ('h, 'w, 'k, 'z) dobjs_scheme \<Rightarrow> (i32 \<times> ('h, 'w, 'k, 'z) dobjs_scheme) res" where
  "edsm_dobj_test_and_init a s =
     res_bind (obj_at s a) (\<lambda>ob. Inr (inited ob, put_obj s a (ob\<lparr>inited := 1\<rparr>)))"

definition edsm_dobj_send ::
    "runtime \<Rightarrow> 'w os \<Rightarrow> ('h, 'w, ('k, 'z) dobjs_ext) call \<Rightarrow> nat \<Rightarrow> edsm_message option
       \<Rightarrow> ('h, 'w, 'k, 'z) dobjs_scheme \<Rightarrow> (int \<times> ('h, 'w, 'k, 'z) dobjs_scheme) res" where
  "edsm_dobj_send rt os call a dobj_msg s =
     res_bind (obj_at s a) (\<lambda>ob.
     if obj_peers ob \<noteq> [] then
       let sz = 8 + (case dobj_msg of None \<Rightarrow> 0 | Some m \<Rightarrow> data_size m) in
       res_bind (new_message rt sz) (\<lambda>m.
       res_bind (write_u32s rt m [DOBJ_MSG_TYPE_OBJ_MSG, obj_id ob]) (\<lambda>m1.
       res_bind (edsm_message_write_message rt m1 dobj_msg) (\<lambda>(_, m2).
       send_each (edsm_proto_send rt os call) (obj_peers ob) MSG_TYPE_DOBJ m2 s)))
     else Inr (SUCCESS, s))"

text \<open>The message handler returns \<^verbatim>\<open>FAILURE\<close> after every object message.\<close>

definition edsm_dobj_handle_message ::
    "runtime \<Rightarrow> 'w os \<Rightarrow> ('h, 'w, ('k, 'z) dobjs_ext) call \<Rightarrow> ('h, 'w, 'k, 'z) call_obj
       \<Rightarrow> u32 \<Rightarrow> edsm_message \<Rightarrow> ('h, 'w, 'k, 'z) dobjs_scheme
       \<Rightarrow> (int \<times> ('h, 'w, 'k, 'z) dobjs_scheme) res" where
  "edsm_dobj_handle_message rt os call call_obj peer msg s =
     res_bind (read_u32 msg) (\<lambda>(rc, v, msg1).
     res_bind (determinate v) (\<lambda>msg_type.
     if msg_type = DOBJ_MSG_TYPE_CREATE then edsm_dobj_handle_create peer msg1 s
     else if msg_type = DOBJ_MSG_TYPE_GET then edsm_dobj_handle_get rt os call peer msg1 s
     else if msg_type = DOBJ_MSG_TYPE_GET_REPLY then edsm_dobj_handle_get_reply peer msg1 s
     else if msg_type = DOBJ_MSG_TYPE_OBJ_MSG then
       res_bind (read_dobj msg1 s) (\<lambda>(dobj_id, dobj, msg2).
       case dobj of
         None \<Rightarrow> Inr (FAILURE, s)
       | Some a \<Rightarrow>
           res_bind (obj_at s a) (\<lambda>ob.
           if inited ob \<noteq> 0 then
             res_bind (edsm_message_read_message rt msg2 None) (\<lambda>(rc', dobj_msg, msg3).
             if rc' \<noteq> FAILURE
             then res_bind (call_obj (obj_handler ob) a peer dobj_msg s) (\<lambda>(_, s'). Inr (FAILURE, s'))
             else Inr (FAILURE, s))
           else Inr (FAILURE, s)))
     else Inr (FAILURE, s)))"

definition edsm_dobj_get_peers :: "nat \<Rightarrow> ('h, 'w, 'k, 'z) dobjs_scheme \<Rightarrow> u32 list res" where
  "edsm_dobj_get_peers a s = res_bind (obj_at s a) (\<lambda>ob. Inr (obj_peers ob))"

definition edsm_dobj_init ::
    "runtime \<Rightarrow> 'h \<Rightarrow> (('h, 'w, 'k, 'z) dobjs_scheme \<Rightarrow> (nat \<times> ('h, 'w, 'k, 'z) dobjs_scheme) res)
       \<Rightarrow> ('h, 'w, 'k, 'z) dobjs_scheme \<Rightarrow> (int \<times> ('h, 'w, 'k, 'z) dobjs_scheme) res" where
  "edsm_dobj_init rt dobj_handler mutex_get_0 s =
     res_bind (edsm_proto_register_handler rt MSG_TYPE_DOBJ dobj_handler s) (\<lambda>(_, s1).
     res_bind (mutex_get_0 s1) (\<lambda>(a, s2).
     Inr (SUCCESS, s2\<lparr>object_lock := Some a\<rparr>)))"


section \<open>Messages of objects\<close>

text \<open>A message argument and the bytes it stands for; a null pointer stands for none.\<close>

definition payload :: "edsm_message option \<Rightarrow> byte list \<Rightarrow> bool" where
  "payload p bs \<longleftrightarrow> (case p of None \<Rightarrow> bs = [] | Some m \<Rightarrow> holds m bs)"

text \<open>The data of an object message.\<close>

definition obj_content :: "u32 \<Rightarrow> byte list \<Rightarrow> byte list" where
  "obj_content i bs = bytes_of_u32 DOBJ_MSG_TYPE_OBJ_MSG @ bytes_of_u32 i
     @ bytes_of_u32 (word_of_nat (length bs)) @ bs"

lemma write_payload_ok:
  assumes "enough_memory rt" "holds d bs" "payload p xs" "3 * (used d + 4 + length xs) < 2 ^ 31"
  obtains d' where "edsm_message_write_message rt d p = Inr (SUCCESS, d')"
    "holds d' (bs @ bytes_of_u32 (word_of_nat (length xs)) @ xs)"
proof (cases p)
  case None
  then have "xs = []" "3 * (used d + 4) < 2 ^ 31" using assms(3,4) by (simp_all add: payload_def)
  from assms(1,2) this(2) obtain d' where "edsm_message_write_message rt d None = Inr (SUCCESS, d')"
      "holds d' (bs @ bytes_of_u32 0)" by (rule write_message_null)
  then show ?thesis using None \<open>xs = []\<close> by (intro that [of d']) simp_all
next
  case (Some v)
  then have "holds v xs" using assms(3) by (simp add: payload_def)
  from assms(1,2) this assms(4) obtain d' where "edsm_message_write_message rt d (Some v) = Inr (SUCCESS, d')"
      "holds d' (bs @ bytes_of_u32 (word_of_nat (length xs)) @ xs)" by (rule write_message_ok)
  then show ?thesis using Some by (intro that [of d']) simp_all
qed

lemma read_payload_ok:
  assumes rt: "enough_memory rt" and m: "holds m (bytes_of_u32 (word_of_nat (length bs)) @ bs)"
    and len: "length bs < 2 ^ 31"
  obtains p m' where "edsm_message_read_message rt m None = Inr (SUCCESS, p, m')" "payload p bs"
    "p = None \<longleftrightarrow> bs = []"
proof (cases "bs = []")
  case True
  with m have "holds m (bytes_of_u32 0 @ [])" by simp
  then obtain m' where "edsm_message_read_message rt m None = Inr (SUCCESS, None, m')" by (rule read_message_null)
  then show ?thesis using True by (intro that [of None m']) (simp_all add: payload_def)
next
  case False
  from m have "holds m (bytes_of_u32 (word_of_nat (length bs)) @ bs @ [])" by simp
  from rt this False len obtain q m' where "edsm_message_read_message rt m None = Inr (SUCCESS, Some q, m')"
    "holds q bs" by (rule read_message_ok)
  then show ?thesis using False by (intro that [of "Some q" m']) (simp_all add: payload_def)
qed

lemma same_rest:
  assumes "s'\<lparr>world := w0\<rparr> = s\<lparr>world := w0\<rparr>"
  shows "s' = s\<lparr>world := world s'\<rparr>"
proof -
  have "s' = s'\<lparr>world := w0\<rparr>\<lparr>world := world s'\<rparr>" by simp
  also have "\<dots> = s\<lparr>world := w0\<rparr>\<lparr>world := world s'\<rparr>" by (simp only: assms)
  also have "\<dots> = s\<lparr>world := world s'\<rparr>" by simp
  finally show ?thesis .
qed

lemma obj_world [simp]: "obj_at (s\<lparr>world := w\<rparr>) = obj_at s" "find_obj (s\<lparr>world := w\<rparr>) = find_obj s"
  by (simp_all add: obj_at_def find_obj_def fun_eq_iff)

lemma dobj_send_ok:
  assumes rt: "enough_memory rt" and c: "connected s" "accepts os written"
    and ob: "obj_mem s a = Some ob" "set (obj_peers ob) \<subseteq> set (ids_of s)" "distinct (obj_peers ob)"
    and p: "payload p bs" and b: "length bs + 12 \<le> message_room"
  shows "\<exists>w. edsm_dobj_send rt os call a p s = Inr (SUCCESS, s\<lparr>world := w\<rparr>)
    \<and> (\<forall>i. out written (s\<lparr>world := w\<rparr>) i = (if i \<in> set (obj_peers ob)
         then out written s i @ frame MSG_TYPE_DOBJ (obj_content (obj_id ob) bs) else out written s i))"
proof (cases "obj_peers ob = []")
  case True
  with ob(1) show ?thesis
    by (intro exI [of _ "world s"]) (simp add: edsm_dobj_send_def obj_at_def)
next
  case False
  let ?n = "8 + (case p of None \<Rightarrow> 0 | Some m \<Rightarrow> data_size m)"
  have b': "3 * (length bs + 12) < 2 ^ 31" using b by (simp only: message_room_iff)
  have "(case p of None \<Rightarrow> 0 | Some m \<Rightarrow> data_size m) = word_of_nat (length bs)"
    using p holds_data_ptr(2) by (auto simp: payload_def split: option.splits)
  then have "?n = word_of_nat (8 + length bs)" by simp
  moreover have "unat (word_of_nat (8 + length bs) :: u32) = 8 + length bs"
    using b' by (intro unat_u32_of_nat) simp
  ultimately have "unat ?n < 2 ^ 31" using b' by (simp del: of_nat_add)
  with rt obtain m where m: "new_message rt ?n = Inr m" "holds m []" "used m = 0" by (rule new_message_ok)
  obtain m1 where m1: "write_u32s rt m [DOBJ_MSG_TYPE_OBJ_MSG, obj_id ob] = Inr m1"
      "holds m1 (bytes_of_u32 DOBJ_MSG_TYPE_OBJ_MSG @ bytes_of_u32 (obj_id ob))" "used m1 = 8"
    using write_u32s_ok [OF rt m(2), of "[DOBJ_MSG_TYPE_OBJ_MSG, obj_id ob]"] m(3) by auto
  have "3 * (used m1 + 4 + length bs) < 2 ^ 31" using b' m1(3) by simp
  with rt m1(2) p obtain m2 where m2: "edsm_message_write_message rt m1 p = Inr (SUCCESS, m2)"
      "holds m2 ((bytes_of_u32 DOBJ_MSG_TYPE_OBJ_MSG @ bytes_of_u32 (obj_id ob))
         @ bytes_of_u32 (word_of_nat (length bs)) @ bs)"
    by (rule write_payload_ok)
  then have h2: "holds m2 (obj_content (obj_id ob) bs)" by (simp add: obj_content_def)
  have ne: "obj_content (obj_id ob) bs \<noteq> []" by (simp add: obj_content_def bytes_of_u32_def)
  from edsm.send_each_ok [OF h2 ne conjI [OF c] ob(2,3), of rt call MSG_TYPE_DOBJ "world s"] obtain s' where
    s': "send_each (edsm_proto_send rt os call) (obj_peers ob) MSG_TYPE_DOBJ m2 s = Inr (SUCCESS, s')"
      "s'\<lparr>world := world s\<rparr> = s\<lparr>world := world s\<rparr>"
      "\<forall>i. out written s' i = (if i \<in> set (obj_peers ob)
         then out written s i @ frame MSG_TYPE_DOBJ (obj_content (obj_id ob) bs) else out written s i)"
    by auto
  have e: "s' = s\<lparr>world := world s'\<rparr>" by (rule same_rest [OF s'(2)])
  have "edsm_dobj_send rt os call a p s = Inr (SUCCESS, s\<lparr>world := world s'\<rparr>)"
    using ob(1) False m(1) m1(1) m2(1) s'(1)
    by (simp add: edsm_dobj_send_def obj_at_def Let_def flip: e)
  with s'(3) e show ?thesis by metis
qed

lemma dobj_dispatch_ok:
  assumes rt: "enough_memory rt" and m: "holds m (obj_content i bs)" and len: "length bs < 2 ^ 31"
    and a: "find_obj s i = Some a" "obj_mem s a = Some ob" "inited ob \<noteq> 0"
  shows "\<exists>p. payload p bs \<and> (p = None \<longleftrightarrow> bs = []) \<and>
     edsm_dobj_handle_message rt os call call_obj peer m s
       = res_bind (call_obj (obj_handler ob) a peer p s) (\<lambda>(_, s'). Inr (FAILURE, s'))"
proof -
  obtain m1 where m1: "read_u32 m = Inr (SUCCESS, Some DOBJ_MSG_TYPE_OBJ_MSG, m1)"
      "holds m1 (bytes_of_u32 i @ bytes_of_u32 (word_of_nat (length bs)) @ bs)"
    using m holds_read_u32 unfolding obj_content_def by metis
  obtain m2 where m2: "read_u32 m1 = Inr (SUCCESS, Some i, m2)"
      "holds m2 (bytes_of_u32 (word_of_nat (length bs)) @ bs)"
    using m1(2) holds_read_u32 by metis
  from rt m2(2) len obtain p m3 where m3: "edsm_message_read_message rt m2 None = Inr (SUCCESS, p, m3)" "payload p bs"
      "p = None \<longleftrightarrow> bs = []" by (rule read_payload_ok)
  have rd: "read_dobj m1 s = Inr (i, Some a, m2)" by (simp add: read_dobj_def m2(1) a(1))
  have "edsm_dobj_handle_message rt os call call_obj peer m s
       = res_bind (call_obj (obj_handler ob) a peer p s) (\<lambda>(_, s'). Inr (FAILURE, s'))"
    by (simp add: edsm_dobj_handle_message_def m1(1) rd m3(1) obj_at_def a(2,3) DOBJ_MSG_TYPE_CREATE_def
        DOBJ_MSG_TYPE_GET_def DOBJ_MSG_TYPE_GET_REPLY_def DOBJ_MSG_TYPE_OBJ_MSG_def)
  with m3(2,3) show ?thesis by blast
qed


section \<open>References between the holders of an object\<close>

definition get_content :: "u32 \<Rightarrow> byte list" where
  "get_content i = bytes_of_u32 DOBJ_MSG_TYPE_GET @ bytes_of_u32 i"

definition get_reply_content :: "u32 \<Rightarrow> u32 \<Rightarrow> byte list" where
  "get_reply_content i have = bytes_of_u32 DOBJ_MSG_TYPE_GET_REPLY @ bytes_of_u32 i @ bytes_of_u32 have"

lemma put_obj_simps [simp]:
  "connected (put_obj s a ob) = connected s" "ids_of (put_obj s a ob) = ids_of s"
  "out written (put_obj s a ob) = out written s" "obj_mem (put_obj s a ob) b = (if b = a then Some ob else obj_mem s b)"
  "obj_mem ((put_obj s a ob)\<lparr>world := w\<rparr>) b = (if b = a then Some ob else obj_mem s b)"
  by (simp_all add: put_obj_def connected_def wf_peers_def ids_of_def peer_of_def [abs_def] out_def find_peer_def fun_eq_iff
      split: option.splits)

lemma holds_read_u32s2:
  assumes "holds m (bytes_of_u32 x @ bytes_of_u32 y @ bs)"
  obtains m1 m2 where "read_u32 m = Inr (SUCCESS, Some x, m1)" "read_u32 m1 = Inr (SUCCESS, Some y, m2)" "holds m2 bs"
proof -
  from assms obtain m1 where 1: "read_u32 m = Inr (SUCCESS, Some x, m1)" "holds m1 (bytes_of_u32 y @ bs)"
    by (rule holds_read_u32)
  from 1(2) obtain m2 where "read_u32 m1 = Inr (SUCCESS, Some y, m2)" "holds m2 bs" by (rule holds_read_u32)
  with 1(1) show ?thesis by (rule that)
qed

lemma send_get_reply_ok:
  assumes rt: "enough_memory rt" and c: "connected s" "accepts os written" and p: "peer \<in> set (ids_of s)"
  shows "\<exists>w. edsm_dobj_send_get_reply rt os call peer i have s = Inr (SUCCESS, s\<lparr>world := w\<rparr>)
     \<and> out written (s\<lparr>world := w\<rparr>)
         = (out written s)(peer := out written s peer @ frame MSG_TYPE_DOBJ (get_reply_content i have))"
proof -
  have "unat (8 :: u32) < 2 ^ 31" by simp
  with rt obtain m where m: "new_message rt 8 = Inr m" "holds m []" "used m = 0" by (rule new_message_ok)
  obtain m1 where m1: "write_u32s rt m [DOBJ_MSG_TYPE_GET_REPLY, i, have] = Inr m1" "holds m1 (get_reply_content i have)"
    using write_u32s_ok [OF rt m(2), of "[DOBJ_MSG_TYPE_GET_REPLY, i, have]"] m(3)
    by (auto simp: get_reply_content_def)
  have "get_reply_content i have \<noteq> []" by (simp add: get_reply_content_def bytes_of_u32_def)
  from edsm.unicast [OF conjI [OF c] p m1(2) this, of rt call MSG_TYPE_DOBJ "world s"] obtain s' where
    s': "edsm_proto_send rt os call peer MSG_TYPE_DOBJ m1 s = Inr (SUCCESS, s')"
      "s'\<lparr>world := world s\<rparr> = s\<lparr>world := world s\<rparr>"
      "out written s' = (out written s)(peer := out written s peer @ frame MSG_TYPE_DOBJ (get_reply_content i have))"
    by blast
  have e: "s' = s\<lparr>world := world s'\<rparr>" by (rule same_rest [OF s'(2)])
  have "edsm_dobj_send_get_reply rt os call peer i have s = Inr (SUCCESS, s')"
    by (simp add: edsm_dobj_send_get_reply_def m(1) m1(1) s'(1))
  with s'(3) e show ?thesis by metis
qed

text \<open>C25: an object message sent by \<^verbatim>\<open>edsm_dobj_send\<close> goes to every peer that holds a
  reference to the object, once, and to nobody else, as one frame with the object's id and the data.\<close>

theorem dobj_send_reaches_holders:
  assumes "enough_memory rt" "connected s" "accepts os written"
    and "obj_mem s a = Some ob" "set (obj_peers ob) \<subseteq> set (ids_of s)" "distinct (obj_peers ob)"
    and "payload p bs" "length bs + 12 \<le> message_room"
  shows "\<exists>w. edsm_dobj_send rt os call a p s = Inr (SUCCESS, s\<lparr>world := w\<rparr>)
    \<and> (\<forall>i. out written (s\<lparr>world := w\<rparr>) i = (if i \<in> set (obj_peers ob)
         then out written s i @ frame MSG_TYPE_DOBJ (obj_content (obj_id ob) bs) else out written s i))"
  by (rule dobj_send_ok [OF assms])

text \<open>The data of such a frame, at a node that has the object initialised, is handed to the object's
  handler unchanged (as a null pointer when there is none) with the sender's id, and the handler's effect
  is the effect on the node; but \<^verbatim>\<open>edsm_dobj_handle_message\<close> reports \<^verbatim>\<open>FAILURE\<close>
  nevertheless. A node that does not know the object, or has not initialised it, drops the message.\<close>

theorem dobj_dispatch:
  assumes "enough_memory rt" "holds m (obj_content i bs)" "length bs < 2 ^ 31"
  shows "case find_obj s i of
      None \<Rightarrow> edsm_dobj_handle_message rt os call call_obj peer m s = Inr (FAILURE, s)
    | Some a \<Rightarrow> (case obj_mem s a of
        None \<Rightarrow> edsm_dobj_handle_message rt os call call_obj peer m s = Inl UseAfterFree
      | Some ob \<Rightarrow>
          if inited ob = 0 then edsm_dobj_handle_message rt os call call_obj peer m s = Inr (FAILURE, s)
          else \<exists>p. payload p bs \<and> (p = None \<longleftrightarrow> bs = []) \<and>
            edsm_dobj_handle_message rt os call call_obj peer m s
              = res_bind (call_obj (obj_handler ob) a peer p s) (\<lambda>(_, s'). Inr (FAILURE, s')))"
proof -
  from assms(2) have "holds m (bytes_of_u32 DOBJ_MSG_TYPE_OBJ_MSG @ bytes_of_u32 i
      @ bytes_of_u32 (word_of_nat (length bs)) @ bs)" by (simp add: obj_content_def)
  then obtain m1 m2 where "read_u32 m = Inr (SUCCESS, Some DOBJ_MSG_TYPE_OBJ_MSG, m1)"
      "read_u32 m1 = Inr (SUCCESS, Some i, m2)" by (rule holds_read_u32s2)
  then show ?thesis
    using dobj_dispatch_ok [OF assms, of s _ _ os call call_obj peer]
    by (auto simp: edsm_dobj_handle_message_def read_dobj_def obj_at_def DOBJ_MSG_TYPE_CREATE_def
        DOBJ_MSG_TYPE_GET_def DOBJ_MSG_TYPE_GET_REPLY_def DOBJ_MSG_TYPE_OBJ_MSG_def split: option.splits)
qed

text \<open>A node that has the object answers a request with a positive reply to the requester alone and
  counts the requester, once, among the holders; one that does not answers negatively and changes
  nothing else.\<close>

theorem dobj_get_answered:
  assumes "enough_memory rt" "connected s" "accepts os written" "peer \<in> set (ids_of s)"
    and "holds m (get_content i)" "\<And>a. find_obj s i = Some a \<Longrightarrow> obj_mem s a \<noteq> None"
  shows "\<exists>s' rc. edsm_dobj_handle_message rt os call call_obj peer m s = Inr (rc, s')
     \<and> out written s' = (out written s)(peer := out written s peer
          @ frame MSG_TYPE_DOBJ (get_reply_content i (if find_obj s i = None then 0 else 1)))
     \<and> obj_mem s' = (case find_obj s i of None \<Rightarrow> obj_mem s
          | Some a \<Rightarrow> (obj_mem s)(a := map_option (add_peer_reference peer) (obj_mem s a)))"
proof -
  from assms(5) have "holds m (bytes_of_u32 DOBJ_MSG_TYPE_GET @ bytes_of_u32 i @ [])" by (simp add: get_content_def)
  then obtain m1 m2 where r: "read_u32 m = Inr (SUCCESS, Some DOBJ_MSG_TYPE_GET, m1)"
      "read_u32 m1 = Inr (SUCCESS, Some i, m2)" by (rule holds_read_u32s2)
  have h: "edsm_dobj_handle_message rt os call call_obj peer m s = edsm_dobj_handle_get rt os call peer m1 s"
    by (simp add: edsm_dobj_handle_message_def r(1) DOBJ_MSG_TYPE_CREATE_def DOBJ_MSG_TYPE_GET_def)
  show ?thesis
  proof (cases "find_obj s i")
    case None
    from send_get_reply_ok [OF assms(1-4), of call i 0] None show ?thesis
      by (auto simp: h edsm_dobj_handle_get_def read_dobj_def r(2))
  next
    case (Some a)
    then obtain ob where ob: "obj_mem s a = Some ob" using assms(6) by blast
    let ?s = "put_obj s a (add_peer_reference peer ob)"
    have "connected ?s" "peer \<in> set (ids_of ?s)" using assms(2,4) by simp_all
    from send_get_reply_ok [OF assms(1) this(1) assms(3) this(2), of call i 1] obtain w where
      w: "edsm_dobj_send_get_reply rt os call peer i 1 ?s = Inr (SUCCESS, ?s\<lparr>world := w\<rparr>)"
        "out written (?s\<lparr>world := w\<rparr>) = (out written s)(peer := out written s peer
           @ frame MSG_TYPE_DOBJ (get_reply_content i 1))"
      by auto
    have "edsm_dobj_handle_get rt os call peer m1 s = Inr (SUCCESS, ?s\<lparr>world := w\<rparr>)"
      by (simp add: edsm_dobj_handle_get_def read_dobj_def r(2) Some obj_at_def ob w(1))
    with w(2) ob Some show ?thesis by (auto simp: h put_obj_def)
  qed
qed

text \<open>The requester, on a positive reply, counts the replier among the holders, once, and in any case
  stops waiting for it; the other objects and the network are untouched.\<close>

theorem dobj_get_reply_handled:
  assumes "holds m (get_reply_content i have)" "find_obj s i = Some a" "obj_mem s a = Some ob"
  shows "\<exists>rc ob'. edsm_dobj_handle_message rt os call call_obj peer m s = Inr (rc, put_obj s a ob')
     \<and> set (obj_peers ob') = (if have = 0 then set (obj_peers ob) else insert peer (set (obj_peers ob)))
     \<and> (distinct (obj_peers ob) \<longrightarrow> distinct (obj_peers ob'))
     \<and> obj_waiter ob' = remove1 peer (obj_waiter ob)
     \<and> body ob' = body ob \<and> inited ob' = inited ob \<and> obj_id ob' = obj_id ob"
proof -
  from assms(1) have "holds m (bytes_of_u32 DOBJ_MSG_TYPE_GET_REPLY @ bytes_of_u32 i @ bytes_of_u32 have @ [])"
    by (simp add: get_reply_content_def)
  then obtain m1 m2 where r: "read_u32 m = Inr (SUCCESS, Some DOBJ_MSG_TYPE_GET_REPLY, m1)"
      "read_u32 m1 = Inr (SUCCESS, Some i, m2)" "holds m2 (bytes_of_u32 have @ [])" by (rule holds_read_u32s2)
  from r(3) obtain m3 where r3: "read_u32 m2 = Inr (SUCCESS, Some have, m3)" by (rule holds_read_u32)
  let ?ob1 = "if have \<noteq> 0 then add_peer_reference peer ob else ob"
  let ?ob' = "?ob1\<lparr>obj_waiter := waiter_add_reply (obj_waiter ?ob1) peer\<rparr>"
  have "edsm_dobj_handle_message rt os call call_obj peer m s = Inr (SUCCESS, put_obj s a ?ob')"
    by (simp add: edsm_dobj_handle_message_def r(1) edsm_dobj_handle_get_reply_def read_dobj_def r(2) r3 assms(2,3)
        obj_at_def Let_def DOBJ_MSG_TYPE_CREATE_def DOBJ_MSG_TYPE_GET_def DOBJ_MSG_TYPE_GET_REPLY_def)
  then show ?thesis
    by (intro exI [of _ SUCCESS] exI [of _ ?ob']) (auto simp: add_peer_reference_def waiter_add_reply_def)
qed

text \<open>A node connected to peers 2 and 3 that has object 9, held by peer 3 as well, for the concrete instances.\<close>

definition sample_object :: "nat edsm_dobj" where
  "sample_object = \<lparr>obj_id = 9, ref_count = 1, inited = 1, obj_handler = 0, obj_peers = [3],
     obj_waiter = [2], body = Barrier_Body None\<rparr>"

definition node_with_object :: "(nat, int \<Rightarrow> byte list, nat) dobjs" where
  "node_with_object = proto.extend node_of_three
     \<lparr>max_obj_id = 9, objects = HASH_ADD (obj_key [0 \<mapsto> sample_object]) None 0,
      obj_mem = [0 \<mapsto> sample_object], obj_brk = 1, object_lock = None\<rparr>"

lemma node_with_object_ok: "connected node_with_object" "ids_of node_with_object = [2, 3]"
  "obj_mem node_with_object = [0 \<mapsto> sample_object]" "find_obj node_with_object 9 = Some 0"
proof -
  have e: "peer_mem node_with_object = peer_mem node_of_three" "peers node_with_object = peers node_of_three"
    "my_id node_with_object = my_id node_of_three"
    by (simp_all add: node_with_object_def proto.extend_def)
  from connected_cong [OF this] show "connected node_with_object" "ids_of node_with_object = [2, 3]"
    using node_of_three_connected node_of_three_ok(5,7) by (simp_all add: ids_of_def)
  show m: "obj_mem node_with_object = [0 \<mapsto> sample_object]"
    by (simp add: node_with_object_def proto.extend_def)
  have k: "uthash.keyed (obj_key [0 \<mapsto> sample_object]) None"
    by (simp add: uthash.keyed_def wf_uthash_def HASH_ITER_def)
  have "objects node_with_object = HASH_ADD (obj_key [0 \<mapsto> sample_object]) None 0"
    by (simp add: node_with_object_def proto.extend_def)
  then show "find_obj node_with_object 9 = Some 0"
    using uthash.find_add [OF k, of 0 "bytes_of_u32 9"]
    by (simp add: find_obj_def m can_expand_def HASH_FIND_def obj_key_def sample_object_def)
qed

abbreviation no_call :: "('h, 'w, 'z) call" where "no_call \<equiv> \<lambda>_ _ _ s. Inr (0, s)"

lemma dobj_send_reaches_holders_witness:
  "\<exists>w. edsm_dobj_send good_runtime tape_os no_call 0 (Some (message_of [7])) node_with_object
       = Inr (SUCCESS, node_with_object\<lparr>world := w\<rparr>)
    \<and> out (\<lambda>w. w) (node_with_object\<lparr>world := w\<rparr>) 3
       = out (\<lambda>w. w) node_with_object 3 @ frame MSG_TYPE_DOBJ (obj_content 9 [7])
    \<and> out (\<lambda>w. w) (node_with_object\<lparr>world := w\<rparr>) 2 = out (\<lambda>w. w) node_with_object 2"
  using dobj_send_reaches_holders [OF enough_memory_good node_with_object_ok(1) tape_os_accepts,
      of 0 sample_object "Some (message_of [7])" "[7]" no_call]
  by (auto simp: node_with_object_ok sample_object_def payload_def holds_message_of message_room_def)

lemma dobj_dispatch_witness:
  "\<exists>p. payload p [7] \<and>
     edsm_dobj_handle_message good_runtime tape_os no_call (\<lambda>k a peer p s. Inr (0, s\<lparr>max_obj_id := peer\<rparr>)) 5
         (message_of (obj_content 9 [7])) node_with_object
       = Inr (FAILURE, node_with_object\<lparr>max_obj_id := 5\<rparr>)"
proof -
  have "holds (message_of (obj_content 9 [7])) (obj_content 9 [7])"
    by (rule conjunct1 [OF holds_message_of]) (simp add: obj_content_def)
  from dobj_dispatch [OF enough_memory_good this, where s = node_with_object and os = tape_os and call = no_call
      and call_obj = "\<lambda>k a peer p s. Inr (0, s\<lparr>max_obj_id := peer\<rparr>)" and peer = 5] show ?thesis
    by (auto simp: node_with_object_ok sample_object_def)
qed

lemma dobj_get_answered_witness:
  "\<exists>s' rc. edsm_dobj_handle_message good_runtime tape_os no_call (\<lambda>_ _ _ _ s. Inr (0, s)) 2
       (message_of (get_content 9)) node_with_object = Inr (rc, s')
     \<and> out (\<lambda>w. w) s' 2 = out (\<lambda>w. w) node_with_object 2 @ frame MSG_TYPE_DOBJ (get_reply_content 9 1)
     \<and> map_option obj_peers (obj_mem s' 0) = Some [3, 2]"
proof -
  have "holds (message_of (get_content 9)) (get_content 9)"
    by (rule conjunct1 [OF holds_message_of]) (simp add: get_content_def)
  from dobj_get_answered [OF enough_memory_good node_with_object_ok(1) tape_os_accepts _ this,
      where peer = 2 and call = no_call and call_obj = "\<lambda>_ _ _ _ s. Inr (0, s)"] show ?thesis
    by (auto simp: node_with_object_ok sample_object_def add_peer_reference_def)
qed

lemma dobj_get_reply_handled_witness:
  "\<exists>rc ob'. edsm_dobj_handle_message good_runtime tape_os no_call (\<lambda>_ _ _ _ s. Inr (0, s)) 2
       (message_of (get_reply_content 9 1)) node_with_object = Inr (rc, put_obj node_with_object 0 ob')
     \<and> set (obj_peers ob') = {2, 3} \<and> obj_waiter ob' = []"
proof -
  have "holds (message_of (get_reply_content 9 1)) (get_reply_content 9 1)"
    by (rule conjunct1 [OF holds_message_of]) (simp add: get_reply_content_def)
  from dobj_get_reply_handled [OF this node_with_object_ok(4), where ob = sample_object and rt = good_runtime
      and os = tape_os and call = no_call and call_obj = "\<lambda>_ _ _ _ s. Inr (0, s)" and peer = 2] show ?thesis
    by (auto simp: node_with_object_ok sample_object_def)
qed

end
