(* ===== verification/Memory.thy ===== *)
theory Memory
  imports Dobj
begin

text \<open>
  Shared memory regions, \<^verbatim>\<open>src/src/memory/memory.c\<close>: allocation, write protection, the page
  trap and twins. The bytes of a region are the field \<open>contents\<close>; addresses are natural numbers, and
  \<open>writable\<close> says of the address of a page whether it may be stored to. A store of the program to a
  protected page runs the signal handler and is then repeated (\<open>store_byte\<close>). Whether
  \<^verbatim>\<open>mprotect\<close> of a page succeeds, and the address \<^verbatim>\<open>posix_memalign\<close> returns, are
  parameters. Each operation holds the locks it needs while it runs and is one step.
\<close>

section \<open>State\<close>

record ('h, 'w, 'k) memory = "('h, 'w, 'k) dobjs" +
  memory_regions :: "nat list"
  memory_pagesize :: nat

definition region_at :: "('h, 'w, 'k, 'z) dobjs_scheme \<Rightarrow> nat \<Rightarrow> region_fields res" where
  "region_at s a = res_bind (obj_at s a) (\<lambda>ob. case body ob of
     Region_Body r \<Rightarrow> Inr r | _ \<Rightarrow> Inl TypeConfusion)"

definition put_region ::
    "('h, 'w, 'k, 'z) dobjs_scheme \<Rightarrow> nat \<Rightarrow> region_fields \<Rightarrow> ('h, 'w, 'k, 'z) dobjs_scheme" where
  "put_region s a r = (case obj_mem s a of None \<Rightarrow> s | Some ob \<Rightarrow> put_obj s a (ob\<lparr>body := Region_Body r\<rparr>))"

definition zero_region :: region_fields where
  "zero_region = \<lparr>head = 0, region_size = 0, contents = [], writable = (\<lambda>_. False), twins = [],
     lamport_timestamp = 0\<rparr>"

text \<open>The bytes of the page at an address, and the region with that page replaced.\<close>

definition page_at :: "nat \<Rightarrow> region_fields \<Rightarrow> nat \<Rightarrow> byte list res" where
  "page_at ps r addr =
     (if head r \<le> addr \<and> addr - head r + ps \<le> length (contents r)
      then Inr (take ps (drop (addr - head r) (contents r))) else Inl OutOfBounds)"

definition put_page :: "region_fields \<Rightarrow> nat \<Rightarrow> byte list \<Rightarrow> region_fields" where
  "put_page r addr bs =
     r\<lparr>contents := take (addr - head r) (contents r) @ bs @ drop (addr - head r + length bs) (contents r)\<rparr>"

definition find_twin :: "region_fields \<Rightarrow> nat \<Rightarrow> memory_page_twin option" where
  "find_twin r addr = find (\<lambda>t. original_page_head t = addr) (twins r)"

section \<open>Operations\<close>

definition edsm_memory_init ::
    "nat \<Rightarrow> ('h, 'w, 'k, 'z) memory_scheme \<Rightarrow> ('h, 'w, 'k, 'z) memory_scheme" where
  "edsm_memory_init pagesize s = s\<lparr>memory_regions := [], memory_pagesize := pagesize\<rparr>"

fun find_region :: "('h, 'w, 'k, 'z) dobjs_scheme \<Rightarrow> nat \<Rightarrow> nat list \<Rightarrow> nat option res" where
  "find_region s addr [] = Inr None"
| "find_region s addr (a # as) =
     res_bind (region_at s a) (\<lambda>r.
     if head r \<le> addr \<and> addr < head r + region_size r then Inr (Some a)
     else find_region s addr as)"

definition find_region_for_addr :: "nat \<Rightarrow> ('h, 'w, 'k, 'z) memory_scheme \<Rightarrow> nat option res" where
  "find_region_for_addr addr s = find_region s addr (memory_regions s)"

definition edsm_memory_init_twin :: "runtime \<Rightarrow> nat \<Rightarrow> nat \<Rightarrow> cell list res" where
  "edsm_memory_init_twin rt ps head_addr =
     res_bind (non_null (malloc rt 24)) (\<lambda>_. non_null (malloc rt ps))"

definition edsm_memory_twin_page ::
    "runtime \<Rightarrow> (nat \<Rightarrow> bool) \<Rightarrow> nat \<Rightarrow> region_fields \<Rightarrow> nat \<Rightarrow> region_fields res" where
  "edsm_memory_twin_page rt mprotect ps region addr =
     res_bind (check AssertionFailed (addr mod ps = 0)) (\<lambda>_.
     res_bind (edsm_memory_init_twin rt ps addr) (\<lambda>blk.
     res_bind (check AssertionFailed (mprotect addr)) (\<lambda>_.
     res_bind (page_at ps region addr) (\<lambda>page.
     Inr (region\<lparr>writable := (writable region)(addr := False),
       twins := \<lparr>original_page_head = addr, twin_data = page\<rparr> # twins region\<rparr>)))))"

definition tx_begin ::
    "runtime \<Rightarrow> (nat \<Rightarrow> bool) \<Rightarrow> nat \<Rightarrow> ('h, 'w, 'k, 'z) memory_scheme
       \<Rightarrow> ('h, 'w, 'k, 'z) memory_scheme res" where
  "tx_begin rt mprotect addr0 s =
     (let ps = memory_pagesize s;
          remainder = addr0 mod ps;
          addr = (if remainder \<noteq> 0 then addr0 - remainder else addr0)
      in res_bind (find_region_for_addr addr s) (\<lambda>found.
         case found of
           None \<Rightarrow> Inl AssertionFailed
         | Some a \<Rightarrow>
             res_bind (region_at s a) (\<lambda>r.
             res_bind (case find_twin r addr of
                 None \<Rightarrow> edsm_memory_twin_page rt mprotect ps r addr
               | Some _ \<Rightarrow> Inr r) (\<lambda>r1.
             res_bind (check AssertionFailed (mprotect addr)) (\<lambda>_.
             Inr (put_region s a (r1\<lparr>writable := (writable r1)(addr := True)\<rparr>)))))))"

text \<open>The signal handler: a fault outside every region ends the process.\<close>

definition page_trap_handler ::
    "runtime \<Rightarrow> (nat \<Rightarrow> bool) \<Rightarrow> nat \<Rightarrow> ('h, 'w, 'k, 'z) memory_scheme
       \<Rightarrow> ('h, 'w, 'k, 'z) memory_scheme res" where
  "page_trap_handler rt mprotect addr s =
     res_bind (find_region_for_addr addr s) (\<lambda>found.
     case found of None \<Rightarrow> Inl Aborted | Some _ \<Rightarrow> tx_begin rt mprotect addr s)"

text \<open>\<^verbatim>\<open>region_protect\<close>: the whole region becomes read-only.\<close>

definition region_protect :: "(nat \<Rightarrow> bool) \<Rightarrow> region_fields \<Rightarrow> region_fields res" where
  "region_protect mprotect region =
     res_bind (check AssertionFailed (mprotect (head region))) (\<lambda>_.
     Inr (region\<lparr>writable := (\<lambda>_. False)\<rparr>))"

text \<open>A size of type \<^verbatim>\<open>size_t\<close> rounded up to whole pages; the sum wraps at 64 bits.\<close>

definition round_up :: "nat \<Rightarrow> nat \<Rightarrow> nat" where
  "round_up ps n = (let remainder = n mod ps in if remainder \<noteq> 0 then (n + ps - remainder) mod 2 ^ 64 else n)"

text \<open>
  \<^verbatim>\<open>edsm_memory_region_get\<close> after \<^verbatim>\<open>edsm_dobj_get\<close> has returned the object: the
  result is the region, or the null pointer if its memory cannot be allocated. \<open>sizeof_region\<close> is
  the size asked of \<^verbatim>\<open>edsm_dobj_get\<close>.
\<close>

definition sizeof_region :: nat where "sizeof_region = 240"

definition edsm_memory_region_get ::
    "(nat \<Rightarrow> bool) \<Rightarrow> (nat \<Rightarrow> nat option) \<Rightarrow> nat \<Rightarrow> nat \<Rightarrow> ('h, 'w, 'k, 'z) memory_scheme
       \<Rightarrow> (nat option \<times> ('h, 'w, 'k, 'z) memory_scheme) res" where
  "edsm_memory_region_get mprotect memalign size0 a s =
     res_bind (edsm_dobj_test_and_init a s) (\<lambda>(was_inited, s1).
     if was_inited \<noteq> 0 then Inr (Some a, s1)
     else
       res_bind (region_at s1 a) (\<lambda>r.
       let sz = round_up (memory_pagesize s1) size0 in
       case memalign sz of
         None \<Rightarrow> Inr (None, put_region s1 a (r\<lparr>twins := []\<rparr>))
       | Some h \<Rightarrow>
           res_bind (region_protect mprotect
               (r\<lparr>twins := [], head := h, contents := replicate sz 0, region_size := sz\<rparr>)) (\<lambda>r1.
           Inr (Some a, (put_region s1 a r1)\<lparr>memory_regions := a # memory_regions s1\<rparr>))))"

text \<open>
  A store of one byte by the program: it is done if the page is writable; otherwise the processor runs
  the handler and repeats the instruction.
\<close>

definition store_byte ::
    "runtime \<Rightarrow> (nat \<Rightarrow> bool) \<Rightarrow> nat \<Rightarrow> byte \<Rightarrow> ('h, 'w, 'k, 'z) memory_scheme
       \<Rightarrow> ('h, 'w, 'k, 'z) memory_scheme res" where
  "store_byte rt mprotect addr v s =
     (let store = (\<lambda>s. res_bind (find_region_for_addr addr s) (\<lambda>found.
            case found of
              None \<Rightarrow> Inr None
            | Some a \<Rightarrow> res_bind (region_at s a) (\<lambda>r.
                if writable r (addr - addr mod memory_pagesize s)
                then Inr (Some (put_region s a (r\<lparr>contents := (contents r)[addr - head r := v]\<rparr>)))
                else Inr None)))
      in res_bind (store s) (\<lambda>done1. case done1 of
           Some s' \<Rightarrow> Inr s'
         | None \<Rightarrow>
             res_bind (page_trap_handler rt mprotect addr s) (\<lambda>s1.
             res_bind (store s1) (\<lambda>done2. case done2 of
               Some s' \<Rightarrow> Inr s' | None \<Rightarrow> Inl OutOfFuel))))"

section \<open>Well-formed regions\<close>

text \<open>
  A well-formed region: whole pages, aligned; the twins are of different pages of the region and a page
  is writable only while it has a twin.
\<close>

definition wf_region :: "nat \<Rightarrow> region_fields \<Rightarrow> bool" where
  "wf_region ps r \<longleftrightarrow> 0 < ps \<and> head r mod ps = 0 \<and> region_size r mod ps = 0
     \<and> length (contents r) = region_size r
     \<and> distinct (map original_page_head (twins r))
     \<and> list_all (\<lambda>t. length (twin_data t) = ps \<and> head r \<le> original_page_head t
          \<and> original_page_head t < head r + region_size r \<and> original_page_head t mod ps = 0) (twins r)
     \<and> (\<forall>p. writable r p \<longrightarrow> p \<in> original_page_head ` set (twins r))"

definition page_of :: "nat \<Rightarrow> region_fields \<Rightarrow> nat \<Rightarrow> byte list" where
  "page_of ps r addr = take ps (drop (addr - head r) (contents r))"

text \<open>The page at an address as it was before the local changes: its twin, if it has one.\<close>

definition base_page :: "nat \<Rightarrow> region_fields \<Rightarrow> nat \<Rightarrow> byte list" where
  "base_page ps r a = (case find_twin r a of None \<Rightarrow> page_of ps r a | Some t \<Rightarrow> twin_data t)"

lemma page_bound:
  assumes "h mod ps = (0 :: nat)" "a mod ps = 0" "n mod ps = 0" "h \<le> a" "a < h + n" "0 < ps"
  shows "a - h + ps \<le> n"
proof -
  obtain i j k where "h = ps * i" "a = ps * j" "n = ps * k"
    using assms(1-3) by (auto simp: mod_eq_0_iff_dvd elim!: dvdE)
  moreover from this assms(4-6) have "i \<le> j" "j < i + k" by (auto simp: distrib_left [symmetric])
  then have "j - i + 1 \<le> k" by simp
  then have "ps * (j - i + 1) \<le> ps * k" by (rule mult_le_mono2)
  ultimately show ?thesis by (simp add: diff_mult_distrib2 distrib_left)
qed

lemma page_at_ok:
  assumes "wf_region ps r" "head r \<le> a" "a < head r + region_size r" "a mod ps = 0"
  shows "page_at ps r a = Inr (page_of ps r a)" "length (page_of ps r a) = ps"
    "a - head r + ps \<le> length (contents r)"
proof -
  show b: "a - head r + ps \<le> length (contents r)"
    using assms page_bound [of "head r" ps a "region_size r"] by (auto simp: wf_region_def)
  then show "page_at ps r a = Inr (page_of ps r a)" "length (page_of ps r a) = ps"
    using assms(2) by (simp_all add: page_at_def page_of_def)
qed

lemma aligned_less: "a mod ps = (0 :: nat) \<Longrightarrow> b mod ps = 0 \<Longrightarrow> a < b \<Longrightarrow> a + ps \<le> b"
  using page_bound [of a ps a "b - a"] by (cases "ps = 0") (auto simp: mod_eq_0_iff_dvd)

lemma length_base_page:
  assumes "wf_region ps r" "head r \<le> a" "a < head r + region_size r" "a mod ps = 0"
  shows "length (base_page ps r a) = ps"
  using assms page_at_ok(2) [OF assms]
  by (auto simp: base_page_def find_twin_def wf_region_def list_all_iff find_Some_iff split: option.splits)

lemma page_address:
  assumes "wf_region ps r" "off < region_size r" "off mod ps = 0"
  shows "head r \<le> head r + off" "head r + off < head r + region_size r" "(head r + off) mod ps = 0"
  using assms by (auto simp: wf_region_def mod_add_eq [symmetric])

text \<open>
  What a region contains byte by byte: its memory, and the committed value, which is the byte of the
  twin where the page has one.
\<close>

definition committed :: "nat \<Rightarrow> region_fields \<Rightarrow> nat \<Rightarrow> byte" where
  "committed ps r i = base_page ps r (head r + (i - i mod ps)) ! (i mod ps)"

definition changed :: "nat \<Rightarrow> region_fields \<Rightarrow> nat \<Rightarrow> bool" where
  "changed ps r i \<longleftrightarrow> contents r ! i \<noteq> committed ps r i"

lemma page_offset:
  assumes "wf_region ps r" "i < region_size r"
  shows "i - i mod ps < region_size r" "(i - i mod ps) mod ps = 0" "i mod ps < ps"
proof -
  show "i - i mod ps < region_size r" using assms(2) by (rule le_less_trans [OF diff_le_self])
  show "(i - i mod ps) mod ps = 0" by (simp add: minus_mod_eq_mult_div)
  show "i mod ps < ps" using assms(1) by (simp add: wf_region_def)
qed

lemma nth_contents:
  assumes "wf_region ps r" "i < region_size r"
  shows "contents r ! i = page_of ps r (head r + (i - i mod ps)) ! (i mod ps)"
proof -
  have "i - i mod ps + ps \<le> length (contents r)"
    using assms page_bound [of 0 ps "i - i mod ps" "region_size r"] page_offset [OF assms]
    by (simp add: wf_region_def)
  then show ?thesis using assms by (simp add: page_of_def wf_region_def)
qed

section \<open>Captured stores\<close>

text \<open>Every region of the node is well formed.\<close>

definition wf_memory :: "('h, 'w, 'k, 'z) memory_scheme \<Rightarrow> bool" where
  "wf_memory s \<longleftrightarrow> list_all (\<lambda>a. case region_at s a of Inl _ \<Rightarrow> False | Inr r \<Rightarrow> wf_region (memory_pagesize s) r)
     (memory_regions s)"

text \<open>A page opened for writing.\<close>

definition open_page :: "nat \<Rightarrow> region_fields \<Rightarrow> nat \<Rightarrow> region_fields" where
  "open_page ps r p =
     (if find_twin r p = None
      then r\<lparr>twins := \<lparr>original_page_head = p, twin_data = page_of ps r p\<rparr> # twins r, writable := (writable r)(p := True)\<rparr>
      else r\<lparr>writable := (writable r)(p := True)\<rparr>)"

lemma open_page_simps [simp]:
  "head (open_page ps r p) = head r" "region_size (open_page ps r p) = region_size r"
  "contents (open_page ps r p) = contents r" "writable (open_page ps r p) = (writable r)(p := True)"
  by (simp_all add: open_page_def)

lemma page_below: "0 < ps \<Longrightarrow> addr < addr - addr mod ps + (ps :: nat)"
  using mod_less_divisor [of ps addr] mod_less_eq_dividend [of addr ps] by linarith

lemma page_inside:
  assumes "wf_region ps r" shows
    "head r \<le> addr - addr mod ps \<longleftrightarrow> head r \<le> addr"
    "addr - addr mod ps < head r + region_size r \<longleftrightarrow> addr < head r + region_size r"
    "(addr - addr mod ps) mod ps = 0"
proof -
  have ps: "0 < ps" "head r mod ps = 0" "(head r + region_size r) mod ps = 0"
    using assms by (auto simp: wf_region_def mod_add_eq [symmetric])
  show m: "(addr - addr mod ps) mod ps = 0" by (simp add: minus_mod_eq_mult_div)
  have below: "addr < (addr - addr mod ps) + ps" using page_below [OF ps(1)] .
  show "head r \<le> addr - addr mod ps \<longleftrightarrow> head r \<le> addr"
    using aligned_less [OF m ps(2)] below by (metis diff_le_self dual_order.trans leD not_le_imp_less order.strict_trans2)
  show "addr - addr mod ps < head r + region_size r \<longleftrightarrow> addr < head r + region_size r"
    using aligned_less [OF m ps(3)] below by (meson diff_le_self le_less_trans less_le_trans)
qed

lemma find_region_page:
  assumes "list_all (\<lambda>a. case region_at s a of Inl _ \<Rightarrow> False | Inr r \<Rightarrow> wf_region ps r) as"
  shows "find_region s (addr - addr mod ps) as = find_region s addr as"
  using assms
proof (induction as)
  case (Cons a as)
  then obtain r where "region_at s a = Inr r" "wf_region ps r" by (auto split: sum.splits)
  with Cons page_inside [OF this(2), of addr] show ?case by simp
qed simp

lemma find_region_result:
  "find_region s addr as = Inr (Some a) \<Longrightarrow> a \<in> set as \<and> (\<exists>r. region_at s a = Inr r \<and> head r \<le> addr \<and> addr < head r + region_size r)"
proof (induction as)
  case (Cons b as)
  then show ?case by (cases "region_at s b") (auto split: if_splits)
qed simp

lemma region_at_put:
  "region_at s a = Inr r \<Longrightarrow> region_at (put_region s a r') b = (if b = a then Inr r' else region_at s b)"
  by (auto simp: region_at_def obj_at_def put_region_def put_obj_def split: option.splits sum.splits obj_body.splits)

lemma put_region_simps [simp]:
  "memory_regions (put_region s a r) = memory_regions s" "memory_pagesize (put_region s a r) = memory_pagesize s"
  by (simp_all add: put_region_def put_obj_def split: option.split)

lemma put_region_twice [simp]: "put_region (put_region s a r) a r' = put_region s a r'"
  by (simp add: put_region_def put_obj_def split: option.split)

lemma find_region_put:
  assumes "region_at s a = Inr r" "head r' = head r" "region_size r' = region_size r"
  shows "find_region (put_region s a r') addr as = find_region s addr as"
proof (induction as)
  case (Cons b as)
  then show ?case
    using assms(2,3) by (cases "b = a"; cases "region_at s b") (simp_all add: region_at_put [OF assms(1)] assms(1))
qed simp

lemma wf_memory_put:
  assumes "region_at s a = Inr r" "wf_memory s" "wf_region (memory_pagesize s) r'"
  shows "wf_memory (put_region s a r')"
  using assms by (auto simp: wf_memory_def list_all_iff region_at_put split: sum.splits)

lemma wf_open_page:
  assumes wf: "wf_region ps r" and p: "head r \<le> p" "p < head r + region_size r" "p mod ps = 0"
  shows "wf_region ps (open_page ps r p)"
proof (cases "find_twin r p")
  case None
  then have "p \<notin> original_page_head ` set (twins r)" by (auto simp: find_twin_def find_None_iff)
  then show ?thesis
    using None wf p page_at_ok(2) [OF wf p] by (auto simp: open_page_def wf_region_def)
next
  case (Some t)
  then have "p \<in> original_page_head ` set (twins r)" by (auto simp: find_twin_def find_Some_iff)
  then show ?thesis using Some wf by (auto simp: open_page_def wf_region_def)
qed

lemma committed_open_page: "committed ps (open_page ps r p) i = committed ps r i"
proof -
  have "page_of ps (open_page ps r p) q = page_of ps r q" for q by (simp add: page_of_def)
  then have "base_page ps (open_page ps r p) q = base_page ps r q" for q
    by (auto simp: base_page_def open_page_def find_twin_def page_of_def split: option.splits)
  then show ?thesis by (simp add: committed_def)
qed

lemma tx_begin_ok:
  assumes rt: "enough_memory rt" and mp: "\<forall>p. mprotect p" and wf: "wf_memory s"
    and a: "find_region_for_addr addr s = Inr (Some a)" "region_at s a = Inr r"
  shows "tx_begin rt mprotect addr s = Inr (put_region s a (open_page (memory_pagesize s) r (addr - addr mod memory_pagesize s)))"
proof -
  let ?ps = "memory_pagesize s" let ?p = "addr - addr mod ?ps"
  have r: "wf_region ?ps r" "head r \<le> addr" "addr < head r + region_size r"
    using a wf find_region_result [of s addr "memory_regions s" a]
    by (auto simp: find_region_for_addr_def wf_memory_def list_all_iff)
  note p = page_inside [OF r(1), of addr]
  have pg: "page_at ?ps r ?p = Inr (page_of ?ps r ?p)" using page_at_ok(1) [OF r(1), of ?p] p r by blast
  have e: "(if addr mod ?ps \<noteq> 0 then ?p else addr) = ?p" by simp
  have f: "find_region_for_addr ?p s = Inr (Some a)"
    using a(1) find_region_page [OF wf [unfolded wf_memory_def]] by (simp add: find_region_for_addr_def)
  show ?thesis
  proof (cases "find_twin r ?p")
    case None
    have t: "edsm_memory_twin_page rt mprotect ?ps r ?p = Inr (r\<lparr>writable := (writable r)(?p := False),
        twins := \<lparr>original_page_head = ?p, twin_data = page_of ?ps r ?p\<rparr> # twins r\<rparr>)"
      using rt mp p(3) pg
      by (simp add: edsm_memory_twin_page_def edsm_memory_init_twin_def malloc_def enough_memory_def)
    show ?thesis using None a(2) mp t unfolding tx_begin_def Let_def e f by (simp add: open_page_def)
  next
    case (Some t)
    then show ?thesis using a(2) mp unfolding tx_begin_def Let_def e f by (simp add: open_page_def)
  qed
qed

lemma update_outside: "j < k \<or> k + ps \<le> j \<Longrightarrow> take ps (drop k (xs[j := v])) = take ps (drop k xs)"
  by (cases "j < k") (auto simp: drop_update_swap)

lemma poke_region:
  fixes v :: byte
  assumes wf: "wf_region ps r" and addr: "head r \<le> addr" "addr < head r + region_size r"
    and t: "find_twin r (addr - addr mod ps) \<noteq> None"
  defines "r' \<equiv> r\<lparr>contents := (contents r)[addr - head r := v]\<rparr>"
  shows "wf_region ps r'" "i < region_size r \<Longrightarrow> committed ps r' i = committed ps r i"
proof -
  show "wf_region ps r'" using wf by (simp add: wf_region_def r'_def)
  assume i: "i < region_size r"
  let ?q = "head r + (i - i mod ps)"
  have q: "head r \<le> ?q" "?q < head r + region_size r" "?q mod ps = 0"
    using page_address [OF wf page_offset(1,2) [OF wf i]] by blast+
  have f: "find_twin r' q = find_twin r q" "head r' = head r" for q by (simp_all add: r'_def find_twin_def)
  show "committed ps r' i = committed ps r i"
  proof (cases "find_twin r ?q")
    case None
    then have ne: "?q \<noteq> addr - addr mod ps" using t by metis
    note p = page_inside [OF wf, of addr]
    have "?q + ps \<le> addr - addr mod ps \<or> addr - addr mod ps + ps \<le> ?q"
      using aligned_less [OF q(3) p(3)] aligned_less [OF p(3) q(3)] ne by (metis linorder_neqE_nat)
    moreover have "addr < addr - addr mod ps + ps" "addr - addr mod ps \<le> addr"
      using wf page_below [of ps addr] unfolding wf_region_def by blast simp
    ultimately have out: "addr < ?q \<or> ?q + ps \<le> addr" by linarith
    have "addr - head r < ?q - head r \<or> ?q - head r + ps \<le> addr - head r" using out addr(1) q(1) by linarith
    from update_outside [OF this, of "contents r" v] have "page_of ps r' ?q = page_of ps r ?q"
      by (simp add: page_of_def r'_def)
    then show ?thesis using None by (simp add: committed_def base_page_def f)
  next
    case (Some t)
    then show ?thesis by (simp add: committed_def base_page_def f)
  qed
qed

text \<open>A store to an address of a region.\<close>

lemma store_byte_ok:
  fixes v :: byte
  assumes rt: "enough_memory rt" and mp: "\<forall>p. mprotect p" and wf: "wf_memory s"
    and a: "find_region_for_addr addr s = Inr (Some a)" "region_at s a = Inr r"
  shows "\<exists>r'. store_byte rt mprotect addr v s = Inr (put_region s a r') \<and> wf_memory (put_region s a r')
     \<and> head r' = head r \<and> region_size r' = region_size r \<and> contents r' = (contents r)[addr - head r := v]
     \<and> (\<forall>i < region_size r. committed (memory_pagesize s) r' i = committed (memory_pagesize s) r i)"
proof -
  let ?ps = "memory_pagesize s" let ?p = "addr - addr mod ?ps"
  define st where "st r0 = r0\<lparr>contents := (contents r0)[addr - head r0 := v]\<rparr>" for r0 :: region_fields
  have r: "wf_region ?ps r" "head r \<le> addr" "addr < head r + region_size r"
    using a wf find_region_result [of s addr "memory_regions s" a]
    by (auto simp: find_region_for_addr_def wf_memory_def list_all_iff)
  have p: "head r \<le> ?p" "?p < head r + region_size r" "?p mod ?ps = 0" using page_inside [OF r(1), of addr] r(2,3) by simp_all
  show ?thesis
  proof (cases "writable r ?p")
    case True
    then have "?p \<in> original_page_head ` set (twins r)" using r(1) by (simp only: wf_region_def)
    then have "find_twin r ?p \<noteq> None" by (auto simp: find_twin_def find_None_iff)
    note pk = poke_region [OF r this, where v = v, folded st_def]
    have "store_byte rt mprotect addr v s = Inr (put_region s a (st r))"
      using True a by (simp add: store_byte_def st_def)
    with pk wf_memory_put [OF a(2) wf pk(1)] show ?thesis by (intro exI [of _ "st r"]) (simp add: st_def)
  next
    case False
    let ?r1 = "open_page ?ps r ?p" let ?s1 = "put_region s a ?r1"
    have w1: "wf_region ?ps ?r1" by (rule wf_open_page [OF r(1) p])
    have "find_twin ?r1 ?p \<noteq> None" by (auto simp: open_page_def find_twin_def)
    then have pk: "wf_region ?ps (st ?r1)" "i < region_size r \<Longrightarrow> committed ?ps (st ?r1) i = committed ?ps ?r1 i" for i
      using poke_region [OF w1, where addr = addr and v = v, folded st_def] r(2,3) by simp_all
    have f: "find_region_for_addr addr ?s1 = Inr (Some a)"
      using a find_region_put [OF a(2), of ?r1] by (simp add: find_region_for_addr_def)
    have r1: "region_at ?s1 a = Inr ?r1" using region_at_put [OF a(2)] by simp
    have "page_trap_handler rt mprotect addr s = Inr ?s1"
      using a(1) tx_begin_ok [OF rt mp wf a] by (simp add: page_trap_handler_def)
    then have "store_byte rt mprotect addr v s = Inr (put_region s a (st ?r1))"
      using False a f r1 by (simp add: store_byte_def st_def)
    with pk wf_memory_put [OF a(2) wf pk(1)] show ?thesis
      by (intro exI [of _ "st ?r1"]) (simp add: committed_open_page, simp add: st_def)
  qed
qed

lemma store_outside: 
  assumes "find_region_for_addr addr s = Inr None"
  shows "store_byte rt mprotect addr v s = Inl Aborted"
  using assms by (simp add: store_byte_def page_trap_handler_def)

section \<open>Properties\<close>

text \<open>C11: a store to an address of a region, whether its page is still protected (the trap handler then
  twins and opens it) or already open, changes that byte and no other, leaves every region well formed
  and loses no committed byte: the value of each byte before the transaction stays in the twin.\<close>

theorem store_captured:
  fixes v :: byte
  assumes "enough_memory rt" "\<forall>p. mprotect p" "wf_memory s"
    and "find_region_for_addr addr s = Inr (Some a)" "region_at s a = Inr r"
  shows "\<exists>r'. store_byte rt mprotect addr v s = Inr (put_region s a r') \<and> wf_memory (put_region s a r')
     \<and> head r' = head r \<and> region_size r' = region_size r \<and> contents r' = (contents r)[addr - head r := v]
     \<and> (\<forall>i < region_size r. committed (memory_pagesize s) r' i = committed (memory_pagesize s) r i)"
  by (rule store_byte_ok [OF assms])

lemma round_up_ok:
  assumes "0 < ps"
  shows "n + ps \<le> 2 ^ 64 \<Longrightarrow> n \<le> round_up ps n" "n + ps \<le> 2 ^ 64 \<Longrightarrow> round_up ps n < n + ps"
    "n + ps \<le> 2 ^ 64 \<Longrightarrow> round_up ps n mod ps = 0" "ps dvd 2 ^ 64 \<Longrightarrow> round_up ps n mod ps = 0"
proof -
  have e: "n + ps - n mod ps = (n - n mod ps) + ps" using mod_less_eq_dividend [of n ps] by linarith
  then have m: "ps dvd n + ps - n mod ps" by (simp add: minus_mod_eq_mult_div)
  have small: "n + ps - n mod ps < 2 ^ 64" if "n + ps \<le> 2 ^ 64" "n mod ps \<noteq> 0" using that assms by linarith
  show "n + ps \<le> 2 ^ 64 \<Longrightarrow> round_up ps n mod ps = 0" using small m by (auto simp: round_up_def Let_def)
  show "ps dvd 2 ^ 64 \<Longrightarrow> round_up ps n mod ps = 0" using m by (auto simp: round_up_def Let_def dvd_mod_iff)
  show "n + ps \<le> 2 ^ 64 \<Longrightarrow> n \<le> round_up ps n" "n + ps \<le> 2 ^ 64 \<Longrightarrow> round_up ps n < n + ps"
    using small assms mod_less_divisor [OF assms, of n] by (auto simp: round_up_def Let_def)
qed

text \<open>The second call for an object whose memory could not be allocated.\<close>

lemma region_get_again:
  assumes "obj_mem s a = Some ob" "inited ob = 1"
  shows "edsm_memory_region_get mprotect memalign n a s = Inr (Some a, s)"
proof -
  have e: "ob\<lparr>inited := 1\<rparr> = ob" using assms(2) by (cases ob) simp
  have "edsm_dobj_test_and_init a s = Inr (1, put_obj s a (ob\<lparr>inited := 1\<rparr>))"
    using assms by (simp add: edsm_dobj_test_and_init_def obj_at_def)
  then have "edsm_dobj_test_and_init a s = Inr (1, put_obj s a ob)" by (simp only: e)
  moreover have "put_obj s a ob = s" using assms(1) by (simp add: put_obj_def fun_upd_idem)
  ultimately show ?thesis by (simp add: edsm_memory_region_get_def)
qed

text \<open>A region whose object is new is allocated with the requested size rounded up to whole pages (if that is below \<open>2\<^sup>6\<^sup>4\<close>),
  all bytes zero and no page open, and joins the list of regions; every region stays well formed. If the
  allocation fails the caller gets a null pointer, but the object is left marked as initialised, so
  the next call returns this region without memory.\<close>

theorem region_get_fresh:
  assumes "wf_memory s" "0 < memory_pagesize s" "\<forall>p. mprotect p" and size: "n + memory_pagesize s \<le> 2 ^ 64"
    and "obj_mem s a = Some ob" "inited ob = 0" "body ob = Region_Body zero_region"
    and "a \<notin> set (memory_regions s)" "\<forall>h. memalign (round_up (memory_pagesize s) n) = Some h \<longrightarrow> h mod memory_pagesize s = 0"
  shows "case memalign (round_up (memory_pagesize s) n) of
      Some h \<Rightarrow> \<exists>s' r. edsm_memory_region_get mprotect memalign n a s = Inr (Some a, s') \<and> region_at s' a = Inr r
        \<and> head r = h \<and> n \<le> region_size r \<and> region_size r < n + memory_pagesize s
        \<and> region_size r mod memory_pagesize s = 0
        \<and> contents r = replicate (region_size r) 0 \<and> (\<forall>p. \<not> writable r p) \<and> twins r = []
        \<and> memory_regions s' = a # memory_regions s \<and> wf_memory s'
    | None \<Rightarrow> \<exists>s'. edsm_memory_region_get mprotect memalign n a s = Inr (None, s')
        \<and> memory_regions s' = memory_regions s
        \<and> edsm_memory_region_get mprotect memalign n a s' = Inr (Some a, s')"
proof -
  let ?ps = "memory_pagesize s" let ?n = "round_up ?ps n"
  let ?s1 = "put_obj s a (ob\<lparr>inited := 1\<rparr>)"
  have ti: "edsm_dobj_test_and_init a s = Inr (0, ?s1)"
    using assms(5,6) by (simp add: edsm_dobj_test_and_init_def obj_at_def)
  have r1: "region_at ?s1 a = Inr zero_region"
    using assms(7) by (simp add: region_at_def obj_at_def put_obj_def)
  have ps1: "memory_pagesize ?s1 = ?ps" "memory_regions ?s1 = memory_regions s" by (simp_all add: put_obj_def)
  have other: "region_at (put_region ?s1 a r) b = region_at s b" if "b \<noteq> a" for b r
    using that by (simp add: region_at_put [OF r1]) (simp add: region_at_def obj_at_def put_obj_def)
  note n = round_up_ok(1-3) [OF assms(2) size]
  show ?thesis
  proof (cases "memalign ?n")
    case None
    let ?s2 = "put_region ?s1 a (zero_region\<lparr>twins := []\<rparr>)"
    have e: "edsm_memory_region_get mprotect memalign n a s = Inr (None, ?s2)"
      using None by (simp add: edsm_memory_region_get_def ti r1 ps1)
    obtain ob2 where "obj_mem ?s2 a = Some ob2" "inited ob2 = 1"
      by (simp add: put_region_def put_obj_def)
    from region_get_again [OF this, of mprotect memalign n] e None ps1(2) show ?thesis by simp
  next
    case (Some h)
    let ?r = "zero_region\<lparr>twins := [], head := h, contents := replicate ?n 0, region_size := ?n, writable := (\<lambda>_. False)\<rparr>"
    let ?s2 = "(put_region ?s1 a ?r)\<lparr>memory_regions := a # memory_regions s\<rparr>"
    have e: "edsm_memory_region_get mprotect memalign n a s = Inr (Some a, ?s2)"
      using Some assms(3) by (simp add: edsm_memory_region_get_def ti r1 ps1 Let_def region_protect_def)
    have ra: "region_at ?s2 b = region_at (put_region ?s1 a ?r) b" for b
      by (simp add: region_at_def obj_at_def)
    have wf: "wf_region ?ps ?r"
      using assms(2,9) n(3) Some by (simp add: wf_region_def)
    have ps2: "memory_pagesize ?s2 = ?ps" "memory_regions ?s2 = a # memory_regions s" by (simp_all add: ps1)
    have ra2: "region_at ?s2 a = Inr ?r" "b \<in> set (memory_regions s) \<Longrightarrow> region_at ?s2 b = region_at s b" for b
      using other [of b ?r] assms(8) by (auto simp: ra region_at_put [OF r1])
    have "wf_memory ?s2"
      unfolding wf_memory_def ps2 list.pred_inject(2) ra2(1)
      using assms(1) wf by (simp add: wf_memory_def list_all_iff ra2(2))
    with e n Some wf show ?thesis by (intro option.case_eq_if [THEN iffD2]) (auto simp: ra region_at_put [OF r1])
  qed
qed

text \<open>A node with one region of two pages of four bytes, for the concrete instances.\<close>

definition sample_region :: region_fields where
  "sample_region = \<lparr>head = 8, region_size = 8, contents = [0, 1, 2, 3, 4, 5, 6, 7], writable = (\<lambda>_. False),
     twins = [], lamport_timestamp = 0\<rparr>"

definition memory_node :: "(nat, int \<Rightarrow> byte list, nat) memory" where
  "memory_node = dobjs.extend (node_with_object\<lparr>obj_mem := [0 \<mapsto> sample_object\<lparr>body := Region_Body sample_region\<rparr>]\<rparr>)
     \<lparr>memory_regions = [0], memory_pagesize = 4\<rparr>"

lemma memory_node_ok: "memory_regions memory_node = [0]" "memory_pagesize memory_node = 4"
  "obj_mem memory_node = [0 \<mapsto> sample_object\<lparr>body := Region_Body sample_region\<rparr>]"
  "region_at memory_node 0 = Inr sample_region"
  by (simp_all add: memory_node_def dobjs.extend_def region_at_def obj_at_def)

lemma sample_region_ok: "wf_region 4 sample_region"
  by (simp add: wf_region_def sample_region_def)

lemma memory_node_wf: "wf_memory memory_node"
  by (simp add: wf_memory_def memory_node_ok sample_region_ok)

lemma store_captured_witness:
  "\<exists>r'. store_byte good_runtime (\<lambda>_. True) 13 9 memory_node = Inr (put_region memory_node 0 r')
     \<and> contents r' = [0, 1, 2, 3, 4, 9, 6, 7] \<and> committed 4 r' 5 = 5"
proof -
  have "find_region_for_addr 13 memory_node = Inr (Some 0)"
    by (simp add: find_region_for_addr_def memory_node_ok sample_region_def)
  from store_captured [OF enough_memory_good _ memory_node_wf this memory_node_ok(4), where v = 9 and mprotect = "\<lambda>_. True"]
  obtain r' where "store_byte good_runtime (\<lambda>_. True) 13 9 memory_node = Inr (put_region memory_node 0 r')"
    "contents r' = (contents sample_region)[13 - head sample_region := 9]"
    "\<forall>i < region_size sample_region. committed 4 r' i = committed 4 sample_region i"
    by (auto simp: memory_node_ok)
  moreover have "(contents sample_region)[13 - head sample_region := 9] = [0, 1, 2, 3, 4, 9, 6, 7]"
    "committed 4 sample_region 5 = 5" "5 < region_size sample_region" by code_simp+
  ultimately show ?thesis by (intro exI [of _ r']) simp
qed

lemma region_get_fresh_witness:
  "\<exists>s' r. edsm_memory_region_get (\<lambda>_. True) (\<lambda>_. Some 16) 5 0
         (put_obj (memory_node\<lparr>memory_regions := []\<rparr>) 0 (sample_object\<lparr>inited := 0, body := Region_Body zero_region\<rparr>))
       = Inr (Some 0, s') \<and> region_at s' 0 = Inr r \<and> head r = 16 \<and> contents r = [0, 0, 0, 0, 0, 0, 0, 0]"
proof -
  let ?s = "put_obj (memory_node\<lparr>memory_regions := []\<rparr>) 0 (sample_object\<lparr>inited := 0, body := Region_Body zero_region\<rparr>)"
  have s: "wf_memory ?s" "memory_pagesize ?s = 4" "memory_regions ?s = []"
    "obj_mem ?s 0 = Some (sample_object\<lparr>inited := 0, body := Region_Body zero_region\<rparr>)"
    by (simp_all add: put_obj_def wf_memory_def memory_node_ok)
  have r: "round_up 4 5 = 8" by (simp add: round_up_def Let_def)
  from region_get_fresh [OF s(1) _ _ _ s(4), where mprotect = "\<lambda>_. True" and memalign = "\<lambda>_. Some 16" and n = 5]
  obtain s' r' where r': "edsm_memory_region_get (\<lambda>_. True) (\<lambda>_. Some 16) 5 0 ?s = Inr (Some 0, s')"
    "region_at s' 0 = Inr r'" "head r' = 16" "contents r' = replicate (region_size r') 0"
    "5 \<le> region_size r'" "region_size r' < 9" "region_size r' mod 4 = 0"
    by (auto simp: s(2,3) r)
  from r'(5-7) have "region_size r' = 8" by presburger
  with r' have "contents r' = replicate 8 0" by simp
  then have "contents r' = [0, 0, 0, 0, 0, 0, 0, 0]" by (simp add: numeral_eq_Suc)
  with r'(1-3) show ?thesis by blast
qed

end
