(* ===== verification/Memory_Dobj.thy ===== *)
theory Memory_Dobj
  imports Memory
begin

text \<open>
  Propagation of changes, \<^verbatim>\<open>src/src/memory/memory_dobj.c\<close>: at the end of a transaction every
  twinned page is compared with its twin and the runs of bytes that differ are sent to the holders
  of the region; a received message is applied to the pages it names.
\<close>

section \<open>Stores into a message\<close>

text \<open>A store through \<^verbatim>\<open>msg->data + offset\<close>.\<close>

definition poke :: "edsm_message \<Rightarrow> nat \<Rightarrow> byte list \<Rightarrow> edsm_message res" where
  "poke msg off bs =
     res_bind (memcpy (buffer msg) (data msg + int off) (cells bs) 0 (length bs)) (\<lambda>buf.
     Inr (msg\<lparr>buffer := buf\<rparr>))"

section \<open>Lamport timestamps\<close>

definition incrementLamportTimestamp :: "region_fields \<Rightarrow> u32 \<times> region_fields" where
  "incrementLamportTimestamp region =
     (let ts = lamport_timestamp region + 1 in (ts, region\<lparr>lamport_timestamp := ts\<rparr>))"

definition setLamportTimestamp :: "region_fields \<Rightarrow> u32 \<Rightarrow> region_fields" where
  "setLamportTimestamp region ts =
     (if ts > lamport_timestamp region then region\<lparr>lamport_timestamp := ts\<rparr> else region)"

section \<open>Computing a diff\<close>

text \<open>
  The loop over the bytes of a page, from byte \<open>i\<close> on: the page and its twin from there, the length
  of the run so far, where in the message its length is kept, and the number of runs.
\<close>

fun diff_bytes ::
    "runtime \<Rightarrow> nat \<Rightarrow> byte list \<Rightarrow> byte list \<Rightarrow> u16 \<Rightarrow> nat \<Rightarrow> u16 \<Rightarrow> edsm_message
       \<Rightarrow> (u16 \<times> edsm_message) res" where
  "diff_bytes rt i (r # rs) (c # cs) contiguous_bytes continuous_bytes_offset num_page_sections msg =
     (if r \<noteq> c then
        res_bind
          (if contiguous_bytes \<noteq> 0
           then Inr (contiguous_bytes + 1, continuous_bytes_offset, num_page_sections, msg)
           else
             res_bind (write_u16 rt msg (word_of_nat i)) (\<lambda>(_, m1).
             res_bind (write_u16 rt m1 contiguous_bytes) (\<lambda>(_, m2).
             Inr (1, unat (data_size m1), num_page_sections + 1, m2))))
          (\<lambda>(cb, off, n, m).
        res_bind (poke m off (bytes_of_u16 cb)) (\<lambda>m'.
        res_bind (edsm_message_write rt m' (cells [r]) 1) (\<lambda>(_, m'').
        diff_bytes rt (Suc i) rs cs cb off n m'')))
      else diff_bytes rt (Suc i) rs cs 0 continuous_bytes_offset num_page_sections msg)"
| "diff_bytes rt i _ _ contiguous_bytes continuous_bytes_offset num_page_sections msg =
     Inr (num_page_sections, msg)"

text \<open>The loop over the twins: each one is compared, unlinked and freed.\<close>

fun diff_twins ::
    "runtime \<Rightarrow> (nat \<Rightarrow> bool) \<Rightarrow> nat \<Rightarrow> memory_page_twin list \<Rightarrow> u32 \<Rightarrow> region_fields \<Rightarrow> edsm_message
       \<Rightarrow> (u32 \<times> region_fields \<times> edsm_message) res" where
  "diff_twins rt mprotect ps [] num_diff_pages region msg = Inr (num_diff_pages, region, msg)"
| "diff_twins rt mprotect ps (twin # ts) num_diff_pages region msg =
     (let page_offset_from_region = word_of_int (int (original_page_head twin) - int (head region)) in
      res_bind (write_u32 rt msg page_offset_from_region) (\<lambda>(_, m1).
      let num_sections_offset = unat (data_size m1) in
      res_bind (write_u16 rt m1 0) (\<lambda>(_, m2).
      res_bind (check AssertionFailed (mprotect (original_page_head twin))) (\<lambda>_.
      res_bind (page_at ps region (original_page_head twin)) (\<lambda>page.
      res_bind (check OutOfBounds (length (twin_data twin) = ps)) (\<lambda>_.
      res_bind (diff_bytes rt 0 page (twin_data twin) 0 0 0 m2) (\<lambda>(num_page_sections, m3).
      res_bind (poke m3 num_sections_offset (bytes_of_u16 num_page_sections)) (\<lambda>m4.
      diff_twins rt mprotect ps ts (num_diff_pages + 1)
        (region\<lparr>writable := (writable region)(original_page_head twin := False),
           twins := remove1 twin (twins region)\<rparr>) m4))))))))"

definition diff_region ::
    "runtime \<Rightarrow> (nat \<Rightarrow> bool) \<Rightarrow> nat \<Rightarrow> region_fields \<Rightarrow> edsm_message
       \<Rightarrow> (u32 \<times> region_fields \<times> edsm_message) res" where
  "diff_region rt mprotect ps region0 msg =
     (case incrementLamportTimestamp region0 of (next_lamport, region) \<Rightarrow>
      res_bind (write_u32 rt msg next_lamport) (\<lambda>(_, m1).
      let num_pages_offset = unat (data_size m1) in
      res_bind (write_u32 rt m1 0) (\<lambda>(_, m2).
      res_bind (diff_twins rt mprotect ps (twins region) 0 region m2)
        (\<lambda>(num_diff_pages, region', m3).
      res_bind (poke m3 num_pages_offset (bytes_of_u32 num_diff_pages)) (\<lambda>m4.
      Inr (num_diff_pages, region', m4))))))"

text \<open>
  The end of a transaction, for one region or, with \<^term>\<open>None\<close>, for all of them. The result of
  \<^verbatim>\<open>diff_region\<close>, the number of pages, is an \<^verbatim>\<open>int\<close>.
\<close>

fun tx_end_regions ::
    "runtime \<Rightarrow> 'w os \<Rightarrow> ('h, 'w, ('k, 'z memory_ext) dobjs_ext) call \<Rightarrow> (nat \<Rightarrow> bool) \<Rightarrow> nat list
       \<Rightarrow> int \<Rightarrow> ('h, 'w, 'k, 'z) memory_scheme \<Rightarrow> (int \<times> ('h, 'w, 'k, 'z) memory_scheme) res" where
  "tx_end_regions rt os call mprotect [] rc s = Inr (rc, s)"
| "tx_end_regions rt os call mprotect (a # as) rc s =
     res_bind (new_message rt 300) (\<lambda>m.
     res_bind (region_at s a) (\<lambda>r.
     res_bind (diff_region rt mprotect (memory_pagesize s) r m) (\<lambda>(num_sections, r', diff).
     let s1 = put_region s a r' in
     if 0 <s num_sections then
       res_bind (edsm_dobj_send rt os call a (Some diff) s1) (\<lambda>(rc', s2).
       tx_end_regions rt os call mprotect as (if rc' = FAILURE then FAILURE else rc) s2)
     else tx_end_regions rt os call mprotect as rc s1)))"

definition edsm_memory_tx_end ::
    "runtime \<Rightarrow> 'w os \<Rightarrow> ('h, 'w, ('k, 'z memory_ext) dobjs_ext) call \<Rightarrow> (nat \<Rightarrow> bool) \<Rightarrow> nat option
       \<Rightarrow> ('h, 'w, 'k, 'z) memory_scheme \<Rightarrow> (int \<times> ('h, 'w, 'k, 'z) memory_scheme) res" where
  "edsm_memory_tx_end rt os call mprotect region s =
     (case region of
        None \<Rightarrow> tx_end_regions rt os call mprotect (memory_regions s) SUCCESS s
      | Some a \<Rightarrow>
          res_bind (new_message rt 300) (\<lambda>m.
          res_bind (region_at s a) (\<lambda>r.
          res_bind (diff_region rt mprotect (memory_pagesize s) r m) (\<lambda>(_, r', diff).
          res_bind (edsm_dobj_send rt os call a (Some diff) (put_region s a r')) (\<lambda>(rc', s1).
          Inr (if rc' = FAILURE then FAILURE else SUCCESS, s1))))))"

section \<open>Applying a diff\<close>

text \<open>The sections of a page that has no twin, stored into the shadow page.\<close>

fun apply_shadow :: "nat \<Rightarrow> cell list \<Rightarrow> edsm_message \<Rightarrow> (cell list \<times> edsm_message) res" where
  "apply_shadow 0 shadow_page msg = Inr (shadow_page, msg)"
| "apply_shadow (Suc n) shadow_page msg =
     res_bind (read_u16 msg) (\<lambda>(_, o', m1).
     res_bind (read_u16 m1) (\<lambda>(_, c', m2).
     res_bind (determinate o') (\<lambda>section_offset_from_page.
     res_bind (determinate c') (\<lambda>contiguous_bytes.
     res_bind (edsm_message_read m2 shadow_page (uint section_offset_from_page) (ucast contiguous_bytes))
       (\<lambda>(_, shadow', m3).
     apply_shadow n shadow' m3)))))"

text \<open>The sections of a page that has a twin: into the twin, and from there into the region.\<close>

fun apply_twinned ::
    "nat \<Rightarrow> nat \<Rightarrow> cell list \<Rightarrow> cell list \<Rightarrow> edsm_message
       \<Rightarrow> (cell list \<times> cell list \<times> edsm_message) res" where
  "apply_twinned ps 0 twin page msg = Inr (twin, page, msg)"
| "apply_twinned ps (Suc n) twin page msg =
     res_bind (read_u16 msg) (\<lambda>(_, o', m1).
     res_bind (read_u16 m1) (\<lambda>(_, c', m2).
     res_bind (determinate o') (\<lambda>section_offset_from_page.
     res_bind (determinate c') (\<lambda>contiguous_bytes.
     res_bind (check AssertionFailed (unat section_offset_from_page + unat contiguous_bytes \<le> ps)) (\<lambda>_.
     res_bind (edsm_message_read m2 twin (uint section_offset_from_page) (ucast contiguous_bytes))
       (\<lambda>(_, twin', m3).
     res_bind (memcpy page (uint section_offset_from_page) twin' (uint section_offset_from_page)
         (unat contiguous_bytes)) (\<lambda>page'.
     apply_twinned ps n twin' page' m3)))))))"

definition update_twin :: "region_fields \<Rightarrow> nat \<Rightarrow> byte list \<Rightarrow> region_fields" where
  "update_twin r addr bs =
     r\<lparr>twins := map (\<lambda>t. if original_page_head t = addr then t\<lparr>twin_data := bs\<rparr> else t) (twins r)\<rparr>"

text \<open>
  One page of the message. The shadow page that is mapped, made read-only and moved over the page of the
  region is represented by its bytes. The calls of \<^verbatim>\<open>mprotect\<close>, \<^verbatim>\<open>mmap\<close> and
  \<^verbatim>\<open>mremap\<close> for one page stand or fall together: \<open>mprotect\<close> tells of an address whether they all
  succeed.
\<close>

definition apply_page ::
    "(nat \<Rightarrow> bool) \<Rightarrow> nat \<Rightarrow> region_fields \<Rightarrow> edsm_message \<Rightarrow> (region_fields \<times> edsm_message) res" where
  "apply_page mprotect ps region msg =
     res_bind (read_u32 msg) (\<lambda>(_, po, m1).
     res_bind (read_u16 m1) (\<lambda>(_, ns, m2).
     res_bind (determinate po) (\<lambda>page_offset.
     res_bind (determinate ns) (\<lambda>num_page_sections.
     let change_destination = head region + unat page_offset in
     res_bind (check AssertionFailed (change_destination mod ps = 0)) (\<lambda>_.
     if 0 < num_page_sections then
       (case find_twin region change_destination of
          None \<Rightarrow>
            res_bind (check AssertionFailed (mprotect change_destination)) (\<lambda>_.
            res_bind (page_at ps region change_destination) (\<lambda>page.
            res_bind (apply_shadow (unat num_page_sections) (cells page) m2) (\<lambda>(shadow, m3).
            res_bind (determinate (bytes_of shadow)) (\<lambda>bs.
            Inr (put_page (region\<lparr>writable := (writable region)(change_destination := False)\<rparr>)
                   change_destination bs, m3)))))
        | Some twin \<Rightarrow>
            res_bind (page_at ps region change_destination) (\<lambda>page.
            res_bind (apply_twinned ps (unat num_page_sections) (cells (twin_data twin)) (cells page) m2)
              (\<lambda>(twin', page', m3).
            res_bind (determinate (bytes_of twin')) (\<lambda>tb.
            res_bind (determinate (bytes_of page')) (\<lambda>pb.
            Inr (put_page (update_twin region change_destination tb) change_destination pb, m3))))))
     else Inr (region, m2))))))"

fun apply_pages ::
    "(nat \<Rightarrow> bool) \<Rightarrow> nat \<Rightarrow> nat \<Rightarrow> region_fields \<Rightarrow> edsm_message \<Rightarrow> (region_fields \<times> edsm_message) res" where
  "apply_pages mprotect ps 0 region msg = Inr (region, msg)"
| "apply_pages mprotect ps (Suc n) region msg =
     res_bind (apply_page mprotect ps region msg) (\<lambda>(region', msg').
     apply_pages mprotect ps n region' msg')"

definition memory_receive ::
    "(nat \<Rightarrow> bool) \<Rightarrow> nat \<Rightarrow> region_fields \<Rightarrow> edsm_message \<Rightarrow> region_fields res" where
  "memory_receive mprotect ps region msg =
     res_bind (read_u32 msg) (\<lambda>(_, ts, m1).
     res_bind (determinate ts) (\<lambda>received_timestamp.
     let region1 = setLamportTimestamp region received_timestamp in
     res_bind (read_u32 m1) (\<lambda>(_, np, m2).
     res_bind (determinate np) (\<lambda>num_diff_pages.
     res_bind (int_loop (unat num_diff_pages) (\<lambda>n. apply_pages mprotect ps n region1 m2)) (\<lambda>(region2, _).
     Inr region2)))))"

definition edsm_memory_handle_message ::
    "(nat \<Rightarrow> bool) \<Rightarrow> nat \<Rightarrow> u32 \<Rightarrow> edsm_message option \<Rightarrow> ('h, 'w, 'k, 'z) memory_scheme
       \<Rightarrow> (int \<times> ('h, 'w, 'k, 'z) memory_scheme) res" where
  "edsm_memory_handle_message mprotect a peer msg s =
     res_bind (non_null msg) (\<lambda>m.
     res_bind (region_at s a) (\<lambda>r.
     res_bind (memory_receive mprotect (memory_pagesize s) r m) (\<lambda>r'.
     Inr (SUCCESS, put_region s a r'))))"

section \<open>Reading and writing 16-bit integers and stores into a message\<close>

lemma holds_poke:
  assumes "holds m (pre @ old @ post)" "length old = length new"
  shows "\<exists>m'. poke m (length pre) new = Inr m' \<and> holds m' (pre @ new @ post) \<and> used m' = used m
     \<and> data_size m' = data_size m"
proof -
  have wf: "wf_message m" and c: "content m = cells (pre @ old @ post)" using assms(1) by (auto simp: holds_def)
  let ?h = "unat (head_size m)"
  have len: "unat (data_size m) = length pre + length old + length post"
    using length_content [OF wf] c by simp
  have bl: "?h + unat (data_size m) \<le> length (buffer m)" using wf by (auto simp: wf_message_def)
  have d: "data m + int (length pre) = int (?h + length pre)" using wf by (simp add: wf_message_def)
  let ?b = "take (?h + length pre) (buffer m) @ cells new @ drop (?h + length pre + length new) (buffer m)"
  have mc: "memcpy (buffer m) (data m + int (length pre)) (cells new) 0 (length new) = Inr ?b"
    unfolding d using bl len assms(2) by (subst memcpy_ok) (simp_all del: of_nat_unat of_nat_add)
  let ?m = "m\<lparr>buffer := ?b\<rparr>"
  have lb: "length ?b = length (buffer m)" using bl len assms(2) by simp
  have "content ?m = take (unat (data_size m)) (drop ?h ?b)" by (simp add: content_def)
  also have "drop ?h ?b = take (length pre) (drop ?h (buffer m)) @ cells new @ drop (?h + length pre + length new) (buffer m)"
    using bl len by (simp add: drop_take)
  also have "take (length pre) (drop ?h (buffer m)) = cells pre"
  proof -
    have "take (length pre) (content m) = cells pre" by (simp add: c)
    moreover have "take (length pre) (content m) = take (length pre) (drop ?h (buffer m))"
      using len by (simp add: content_def min_def)
    ultimately show ?thesis by simp
  qed
  also have "take (unat (data_size m)) (cells pre @ cells new @ drop (?h + length pre + length new) (buffer m))
      = cells pre @ cells new @ take (length post) (drop (?h + length pre + length new) (buffer m))"
    using len assms(2) by simp
  also have "take (length post) (drop (?h + length pre + length new) (buffer m)) = cells post"
  proof -
    have "drop (length pre + length old) (content m) = cells post" by (simp add: c)
    moreover have "drop (length pre + length old) (content m)
        = take (length post) (drop (?h + length pre + length new) (buffer m))"
      using len assms(2) by (simp add: content_def drop_take ac_simps)
    ultimately show ?thesis by simp
  qed
  finally have "content ?m = cells (pre @ new @ post)" by simp
  moreover have "wf_message ?m" using wf lb by (simp add: wf_message_def)
  ultimately show ?thesis using mc by (intro exI [of _ ?m]) (simp add: poke_def holds_def used_def)
qed

lemma holds_data_size: "holds m bs \<Longrightarrow> unat (data_size m) = length bs"
  using length_content by (fastforce simp: holds_def)

section \<open>The sections of a page\<close>

type_synonym diff_section = "nat \<times> byte list"

text \<open>
  The maximal runs of bytes that differ, from byte \<open>i\<close> on, the run that is open at \<open>i\<close> first.
\<close>

fun sections_from ::  "nat \<Rightarrow> diff_section option \<Rightarrow> byte list \<Rightarrow> byte list \<Rightarrow> diff_section list" where
  "sections_from i op (r # rs) (c # cs) =
     (if r \<noteq> c
      then sections_from (Suc i) (Some (case op of None \<Rightarrow> (i, [r]) | Some (s, b) \<Rightarrow> (s, b @ [r]))) rs cs
      else (case op of None \<Rightarrow> [] | Some sec \<Rightarrow> [sec]) @ sections_from (Suc i) None rs cs)"
| "sections_from i op _ _ = (case op of None \<Rightarrow> [] | Some sec \<Rightarrow> [sec])"

definition sections :: "byte list \<Rightarrow> byte list \<Rightarrow> diff_section list" where
  "sections page twin = sections_from 0 None page twin"

definition enc_section :: "diff_section \<Rightarrow> byte list" where
  "enc_section sec = bytes_of_u16 (word_of_nat (fst sec)) @ bytes_of_u16 (word_of_nat (length (snd sec))) @ snd sec"

definition enc_sections :: "diff_section list \<Rightarrow> byte list" where
  "enc_sections secs = concat (map enc_section secs)"

definition is_open :: "diff_section option \<Rightarrow> nat" where
  "is_open op = (case op of None \<Rightarrow> 0 | Some _ \<Rightarrow> 1)"

definition enc_open :: "diff_section option \<Rightarrow> byte list" where
  "enc_open op = (case op of None \<Rightarrow> [] | Some sec \<Rightarrow> enc_section sec)"

lemma unat_u16_of_nat: "n < 65536 \<Longrightarrow> unat (word_of_nat n :: u16) = n"
  by (simp add: unat_of_nat)

lemma diff_bytes_ok:
  assumes rt: "enough_memory rt"
  shows "length rs = length cs \<Longrightarrow> i + length rs < 65536 \<Longrightarrow>
     (case op of None \<Rightarrow> cb = 0 | Some (s, b) \<Rightarrow> b \<noteq> [] \<and> s + length b = i \<and> cb = word_of_nat (length b)
        \<and> off = length pre + 2) \<Longrightarrow>
     holds m (pre @ enc_open op) \<Longrightarrow> 3 * (used m + 5 * length rs) < 2 ^ 31 \<Longrightarrow>
     \<exists>m'. diff_bytes rt i rs cs cb off n m
         = Inr (n + word_of_nat (length (sections_from i op rs cs) - is_open op), m')
       \<and> holds m' (pre @ enc_sections (sections_from i op rs cs)) \<and> used m' \<le> used m + 5 * length rs
       \<and> is_open op \<le> length (sections_from i op rs cs)"
proof (induction rs arbitrary: cs i op cb off pre n m)
  case Nil
  then show ?case
    by (cases op) (auto simp: enc_open_def enc_sections_def is_open_def)
next
  case (Cons r rs)
  then obtain c cs' where cs: "cs = c # cs'" "length rs = length cs'" by (cases cs) auto
  show ?case
  proof (cases "r = c")
    case True
    let ?secs = "sections_from (Suc i) None rs cs'"
    from Cons.IH [OF cs(2), where i = "Suc i" and op = None and cb = 0 and off = off and pre = "pre @ enc_open op"
        and m = m and n = n] Cons.prems obtain m' where
      "diff_bytes rt (Suc i) rs cs' 0 off n m = Inr (n + word_of_nat (length ?secs), m')"
      "holds m' ((pre @ enc_open op) @ enc_sections ?secs)" "used m' \<le> used m + 5 * length rs"
      by (auto simp: enc_open_def is_open_def)
    with True cs show ?thesis
      by (cases op) (auto simp: enc_open_def enc_sections_def is_open_def)
  next
    case False
    have b16: "Suc i < 65536" using Cons.prems(2) by simp
    define s where "s = (case op of None \<Rightarrow> i | Some (s, b) \<Rightarrow> s)"
    define b where "b = (case op of None \<Rightarrow> [] | Some (s, b) \<Rightarrow> b)"
    have sb: "s + length b = i"
      using Cons.prems(3) by (auto simp: s_def b_def split: option.splits)
    define header where "header = (if cb \<noteq> 0 then Inr (cb + 1, off, n, m)
           else res_bind (write_u16 rt m (word_of_nat i)) (\<lambda>(_, m1).
             res_bind (write_u16 rt m1 cb) (\<lambda>(_, m2).
             Inr (1, unat (data_size m1), n + 1, m2))))"
    obtain z m2 where h: "header = Inr (word_of_nat (Suc (length b)), length (pre @ bytes_of_u16 (word_of_nat s)),
          n + 1 - word_of_nat (is_open op), m2)"
      and m2: "holds m2 ((pre @ bytes_of_u16 (word_of_nat s)) @ bytes_of_u16 z @ b)" "used m2 \<le> used m + 4"
    proof (cases op)
      case None
      with Cons.prems have hm: "holds m pre" "cb = 0" by (simp_all add: enc_open_def)
      have u: "3 * (used m + 2) < 2 ^ 31" using Cons.prems(5) by simp
      from rt hm(1) u obtain m1 where m1: "write_u16 rt m (word_of_nat i) = Inr (SUCCESS, m1)"
          "holds m1 (pre @ bytes_of_u16 (word_of_nat i))" "used m1 = used m + 2" by (rule holds_write_u16)
      have u1: "3 * (used m1 + 2) < 2 ^ 31" using Cons.prems(5) m1(3) by simp
      from rt m1(2) u1 obtain m2 where m2: "write_u16 rt m1 0 = Inr (SUCCESS, m2)"
          "holds m2 ((pre @ bytes_of_u16 (word_of_nat i)) @ bytes_of_u16 0)" "used m2 = used m1 + 2"
        by (rule holds_write_u16)
      show ?thesis
        by (rule that [of m2 0])
          (use None hm(2) m1 m2 holds_data_size [OF m1(2)] in \<open>simp_all add: header_def s_def b_def is_open_def\<close>)
    next
      case (Some x)
      then obtain s' b' where x: "op = Some (s', b')" by (cases x) auto
      with Cons.prems(3) have p: "b' \<noteq> []" "s' + length b' = i" "cb = word_of_nat (length b')" "off = length pre + 2"
        by auto
      have "length b' < 65536" using p(2) b16 by simp
      then have "unat cb = length b'" using p(3) by (simp add: unat_u16_of_nat)
      then have "cb \<noteq> 0" using p(1) by auto
      then show ?thesis
        using x p Cons.prems(4)
        by (intro that [of m "word_of_nat (length b')"])
          (simp_all add: header_def s_def b_def is_open_def enc_open_def enc_section_def)
    qed
    have "length (bytes_of_u16 z) = length (bytes_of_u16 (word_of_nat (Suc (length b))))" by simp
    from holds_poke [OF m2(1) this] obtain m3 where
      m3: "poke m2 (length (pre @ bytes_of_u16 (word_of_nat s))) (bytes_of_u16 (word_of_nat (Suc (length b)))) = Inr m3"
        "holds m3 ((pre @ bytes_of_u16 (word_of_nat s)) @ bytes_of_u16 (word_of_nat (Suc (length b))) @ b)"
        "used m3 = used m2" by blast
    have u3: "3 * (used m3 + length [r]) < 2 ^ 31" using Cons.prems(5) m2(2) m3(3) by simp
    from rt m3(2) u3 obtain m4 where m4: "edsm_message_write rt m3 (cells [r] @ []) (word_of_nat (length [r])) = Inr (SUCCESS, m4)"
        "holds m4 (((pre @ bytes_of_u16 (word_of_nat s)) @ bytes_of_u16 (word_of_nat (Suc (length b))) @ b) @ [r])"
        "used m4 = used m3 + length [r]" by (rule holds_write)
    let ?op = "Some (s, b @ [r])" let ?secs = "sections_from (Suc i) ?op rs cs'"
    have e: "sections_from i op (r # rs) cs = ?secs"
      using False cs by (cases op) (auto simp: s_def b_def)
    have i1: "Suc i + length rs < 65536" using Cons.prems(2) by simp
    have i3: "holds m4 (pre @ enc_open ?op)" using m4(2) by (simp add: enc_open_def enc_section_def)
    have i4: "3 * (used m4 + 5 * length rs) < 2 ^ 31" using Cons.prems(5) m2(2) m3(3) m4(3) by simp
    note ih = Cons.IH [OF cs(2), where i = "Suc i" and op = ?op and cb = "word_of_nat (Suc (length b))"
        and off = "length (pre @ bytes_of_u16 (word_of_nat s))" and pre = pre and m = m4
        and n = "n + 1 - word_of_nat (is_open op)", OF i1 _ i3 i4]
    have "\<exists>m'. diff_bytes rt (Suc i) rs cs' (word_of_nat (Suc (length b))) (length (pre @ bytes_of_u16 (word_of_nat s)))
            (n + 1 - word_of_nat (is_open op)) m4
         = Inr (n + 1 - word_of_nat (is_open op) + word_of_nat (length ?secs - is_open ?op), m')
       \<and> holds m' (pre @ enc_sections ?secs) \<and> used m' \<le> used m4 + 5 * length rs
       \<and> is_open ?op \<le> length ?secs"
      by (rule ih) (use sb in simp)
    then obtain m' where
      m': "diff_bytes rt (Suc i) rs cs' (word_of_nat (Suc (length b))) (length (pre @ bytes_of_u16 (word_of_nat s)))
            (n + 1 - word_of_nat (is_open op)) m4
         = Inr (n + 1 - word_of_nat (is_open op) + word_of_nat (length ?secs - 1), m')"
       "holds m' (pre @ enc_sections ?secs)" "used m' \<le> used m4 + 5 * length rs" "1 \<le> length ?secs"
      by (auto simp: is_open_def)
    have "diff_bytes rt i (r # rs) cs cb off n m = res_bind header (\<lambda>(cb, off, n, m).
        res_bind (poke m off (bytes_of_u16 cb)) (\<lambda>m'.
        res_bind (edsm_message_write rt m' (cells [r]) 1) (\<lambda>(_, m'').
        diff_bytes rt (Suc i) rs cs' cb off n m'')))"
      using False cs by (simp add: header_def)
    also have "\<dots> = Inr (n + 1 - word_of_nat (is_open op) + word_of_nat (length ?secs - 1), m')"
      using m3(1) m4(1) m'(1) by (simp add: h)
    also have "n + 1 - word_of_nat (is_open op) + word_of_nat (length ?secs - 1)
        = n + word_of_nat (length ?secs - is_open op)"
      using m'(4) by (cases op) (simp_all add: is_open_def of_nat_diff)
    finally show ?thesis
      using e m' m2(2) m3(3) m4(3) by (cases op) (auto simp: is_open_def)
  qed
qed

section \<open>The diff of a region\<close>

text \<open>A page of a diff: its offset in the region and its sections.\<close>

type_synonym page_diff = "nat \<times> diff_section list"

definition enc_page :: "page_diff \<Rightarrow> byte list" where
  "enc_page pd = bytes_of_u32 (word_of_nat (fst pd)) @ bytes_of_u16 (word_of_nat (length (snd pd)))
     @ enc_sections (snd pd)"

definition enc_diff :: "u32 \<Rightarrow> page_diff list \<Rightarrow> byte list" where
  "enc_diff ts pds = bytes_of_u32 ts @ bytes_of_u32 (word_of_nat (length pds)) @ concat (map enc_page pds)"

definition twin_diff :: "nat \<Rightarrow> region_fields \<Rightarrow> memory_page_twin \<Rightarrow> page_diff" where
  "twin_diff ps r t = (original_page_head t - head r, sections (page_of ps r (original_page_head t)) (twin_data t))"

lemma sections_length_bound:
  "length rs = length cs \<Longrightarrow> length (sections_from i op rs cs) \<le> length rs + is_open op"
proof (induction i op rs cs rule: sections_from.induct)
  case (1 i op r rs c cs)
  then show ?case by (cases op) (auto simp: is_open_def)
qed (auto simp: is_open_def split: option.splits)

lemma diff_twins_ok:
  assumes rt: "enough_memory rt" and mp: "\<forall>a. mprotect a" and ps: "ps < 65536"
  shows "wf_region ps r \<Longrightarrow> twins r = ts \<Longrightarrow> region_size r < 2 ^ 32 \<Longrightarrow> holds m bs \<Longrightarrow>
     3 * (used m + length ts * (6 + 5 * ps)) < 2 ^ 31 \<Longrightarrow>
     \<exists>r' m'. diff_twins rt mprotect ps ts n r m = Inr (n + word_of_nat (length ts), r', m')
       \<and> holds m' (bs @ concat (map enc_page (map (twin_diff ps r) ts))) \<and> wf_region ps r'
       \<and> r' = r\<lparr>writable := writable r', twins := []\<rparr>"
proof (induction ts arbitrary: r m bs n)
  case Nil
  then show ?case by (intro exI [of _ r] exI [of _ m]) simp
next
  case (Cons t ts)
  note wf = Cons.prems(1) and tw = Cons.prems(2) 
  let ?a = "original_page_head t" let ?off = "?a - head r"
  have t: "length (twin_data t) = ps" "head r \<le> ?a" "?a < head r + region_size r" "?a mod ps = 0"
    using wf tw by (auto simp: wf_region_def)
  note pg = page_at_ok [OF wf t(2-4)]
  let ?page = "page_of ps r ?a"
  have off: "word_of_int (int ?a - int (head r)) = (word_of_nat ?off :: u32)"
    using t(2) by (metis of_int_of_nat_eq of_nat_diff)
  have u1: "3 * (used m + 4) < 2 ^ 31" using Cons.prems(5) by simp
  from rt Cons.prems(4) u1 obtain m1 where m1: "write_u32 rt m (word_of_nat ?off) = Inr (SUCCESS, m1)"
      "holds m1 (bs @ bytes_of_u32 (word_of_nat ?off))" "used m1 = used m + 4" by (rule holds_write_u32)
  have u2: "3 * (used m1 + 2) < 2 ^ 31" using Cons.prems(5) m1(3) by simp
  let ?pre = "bs @ bytes_of_u32 (word_of_nat ?off)"
  from rt m1(2) u2 obtain m2 where m2: "write_u16 rt m1 0 = Inr (SUCCESS, m2)"
      "holds m2 (?pre @ bytes_of_u16 0)" "used m2 = used m1 + 2" by (rule holds_write_u16)
  have u3: "3 * (used m2 + 5 * length ?page) < 2 ^ 31" using Cons.prems(5) m1(3) m2(3) pg(2) by simp
  let ?secs = "sections ?page (twin_data t)"
  have "\<exists>m3. diff_bytes rt 0 ?page (twin_data t) 0 0 0 m2
         = Inr (0 + word_of_nat (length (sections_from 0 None ?page (twin_data t)) - is_open None), m3)
       \<and> holds m3 ((?pre @ bytes_of_u16 0) @ enc_sections (sections_from 0 None ?page (twin_data t)))
       \<and> used m3 \<le> used m2 + 5 * length ?page
       \<and> is_open None \<le> length (sections_from 0 None ?page (twin_data t))"
    by (rule diff_bytes_ok [OF rt]) (use t(1) pg(2) ps m2(2) u3 in \<open>simp_all add: enc_open_def\<close>)
  then obtain m3 where m3: "diff_bytes rt 0 ?page (twin_data t) 0 0 0 m2 = Inr (word_of_nat (length ?secs), m3)"
      "holds m3 (?pre @ bytes_of_u16 0 @ enc_sections ?secs)" "used m3 \<le> used m2 + 5 * ps"
    using pg(2) by (auto simp: sections_def is_open_def)
  have "length (bytes_of_u16 0) = length (bytes_of_u16 (word_of_nat (length ?secs)))" by simp
  from holds_poke [OF m3(2) this] obtain m4 where
    m4: "poke m3 (length ?pre) (bytes_of_u16 (word_of_nat (length ?secs))) = Inr m4"
      "holds m4 (?pre @ bytes_of_u16 (word_of_nat (length ?secs)) @ enc_sections ?secs)" "used m4 = used m3" by blast
  let ?r = "r\<lparr>writable := (writable r)(?a := False), twins := ts\<rparr>"
  have wf': "wf_region ps ?r"
    using wf tw by (auto simp: wf_region_def)
  have h4: "holds m4 (bs @ enc_page (twin_diff ps r t))"
    using m4(2) by (simp add: enc_page_def twin_diff_def)
  have u4: "3 * (used m4 + length ts * (6 + 5 * ps)) < 2 ^ 31"
    using Cons.prems(5) m1(3) m2(3) m3(3) m4(3) by simp
  have td: "map (twin_diff ps ?r) ts = map (twin_diff ps r) ts"
    by (simp add: twin_diff_def page_of_def)
  from Cons.IH [OF wf' _ _ h4 u4, of "n + 1"] Cons.prems(3) obtain r' m' where
    r': "diff_twins rt mprotect ps ts (n + 1) ?r m4 = Inr (n + 1 + word_of_nat (length ts), r', m')"
      "holds m' ((bs @ enc_page (twin_diff ps r t)) @ concat (map enc_page (map (twin_diff ps r) ts)))"
      "wf_region ps r'" "r' = ?r\<lparr>writable := writable r', twins := []\<rparr>"
    unfolding td by auto
  have ds: "unat (data_size m1) = length ?pre" using holds_data_size [OF m1(2)] by simp
  have "diff_twins rt mprotect ps (t # ts) n r m = diff_twins rt mprotect ps ts (n + 1) ?r m4"
    using tw by (simp add: off m1(1) m2(1) mp pg(1) t(1) m3(1) ds m4(1) del: length_append of_int_diff)
  moreover have "r' = r\<lparr>writable := writable r', twins := []\<rparr>" using r'(4) by simp
  ultimately show ?case
    using r'(1-3) by (intro exI [of _ r'] exI [of _ m']) (simp add: add.assoc)
qed

lemma diff_region_ok:
  assumes rt: "enough_memory rt" and mp: "\<forall>a. mprotect a" and ps: "ps < 65536"
    and wf: "wf_region ps r" and sz: "region_size r < 2 ^ 32" and m: "holds m []"
    and u: "used m + 8 + length (twins r) * (6 + 5 * ps) \<le> message_room"
  shows "\<exists>r' m'. diff_region rt mprotect ps r m = Inr (word_of_nat (length (twins r)), r', m')
     \<and> holds m' (enc_diff (lamport_timestamp r + 1) (map (twin_diff ps r) (twins r)))
     \<and> wf_region ps r'
     \<and> r' = r\<lparr>lamport_timestamp := lamport_timestamp r + 1, writable := writable r', twins := []\<rparr>"
proof -
  let ?ts = "lamport_timestamp r + 1" let ?r = "r\<lparr>lamport_timestamp := ?ts\<rparr>" let ?n = "length (twins r)"
  have u0: "3 * (used m + 8 + length (twins r) * (6 + 5 * ps)) < 2 ^ 31" using u by (simp only: message_room_iff)
  have u1: "3 * (used m + 4) < 2 ^ 31" using u0 by simp
  from rt m u1 obtain m1 where m1: "write_u32 rt m ?ts = Inr (SUCCESS, m1)" "holds m1 ([] @ bytes_of_u32 ?ts)"
      "used m1 = used m + 4" by (rule holds_write_u32)
  have u2: "3 * (used m1 + 4) < 2 ^ 31" using u0 m1(3) by simp
  from rt m1(2) u2 obtain m2 where m2: "write_u32 rt m1 0 = Inr (SUCCESS, m2)"
      "holds m2 (([] @ bytes_of_u32 ?ts) @ bytes_of_u32 0)" "used m2 = used m1 + 4" by (rule holds_write_u32)
  have wf': "wf_region ps ?r" using wf by (simp add: wf_region_def)
  have td: "map (twin_diff ps ?r) (twins r) = map (twin_diff ps r) (twins r)"
    by (simp add: twin_diff_def page_of_def)
  have u3: "3 * (used m2 + ?n * (6 + 5 * ps)) < 2 ^ 31" using u0 m1(3) m2(3) by simp
  from diff_twins_ok [OF rt mp ps wf' _ _ m2(2) u3, of 0] sz obtain r' m3 where
    r': "diff_twins rt mprotect ps (twins r) 0 ?r m2 = Inr (word_of_nat ?n, r', m3)"
      "holds m3 (bytes_of_u32 ?ts @ bytes_of_u32 0 @ concat (map enc_page (map (twin_diff ps r) (twins r))))"
      "wf_region ps r'" "r' = ?r\<lparr>writable := writable r', twins := []\<rparr>"
    unfolding td by auto
  have "length (bytes_of_u32 0) = length (bytes_of_u32 (word_of_nat ?n))" by simp
  from holds_poke [OF r'(2) this] obtain m4 where
    m4: "poke m3 (length (bytes_of_u32 ?ts)) (bytes_of_u32 (word_of_nat ?n)) = Inr m4"
      "holds m4 (bytes_of_u32 ?ts @ bytes_of_u32 (word_of_nat ?n)
         @ concat (map enc_page (map (twin_diff ps r) (twins r))))" by blast
  have "unat (data_size m1) = length (bytes_of_u32 ?ts)" using holds_data_size [OF m1(2)] by simp
  then have "diff_region rt mprotect ps r m = Inr (word_of_nat ?n, r', m4)"
    using m1(1) m2(1) r'(1) m4(1) by (simp add: diff_region_def incrementLamportTimestamp_def Let_def)
  moreover have "r' = r\<lparr>lamport_timestamp := ?ts, writable := writable r', twins := []\<rparr>" using r'(4) by simp
  moreover have "holds m4 (enc_diff ?ts (map (twin_diff ps r) (twins r)))" using m4(2) by (simp add: enc_diff_def)
  ultimately show ?thesis using r'(3) by blast
qed

section \<open>Applying sections\<close>

fun patch :: "byte list \<Rightarrow> diff_section list \<Rightarrow> byte list" where
  "patch p [] = p"
| "patch p ((i, b) # secs) = patch (take i p @ b @ drop (i + length b) p) secs"

definition fits :: "nat \<Rightarrow> diff_section \<Rightarrow> bool" where
  "fits n sec \<longleftrightarrow> fst sec + length (snd sec) \<le> n"

lemma length_patch: "list_all (fits (length p)) secs \<Longrightarrow> length (patch p secs) = length p"
  by (induction p secs rule: patch.induct) (auto simp: fits_def)

lemma u16_small: "n < 65536 \<Longrightarrow> uint (word_of_nat n :: u16) = int n"
  "n < 65536 \<Longrightarrow> (ucast (word_of_nat n :: u16) :: u32) = word_of_nat n"
proof -
  assume n: "n < 65536"
  show "uint (word_of_nat n :: u16) = int n"
    using unat_u16_of_nat [OF n] by (metis uint_nat)
  have "unat (ucast (word_of_nat n :: u16) :: u32) = unat (word_of_nat n :: u32)"
    using n by (simp add: unat_of_nat unsigned_ucast_eq take_bit_nat_eq_self)
  then show "(ucast (word_of_nat n :: u16) :: u32) = word_of_nat n" by (metis word_unat_eq_iff)
qed

lemma read_section:
  assumes "holds m (enc_section (i, b) @ rest)" "fits n (i, b)" "n < 65536" "length page = n"
  obtains m1 m2 m3 where "read_u16 m = Inr (SUCCESS, Some (word_of_nat i), m1)"
    "read_u16 m1 = Inr (SUCCESS, Some (word_of_nat (length b)), m2)"
    "edsm_message_read m2 (cells page) (uint (word_of_nat i :: u16)) (ucast (word_of_nat (length b) :: u16))
       = Inr (SUCCESS, cells (take i page @ b @ drop (i + length b) page), m3)"
    "holds m3 rest"
proof -
  have b: "i < 65536" "length b < 65536" "i + length b \<le> length page" using assms by (auto simp: fits_def)
  from assms(1) have "holds m (bytes_of_u16 (word_of_nat i) @ bytes_of_u16 (word_of_nat (length b)) @ b @ rest)"
    by (simp add: enc_section_def)
  then obtain m1 where m1: "read_u16 m = Inr (SUCCESS, Some (word_of_nat i), m1)"
      "holds m1 (bytes_of_u16 (word_of_nat (length b)) @ b @ rest)" by (rule holds_read_u16)
  from m1(2) obtain m2 where m2: "read_u16 m1 = Inr (SUCCESS, Some (word_of_nat (length b)), m2)"
      "holds m2 (b @ rest)" by (rule holds_read_u16)
  have c: "length b \<le> length (b @ rest)" "length b < 2 ^ 31" "0 \<le> int i" "nat (int i) + length b \<le> length (cells page)"
    using b by simp_all
  from m2(2) c obtain m3 where m3: "edsm_message_read m2 (cells page) (int i) (word_of_nat (length b)) =
      Inr (SUCCESS, take (nat (int i)) (cells page) @ cells (take (length b) (b @ rest))
        @ drop (nat (int i) + length b) (cells page), m3)" "holds m3 (drop (length b) (b @ rest))"
    by (rule holds_read)
  show ?thesis
    using m1(1) m2(1) m3 by (intro that [of m1 m2 m3]) (simp_all add: u16_small b)
qed

lemma apply_shadow_ok:
  "holds m (enc_sections secs @ rest) \<Longrightarrow> list_all (fits (length page)) secs \<Longrightarrow> length page < 65536 \<Longrightarrow>
     \<exists>m'. apply_shadow (length secs) (cells page) m = Inr (cells (patch page secs), m') \<and> holds m' rest"
proof (induction secs arbitrary: page m)
  case Nil
  then show ?case by (simp add: enc_sections_def)
next
  case (Cons sec secs)
  obtain i b where sec: "sec = (i, b)" by fastforce
  have h: "holds m (enc_section (i, b) @ enc_sections secs @ rest)"
    using Cons.prems(1) by (simp add: enc_sections_def sec)
  have f: "fits (length page) (i, b)" using Cons.prems(2) sec by simp
  let ?page = "take i page @ b @ drop (i + length b) page"
  obtain m1 m2 m3 where m: "read_u16 m = Inr (SUCCESS, Some (word_of_nat i), m1)"
    "read_u16 m1 = Inr (SUCCESS, Some (word_of_nat (length b)), m2)"
    "edsm_message_read m2 (cells page) (uint (word_of_nat i :: u16)) (ucast (word_of_nat (length b) :: u16))
       = Inr (SUCCESS, cells ?page, m3)" "holds m3 (enc_sections secs @ rest)"
    by (rule read_section [OF h f Cons.prems(3) refl])
  have len: "length ?page = length page" using f by (simp add: fits_def)
  have "\<exists>m'. apply_shadow (length secs) (cells ?page) m3 = Inr (cells (patch ?page secs), m') \<and> holds m' rest"
    by (rule Cons.IH [OF m(4)]) (use Cons.prems len in simp_all)
  then show ?case using m(1-3) by (simp add: sec del: cells_append)
qed

lemma apply_twinned_ok:
  "holds m (enc_sections secs @ rest) \<Longrightarrow> list_all (fits ps) secs \<Longrightarrow> ps < 65536 \<Longrightarrow>
     length twin = ps \<Longrightarrow> length page = ps \<Longrightarrow>
     \<exists>m'. apply_twinned ps (length secs) (cells twin) (cells page) m
       = Inr (cells (patch twin secs), cells (patch page secs), m') \<and> holds m' rest"
proof (induction secs arbitrary: twin page m)
  case Nil
  then show ?case by (simp add: enc_sections_def)
next
  case (Cons sec secs)
  obtain i b where sec: "sec = (i, b)" by fastforce
  have h: "holds m (enc_section (i, b) @ enc_sections secs @ rest)"
    using Cons.prems(1) by (simp add: enc_sections_def sec)
  have f: "fits ps (i, b)" using Cons.prems(2) sec by simp
  then have ib: "i < 65536" "length b < 65536" "i + length b \<le> ps" using Cons.prems(3) by (auto simp: fits_def)
  let ?twin = "take i twin @ b @ drop (i + length b) twin"
  let ?page = "take i page @ b @ drop (i + length b) page"
  obtain m1 m2 m3 where m: "read_u16 m = Inr (SUCCESS, Some (word_of_nat i), m1)"
    "read_u16 m1 = Inr (SUCCESS, Some (word_of_nat (length b)), m2)"
    "edsm_message_read m2 (cells twin) (uint (word_of_nat i :: u16)) (ucast (word_of_nat (length b) :: u16))
       = Inr (SUCCESS, cells ?twin, m3)" "holds m3 (enc_sections secs @ rest)"
    by (rule read_section [OF h f Cons.prems(3,4)])
  have "memcpy (cells page) (uint (word_of_nat i :: u16)) (cells ?twin) (uint (word_of_nat i :: u16)) (length b)
      = Inr (cells ?page)"
    unfolding u16_small(1) [OF ib(1)] using ib Cons.prems(4,5)
    by (subst memcpy_ok) (simp_all add: min_absorb1)
  moreover have "\<exists>m'. apply_twinned ps (length secs) (cells ?twin) (cells ?page) m3
      = Inr (cells (patch ?twin secs), cells (patch ?page secs), m') \<and> holds m' rest"
    by (rule Cons.IH [OF m(4)]) (use Cons.prems ib in simp_all)
  ultimately show ?case
    using m(1-3) ib by (simp add: sec unat_u16_of_nat del: cells_append)
qed

lemma sections_fit:
  "length rs = length cs \<Longrightarrow> (case op of None \<Rightarrow> True | Some (s, b) \<Rightarrow> s + length b = i) \<Longrightarrow>
     list_all (fits (i + length rs)) (sections_from i op rs cs)"
proof (induction i op rs cs rule: sections_from.induct)
  case (1 i op r rs c cs)
  show ?case
  proof (cases "r = c")
    case True
    with 1 show ?thesis by (cases op) (auto simp: fits_def)
  next
    case False
    with 1 show ?thesis by (cases op) auto
  qed
qed (auto simp: fits_def split: option.splits)

fun merge :: "byte list \<Rightarrow> byte list \<Rightarrow> byte list \<Rightarrow> byte list" where
  "merge (r # rs) (c # cs) (p # ps) = (if r \<noteq> c then r else p) # merge rs cs ps"
| "merge _ _ ps = ps"

definition override :: "byte list \<Rightarrow> diff_section option \<Rightarrow> byte list" where
  "override q op = (case op of None \<Rightarrow> q | Some (s, b) \<Rightarrow> take s q @ b)"

lemma patch_close:
  "case op of None \<Rightarrow> True | Some (s, b) \<Rightarrow> s + length b = length q \<Longrightarrow>
     patch (q @ p) ((case op of None \<Rightarrow> [] | Some sec \<Rightarrow> [sec]) @ secs) = patch (override q op @ p) secs"
  by (cases op) (auto simp: override_def)

lemma patch_sections_from:
  "length rs = length cs \<Longrightarrow> length p = length rs \<Longrightarrow> length q = i \<Longrightarrow>
     (case op of None \<Rightarrow> True | Some (s, b) \<Rightarrow> s + length b = i) \<Longrightarrow>
     patch (q @ p) (sections_from i op rs cs) = override q op @ merge rs cs p"
proof (induction rs arbitrary: cs p q i op)
  case Nil
  then show ?case by (cases op) (auto simp: override_def)
next
  case (Cons r rs)
  then obtain c cs' p0 p' where [simp]: "cs = c # cs'" "p = p0 # p'" and len: "length rs = length cs'" "length p' = length rs"
    by (cases cs; cases p) auto
  show ?case
  proof (cases "r = c")
    case True
    have "length (override q op) = i" using Cons.prems(3,4) by (auto simp: override_def split: option.splits)
    then have "patch ((override q op @ [p0]) @ p') (sections_from (Suc i) None rs cs') = override q op @ [p0] @ merge rs cs' p'"
      using Cons.IH [OF len, where q = "override q op @ [p0]" and i = "Suc i" and op = None] by (simp add: override_def)
    moreover have "patch (q @ p) ((case op of None \<Rightarrow> [] | Some sec \<Rightarrow> [sec]) @ sections_from (Suc i) None rs cs')
        = patch (override q op @ p) (sections_from (Suc i) None rs cs')"
      by (rule patch_close) (use Cons.prems in \<open>auto split: option.splits\<close>)
    ultimately show ?thesis using True by simp
  next
    case False
    let ?op = "Some (case op of None \<Rightarrow> (i, [r]) | Some (s, b) \<Rightarrow> (s, b @ [r]))"
    have "case ?op of None \<Rightarrow> True | Some (s, b) \<Rightarrow> s + length b = Suc i"
      using Cons.prems(4) by (auto split: option.splits)
    then have "patch ((q @ [p0]) @ p') (sections_from (Suc i) ?op rs cs') = override (q @ [p0]) ?op @ merge rs cs' p'"
      using Cons.IH [OF len, where q = "q @ [p0]" and i = "Suc i" and op = ?op] Cons.prems(3) by simp
    moreover have "override (q @ [p0]) ?op = override q op @ [r]"
      using Cons.prems(3,4) by (auto simp: override_def split: option.splits)
    ultimately show ?thesis using False by simp
  qed
qed

lemma patch_sections:
  "length page = length twin \<Longrightarrow> length p = length page \<Longrightarrow> patch p (sections page twin) = merge page twin p"
  using patch_sections_from [where rs = page and cs = twin and p = p and q = "[]" and i = 0 and op = None] by (simp add: sections_def override_def)

lemma length_merge [simp]: "length (merge rs cs ps) = length ps"
  by (induction rs cs ps rule: merge.induct) auto

lemma nth_merge:
  "length rs = length cs \<Longrightarrow> length ps = length rs \<Longrightarrow> k < length ps \<Longrightarrow>
     merge rs cs ps ! k = (if rs ! k \<noteq> cs ! k then rs ! k else ps ! k)"
proof (induction rs cs ps arbitrary: k rule: merge.induct)
  case (1 r rs c cs p ps)
  then show ?case by (cases k) auto
qed auto

section \<open>Applying a diff\<close>

definition patch_page :: "nat \<Rightarrow> region_fields \<Rightarrow> page_diff \<Rightarrow> region_fields" where
  "patch_page ps r pd =
     (let a = head r + fst pd in
      if snd pd = [] then r
      else put_page
        (if find_twin r a = None then r\<lparr>writable := (writable r)(a := False)\<rparr>
         else update_twin r a (patch (base_page ps r a) (snd pd)))
        a (patch (page_of ps r a) (snd pd)))"

definition page_fits :: "nat \<Rightarrow> nat \<Rightarrow> page_diff \<Rightarrow> bool" where
  "page_fits ps n pd \<longleftrightarrow> fst pd < n \<and> fst pd mod ps = 0 \<and> list_all (fits ps) (snd pd) \<and> length (snd pd) < 65536"

lemma put_page_simps [simp]:
  "head (put_page r a bs) = head r" "region_size (put_page r a bs) = region_size r"
  "writable (put_page r a bs) = writable r" "twins (put_page r a bs) = twins r"
  "lamport_timestamp (put_page r a bs) = lamport_timestamp r"
  by (simp_all add: put_page_def)

lemma update_twin_simps [simp]:
  "head (update_twin r a bs) = head r" "region_size (update_twin r a bs) = region_size r"
  "writable (update_twin r a bs) = writable r" "contents (update_twin r a bs) = contents r"
  "lamport_timestamp (update_twin r a bs) = lamport_timestamp r"
  by (simp_all add: update_twin_def)

lemma length_put_page:
  "a - head r + length bs \<le> length (contents r) \<Longrightarrow> length (contents (put_page r a bs)) = length (contents r)"
  by (simp add: put_page_def)

lemma heads_update_twin [simp]:
  "map original_page_head (twins (update_twin r a bs)) = map original_page_head (twins r)"
  by (simp add: update_twin_def)

lemma wf_put_page:
  "wf_region ps r \<Longrightarrow> a - head r + length bs \<le> length (contents r) \<Longrightarrow> wf_region ps (put_page r a bs)"
  using length_put_page [of a r bs] by (simp add: wf_region_def)

lemma wf_update_twin: "wf_region ps r \<Longrightarrow> length bs = ps \<Longrightarrow> wf_region ps (update_twin r a bs)"
proof -
  assume wf: "wf_region ps r" and bs: "length bs = ps"
  have "original_page_head ` set (twins (update_twin r a bs)) = original_page_head ` set (twins r)"
    using heads_update_twin [of r a bs] by (metis list.set_map)
  then show ?thesis using wf bs by (auto simp: wf_region_def list_all_iff) (auto simp: update_twin_def)
qed

lemma patch_page_simps [simp]:
  "head (patch_page ps r pd) = head r" "region_size (patch_page ps r pd) = region_size r"
  "lamport_timestamp (patch_page ps r pd) = lamport_timestamp r"
  by (simp_all add: patch_page_def Let_def)

lemma wf_patch_page:
  assumes wf: "wf_region ps r" and f: "page_fits ps (region_size r) pd"
  shows "wf_region ps (patch_page ps r pd)"
proof -
  let ?a = "head r + fst pd"
  note adr = page_address [OF wf, of "fst pd"]
  have a: "head r \<le> ?a" "?a < head r + region_size r" "?a mod ps = 0"
    using f adr by (auto simp: page_fits_def)
  note pg = page_at_ok [OF wf a]
  have lp: "length (patch (page_of ps r ?a) (snd pd)) = ps" "length (patch (base_page ps r ?a) (snd pd)) = ps"
    using f pg(2) length_base_page [OF wf a] by (simp_all add: page_fits_def length_patch)
  have "wf_region ps (r\<lparr>writable := (writable r)(?a := False)\<rparr>)" using wf by (auto simp: wf_region_def)
  then show ?thesis
    using wf pg lp by (auto simp: patch_page_def Let_def intro!: wf_put_page wf_update_twin)
qed

lemma apply_page_ok:
  assumes mp: "\<forall>a. mprotect a" and ps: "ps < 65536" and wf: "wf_region ps r" and sz: "region_size r < 2 ^ 32"
    and f: "page_fits ps (region_size r) pd" and m: "holds m (enc_page pd @ rest)"
  shows "\<exists>m'. apply_page mprotect ps r m = Inr (patch_page ps r pd, m') \<and> holds m' rest"
proof -
  obtain off secs where pd: "pd = (off, secs)" by fastforce
  have o: "off < region_size r" "off mod ps = 0" "list_all (fits ps) secs" "length secs < 65536"
    using f by (auto simp: page_fits_def pd)
  let ?a = "head r + off"
  note a = page_address [OF wf o(1,2)]
  note pg = page_at_ok [OF wf a]
  have "holds m (bytes_of_u32 (word_of_nat off) @ bytes_of_u16 (word_of_nat (length secs)) @ enc_sections secs @ rest)"
    using m by (simp add: enc_page_def pd)
  then obtain m1 where m1: "read_u32 m = Inr (SUCCESS, Some (word_of_nat off), m1)"
      "holds m1 (bytes_of_u16 (word_of_nat (length secs)) @ enc_sections secs @ rest)" by (rule holds_read_u32)
  from m1(2) obtain m2 where m2: "read_u16 m1 = Inr (SUCCESS, Some (word_of_nat (length secs)), m2)"
      "holds m2 (enc_sections secs @ rest)" by (rule holds_read_u16)
  have u: "unat (word_of_nat off :: u32) = off" using o(1) sz by (simp add: unat_of_nat)
  have n: "unat (word_of_nat (length secs) :: u16) = length secs" using o(4) by (rule unat_u16_of_nat)
  have z: "0 < (word_of_nat (length secs) :: u16) \<longleftrightarrow> secs \<noteq> []"
    using n by (metis length_greater_0_conv word_less_nat_alt unat_0)
  have lp: "length (page_of ps r ?a) = ps" "length (page_of ps r ?a) < 65536" using pg(2) ps by simp_all
  show ?thesis
  proof (cases "secs = []")
    case True
    then show ?thesis using m1(1) m2 a(3) by (simp add: apply_page_def u z patch_page_def pd enc_sections_def)
  next
    case False
    show ?thesis
    proof (cases "find_twin r ?a")
      case None
      from apply_shadow_ok [OF m2(2), of "page_of ps r ?a"] lp o(3) obtain m3 where
        m3: "apply_shadow (length secs) (cells (page_of ps r ?a)) m2 = Inr (cells (patch (page_of ps r ?a) secs), m3)"
          "holds m3 rest" by auto
      then show ?thesis
        using m1(1) m2(1) a(3) False None mp pg(1)
        by (simp add: apply_page_def u z n patch_page_def pd Let_def)
    next
      case (Some t)
      have bp: "base_page ps r ?a = twin_data t" using Some by (simp add: base_page_def)
      then have lt: "length (twin_data t) = ps" using length_base_page [OF wf a] by simp
      from apply_twinned_ok [OF m2(2) o(3) ps lt lp(1)] obtain m3 where
        m3: "apply_twinned ps (length secs) (cells (twin_data t)) (cells (page_of ps r ?a)) m2
            = Inr (cells (patch (twin_data t) secs), cells (patch (page_of ps r ?a) secs), m3)" "holds m3 rest"
        by auto
      then show ?thesis
        using m1(1) m2(1) a(3) False Some mp pg(1)
        by (simp add: apply_page_def u z n patch_page_def pd bp Let_def)
    qed
  qed
qed

lemma apply_pages_ok:
  assumes mp: "\<forall>a. mprotect a" and ps: "ps < 65536"
  shows "wf_region ps r \<Longrightarrow> region_size r < 2 ^ 32 \<Longrightarrow> list_all (page_fits ps (region_size r)) pds \<Longrightarrow>
     holds m (concat (map enc_page pds)) \<Longrightarrow>
     \<exists>m'. apply_pages mprotect ps (length pds) r m = Inr (foldl (patch_page ps) r pds, m')"
proof (induction pds arbitrary: r m)
  case (Cons pd pds)
  have f: "page_fits ps (region_size r) pd" and h: "holds m (enc_page pd @ concat (map enc_page pds))"
    using Cons.prems by simp_all
  from apply_page_ok [OF mp ps Cons.prems(1,2) f h] obtain m' where
    m': "apply_page mprotect ps r m = Inr (patch_page ps r pd, m')" "holds m' (concat (map enc_page pds))" by blast
  have "\<exists>m''. apply_pages mprotect ps (length pds) (patch_page ps r pd) m' = Inr (foldl (patch_page ps) (patch_page ps r pd) pds, m'')"
    by (rule Cons.IH [OF wf_patch_page [OF Cons.prems(1) f] _ _ m'(2)]) (use Cons.prems in simp_all)
  then show ?case using m'(1) by auto
qed simp

lemma memory_receive_ok:
  assumes mp: "\<forall>a. mprotect a" and ps: "ps < 65536" and wf: "wf_region ps r" and sz: "region_size r < 2 ^ 32"
    and f: "list_all (page_fits ps (region_size r)) pds" and n: "length pds < 2 ^ 31" and m: "holds m (enc_diff ts pds)"
  shows "memory_receive mprotect ps r m = Inr (foldl (patch_page ps) (setLamportTimestamp r ts) pds)"
proof -
  let ?r = "setLamportTimestamp r ts"
  have wf': "wf_region ps ?r" "region_size ?r = region_size r" using wf by (simp_all add: setLamportTimestamp_def wf_region_def)
  from m have "holds m (bytes_of_u32 ts @ bytes_of_u32 (word_of_nat (length pds)) @ concat (map enc_page pds))"
    by (simp add: enc_diff_def)
  then obtain m1 where m1: "read_u32 m = Inr (SUCCESS, Some ts, m1)"
      "holds m1 (bytes_of_u32 (word_of_nat (length pds)) @ concat (map enc_page pds))" by (rule holds_read_u32)
  from m1(2) obtain m2 where m2: "read_u32 m1 = Inr (SUCCESS, Some (word_of_nat (length pds)), m2)"
      "holds m2 (concat (map enc_page pds))" by (rule holds_read_u32)
  have u: "unat (word_of_nat (length pds) :: u32) = length pds" using n by (simp add: unat_of_nat)
  from apply_pages_ok [OF mp ps wf'(1) _ _ m2(2)] sz f wf'(2) show ?thesis
    using m1(1) m2(1) n by (auto simp: memory_receive_def u)
qed

section \<open>The effect of a diff on each page\<close>

lemma page_of_put_page:
  assumes wf: "wf_region ps r" and a: "head r \<le> a" "a < head r + region_size r" "a mod ps = 0"
    and b: "head r \<le> b" "b < head r + region_size r" "b mod ps = 0" and bs: "length bs = ps"
  shows "page_of ps (put_page r a bs) b = (if b = a then bs else page_of ps r b)"
proof -
  note la = page_at_ok(3) [OF wf a] and lb = page_at_ok(3) [OF wf b]
  consider "b = a" | "b + ps \<le> a" | "a + ps \<le> b" using aligned_less a(3) b(3) by (metis linorder_neqE_nat)
  then show ?thesis
  proof cases
    case 1
    then show ?thesis using la bs by (simp add: page_of_def put_page_def)
  next
    case 2
    then have o: "b - head r + ps \<le> a - head r" using b(1) by simp
    have "page_of ps (put_page r a bs) b = take ps (drop (b - head r)
        (take (a - head r) (contents r) @ bs @ drop (a - head r + length bs) (contents r)))"
      by (simp add: page_of_def put_page_def del: take_append drop_append)
    also have "\<dots> = take ps (drop (b - head r) (contents r))"
      using o la by (simp add: drop_take min_absorb1)
    finally show ?thesis using 2 wf by (simp add: page_of_def wf_region_def)
  next
    case 3
    then have o: "a - head r + ps \<le> b - head r" using a(1) by simp
    then obtain k where k: "b - head r = a - head r + ps + k" using le_Suc_ex by blast
    have "drop (b - head r) (take (a - head r) (contents r) @ bs @ drop (a - head r + ps) (contents r)) = drop (b - head r) (contents r)"
      using la bs by (simp add: k ac_simps)
    then show ?thesis using 3 wf bs by (simp add: page_of_def put_page_def wf_region_def del: drop_append)
  qed
qed

lemma find_twin_update_twin:
  "find_twin (update_twin r a bs) b =
     (if b = a then map_option (twin_data_update (\<lambda>_. bs)) (find_twin r a) else find_twin r b)"
proof -
  have "find (\<lambda>t. original_page_head t = b) (map (\<lambda>t. if original_page_head t = a then t\<lparr>twin_data := bs\<rparr> else t) ts)
      = (if b = a then map_option (twin_data_update (\<lambda>_. bs)) (find (\<lambda>t. original_page_head t = a) ts)
         else find (\<lambda>t. original_page_head t = b) ts)" for ts
    by (induction ts) auto
  from this [of "twins r"] show ?thesis by (simp add: find_twin_def update_twin_def)
qed

lemma find_twin_put_page [simp]: "find_twin (put_page r a bs) b = find_twin r b"
  by (simp add: find_twin_def)

lemma page_of_update [simp]: "page_of ps (update_twin r a bs) b = page_of ps r b"
  by (simp add: page_of_def)

lemma patch_page_effect:
  assumes wf: "wf_region ps r" and f: "page_fits ps (region_size r) pd"
    and off: "off < region_size r" "off mod ps = 0"
  shows "page_of ps (patch_page ps r pd) (head r + off) =
      (if off = fst pd then patch (page_of ps r (head r + off)) (snd pd) else page_of ps r (head r + off))" (is ?page)
    "base_page ps (patch_page ps r pd) (head r + off) =
      (if off = fst pd then patch (base_page ps r (head r + off)) (snd pd) else base_page ps r (head r + off))" (is ?base)
proof -
  let ?a = "head r + fst pd" let ?b = "head r + off"
  have a: "head r \<le> ?a" "?a < head r + region_size r" "?a mod ps = 0"
    using f page_address [OF wf, of "fst pd"] by (auto simp: page_fits_def)
  note b = page_address [OF wf off]
  let ?w = "r\<lparr>writable := (writable r)(?a := False)\<rparr>"
  let ?u = "update_twin r ?a (patch (base_page ps r ?a) (snd pd))"
  have lp: "length (patch (page_of ps r ?a) (snd pd)) = ps" "length (patch (base_page ps r ?a) (snd pd)) = ps"
    using f page_at_ok(2) [OF wf a] length_base_page [OF wf a] by (simp_all add: page_fits_def length_patch)
  have w: "wf_region ps ?w" using wf by (auto simp: wf_region_def)
  have u: "wf_region ps ?u" using wf lp(2) by (rule wf_update_twin)
  have pw: "page_of ps (put_page ?w ?a bs) ?b = (if ?b = ?a then bs else page_of ps r ?b)" if "length bs = ps" for bs
    using page_of_put_page [OF w, of ?a ?b bs] a b that by (simp add: page_of_def)
  have pu: "page_of ps (put_page ?u ?a bs) ?b = (if ?b = ?a then bs else page_of ps r ?b)" if "length bs = ps" for bs
    using page_of_put_page [OF u, of ?a ?b bs] a b that by simp
  show page: ?page using pw [OF lp(1)] pu [OF lp(1)] by (auto simp: patch_page_def Let_def)
  show ?base
  proof (cases "find_twin r ?a")
    case None
    then have t: "find_twin (patch_page ps r pd) ?b = find_twin r ?b"
      by (auto simp: patch_page_def Let_def find_twin_def)
    show ?thesis using page None by (auto simp: base_page_def t split: option.splits)
  next
    case (Some t)
    have "find_twin (patch_page ps r pd) ?b =
        (if snd pd = [] then find_twin r ?b else find_twin ?u ?b)"
      using Some by (auto simp: patch_page_def Let_def)
    then show ?thesis
      using Some page by (auto simp: base_page_def find_twin_update_twin split: option.splits)
  qed
qed

lemma patch_pages_effect:
  "wf_region ps r \<Longrightarrow> list_all (page_fits ps (region_size r)) pds \<Longrightarrow> distinct (map fst pds) \<Longrightarrow>
     wf_region ps (foldl (patch_page ps) r pds) \<and> head (foldl (patch_page ps) r pds) = head r
     \<and> region_size (foldl (patch_page ps) r pds) = region_size r
     \<and> lamport_timestamp (foldl (patch_page ps) r pds) = lamport_timestamp r
     \<and> (\<forall>off < region_size r. off mod ps = 0 \<longrightarrow>
          page_of ps (foldl (patch_page ps) r pds) (head r + off) =
            (case map_of pds off of None \<Rightarrow> page_of ps r (head r + off)
             | Some secs \<Rightarrow> patch (page_of ps r (head r + off)) secs)
        \<and> base_page ps (foldl (patch_page ps) r pds) (head r + off) =
            (case map_of pds off of None \<Rightarrow> base_page ps r (head r + off)
             | Some secs \<Rightarrow> patch (base_page ps r (head r + off)) secs))"
proof (induction pds arbitrary: r)
  case (Cons pd pds)
  have f: "page_fits ps (region_size r) pd" using Cons.prems(2) by simp
  have d: "map_of pds (fst pd) = None" using Cons.prems(3) by (simp add: map_of_eq_None_iff)
  have l: "list_all (page_fits ps (region_size (patch_page ps r pd))) pds" "distinct (map fst pds)"
    using Cons.prems by simp_all
  note ih = Cons.IH [OF wf_patch_page [OF Cons.prems(1) f] l]
  have e: "map_of (pd # pds) off = (if off = fst pd then Some (snd pd) else map_of pds off)" for off
    by (cases pd) simp
  show ?case using ih patch_page_effect [OF Cons.prems(1) f] d by (simp add: e split: option.split)
qed (simp add: wf_region_def)

lemma twin_pages:
  assumes wf: "wf_region ps r" and ps: "ps < 65536"
  shows "list_all (page_fits ps (region_size r)) (map (twin_diff ps r) (twins r))"
    "distinct (map fst (map (twin_diff ps r) (twins r)))"
    "off < region_size r \<Longrightarrow> off mod ps = 0 \<Longrightarrow>
       map_of (map (twin_diff ps r) (twins r)) off =
         map_option (\<lambda>t. sections (page_of ps r (head r + off)) (twin_data t)) (find_twin r (head r + off))"
proof -
  have t: "length (twin_data t) = ps \<and> head r \<le> original_page_head t
      \<and> original_page_head t < head r + region_size r \<and> original_page_head t mod ps = 0" if "t \<in> set (twins r)" for t
    using wf that by (auto simp: wf_region_def list_all_iff)
  have h: "head r mod ps = 0" using wf by (simp add: wf_region_def)
  show "list_all (page_fits ps (region_size r)) (map (twin_diff ps r) (twins r))"
    unfolding list_all_iff set_map
  proof (rule ballI, erule imageE, hypsubst)
    fix t assume tt: "t \<in> set (twins r)"
    note tp = t [OF tt]
    let ?p = "page_of ps r (original_page_head t)"
    have lp: "length ?p = ps" by (rule page_at_ok(2) [OF wf]) (use tp in simp_all)
    have "list_all (fits (0 + length ?p)) (sections_from 0 None ?p (twin_data t))"
      by (rule sections_fit) (use lp tp in simp_all)
    moreover have "length (sections_from 0 None ?p (twin_data t)) \<le> length ?p + is_open None"
      by (rule sections_length_bound) (use lp tp in simp)
    moreover have "(original_page_head t - head r) mod ps = 0"
      using tp h by (simp add: mod_eq_0_iff_dvd)
    ultimately show "page_fits ps (region_size r) (twin_diff ps r t)"
      using tp lp ps by (auto simp: page_fits_def twin_diff_def sections_def is_open_def)
  qed
  have "\<forall>a \<in> original_page_head ` set (twins r). head r \<le> a" using t by auto
  then have "inj_on (\<lambda>a. a - head r) (original_page_head ` set (twins r))"
    by (intro inj_onI) (metis le_add_diff_inverse)
  then have "distinct (map (\<lambda>a. a - head r) (map original_page_head (twins r)))"
    using wf by (subst distinct_map) (auto simp: wf_region_def)
  then show "distinct (map fst (map (twin_diff ps r) (twins r)))"
    by (simp add: twin_diff_def comp_def)
  assume "off < region_size r" "off mod ps = 0"
  have "\<forall>t \<in> set ts. head r \<le> original_page_head t \<Longrightarrow> map_of (map (twin_diff ps r) ts) off =
      map_option (\<lambda>t. sections (page_of ps r (head r + off)) (twin_data t))
        (find (\<lambda>t. original_page_head t = head r + off) ts)" for ts
    by (induction ts) (auto simp: twin_diff_def)
  then show "map_of (map (twin_diff ps r) (twins r)) off =
      map_option (\<lambda>t. sections (page_of ps r (head r + off)) (twin_data t)) (find_twin r (head r + off))"
    using t by (auto simp: find_twin_def)
qed

text \<open>A diff of one region applied to another region of the same size.\<close>

lemma diff_effect:
  assumes wf: "wf_region ps r1" and wf2: "wf_region ps r2" and sz: "region_size r2 = region_size r1" and ps: "ps < 65536"
  defines "r3 \<equiv> foldl (patch_page ps) r2 (map (twin_diff ps r1) (twins r1))"
  shows "wf_region ps r3" "head r3 = head r2" "region_size r3 = region_size r2" "lamport_timestamp r3 = lamport_timestamp r2"
    "i < region_size r1 \<Longrightarrow> contents r3 ! i = (if changed ps r1 i then contents r1 ! i else contents r2 ! i)"
    "i < region_size r1 \<Longrightarrow> committed ps r3 i = (if changed ps r1 i then contents r1 ! i else committed ps r2 i)"
proof -
  note tp = twin_pages [OF wf ps]
  note eff = patch_pages_effect [OF wf2, folded sz, OF tp(1,2) [folded sz], folded r3_def]
  show "wf_region ps r3" "head r3 = head r2" "region_size r3 = region_size r2" "lamport_timestamp r3 = lamport_timestamp r2"
    using eff by simp_all
  assume i: "i < region_size r1"
  define p0 where "p0 = i - i mod ps" 
  have po: "p0 < region_size r1" "p0 mod ps = 0" "i mod ps < ps" using page_offset [OF wf i] by (simp_all only: p0_def)
  let ?a1 = "head r1 + p0" and ?a2 = "head r2 + p0" and ?k = "i mod ps"
  have i2: "i < region_size r2" "p0 < region_size r2" "i < region_size r3" using eff i po(1) sz by simp_all
  note a1 = page_address [OF wf po(1,2)] and a2 = page_address [OF wf2 i2(2) po(2)]
  have l: "length (page_of ps r1 ?a1) = ps" "length (base_page ps r1 ?a1) = ps"
    "length (page_of ps r2 ?a2) = ps" "length (base_page ps r2 ?a2) = ps"
    by (rule page_at_ok(2) [OF wf a1] length_base_page [OF wf a1] page_at_ok(2) [OF wf2 a2] length_base_page [OF wf2 a2])+
  have wf3: "wf_region ps r3" "head r3 = head r2" using eff by simp_all
  have n: "contents r1 ! i = page_of ps r1 ?a1 ! ?k" "contents r2 ! i = page_of ps r2 ?a2 ! ?k"
    "contents r3 ! i = page_of ps r3 ?a2 ! ?k"
    using nth_contents [OF wf i] nth_contents [OF wf2 i2(1)] nth_contents [OF wf3(1) i2(3)] by (simp_all only: p0_def wf3(2))
  have c: "committed ps r1 i = base_page ps r1 ?a1 ! ?k" "committed ps r2 i = base_page ps r2 ?a2 ! ?k"
    "committed ps r3 i = base_page ps r3 ?a2 ! ?k"
    by (simp_all only: committed_def p0_def wf3(2))
  have p3: "page_of ps r3 ?a2 = (case map_of (map (twin_diff ps r1) (twins r1)) p0 of None \<Rightarrow> page_of ps r2 ?a2
      | Some secs \<Rightarrow> patch (page_of ps r2 ?a2) secs)"
    "base_page ps r3 ?a2 = (case map_of (map (twin_diff ps r1) (twins r1)) p0 of None \<Rightarrow> base_page ps r2 ?a2
      | Some secs \<Rightarrow> patch (base_page ps r2 ?a2) secs)"
    using eff [THEN conjunct2, THEN conjunct2, THEN conjunct2, THEN conjunct2, rule_format, OF i2(2) po(2)]
    by simp_all
  have b1: "base_page ps r1 ?a1 = (case find_twin r1 ?a1 of None \<Rightarrow> page_of ps r1 ?a1 | Some t \<Rightarrow> twin_data t)"
    by (simp only: base_page_def)
  have tw: "find_twin r1 ?a1 = Some t \<Longrightarrow> length (page_of ps r1 ?a1) = length (twin_data t)" for t
    using l(1,2) b1 by simp
  have e: "page_of ps r3 ?a2 = (case find_twin r1 ?a1 of None \<Rightarrow> page_of ps r2 ?a2
       | Some t \<Rightarrow> merge (page_of ps r1 ?a1) (twin_data t) (page_of ps r2 ?a2))"
    "base_page ps r3 ?a2 = (case find_twin r1 ?a1 of None \<Rightarrow> base_page ps r2 ?a2
       | Some t \<Rightarrow> merge (page_of ps r1 ?a1) (twin_data t) (base_page ps r2 ?a2))"
    unfolding p3 tp(3) [OF po(1,2)] using tw
    by (cases "find_twin r1 ?a1"; simp add: patch_sections [OF _ trans [OF l(3) l(1) [symmetric]]]
        patch_sections [OF _ trans [OF l(4) l(1) [symmetric]]])+
  show "contents r3 ! i = (if changed ps r1 i then contents r1 ! i else contents r2 ! i)"
    unfolding changed_def n c e using po(3) l b1
    by (cases "find_twin r1 ?a1") (simp_all add: nth_merge)
  show "committed ps r3 i = (if changed ps r1 i then contents r1 ! i else committed ps r2 i)"
    unfolding changed_def n c e using po(3) l b1
    by (cases "find_twin r1 ?a1") (simp_all add: nth_merge)
qed

section \<open>Exchanging diffs\<close>

text \<open>What a region needs to be sent: the conditions of the lemmas below, on the machine and on its size.\<close>

definition sendable :: "runtime \<Rightarrow> (nat \<Rightarrow> bool) \<Rightarrow> nat \<Rightarrow> region_fields \<Rightarrow> bool" where
  "sendable rt mprotect ps r \<longleftrightarrow> enough_memory rt \<and> (\<forall>a. mprotect a) \<and> ps < 65536 \<and> wf_region ps r
     \<and> region_size r < 2 ^ 32 \<and> 32 + length (twins r) * (6 + 5 * ps) \<le> message_room"

definition diff_of :: "nat \<Rightarrow> region_fields \<Rightarrow> byte list" where
  "diff_of ps r = enc_diff (lamport_timestamp r + 1) (map (twin_diff ps r) (twins r))"

text \<open>Two replicas agree: the committed bytes are the same.\<close>

definition in_sync :: "nat \<Rightarrow> region_fields \<Rightarrow> region_fields \<Rightarrow> bool" where
  "in_sync ps r1 r2 \<longleftrightarrow> region_size r1 = region_size r2 \<and> (\<forall>i < region_size r1. committed ps r1 i = committed ps r2 i)"

lemma page_of_cong: "head r' = head r \<Longrightarrow> contents r' = contents r \<Longrightarrow> page_of ps r' a = page_of ps r a"
  by (simp add: page_of_def)

lemma committed_no_twins:
  assumes "wf_region ps r" "twins r = []" "i < region_size r"
  shows "committed ps r i = contents r ! i"
  using nth_contents [OF assms(1,3)] assms(2) by (simp add: committed_def base_page_def find_twin_def)

lemma diff_sent:
  assumes s: "sendable rt mprotect ps r" and m: "holds m []" "used m = 0"
  shows "\<exists>r' m'. diff_region rt mprotect ps r m = Inr (word_of_nat (length (twins r)), r', m')
     \<and> holds m' (diff_of ps r) \<and> wf_region ps r' \<and> head r' = head r \<and> region_size r' = region_size r
     \<and> contents r' = contents r \<and> twins r' = [] \<and> (\<forall>i < region_size r. committed ps r' i = contents r ! i)"
proof -
  have u: "used m + 8 + length (twins r) * (6 + 5 * ps) \<le> message_room" using s m(2) by (simp add: sendable_def)
  obtain r' m' where r': "diff_region rt mprotect ps r m = Inr (word_of_nat (length (twins r)), r', m')"
      "holds m' (diff_of ps r)" "wf_region ps r'"
      "r' = r\<lparr>lamport_timestamp := lamport_timestamp r + 1, writable := writable r', twins := []\<rparr>"
    using diff_region_ok [of rt mprotect ps r m] s m(1) u by (auto simp: sendable_def diff_of_def)
  have f: "head r' = head r" "region_size r' = region_size r" "contents r' = contents r" "twins r' = []"
    by (subst r'(4), simp)+
  then have "\<forall>i < region_size r. committed ps r' i = contents r ! i"
    using committed_no_twins [OF r'(3)] by simp
  with r' f show ?thesis by blast
qed

lemma diff_received:
  assumes s: "sendable rt mprotect ps r1" and wf: "wf_region ps r2" and sz: "region_size r2 = region_size r1"
    and mp: "\<forall>a. mprotect' a" and m: "holds m (diff_of ps r1)"
  shows "\<exists>r2'. memory_receive mprotect' ps r2 m = Inr r2' \<and> wf_region ps r2' \<and> head r2' = head r2
     \<and> region_size r2' = region_size r2
     \<and> lamport_timestamp r2' = max (lamport_timestamp r2) (lamport_timestamp r1 + 1)
     \<and> (\<forall>i < region_size r1.
          contents r2' ! i = (if changed ps r1 i then contents r1 ! i else contents r2 ! i)
        \<and> committed ps r2' i = (if changed ps r1 i then contents r1 ! i else committed ps r2 i))"
proof -
  let ?pds = "map (twin_diff ps r1) (twins r1)"
  let ?r = "setLamportTimestamp r2 (lamport_timestamp r1 + 1)"
  have a: "wf_region ps r1" "ps < 65536" "region_size r1 < 2 ^ 32" "length (twins r1) \<le> message_room"
    using s mult_le_mono2 [of 1 "6 + 5 * ps" "length (twins r1)"] unfolding sendable_def by linarith+
  have r: "wf_region ps ?r" "region_size ?r = region_size r1" "head ?r = head r2" "contents ?r = contents r2"
    "twins ?r = twins r2" "lamport_timestamp ?r = max (lamport_timestamp r2) (lamport_timestamp r1 + 1)"
    using wf sz by (simp_all add: setLamportTimestamp_def wf_region_def)
  note tp = twin_pages(1) [OF a(1,2)]
  have n: "length ?pds < 2 ^ 31" using a(4) by (simp add: message_room_def)
  have "memory_receive mprotect' ps r2 m = Inr (foldl (patch_page ps) ?r ?pds)"
    by (rule memory_receive_ok [OF mp a(2) wf _ _ n m [unfolded diff_of_def]]) (use a(3) sz tp in simp_all)
  moreover note diff_effect [OF a(1) r(1,2) a(2)]
  moreover have "committed ps ?r i = committed ps r2 i" for i
    using r(3,5) by (simp add: committed_def base_page_def find_twin_def page_of_cong [OF r(3,4)] split: option.split)
  ultimately show ?thesis using r sz by (intro exI [of _ "foldl (patch_page ps) ?r ?pds"]) simp
qed

lemma holds_unique: "holds m xs \<Longrightarrow> holds m ys \<Longrightarrow> xs = ys"
  by (auto simp: holds_def dest: arg_cong [of _ _ bytes_of])

lemma peer_of_obj_mem [simp]: "peer_of (s\<lparr>obj_mem := m\<rparr>) = peer_of s"
  by (simp add: peer_of_def fun_eq_iff)

lemma put_region_proto [simp]:
  "connected (put_region s a r) = connected s" "ids_of (put_region s a r) = ids_of s"
  "out written (put_region s a r) = out written s"
  by (simp_all add: put_region_def put_obj_def connected_def wf_peers_def ids_of_def out_def find_peer_def
      fun_eq_iff split: option.split)

lemma region_body:
  "region_at s a = Inr r \<longleftrightarrow> (\<exists>ob. obj_mem s a = Some ob \<and> body ob = Region_Body r)"
  by (auto simp: region_at_def obj_at_def split: option.splits obj_body.splits)

lemma exchanged:
  assumes s: "sendable rt mprotect ps r" and m: "new_message rt 300 = Inr m"
    and d: "diff_region rt mprotect ps r m = Inr (n, r', m')" "holds m' bs"
  shows "bs = diff_of ps r" "wf_region ps r'" "region_size r' = region_size r" "contents r' = contents r"
    "i < region_size r \<Longrightarrow> committed ps r' i = contents r ! i"
proof -
  have rt: "enough_memory rt" using s by (simp add: sendable_def)
  have "unat (300 :: u32) < 2 ^ 31" by simp
  with rt obtain m0 where "new_message rt 300 = Inr m0" "holds m0 []" "used m0 = 0" by (rule new_message_ok)
  with m have "holds m []" "used m = 0" by simp_all
  from diff_sent [OF s this] d(1) have "holds m' (diff_of ps r)" and r: "wf_region ps r'" "region_size r' = region_size r"
    "contents r' = contents r" "\<forall>i < region_size r. committed ps r' i = contents r ! i" by auto
  with d(2) show "bs = diff_of ps r" by (metis holds_unique)
  from r show "wf_region ps r'" "region_size r' = region_size r" "contents r' = contents r"
    "i < region_size r \<Longrightarrow> committed ps r' i = contents r ! i" by blast+
qed

lemma received:
  assumes "sendable rt mprotect ps r1" "wf_region ps r2" "region_size r2 = region_size r1"
    and "holds m (diff_of ps r1)" "memory_receive mprotect ps r2 m = Inr r2'"
  shows "region_size r2' = region_size r1" "wf_region ps r2'"
    "i < region_size r1 \<Longrightarrow> contents r2' ! i = (if changed ps r1 i then contents r1 ! i else contents r2 ! i)"
    "i < region_size r1 \<Longrightarrow> committed ps r2' i = (if changed ps r1 i then contents r1 ! i else committed ps r2 i)"
proof -
  have "\<forall>a. mprotect a" using assms(1) by (simp add: sendable_def)
  from diff_received [OF assms(1-3) this assms(4)] obtain r where
    "memory_receive mprotect ps r2 m = Inr r" and r: "region_size r = region_size r2" "wf_region ps r"
    "\<forall>i < region_size r1. contents r ! i = (if changed ps r1 i then contents r1 ! i else contents r2 ! i)
        \<and> committed ps r i = (if changed ps r1 i then contents r1 ! i else committed ps r2 i)" by blast
  then have "r = r2'" using assms(5) by simp
  with r assms(3) show "region_size r2' = region_size r1" "wf_region ps r2'"
    "i < region_size r1 \<Longrightarrow> contents r2' ! i = (if changed ps r1 i then contents r1 ! i else contents r2 ! i)"
    "i < region_size r1 \<Longrightarrow> committed ps r2' i = (if changed ps r1 i then contents r1 ! i else committed ps r2 i)"
    by simp_all
qed

section \<open>Properties\<close>

lemma tx_end_sends:
  assumes s: "sendable rt mprotect (memory_pagesize s) r"
    and c: "connected s" "accepts os written"
    and ob: "obj_mem s a = Some ob" "body ob = Region_Body r" "set (obj_peers ob) \<subseteq> set (ids_of s)" "distinct (obj_peers ob)"
    and b: "length (diff_of (memory_pagesize s) r) + 12 \<le> message_room"
  shows "\<exists>s' r'. edsm_memory_tx_end rt os call mprotect (Some a) s = Inr (SUCCESS, s')
      \<and> region_at s' a = Inr r' \<and> contents r' = contents r \<and> twins r' = []
      \<and> (\<forall>i. out written s' i = (if i \<in> set (obj_peers ob)
           then out written s i @ frame MSG_TYPE_DOBJ (obj_content (obj_id ob) (diff_of (memory_pagesize s) r))
           else out written s i))"
proof -
  let ?ps = "memory_pagesize s" let ?bs = "diff_of ?ps r"
  have rt: "enough_memory rt" and mp: "\<forall>a. mprotect a" using s by (auto simp: sendable_def)
  have "unat (300 :: u32) < 2 ^ 31" by simp
  with rt obtain m where n: "new_message rt 300 = Inr m" "holds m []" "used m = 0" by (rule new_message_ok)
  from diff_sent [OF s n(2,3)] obtain r' m' where
    d: "diff_region rt mprotect ?ps r m = Inr (word_of_nat (length (twins r)), r', m')"
      "holds m' ?bs" "contents r' = contents r" "twins r' = []" by blast
  have ra: "region_at s a = Inr r" using ob by (simp add: region_body)
  let ?s1 = "put_region s a r'" let ?ob = "ob\<lparr>body := Region_Body r'\<rparr>"
  have p: "payload (Some m') ?bs" using d(2) by (simp add: payload_def)
  have o1: "obj_mem ?s1 a = Some ?ob" using ob(1) by (simp add: put_region_def put_obj_def)
  have "\<exists>w. edsm_dobj_send rt os call a (Some m') ?s1 = Inr (SUCCESS, ?s1\<lparr>world := w\<rparr>)
    \<and> (\<forall>i. out written (?s1\<lparr>world := w\<rparr>) i = (if i \<in> set (obj_peers ?ob)
         then out written ?s1 i @ frame MSG_TYPE_DOBJ (obj_content (obj_id ?ob) ?bs) else out written ?s1 i))"
    by (rule dobj_send_ok [OF rt _ c(2) o1 _ _ p b]) (use c(1) ob(3,4) in simp_all)
  then obtain w where w: "edsm_dobj_send rt os call a (Some m') ?s1 = Inr (SUCCESS, ?s1\<lparr>world := w\<rparr>)"
    "\<forall>i. out written (?s1\<lparr>world := w\<rparr>) i = (if i \<in> set (obj_peers ob)
         then out written s i @ frame MSG_TYPE_DOBJ (obj_content (obj_id ob) ?bs) else out written s i)"
    by auto
  have e: "edsm_memory_tx_end rt os call mprotect (Some a) s = Inr (SUCCESS, ?s1\<lparr>world := w\<rparr>)"
    using n(1) ra d(1) w(1) by (simp add: edsm_memory_tx_end_def SUCCESS_def FAILURE_def)
  have r1: "region_at (?s1\<lparr>world := w\<rparr>) a = Inr r'" using o1 by (simp add: region_body)
  with e d(3,4) w(2) show ?thesis by blast
qed

lemma diff_handled:
  assumes s: "sendable rt mprotect ps r"
    and b: "length (diff_of ps r) + 12 \<le> message_room"
    and h: "find_obj s2 i = Some b2" "obj_mem s2 b2 = Some ob2" "inited ob2 \<noteq> 0" "body ob2 = Region_Body r2"
      "memory_pagesize s2 = ps" "wf_region ps r2" "region_size r2 = region_size r"
    and m: "holds m2 (obj_content i (diff_of ps r))"
  shows "\<exists>r2'. edsm_dobj_handle_message rt os call2 (\<lambda>_. edsm_memory_handle_message mprotect) peer m2 s2
              = Inr (FAILURE, put_region s2 b2 r2')
            \<and> (\<forall>i < region_size r. contents r2' ! i = (if changed ps r i then contents r ! i else contents r2 ! i)
               \<and> committed ps r2' i = (if changed ps r i then contents r ! i else committed ps r2 i))"
proof -
  let ?bs = "diff_of ps r"
  have rt: "enough_memory rt" and mp: "\<forall>a. mprotect a" using s by (auto simp: sendable_def)
  have "length ?bs < 2 ^ 31" using b by (simp add: message_room_def)
  from dobj_dispatch_ok [OF rt m this h(1-3), where os = os and call = call2 and peer = peer
      and call_obj = "\<lambda>_. edsm_memory_handle_message mprotect"]
  obtain p where p: "payload p ?bs" "p = None \<longleftrightarrow> ?bs = []"
    "edsm_dobj_handle_message rt os call2 (\<lambda>_. edsm_memory_handle_message mprotect) peer m2 s2
      = res_bind (edsm_memory_handle_message mprotect b2 peer p s2) (\<lambda>(_, s'). Inr (FAILURE, s'))" by blast
  have "?bs \<noteq> []" by (simp add: diff_of_def enc_diff_def bytes_of_u32_def)
  with p(1,2) obtain q where q: "p = Some q" "holds q ?bs" by (cases p) (auto simp: payload_def)
  from diff_received [OF s h(6,7) mp q(2)] obtain r2' where "memory_receive mprotect ps r2 q = Inr r2'"
    "\<forall>i < region_size r. contents r2' ! i = (if changed ps r i then contents r ! i else contents r2 ! i)
       \<and> committed ps r2' i = (if changed ps r i then contents r ! i else committed ps r2 i)" by blast
  moreover have "region_at s2 b2 = Inr r2" using h by (simp add: region_body)
  ultimately show ?thesis using p(3) q(1) h(5) by (auto simp: edsm_memory_handle_message_def)
qed

text \<open>C2: the end of a transaction, all the way: \<^verbatim>\<open>edsm_memory_tx_end\<close> sends each
  holder of the region one frame, keeps the local bytes and drops the twins; and at a node that receives
  the frame and has the region, \<^verbatim>\<open>edsm_dobj_handle_message\<close> stores exactly the bytes that
  the sender had changed, in the memory and in the committed view, and touches no other byte.\<close>

theorem tx_end_propagates:
  assumes s: "sendable rt mprotect (memory_pagesize s) r"
    and c: "connected s" "accepts os written"
    and ob: "obj_mem s a = Some ob" "body ob = Region_Body r" "set (obj_peers ob) \<subseteq> set (ids_of s)" "distinct (obj_peers ob)"
    and b: "length (diff_of (memory_pagesize s) r) + 12 \<le> message_room"
    and h: "find_obj s2 (obj_id ob) = Some b2" "obj_mem s2 b2 = Some ob2" "inited ob2 \<noteq> 0" "body ob2 = Region_Body r2"
      "memory_pagesize s2 = memory_pagesize s" "wf_region (memory_pagesize s) r2" "region_size r2 = region_size r"
    and m: "holds m2 (obj_content (obj_id ob) (diff_of (memory_pagesize s) r))"
  shows "(\<exists>s' r'. edsm_memory_tx_end rt os call mprotect (Some a) s = Inr (SUCCESS, s')
      \<and> region_at s' a = Inr r' \<and> contents r' = contents r \<and> twins r' = []
      \<and> (\<forall>i. out written s' i = (if i \<in> set (obj_peers ob)
           then out written s i @ frame MSG_TYPE_DOBJ (obj_content (obj_id ob) (diff_of (memory_pagesize s) r))
           else out written s i)))
    \<and> (\<exists>r2'. edsm_dobj_handle_message rt os call2 (\<lambda>_. edsm_memory_handle_message mprotect) peer m2 s2
           = Inr (FAILURE, put_region s2 b2 r2')
      \<and> (\<forall>i < region_size r.
           contents r2' ! i = (if changed (memory_pagesize s) r i then contents r ! i else contents r2 ! i)
         \<and> committed (memory_pagesize s) r2' i
             = (if changed (memory_pagesize s) r i then contents r ! i else committed (memory_pagesize s) r2 i)))"
  by (rule conjI [OF tx_end_sends [OF s c ob b] diff_handled [OF s b h m]])

text \<open>C3: transactions keep replicas in sync: if two replicas agree on the committed bytes and one of
  them ends a transaction and the other applies its diff, they agree again, on the bytes the sender
  now has, whatever uncommitted stores the receiver holds in open pages; those stores survive except where
  the diff overwrites them.\<close>

theorem replicas_stay_in_sync:
  assumes "sendable rt mprotect ps r1" "wf_region ps r2" "in_sync ps r1 r2"
    and "new_message rt 300 = Inr m" "diff_region rt mprotect ps r1 m = Inr (n, r1', m1)"
    and "holds m1 bs" "holds m2 bs" "memory_receive mprotect ps r2 m2 = Inr r2'"
  shows "in_sync ps r1' r2' \<and> (\<forall>i < region_size r1. committed ps r2' i = contents r1 ! i
       \<and> (changed ps r1 i \<or> contents r2' ! i = contents r2 ! i))"
proof -
  note d = exchanged [OF assms(1,4,5,6)]
  have sz: "region_size r2 = region_size r1" using assms(3) by (simp add: in_sync_def)
  note r = received [OF assms(1,2) sz assms(7) [unfolded d(1)] assms(8)]
  have "\<forall>i < region_size r1. committed ps r2' i = contents r1 ! i"
    using assms(3) r(4) by (auto simp: in_sync_def changed_def)
  with r(1,3) d show ?thesis by (auto simp: in_sync_def)
qed

text \<open>C13: two replicas that are in sync end their transactions at the same time, so that their diffs cross. Afterwards
  both have the same bytes, and no open page, except at the bytes that both had changed and changed
  differently: there each ends with the other's value. The Lamport timestamp that the messages carry decides
  nothing.\<close>

theorem crossing_diffs:
  assumes "sendable rt mprotect ps r1" "sendable rt mprotect ps r2" "in_sync ps r1 r2"
    and "new_message rt 300 = Inr m"
    and "diff_region rt mprotect ps r1 m = Inr (n1, r1', m1)" "diff_region rt mprotect ps r2 m = Inr (n2, r2', m2)"
    and "holds m1 bs1" "holds m1' bs1" "holds m2 bs2" "holds m2' bs2"
    and "memory_receive mprotect ps r1' m2' = Inr r1''" "memory_receive mprotect ps r2' m1' = Inr r2''"
    and "i < region_size r1"
  shows "if changed ps r1 i \<and> changed ps r2 i
     then contents r1'' ! i = contents r2 ! i \<and> contents r2'' ! i = contents r1 ! i
     else contents r1'' ! i = contents r2'' ! i
       \<and> contents r1'' ! i = (if changed ps r1 i then contents r1 ! i else contents r2 ! i)"
proof -
  note d1 = exchanged [OF assms(1,4,5,7)] and d2 = exchanged [OF assms(2,4,6,9)]
  have sz: "region_size r1 = region_size r2" using assms(3) by (simp add: in_sync_def)
  have i2: "i < region_size r2" using assms(13) sz by simp
  have s1: "region_size r1' = region_size r2" and s2: "region_size r2' = region_size r1" using d1 d2 sz by simp_all
  have "contents r1'' ! i = (if changed ps r2 i then contents r2 ! i else contents r1' ! i)"
    by (rule received(3) [OF assms(2) d1(2) s1 assms(10) [unfolded d2(1)] assms(11) i2])
  moreover have "contents r2'' ! i = (if changed ps r1 i then contents r1 ! i else contents r2' ! i)"
    by (rule received(3) [OF assms(1) d2(2) s2 assms(8) [unfolded d1(1)] assms(12,13)])
  moreover have "committed ps r1 i = committed ps r2 i" using assms(3,13) by (simp add: in_sync_def)
  ultimately show ?thesis using d1(4) d2(4) by (auto simp: changed_def)
qed

section \<open>Concrete instances\<close>

text \<open>The region of \<^term>\<open>memory_node\<close> with its second page open and byte 5 changed; and a replica
  elsewhere with byte 6 changed.\<close>

definition dirty_region :: region_fields where
  "dirty_region = sample_region\<lparr>contents := [0, 1, 2, 3, 4, 9, 6, 7], writable := (\<lambda>p. p = 12),
     twins := [\<lparr>original_page_head = 12, twin_data = [4, 5, 6, 7]\<rparr>]\<rparr>"

definition dirty_replica :: region_fields where
  "dirty_replica = sample_region\<lparr>head := 16, contents := [0, 1, 2, 3, 4, 5, 8, 7], writable := (\<lambda>p. p = 20),
     twins := [\<lparr>original_page_head = 20, twin_data = [4, 5, 6, 7]\<rparr>]\<rparr>"

lemma dirty_ok: "sendable good_runtime (\<lambda>_. True) 4 dirty_region" "sendable good_runtime (\<lambda>_. True) 4 dirty_replica"
  "wf_region 4 dirty_replica" "in_sync 4 dirty_region dirty_replica"
proof -
  have w: "wf_region 4 dirty_region" "wf_region 4 dirty_replica"
    by (simp_all add: wf_region_def dirty_region_def dirty_replica_def sample_region_def)
  then show "sendable good_runtime (\<lambda>_. True) 4 dirty_region" "sendable good_runtime (\<lambda>_. True) 4 dirty_replica"
      "wf_region 4 dirty_replica"
    by (simp_all add: sendable_def message_room_def) (simp_all add: dirty_region_def dirty_replica_def sample_region_def)
  have "committed 4 dirty_region i = committed 4 dirty_replica i" if "i < 8" for i
  proof -
    from that consider "i = 0" | "i = 1" | "i = 2" | "i = 3" | "i = 4" | "i = 5" | "i = 6" | "i = 7" by linarith
    then show ?thesis
      by cases (simp_all add: committed_def base_page_def find_twin_def page_of_def dirty_region_def dirty_replica_def sample_region_def)
  qed
  then show "in_sync 4 dirty_region dirty_replica"
    by (simp add: in_sync_def) (simp add: dirty_region_def dirty_replica_def sample_region_def)
qed

lemma dirty_views: "region_size dirty_region = 8" "changed 4 dirty_region 5" "\<not> changed 4 dirty_region 6"
  "\<not> changed 4 dirty_replica 5" "changed 4 dirty_replica 6" "contents dirty_region ! 5 = 9" "contents dirty_replica ! 6 = 8"
  by code_simp+

lemma dirty_lengths: "length (diff_of 4 dirty_region) = 19" "length (diff_of 4 dirty_replica) = 19"
  by (simp_all add: diff_of_def enc_diff_def enc_page_def enc_sections_def enc_section_def twin_diff_def sections_def
      page_of_def dirty_region_def dirty_replica_def sample_region_def)

lemma dirty_messages: "holds (message_of (diff_of 4 dirty_region)) (diff_of 4 dirty_region)"
  "holds (message_of (diff_of 4 dirty_replica)) (diff_of 4 dirty_replica)"
  by (rule conjunct1 [OF holds_message_of]; simp add: dirty_lengths)+

definition memory_sender :: "(nat, int \<Rightarrow> byte list, nat) memory" where
  "memory_sender = put_region memory_node 0 dirty_region"

text \<open>A message created for a diff, and the diff of a region written into it.\<close>

lemma diff_sample:
  assumes "sendable good_runtime mprotect ps r"
  obtains m n r' m' where "new_message good_runtime 300 = Inr m" "diff_region good_runtime mprotect ps r m = Inr (n, r', m')"
    "holds m' (diff_of ps r)"
proof -
  have "unat (300 :: u32) < 2 ^ 31" by simp
  with enough_memory_good obtain m where m: "new_message good_runtime 300 = Inr m" "holds m []" "used m = 0" by (rule new_message_ok)
  from diff_sent [OF assms m(2,3)] that [OF m(1)] show ?thesis by blast
qed

lemma memory_node_connected: "connected memory_node" "ids_of memory_node = [2, 3]" "find_obj memory_node 9 = Some 0"
proof -
  have e: "peer_mem memory_node = peer_mem node_with_object" "peers memory_node = peers node_with_object"
    "my_id memory_node = my_id node_with_object" "objects memory_node = objects node_with_object"
    by (simp_all add: memory_node_def dobjs.extend_def)
  from connected_cong [OF e(1-3)] show "connected memory_node" "ids_of memory_node = [2, 3]"
    using node_with_object_ok(1,2) by simp_all
  have "obj_key (obj_mem memory_node) = obj_key (obj_mem node_with_object)"
    by (simp add: obj_key_def memory_node_ok node_with_object_ok fun_eq_iff)
  then show "find_obj memory_node 9 = Some 0" using node_with_object_ok(4) by (simp add: find_obj_def e)
qed

lemma tx_end_propagates_witness:
  "\<exists>s' r' r2'. edsm_memory_tx_end good_runtime tape_os no_call (\<lambda>_. True) (Some 0) memory_sender = Inr (SUCCESS, s')
    \<and> region_at s' 0 = Inr r' \<and> contents r' = contents dirty_region \<and> twins r' = []
    \<and> out (\<lambda>w. w) s' 3 = out (\<lambda>w. w) memory_sender 3 @ frame MSG_TYPE_DOBJ (obj_content 9 (diff_of 4 dirty_region))
    \<and> edsm_dobj_handle_message good_runtime tape_os no_call (\<lambda>_. edsm_memory_handle_message (\<lambda>_. True)) 5
           (message_of (obj_content 9 (diff_of 4 dirty_region))) memory_node = Inr (FAILURE, put_region memory_node 0 r2')
    \<and> contents r2' ! 5 = 9 \<and> contents r2' ! 6 = 6"
proof -
  let ?ob = "sample_object\<lparr>body := Region_Body dirty_region\<rparr>"
  let ?ob2 = "sample_object\<lparr>body := Region_Body sample_region\<rparr>"
  have o: "obj_mem memory_sender 0 = Some ?ob" "memory_pagesize memory_sender = 4"
    by (simp_all add: memory_sender_def put_region_def put_obj_def memory_node_ok)
  have c: "connected memory_sender" "ids_of memory_sender = [2, 3]"
    using memory_node_connected by (simp_all add: memory_sender_def)
  have h: "holds (message_of (obj_content 9 (diff_of 4 dirty_region))) (obj_content 9 (diff_of 4 dirty_region))"
    by (rule conjunct1 [OF holds_message_of]) (simp add: obj_content_def dirty_lengths)
  have sz: "region_size sample_region = region_size dirty_region" by (simp add: dirty_region_def)
  have p: "set (obj_peers ?ob) \<subseteq> set (ids_of memory_sender)" "distinct (obj_peers ?ob)" "inited ?ob2 \<noteq> 0" "obj_id ?ob = 9"
    by (simp_all add: c sample_object_def)
  have l: "length (diff_of 4 dirty_region) + 12 \<le> message_room" by (simp add: dirty_lengths message_room_def)
  note t = tx_end_propagates [of good_runtime "\<lambda>_. True" memory_sender dirty_region tape_os "\<lambda>w. w" 0 ?ob memory_node 0 ?ob2 sample_region
    "message_of (obj_content 9 (diff_of 4 dirty_region))" no_call no_call 5, unfolded o(2) p(4),
    OF dirty_ok(1) c(1) tape_os_accepts o(1) _ p(1,2) l memory_node_connected(3) _ p(3) _ memory_node_ok(2) sample_region_ok sz h]
  then obtain s' r' r2' where "edsm_memory_tx_end good_runtime tape_os no_call (\<lambda>_. True) (Some 0) memory_sender = Inr (SUCCESS, s')"
      "region_at s' 0 = Inr r'" "contents r' = contents dirty_region" "twins r' = []"
      "out (\<lambda>w. w) s' 3 = out (\<lambda>w. w) memory_sender 3 @ frame MSG_TYPE_DOBJ (obj_content 9 (diff_of 4 dirty_region))"
    and r2: "edsm_dobj_handle_message good_runtime tape_os no_call (\<lambda>_. edsm_memory_handle_message (\<lambda>_. True)) 5
           (message_of (obj_content 9 (diff_of 4 dirty_region))) memory_node = Inr (FAILURE, put_region memory_node 0 r2')"
    "\<forall>i < region_size dirty_region. contents r2' ! i = (if changed 4 dirty_region i then contents dirty_region ! i else contents sample_region ! i)"
    by (auto simp: sample_object_def memory_node_ok)
  moreover have "contents r2' ! 5 = 9" "contents r2' ! 6 = 6" using r2(2) dirty_views by (simp_all add: sample_region_def)
  ultimately show ?thesis by blast
qed

lemma replicas_stay_in_sync_witness:
  "\<exists>m n r1' m1 r2'. diff_region good_runtime (\<lambda>_. True) 4 dirty_region m = Inr (n, r1', m1)
     \<and> memory_receive (\<lambda>_. True) 4 dirty_replica (message_of (diff_of 4 dirty_region)) = Inr r2'
     \<and> in_sync 4 r1' r2' \<and> contents r2' ! 6 = 8"
proof -
  from diff_sample [OF dirty_ok(1)] obtain m n r1' m1 where
    m: "new_message good_runtime 300 = Inr m" and d: "diff_region good_runtime (\<lambda>_. True) 4 dirty_region m = Inr (n, r1', m1)"
      "holds m1 (diff_of 4 dirty_region)" .
  note h = dirty_messages(1)
  have sz: "region_size dirty_replica = region_size dirty_region" using dirty_ok(4) by (simp add: in_sync_def)
  from diff_received [OF dirty_ok(1,3) sz _ h, of "\<lambda>_. True"] obtain r2' where
    r2: "memory_receive (\<lambda>_. True) 4 dirty_replica (message_of (diff_of 4 dirty_region)) = Inr r2'" by auto
  note t = replicas_stay_in_sync [OF dirty_ok(1,3,4) m d h r2]
  have "contents r2' ! 6 = 8" using t [THEN conjunct2, THEN spec, of 6] dirty_views by simp
  with t d(1) r2 show ?thesis by blast
qed

lemma crossing_diffs_witness:
  "\<exists>m n1 n2 r1' r2' m1 m2 r1'' r2''.
     diff_region good_runtime (\<lambda>_. True) 4 dirty_region m = Inr (n1, r1', m1)
     \<and> diff_region good_runtime (\<lambda>_. True) 4 dirty_replica m = Inr (n2, r2', m2)
     \<and> memory_receive (\<lambda>_. True) 4 r1' (message_of (diff_of 4 dirty_replica)) = Inr r1''
     \<and> memory_receive (\<lambda>_. True) 4 r2' (message_of (diff_of 4 dirty_region)) = Inr r2''
     \<and> contents r1'' ! 5 = 9 \<and> contents r2'' ! 5 = 9"
proof -
  from diff_sample [OF dirty_ok(1)] obtain m n1 r1' m1 where
    m: "new_message good_runtime 300 = Inr m" and d1: "diff_region good_runtime (\<lambda>_. True) 4 dirty_region m = Inr (n1, r1', m1)"
      "holds m1 (diff_of 4 dirty_region)" .
  from diff_sample [OF dirty_ok(2)] m obtain n2 r2' m2 where
    d2: "diff_region good_runtime (\<lambda>_. True) 4 dirty_replica m = Inr (n2, r2', m2)" "holds m2 (diff_of 4 dirty_replica)"
    by (metis sum.inject(2))
  note h1 = dirty_messages(1) and h2 = dirty_messages(2)
  note e1 = exchanged [OF dirty_ok(1) m d1] and e2 = exchanged [OF dirty_ok(2) m d2]
  have sz: "region_size dirty_replica = region_size dirty_region" using dirty_ok(4) by (simp add: in_sync_def)
  have s: "region_size r1' = region_size dirty_replica" "region_size r2' = region_size dirty_region" using e1(3) e2(3) sz by simp_all
  from diff_received [OF dirty_ok(2) e1(2) s(1) _ h2, of "\<lambda>_. True"] obtain r1'' where
    r1: "memory_receive (\<lambda>_. True) 4 r1' (message_of (diff_of 4 dirty_replica)) = Inr r1''" by auto
  from diff_received [OF dirty_ok(1) e2(2) s(2) _ h1, of "\<lambda>_. True"] obtain r2'' where
    r2: "memory_receive (\<lambda>_. True) 4 r2' (message_of (diff_of 4 dirty_region)) = Inr r2''" by auto
  from crossing_diffs [OF dirty_ok(1,2,4) m d1(1) d2(1) d1(2) h1 d2(2) h2 r1 r2, of 5] dirty_views
  have "contents r1'' ! 5 = 9 \<and> contents r2'' ! 5 = 9" by auto
  with d1(1) d2(1) r1 r2 show ?thesis by blast
qed

end
