(* ===== verification/Mutex.thy ===== *)
theory Mutex
  imports Memory_Dobj
begin

text \<open>
  Distributed mutexes, \<^verbatim>\<open>src/src/dobj/mutex.c\<close>: an object whose holders ask each other for
  permission with Lamport timestamps, after Ricart and Agrawala. The list of deferred requests is kept
  sorted with \<^verbatim>\<open>LL_SORT\<close>. The field \<^verbatim>\<open>lock\<close> makes every operation one step; the field
  \<^verbatim>\<open>local_mutex\<close>, held from \<^verbatim>\<open>edsm_mutex_lock\<close> to \<^verbatim>\<open>edsm_mutex_unlock\<close>, is
  \<open>local_locked\<close>. A function that blocks is split there.
\<close>

section \<open>Operations\<close>

definition EDSM_MUTEX_MSG_TYPE_REQUEST :: u32 where "EDSM_MUTEX_MSG_TYPE_REQUEST = 1"
definition EDSM_MUTEX_MSG_TYPE_REPLY :: u32 where "EDSM_MUTEX_MSG_TYPE_REPLY = 2"

definition request_comp :: "request_entry \<Rightarrow> request_entry \<Rightarrow> int" where
  "request_comp a b =
     (if req_time a \<noteq> req_time b then (if req_time a > req_time b then 1 else -1)
      else if req_peer a \<noteq> req_peer b then (if req_peer a > req_peer b then 1 else -1)
      else 0)"

definition mutex_at :: "('h, 'w, 'k, 'z) dobjs_scheme \<Rightarrow> nat \<Rightarrow> mutex_fields res" where
  "mutex_at s a = res_bind (obj_at s a) (\<lambda>ob. case body ob of
     Mutex_Body mx \<Rightarrow> Inr mx | _ \<Rightarrow> Inl TypeConfusion)"

definition put_mutex ::
    "('h, 'w, 'k, 'z) dobjs_scheme \<Rightarrow> nat \<Rightarrow> mutex_fields \<Rightarrow> ('h, 'w, 'k, 'z) dobjs_scheme" where
  "put_mutex s a mx = (case obj_mem s a of None \<Rightarrow> s | Some ob \<Rightarrow> put_obj s a (ob\<lparr>body := Mutex_Body mx\<rparr>))"

text \<open>The reply is sent with \<^verbatim>\<open>edsm_dobj_send\<close>; the argument \<open>peer\<close> is not used.\<close>

definition edsm_mutex_send_reply ::
    "runtime \<Rightarrow> 'w os \<Rightarrow> ('h, 'w, ('k, 'z) dobjs_ext) call \<Rightarrow> nat \<Rightarrow> u32
       \<Rightarrow> ('h, 'w, 'k, 'z) dobjs_scheme \<Rightarrow> (int \<times> ('h, 'w, 'k, 'z) dobjs_scheme) res" where
  "edsm_mutex_send_reply rt os call a peer s =
     res_bind (new_message rt 8) (\<lambda>reply.
     res_bind (mutex_at s a) (\<lambda>mx.
     let t = l_time mx + 1 in
     res_bind (write_u32s rt reply [EDSM_MUTEX_MSG_TYPE_REPLY, t]) (\<lambda>reply1.
     res_bind (edsm_dobj_send rt os call a (Some reply1) (put_mutex s a (mx\<lparr>l_time := t\<rparr>))) (\<lambda>(_, s').
     Inr (SUCCESS, s')))))"

definition edsm_mutex_handle_message ::
    "runtime \<Rightarrow> 'w os \<Rightarrow> ('h, 'w, ('k, 'z) dobjs_ext) call \<Rightarrow> nat \<Rightarrow> u32 \<Rightarrow> edsm_message option
       \<Rightarrow> ('h, 'w, 'k, 'z) dobjs_scheme \<Rightarrow> (int \<times> ('h, 'w, 'k, 'z) dobjs_scheme) res" where
  "edsm_mutex_handle_message rt os call a peer msg s =
     res_bind (non_null msg) (\<lambda>m.
     res_bind (read_u32 m) (\<lambda>(_, mt, m1).
     res_bind (read_u32 m1) (\<lambda>(_, rl, m2).
     res_bind (mutex_at s a) (\<lambda>mx0.
     res_bind (determinate rl) (\<lambda>remote_l_time.
     let mx = mx0\<lparr>l_time := (if remote_l_time > l_time mx0 then remote_l_time else l_time mx0) + 1\<rparr>;
         s1 = put_mutex s a mx
     in res_bind (determinate mt) (\<lambda>msg_type.
        if msg_type = EDSM_MUTEX_MSG_TYPE_REQUEST then
          res_bind (non_null (malloc rt 24)) (\<lambda>_.
          let other = \<lparr>req_time = remote_l_time, req_peer = peer\<rparr> in
          if (case local_request mx of None \<Rightarrow> True | Some r \<Rightarrow> request_comp r other > 0)
          then res_bind (edsm_mutex_send_reply rt os call a peer s1) (\<lambda>(_, s2). Inr (SUCCESS, s2))
          else res_bind (LL_SORT request_comp (requests mx @ [other])) (\<lambda>sorted_requests.
            Inr (SUCCESS, put_mutex s a (mx\<lparr>requests := sorted_requests\<rparr>))))
        else if msg_type = EDSM_MUTEX_MSG_TYPE_REPLY then
          Inr (SUCCESS, put_mutex s a (mx\<lparr>mutex_waiter := waiter_add_reply (mutex_waiter mx) peer\<rparr>))
        else Inr (SUCCESS, s1)))))))"

text \<open>\<^verbatim>\<open>edsm_mutex_get\<close> up to where \<^verbatim>\<open>edsm_dobj_get\<close> waits, and its rest.\<close>

definition sizeof_edsm_mutex :: nat where "sizeof_edsm_mutex = 208"

definition zero_mutex :: mutex_fields where
  "zero_mutex = \<lparr>l_time = 0, local_locked = False, requests = [], mutex_waiter = [], local_request = None\<rparr>"

definition edsm_mutex_get_start ::
    "runtime \<Rightarrow> 'w os \<Rightarrow> ('h, 'w, ('k, 'z) dobjs_ext) call \<Rightarrow> u32 \<Rightarrow> 'k
       \<Rightarrow> ('h, 'w, 'k, 'z) dobjs_scheme \<Rightarrow> (nat \<times> bool \<times> ('h, 'w, 'k, 'z) dobjs_scheme) res" where
  "edsm_mutex_get_start rt os call i handler s =
     edsm_dobj_get_start rt os call i sizeof_edsm_mutex (Mutex_Body zero_mutex) handler s"

definition edsm_mutex_get_finish ::
    "nat \<Rightarrow> bool \<Rightarrow> ('h, 'w, 'k, 'z) dobjs_scheme \<Rightarrow> (nat \<times> ('h, 'w, 'k, 'z) dobjs_scheme) res option" where
  "edsm_mutex_get_finish a wait s =
     map_option (\<lambda>r. res_bind r (\<lambda>(a, s1).
       res_bind (edsm_dobj_test_and_init a s1) (\<lambda>(was_inited, s2).
       if was_inited = 0
       then res_bind (mutex_at s2 a) (\<lambda>mx.
         Inr (a, put_mutex s2 a (mx\<lparr>local_locked := False, mutex_waiter := waiter_create\<rparr>)))
       else Inr (a, s2)))) (edsm_dobj_get_finish a wait s)"

text \<open>
  \<^verbatim>\<open>edsm_mutex_lock\<close> up to its wait; \<^term>\<open>None\<close> while another thread of the node has the
  mutex. Then it returns when the waiter is released.
\<close>

definition edsm_mutex_lock_start ::
    "runtime \<Rightarrow> 'w os \<Rightarrow> ('h, 'w, ('k, 'z) dobjs_ext) call \<Rightarrow> nat
       \<Rightarrow> ('h, 'w, 'k, 'z) dobjs_scheme \<Rightarrow> ('h, 'w, 'k, 'z) dobjs_scheme res option" where
  "edsm_mutex_lock_start rt os call a s =
     (case mutex_at s a of
        Inl e \<Rightarrow> Some (Inl e)
      | Inr mx0 \<Rightarrow>
          if local_locked mx0 then None
          else Some (
            res_bind (check AssertionFailed (local_request mx0 = None)) (\<lambda>_.
            res_bind (edsm_dobj_get_peers a s) (\<lambda>ps.
            let t = l_time mx0 + 1;
                mx = mx0\<lparr>l_time := t, local_locked := True, mutex_waiter := waiter_set_wait_on (mutex_waiter mx0) ps\<rparr>
            in res_bind (new_message rt 8) (\<lambda>m.
               res_bind (write_u32s rt m [EDSM_MUTEX_MSG_TYPE_REQUEST, t]) (\<lambda>m1.
               res_bind (edsm_dobj_send rt os call a (Some m1) (put_mutex s a mx)) (\<lambda>(_, s1).
               res_bind (non_null (malloc rt 24)) (\<lambda>_.
               res_bind (mutex_at s1 a) (\<lambda>mx1.
               Inr (put_mutex s1 a
                 (mx1\<lparr>local_request := Some \<lparr>req_time = t, req_peer = edsm_proto_local_id s1\<rparr>\<rparr>)))))))))))"

definition edsm_mutex_lock_finish ::
    "nat \<Rightarrow> ('h, 'w, 'k, 'z) dobjs_scheme \<Rightarrow> int res option" where
  "edsm_mutex_lock_finish a s =
     (case mutex_at s a of
        Inl e \<Rightarrow> Some (Inl e)
      | Inr mx \<Rightarrow> if waiter_done (mutex_waiter mx) then Some (Inr SUCCESS) else None)"

text \<open>The loop of \<^verbatim>\<open>edsm_mutex_unlock\<close> over the deferred requests.\<close>

fun send_replies ::
    "runtime \<Rightarrow> 'w os \<Rightarrow> ('h, 'w, ('k, 'z) dobjs_ext) call \<Rightarrow> nat \<Rightarrow> request_entry list
       \<Rightarrow> ('h, 'w, 'k, 'z) dobjs_scheme \<Rightarrow> ('h, 'w, 'k, 'z) dobjs_scheme res" where
  "send_replies rt os call a [] s = Inr s"
| "send_replies rt os call a (e # es) s =
     res_bind (edsm_mutex_send_reply rt os call a (req_peer e) s) (\<lambda>(_, s').
     send_replies rt os call a es s')"

definition edsm_mutex_unlock ::
    "runtime \<Rightarrow> 'w os \<Rightarrow> ('h, 'w, ('k, 'z memory_ext) dobjs_ext) call \<Rightarrow> (nat \<Rightarrow> bool) \<Rightarrow> nat
       \<Rightarrow> ('h, 'w, 'k, 'z) memory_scheme \<Rightarrow> (int \<times> ('h, 'w, 'k, 'z) memory_scheme) res" where
  "edsm_mutex_unlock rt os call mprotect a s =
     res_bind (edsm_memory_tx_end rt os call mprotect None s) (\<lambda>(_, s1).
     res_bind (mutex_at s1 a) (\<lambda>mx.
     res_bind (send_replies rt os call a (requests mx) s1) (\<lambda>s2.
     res_bind (mutex_at s2 a) (\<lambda>mx2.
     Inr (SUCCESS, put_mutex s2 a (mx2\<lparr>requests := [], local_request := None, local_locked := False\<rparr>))))))"

section \<open>The order of requests\<close>

interpretation request_order: comparator request_comp
  by unfold_locales (auto simp: request_comp_def split: if_splits)

lemma request_comp_flip: "request_comp a b = - request_comp b a"
  by (auto simp: request_comp_def)

lemma request_comp_less:
  "request_comp a b > 0 \<longleftrightarrow> req_time b < req_time a \<or> (req_time b = req_time a \<and> req_peer b < req_peer a)"
  by (auto simp: request_comp_def)

text \<open>Requests are ordered by time and then by peer.\<close>

instantiation request_entry_ext :: (linorder) linorder
begin

definition less_eq_request_entry_ext :: "'a request_entry_scheme \<Rightarrow> 'a request_entry_scheme \<Rightarrow> bool" where
  "less_eq_request_entry_ext a b \<longleftrightarrow> req_time a < req_time b \<or> (req_time a = req_time b \<and>
     (req_peer a < req_peer b \<or> (req_peer a = req_peer b \<and> request_entry.more a \<le> request_entry.more b)))"

definition less_request_entry_ext :: "'a request_entry_scheme \<Rightarrow> 'a request_entry_scheme \<Rightarrow> bool" where
  "less_request_entry_ext a b \<longleftrightarrow> a \<le> b \<and> \<not> b \<le> a"

instance
  by standard (auto simp: less_eq_request_entry_ext_def less_request_entry_ext_def)

end

lemma request_comp_le: "request_comp a b \<le> 0 \<longleftrightarrow> a \<le> b"
  by (auto simp: request_comp_def less_eq_request_entry_ext_def)

section \<open>The protocol of one node\<close>

text \<open>
  What a mutex does, without the message buffers: the messages it receives and broadcasts to the
  holders, and the fields it changes.
\<close>

datatype mutex_msg = Request u32 | Reply u32

definition mutex_bytes :: "mutex_msg \<Rightarrow> byte list" where
  "mutex_bytes mm = (case mm of
      Request t \<Rightarrow> bytes_of_u32 EDSM_MUTEX_MSG_TYPE_REQUEST @ bytes_of_u32 t
    | Reply t \<Rightarrow> bytes_of_u32 EDSM_MUTEX_MSG_TYPE_REPLY @ bytes_of_u32 t)"

definition mutex_reply :: "mutex_fields \<Rightarrow> mutex_fields \<times> mutex_msg list" where
  "mutex_reply mx = (mx\<lparr>l_time := l_time mx + 1\<rparr>, [Reply (l_time mx + 1)])"

definition clock_seen :: "u32 \<Rightarrow> mutex_fields \<Rightarrow> mutex_fields" where
  "clock_seen t mx = mx\<lparr>l_time := max t (l_time mx) + 1\<rparr>"

text \<open>A node defers a request unless it does not want the mutex or has a later request of its own.\<close>

definition defers :: "u32 \<Rightarrow> mutex_msg \<Rightarrow> mutex_fields \<Rightarrow> bool" where
  "defers peer mm mx \<longleftrightarrow> (case mm of Reply t \<Rightarrow> False
     | Request t \<Rightarrow> \<exists>r. local_request mx = Some r \<and> request_comp r \<lparr>req_time = t, req_peer = peer\<rparr> \<le> 0)"

text \<open>A message received. The list of deferred requests is the one \<^const>\<open>LL_SORT\<close> returns while it does not overflow.\<close>

definition mutex_receive :: "u32 \<Rightarrow> mutex_msg \<Rightarrow> mutex_fields \<Rightarrow> mutex_fields \<times> mutex_msg list" where
  "mutex_receive peer mm mx =
     (case mm of
        Request t \<Rightarrow>
          let mx1 = clock_seen t mx; other = \<lparr>req_time = t, req_peer = peer\<rparr> in
          if (case local_request mx of None \<Rightarrow> True | Some r \<Rightarrow> request_comp r other > 0)
          then mutex_reply mx1
          else (mx1\<lparr>requests := merge_sort request_comp (requests mx1 @ [other])\<rparr>, [])
      | Reply t \<Rightarrow>
          let mx1 = clock_seen t mx in
          (mx1\<lparr>mutex_waiter := waiter_add_reply (mutex_waiter mx1) peer\<rparr>, []))"

definition mutex_request :: "u32 \<Rightarrow> u32 list \<Rightarrow> mutex_fields \<Rightarrow> mutex_fields \<times> mutex_msg list" where
  "mutex_request me ps mx =
     (let t = l_time mx + 1 in
      (mx\<lparr>l_time := t, local_locked := True, mutex_waiter := ps, local_request := Some \<lparr>req_time = t, req_peer = me\<rparr>\<rparr>,
       [Request t]))"

fun mutex_replies :: "nat \<Rightarrow> mutex_fields \<Rightarrow> mutex_fields \<times> mutex_msg list" where
  "mutex_replies 0 mx = (mx, [])"
| "mutex_replies (Suc n) mx =
     (let (mx1, out1) = mutex_reply mx; (mx2, out2) = mutex_replies n mx1 in (mx2, out1 @ out2))"

definition mutex_release :: "mutex_fields \<Rightarrow> mutex_fields \<times> mutex_msg list" where
  "mutex_release mx =
     (let (mx1, ms) = mutex_replies (length (requests mx)) mx in
      (mx1\<lparr>requests := [], local_request := None, local_locked := False\<rparr>, ms))"

section \<open>The node implements the protocol\<close>

lemma mutex_body:
  "mutex_at s a = Inr mx \<longleftrightarrow> (\<exists>ob. obj_mem s a = Some ob \<and> body ob = Mutex_Body mx)"
  by (auto simp: mutex_at_def obj_at_def split: option.splits obj_body.splits)

lemma mutex_at_put: "mutex_at s a = Inr mx \<Longrightarrow> mutex_at (put_mutex s a mx') a = Inr mx'"
  by (auto simp: mutex_body put_mutex_def put_obj_def)

lemma put_mutex_simps [simp]:
  "put_mutex (put_mutex s a mx) a mx' = put_mutex s a mx'"
  "put_mutex (s\<lparr>world := w\<rparr>) a mx = (put_mutex s a mx)\<lparr>world := w\<rparr>"
  "mutex_at (s\<lparr>world := w\<rparr>) = mutex_at s"
  "connected (put_mutex s a mx) = connected s" "ids_of (put_mutex s a mx) = ids_of s"
  "out written (put_mutex s a mx) = out written s" "world (put_mutex s a mx) = world s"
  "my_id (put_mutex s a mx) = my_id s"
  by (simp_all add: put_mutex_def put_obj_def mutex_at_def connected_def wf_peers_def ids_of_def out_def
      find_peer_def fun_eq_iff split: option.split)

text \<open>A mutex the node can use: its holders are connected peers.\<close>

definition usable ::
    "runtime \<Rightarrow> 'w os \<Rightarrow> ('w \<Rightarrow> int \<Rightarrow> byte list) \<Rightarrow> ('h, 'w, 'k, 'z) dobjs_scheme \<Rightarrow> nat \<Rightarrow> 'k edsm_dobj \<Rightarrow> bool" where
  "usable rt os written s a ob \<longleftrightarrow> enough_memory rt \<and> connected s \<and> accepts os written \<and> obj_mem s a = Some ob
     \<and> set (obj_peers ob) \<subseteq> set (ids_of s) \<and> distinct (obj_peers ob)"

text \<open>The bytes of messages broadcast to the holders of an object.\<close>

definition broadcasts :: "'k edsm_dobj \<Rightarrow> mutex_msg list \<Rightarrow> byte list" where
  "broadcasts ob ms = concat (map (\<lambda>mm. frame MSG_TYPE_DOBJ (obj_content (obj_id ob) (mutex_bytes mm))) ms)"

lemma broadcasts_simps [simp]: "broadcasts ob [] = []" "broadcasts ob (xs @ ys) = broadcasts ob xs @ broadcasts ob ys"
  "broadcasts (ob\<lparr>body := b\<rparr>) ms = broadcasts ob ms"
  by (simp_all add: broadcasts_def)

text \<open>\<open>s'\<close> is \<open>s\<close> with new fields of the mutex and messages broadcast.\<close>

definition mutex_effect ::
    "('w \<Rightarrow> int \<Rightarrow> byte list) \<Rightarrow> nat \<Rightarrow> 'k edsm_dobj \<Rightarrow> ('h, 'w, 'k, 'z) dobjs_scheme
       \<Rightarrow> mutex_fields \<times> mutex_msg list \<Rightarrow> ('h, 'w, 'k, 'z) dobjs_scheme \<Rightarrow> bool" where
  "mutex_effect written a ob s r s' \<longleftrightarrow> s' = (put_mutex s a (fst r))\<lparr>world := world s'\<rparr>
     \<and> (\<forall>i. out written s' i = (if i \<in> set (obj_peers ob) then out written s i @ broadcasts ob (snd r) else out written s i))"

lemma mutex_effect_quiet: "mutex_effect written a ob s (mx, []) (put_mutex s a mx)"
proof -
  have "(put_mutex s a mx)\<lparr>world := world (put_mutex s a mx)\<rparr> = put_mutex s a mx" by (cases "put_mutex s a mx") simp
  then show ?thesis by (simp add: mutex_effect_def)
qed

lemma write_mutex_bytes:
  assumes "enough_memory rt"
  obtains m m1 where "new_message rt 8 = Inr m"
    "write_u32s rt m [case mm of Request t \<Rightarrow> EDSM_MUTEX_MSG_TYPE_REQUEST | Reply t \<Rightarrow> EDSM_MUTEX_MSG_TYPE_REPLY,
       case mm of Request t \<Rightarrow> t | Reply t \<Rightarrow> t] = Inr m1" "holds m1 (mutex_bytes mm)"
proof -
  have "unat (8 :: u32) < 2 ^ 31" by simp
  with assms obtain m where m: "new_message rt 8 = Inr m" "holds m []" "used m = 0" by (rule new_message_ok)
  obtain m1 where "write_u32s rt m [case mm of Request t \<Rightarrow> EDSM_MUTEX_MSG_TYPE_REQUEST | Reply t \<Rightarrow> EDSM_MUTEX_MSG_TYPE_REPLY,
       case mm of Request t \<Rightarrow> t | Reply t \<Rightarrow> t] = Inr m1" "holds m1 (mutex_bytes mm)"
    using write_u32s_ok [OF assms m(2), of "[case mm of Request t \<Rightarrow> EDSM_MUTEX_MSG_TYPE_REQUEST | Reply t \<Rightarrow> EDSM_MUTEX_MSG_TYPE_REPLY,
       case mm of Request t \<Rightarrow> t | Reply t \<Rightarrow> t]"] m(3) by (cases mm) (auto simp: mutex_bytes_def)
  with m(1) show ?thesis by (rule that)
qed

lemma mutex_broadcast:
  assumes u: "usable rt os written s a ob" and m: "holds m (mutex_bytes mm)"
  obtains s' where "edsm_dobj_send rt os call a (Some m) (put_mutex s a mx) = Inr (SUCCESS, s')"
    "mutex_effect written a ob s (mx, [mm]) s'"
proof -
  let ?s = "put_mutex s a mx" let ?ob = "ob\<lparr>body := Mutex_Body mx\<rparr>"
  have o1: "obj_mem ?s a = Some ?ob" using u by (simp add: usable_def put_mutex_def put_obj_def)
  have b: "length (mutex_bytes mm) + 12 \<le> message_room" by (cases mm) (simp_all add: mutex_bytes_def message_room_def)
  have "\<exists>w. edsm_dobj_send rt os call a (Some m) ?s = Inr (SUCCESS, ?s\<lparr>world := w\<rparr>)
    \<and> (\<forall>i. out written (?s\<lparr>world := w\<rparr>) i = (if i \<in> set (obj_peers ?ob)
         then out written ?s i @ frame MSG_TYPE_DOBJ (obj_content (obj_id ?ob) (mutex_bytes mm)) else out written ?s i))"
    by (rule dobj_send_ok [OF _ _ _ o1 _ _ _ b]) (use u m in \<open>simp_all add: usable_def payload_def\<close>)
  then obtain w where "edsm_dobj_send rt os call a (Some m) ?s = Inr (SUCCESS, ?s\<lparr>world := w\<rparr>)"
    "\<forall>i. out written (?s\<lparr>world := w\<rparr>) i = (if i \<in> set (obj_peers ob)
         then out written s i @ broadcasts ob [mm] else out written s i)"
    by (auto simp: broadcasts_def)
  then show ?thesis by (intro that [of "?s\<lparr>world := w\<rparr>"]) (simp_all add: mutex_effect_def)
qed

lemma send_reply_ok:
  assumes u: "usable rt os written s a ob" and mx: "body ob = Mutex_Body mx"
  obtains s' where "edsm_mutex_send_reply rt os call a peer s = Inr (SUCCESS, s')"
    "mutex_effect written a ob s (mutex_reply mx) s'"
proof -
  have rt: "enough_memory rt" and ma: "mutex_at s a = Inr mx" using u mx by (auto simp: usable_def mutex_body)
  obtain m m1 where m: "new_message rt 8 = Inr m" "write_u32s rt m [EDSM_MUTEX_MSG_TYPE_REPLY, l_time mx + 1] = Inr m1"
    "holds m1 (mutex_bytes (Reply (l_time mx + 1)))" using write_mutex_bytes [OF rt, of "Reply (l_time mx + 1)"] by auto
  from mutex_broadcast [OF u m(3), of call "mx\<lparr>l_time := l_time mx + 1\<rparr>"] obtain s' where
    s': "edsm_dobj_send rt os call a (Some m1) (put_mutex s a (mx\<lparr>l_time := l_time mx + 1\<rparr>)) = Inr (SUCCESS, s')"
    "mutex_effect written a ob s (mx\<lparr>l_time := l_time mx + 1\<rparr>, [Reply (l_time mx + 1)]) s'" by blast
  then show ?thesis
    by (intro that [of s']) (simp_all add: edsm_mutex_send_reply_def m(1,2) ma Let_def mutex_reply_def)
qed

lemma mutex_effect_usable:
  assumes u: "usable rt os written s a ob" and e: "mutex_effect written a ob s r s'"
  shows "usable rt os written s' a (ob\<lparr>body := Mutex_Body (fst r)\<rparr>)"
proof -
  let ?s = "put_mutex s a (fst r)"
  have s': "s' = ?s\<lparr>world := world s'\<rparr>" using e by (simp add: mutex_effect_def)
  have "connected s' = connected s" by (subst s') simp
  moreover have "ids_of s' = ids_of s" by (subst s') simp
  moreover have "obj_mem s' = obj_mem ?s" by (subst s') simp
  ultimately show ?thesis using u by (simp add: usable_def put_mutex_def put_obj_def)
qed

lemma mutex_effect_trans:
  assumes "mutex_effect written a ob s (mx1, ms1) s1" "mutex_effect written a (ob\<lparr>body := Mutex_Body mx1\<rparr>) s1 (mx2, ms2) s2"
  shows "mutex_effect written a ob s (mx2, ms1 @ ms2) s2"
proof -
  have s1: "s1 = (put_mutex s a mx1)\<lparr>world := world s1\<rparr>" and s2: "s2 = (put_mutex s1 a mx2)\<lparr>world := world s2\<rparr>"
    using assms by (simp_all add: mutex_effect_def)
  have "put_mutex s1 a mx2 = (put_mutex s a mx2)\<lparr>world := world s1\<rparr>" by (subst s1) simp
  then have "s2 = (put_mutex s a mx2)\<lparr>world := world s2\<rparr>" by (subst s2) simp
  with assms show ?thesis by (simp add: mutex_effect_def)
qed

lemma mutex_handle_ok:
  assumes u: "usable rt os written s a ob" and mx: "body ob = Mutex_Body mx" and m: "holds m (mutex_bytes mm)"
  shows "if defers peer mm mx \<and> 2 ^ 30 \<le> length (requests mx)
     then edsm_mutex_handle_message rt os call a peer (Some m) s = Inl SignedOverflow
     else \<exists>s'. edsm_mutex_handle_message rt os call a peer (Some m) s = Inr (SUCCESS, s')
       \<and> mutex_effect written a ob s (mutex_receive peer mm mx) s'"
proof -
  let ?t = "case mm of Request t \<Rightarrow> t | Reply t \<Rightarrow> t"
  let ?k = "case mm of Request t \<Rightarrow> EDSM_MUTEX_MSG_TYPE_REQUEST | Reply t \<Rightarrow> EDSM_MUTEX_MSG_TYPE_REPLY"
  have "holds m (bytes_of_u32 ?k @ bytes_of_u32 ?t @ [])" using m by (cases mm) (simp_all add: mutex_bytes_def)
  then obtain m1 where m1: "read_u32 m = Inr (SUCCESS, Some ?k, m1)" "holds m1 (bytes_of_u32 ?t @ [])" by (rule holds_read_u32)
  from m1(2) obtain m2 where m2: "read_u32 m1 = Inr (SUCCESS, Some ?t, m2)" by (rule holds_read_u32)
  have ma: "mutex_at s a = Inr mx" and rt: "enough_memory rt" using u mx by (auto simp: usable_def mutex_body)
  let ?mx = "clock_seen ?t mx"
  have c: "mx\<lparr>l_time := (if t > l_time mx then t else l_time mx) + 1\<rparr> = clock_seen t mx" for t
    by (simp add: clock_seen_def max_def)
  have al: "malloc rt 24 = Some (uninit 24)" using rt by (simp add: malloc_def enough_memory_def)
  let ?s1 = "put_mutex s a ?mx" let ?ob = "ob\<lparr>body := Mutex_Body ?mx\<rparr>"
  have e1: "mutex_effect written a ob s (?mx, []) ?s1" by (rule mutex_effect_quiet)
  have u1: "usable rt os written ?s1 a ?ob" using mutex_effect_usable [OF u e1] by simp
  have wt: "mutex_waiter ?mx = mutex_waiter mx" by (simp add: clock_seen_def)
  show ?thesis
  proof (cases mm)
    case (Reply t)
    then show ?thesis
      using m1(1) m2 ma wt by (auto simp: c defers_def edsm_mutex_handle_message_def mutex_receive_def Let_def mutex_effect_quiet
          EDSM_MUTEX_MSG_TYPE_REQUEST_def EDSM_MUTEX_MSG_TYPE_REPLY_def)
  next
    case (Request t)
    let ?other = "\<lparr>req_time = t, req_peer = peer\<rparr>"
    have lr: "local_request ?mx = local_request mx" by (simp add: clock_seen_def)
    show ?thesis
    proof (cases "case local_request mx of None \<Rightarrow> True | Some r \<Rightarrow> request_comp r ?other > 0")
      case True
      from send_reply_ok [OF u1, of ?mx call peer] obtain s' where
        s': "edsm_mutex_send_reply rt os call a peer ?s1 = Inr (SUCCESS, s')"
          "mutex_effect written a ?ob ?s1 (mutex_reply ?mx) s'" by auto
      have "mutex_effect written a ob s (mutex_reply ?mx) s'"
        using mutex_effect_trans [OF e1] s'(2) by (simp add: mutex_reply_def)
      moreover have "\<not> defers peer mm mx" using True Request by (auto simp: defers_def split: option.splits)
      ultimately show ?thesis
        using m1(1) m2 ma s'(1) True Request al lr
        by (simp add: c edsm_mutex_handle_message_def mutex_receive_def Let_def EDSM_MUTEX_MSG_TYPE_REQUEST_def)
    next
      case False
      then have d: "defers peer mm mx" using Request by (auto simp: defers_def split: option.splits)
      have rq: "requests ?mx = requests mx" by (simp add: clock_seen_def)
      have "edsm_mutex_handle_message rt os call a peer (Some m) s
          = res_bind (LL_SORT request_comp (requests mx @ [?other])) (\<lambda>es. Inr (SUCCESS, put_mutex s a (?mx\<lparr>requests := es\<rparr>)))"
        using m1(1) m2 ma Request al lr False rq
        by (simp add: c edsm_mutex_handle_message_def Let_def EDSM_MUTEX_MSG_TYPE_REQUEST_def)
      moreover have "mutex_receive peer mm mx = (?mx\<lparr>requests := merge_sort request_comp (requests mx @ [?other])\<rparr>, [])"
        using Request False rq by (simp add: mutex_receive_def Let_def)
      ultimately show ?thesis using d by (simp add: LL_SORT_eq mutex_effect_quiet Suc_le_eq not_less)
    qed
  qed
qed

lemma mutex_lock_ok:
  assumes u: "usable rt os written s a ob" and mx: "body ob = Mutex_Body mx"
    and f: "\<not> local_locked mx" "local_request mx = None"
  shows "\<exists>s'. edsm_mutex_lock_start rt os call a s = Some (Inr s')
     \<and> mutex_effect written a ob s (mutex_request (my_id s) (obj_peers ob) mx) s'"
proof -
  let ?t = "l_time mx + 1"
  let ?mx = "mx\<lparr>l_time := ?t, local_locked := True, mutex_waiter := obj_peers ob\<rparr>"
  let ?mx2 = "?mx\<lparr>local_request := Some \<lparr>req_time = ?t, req_peer = my_id s\<rparr>\<rparr>"
  have ma: "mutex_at s a = Inr mx" and rt: "enough_memory rt" and oa: "obj_mem s a = Some ob"
    using u mx by (auto simp: usable_def mutex_body)
  obtain m m1 where m: "new_message rt 8 = Inr m" "write_u32s rt m [EDSM_MUTEX_MSG_TYPE_REQUEST, ?t] = Inr m1"
    "holds m1 (mutex_bytes (Request ?t))" using write_mutex_bytes [OF rt, of "Request ?t"] by auto
  from mutex_broadcast [OF u m(3), of call ?mx] obtain s' where
    s': "edsm_dobj_send rt os call a (Some m1) (put_mutex s a ?mx) = Inr (SUCCESS, s')"
    "mutex_effect written a ob s (?mx, [Request ?t]) s'" by blast
  have e: "s' = (put_mutex s a ?mx)\<lparr>world := world s'\<rparr>" using s'(2) by (simp add: mutex_effect_def)
  have me: "my_id s' = my_id s" and m': "mutex_at s' a = Inr ?mx"
    by (subst e, simp add: mutex_at_put [OF ma])+
  have "mutex_effect written a ob s (?mx2, [Request ?t] @ []) (put_mutex s' a ?mx2)"
    by (rule mutex_effect_trans [OF s'(2) mutex_effect_quiet])
  moreover have "edsm_mutex_lock_start rt os call a s = Some (Inr (put_mutex s' a ?mx2))"
    using f ma m(1,2) s'(1) me m' rt
    by (simp add: edsm_mutex_lock_start_def edsm_dobj_get_peers_def obj_at_def oa waiter_set_wait_on_def Let_def
        malloc_def enough_memory_def edsm_proto_local_id_def)
  ultimately show ?thesis by (auto simp: mutex_request_def Let_def)
qed

lemma send_replies_ok:
  "usable rt os written s a ob \<Longrightarrow> body ob = Mutex_Body mx \<Longrightarrow>
     \<exists>s'. send_replies rt os call a es s = Inr s' \<and> mutex_effect written a ob s (mutex_replies (length es) mx) s'"
proof (induction es arbitrary: s ob mx)
  case Nil
  have "put_mutex s a mx = s"
    using Nil by (auto simp: usable_def put_mutex_def put_obj_def fun_upd_idem)
  with mutex_effect_quiet [of written a ob s mx] show ?case by simp
next
  case (Cons e es)
  from send_reply_ok [OF Cons.prems, of call "req_peer e"] obtain s1 where
    s1: "edsm_mutex_send_reply rt os call a (req_peer e) s = Inr (SUCCESS, s1)"
      "mutex_effect written a ob s (mutex_reply mx) s1" by blast
  obtain mx1 o1 where r1: "mutex_reply mx = (mx1, o1)" by fastforce
  from mutex_effect_usable [OF Cons.prems(1) s1(2)] r1
  have u1: "usable rt os written s1 a (ob\<lparr>body := Mutex_Body mx1\<rparr>)" by simp
  from Cons.IH [OF u1, of mx1] obtain s2 where
    s2: "send_replies rt os call a es s1 = Inr s2"
      "mutex_effect written a (ob\<lparr>body := Mutex_Body mx1\<rparr>) s1 (mutex_replies (length es) mx1) s2" by auto
  obtain mx2 o2 where r2: "mutex_replies (length es) mx1 = (mx2, o2)" by fastforce
  have "mutex_effect written a ob s (mx2, o1 @ o2) s2"
    using mutex_effect_trans s1(2) s2(2) by (simp only: r1 r2)
  then show ?case using s1(1) s2(1) by (simp add: r1 r2)
qed

lemma mutex_unlock_ok:
  assumes tx: "edsm_memory_tx_end rt os call mprotect None s = Inr (rc, s1)"
    and u: "usable rt os written s1 a ob" and mx: "body ob = Mutex_Body mx"
  shows "\<exists>s'. edsm_mutex_unlock rt os call mprotect a s = Inr (SUCCESS, s')
     \<and> mutex_effect written a ob s1 (mutex_release mx) s'"
proof -
  have ma: "mutex_at s1 a = Inr mx" using u mx by (auto simp: usable_def mutex_body)
  obtain mx2 ms where r: "mutex_replies (length (requests mx)) mx = (mx2, ms)" by fastforce
  from send_replies_ok [OF u mx, of call "requests mx"] r obtain s2 where
    s2: "send_replies rt os call a (requests mx) s1 = Inr s2" "mutex_effect written a ob s1 (mx2, ms) s2" by auto
  have e: "s2 = (put_mutex s1 a mx2)\<lparr>world := world s2\<rparr>" using s2(2) by (simp add: mutex_effect_def)
  have m2: "mutex_at s2 a = Inr mx2" by (subst e) (simp add: mutex_at_put [OF ma])
  let ?mx3 = "mx2\<lparr>requests := [], local_request := None, local_locked := False\<rparr>"
  have "mutex_effect written a ob s1 (?mx3, ms @ []) (put_mutex s2 a ?mx3)"
    by (rule mutex_effect_trans [OF s2(2) mutex_effect_quiet])
  moreover have "edsm_mutex_unlock rt os call mprotect a s = Inr (SUCCESS, put_mutex s2 a ?mx3)"
    using tx ma s2(1) m2 by (simp add: edsm_mutex_unlock_def)
  ultimately show ?thesis by (auto simp: mutex_release_def r)
qed

section \<open>Properties\<close>

text \<open>C7: \<^verbatim>\<open>edsm_mutex_handle_message\<close> implements the protocol of one node: on the bytes of a
  request or a reply it updates the fields as \<^const>\<open>mutex_receive\<close> says and sends what it says, to every
  holder of the mutex, and changes nothing else. The one exception is a request to be deferred behind \<open>2\<^sup>3\<^sup>0\<close>
  others: the sort of the list then overflows.\<close>

theorem mutex_handle_refines:
  assumes "usable rt os written s a ob" "body ob = Mutex_Body mx" "holds m (mutex_bytes mm)"
  shows "if defers peer mm mx \<and> 2 ^ 30 \<le> length (requests mx)
     then edsm_mutex_handle_message rt os call a peer (Some m) s = Inl SignedOverflow
     else \<exists>s'. edsm_mutex_handle_message rt os call a peer (Some m) s = Inr (SUCCESS, s')
       \<and> mutex_effect written a ob s (mutex_receive peer mm mx) s'"
  by (rule mutex_handle_ok [OF assms])

text \<open>C14: \<^verbatim>\<open>edsm_mutex_unlock\<close> first ends the transaction of every region and only then sends
  one reply for each deferred request, on the same connections: whoever is let in has been sent the
  bytes written under the lock before the permission. The mutex is free afterwards.\<close>

theorem unlock_publishes_first:
  assumes "edsm_memory_tx_end rt os call mprotect None s = Inr (rc, s1)"
    and "usable rt os written s1 a ob" "body ob = Mutex_Body mx"
  shows "\<exists>s' mx' ms. edsm_mutex_unlock rt os call mprotect a s = Inr (SUCCESS, s') \<and> mutex_at s' a = Inr mx'
     \<and> \<not> local_locked mx' \<and> local_request mx' = None \<and> requests mx' = [] \<and> length ms = length (requests mx)
     \<and> (\<forall>i \<in> set (obj_peers ob). out written s' i = out written s1 i @ broadcasts ob (map Reply ms))"
proof -
  have r: "\<exists>ts. mutex_replies n mx = (mx\<lparr>l_time := l_time mx + word_of_nat n\<rparr>, map Reply ts) \<and> length ts = n" for n mx
  proof (induction n arbitrary: mx)
    case (Suc n)
    from Suc [of "mx\<lparr>l_time := l_time mx + 1\<rparr>"] obtain ts where
      "mutex_replies n (mx\<lparr>l_time := l_time mx + 1\<rparr>) = (mx\<lparr>l_time := l_time mx + 1 + word_of_nat n\<rparr>, map Reply ts)"
      "length ts = n" by auto
    then show ?case by (intro exI [of _ "(l_time mx + 1) # ts"]) (simp add: mutex_reply_def add.assoc)
  qed simp
  from mutex_unlock_ok [OF assms] obtain s' where
    s': "edsm_mutex_unlock rt os call mprotect a s = Inr (SUCCESS, s')" "mutex_effect written a ob s1 (mutex_release mx) s'" by blast
  from r [of "length (requests mx)" mx] obtain ts where
    t: "mutex_release mx = (mx\<lparr>l_time := l_time mx + word_of_nat (length (requests mx)), requests := [], local_request := None,
        local_locked := False\<rparr>, map Reply ts)" "length ts = length (requests mx)" by (auto simp: mutex_release_def)
  have ma: "mutex_at s1 a = Inr mx" using assms(2,3) by (auto simp: usable_def mutex_body)
  have e: "s' = (put_mutex s1 a (fst (mutex_release mx)))\<lparr>world := world s'\<rparr>" using s'(2) by (simp add: mutex_effect_def)
  have "mutex_at s' a = Inr (fst (mutex_release mx))" by (subst e) (simp add: mutex_at_put [OF ma])
  with s' t show ?thesis by (auto simp: mutex_effect_def)
qed

text \<open>A request is answered at once if the node does not want the mutex or wants it with a later request
  than the one received; otherwise it is deferred, and nothing is sent. The list of deferred requests is kept in
  the order of their timestamps, ties broken by the peer id, and grows by exactly this request.\<close>

theorem deferred_in_order:
  assumes "sorted_wrt (\<lambda>a b. request_comp a b \<le> 0) (requests mx)"
  shows "sorted_wrt (\<lambda>a b. request_comp a b \<le> 0) (requests (fst (mutex_receive peer (Request t) mx)))
    \<and> (if \<forall>r. local_request mx = Some r \<longrightarrow> t < req_time r \<or> (t = req_time r \<and> peer < req_peer r)
       then requests (fst (mutex_receive peer (Request t) mx)) = requests mx
          \<and> snd (mutex_receive peer (Request t) mx) = [Reply (max t (l_time mx) + 1 + 1)]
       else mset (requests (fst (mutex_receive peer (Request t) mx)))
              = mset (requests mx) + {#\<lparr>req_time = t, req_peer = peer\<rparr>#}
          \<and> snd (mutex_receive peer (Request t) mx) = [])"
proof -
  have "request_comp r \<lparr>req_time = t, req_peer = peer\<rparr> > 0
      \<longleftrightarrow> t < req_time r \<or> (t = req_time r \<and> peer < req_peer r)" for r
    by (simp add: request_comp_less)
  then show ?thesis
    using assms request_order.merge_sort_correct
    by (cases "local_request mx") (simp_all add: mutex_receive_def mutex_reply_def clock_seen_def Let_def)
qed

lemma merge_sort_requests: "merge_sort request_comp es = sort es"
proof (rule properties_for_sort [symmetric])
  show "mset (merge_sort request_comp es) = mset es" by (rule conjunct2 [OF request_order.merge_sort_correct])
  show "sorted (merge_sort request_comp es)"
    using request_order.merge_sort_correct [of es] by (simp add: request_comp_le)
qed

text \<open>C35: the bottom-up merge sort of \<^verbatim>\<open>utlist.h\<close>, with its counters of type \<^verbatim>\<open>int\<close> and the
  comparison function of the mutex, computes what the sorting function of the library does for the order of requests by
  time and then peer, on up to \<open>2\<^sup>3\<^sup>0\<close> requests; on every longer list the run length overflows.\<close>

theorem request_sort_is_sort:
  "LL_SORT request_comp es = (if length es \<le> 2 ^ 30 then Inr (sort es) else Inl SignedOverflow)"
  by (simp add: LL_SORT_eq merge_sort_requests)

text \<open>A node whose object 9, held by peer 3 as well, is a mutex, for the concrete instances.\<close>

definition mutex_object :: "nat edsm_dobj" where
  "mutex_object = sample_object\<lparr>body := Mutex_Body zero_mutex\<rparr>"

definition mutex_node :: "(nat, int \<Rightarrow> byte list, nat) memory" where
  "mutex_node = put_mutex (memory_node\<lparr>memory_regions := []\<rparr>) 0 zero_mutex"

lemma mutex_node_usable: "usable good_runtime tape_os (\<lambda>w. w) mutex_node 0 mutex_object"
proof -
  have "connected (memory_node\<lparr>memory_regions := []\<rparr>)" "ids_of (memory_node\<lparr>memory_regions := []\<rparr>) = [2, 3]"
    using connected_cong [of "memory_node\<lparr>memory_regions := []\<rparr>" memory_node] memory_node_connected by simp_all
  then show ?thesis
    using tape_os_accepts
    by (simp add: usable_def mutex_node_def enough_memory_good)
      (simp add: mutex_object_def put_mutex_def put_obj_def memory_node_ok sample_object_def)
qed

lemma mutex_handle_refines_witness:
  "\<exists>s'. edsm_mutex_handle_message good_runtime tape_os no_call 0 3 (Some (message_of (mutex_bytes (Request 4)))) mutex_node
       = Inr (SUCCESS, s')
     \<and> out (\<lambda>w. w) s' 3 = out (\<lambda>w. w) mutex_node 3 @ broadcasts mutex_object [Reply 6]"
proof -
  have "holds (message_of (mutex_bytes (Request 4))) (mutex_bytes (Request 4))"
    by (rule conjunct1 [OF holds_message_of]) (simp add: mutex_bytes_def)
  from mutex_handle_refines [OF mutex_node_usable _ this, where mx = zero_mutex and call = no_call and peer = 3] show ?thesis
    by (auto simp: defers_def mutex_effect_def mutex_object_def sample_object_def mutex_receive_def zero_mutex_def clock_seen_def
        mutex_reply_def max_def)
qed

lemma unlock_publishes_first_witness:
  "\<exists>s'. edsm_mutex_unlock good_runtime tape_os no_call (\<lambda>_. True) 0
       (put_mutex mutex_node 0 (zero_mutex\<lparr>local_locked := True, requests := [\<lparr>req_time = 4, req_peer = 3\<rparr>]\<rparr>)) = Inr (SUCCESS, s')
     \<and> (\<exists>t. out (\<lambda>w. w) s' 3 = out (\<lambda>w. w) mutex_node 3 @ broadcasts mutex_object [Reply t])"
proof -
  let ?mx = "zero_mutex\<lparr>local_locked := True, requests := [\<lparr>req_time = 4, req_peer = 3\<rparr>]\<rparr>"
  let ?s = "put_mutex mutex_node 0 ?mx" let ?ob = "mutex_object\<lparr>body := Mutex_Body ?mx\<rparr>"
  have u: "usable good_runtime tape_os (\<lambda>w. w) ?s 0 ?ob"
    using mutex_effect_usable [OF mutex_node_usable mutex_effect_quiet] by simp
  have "memory_regions ?s = []"
    by (simp add: mutex_node_def put_mutex_def put_obj_def split: option.split)
  then have tx: "edsm_memory_tx_end good_runtime tape_os no_call (\<lambda>_. True) None ?s = Inr (SUCCESS, ?s)"
    by (simp add: edsm_memory_tx_end_def)
  have p: "3 \<in> set (obj_peers ?ob)" by (simp add: mutex_object_def sample_object_def)
  from unlock_publishes_first [OF tx u, of ?mx] p obtain s' ms where
    "edsm_mutex_unlock good_runtime tape_os no_call (\<lambda>_. True) 0 ?s = Inr (SUCCESS, s')" "length ms = 1"
    "out (\<lambda>w. w) s' 3 = out (\<lambda>w. w) mutex_node 3 @ broadcasts mutex_object (map Reply ms)"
    by auto
  then show ?thesis by (cases ms) auto
qed

lemma deferred_in_order_witness:
  "mset (requests (fst (mutex_receive 3 (Request 4) (zero_mutex\<lparr>local_request := Some \<lparr>req_time = 4, req_peer = 2\<rparr>\<rparr>))))
     = {#\<lparr>req_time = 4, req_peer = 3\<rparr>#}"
  using deferred_in_order [of "zero_mutex\<lparr>local_request := Some \<lparr>req_time = 4, req_peer = 2\<rparr>\<rparr>" 3 4]
  by (simp add: zero_mutex_def)

end
