(* ===== verification/Mutex_System.thy ===== *)
theory Mutex_System
  imports Mutex
begin

text \<open>
  The mutex as a distributed system: the nodes that hold it and the connections between them, first in first
  out. The nodes run the protocol of \<open>Mutex\<close>. The peers a node waits for are the other holders, and what
  it sends goes to all of them.
\<close>

section \<open>States and steps\<close>

record cluster =
  member :: "u32 \<Rightarrow> mutex_fields"
  critical :: "u32 \<Rightarrow> bool"
  channel :: "u32 \<Rightarrow> u32 \<Rightarrow> mutex_msg list"

definition cluster_start :: cluster where
  "cluster_start = \<lparr>member = (\<lambda>_. zero_mutex), critical = (\<lambda>_. False), channel = (\<lambda>_ _. [])\<rparr>"

text \<open>Node \<open>i\<close> changes its fields and broadcasts.\<close>

definition node_does :: "u32 list \<Rightarrow> u32 \<Rightarrow> mutex_fields \<times> mutex_msg list \<Rightarrow> cluster \<Rightarrow> cluster" where
  "node_does ms i r c = c\<lparr>member := (member c)(i := fst r),
     channel := (\<lambda>p q. if p = i \<and> q \<in> set ms \<and> q \<noteq> i then channel c p q @ snd r else channel c p q)\<rparr>"

definition set_channel :: "u32 \<Rightarrow> u32 \<Rightarrow> mutex_msg list \<Rightarrow> cluster \<Rightarrow> cluster" where
  "set_channel i j q c = c\<lparr>channel := (channel c)(i := (channel c i)(j := q))\<rparr>"

definition set_critical :: "u32 \<Rightarrow> bool \<Rightarrow> cluster \<Rightarrow> cluster" where
  "set_critical i b c = c\<lparr>critical := (critical c)(i := b)\<rparr>"

definition ready :: "cluster \<Rightarrow> u32 \<Rightarrow> bool" where
  "ready c i \<longleftrightarrow> local_request (member c i) \<noteq> None \<and> waiter_done (mutex_waiter (member c i)) \<and> \<not> critical c i"

inductive mutex_step :: "u32 list \<Rightarrow> cluster \<Rightarrow> cluster \<Rightarrow> bool" for ms :: "u32 list" where
  lock: "i \<in> set ms \<Longrightarrow> \<not> local_locked (member c i) \<Longrightarrow>
    mutex_step ms c (node_does ms i (mutex_request i (filter (\<lambda>p. p \<noteq> i) ms) (member c i)) c)"
| enter: "i \<in> set ms \<Longrightarrow> ready c i \<Longrightarrow> mutex_step ms c (set_critical i True c)"
| unlock: "i \<in> set ms \<Longrightarrow> critical c i \<Longrightarrow>
    mutex_step ms c (set_critical i False (node_does ms i (mutex_release (member c i)) c))"
| deliver: "i \<in> set ms \<Longrightarrow> j \<in> set ms \<Longrightarrow> i \<noteq> j \<Longrightarrow> channel c i j = mm # rest \<Longrightarrow>
    mutex_step ms c (node_does ms j (mutex_receive i mm (member c j)) (set_channel i j rest c))"

inductive_cases mutex_step_cases: "mutex_step ms c c'"

text \<open>The states reached by runs of a given length.\<close>

inductive reached :: "u32 list \<Rightarrow> nat \<Rightarrow> cluster \<Rightarrow> bool" for ms :: "u32 list" where
  start: "reached ms 0 cluster_start"
| step: "reached ms n c \<Longrightarrow> mutex_step ms c c' \<Longrightarrow> reached ms (Suc n) c'"

text \<open>A run from a list of events, to compute with.\<close>

datatype mutex_event = Lock u32 | Enter u32 | Unlock u32 | Deliver u32 u32

fun do_event :: "u32 list \<Rightarrow> mutex_event \<Rightarrow> cluster \<Rightarrow> cluster option" where
  "do_event ms (Lock i) c =
     (if i \<in> set ms \<and> \<not> local_locked (member c i)
      then Some (node_does ms i (mutex_request i (filter (\<lambda>p. p \<noteq> i) ms) (member c i)) c) else None)"
| "do_event ms (Enter i) c = (if i \<in> set ms \<and> ready c i then Some (set_critical i True c) else None)"
| "do_event ms (Unlock i) c =
     (if i \<in> set ms \<and> critical c i
      then Some (set_critical i False (node_does ms i (mutex_release (member c i)) c)) else None)"
| "do_event ms (Deliver i j) c =
     (if i \<in> set ms \<and> j \<in> set ms \<and> i \<noteq> j then
        (case channel c i j of
           [] \<Rightarrow> None
         | mm # rest \<Rightarrow> Some (node_does ms j (mutex_receive i mm (member c j)) (set_channel i j rest c)))
      else None)"

fun do_events :: "u32 list \<Rightarrow> mutex_event list \<Rightarrow> cluster \<Rightarrow> cluster option" where
  "do_events ms [] c = Some c"
| "do_events ms (e # es) c = (case do_event ms e c of None \<Rightarrow> None | Some c' \<Rightarrow> do_events ms es c')"

lemma do_event_step: "do_event ms e c = Some c' \<Longrightarrow> mutex_step ms c c'"
  by (cases e) (auto intro: mutex_step.intros split: if_splits list.splits)

lemma do_events_reached: "do_events ms es c = Some c' \<Longrightarrow> reached ms n c \<Longrightarrow> reached ms (n + length es) c'"
proof (induction es arbitrary: c n)
  case (Cons e es)
  then obtain c1 where "do_event ms e c = Some c1" "do_events ms es c1 = Some c'" by (auto split: option.splits)
  with Cons.IH [OF this(2) reached.step [OF Cons.prems(2) do_event_step]] show ?case by simp
qed simp

section \<open>The invariant between two nodes\<close>

fun requests_in :: "mutex_msg list \<Rightarrow> u32 list" where
  "requests_in [] = []"
| "requests_in (Request t # ms) = t # requests_in ms"
| "requests_in (Reply t # ms) = requests_in ms"

fun replies_in :: "mutex_msg list \<Rightarrow> u32 list" where
  "replies_in [] = []"
| "replies_in (Request t # ms) = replies_in ms"
| "replies_in (Reply t # ms) = t # replies_in ms"

lemma in_append [simp]: "requests_in (xs @ ys) = requests_in xs @ requests_in ys"
  "replies_in (xs @ ys) = replies_in xs @ replies_in ys"
  by (induction xs rule: requests_in.induct) auto

text \<open>
  What holds of node \<open>i\<close> with respect to node \<open>j\<close> after \<open>n\<close> steps: one permission is on
  its way for each the node waits for, as a request, a deferred request or a reply; and whoever has
  the permission of the other has the smaller request.
\<close>

definition granted :: "mutex_fields \<Rightarrow> mutex_msg list \<Rightarrow> bool" where
  "granted x qyx \<longleftrightarrow> mutex_waiter x = [] \<or> replies_in qyx \<noteq> []"

definition link :: "nat \<Rightarrow> u32 \<Rightarrow> u32 \<Rightarrow> mutex_fields \<Rightarrow> mutex_fields \<Rightarrow> bool
    \<Rightarrow> mutex_msg list \<Rightarrow> mutex_msg list \<Rightarrow> bool" where
  "link n i j x y cx qxy qyx \<longleftrightarrow>
     (mutex_waiter x = [] \<or> mutex_waiter x = [j])
   \<and> (mutex_waiter x = [j] \<longrightarrow> local_request x \<noteq> None \<and> \<not> cx)
   \<and> (local_locked x \<longleftrightarrow> local_request x \<noteq> None) \<and> (cx \<longrightarrow> local_request x \<noteq> None)
   \<and> (\<forall>r. local_request x = Some r \<longrightarrow> req_peer r = i \<and> unat (req_time r) \<le> unat (l_time x))
   \<and> length (requests_in qxy) + length (replies_in qyx) + length (requests y) = length (mutex_waiter x)
   \<and> (\<forall>t \<in> set (requests_in qxy). local_request x = Some \<lparr>req_time = t, req_peer = i\<rparr>)
   \<and> (\<forall>e \<in> set (requests y). local_request x = Some e \<and> unat (req_time e) < unat (l_time y)
        \<and> (\<exists>r. local_request y = Some r \<and> request_comp e r > 0))
   \<and> (\<forall>r. local_request x = Some r \<longrightarrow> granted x qyx \<longrightarrow> unat (req_time r) < unat (l_time y)
        \<and> (\<forall>r'. local_request y = Some r' \<longrightarrow> request_comp r' r > 0))
   \<and> unat (l_time x) \<le> 2 * n \<and> (\<forall>t \<in> set (replies_in qxy). unat t \<le> 2 * n)"

lemma link_start: "link 0 i j zero_mutex zero_mutex False [] []"
  by (simp add: link_def zero_mutex_def)

lemma link_mono: "link n i j x y cx qxy qyx \<Longrightarrow> link (Suc n) i j x y cx qxy qyx"
  by (auto simp: link_def)

lemma unat_plus_1: "unat (t :: u32) \<le> 2 * n \<Longrightarrow> 2 * Suc n < 2 ^ 32 \<Longrightarrow> unat (t + 1) = unat t + 1"
  by (simp add: unat_word_ariths(1))

lemma link_lock:
  assumes "link n i j x y cx qxy qyx" "link n j i y x cy qyx qxy" "\<not> local_locked x" "2 * Suc n < 2 ^ 32"
  shows "link (Suc n) i j (fst (mutex_request i [j] x)) y cx (qxy @ snd (mutex_request i [j] x)) qyx"
    "link (Suc n) j i y (fst (mutex_request i [j] x)) cy qyx (qxy @ snd (mutex_request i [j] x))"
proof -
  have n: "local_request x = None" "mutex_waiter x = []" "requests_in qxy = []" "replies_in qyx = []" "requests y = []"
    using assms(1,3) by (auto simp: link_def)
  have r: "requests x = []" using assms(2) n(1) by (auto simp: link_def) 
  have l: "unat (l_time x + 1) = unat (l_time x) + 1" using assms(1,4) by (intro unat_plus_1) (auto simp: link_def)
  show "link (Suc n) i j (fst (mutex_request i [j] x)) y cx (qxy @ snd (mutex_request i [j] x)) qyx"
    using assms(1) n l by (auto simp: link_def mutex_request_def Let_def granted_def)
  show "link (Suc n) j i y (fst (mutex_request i [j] x)) cy qyx (qxy @ snd (mutex_request i [j] x))"
    using assms(2) n r l by (auto simp: link_def mutex_request_def Let_def granted_def request_comp_less word_less_nat_alt)
qed

lemma link_enter:
  assumes "link n i j x y False qxy qyx" "mutex_waiter x = []" "local_request x \<noteq> None"
  shows "link (Suc n) i j x y True qxy qyx"
  using assms by (auto simp: link_def)

lemma link_unlock:
  assumes "link n i j x y True qxy qyx" "link n j i y x cy qyx qxy" "2 * Suc n < 2 ^ 32"
  shows "link (Suc n) i j (fst (mutex_release x)) y False (qxy @ snd (mutex_release x)) qyx"
    "link (Suc n) j i y (fst (mutex_release x)) cy qyx (qxy @ snd (mutex_release x))"
proof -
  have w: "mutex_waiter x = []" "requests_in qxy = []" "replies_in qyx = []" "requests y = []"
    using assms(1) by (auto simp: link_def)
  have l: "unat (l_time x + 1) = unat (l_time x) + 1" using assms(1,3) by (intro unat_plus_1) (auto simp: link_def)
  have "length (requests x) \<le> length (mutex_waiter y)" "length (mutex_waiter y) \<le> 1" using assms(2) by (auto simp: link_def)
  then have "length (requests x) \<le> 1" by simp
  then consider "requests x = []" | e where "requests x = [e]" by (cases "requests x") auto
  then have both: "(link (Suc n) i j (fst (mutex_release x)) y False (qxy @ snd (mutex_release x)) qyx) \<and> (link (Suc n) j i y (fst (mutex_release x)) cy qyx (qxy @ snd (mutex_release x)))"
  proof cases
    case 1
    then have r: "mutex_release x = (x\<lparr>requests := [], local_request := None, local_locked := False\<rparr>, [])"
      by (simp add: mutex_release_def)
    have g1: "link (Suc n) i j (fst (mutex_release x)) y False (qxy @ snd (mutex_release x)) qyx"
      using assms(1) w by (auto simp: link_def r granted_def)
    have g2: "link (Suc n) j i y (fst (mutex_release x)) cy qyx (qxy @ snd (mutex_release x))"
      using assms(2) w 1 by (auto simp: link_def r granted_def)
    from g1 g2 show ?thesis by (rule conjI)
  next
    case (2 e)
    then have r: "mutex_release x = (x\<lparr>l_time := l_time x + 1, requests := [], local_request := None, local_locked := False\<rparr>,
        [Reply (l_time x + 1)])"
      by (simp add: mutex_release_def mutex_reply_def)
    have g1: "link (Suc n) i j (fst (mutex_release x)) y False (qxy @ snd (mutex_release x)) qyx"
      using assms(1) w l by (auto simp: link_def r granted_def)
    have g2: "link (Suc n) j i y (fst (mutex_release x)) cy qyx (qxy @ snd (mutex_release x))"
      using assms(2) w l 2 by (auto simp: link_def r granted_def)
    from g1 g2 show ?thesis by (rule conjI)
  qed
  then show "link (Suc n) i j (fst (mutex_release x)) y False (qxy @ snd (mutex_release x)) qyx"
    "link (Suc n) j i y (fst (mutex_release x)) cy qyx (qxy @ snd (mutex_release x))" by blast+
qed

lemma clock_seen_bound:
  assumes "unat (l_time x) \<le> 2 * n" "unat t \<le> 2 * n" "2 * Suc n < 2 ^ 32"
  shows "unat (l_time (clock_seen t x)) = max (unat t) (unat (l_time x)) + 1"
proof -
  have "unat (max t (l_time x)) = max (unat t) (unat (l_time x))" by (simp add: max_def word_le_nat_alt)
  moreover from this have "unat (max t (l_time x) + 1) = unat (max t (l_time x)) + 1"
    using assms by (intro unat_plus_1) simp_all
  ultimately show ?thesis by (simp add: clock_seen_def)
qed

text \<open>Node \<open>y\<close>, called \<open>j\<close>, receives the first message of \<open>x\<close>.\<close>

lemma link_deliver_reply:
  assumes "link n i j x y cx (Reply t # qxy) qyx" "link n j i y x cy qyx (Reply t # qxy)" "2 * Suc n < 2 ^ 32"
  shows "link (Suc n) i j x (fst (mutex_receive i (Reply t) y)) cx qxy (qyx @ snd (mutex_receive i (Reply t) y))"
    "link (Suc n) j i (fst (mutex_receive i (Reply t) y)) x cy (qyx @ snd (mutex_receive i (Reply t) y)) qxy"
proof -
  have t: "unat t \<le> 2 * n" "unat (l_time y) \<le> 2 * n" using assms(1,2) by (auto simp: link_def)
  note c = clock_seen_bound [OF t(2,1) assms(3)]
  have w: "mutex_waiter y = [i]" "replies_in qxy = []" "requests_in qyx = []" "requests x = []"
    using assms(2) by (auto simp: link_def)
  have r: "mutex_receive i (Reply t) y = ((clock_seen t y)\<lparr>mutex_waiter := []\<rparr>, [])"
    by (simp add: mutex_receive_def waiter_add_reply_def clock_seen_def w(1))
  have s: "local_request (clock_seen t y) = local_request y" "requests (clock_seen t y) = requests y"
    "local_locked (clock_seen t y) = local_locked y" by (simp_all add: clock_seen_def)
  show "link (Suc n) i j x (fst (mutex_receive i (Reply t) y)) cx qxy (qyx @ snd (mutex_receive i (Reply t) y))"
    using assms(1) c w by (auto simp: link_def r granted_def s)
  show "link (Suc n) j i (fst (mutex_receive i (Reply t) y)) x cy (qyx @ snd (mutex_receive i (Reply t) y)) qxy"
    using assms(2) c w t by (auto simp: link_def r granted_def s)
qed

lemma merge_sort_single: "merge_sort request_comp [e] = [e]"
proof -
  have "mset (merge_sort request_comp [e]) = {#e#}" using request_order.merge_sort_correct [of "[e]"] by simp
  then show ?thesis by (metis mset_single_iff_right)
qed

lemma link_deliver_request:
  assumes "link n i j x y cx (Request t # qxy) qyx" "link n j i y x cy qyx (Request t # qxy)" "i \<noteq> j" "2 * Suc n < 2 ^ 32"
  shows "link (Suc n) i j x (fst (mutex_receive i (Request t) y)) cx qxy (qyx @ snd (mutex_receive i (Request t) y))"
    "link (Suc n) j i (fst (mutex_receive i (Request t) y)) x cy (qyx @ snd (mutex_receive i (Request t) y)) qxy"
proof -
  let ?e = "\<lparr>req_time = t, req_peer = i\<rparr>"
  have w: "mutex_waiter x = [j]" "requests_in qxy = []" "replies_in qyx = []" "requests y = []" "local_request x = Some ?e"
    using assms(1) by (auto simp: link_def)
  have t: "unat t \<le> 2 * n" "unat (l_time y) \<le> 2 * n" using assms(1,2) w(5) by (auto simp: link_def)
  note c = clock_seen_bound [OF t(2,1) assms(4)]
  have s: "local_request (clock_seen t y) = local_request y" "requests (clock_seen t y) = requests y"
    "local_locked (clock_seen t y) = local_locked y" "mutex_waiter (clock_seen t y) = mutex_waiter y"
    by (simp_all add: clock_seen_def)
  have p: "req_peer r = j" if "local_request y = Some r" for r using assms(2) that by (auto simp: link_def)
  have ne: "request_comp r ?e \<noteq> 0" if "local_request y = Some r" for r
    using p [OF that] assms(3) by (auto simp: request_comp_def)
  let ?now = "case local_request y of None \<Rightarrow> True | Some r \<Rightarrow> request_comp r ?e > 0"
  have both: "(link (Suc n) i j x (fst (mutex_receive i (Request t) y)) cx qxy (qyx @ snd (mutex_receive i (Request t) y))) \<and> (link (Suc n) j i (fst (mutex_receive i (Request t) y)) x cy (qyx @ snd (mutex_receive i (Request t) y)) qxy)"
  proof (cases ?now)
    case True
    let ?t = "l_time (clock_seen t y) + 1"
    have r: "mutex_receive i (Request t) y = ((clock_seen t y)\<lparr>l_time := ?t\<rparr>, [Reply ?t])"
      using True by (simp add: mutex_receive_def mutex_reply_def Let_def)
    have l: "unat ?t = max (unat t) (unat (l_time y)) + 2"
      using c t assms(4) by (simp add: unat_word_ariths(1))
    have now: "request_comp r' ?e > 0" if "local_request y = Some r'" for r' using True that by simp
    have g1: "link (Suc n) i j x (fst (mutex_receive i (Request t) y)) cx qxy (qyx @ snd (mutex_receive i (Request t) y))"
      using assms(1) w l now by (auto simp: link_def r granted_def s)
    have g2: "link (Suc n) j i (fst (mutex_receive i (Request t) y)) x cy (qyx @ snd (mutex_receive i (Request t) y)) qxy"
      using assms(2) w l t by (auto simp: link_def r granted_def s)
    from g1 g2 show ?thesis by (rule conjI)
  next
    case False
    then obtain r' where r': "local_request y = Some r'" "\<not> request_comp r' ?e > 0" by (auto split: option.splits)
    then have less: "request_comp ?e r' > 0" using ne [OF r'(1)] request_comp_flip [of ?e r'] by linarith
    have r: "mutex_receive i (Request t) y = ((clock_seen t y)\<lparr>requests := [?e]\<rparr>, [])"
      using False w(4) by (simp add: mutex_receive_def Let_def s merge_sort_single)
    have g1: "link (Suc n) i j x (fst (mutex_receive i (Request t) y)) cx qxy (qyx @ snd (mutex_receive i (Request t) y))"
      using assms(1) w c less r'(1) by (auto simp: link_def r granted_def s)
    have g2: "link (Suc n) j i (fst (mutex_receive i (Request t) y)) x cy (qyx @ snd (mutex_receive i (Request t) y)) qxy"
      using assms(2) w c t by (auto simp: link_def r granted_def s)
    from g1 g2 show ?thesis by (rule conjI)
  qed
  then show "link (Suc n) i j x (fst (mutex_receive i (Request t) y)) cx qxy (qyx @ snd (mutex_receive i (Request t) y))"
    "link (Suc n) j i (fst (mutex_receive i (Request t) y)) x cy (qyx @ snd (mutex_receive i (Request t) y)) qxy" by blast+
qed

section \<open>Two nodes\<close>

definition linked :: "nat \<Rightarrow> u32 \<Rightarrow> u32 \<Rightarrow> cluster \<Rightarrow> bool" where
  "linked n i j c \<longleftrightarrow> link n i j (member c i) (member c j) (critical c i) (channel c i j) (channel c j i)"

lemma linked_step:
  assumes "mutex_step ms c c'" "set ms = {a, b}" "distinct ms" "length ms = 2" "linked n a b c" "linked n b a c" "2 * Suc n < 2 ^ 32"
  shows "linked (Suc n) a b c' \<and> linked (Suc n) b a c'"
proof -
  have ab: "a \<noteq> b" using assms(2,4) distinct_card [OF assms(3)] by auto
  have other: "filter (\<lambda>p. p \<noteq> i) ms = [j]" if "{i, j} = {a, b}" "i \<noteq> j" for i j
  proof -
    have "set (filter (\<lambda>p. p \<noteq> i) ms) = {j}" "distinct (filter (\<lambda>p. p \<noteq> i) ms)" using assms(2,3) that by auto
    then have "card (set (filter (\<lambda>p. p \<noteq> i) ms)) = 1" by simp
    then have "length (filter (\<lambda>p. p \<noteq> i) ms) = 1" using distinct_card [OF \<open>distinct (filter (\<lambda>p. p \<noteq> i) ms)\<close>] by simp
    then show ?thesis using \<open>set (filter (\<lambda>p. p \<noteq> i) ms) = {j}\<close> by (cases "filter (\<lambda>p. p \<noteq> i) ms") auto
  qed
  have sym: "linked n i j c \<and> linked n j i c" if "{i, j} = {a, b}" for i j
    using assms(5,6) that by (auto simp: doubleton_eq_iff)
  have two: "linked (Suc n) a b c' \<and> linked (Suc n) b a c'" if "linked (Suc n) i j c'" "linked (Suc n) j i c'" "{i, j} = {a, b}" for i j
    using that by (auto simp: doubleton_eq_iff)
  have ex: "\<exists>j. {i, j} = {a, b} \<and> i \<noteq> j" if "i \<in> set ms" for i using that assms(2) ab by auto
  from assms(1) show ?thesis
  proof cases
    case (lock i)
    then obtain j where j: "{i, j} = {a, b}" "i \<noteq> j" using ex by blast
    then have l: "link n i j (member c i) (member c j) (critical c i) (channel c i j) (channel c j i)"
      "link n j i (member c j) (member c i) (critical c j) (channel c j i) (channel c i j)"
      using sym [OF j(1)] by (simp_all add: linked_def)
    have m: "j \<in> set ms" "i \<in> set ms" using j(1) assms(2) by auto
    from link_lock [OF l lock(3) assms(7)] show ?thesis
      using j m by (intro two [OF _ _ j(1)]) (simp_all add: linked_def lock(1) node_does_def other [OF j])
  next
    case (enter i)
    then obtain j where j: "{i, j} = {a, b}" "i \<noteq> j" using ex by blast
    have l: "link n i j (member c i) (member c j) False (channel c i j) (channel c j i)"
      "link n j i (member c j) (member c i) (critical c j) (channel c j i) (channel c i j)"
      using sym [OF j(1)] enter(3) by (simp_all add: linked_def ready_def)
    have r: "mutex_waiter (member c i) = []" "local_request (member c i) \<noteq> None"
      using enter(3) by (simp_all add: ready_def waiter_done_def)
    from link_enter [OF l(1) r] link_mono [OF l(2)] show ?thesis
      using j by (intro two [OF _ _ j(1)]) (simp_all add: linked_def enter(1) set_critical_def)
  next
    case (unlock i)
    then obtain j where j: "{i, j} = {a, b}" "i \<noteq> j" using ex by blast
    have l: "link n i j (member c i) (member c j) True (channel c i j) (channel c j i)"
      "link n j i (member c j) (member c i) (critical c j) (channel c j i) (channel c i j)"
      using sym [OF j(1)] unlock(3) by (simp_all add: linked_def)
    have m: "j \<in> set ms" "i \<in> set ms" using j(1) assms(2) by auto
    from link_unlock [OF l assms(7)] show ?thesis
      using j m by (intro two [OF _ _ j(1)]) (simp_all add: linked_def unlock(1) node_does_def set_critical_def)
  next
    case (deliver i j mm rest)
    then have j: "{i, j} = {a, b}" "i \<noteq> j" using assms(2) by auto
    have l: "link n i j (member c i) (member c j) (critical c i) (mm # rest) (channel c j i)"
      "link n j i (member c j) (member c i) (critical c j) (channel c j i) (mm # rest)"
      using sym [OF j(1)] deliver(5) by (simp_all add: linked_def)
    have "link (Suc n) i j (member c i) (fst (mutex_receive i mm (member c j))) (critical c i) rest
        (channel c j i @ snd (mutex_receive i mm (member c j)))
      \<and> link (Suc n) j i (fst (mutex_receive i mm (member c j))) (member c i) (critical c j)
        (channel c j i @ snd (mutex_receive i mm (member c j))) rest"
    proof (cases mm)
      case (Request t)
      then show ?thesis using link_deliver_request l j(2) assms(7) by blast
    next
      case (Reply t)
      then show ?thesis using link_deliver_reply l assms(7) by blast
    qed
    then show ?thesis
      using j deliver(2) by (intro two [OF _ _ j(1)]) (simp_all add: linked_def deliver(1) node_does_def set_channel_def)
  qed
qed

lemma reached_linked:
  assumes "reached [a, b] n c" "a \<noteq> b" "2 * n < 2 ^ 32"
  shows "linked n a b c \<and> linked n b a c"
  using assms(1,3)
proof (induction rule: reached.induct)
  case start
  show ?case by (simp add: linked_def cluster_start_def link_start)
next
  case (step n c c')
  then have "linked n a b c" "linked n b a c" by simp_all
  then show ?case using step.hyps(2) step.prems assms(2) by (intro linked_step [of "[a, b]"]) auto
qed

section \<open>Properties\<close>

text \<open>C1: with two nodes the mutex excludes: in every run of fewer than 2^31 steps, whatever the order in which
  messages are delivered, at most one node is between the return of \<^verbatim>\<open>edsm_mutex_lock\<close> and its
  \<^verbatim>\<open>edsm_mutex_unlock\<close>. The bound keeps the 32-bit clocks from wrapping.\<close>

theorem mutual_exclusion_of_two:
  assumes "reached [a, b] n c" "a \<noteq> b" "n < 2 ^ 31"
  shows "\<not> (critical c a \<and> critical c b)"
proof
  assume cr: "critical c a \<and> critical c b"
  have "linked n a b c \<and> linked n b a c" using assms by (intro reached_linked) simp_all
  then have l: "link n a b (member c a) (member c b) True (channel c a b) (channel c b a)"
    "link n b a (member c b) (member c a) True (channel c b a) (channel c a b)" using cr by (simp_all add: linked_def)
  then obtain ra rb where r: "local_request (member c a) = Some ra" "local_request (member c b) = Some rb"
    by (auto simp: link_def)
  have "mutex_waiter (member c a) = []" "mutex_waiter (member c b) = []" using l by (auto simp: link_def)
  then have "request_comp rb ra > 0" "request_comp ra rb > 0" using l r by (auto simp: link_def granted_def)
  then show False using request_comp_flip [of ra rb] by simp
qed

text \<open>C12: with two nodes the mutex does not deadlock: in every such run, while a node waits for the mutex, a message
  is on its way, or a node has the mutex, or a node's wait is over.\<close>

theorem two_nodes_progress:
  assumes "reached [a, b] n c" "a \<noteq> b" "n < 2 ^ 31" "local_locked (member c a)"
  shows "channel c a b \<noteq> [] \<or> channel c b a \<noteq> [] \<or> critical c a \<or> critical c b \<or> ready c a \<or> ready c b"
proof (rule ccontr)
  assume "\<not> ?thesis"
  then have q: "channel c a b = []" "channel c b a = []" "\<not> critical c a" "\<not> critical c b" "\<not> ready c a" "\<not> ready c b" by simp_all
  have "linked n a b c \<and> linked n b a c" using assms by (intro reached_linked) simp_all
  then have l: "link n a b (member c a) (member c b) False [] []" "link n b a (member c b) (member c a) False [] []"
    using q by (simp_all add: linked_def)
  have ra: "local_request (member c a) \<noteq> None" using l(1) assms(4) by (simp add: link_def)
  then have "mutex_waiter (member c a) \<noteq> []" using q(3,5) by (simp add: ready_def waiter_done_def)
  then have "requests (member c b) \<noteq> []" using l(1) by (auto simp: link_def)
  then obtain e where e: "local_request (member c a) = Some e" "\<exists>r. local_request (member c b) = Some r \<and> request_comp e r > 0"
    using l(1) by (cases "requests (member c b)") (auto simp: link_def)
  then have "mutex_waiter (member c b) \<noteq> []" using q(4,6) by (auto simp: ready_def waiter_done_def)
  then have "requests (member c a) \<noteq> []" using l(2) by (auto simp: link_def)
  then obtain f where f: "local_request (member c b) = Some f" "\<exists>r. local_request (member c a) = Some r \<and> request_comp f r > 0"
    using l(2) by (cases "requests (member c a)") (auto simp: link_def)
  then have "request_comp e f > 0" "request_comp f e > 0" using e by auto
  then show False using request_comp_flip [of e f] by simp
qed

definition violation :: "mutex_event list" where
  "violation = [Lock 1, Lock 2, Lock 3, Deliver 1 2, Deliver 1 3, Deliver 2 1, Deliver 2 1, Deliver 3 1, Deliver 3 1,
     Enter 1, Deliver 2 3, Deliver 2 3, Deliver 3 2, Deliver 3 2, Unlock 1, Deliver 1 2, Deliver 1 3, Enter 2, Enter 3]"

lemma merge_sort_two: "request_comp a b < 0 \<Longrightarrow> merge_sort request_comp [a, b] = [a, b]"
proof -
  assume ab: "request_comp a b < 0"
  then have ba: "request_comp b a > 0" using request_comp_flip [of a b] by simp
  have "mset (merge_sort request_comp [a, b]) = {#a, b#}" "sorted_wrt (\<lambda>x y. request_comp x y \<le> 0) (merge_sort request_comp [a, b])"
    using request_order.merge_sort_correct [of "[a, b]"] by simp_all
  moreover from this(1) have "length (merge_sort request_comp [a, b]) = 2" by (metis size_mset size_add_mset size_empty numeral_2_eq_2)
  then obtain x y where "merge_sort request_comp [a, b] = [x, y]" by (auto simp: numeral_2_eq_2 length_Suc_conv)
  ultimately show ?thesis using ba by (auto simp: add_eq_conv_ex)
qed

text \<open>A state of three nodes, written out, to compute with.\<close>

definition three ::
    "mutex_fields \<Rightarrow> mutex_fields \<Rightarrow> mutex_fields \<Rightarrow> bool \<Rightarrow> bool \<Rightarrow> bool
       \<Rightarrow> mutex_msg list \<Rightarrow> mutex_msg list \<Rightarrow> mutex_msg list \<Rightarrow> mutex_msg list \<Rightarrow> mutex_msg list \<Rightarrow> mutex_msg list \<Rightarrow> cluster" where
  "three m1 m2 m3 c1 c2 c3 q12 q13 q21 q23 q31 q32 =
     \<lparr>member = (\<lambda>_. zero_mutex)(1 := m1, 2 := m2, 3 := m3),
      critical = (\<lambda>_. False)(1 := c1, 2 := c2, 3 := c3),
      channel = (\<lambda>_ _. [])(1 := (\<lambda>_. [])(2 := q12, 3 := q13), 2 := (\<lambda>_. [])(1 := q21, 3 := q23),
        3 := (\<lambda>_. [])(1 := q31, 2 := q32))\<rparr>"

lemma three_start: "cluster_start = three zero_mutex zero_mutex zero_mutex False False False [] [] [] [] [] []"
  by (simp add: cluster_start_def three_def fun_eq_iff)

lemma three_reads:
  "member (three m1 m2 m3 c1 c2 c3 q12 q13 q21 q23 q31 q32) 1 = m1"
  "member (three m1 m2 m3 c1 c2 c3 q12 q13 q21 q23 q31 q32) 2 = m2"
  "member (three m1 m2 m3 c1 c2 c3 q12 q13 q21 q23 q31 q32) 3 = m3"
  "critical (three m1 m2 m3 c1 c2 c3 q12 q13 q21 q23 q31 q32) 1 = c1"
  "critical (three m1 m2 m3 c1 c2 c3 q12 q13 q21 q23 q31 q32) 2 = c2"
  "critical (three m1 m2 m3 c1 c2 c3 q12 q13 q21 q23 q31 q32) 3 = c3"
  "channel (three m1 m2 m3 c1 c2 c3 q12 q13 q21 q23 q31 q32) 1 2 = q12"
  "channel (three m1 m2 m3 c1 c2 c3 q12 q13 q21 q23 q31 q32) 1 3 = q13"
  "channel (three m1 m2 m3 c1 c2 c3 q12 q13 q21 q23 q31 q32) 2 1 = q21"
  "channel (three m1 m2 m3 c1 c2 c3 q12 q13 q21 q23 q31 q32) 2 3 = q23"
  "channel (three m1 m2 m3 c1 c2 c3 q12 q13 q21 q23 q31 q32) 3 1 = q31"
  "channel (three m1 m2 m3 c1 c2 c3 q12 q13 q21 q23 q31 q32) 3 2 = q32"
  by (simp_all add: three_def)

lemma three_does:
  "node_does [1, 2, 3] 1 r (three m1 m2 m3 c1 c2 c3 q12 q13 q21 q23 q31 q32)
     = three (fst r) m2 m3 c1 c2 c3 (q12 @ snd r) (q13 @ snd r) q21 q23 q31 q32"
  "node_does [1, 2, 3] 2 r (three m1 m2 m3 c1 c2 c3 q12 q13 q21 q23 q31 q32)
     = three m1 (fst r) m3 c1 c2 c3 q12 q13 (q21 @ snd r) (q23 @ snd r) q31 q32"
  "node_does [1, 2, 3] 3 r (three m1 m2 m3 c1 c2 c3 q12 q13 q21 q23 q31 q32)
     = three m1 m2 (fst r) c1 c2 c3 q12 q13 q21 q23 (q31 @ snd r) (q32 @ snd r)"
  by (auto simp: node_does_def three_def fun_eq_iff)

lemma three_sets:
  "set_channel 1 2 q (three m1 m2 m3 c1 c2 c3 q12 q13 q21 q23 q31 q32) = three m1 m2 m3 c1 c2 c3 q q13 q21 q23 q31 q32"
  "set_channel 1 3 q (three m1 m2 m3 c1 c2 c3 q12 q13 q21 q23 q31 q32) = three m1 m2 m3 c1 c2 c3 q12 q q21 q23 q31 q32"
  "set_channel 2 1 q (three m1 m2 m3 c1 c2 c3 q12 q13 q21 q23 q31 q32) = three m1 m2 m3 c1 c2 c3 q12 q13 q q23 q31 q32"
  "set_channel 2 3 q (three m1 m2 m3 c1 c2 c3 q12 q13 q21 q23 q31 q32) = three m1 m2 m3 c1 c2 c3 q12 q13 q21 q q31 q32"
  "set_channel 3 1 q (three m1 m2 m3 c1 c2 c3 q12 q13 q21 q23 q31 q32) = three m1 m2 m3 c1 c2 c3 q12 q13 q21 q23 q q32"
  "set_channel 3 2 q (three m1 m2 m3 c1 c2 c3 q12 q13 q21 q23 q31 q32) = three m1 m2 m3 c1 c2 c3 q12 q13 q21 q23 q31 q"
  "set_critical 1 b (three m1 m2 m3 c1 c2 c3 q12 q13 q21 q23 q31 q32) = three m1 m2 m3 b c2 c3 q12 q13 q21 q23 q31 q32"
  "set_critical 2 b (three m1 m2 m3 c1 c2 c3 q12 q13 q21 q23 q31 q32) = three m1 m2 m3 c1 b c3 q12 q13 q21 q23 q31 q32"
  "set_critical 3 b (three m1 m2 m3 c1 c2 c3 q12 q13 q21 q23 q31 q32) = three m1 m2 m3 c1 c2 b q12 q13 q21 q23 q31 q32"
  by (auto simp: set_channel_def set_critical_def three_def fun_eq_iff)

lemmas run_simps = three_start three_reads three_does three_sets ready_def zero_mutex_def
  mutex_request_def mutex_receive_def mutex_reply_def mutex_release_def clock_seen_def waiter_add_reply_def waiter_done_def
  request_comp_def merge_sort_single merge_sort_two Let_def max_def

lemma violation_runs: "\<exists>c. do_events [1, 2, 3] violation cluster_start = Some c \<and> critical c 2 \<and> critical c 3"
  by (simp add: violation_def run_simps)

text \<open>C34: with three nodes it does not exclude: \<^verbatim>\<open>edsm_mutex_send_reply\<close> sends the permission
  meant for one peer to all of them, so that a node counts permissions given to others.\<close>

theorem three_nodes_not_exclusive:
  "\<exists>n c. reached [1, 2, 3] n c \<and> n < 2 ^ 31 \<and> critical c 2 \<and> critical c 3"
proof -
  obtain c where c: "do_events [1, 2, 3] violation cluster_start = Some c" "critical c 2" "critical c 3"
    using violation_runs by blast
  have "reached [1, 2, 3] (0 + length violation) c" by (rule do_events_reached [OF c(1) reached.start])
  then show ?thesis using c(2,3) by (intro exI [of _ "length violation"] exI [of _ c]) (simp add: violation_def)
qed

lemma two_nodes_run:
  "\<exists>c. do_events [1, 2] [Lock 1, Deliver 1 2, Deliver 2 1, Enter 1] cluster_start = Some c \<and> critical c 1"
  by (simp add: cluster_start_def node_does_def set_channel_def set_critical_def ready_def zero_mutex_def
      mutex_request_def mutex_receive_def mutex_reply_def clock_seen_def waiter_add_reply_def waiter_done_def Let_def)

lemma mutual_exclusion_of_two_witness: "\<exists>c. reached [1, 2] 4 c \<and> critical c 1 \<and> \<not> critical c 2"
proof -
  obtain c where c: "do_events [1, 2] [Lock 1, Deliver 1 2, Deliver 2 1, Enter 1] cluster_start = Some c" "critical c 1"
    using two_nodes_run by blast
  have "reached [1, 2] 4 c" using do_events_reached [OF c(1) reached.start] by (simp add: eval_nat_numeral)
  with mutual_exclusion_of_two [OF this] c(2) show ?thesis by auto
qed

lemma two_nodes_progress_witness:
  "\<exists>c. reached [1, 2] 1 c \<and> local_locked (member c 1)
     \<and> (channel c 1 2 \<noteq> [] \<or> channel c 2 1 \<noteq> [] \<or> critical c 1 \<or> critical c 2 \<or> ready c 1 \<or> ready c 2)"
proof -
  obtain c where c: "do_events [1, 2] [Lock 1] cluster_start = Some c" "local_locked (member c 1)"
    by (simp add: cluster_start_def node_does_def zero_mutex_def mutex_request_def Let_def)
  have r: "reached [1, 2] 1 c" using do_events_reached [OF c(1) reached.start] by simp
  from two_nodes_progress [OF r _ _ c(2)] r c(2) show ?thesis by auto
qed

end
