(* ===== verification/Barrier.thy ===== *)
theory Barrier
  imports Memory_Dobj
begin

text \<open>
  Barriers, \<^verbatim>\<open>src/src/dobj/barrier.c\<close>: an object with a reply waiter that counts the
  notifications of the holders. The body of the object is \<^term>\<open>Barrier_Body None\<close> while its
  waiter is a null pointer.
\<close>

section \<open>Operations\<close>

definition barrier_waiter :: "('h, 'w, 'k, 'z) dobjs_scheme \<Rightarrow> nat \<Rightarrow> waiter option res" where
  "barrier_waiter s a = res_bind (obj_at s a) (\<lambda>ob. case body ob of
     Barrier_Body w \<Rightarrow> Inr w | _ \<Rightarrow> Inl TypeConfusion)"

definition put_barrier ::
    "('h, 'w, 'k, 'z) dobjs_scheme \<Rightarrow> nat \<Rightarrow> waiter \<Rightarrow> ('h, 'w, 'k, 'z) dobjs_scheme" where
  "put_barrier s a w = (case obj_mem s a of None \<Rightarrow> s | Some ob \<Rightarrow> put_obj s a (ob\<lparr>body := Barrier_Body (Some w)\<rparr>))"

definition barrier_add_reply ::
    "nat \<Rightarrow> u32 \<Rightarrow> ('h, 'w, 'k, 'z) dobjs_scheme \<Rightarrow> ('h, 'w, 'k, 'z) dobjs_scheme res" where
  "barrier_add_reply a peer s =
     res_bind (barrier_waiter s a) (\<lambda>w. res_bind (non_null w) (\<lambda>ids.
     Inr (put_barrier s a (waiter_add_reply ids peer))))"

definition edsm_barrier_handle_message ::
    "nat \<Rightarrow> u32 \<Rightarrow> edsm_message option \<Rightarrow> ('h, 'w, 'k, 'z) dobjs_scheme
       \<Rightarrow> (int \<times> ('h, 'w, 'k, 'z) dobjs_scheme) res" where
  "edsm_barrier_handle_message a peer message s =
     res_bind (barrier_add_reply a peer s) (\<lambda>s1. Inr (SUCCESS, s1))"

definition sizeof_edsm_barrier :: nat where "sizeof_edsm_barrier = 104"

text \<open>\<^verbatim>\<open>edsm_barrier_get\<close> up to where \<^verbatim>\<open>edsm_dobj_get\<close> waits, and its rest.\<close>

definition edsm_barrier_get_start ::
    "runtime \<Rightarrow> 'w os \<Rightarrow> ('h, 'w, ('k, 'z) dobjs_ext) call \<Rightarrow> u32 \<Rightarrow> 'k
       \<Rightarrow> ('h, 'w, 'k, 'z) dobjs_scheme \<Rightarrow> (nat \<times> bool \<times> ('h, 'w, 'k, 'z) dobjs_scheme) res" where
  "edsm_barrier_get_start rt os call i handler s =
     edsm_dobj_get_start rt os call i sizeof_edsm_barrier (Barrier_Body None) handler s"

definition edsm_barrier_get_finish ::
    "nat \<Rightarrow> bool \<Rightarrow> ('h, 'w, 'k, 'z) dobjs_scheme \<Rightarrow> (nat \<times> ('h, 'w, 'k, 'z) dobjs_scheme) res option" where
  "edsm_barrier_get_finish a wait s =
     map_option (\<lambda>r. res_bind r (\<lambda>(a, s1).
       res_bind (edsm_dobj_test_and_init a s1) (\<lambda>(was_inited, s2).
       if was_inited = 0
       then res_bind (barrier_waiter s2 a) (\<lambda>w.
         if w = None then Inr (a, put_barrier s2 a waiter_create) else Inr (a, s2))
       else Inr (a, s2)))) (edsm_dobj_get_finish a wait s)"

definition edsm_barrier_arm ::
    "nat \<Rightarrow> u32 list \<Rightarrow> ('h, 'w, 'k, 'z) dobjs_scheme \<Rightarrow> (int \<times> ('h, 'w, 'k, 'z) dobjs_scheme) res" where
  "edsm_barrier_arm a ps s =
     res_bind (barrier_waiter s a) (\<lambda>w. res_bind (non_null w) (\<lambda>ids.
     Inr (SUCCESS, put_barrier s a (waiter_set_wait_on ids ps))))"

definition edsm_barrier_notify ::
    "runtime \<Rightarrow> 'w os \<Rightarrow> ('h, 'w, ('k, 'z memory_ext) dobjs_ext) call \<Rightarrow> (nat \<Rightarrow> bool) \<Rightarrow> nat
       \<Rightarrow> ('h, 'w, 'k, 'z) memory_scheme \<Rightarrow> (int \<times> ('h, 'w, 'k, 'z) memory_scheme) res" where
  "edsm_barrier_notify rt os call mprotect a s =
     res_bind (edsm_memory_tx_end rt os call mprotect None s) (\<lambda>(_, s1).
     res_bind (edsm_dobj_send rt os call a None s1) (\<lambda>(_, s2).
     res_bind (barrier_add_reply a (edsm_proto_local_id s2) s2) (\<lambda>s3. Inr (SUCCESS, s3))))"

text \<open>\<^term>\<open>None\<close> while the caller is blocked.\<close>

definition edsm_barrier_wait :: "nat \<Rightarrow> ('h, 'w, 'k, 'z) dobjs_scheme \<Rightarrow> int res option" where
  "edsm_barrier_wait a s =
     (case res_bind (barrier_waiter s a) non_null of
        Inl e \<Rightarrow> Some (Inl e)
      | Inr ids \<Rightarrow> if waiter_done ids then Some (Inr SUCCESS) else None)"

section \<open>Sequences of notifications\<close>

text \<open>Messages of the peers \<open>rs\<close>, one after the other.\<close>

fun notified_by ::
    "nat \<Rightarrow> u32 list \<Rightarrow> ('h, 'w, 'k, 'z) dobjs_scheme \<Rightarrow> ('h, 'w, 'k, 'z) dobjs_scheme res" where
  "notified_by a [] s = Inr s"
| "notified_by a (r # rs) s =
     res_bind (edsm_barrier_handle_message a r None s) (\<lambda>(_, s1). notified_by a rs s1)"

lemma barrier_body:
  "barrier_waiter s a = Inr w \<longleftrightarrow> (\<exists>ob. obj_mem s a = Some ob \<and> body ob = Barrier_Body w)"
  by (auto simp: barrier_waiter_def obj_at_def split: option.splits obj_body.splits)

lemma barrier_waiter_put [simp]:
  "barrier_waiter s a = Inr w \<Longrightarrow> barrier_waiter (put_barrier s a w') a = Inr (Some w')"
  by (auto simp: barrier_body put_barrier_def put_obj_def)

lemma put_barrier_twice [simp]: "put_barrier (put_barrier s a w) a w' = put_barrier s a w'"
  by (simp add: put_barrier_def put_obj_def split: option.split)

lemma notified_by_ok:
  "barrier_waiter s a = Inr (Some ids) \<Longrightarrow>
     \<exists>s'. notified_by a rs s = Inr s' \<and> barrier_waiter s' a = Inr (Some (fold (\<lambda>r w. waiter_add_reply w r) rs ids))"
proof (induction rs arbitrary: s ids)
  case (Cons r rs)
  have "barrier_waiter (put_barrier s a (waiter_add_reply ids r)) a = Inr (Some (waiter_add_reply ids r))"
    using Cons.prems by (rule barrier_waiter_put)
  from Cons.IH [OF this] show ?case
    using Cons.prems by (simp add: edsm_barrier_handle_message_def barrier_add_reply_def)
qed simp

section \<open>Properties\<close>

text \<open>C17: the wait of an armed barrier returns exactly when every peer it was armed with has notified since,
  in whatever order the notifications arrive; those that arrive before it is armed are lost, so
  that a node that arms late waits for ever.\<close>

theorem barrier_wait_iff:
  assumes "barrier_waiter s a = Inr (Some w)"
  shows "\<exists>s1 s2 s3. notified_by a early s = Inr s1 \<and> edsm_barrier_arm a ps s1 = Inr (SUCCESS, s2)
     \<and> notified_by a rs s2 = Inr s3
     \<and> edsm_barrier_wait a s3 = (if mset ps \<subseteq># mset rs then Some (Inr SUCCESS) else None)"
proof -
  obtain s1 w1 where s1: "notified_by a early s = Inr s1" "barrier_waiter s1 a = Inr (Some w1)"
    using notified_by_ok [OF assms] by blast
  let ?s2 = "put_barrier s1 a ps"
  have w2: "barrier_waiter ?s2 a = Inr (Some ps)" using s1(2) by simp
  obtain s3 where s3: "notified_by a rs ?s2 = Inr s3"
      "barrier_waiter s3 a = Inr (Some (fold (\<lambda>r w. waiter_add_reply w r) rs ps))"
    using notified_by_ok [OF w2] by blast
  have "edsm_barrier_arm a ps s1 = Inr (SUCCESS, ?s2)"
    using s1(2) by (simp add: edsm_barrier_arm_def waiter_set_wait_on_def)
  moreover have "waiter_done (fold (\<lambda>r w. waiter_add_reply w r) rs ps) \<longleftrightarrow> mset ps \<subseteq># mset rs"
    unfolding waiter_done_def by (metis mset_add_replies mset_zero_iff Diff_eq_empty_iff_mset)
  then have "edsm_barrier_wait a s3 = (if mset ps \<subseteq># mset rs then Some (Inr SUCCESS) else None)"
    using s3(2) by (simp add: edsm_barrier_wait_def)
  ultimately show ?thesis using s1(1) s3(1) by blast
qed

text \<open>A notification first ends the transaction of every region, then sends each holder one object
  message without data, and counts for the node itself.\<close>

theorem barrier_notify_sends:
  assumes rt: "enough_memory rt" and tx: "edsm_memory_tx_end rt os call mprotect None s = Inr (rc, s1)"
    and c: "connected s1" "accepts os written"
    and ob: "obj_mem s1 a = Some ob" "body ob = Barrier_Body (Some ids)"
      "set (obj_peers ob) \<subseteq> set (ids_of s1)" "distinct (obj_peers ob)"
  shows "\<exists>s'. edsm_barrier_notify rt os call mprotect a s = Inr (SUCCESS, s')
     \<and> barrier_waiter s' a = Inr (Some (remove1 (my_id s1) ids))
     \<and> (\<forall>i. out written s' i = (if i \<in> set (obj_peers ob)
          then out written s1 i @ frame MSG_TYPE_DOBJ (obj_content (obj_id ob) []) else out written s1 i))"
proof -
  have "payload None []" by (simp add: payload_def)
  from dobj_send_ok [OF rt c ob(1,3,4) this, of call] obtain w where
    w: "edsm_dobj_send rt os call a None s1 = Inr (SUCCESS, s1\<lparr>world := w\<rparr>)"
      "\<forall>i. out written (s1\<lparr>world := w\<rparr>) i = (if i \<in> set (obj_peers ob)
         then out written s1 i @ frame MSG_TYPE_DOBJ (obj_content (obj_id ob) []) else out written s1 i)"
    by (auto simp: message_room_def)
  let ?s2 = "s1\<lparr>world := w\<rparr>"
  have b: "barrier_waiter ?s2 a = Inr (Some ids)" using ob(1,2) by (simp add: barrier_body)
  have o: "out written (put_barrier ?s2 a ids') = out written ?s2" for ids'
    by (simp add: put_barrier_def put_obj_def out_def find_peer_def fun_eq_iff split: option.split)
  have "edsm_barrier_notify rt os call mprotect a s = Inr (SUCCESS, put_barrier ?s2 a (remove1 (my_id s1) ids))"
    using tx w(1) b by (simp add: edsm_barrier_notify_def barrier_add_reply_def waiter_add_reply_def edsm_proto_local_id_def)
  with w(2) o barrier_waiter_put [OF b] show ?thesis by auto
qed

definition barrier_node :: "(nat, int \<Rightarrow> byte list, nat) memory" where
  "barrier_node = put_barrier (memory_node\<lparr>memory_regions := []\<rparr>) 0 [1, 3]"

lemma barrier_node_ok: "obj_mem barrier_node 0 = Some (sample_object\<lparr>body := Barrier_Body (Some [1, 3])\<rparr>)"
  "barrier_waiter barrier_node 0 = Inr (Some [1, 3])" "memory_regions barrier_node = []"
  "connected barrier_node" "ids_of barrier_node = [2, 3]" "my_id barrier_node = my_id memory_node"
proof -
  show o: "obj_mem barrier_node 0 = Some (sample_object\<lparr>body := Barrier_Body (Some [1, 3])\<rparr>)"
    "memory_regions barrier_node = []"
    by (simp_all add: barrier_node_def put_barrier_def put_obj_def memory_node_ok)
  then show "barrier_waiter barrier_node 0 = Inr (Some [1, 3])" by (simp add: barrier_body)
  have e: "peer_mem barrier_node = peer_mem memory_node" "peers barrier_node = peers memory_node"
    "my_id barrier_node = my_id memory_node"
    by (simp_all add: barrier_node_def put_barrier_def put_obj_def split: option.split)
  from connected_cong [OF this] memory_node_connected show "connected barrier_node" "ids_of barrier_node = [2, 3]" by simp_all
  show "my_id barrier_node = my_id memory_node" by (rule e)
qed

lemma barrier_wait_iff_witness:
  "\<exists>s1 s2 s3. notified_by 0 [3] barrier_node = Inr s1 \<and> edsm_barrier_arm 0 [3, 2] s1 = Inr (SUCCESS, s2)
     \<and> notified_by 0 [2] s2 = Inr s3 \<and> edsm_barrier_wait 0 s3 = None"
  using barrier_wait_iff [OF barrier_node_ok(2), of "[3]" "[3, 2]" "[2]"] by simp

lemma barrier_notify_sends_witness:
  "\<exists>s'. edsm_barrier_notify good_runtime tape_os no_call (\<lambda>_. True) 0 barrier_node = Inr (SUCCESS, s')
     \<and> out (\<lambda>w. w) s' 3 = out (\<lambda>w. w) barrier_node 3 @ frame MSG_TYPE_DOBJ (obj_content 9 [])"
proof -
  have tx: "edsm_memory_tx_end good_runtime tape_os no_call (\<lambda>_. True) None barrier_node = Inr (SUCCESS, barrier_node)"
    by (simp add: edsm_memory_tx_end_def barrier_node_ok)
  from barrier_notify_sends [OF enough_memory_good tx barrier_node_ok(4) tape_os_accepts barrier_node_ok(1), of "[1, 3]"]
  show ?thesis by (auto simp: sample_object_def barrier_node_ok)
qed

end
