(* ===== verification/Task.thy ===== *)
theory Task
  imports Memory_Dobj
begin

text \<open>
  Tasks, \<^verbatim>\<open>src/src/task.c\<close>: the table of linked tasks, keyed by their names, and the up
  calls, each of which starts a thread that calls into the code of the task. That code is a parameter:
  the address of the function \<^verbatim>\<open>up_call\<close> is a value of type \<open>'u\<close>. The threads that
  have been started, with their arguments, are a list in the state.
\<close>

section \<open>State\<close>

record 'u task_information =
  task_id :: i32
  task_name :: "byte list"
  up_call :: 'u
  task_data :: "nat option"

record task_thread =
  thread_task :: nat
  thread_peer :: u32
  thread_event :: u32
  thread_params :: "edsm_message option"

record ('h, 'w, 'k, 'u) tasks = "('h, 'w, 'k) memory" +
  task_table :: "nat uthash"
  task_mem :: "nat \<Rightarrow> 'u task_information option"
  task_brk :: nat
  task_threads :: "task_thread list"

definition task_at :: "('h, 'w, 'k, 'u, 'z) tasks_scheme \<Rightarrow> nat \<Rightarrow> 'u task_information res" where
  "task_at s p = (case task_mem s p of None \<Rightarrow> Inl UseAfterFree | Some t \<Rightarrow> Inr t)"

text \<open>The key of a task is the characters of its name.\<close>

definition task_key :: "(nat \<Rightarrow> 'u task_information option) \<Rightarrow> nat \<Rightarrow> byte list" where
  "task_key mem p = (case mem p of None \<Rightarrow> [] | Some t \<Rightarrow> task_name t)"

section \<open>Operations\<close>

definition edsm_task_init ::
    "runtime \<Rightarrow> 'h \<Rightarrow> ('h, 'w, 'z) proto_scheme \<Rightarrow> (int \<times> ('h, 'w, 'z) proto_scheme) res" where
  "edsm_task_init rt h s =
     res_bind (edsm_proto_register_handler rt MSG_TYPE_TASK h s) (\<lambda>(_, s'). Inr (SUCCESS, s'))"

definition edsm_task_send_up_call ::
    "runtime \<Rightarrow> 'w os \<Rightarrow> ('h, 'w, 'z) call \<Rightarrow> byte list \<Rightarrow> u32 \<Rightarrow> u32 \<Rightarrow> edsm_message option
       \<Rightarrow> ('h, 'w, 'z) proto_scheme \<Rightarrow> (int \<times> ('h, 'w, 'z) proto_scheme) res" where
  "edsm_task_send_up_call rt os call name peer event params s =
     res_bind (new_message rt 100) (\<lambda>m.
     res_bind (edsm_message_write_string rt m name) (\<lambda>(_, m1).
     res_bind (write_u32 rt m1 event) (\<lambda>(_, m2).
     res_bind (edsm_message_write_message rt m2 params) (\<lambda>(_, m3).
     edsm_proto_send rt os call peer MSG_TYPE_TASK m3 s))))"

text \<open>The outcome of \<^verbatim>\<open>pthread_create\<close>, \<open>spawn_ok\<close>, is not looked at by the program.\<close>

definition edsm_task_do_up_call ::
    "runtime \<Rightarrow> bool \<Rightarrow> byte list \<Rightarrow> u32 \<Rightarrow> u32 \<Rightarrow> edsm_message option
       \<Rightarrow> ('h, 'w, 'k, 'u, 'z) tasks_scheme \<Rightarrow> (int \<times> ('h, 'w, 'k, 'u, 'z) tasks_scheme) res" where
  "edsm_task_do_up_call rt spawn_ok name peer event params s =
     (case HASH_FIND (task_key (task_mem s)) (task_table s) name of
        None \<Rightarrow> Inr (FAILURE, s)
      | Some task \<Rightarrow>
          res_bind (non_null (malloc rt 24)) (\<lambda>_.
          Inr (SUCCESS, if spawn_ok
            then s\<lparr>task_threads := task_threads s @ [\<lparr>thread_task = task, thread_peer = peer,
                thread_event = event, thread_params = params\<rparr>]\<rparr>
            else s)))"

definition edsm_task_handle_up_call ::
    "runtime \<Rightarrow> bool \<Rightarrow> u32 \<Rightarrow> edsm_message
       \<Rightarrow> ('h, 'w, 'k, 'u, 'z) tasks_scheme \<Rightarrow> (int \<times> ('h, 'w, 'k, 'u, 'z) tasks_scheme) res" where
  "edsm_task_handle_up_call rt spawn_ok peer msg s =
     res_bind (edsm_message_read_string rt msg) (\<lambda>(name, m1).
     case name of
       None \<Rightarrow> Inr (FAILURE, s)
     | Some cs \<Rightarrow>
         res_bind (read_u32 m1) (\<lambda>(rc, v, m2).
         if rc = FAILURE then Inr (FAILURE, s) else
         res_bind (edsm_message_read_message rt m2 None) (\<lambda>(rc', params, m3).
         if rc' = FAILURE then Inr (FAILURE, s) else
         res_bind (determinate v) (\<lambda>event.
         res_bind (c_string cs) (\<lambda>task_name.
         edsm_task_do_up_call rt spawn_ok task_name peer event params s)))))"

text \<open>What a thread does: \<open>run\<close> is the code of the task, called with the address of the task's structure.\<close>

definition task_thread_entry ::
    "('u \<Rightarrow> nat \<Rightarrow> u32 \<Rightarrow> u32 \<Rightarrow> edsm_message option
         \<Rightarrow> ('h, 'w, 'k, 'u, 'z) tasks_scheme \<Rightarrow> (int \<times> ('h, 'w, 'k, 'u, 'z) tasks_scheme) res)
       \<Rightarrow> task_thread \<Rightarrow> ('h, 'w, 'k, 'u, 'z) tasks_scheme \<Rightarrow> ('h, 'w, 'k, 'u, 'z) tasks_scheme res" where
  "task_thread_entry run t s =
     res_bind (task_at s (thread_task t)) (\<lambda>task.
     res_bind (run (up_call task) (thread_task t) (thread_peer t) (thread_event t) (thread_params t) s) (\<lambda>(_, s').
     Inr s'))"

text \<open>
  Linking a task: \<open>dlopen\<close> gives the handle of a library, if it can be opened, and
  \<open>dlsym\<close> the address of its symbol \<^verbatim>\<open>up_call\<close>, if there is one.
\<close>

definition edsm_task_link ::
    "runtime \<Rightarrow> (byte list \<Rightarrow> 'l option) \<Rightarrow> ('l \<Rightarrow> 'u option) \<Rightarrow> bool \<Rightarrow> byte list \<Rightarrow> byte list
       \<Rightarrow> ('h, 'w, 'k, 'u, 'z) tasks_scheme \<Rightarrow> (nat option \<times> ('h, 'w, 'k, 'u, 'z) tasks_scheme) res" where
  "edsm_task_link rt dlopen dlsym spawn_ok name path s =
     (case dlopen path of
        None \<Rightarrow> Inr (None, s)
      | Some handle \<Rightarrow>
          (case dlsym handle of
             None \<Rightarrow> Inr (None, s)
           | Some f \<Rightarrow>
               res_bind (non_null (malloc rt 96)) (\<lambda>_.
               res_bind (non_null (malloc rt (length name + 1))) (\<lambda>_.
               let task = task_brk s;
                   mem = (task_mem s)(task \<mapsto> \<lparr>task_id = 0, task_name = name, up_call = f, task_data = None\<rparr>);
                   s1 = s\<lparr>task_table := HASH_ADD (task_key mem) (task_table s) task,
                       task_mem := mem, task_brk := Suc task\<rparr>
               in res_bind (edsm_task_do_up_call rt spawn_ok name (edsm_proto_local_id s1) 0 None s1) (\<lambda>(_, s2).
                  Inr (Some task, s2))))))"

section \<open>Messages of up calls\<close>

definition up_call_content :: "byte list \<Rightarrow> u32 \<Rightarrow> byte list \<Rightarrow> byte list" where
  "up_call_content name event bs =
     bytes_of_u32 (word_of_nat (length name)) @ name @ bytes_of_u32 event
       @ bytes_of_u32 (word_of_nat (length bs)) @ bs"

text \<open>The task that has a name, and the started thread.\<close>

definition find_task :: "('h, 'w, 'k, 'u, 'z) tasks_scheme \<Rightarrow> byte list \<Rightarrow> nat option" where
  "find_task s name = HASH_FIND (task_key (task_mem s)) (task_table s) name"

lemma do_up_call_ok:
  assumes "enough_memory rt"
  shows "edsm_task_do_up_call rt True name peer event params s =
    (case find_task s name of None \<Rightarrow> Inr (FAILURE, s)
     | Some a \<Rightarrow> Inr (SUCCESS, s\<lparr>task_threads := task_threads s @ [\<lparr>thread_task = a, thread_peer = peer,
         thread_event = event, thread_params = params\<rparr>]\<rparr>))"
  using assms by (simp add: edsm_task_do_up_call_def find_task_def split: option.split)

lemma up_call_written:
  assumes rt: "enough_memory rt" and p: "payload params bs"
    and b: "length name + length bs + 12 \<le> message_room"
  obtains m1 m2 m3 m where "new_message rt 100 = Inr m1"
    "edsm_message_write_string rt m1 name = Inr (SUCCESS, m2)" "write_u32 rt m2 event = Inr (SUCCESS, m3)"
    "edsm_message_write_message rt m3 params = Inr (SUCCESS, m)" "holds m (up_call_content name event bs)"
proof -
  have b': "3 * (length name + length bs + 12) < 2 ^ 31" using b by (simp only: message_room_iff)
  have "unat (100 :: u32) < 2 ^ 31" by simp
  with rt obtain m1 where m1: "new_message rt 100 = Inr m1" "holds m1 []" "used m1 = 0" by (rule new_message_ok)
  have "3 * (used m1 + 4 + length name) < 2 ^ 31" using b' m1(3) by simp
  with rt m1(2) obtain m2 where m2: "edsm_message_write_string rt m1 name = Inr (SUCCESS, m2)"
      "holds m2 ([] @ bytes_of_u32 (word_of_nat (length name)) @ name)" "used m2 = used m1 + 4 + length name"
    by (rule write_string_ok)
  have "3 * (used m2 + 4) < 2 ^ 31" using b' m1(3) m2(3) by simp
  with rt m2(2) obtain m3 where m3: "write_u32 rt m2 event = Inr (SUCCESS, m3)"
      "holds m3 (([] @ bytes_of_u32 (word_of_nat (length name)) @ name) @ bytes_of_u32 event)" "used m3 = used m2 + 4"
    by (rule holds_write_u32)
  have "3 * (used m3 + 4 + length bs) < 2 ^ 31" using b' m1(3) m2(3) m3(3) by simp
  with rt m3(2) p obtain m where m: "edsm_message_write_message rt m3 params = Inr (SUCCESS, m)"
      "holds m ((([] @ bytes_of_u32 (word_of_nat (length name)) @ name) @ bytes_of_u32 event)
         @ bytes_of_u32 (word_of_nat (length bs)) @ bs)"
    by (rule write_payload_ok)
  have "holds m (up_call_content name event bs)" using m(2) by (simp add: up_call_content_def)
  with m1(1) m2(1) m3(1) m(1) show ?thesis by (rule that)
qed

lemma up_call_content_ne: "up_call_content name event bs \<noteq> []"
  by (simp add: up_call_content_def bytes_of_u32_def)

lemma handle_up_call_ok:
  assumes rt: "enough_memory rt" and m: "holds m (up_call_content name event bs)"
    and n: "0 \<notin> set name" "length name < 2 ^ 31" "length bs < 2 ^ 31"
  obtains params where "payload params bs" "params = None \<longleftrightarrow> bs = []"
    "edsm_task_handle_up_call rt spawn_ok peer m s = edsm_task_do_up_call rt spawn_ok name peer event params s"
proof -
  from rt m n(2) obtain m1 where m1: "edsm_message_read_string rt m = Inr (Some (cells (name @ [0])), m1)"
      "holds m1 (bytes_of_u32 event @ bytes_of_u32 (word_of_nat (length bs)) @ bs)"
    unfolding up_call_content_def by (rule read_string_ok)
  from m1(2) obtain m2 where m2: "read_u32 m1 = Inr (SUCCESS, Some event, m2)"
      "holds m2 (bytes_of_u32 (word_of_nat (length bs)) @ bs)"
    by (rule holds_read_u32)
  from rt m2(2) n(3) obtain p m3 where m3: "edsm_message_read_message rt m2 None = Inr (SUCCESS, p, m3)"
      "payload p bs" "p = None \<longleftrightarrow> bs = []"
    by (rule read_payload_ok)
  have "c_string (cells (name @ [0])) = Inr name" using n(1) c_string_cells [of name "[]"] by (simp add: cells_def)
  with m1(1) m2(1) m3(1)
  have "edsm_task_handle_up_call rt spawn_ok peer m s = edsm_task_do_up_call rt spawn_ok name peer event p s"
    by (simp add: edsm_task_handle_up_call_def)
  with m3(2,3) show ?thesis by (rule that)
qed

text \<open>The table holds the tasks in memory, under distinct names.\<close>

definition wf_tasks :: "('h, 'w, 'k, 'u, 'z) tasks_scheme \<Rightarrow> bool" where
  "wf_tasks s \<longleftrightarrow> uthash.keyed (task_key (task_mem s)) (task_table s)
     \<and> (\<forall>p \<in> set (HASH_ITER (task_table s)). task_mem s p \<noteq> None \<and> p < task_brk s)"

lemma link_ok:
  assumes rt: "enough_memory rt" and dl: "dlopen path = Some l" "dlsym l = Some f"
    and wf: "wf_tasks s" "can_expand (task_table s)" and new: "find_task s name = None"
  obtains s' where "edsm_task_link rt dlopen dlsym True name path s = Inr (Some (task_brk s), s')" "wf_tasks s'"
    "\<And>n. find_task s' n = (if n = name then Some (task_brk s) else find_task s n)"
    "task_mem s' (task_brk s) = Some \<lparr>task_id = 0, task_name = name, up_call = f, task_data = None\<rparr>"
    "task_threads s' = task_threads s @ [\<lparr>thread_task = task_brk s, thread_peer = my_id s, thread_event = 0,
       thread_params = None\<rparr>]"
    "my_id s' = my_id s" "message_handlers s' = message_handlers s"
proof -
  let ?a = "task_brk s"
  define mem where "mem = (task_mem s)(?a \<mapsto> \<lparr>task_id = 0, task_name = name, up_call = f, task_data = None\<rparr>)"
  define s1 where "s1 = s\<lparr>task_table := HASH_ADD (task_key mem) (task_table s) ?a, task_mem := mem,
    task_brk := Suc ?a\<rparr>"
  let ?s2 = "s1\<lparr>task_threads := task_threads s1 @ [\<lparr>thread_task = ?a, thread_peer = my_id s1, thread_event = 0,
    thread_params = None\<rparr>]\<rparr>"
  have same: "task_key mem p = task_key (task_mem s) p" if "p \<in> set (HASH_ITER (task_table s))" for p
    using that wf(1) by (auto simp: task_key_def mem_def wf_tasks_def)
  have kd0: "uthash.keyed (task_key (task_mem s)) (task_table s)" using wf(1) by (simp add: wf_tasks_def)
  have kd: "uthash.keyed (task_key mem) (task_table s)" by (rule keyed_cong [OF same kd0])
  have find: "HASH_FIND (task_key mem) (task_table s) n = find_task s n" for n
    unfolding find_task_def by (rule keyed_cong [OF same kd0])
  have k: "task_key mem ?a = name" by (simp add: task_key_def mem_def)
  from find have free: "HASH_FIND (task_key mem) (task_table s) (task_key mem ?a) = None" using k new by simp
  have add: "HASH_FIND (task_key mem) (HASH_ADD (task_key mem) (task_table s) ?a) n
      = (if n = name then Some ?a else find_task s n)" for n
    using uthash.find_add [OF kd wf(2) free] k find by simp
  have s2: "find_task ?s2 n = (if n = name then Some ?a else find_task s n)" for n
    using add by (simp add: find_task_def s1_def)
  have "HASH_ITER (HASH_ADD (task_key mem) (task_table s) ?a) = HASH_ITER (task_table s) @ [?a]"
    using kd by (intro uthash.items_add [OF _ wf(2)]) (simp add: uthash.keyed_def)
  then have "wf_tasks ?s2"
    using wf(1) uthash.keyed_add [OF kd wf(2) free] by (auto simp: wf_tasks_def s1_def mem_def)
  moreover have "edsm_task_link rt dlopen dlsym True name path s = Inr (Some ?a, ?s2)"
    using rt dl add [of name]
    by (simp add: edsm_task_link_def Let_def edsm_task_do_up_call_def edsm_proto_local_id_def s1_def mem_def)
  ultimately show ?thesis using s2 by (intro that [of ?s2]) (simp_all add: s1_def mem_def)
qed

section \<open>Properties\<close>

text \<open>C23: an up call sent to a peer arrives there as one frame, from which the peer starts exactly one
  thread of the task with that name, with the caller's id, the event and the parameters; if it
  has no such task, its handler fails and nothing changes.\<close>

theorem up_call_reaches_task:
  assumes rt: "enough_memory rt" and c: "connected s" "accepts os written" and p: "peer \<in> set (ids_of s)"
    and params: "payload params bs" and n: "0 \<notin> set name" "length name + length bs + 12 \<le> message_room"
    and m: "holds m (up_call_content name event bs)"
  shows "(\<exists>w. edsm_task_send_up_call rt os call name peer event params s = Inr (SUCCESS, s\<lparr>world := w\<rparr>)
       \<and> out written (s\<lparr>world := w\<rparr>)
           = (out written s)(peer := out written s peer @ frame MSG_TYPE_TASK (up_call_content name event bs)))
     \<and> (\<exists>params'. payload params' bs \<and>
       edsm_task_handle_up_call rt True (my_id s) m r = (case find_task r name of
           None \<Rightarrow> Inr (FAILURE, r)
         | Some a \<Rightarrow> Inr (SUCCESS, r\<lparr>task_threads := task_threads r @ [\<lparr>thread_task = a, thread_peer = my_id s,
             thread_event = event, thread_params = params'\<rparr>]\<rparr>)))"
proof (intro conjI)
  from rt params n(2) obtain m1 m2 m3 m4 where w: "new_message rt 100 = Inr m1"
      "edsm_message_write_string rt m1 name = Inr (SUCCESS, m2)" "write_u32 rt m2 event = Inr (SUCCESS, m3)"
      "edsm_message_write_message rt m3 params = Inr (SUCCESS, m4)" "holds m4 (up_call_content name event bs)"
    by (rule up_call_written)
  from edsm.unicast [OF conjI [OF c] p w(5) up_call_content_ne, of rt call MSG_TYPE_TASK "world s"] obtain s' where
    s': "edsm_proto_send rt os call peer MSG_TYPE_TASK m4 s = Inr (SUCCESS, s')"
      "s'\<lparr>world := world s\<rparr> = s\<lparr>world := world s\<rparr>"
      "out written s' = (out written s)(peer := out written s peer @ frame MSG_TYPE_TASK (up_call_content name event bs))"
    by blast
  have e: "s' = s\<lparr>world := world s'\<rparr>" by (rule same_rest [OF s'(2)])
  have "edsm_task_send_up_call rt os call name peer event params s = Inr (SUCCESS, s')"
    by (simp add: edsm_task_send_up_call_def w s'(1))
  with s'(3) e show "\<exists>w. edsm_task_send_up_call rt os call name peer event params s = Inr (SUCCESS, s\<lparr>world := w\<rparr>)
       \<and> out written (s\<lparr>world := w\<rparr>)
           = (out written s)(peer := out written s peer @ frame MSG_TYPE_TASK (up_call_content name event bs))" by metis
next
  have "length name < 2 ^ 31" "length bs < 2 ^ 31" using n(2) by (simp_all add: message_room_def)
  with rt m n(1) obtain params' where "payload params' bs"
    "edsm_task_handle_up_call rt True (my_id s) m r = edsm_task_do_up_call rt True name (my_id s) event params' r"
    using handle_up_call_ok by metis
  then show "\<exists>params'. payload params' bs \<and>
       edsm_task_handle_up_call rt True (my_id s) m r = (case find_task r name of
           None \<Rightarrow> Inr (FAILURE, r)
         | Some a \<Rightarrow> Inr (SUCCESS, r\<lparr>task_threads := task_threads r @ [\<lparr>thread_task = a, thread_peer = my_id s,
             thread_event = event, thread_params = params'\<rparr>]\<rparr>))"
    using do_up_call_ok [OF rt] by metis
qed

text \<open>Linking a task under a new name registers it and starts its first thread, with event 0, the
  local id and no parameters; the table stays well formed and finds the other tasks as before. An
  up call that the node sends to itself, once the handler is registered, starts a thread of
  the task in the same way, and reports success even when there is no such task.\<close>

theorem linked_task_called:
  assumes rt: "enough_memory rt" and dl: "dlopen path = Some l" "dlsym l = Some f"
    and wf: "wf_tasks s" "can_expand (task_table s)" and new: "find_task s name = None"
    and me: "my_id s \<noteq> 0" "HASH_FIND handler_key (message_handlers s) (bytes_of_u32 MSG_TYPE_TASK) = Some (MSG_TYPE_TASK, h)"
    and h: "call h = edsm_task_handle_up_call rt True"
    and params: "payload params bs" and n: "0 \<notin> set name'" "length name' + length bs + 12 \<le> message_room"
  shows "\<exists>s' params'. edsm_task_link rt dlopen dlsym True name path s = Inr (Some (task_brk s), s') \<and> wf_tasks s'
     \<and> (\<forall>n. find_task s' n = (if n = name then Some (task_brk s) else find_task s n))
     \<and> task_threads s' = task_threads s @ [\<lparr>thread_task = task_brk s, thread_peer = my_id s, thread_event = 0,
         thread_params = None\<rparr>]
     \<and> payload params' bs
     \<and> edsm_task_send_up_call rt os call name' (my_id s) event params s' = Inr (SUCCESS,
         case find_task s' name' of None \<Rightarrow> s'
         | Some a \<Rightarrow> s'\<lparr>task_threads := task_threads s' @ [\<lparr>thread_task = a, thread_peer = my_id s,
             thread_event = event, thread_params = params'\<rparr>]\<rparr>)"
proof -
  from rt dl wf new obtain s' where s': "edsm_task_link rt dlopen dlsym True name path s = Inr (Some (task_brk s), s')" "wf_tasks s'"
      "\<And>n. find_task s' n = (if n = name then Some (task_brk s) else find_task s n)"
      "task_threads s' = task_threads s @ [\<lparr>thread_task = task_brk s, thread_peer = my_id s, thread_event = 0,
         thread_params = None\<rparr>]"
      "my_id s' = my_id s" "message_handlers s' = message_handlers s"
    by (rule link_ok [where dlopen = dlopen and dlsym = dlsym]) blast
  from rt params n(2) obtain m1 m2 m3 m where w: "new_message rt 100 = Inr m1"
      "edsm_message_write_string rt m1 name' = Inr (SUCCESS, m2)" "write_u32 rt m2 event = Inr (SUCCESS, m3)"
      "edsm_message_write_message rt m3 params = Inr (SUCCESS, m)" "holds m (up_call_content name' event bs)"
    by (rule up_call_written)
  obtain c where c: "edsm_message_clone rt m = Inr (Some c)" "holds c (up_call_content name' event bs)"
    using clone_ok [of rt m] rt w(5) by (auto simp: holds_def)
  have "length name' < 2 ^ 31" "length bs < 2 ^ 31" using n(2) by (simp_all add: message_room_def)
  with rt c(2) n(1) obtain params' where ps: "payload params' bs"
    "edsm_task_handle_up_call rt True (my_id s) c s' = edsm_task_do_up_call rt True name' (my_id s) event params' s'"
    using handle_up_call_ok by metis
  have "edsm_task_send_up_call rt os call name' (my_id s) event params s' = Inr (SUCCESS,
         case find_task s' name' of None \<Rightarrow> s'
         | Some a \<Rightarrow> s'\<lparr>task_threads := task_threads s' @ [\<lparr>thread_task = a, thread_peer = my_id s,
             thread_event = event, thread_params = params'\<rparr>]\<rparr>)"
    using me h c(1) ps(2) s'(5,6)
    by (simp add: edsm_task_send_up_call_def w(1-4) edsm_proto_send_def handle_message_def do_up_call_ok [OF rt]
        split: option.split)
  with s' ps(1) show ?thesis by blast
qed

definition task_node :: "(nat, int \<Rightarrow> byte list, nat, nat) tasks" where
  "task_node = memory.extend (memory_node\<lparr>message_handlers := HASH_ADD handler_key None (MSG_TYPE_TASK, 7)\<rparr>)
     \<lparr>task_table = None, task_mem = (\<lambda>_. None), task_brk = 0, task_threads = []\<rparr>"

lemma task_node_ok: "connected task_node" "ids_of task_node = [2, 3]" "my_id task_node = my_id memory_node"
  "wf_tasks task_node" "can_expand (task_table task_node)" "find_task task_node n = None"
  "HASH_FIND handler_key (message_handlers task_node) (bytes_of_u32 MSG_TYPE_TASK) = Some (MSG_TYPE_TASK, 7)"
  "task_brk task_node = 0" "task_threads task_node = []"
proof -
  have e: "peer_mem task_node = peer_mem memory_node" "peers task_node = peers memory_node" "my_id task_node = my_id memory_node"
    by (simp_all add: task_node_def memory.extend_def)
  from connected_cong [OF this] memory_node_connected show "connected task_node" "ids_of task_node = [2, 3]" by simp_all
  show "my_id task_node = my_id memory_node" by (rule e)
  show "wf_tasks task_node" "can_expand (task_table task_node)" "find_task task_node n = None"
    "task_brk task_node = 0" "task_threads task_node = []"
    by (simp_all add: task_node_def memory.extend_def wf_tasks_def uthash.keyed_def wf_uthash_def HASH_ITER_def
        can_expand_def find_task_def HASH_FIND_def)
  from uthash.find_add [OF empty_table(1,2,4), of handler_key "(MSG_TYPE_TASK, 7)" "bytes_of_u32 MSG_TYPE_TASK"]
  show "HASH_FIND handler_key (message_handlers task_node) (bytes_of_u32 MSG_TYPE_TASK) = Some (MSG_TYPE_TASK, 7)"
    by (simp add: task_node_def memory.extend_def handler_key_def)
qed

lemma up_call_reaches_task_witness:
  "\<exists>s'. edsm_task_send_up_call good_runtime tape_os no_call [116] 2 5 None task_node = Inr (SUCCESS, s')
     \<and> out (\<lambda>w. w) s' 2 = out (\<lambda>w. w) task_node 2 @ frame MSG_TYPE_TASK (up_call_content [116] 5 [])"
proof -
  let ?c = "up_call_content [116] 5 []"
  have "holds (message_of ?c) ?c" using holds_message_of [of ?c] by (simp add: up_call_content_def)
  with up_call_reaches_task [OF enough_memory_good task_node_ok(1) tape_os_accepts, of 2 None "[]" "[116]" "message_of ?c" 5
      no_call task_node] show ?thesis
    by (auto simp: task_node_ok payload_def message_room_def)
qed

lemma linked_task_called_witness:
  "\<exists>s' params. edsm_task_link good_runtime (\<lambda>_. Some ()) (\<lambda>_. Some 3) True [116] [47] task_node = Inr (Some 0, s')
     \<and> edsm_task_send_up_call good_runtime tape_os (\<lambda>_. edsm_task_handle_up_call good_runtime True) [116] (my_id task_node) 5 None s'
         = Inr (SUCCESS, s'\<lparr>task_threads := [\<lparr>thread_task = 0, thread_peer = my_id task_node, thread_event = 0,
               thread_params = None\<rparr>,
             \<lparr>thread_task = 0, thread_peer = my_id task_node, thread_event = 5, thread_params = params\<rparr>]\<rparr>)"
proof -
  have me: "my_id task_node \<noteq> 0" by (simp add: task_node_def memory.extend_def memory_node_def dobjs.extend_def
        node_with_object_def proto.extend_def node_of_three_ok)
  have "payload None []" "0 \<notin> set [116 :: byte]" "length [116 :: byte] + length ([] :: byte list) + 12 \<le> message_room"
    by (simp_all add: payload_def message_room_def)
  note p = this
  let ?h = "\<lambda>_. edsm_task_handle_up_call good_runtime True"
  from linked_task_called [where dlopen = "\<lambda>_. Some ()" and dlsym = "\<lambda>_. Some 3" and path = "[47]" and name = "[116]"
      and event = 5 and os = tape_os and call = ?h,
      OF enough_memory_good refl refl task_node_ok(4,5,6) me task_node_ok(7) refl p]
  obtain s' params where
    r: "edsm_task_link good_runtime (\<lambda>_. Some ()) (\<lambda>_. Some 3) True [116] [47] task_node = Inr (Some (task_brk task_node), s')"
      "\<forall>n. find_task s' n = (if n = [116] then Some (task_brk task_node) else find_task task_node n)"
      "task_threads s' = task_threads task_node @ [\<lparr>thread_task = task_brk task_node, thread_peer = my_id task_node,
         thread_event = 0, thread_params = None\<rparr>]"
      "edsm_task_send_up_call good_runtime tape_os ?h [116] (my_id task_node) 5 None s' = Inr (SUCCESS,
         case find_task s' [116] of None \<Rightarrow> s'
         | Some a \<Rightarrow> s'\<lparr>task_threads := task_threads s' @ [\<lparr>thread_task = a, thread_peer = my_id task_node,
             thread_event = 5, thread_params = params\<rparr>]\<rparr>)"
    by (elim exE conjE) (rule that)
  then show ?thesis by (intro exI [of _ s'] exI [of _ params]) (simp add: task_node_ok)
qed

end
