(* ===== verification/Handshake.thy ===== *)
theory Handshake
  imports Protocol
begin

text \<open>
  Joining a group: \<^verbatim>\<open>src/src/protocol_handshake.c\<close> and
  \<^verbatim>\<open>edsm_proto_group_join\<close>. The arguments \<open>peers\<close> and \<open>my_id\<close> of
  the C functions always point to the global variables and are fields of the state here. A peer is
  passed as its address. Connecting to a peer and connecting to the peers it names call each other;
  both carry fuel. The text of an address, made for debugging messages only, is left out.
\<close>

section \<open>Operations\<close>

definition put_peer ::
    "('h, 'w, 'z) proto_scheme \<Rightarrow> nat \<Rightarrow> peer_information \<Rightarrow> ('h, 'w, 'z) proto_scheme" where
  "put_peer s p pr = s\<lparr>peer_mem := (peer_mem s)(p \<mapsto> pr)\<rparr>"

fun max_peer_id :: "('h, 'w, 'z) proto_scheme \<Rightarrow> nat list \<Rightarrow> u32 \<Rightarrow> u32 res" where
  "max_peer_id s [] max_id = Inr max_id"
| "max_peer_id s (p # ps) max_id =
     res_bind (peer_at s p) (\<lambda>pr.
     max_peer_id s ps (if peer_id pr > max_id then peer_id pr else max_id))"

definition get_next_peer_id :: "('h, 'w, 'z) proto_scheme \<Rightarrow> u32 res" where
  "get_next_peer_id s =
     res_bind (max_peer_id s (HASH_ITER (peers s)) (edsm_proto_local_id s)) (\<lambda>max_id. Inr (max_id + 1))"

text \<open>
  The id of the new peer and the part of the response that follows the local id: a peer that has no id
  yet is given one, and the list of peers.
\<close>

definition init_identity ::
    "runtime \<Rightarrow> nat \<Rightarrow> u32 \<Rightarrow> edsm_message \<Rightarrow> ('h, 'w, 'z) proto_scheme
       \<Rightarrow> (edsm_message \<times> ('h, 'w, 'z) proto_scheme) res" where
  "init_identity rt p recvd_peer_id resp s =
     res_bind (peer_at s p) (\<lambda>pr.
     if recvd_peer_id = 0 then
       res_bind (get_next_peer_id s) (\<lambda>i.
       let s' = put_peer s p (pr\<lparr>peer_id := i\<rparr>) in
       res_bind (write_u32 rt resp i) (\<lambda>(_, resp1).
       res_bind (append_peerlist_to_message rt s' resp1) (\<lambda>resp2.
       Inr (resp2, s'))))
     else Inr (resp, put_peer s p (pr\<lparr>peer_id := recvd_peer_id\<rparr>)))"

definition read_and_handle_init_message ::
    "runtime \<Rightarrow> 'w os \<Rightarrow> nat \<Rightarrow> ('h, 'w, 'z) proto_scheme \<Rightarrow> (int \<times> ('h, 'w, 'z) proto_scheme) res" where
  "read_and_handle_init_message rt os p s =
     res_bind (peer_at s p) (\<lambda>pr0.
     res_bind (read_message_from_socket rt os (sock_fd pr0) (world s)) (\<lambda>(m, w1).
     case m of
       None \<Rightarrow> Inr (FAILURE, s\<lparr>world := w1\<rparr>)
     | Some init \<Rightarrow>
         res_bind (new_message rt 200) (\<lambda>resp.
         res_bind (read_u32 init) (\<lambda>(_, t, init1).
         res_bind (determinate t) (\<lambda>msg_type.
         if msg_type \<noteq> MSG_TYPE_PROTO_INIT then Inr (FAILURE, s\<lparr>world := w1\<rparr>) else
         res_bind (write_u32 rt resp (edsm_proto_local_id s)) (\<lambda>(_, resp1).
         res_bind (read_u32 init1) (\<lambda>(_, i, init2).
         res_bind (determinate i) (\<lambda>recvd_peer_id.
         res_bind (init_identity rt p recvd_peer_id resp1 (s\<lparr>world := w1\<rparr>)) (\<lambda>(resp2, s2).
         res_bind (read_u16 init2) (\<lambda>(_, v, init3).
         res_bind (determinate v) (\<lambda>port.
         res_bind (peer_at s2 p) (\<lambda>pr.
         res_bind (fd_send_message os (sock_fd pr) MSG_TYPE_PROTO_INIT resp2 (world s2)) (\<lambda>(rc, w2).
         Inr (if rc = FAILURE then FAILURE else SUCCESS,
           (put_peer s2 p (pr\<lparr>peer_addr := edsm_socket_set_sockaddr_port (peer_addr pr) port\<rparr>))\<lparr>world := w2\<rparr>))))))))))))))"

text \<open>The id a node that has none takes from a response, and the peers that follow it.\<close>

definition adopt_identity ::
    "runtime \<Rightarrow> edsm_message \<Rightarrow> ('h, 'w, 'z) proto_scheme \<Rightarrow> ('h, 'w, 'z) proto_scheme res" where
  "adopt_identity rt resp s =
     (if my_id s = 0 then
        res_bind (read_u32 resp) (\<lambda>(rc, v, resp1).
        res_bind (if rc = FAILURE then Inr (my_id s) else determinate v) (\<lambda>i.
        res_bind (read_peerlist_from_message rt resp1 (s\<lparr>my_id := i\<rparr>)) (\<lambda>(_, s'). Inr s')))
      else Inr s)"

definition read_and_handle_init_response ::
    "runtime \<Rightarrow> 'w os \<Rightarrow> nat \<Rightarrow> ('h, 'w, 'z) proto_scheme \<Rightarrow> (int \<times> ('h, 'w, 'z) proto_scheme) res" where
  "read_and_handle_init_response rt os p s =
     res_bind (peer_at s p) (\<lambda>pr.
     res_bind (read_message_from_socket rt os (sock_fd pr) (world s)) (\<lambda>(m, w1).
     case m of
       None \<Rightarrow> Inr (FAILURE, s\<lparr>world := w1\<rparr>)
     | Some resp \<Rightarrow>
         res_bind (read_u32 resp) (\<lambda>(_, t, resp1).
         res_bind (determinate t) (\<lambda>msg_type.
         if msg_type \<noteq> MSG_TYPE_PROTO_INIT then Inr (FAILURE, s\<lparr>world := w1\<rparr>) else
         res_bind (read_u32 resp1) (\<lambda>(_, v, resp2).
         res_bind (determinate v) (\<lambda>recvd_peer_id.
         res_bind (check AssertionFailed (recvd_peer_id \<noteq> 0)) (\<lambda>_.
         res_bind (adopt_identity rt resp2 (put_peer (s\<lparr>world := w1\<rparr>) p (pr\<lparr>peer_id := recvd_peer_id\<rparr>))) (\<lambda>s1.
         case find_peer s1 recvd_peer_id of
           Some _ \<Rightarrow> Inr (SUCCESS, s1)
         | None \<Rightarrow>
             res_bind (check ListCorrupted (p \<notin> set (HASH_ITER (peers s1)))) (\<lambda>_.
             Inr (SUCCESS, add_peer s1 p))))))))))"

definition handle_new_connection ::
    "runtime \<Rightarrow> 'w os \<Rightarrow> int \<Rightarrow> ('h, 'w, 'z) proto_scheme \<Rightarrow> (int \<times> ('h, 'w, 'z) proto_scheme) res" where
  "handle_new_connection rt os server_sock s =
     res_bind (initialize_peer rt s) (\<lambda>(p, s0).
     case os_accept os server_sock (world s0) of ((fd, addr), w1) \<Rightarrow>
     let s1 = (put_peer s0 p \<lparr>peer_id = 0, sock_fd = fd, peer_addr = addr\<rparr>)\<lparr>world := w1\<rparr> in
     if fd = - 1 then res_bind (destroy_peer s1 p) (\<lambda>s2. Inr (FAILURE, s2)) else
     res_bind (read_and_handle_init_message rt os p s1) (\<lambda>(rc, s2).
     res_bind (peer_at s2 p) (\<lambda>pr.
     if rc = FAILURE then
       res_bind (destroy_peer (s2\<lparr>world := os_close os (sock_fd pr) (world s2)\<rparr>) p) (\<lambda>s3. Inr (FAILURE, s3))
     else
       res_bind (check AssertionFailed (find_peer s2 (peer_id pr) = None)) (\<lambda>_.
       Inr (SUCCESS, add_peer s2 p)))))"

text \<open>The init message, with the port as 32 bits.\<close>

definition send_init_message ::
    "runtime \<Rightarrow> 'w os \<Rightarrow> int \<Rightarrow> u32 \<Rightarrow> ('h, 'w, 'z) proto_scheme \<Rightarrow> (int \<times> 'w) res" where
  "send_init_message rt os fd port s =
     res_bind (new_message rt 8) (\<lambda>init_msg.
     res_bind (write_u32s rt init_msg [my_id s, port]) (\<lambda>init_msg1.
     fd_send_message os fd MSG_TYPE_PROTO_INIT init_msg1 (world s)))"

text \<open>
  \<^verbatim>\<open>HASH_ITER\<close> in \<^verbatim>\<open>connect_to_new_peers\<close> walks over a list that may grow while it
  runs: the address of the next element is read before the body of the loop.
\<close>

fun peer_connect ::
    "nat \<Rightarrow> runtime \<Rightarrow> 'w os \<Rightarrow> nat \<Rightarrow> u32 \<Rightarrow> ('h, 'w, 'z) proto_scheme \<Rightarrow> (int \<times> ('h, 'w, 'z) proto_scheme) res"
  and connect_from ::
    "nat \<Rightarrow> runtime \<Rightarrow> 'w os \<Rightarrow> nat \<Rightarrow> u32 \<Rightarrow> ('h, 'w, 'z) proto_scheme \<Rightarrow> (int \<times> ('h, 'w, 'z) proto_scheme) res" where
  "peer_connect 0 rt os p port s = Inl OutOfFuel"
| "peer_connect (Suc n) rt os p port s =
     res_bind (peer_at s p) (\<lambda>pr.
     case edsm_socket_connect os (peer_addr pr) (Some \<lparr>tv_sec = 5, tv_usec = 0\<rparr>) (world s) of (fd, w1) \<Rightarrow>
     let s1 = (put_peer s p (pr\<lparr>sock_fd := fd\<rparr>))\<lparr>world := w1\<rparr> in
     if fd = - 1 then Inr (FAILURE, s1) else
     res_bind (send_init_message rt os fd port s1) (\<lambda>(rc, w2).
     if rc = FAILURE then Inr (FAILURE, s1\<lparr>world := os_close os fd w2\<rparr>) else
     res_bind (read_and_handle_init_response rt os p (s1\<lparr>world := w2\<rparr>)) (\<lambda>(rc', s2).
     if rc' = FAILURE then Inr (FAILURE, s2\<lparr>world := os_close os fd (world s2)\<rparr>) else
     connect_from n rt os 0 port s2)))"
| "connect_from 0 rt os k port s = Inl OutOfFuel"
| "connect_from (Suc n) rt os k port s =
     (let items = HASH_ITER (peers s) in
      if k < length items then
        res_bind (peer_at s (items ! k)) (\<lambda>pr.
        res_bind (if sock_fd pr = - 1 then peer_connect n rt os (items ! k) port s else Inr (SUCCESS, s)) (\<lambda>(rc, s').
        if rc = FAILURE then Inr (FAILURE, s')
        else if Suc k < length items then connect_from n rt os (Suc k) port s'
        else Inr (SUCCESS, s')))
      else Inr (SUCCESS, s))"

definition connect_to_new_peers ::
    "nat \<Rightarrow> runtime \<Rightarrow> 'w os \<Rightarrow> u32 \<Rightarrow> ('h, 'w, 'z) proto_scheme \<Rightarrow> (int \<times> ('h, 'w, 'z) proto_scheme) res" where
  "connect_to_new_peers n rt os port s = connect_from n rt os 0 port s"

definition edsm_proto_group_join ::
    "nat \<Rightarrow> runtime \<Rightarrow> 'w os \<Rightarrow> byte list \<Rightarrow> u16 \<Rightarrow> ('h, 'w, 'z) proto_scheme \<Rightarrow> (int \<times> ('h, 'w, 'z) proto_scheme) res" where
  "edsm_proto_group_join n rt os hostname port s =
     res_bind (initialize_peer rt (s\<lparr>my_id := 0\<rparr>)) (\<lambda>(p, s1).
     res_bind (peer_at s1 p) (\<lambda>pr.
     res_bind (edsm_socket_build_sockaddr os (Some hostname) port (peer_addr pr) (world s1)) (\<lambda>(rtn, addr, w1).
     if rtn = FAILURE \<or> rtn > int sizeof_sockaddr then
       res_bind (destroy_peer (s1\<lparr>world := w1\<rparr>) p) (\<lambda>s2. Inr (FAILURE, s2))
     else
       res_bind (peer_connect n rt os p (ucast (listen_port s1))
           ((put_peer s1 p \<lparr>peer_id = 0, sock_fd = - 1, peer_addr = addr\<rparr>)\<lparr>world := w1\<rparr>)) (\<lambda>(rc, s2).
       if rc = FAILURE then res_bind (destroy_peer s2 p) (\<lambda>s3. Inr (FAILURE, s3))
       else Inr (SUCCESS, s2)))))"

section \<open>Peers and ids\<close>

lemma put_peer_simps [simp]:
  "peer_mem (put_peer s p pr) = (peer_mem s)(p \<mapsto> pr)" "peers (put_peer s p pr) = peers s"
  "my_id (put_peer s p pr) = my_id s" "world (put_peer s p pr) = world s" "peer_brk (put_peer s p pr) = peer_brk s"
  "listen_port (put_peer s p pr) = listen_port s" "peer_at (put_peer s p pr) p = Inr pr"
  by (simp_all add: put_peer_def peer_at_def)

lemma put_peer_twice [simp]: "put_peer ((put_peer s p pr)\<lparr>world := w\<rparr>) p pr' = (put_peer s p pr')\<lparr>world := w\<rparr>"
  "put_peer (put_peer s p pr) p pr' = put_peer s p pr'"
  by (simp_all add: put_peer_def)

text \<open>A structure that is not in the table may change without the table noticing.\<close>

lemma wf_peers_cong:
  assumes wf: "wf_peers s" and same: "peers t = peers s"
    "\<And>p. p \<in> set (HASH_ITER (peers s)) \<Longrightarrow> peer_mem t p = peer_mem s p"
  shows "wf_peers t" "peers_list t = peers_list s" "ids_of t = ids_of s" "find_peer t = find_peer s"
proof -
  have k: "uthash.keyed (peer_key (peer_mem s)) (peers s)" by (rule keyed_peers [OF wf])
  have e: "peer_key (peer_mem t) p = peer_key (peer_mem s) p" if "p \<in> set (HASH_ITER (peers s))" for p
    using same(2) [OF that] by (simp add: peer_key_def)
  show l: "peers_list t = peers_list s" using same by (simp add: peers_list_def peer_of_def)
  then show i: "ids_of t = ids_of s" by (simp add: ids_of_peers_list)
  show "find_peer t = find_peer s" using keyed_cong(2) [OF e k] by (simp add: find_peer_def same(1) fun_eq_iff)
  show "wf_peers t"
    using keyed_cong(1) [OF e k] wf i same by (simp add: wf_peers_def uthash.keyed_def)
qed

lemma put_peer_outside:
  assumes "wf_peers s" "p \<notin> set (HASH_ITER (peers s))"
  shows "wf_peers (put_peer s p pr)" "peers_list (put_peer s p pr) = peers_list s"
    "ids_of (put_peer s p pr) = ids_of s" "find_peer (put_peer s p pr) = find_peer s"
  by (rule wf_peers_cong [OF assms(1)]; use assms(2) in auto)+

lemma add_peer_ok:
  assumes wf: "wf_peers s" and few: "few_items (peers s)" and p: "peer_mem s p = Some pr"
    and new: "find_peer s (peer_id pr) = None"
  shows "wf_peers (add_peer s p)" "peers_list (add_peer s p) = peers_list s @ [pr]"
    "ids_of (add_peer s p) = ids_of s @ [peer_id pr]" "HASH_ITER (peers (add_peer s p)) = HASH_ITER (peers s) @ [p]"
proof -
  have k: "uthash.keyed (peer_key (peer_mem s)) (peers s)" by (rule keyed_peers [OF wf])
  then have "wf_uthash (peer_key (peer_mem s)) (peers s)" by (simp add: uthash.keyed_def)
  from HASH_ADD_wf [OF this few_items_can_expand [OF few], of p] have
    add: "wf_uthash (peer_key (peer_mem s)) (HASH_ADD (peer_key (peer_mem s)) (peers s) p)"
      "HASH_ITER (HASH_ADD (peer_key (peer_mem s)) (peers s) p) = HASH_ITER (peers s) @ [p]" by auto
  show it: "HASH_ITER (peers (add_peer s p)) = HASH_ITER (peers s) @ [p]" using add(2) by (simp add: add_peer_def)
  then show l: "peers_list (add_peer s p) = peers_list s @ [pr]"
    using p by (simp add: peers_list_def peer_of_def add_peer_def)
  then show i: "ids_of (add_peer s p) = ids_of s @ [peer_id pr]" by (simp add: ids_of_peers_list)
  have "distinct (ids_of s)" "peer_id pr \<notin> set (ids_of s)" using wf new find_peer_None [OF wf] by (simp_all add: wf_peers_def)
  then show "wf_peers (add_peer s p)"
    using wf add(1) p unfolding wf_peers_def it i by (auto simp: add_peer_def wf_peers_def)
qed

lemma max_peer_id_ok:
  "\<forall>p \<in> set ps. peer_mem s p \<noteq> None \<Longrightarrow>
     max_peer_id s ps m = Inr (fold max (map (peer_id \<circ> peer_of s) ps) m)"
proof (induction ps arbitrary: m)
  case (Cons p ps)
  then have "peer_at s p = Inr (peer_of s p)" by (auto simp: peer_at_def peer_of_def)
  moreover have "(if a > b then a else b) = max a b" for a b :: u32
    by (auto simp: max_def not_less intro: antisym)
  ultimately show ?case using Cons by simp
qed simp

definition largest_id :: "('h, 'w, 'z) proto_scheme \<Rightarrow> u32" where
  "largest_id s = Max (set (my_id s # ids_of s))"

lemma next_id_ok:
  assumes "wf_peers s"
  shows "get_next_peer_id s = Inr (largest_id s + 1)"
proof -
  have "largest_id s = fold max (ids_of s) (my_id s)"
    unfolding largest_id_def by (rule Max.set_eq_fold)
  then show ?thesis
    using assms by (simp add: get_next_peer_id_def max_peer_id_ok wf_peers_def edsm_proto_local_id_def ids_of_def)
qed

lemma next_id_new:
  assumes "largest_id s \<noteq> - 1"
  shows "largest_id s + 1 \<notin> set (my_id s # ids_of s)" "largest_id s + 1 \<noteq> 0"
proof -
  have l: "i \<le> largest_id s" if "i \<in> set (my_id s # ids_of s)" for i
    unfolding largest_id_def using that by (intro Max_ge) auto
  have "unat (largest_id s + 1) \<noteq> 0" using assms max_word_wrap by (metis unsigned_eq_0_iff)
  then have "unat (largest_id s) + unat (1 :: u32) < 2 ^ 32"
    using unat_u32_bound [of "largest_id s"] by (cases "unat (largest_id s) + 1 = 2 ^ 32") (auto simp: unat_word_ariths(1))
  then have "largest_id s < largest_id s + 1" by (simp add: word_less_nat_alt unat_add)
  with l show "largest_id s + 1 \<notin> set (my_id s # ids_of s)" by (meson not_less)
  show "largest_id s + 1 \<noteq> 0" using assms by (metis add_eq_0_iff2 eq_neg_iff_add_eq_0)
qed

section \<open>Init messages\<close>

lemma low_half: "take 2 (bytes_of_u32 v) = bytes_of_u16 (ucast v)"
proof -
  have "(ucast v :: byte) = ucast (ucast v :: u16)" "(ucast (drop_bit 8 v) :: byte) = ucast (drop_bit 8 (ucast v :: u16))"
    by (rule bit_word_eqI; simp add: bit_simps)+
  then show ?thesis by (simp add: bytes_of_u32_def bytes_of_u16_def numeral_2_eq_2)
qed

lemma holds_read_port:
  assumes "holds m (bytes_of_u32 v @ bs)"
  obtains m' where "read_u16 m = Inr (SUCCESS, Some (ucast v), m')"
proof -
  have "bytes_of_u32 v = bytes_of_u16 (ucast v) @ drop 2 (bytes_of_u32 v)" by (metis append_take_drop_id low_half)
  with assms have "holds m (bytes_of_u16 (ucast v) @ drop 2 (bytes_of_u32 v) @ bs)" by (metis append_assoc)
  then show ?thesis by (rule holds_read_u16) (rule that)
qed

text \<open>A system whose reads write nothing.\<close>

definition quiet_reads :: "'w os \<Rightarrow> ('w \<Rightarrow> int \<Rightarrow> byte list) \<Rightarrow> bool" where
  "quiet_reads os written \<longleftrightarrow> (\<forall>fd n w. written (snd (os_read os fd n w)) = written w)"

lemma quiet_loop:
  "quiet_reads os written \<Longrightarrow> socket_read_loop os fd buf n sz w = Inr (rc, buf', w') \<Longrightarrow> written w' = written w"
proof (induction os fd buf n sz w rule: socket_read_loop.induct)
  case (1 os fd buf n sz w)
  note loop = socket_read_loop.simps [of os fd buf n]
  show ?case
  proof (cases "n < sz")
    case True
    obtain ret bs w1 where rd: "os_read os fd (nat (sz - n)) w = ((ret, bs), w1)" by (metis surj_pair)
    have q: "written w1 = written w"
      using "1.prems"(1) rd unfolding quiet_reads_def by (metis snd_conv)
    show ?thesis
    proof (cases "ret < 1 \<or> (\<exists>e. memcpy buf n (cells bs) 0 (nat ret) = Inl e)")
      case False
      then obtain buf1 where b: "memcpy buf n (cells bs) 0 (nat ret) = Inr buf1" "\<not> ret < 1"
        by (metis sum.exhaust)
      from "1.prems"(2) have "socket_read_loop os fd buf1 (n + ret) sz w1 = Inr (rc, buf', w')"
        using True rd b by (simp add: loop)
      with "1.IH" [OF True rd [symmetric] refl b(2,1) "1.prems"(1)] q show ?thesis by simp
    qed (use True rd q "1.prems"(2) in \<open>auto simp: loop split: if_splits\<close>)
  qed (use "1.prems" in \<open>simp add: loop\<close>)
qed

lemma quiet_read_message:
  assumes "quiet_reads os written" "read_message_from_socket rt os fd w = Inr (m, w')"
  shows "written w' = written w"
proof -
  obtain rc sz w1 where 1: "edsm_socket_read os fd (uninit 4) 4 w = Inr (rc, sz, w1)"
    using assms(2) by (auto simp: read_message_from_socket_def)
  then have q: "written w1 = written w" using quiet_loop [OF assms(1)] by (auto simp: edsm_socket_read_def)
  from assms(2) 1 q show ?thesis
    by (auto simp: read_message_from_socket_def edsm_socket_read_def dest!: quiet_loop [OF assms(1)] split: if_splits option.splits)
qed

definition addresses_ok :: "('h, 'w, 'z) proto_scheme \<Rightarrow> bool" where
  "addresses_ok s \<longleftrightarrow> list_all (\<lambda>pr. length (peer_addr pr) = 128) (peers_list s) \<and> length (peers_list s) < 25"

text \<open>What a node that has an id and peers answers a node that has none.\<close>

definition init_answer :: "('h, 'w, 'z) proto_scheme \<Rightarrow> byte list" where
  "init_answer s = bytes_of_u32 (my_id s) @ bytes_of_u32 (largest_id s + 1) @ peerlist_bytes (peers_list s)"

lemma largest_id_cong: "my_id t = my_id s \<Longrightarrow> ids_of t = ids_of s \<Longrightarrow> largest_id t = largest_id s"
  by (simp add: largest_id_def)

lemma peers_list_world [simp]: "peers_list (s\<lparr>world := w\<rparr>) = peers_list s" "largest_id (s\<lparr>world := w\<rparr>) = largest_id s"
  "init_answer (s\<lparr>world := w\<rparr>) = init_answer s"
  by (simp_all add: peers_list_def largest_id_def init_answer_def)

lemma init_identity_ok:
  assumes rt: "enough_memory rt" and wf: "wf_peers s" "addresses_ok s"
    and p: "peer_mem s p = Some pr" "p \<notin> set (HASH_ITER (peers s))"
    and m: "holds resp (bytes_of_u32 (my_id s))" "used resp = 4"
  obtains resp' where "init_identity rt p 0 resp s = Inr (resp', put_peer s p (pr\<lparr>peer_id := largest_id s + 1\<rparr>))"
    "holds resp' (init_answer s)"
proof -
  let ?s = "put_peer s p (pr\<lparr>peer_id := largest_id s + 1\<rparr>)"
  note out = put_peer_outside [OF wf(1) p(2), of "pr\<lparr>peer_id := largest_id s + 1\<rparr>"]
  have "3 * (used resp + 4) < 2 ^ 31" using m(2) by simp
  with rt m(1) obtain r1 where r1: "write_u32 rt resp (largest_id s + 1) = Inr (SUCCESS, r1)"
      "holds r1 (bytes_of_u32 (my_id s) @ bytes_of_u32 (largest_id s + 1))" "used r1 = used resp + 4"
    by (rule holds_write_u32)
  have "3 * (used r1 + 4 + 132 * length (peers_list ?s)) < 2 ^ 31" "list_all (\<lambda>pr. length (peer_addr pr) = 128) (peers_list ?s)"
    using r1(3) m(2) wf(2) out(2) by (simp_all add: addresses_ok_def)
  from append_peerlist_ok [OF rt out(1) r1(2) this] obtain r2 where
    "append_peerlist_to_message rt ?s r1 = Inr r2" "holds r2 (init_answer s)"
    unfolding out(2) by (auto simp: init_answer_def)
  with r1(1) p(1) show ?thesis
    by (intro that [of r2]) (simp_all add: init_identity_def next_id_ok [OF wf(1)] peer_at_def Let_def)
qed

text \<open>The init message of a node without an id.\<close>

abbreviation init_request :: "u32 \<Rightarrow> byte list" where
  "init_request port \<equiv> bytes_of_u32 0 @ bytes_of_u32 port"

lemma init_message_ok:
  assumes rt: "enough_memory rt" and os: "accepts os written" "quiet_reads os written" "delivers os fd stream"
    and wf: "wf_peers s" "addresses_ok s"
    and p: "peer_mem s p = Some pr" "p \<notin> set (HASH_ITER (peers s))" "sock_fd pr = fd"
    and st: "stream (world s) = frame MSG_TYPE_PROTO_INIT (init_request port) @ rest"
  obtains w where "read_and_handle_init_message rt os p s = Inr (SUCCESS, (put_peer s p
       (pr\<lparr>peer_id := largest_id s + 1, peer_addr := edsm_socket_set_sockaddr_port (peer_addr pr) (ucast port)\<rparr>))\<lparr>world := w\<rparr>)"
    "written w = (written (world s))(fd := written (world s) fd @ frame MSG_TYPE_PROTO_INIT (init_answer s))"
proof -
  obtain m w1 where m: "read_message_from_socket rt os fd (world s) = Inr (Some m, w1)"
      "holds m (bytes_of_u32 MSG_TYPE_PROTO_INIT @ init_request port)"
    using read_frame [OF rt os(3) st] by auto
  have w1: "written w1 = written (world s)" by (rule quiet_read_message [OF os(2) m(1)])
  have "unat (200 :: u32) < 2 ^ 31" by simp
  with rt obtain r0 where r0: "new_message rt 200 = Inr r0" "holds r0 []" "used r0 = 0" by (rule new_message_ok)
  from m(2) obtain m1 where m1: "read_u32 m = Inr (SUCCESS, Some MSG_TYPE_PROTO_INIT, m1)" "holds m1 (init_request port)"
    by (rule holds_read_u32)
  from m1(2) obtain m2 where m2: "read_u32 m1 = Inr (SUCCESS, Some 0, m2)" "holds m2 (bytes_of_u32 port)"
    by (rule holds_read_u32)
  have "3 * (used r0 + 4) < 2 ^ 31" using r0(3) by simp
  with rt r0(2) obtain r1 where r1: "write_u32 rt r0 (my_id s) = Inr (SUCCESS, r1)" "holds r1 (bytes_of_u32 (my_id s))"
      "used r1 = 4"
    by (rule holds_write_u32) (use r0(3) in auto)
  let ?s1 = "s\<lparr>world := w1\<rparr>"
  have s1: "wf_peers ?s1" "addresses_ok ?s1" "peer_mem ?s1 p = Some pr" "p \<notin> set (HASH_ITER (peers ?s1))"
    "holds r1 (bytes_of_u32 (my_id ?s1))" using wf p r1(2) by (simp_all add: addresses_ok_def)
  from rt s1 r1(3) obtain r2 where
    r2: "init_identity rt p 0 r1 ?s1 = Inr (r2, put_peer ?s1 p (pr\<lparr>peer_id := largest_id ?s1 + 1\<rparr>))" "holds r2 (init_answer ?s1)"
    by (rule init_identity_ok)
  have "holds m2 (bytes_of_u32 port @ [])" using m2(2) by simp
  then obtain m3 where m3: "read_u16 m2 = Inr (SUCCESS, Some (ucast port), m3)" by (rule holds_read_port)
  have ne: "init_answer ?s1 \<noteq> []" by (simp add: init_answer_def bytes_of_u32_def)
  from fd_send_ok [OF os(1) r2(2), of fd MSG_TYPE_PROTO_INIT w1] ne obtain w2 where
    w2: "fd_send_message os fd MSG_TYPE_PROTO_INIT r2 w1 = Inr (SUCCESS, w2)"
      "written w2 = (written w1)(fd := written w1 fd @ frame MSG_TYPE_PROTO_INIT (init_answer s))" by auto
  have pr: "peer_at s p = Inr pr" using p(1) by (simp add: peer_at_def)
  have "read_and_handle_init_message rt os p s = Inr (SUCCESS, (put_peer s p
       (pr\<lparr>peer_id := largest_id s + 1, peer_addr := edsm_socket_set_sockaddr_port (peer_addr pr) (ucast port)\<rparr>))\<lparr>world := w2\<rparr>)"
    using m(1) r0(1) m1(1) m2(1) r1(1) r2(1) m3 w2(1) pr p(3)
    by (simp add: read_and_handle_init_message_def edsm_proto_local_id_def) (simp add: put_peer_def)
  with w2(2) w1 show ?thesis by (intro that [of w2]) simp_all
qed

lemma new_connection_ok:
  assumes rt: "enough_memory rt" and os: "accepts os written" "quiet_reads os written" "delivers os fd stream"
    and wf: "wf_peers s" "fresh_peers s" "few_items (peers s)" "addresses_ok s" "largest_id s \<noteq> - 1"
    and acc: "os_accept os ls (world s) = ((fd, addr), w1)" "fd \<noteq> - 1"
    and st: "stream w1 = frame MSG_TYPE_PROTO_INIT (init_request port) @ rest"
  obtains w where "handle_new_connection rt os ls s = Inr (SUCCESS, (new_peer \<lparr>peer_id = largest_id s + 1, sock_fd = fd,
       peer_addr = edsm_socket_set_sockaddr_port addr (ucast port)\<rparr> s)\<lparr>world := w\<rparr>)"
    "written w = (written w1)(fd := written w1 fd @ frame MSG_TYPE_PROTO_INIT (init_answer s))"
proof -
  let ?p = "peer_brk s" let ?pr = "\<lparr>peer_id = 0, sock_fd = fd, peer_addr = addr\<rparr>"
  let ?s1 = "(put_peer (s\<lparr>peer_brk := Suc ?p\<rparr>) ?p ?pr)\<lparr>world := w1\<rparr>"
  have out: "?p \<notin> set (HASH_ITER (peers s))" using wf(1,2) by (auto simp: wf_peers_def fresh_peers_def)
  have cong: "wf_peers ?s1" "peers_list ?s1 = peers_list s" "ids_of ?s1 = ids_of s" "find_peer ?s1 = find_peer s"
    by (rule wf_peers_cong [OF wf(1)]; use out in auto)+
  have l: "largest_id ?s1 = largest_id s" "init_answer ?s1 = init_answer s"
    using largest_id_cong [OF _ cong(3)] cong(2) by (simp_all add: init_answer_def)
  have a1: "addresses_ok ?s1" "peer_mem ?s1 ?p = Some ?pr" "?p \<notin> set (HASH_ITER (peers ?s1))" "sock_fd ?pr = fd"
    "stream (world ?s1) = frame MSG_TYPE_PROTO_INIT (init_request port) @ rest"
    using wf(4) cong(2) out st by (simp_all add: addresses_ok_def)
  from rt os cong(1) a1 obtain w where w: "read_and_handle_init_message rt os ?p ?s1 = Inr (SUCCESS, (put_peer ?s1 ?p
       (?pr\<lparr>peer_id := largest_id ?s1 + 1, peer_addr := edsm_socket_set_sockaddr_port (peer_addr ?pr) (ucast port)\<rparr>))\<lparr>world := w\<rparr>)"
    "written w = (written (world ?s1))(fd := written (world ?s1) fd @ frame MSG_TYPE_PROTO_INIT (init_answer ?s1))"
    by (rule init_message_ok)
  let ?pr' = "\<lparr>peer_id = largest_id s + 1, sock_fd = fd, peer_addr = edsm_socket_set_sockaddr_port addr (ucast port)\<rparr>"
  have s2: "(put_peer ?s1 ?p (?pr\<lparr>peer_id := largest_id ?s1 + 1, peer_addr := edsm_socket_set_sockaddr_port (peer_addr ?pr) (ucast port)\<rparr>))\<lparr>world := w\<rparr>
    = (put_peer (s\<lparr>peer_brk := Suc ?p\<rparr>) ?p ?pr')\<lparr>world := w\<rparr>" (is "?l = ?s2")
    using l by (simp add: put_peer_def)
  have "find_peer s (largest_id s + 1) = None" using find_peer_None [OF wf(1)] next_id_new(1) [OF wf(5)] by simp
  moreover have "find_peer ?s2 = find_peer s" by (rule wf_peers_cong(4) [OF wf(1)]) (use out in auto)
  ultimately have free: "find_peer ?s2 (largest_id s + 1) = None" by simp
  have add: "add_peer ?s2 ?p = (new_peer ?pr' s)\<lparr>world := w\<rparr>" by (simp add: add_peer_def new_peer_def put_peer_def)
  have i: "initialize_peer rt s = Inr (?p, put_peer (s\<lparr>peer_brk := Suc ?p\<rparr>) ?p
      \<lparr>peer_id = 0, sock_fd = - 1, peer_addr = replicate sizeof_sockaddr 0\<rparr>)"
    using rt by (simp add: initialize_peer_def put_peer_def)
  have at: "peer_at ?s2 ?p = Inr ?pr'" by (simp add: peer_at_def)
  have "handle_new_connection rt os ls s = Inr (SUCCESS, add_peer ?s2 ?p)"
    using acc i w(1) free at unfolding s2 by (simp add: handle_new_connection_def)
  with w(2) l add show ?thesis by (intro that [of w]) simp_all
qed

text \<open>Reading a list of peers touches nothing but the table and fresh structures.\<close>

lemma read_peers_frame:
  "read_peers rt n m s = Inr (m', s') \<Longrightarrow> my_id s' = my_id s \<and> world s' = world s \<and> peer_brk s \<le> peer_brk s'
     \<and> (\<forall>q < peer_brk s. peer_mem s' q = peer_mem s q)"
proof (induction n arbitrary: m s)
  case (Suc n)
  from Suc.prems obtain rc i m1 where m1: "read_u32 m = Inr (rc, Some i, m1)"
    by (auto simp: read_peers.simps(2) determinate_def split: option.splits)
  show ?case
  proof (cases "find_peer s i")
    case None
    from Suc.prems m1 None obtain p s1 m2 addr where 1: "initialize_peer rt s = Inr (p, s1)"
        "read_peers rt n m2 (add_peer (s1\<lparr>peer_mem := (peer_mem s1)(p \<mapsto>
           \<lparr>peer_id = i, sock_fd = - 1, peer_addr = addr\<rparr>)\<rparr>) p) = Inr (m', s')"
      by (auto simp: read_peers.simps(2))
    from 1(1) have "p = peer_brk s" "peer_brk s1 = Suc (peer_brk s)" "my_id s1 = my_id s" "world s1 = world s"
      "\<forall>q < peer_brk s. peer_mem s1 q = peer_mem s q"
      by (auto simp: initialize_peer_def non_null_def split: option.splits)
    with Suc.IH [OF 1(2)] show ?thesis by (auto simp: add_peer_def)
  next
    case (Some a)
    with Suc.prems m1 have "read_peers rt n m1 s = Inr (m', s')" by (simp add: read_peers.simps(2))
    from Suc.IH [OF this] show ?thesis .
  qed
qed simp

lemma read_peerlist_frame:
  assumes "read_peerlist_from_message rt m s = Inr (m', s')"
  shows "my_id s' = my_id s" "world s' = world s" "\<forall>q < peer_brk s. peer_mem s' q = peer_mem s q"
proof -
  from assms obtain n m1 where "read_peers rt n m1 s = Inr (m', s')" by (auto simp: read_peerlist_from_message_def int_loop_Inr)
  from read_peers_frame [OF this] show "my_id s' = my_id s" "world s' = world s"
    "\<forall>q < peer_brk s. peer_mem s' q = peer_mem s q" by simp_all
qed

text \<open>A node without an id and peers takes over both from the answer, and adds the one who answered.\<close>

lemma init_response_ok:
  assumes rt: "enough_memory rt" and os: "delivers os fd stream"
    and s: "my_id s = 0" "peers s = None" "fresh_peers s" "peer_mem s p = Some pr" "sock_fd pr = fd"
    and prs: "distinct (map peer_id prs)" "list_all (\<lambda>pr. length (peer_addr pr) = 128) prs" "length prs < 25"
      "i \<notin> peer_id ` set prs" "i \<noteq> 0"
    and st: "stream (world s) = frame MSG_TYPE_PROTO_INIT (bytes_of_u32 i @ bytes_of_u32 me @ peerlist_bytes prs) @ rest"
  obtains s' where "read_and_handle_init_response rt os p s = Inr (SUCCESS, s')" "wf_peers s'" "my_id s' = me"
    "peers_list s' = map (\<lambda>pr. pr\<lparr>sock_fd := - 1\<rparr>) prs @ [pr\<lparr>peer_id := i\<rparr>]"
proof -
  have "length (peerlist_bytes prs) = 4 + 132 * length prs"
    using length_entries [OF prs(2)] by (simp add: peerlist_bytes_def)
  then have len: "length (bytes_of_u32 i @ bytes_of_u32 me @ peerlist_bytes prs) + 4 < 2 ^ 31" using prs(3) by simp
  from read_frame [OF rt os st len] obtain m w1 where m: "read_message_from_socket rt os fd (world s) = Inr (Some m, w1)"
      "holds m (bytes_of_u32 MSG_TYPE_PROTO_INIT @ bytes_of_u32 i @ bytes_of_u32 me @ peerlist_bytes prs)" by auto
  from m(2) obtain m1 where m1: "read_u32 m = Inr (SUCCESS, Some MSG_TYPE_PROTO_INIT, m1)"
      "holds m1 (bytes_of_u32 i @ bytes_of_u32 me @ peerlist_bytes prs)" by (rule holds_read_u32)
  from m1(2) obtain m2 where m2: "read_u32 m1 = Inr (SUCCESS, Some i, m2)"
      "holds m2 (bytes_of_u32 me @ peerlist_bytes prs)" by (rule holds_read_u32)
  from m2(2) obtain m3 where m3: "read_u32 m2 = Inr (SUCCESS, Some me, m3)" "holds m3 (peerlist_bytes prs)"
    by (rule holds_read_u32)
  let ?pr = "pr\<lparr>peer_id := i\<rparr>"
  let ?s1 = "put_peer (s\<lparr>world := w1\<rparr>) p ?pr"
  let ?s2 = "?s1\<lparr>my_id := me\<rparr>"
  have p: "p < peer_brk s" using s(3,4) by (metis fresh_peers_def not_less option.distinct(1))
  then have f: "fresh_peers ?s2" using s(3) by (auto simp: fresh_peers_def)
  have "holds m3 (peerlist_bytes prs @ [])" "length prs < 26" "peers ?s2 = None" using m3(2) prs(3) s(2) by simp_all
  from read_peerlist_ok [OF rt prs(1,2) this(2,1,3) f] obtain m4 s3 where
    s3: "read_peerlist_from_message rt m3 ?s2 = Inr (m4, s3)" "wf_peers s3" "few_items (peers s3)"
      "peers_list s3 = map (\<lambda>pr. pr\<lparr>sock_fd := - 1\<rparr>) prs" by auto
  note fr = read_peerlist_frame [OF s3(1)]
  have at: "peer_mem s3 p = Some ?pr" using fr(3) p by simp
  have "map peer_id (map (\<lambda>pr. pr\<lparr>sock_fd := - 1\<rparr>) prs) = map peer_id prs" by (simp add: comp_def)
  then have ids: "ids_of s3 = map peer_id prs" by (simp only: ids_of_peers_list s3(4))
  then have new: "find_peer s3 i = None" using find_peer_None [OF s3(2)] prs(4) by auto
  have out: "p \<notin> set (HASH_ITER (peers s3))"
  proof
    assume "p \<in> set (HASH_ITER (peers s3))"
    then have "peer_id (peer_of s3 p) \<in> set (ids_of s3)" by (auto simp: ids_of_def)
    with at ids prs(4) show False by (simp add: peer_of_def)
  qed
  have pid: "find_peer s3 (peer_id ?pr) = None" using new by simp
  note a = add_peer_ok [OF s3(2,3) at pid]
  have ad: "adopt_identity rt m2 ?s1 = Inr s3" using s(1) m3(1) s3(1) by (simp add: adopt_identity_def)
  have "read_and_handle_init_response rt os p s = Inr (SUCCESS, add_peer s3 p)"
    using m(1) m1(1) m2(1) ad s(4,5) prs(5) new out by (simp add: read_and_handle_init_response_def peer_at_def)
  with a(1,2) fr(1) s3(4) show ?thesis by (intro that [of "add_peer s3 p"]) (simp_all add: add_peer_def)
qed

lemma send_init_ok:
  assumes rt: "enough_memory rt" and os: "accepts os written"
  obtains w where "send_init_message rt os fd port s = Inr (SUCCESS, w)"
    "written w = (written (world s))(fd := written (world s) fd
       @ frame MSG_TYPE_PROTO_INIT (bytes_of_u32 (my_id s) @ bytes_of_u32 port))"
proof -
  let ?bs = "bytes_of_u32 (my_id s) @ bytes_of_u32 port"
  have "unat (8 :: u32) < 2 ^ 31" by simp
  with rt obtain m where m: "new_message rt 8 = Inr m" "holds m []" "used m = 0" by (rule new_message_ok)
  obtain m1 where m1: "write_u32s rt m [my_id s, port] = Inr m1" "holds m1 ?bs"
    using write_u32s_ok [OF rt m(2), of "[my_id s, port]"] m(3) by auto
  have "?bs \<noteq> []" by (simp add: bytes_of_u32_def)
  with fd_send_ok [OF os m1(2), of fd MSG_TYPE_PROTO_INIT "world s"] obtain w where
    "fd_send_message os fd MSG_TYPE_PROTO_INIT m1 (world s) = Inr (SUCCESS, w)"
    "written w = (written (world s))(fd := written (world s) fd @ frame MSG_TYPE_PROTO_INIT ?bs)" by auto
  with m(1) m1(1) show ?thesis by (intro that [of w]) (simp_all add: send_init_message_def)
qed

section \<open>Termination of the connections\<close>

text \<open>A result that is not the end of the fuel. Nothing below the two recursive functions carries any.\<close>

definition finished :: "'a res \<Rightarrow> bool" where
  "finished r \<longleftrightarrow> r \<noteq> Inl OutOfFuel"

named_theorems finishing

lemma finished_simps [simp]: "finished (Inr x)" "finished (Inl e) \<longleftrightarrow> e \<noteq> OutOfFuel"
  by (simp_all add: finished_def)

lemma finished_bind [finishing]:
  "finished m \<Longrightarrow> (\<And>x. m = Inr x \<Longrightarrow> finished (f x)) \<Longrightarrow> finished (res_bind m f)"
  by (cases m) simp_all

lemma finished_parts [finishing]:
  "e \<noteq> OutOfFuel \<Longrightarrow> finished (check e b)" "finished (non_null p)" "finished (determinate v)"
  "finished (memcpy dst d src i n)" "finished (int_sub x y)" "finished (int_double x)" "finished (peer_at s q)"
  by (auto simp: check_def non_null_def determinate_def memcpy_def int_sub_def int_double_def peer_at_def
      split: option.splits intro!: finished_bind)

lemma finished_message [finishing]:
  "finished (edsm_message_create rt h t)" "finished (edsm_message_resize rt m h t)" "finished (edsm_message_put m n)"
  "finished (edsm_message_pull m n)"
  by (auto simp: edsm_message_create_def edsm_message_resize_def edsm_message_put_def edsm_message_pull_def Let_def
      split: option.splits intro!: finishing)

lemma finished_access [finishing]:
  "finished (edsm_message_write rt m src n)" "finished (edsm_message_read m dst d n)"
  by (auto simp: edsm_message_write_def edsm_message_read_def split: option.splits prod.splits intro!: finishing)

lemma finished_u32 [finishing]: "finished (write_u32 rt m v)" "finished (read_u32 m)" "finished (new_message rt n)"
  by (auto simp: write_u32_def read_u32_def new_message_def split: prod.splits intro!: finishing)

lemma finished_u32s [finishing]: "finished (write_u32s rt m vs)"
  by (induction vs arbitrary: m) (auto simp: write_u32s.simps(2) split: prod.splits intro!: finishing)

lemma finished_socket [finishing]: "finished (edsm_socket_read os fd buf n w)"
proof -
  have "finished (socket_read_loop os fd buf k n w)" for k n
  proof (induction os fd buf k n w rule: socket_read_loop.induct)
    case (1 os fd buf k n w)
    then show ?case
      by (subst socket_read_loop.simps) (auto simp: memcpy_def split: prod.splits sum.splits if_splits)
  qed
  then show ?thesis by (simp add: edsm_socket_read_def)
qed

lemma finished_frames [finishing]: "finished (read_message_from_socket rt os fd w)" "finished (fd_send_message os fd t m w)"
  by (auto simp: read_message_from_socket_def fd_send_message_def bytes_at_def split: option.splits prod.splits intro!: finishing)

lemma finished_handshake [finishing]: "finished (send_init_message rt os fd port s)"
  by (auto simp: send_init_message_def intro!: finishing)

lemma finished_response [finishing]:
  assumes "my_id s \<noteq> 0"
  shows "finished (read_and_handle_init_response rt os p s)"
  using assms unfolding read_and_handle_init_response_def adopt_identity_def
  by (auto split: option.splits prod.splits intro!: finishing)

text \<open>What a response to a node that has an id leaves unchanged, for a peer already in the table.\<close>

definition sock_of :: "('h, 'w, 'z) proto_scheme \<Rightarrow> nat \<Rightarrow> int option" where
  "sock_of s q = map_option sock_fd (peer_mem s q)"

lemma sock_of_simps [simp]: "sock_of (s\<lparr>world := w\<rparr>) = sock_of s" "sock_of (put_peer s p pr) = (sock_of s)(p \<mapsto> sock_fd pr)"
  by (simp_all add: sock_of_def fun_eq_iff)

lemma response_frame:
  assumes r: "read_and_handle_init_response rt os p s = Inr (rc, s')" and me: "my_id s \<noteq> 0"
    and p: "p \<in> set (HASH_ITER (peers s))"
  shows "peers s' = peers s \<and> my_id s' = my_id s \<and> sock_of s' = sock_of s"
proof -
  from r obtain pr m w where pr: "peer_mem s p = Some pr"
    and m: "read_message_from_socket rt os (sock_fd pr) (world s) = Inr (m, w)"
    by (auto simp: read_and_handle_init_response_def peer_at_def split: option.splits)
  have u: "(sock_of s)(p \<mapsto> sock_fd pr) = sock_of s" using pr by (simp add: sock_of_def fun_eq_iff)
  show ?thesis
  proof (cases m)
    case None
    with r pr m have "s' = s\<lparr>world := w\<rparr>" by (simp add: read_and_handle_init_response_def peer_at_def)
    then show ?thesis by simp
  next
    case (Some resp)
    with r pr m me p have "s' = s\<lparr>world := w\<rparr> \<or> (\<exists>i. s' = put_peer (s\<lparr>world := w\<rparr>) p (pr\<lparr>peer_id := i\<rparr>))"
      by (auto simp: read_and_handle_init_response_def peer_at_def adopt_identity_def split: if_splits option.splits)
    then show ?thesis using u by auto
  qed
qed

text \<open>The peers that are not connected, and what connecting keeps.\<close>

definition unconnected :: "('h, 'w, 'z) proto_scheme \<Rightarrow> nat set" where
  "unconnected s = {q \<in> set (HASH_ITER (peers s)). sock_of s q = Some (- 1)}"

definition extends :: "('h, 'w, 'z) proto_scheme \<Rightarrow> ('h, 'w, 'z) proto_scheme \<Rightarrow> bool" where
  "extends s s' \<longleftrightarrow> peers s' = peers s \<and> my_id s' = my_id s
     \<and> (\<forall>q. sock_of s' q = Some (- 1) \<longrightarrow> sock_of s q = Some (- 1))"

lemma extends_refl: "extends s s" by (simp add: extends_def)

lemma extends_trans: "extends s t \<Longrightarrow> extends t u \<Longrightarrow> extends s u" by (simp add: extends_def)

lemma finite_unconnected [simp]: "finite (unconnected s)" by (simp add: unconnected_def)

lemma extends_unconnected: "extends s s' \<Longrightarrow> card (unconnected s') \<le> card (unconnected s)"
  by (rule card_mono) (auto simp: extends_def unconnected_def)

text \<open>The fuel for \<open>u\<close> unconnected peers in a table of \<open>l\<close>, and \<open>k\<close> steps of the loop still to go.\<close>

abbreviation connect_fuel :: "nat \<Rightarrow> nat \<Rightarrow> nat \<Rightarrow> nat" where
  "connect_fuel u l k \<equiv> u * (l + 2) + k + 1"

text \<open>The outcome of connecting all peers from position \<open>k\<close> on.\<close>

definition connects :: "('h, 'w, 'z) proto_scheme \<Rightarrow> nat \<Rightarrow> (int \<times> ('h, 'w, 'z) proto_scheme) res \<Rightarrow> bool" where
  "connects s k r \<longleftrightarrow> finished r \<and> (\<forall>rc s'. r = Inr (rc, s') \<longrightarrow> extends s s'
     \<and> (rc \<noteq> FAILURE \<longrightarrow> (\<forall>q \<in> set (drop k (HASH_ITER (peers s))). sock_of s' q \<noteq> Some (- 1))))"

lemma connects_done: "connects s k (Inr (rc, s'))"
  if "extends s s'" "rc = FAILURE"
  using that by (simp add: connects_def)

lemma connects_mono:
  assumes "connects t j r" "extends s t" "set (drop k (HASH_ITER (peers s))) \<subseteq> set (drop j (HASH_ITER (peers t))) \<union> A"
    and "\<forall>q \<in> A. sock_of t q \<noteq> Some (- 1)"
  shows "connects s k r"
proof -
  have "sock_of s' q \<noteq> Some (- 1)" if "q \<in> A" "extends t s'" for q s'
    using that assms(4) by (auto simp: extends_def)
  with assms(1-3) show ?thesis unfolding connects_def by (blast intro: extends_trans)
qed

lemma peer_step:
  assumes IH: "\<And>t :: ('h, 'w, 'z) proto_scheme. my_id t \<noteq> 0 \<Longrightarrow>
      connect_fuel (card (unconnected t)) (length (HASH_ITER (peers t))) (length (HASH_ITER (peers t))) \<le> n \<Longrightarrow>
      connects t 0 (connect_from n rt os 0 port t)"
    and me: "my_id s \<noteq> 0" and p: "p \<in> unconnected s"
    and n: "card (unconnected s) * (length (HASH_ITER (peers s)) + 2) \<le> Suc n"
  shows "connects s 0 (peer_connect (Suc n) rt os p port (s :: ('h, 'w, 'z) proto_scheme))"
proof -
  from p obtain pr where pr: "peer_mem s p = Some pr" "sock_fd pr = - 1" "p \<in> set (HASH_ITER (peers s))"
    by (auto simp: unconnected_def sock_of_def)
  obtain fd w1 where c: "edsm_socket_connect os (peer_addr pr) (Some \<lparr>tv_sec = 5, tv_usec = 0\<rparr>) (world s) = (fd, w1)"
    by (metis surj_pair)
  let ?s1 = "(put_peer s p (pr\<lparr>sock_fd := fd\<rparr>))\<lparr>world := w1\<rparr>"
  have s1: "extends s (?s1\<lparr>world := w\<rparr>)" for w using pr(1,2) by (simp add: extends_def sock_of_def)
  have rest: "connects s 0 (connect_from n rt os 0 port t)"
    if t: "extends s t" "sock_of t p \<noteq> Some (- 1)" for t
  proof -
    have "unconnected t \<subset> unconnected s" using p t by (auto simp: extends_def unconnected_def)
    then have "Suc (card (unconnected t)) \<le> card (unconnected s)" by (simp add: psubset_card_mono Suc_leI)
    then have "Suc (card (unconnected t)) * (length (HASH_ITER (peers s)) + 2) \<le> Suc n"
      using n by (meson le_trans mult_le_mono1)
    moreover have "peers t = peers s" "my_id t = my_id s" using t(1) by (simp_all add: extends_def)
    ultimately have "connects t 0 (connect_from n rt os 0 port t)" using me by (intro IH) simp_all
    then show ?thesis by (rule connects_mono [where A = "{}", OF _ t(1)]) (use \<open>peers t = peers s\<close> in simp_all)
  qed
  show ?thesis
  proof (cases "fd = - 1")
    case True
    with pr(1) c s1 [of w1] show ?thesis by (simp add: peer_at_def connects_done)
  next
    case False
    show ?thesis
    proof (cases "send_init_message rt os fd port ?s1")
      case (Inl e)
      moreover have "e \<noteq> OutOfFuel" using finished_handshake [of rt os fd port ?s1] Inl by simp
      ultimately show ?thesis using pr(1) c False by (simp add: peer_at_def connects_def)
    next
      case (Inr r)
      then obtain rc w2 where send: "send_init_message rt os fd port ?s1 = Inr (rc, w2)" by (cases r) simp
      show ?thesis
      proof (cases "rc = FAILURE")
        case True
        with send pr(1) c False s1 show ?thesis by (simp add: peer_at_def connects_done)
      next
        case rc: False
        let ?s2 = "?s1\<lparr>world := w2\<rparr>"
        have me2: "my_id ?s2 \<noteq> 0" "p \<in> set (HASH_ITER (peers ?s2))" using me pr(3) by simp_all
        have step: "peer_connect (Suc n) rt os p port s
            = res_bind (read_and_handle_init_response rt os p ?s2) (\<lambda>(rc', s2).
                if rc' = FAILURE then Inr (FAILURE, s2\<lparr>world := os_close os fd (world s2)\<rparr>)
                else connect_from n rt os 0 port s2)"
          using send pr(1) c False rc by (simp add: peer_at_def)
        show ?thesis
        proof (cases "read_and_handle_init_response rt os p ?s2")
          case (Inl e)
          moreover have "e \<noteq> OutOfFuel" using finished_response [OF me2(1), of rt os p] Inl by simp
          ultimately show ?thesis unfolding step by (simp add: connects_def)
        next
          case (Inr r)
          then obtain rc' t where r: "read_and_handle_init_response rt os p ?s2 = Inr (rc', t)" by (cases r) simp
          from response_frame [OF r me2] have t: "peers t = peers s" "my_id t = my_id s"
            "sock_of t = (sock_of s)(p \<mapsto> fd)" by simp_all
          have ext: "extends s (t\<lparr>world := w\<rparr>)" for w
            using t pr(1,2) by (simp add: extends_def) (simp add: sock_of_def)
          then have "extends s t" by (simp add: extends_def)
          with r ext False t(3) rest [of t] show ?thesis unfolding step by (simp add: connects_done)
        qed
      qed
    qed
  qed
qed

lemma loop_step:
  assumes IH: "\<And>t k. my_id t \<noteq> 0 \<Longrightarrow>
      connect_fuel (card (unconnected t)) (length (HASH_ITER (peers t))) (length (HASH_ITER (peers t)) - k) \<le> n \<Longrightarrow>
      connects t k (connect_from n rt os k port (t :: ('h, 'w, 'z) proto_scheme))"
    and IP: "\<And>t p. my_id t \<noteq> 0 \<Longrightarrow> p \<in> unconnected t \<Longrightarrow>
      card (unconnected t) * (length (HASH_ITER (peers t)) + 2) \<le> n \<Longrightarrow>
      connects t 0 (peer_connect n rt os p port (t :: ('h, 'w, 'z) proto_scheme))"
    and me: "my_id s \<noteq> 0"
    and n: "connect_fuel (card (unconnected s)) (length (HASH_ITER (peers s))) (length (HASH_ITER (peers s)) - k) \<le> Suc n"
  shows "connects s k (connect_from (Suc n) rt os k port (s :: ('h, 'w, 'z) proto_scheme))"
proof (cases "k < length (HASH_ITER (peers s))")
  case False
  then show ?thesis by (simp add: connects_def extends_refl)
next
  case True
  let ?it = "HASH_ITER (peers s)" let ?p = "?it ! k"
  let ?r = "\<lambda>pr. if sock_fd pr = - 1 then peer_connect n rt os ?p port s else Inr (SUCCESS, s)"
  show ?thesis
  proof (cases "peer_mem s ?p")
    case None
    with True show ?thesis by (simp add: peer_at_def connects_def)
  next
    case (Some pr)
    have p: "connects s 0 (?r pr) \<or> ?r pr = Inr (SUCCESS, s) \<and> sock_of s ?p \<noteq> Some (- 1)"
    proof (cases "sock_fd pr = - 1")
      case c: True
      have "?p \<in> unconnected s" using True Some c by (simp add: unconnected_def sock_of_def)
      then have "connects s 0 (peer_connect n rt os ?p port s)" using n True by (intro IP [OF me]) simp_all
      with c show ?thesis by simp
    qed (use Some in \<open>simp add: sock_of_def\<close>)
    show ?thesis
    proof (cases "?r pr")
      case (Inl e)
      with p have "e \<noteq> OutOfFuel" by (auto simp: connects_def)
      with Inl True Some show ?thesis by (simp add: peer_at_def connects_def)
    next
      case (Inr r)
      then obtain rc t where r: "?r pr = Inr (rc, t)" by (cases r) simp
      with p have t: "extends s t" "rc \<noteq> FAILURE \<Longrightarrow> sock_of t ?p \<noteq> Some (- 1)"
        using True by (auto simp: connects_def extends_refl)
      have step: "connect_from (Suc n) rt os k port s = (if rc = FAILURE then Inr (FAILURE, t)
          else if Suc k < length ?it then connect_from n rt os (Suc k) port t else Inr (SUCCESS, t))"
        using True Some r by (simp add: peer_at_def)
      have pt: "peers t = peers s" "my_id t \<noteq> 0" using t(1) me by (simp_all add: extends_def)
      have dr: "drop k ?it = ?p # drop (Suc k) ?it" using True by (rule Cons_nth_drop_Suc [symmetric])
      show ?thesis
      proof (cases "rc = FAILURE")
        case F: True
        with t(1) show ?thesis unfolding step by (simp add: connects_done)
      next
        case F: False
        show ?thesis
        proof (cases "Suc k < length ?it")
          case more: True
          have "card (unconnected t) * (length ?it + 2) \<le> card (unconnected s) * (length ?it + 2)"
            using extends_unconnected [OF t(1)] by (rule mult_le_mono1)
          then have "connect_fuel (card (unconnected t)) (length (HASH_ITER (peers t))) (length (HASH_ITER (peers t)) - Suc k) \<le> n"
            using n more unfolding pt(1) by linarith
          from IH [OF pt(2) this] have "connects t (Suc k) (connect_from n rt os (Suc k) port t)" .
          then have "connects s k (connect_from n rt os (Suc k) port t)"
            by (rule connects_mono [where A = "{?p}", OF _ t(1)]) (use dr pt(1) t(2) F in auto)
          with F more show ?thesis unfolding step by simp
        next
          case False
          then have "drop (Suc k) ?it = []" by simp
          with F False t dr show ?thesis unfolding step by (simp add: connects_def)
        qed
      qed
    qed
  qed
qed

lemma connect_ends:
  fixes s :: "('h, 'w, 'z) proto_scheme"
  shows "(my_id s \<noteq> 0 \<longrightarrow> p \<in> unconnected s \<longrightarrow> card (unconnected s) * (length (HASH_ITER (peers s)) + 2) \<le> n
      \<longrightarrow> connects s 0 (peer_connect n rt os p port s))
   \<and> (my_id s \<noteq> 0 \<longrightarrow> connect_fuel (card (unconnected s)) (length (HASH_ITER (peers s))) (length (HASH_ITER (peers s)) - k) \<le> n
      \<longrightarrow> connects s k (connect_from n rt os k port s))"
proof (induction n arbitrary: s p k)
  case 0
  have "p \<in> unconnected s \<Longrightarrow> 0 < card (unconnected s)" by (auto simp: card_gt_0_iff)
  then show ?case by auto
next
  case (Suc n)
  have loop: "connects t k (connect_from n rt os k port t)" if "my_id t \<noteq> 0"
    "connect_fuel (card (unconnected t)) (length (HASH_ITER (peers t))) (length (HASH_ITER (peers t)) - k) \<le> n"
    for t :: "('h, 'w, 'z) proto_scheme" and k using Suc.IH [of t _ k] that by blast
  have conn: "connects t 0 (peer_connect n rt os p port t)" if "my_id t \<noteq> 0" "p \<in> unconnected t"
    "card (unconnected t) * (length (HASH_ITER (peers t)) + 2) \<le> n"
    for t :: "('h, 'w, 'z) proto_scheme" and p using Suc.IH [of t p] that by blast
  have loop0: "connects t 0 (connect_from n rt os 0 port t)" if "my_id t \<noteq> 0"
    "connect_fuel (card (unconnected t)) (length (HASH_ITER (peers t))) (length (HASH_ITER (peers t))) \<le> n"
    for t :: "('h, 'w, 'z) proto_scheme" using loop [of t 0] that by simp
  show ?case using peer_step [OF loop0] loop_step [OF loop conn] by blast
qed

section \<open>Properties\<close>

text \<open>C6: a node without an id joins a group. The member it connects to gives it an id that
  no one in the group has, adds it to its own peers and answers with its own id, the new id and its
  peers; from that answer the joining node takes over its id and ends up with exactly the member and the
  member's peers, so that both know the same group.\<close>

theorem join_agrees:
  assumes rt: "enough_memory rt"
    and osM: "accepts osM wrM" "quiet_reads osM wrM" "delivers osM fd stM"
    and M: "wf_peers sM" "fresh_peers sM" "few_items (peers sM)" "addresses_ok sM" "largest_id sM \<noteq> - 1"
      "my_id sM \<noteq> 0" "my_id sM \<notin> set (ids_of sM)"
    and acc: "os_accept osM ls (world sM) = ((fd, addr), w1)" "fd \<noteq> - 1"
      "stM w1 = frame MSG_TYPE_PROTO_INIT (init_request port) @ restM"
    and osJ: "accepts osJ wrJ" "delivers osJ fj stJ"
    and J: "my_id sJ = 0" "peers sJ = None" "fresh_peers sJ" "peer_mem sJ p = Some pr" "sock_fd pr = fj"
    and ans: "stJ (world sJ) = frame MSG_TYPE_PROTO_INIT (init_answer sM) @ restJ"
  shows "(\<exists>w. send_init_message rt osJ fj port sJ = Inr (SUCCESS, w)
       \<and> wrJ w fj = wrJ (world sJ) fj @ frame MSG_TYPE_PROTO_INIT (init_request port))
     \<and> (\<exists>sM'. handle_new_connection rt osM ls sM = Inr (SUCCESS, sM') \<and> wf_peers sM' \<and> my_id sM' = my_id sM
       \<and> wrM (world sM') fd = wrM w1 fd @ frame MSG_TYPE_PROTO_INIT (init_answer sM)
       \<and> ids_of sM' = ids_of sM @ [largest_id sM + 1])
     \<and> (\<exists>sJ'. read_and_handle_init_response rt osJ p sJ = Inr (SUCCESS, sJ') \<and> wf_peers sJ'
       \<and> my_id sJ' = largest_id sM + 1 \<and> ids_of sJ' = ids_of sM @ [my_id sM])
     \<and> largest_id sM + 1 \<notin> set (0 # my_id sM # ids_of sM)"
proof (intro conjI)
  show "\<exists>w. send_init_message rt osJ fj port sJ = Inr (SUCCESS, w)
      \<and> wrJ w fj = wrJ (world sJ) fj @ frame MSG_TYPE_PROTO_INIT (init_request port)"
    using send_init_ok [OF rt osJ(1), of fj port sJ] J(1) by (metis fun_upd_same)
  show "largest_id sM + 1 \<notin> set (0 # my_id sM # ids_of sM)" using next_id_new [OF M(5)] by auto
next
  let ?pr = "\<lparr>peer_id = largest_id sM + 1, sock_fd = fd, peer_addr = edsm_socket_set_sockaddr_port addr (ucast port)\<rparr>"
  from rt osM M(1-5) acc obtain w where w: "handle_new_connection rt osM ls sM = Inr (SUCCESS, (new_peer ?pr sM)\<lparr>world := w\<rparr>)"
      "wrM w = (wrM w1)(fd := wrM w1 fd @ frame MSG_TYPE_PROTO_INIT (init_answer sM))"
    by (rule new_connection_ok)
  have "find_peer sM (peer_id ?pr) = None" using find_peer_None [OF M(1)] next_id_new(1) [OF M(5)] by simp
  from new_peer_ok [OF M(1-3) this] have n: "wf_peers (new_peer ?pr sM)" "peers_list (new_peer ?pr sM) = peers_list sM @ [?pr]"
    by simp_all
  then have "ids_of (new_peer ?pr sM) = ids_of sM @ [largest_id sM + 1]" by (simp add: ids_of_peers_list)
  with w n(1) show "\<exists>sM'. handle_new_connection rt osM ls sM = Inr (SUCCESS, sM') \<and> wf_peers sM' \<and> my_id sM' = my_id sM
       \<and> wrM (world sM') fd = wrM w1 fd @ frame MSG_TYPE_PROTO_INIT (init_answer sM)
       \<and> ids_of sM' = ids_of sM @ [largest_id sM + 1]"
    by (intro exI [of _ "(new_peer ?pr sM)\<lparr>world := w\<rparr>"]) (simp add: new_peer_def add_peer_def)
next
  let ?prs = "peers_list sM"
  have prs: "distinct (map peer_id ?prs)" "list_all (\<lambda>pr. length (peer_addr pr) = 128) ?prs" "length ?prs < 25"
    "my_id sM \<notin> peer_id ` set ?prs"
    using M(1,4,7) by (simp_all add: wf_peers_def ids_of_peers_list addresses_ok_def)
  from rt osJ(2) J prs M(6) ans [unfolded init_answer_def] obtain sJ' where
    s': "read_and_handle_init_response rt osJ p sJ = Inr (SUCCESS, sJ')" "wf_peers sJ'" "my_id sJ' = largest_id sM + 1"
      "peers_list sJ' = map (\<lambda>pr. pr\<lparr>sock_fd := - 1\<rparr>) ?prs @ [pr\<lparr>peer_id := my_id sM\<rparr>]"
    by (rule init_response_ok)
  have "map peer_id (map (\<lambda>pr. pr\<lparr>sock_fd := - 1\<rparr>) ?prs) = map peer_id ?prs" by (simp add: comp_def)
  then have "ids_of sJ' = ids_of sM @ [my_id sM]" by (simp only: ids_of_peers_list s'(4) map_append) simp
  with s' show "\<exists>sJ'. read_and_handle_init_response rt osJ p sJ = Inr (SUCCESS, sJ') \<and> wf_peers sJ'
       \<and> my_id sJ' = largest_id sM + 1 \<and> ids_of sJ' = ids_of sM @ [my_id sM]" by blast
qed

text \<open>C10: connecting to the peers a response named ends, whatever the network does: for a node that has an
  id, a recursion depth of at most \<open>(l + 1)\<^sup>2 + l\<close> is enough for a table of \<open>l\<close> peers. When it
  succeeds, every peer in the table is connected.\<close>

theorem connecting_terminates:
  assumes "my_id s \<noteq> 0" "(length (HASH_ITER (peers s)) + 1) ^ 2 + length (HASH_ITER (peers s)) \<le> n"
  shows "connect_to_new_peers n rt os port s \<noteq> Inl OutOfFuel
     \<and> (\<forall>s'. connect_to_new_peers n rt os port s = Inr (SUCCESS, s') \<longrightarrow> peers s' = peers s \<and> my_id s' = my_id s
         \<and> (\<forall>q \<in> set (HASH_ITER (peers s')). \<forall>pr. peer_mem s' q = Some pr \<longrightarrow> sock_fd pr \<noteq> - 1))"
proof -
  let ?l = "length (HASH_ITER (peers s))"
  have "card (unconnected s) \<le> card (set (HASH_ITER (peers s)))" by (rule card_mono) (auto simp: unconnected_def)
  also have "\<dots> \<le> ?l" by (rule card_length)
  finally have "card (unconnected s) * (?l + 2) \<le> ?l * (?l + 2)" by (rule mult_le_mono1)
  also have "?l * (?l + 2) + ?l + 1 = (?l + 1) ^ 2 + ?l" by (simp add: power2_eq_square)
  finally have "connect_fuel (card (unconnected s)) ?l (?l - 0) \<le> n" using assms(2) by (simp add: power2_eq_square)
  with connect_ends [of s 0 n rt os port 0] assms(1) have "connects s 0 (connect_from n rt os 0 port s)" by blast
  then show ?thesis
    by (auto simp: connects_def connect_to_new_peers_def extends_def finished_def sock_of_def)
qed

text \<open>The id given to a new peer is one more than the largest id in use, which is a new one, until the
  largest 32-bit number is in use: then the new peer is given 0, which means that it has no id.\<close>

theorem next_peer_id:
  assumes "wf_peers s"
  shows "get_next_peer_id s = Inr (largest_id s + 1)
     \<and> (if largest_id s = - 1 then largest_id s + 1 = 0
        else largest_id s + 1 \<notin> set (0 # my_id s # ids_of s))"
  using next_id_ok [OF assms] next_id_new [of s] by auto

text \<open>A system with an input and an output for each descriptor, for the concrete instances.\<close>

definition duplex_os :: "(int \<Rightarrow> byte list) os" where
  "duplex_os = tape_os\<lparr>os_accept := (\<lambda>_ w. ((7, replicate 128 0), w)),
     os_write := (\<lambda>fd bs w. (int (length bs), w(2 * fd := w (2 * fd) @ map the bs))),
     os_read := (\<lambda>fd n w. ((int (min n (length (w (2 * fd + 1)))), take n (w (2 * fd + 1))),
       w(2 * fd + 1 := drop n (w (2 * fd + 1)))))\<rparr>"

lemma duplex_os_ok:
  "accepts duplex_os (\<lambda>w fd. w (2 * fd))" "quiet_reads duplex_os (\<lambda>w fd. w (2 * fd))"
  "delivers duplex_os fd (\<lambda>w. w (2 * fd + 1))"
proof -
  have "2 * a \<noteq> 2 * b + (1 :: int)" for a b by presburger
  then show "quiet_reads duplex_os (\<lambda>w fd. w (2 * fd))" by (simp add: quiet_reads_def duplex_os_def)
  show "accepts duplex_os (\<lambda>w fd. w (2 * fd))" by (auto simp: accepts_def duplex_os_def cells_def comp_def fun_eq_iff)
  show "delivers duplex_os fd (\<lambda>w. w (2 * fd + 1))" by (auto simp: delivers_def duplex_os_def min_def)
qed

definition member :: "(nat, int \<Rightarrow> byte list) proto" where
  "member = node_of_three\<lparr>world := (\<lambda>_. frame MSG_TYPE_PROTO_INIT (init_request 80))\<rparr>"

lemma member_ok: "wf_peers member" "fresh_peers member" "few_items (peers member)" "addresses_ok member"
  "ids_of member = [2, 3]" "my_id member = 1" "largest_id member = 3"
proof -
  show "wf_peers member" "fresh_peers member" "few_items (peers member)" "ids_of member = [2, 3]" "my_id member = 1"
    "addresses_ok member"
    using node_of_three_ok by (simp_all add: member_def fresh_peers_def addresses_ok_def sample_peer_def)
  then show "largest_id member = 3" by (simp add: largest_id_def)
qed

definition joiner :: "(nat, int \<Rightarrow> byte list) proto" where
  "joiner = lone_node\<lparr>my_id := 0, peer_mem := [0 \<mapsto> \<lparr>peer_id = 0, sock_fd = 9, peer_addr = replicate 128 0\<rparr>],
     peer_brk := 1, world := (\<lambda>_. frame MSG_TYPE_PROTO_INIT (init_answer member))\<rparr>"

lemma join_agrees_witness:
  "\<exists>sM' sJ'. handle_new_connection good_runtime duplex_os 3 member = Inr (SUCCESS, sM')
     \<and> read_and_handle_init_response good_runtime duplex_os 0 joiner = Inr (SUCCESS, sJ')
     \<and> ids_of sM' = [2, 3, 4] \<and> my_id sM' = 1 \<and> ids_of sJ' = [2, 3, 1] \<and> my_id sJ' = 4"
proof -
  have acc: "os_accept duplex_os 3 (world member) = ((7, replicate 128 0), world member)" by (simp add: duplex_os_def)
  have J: "my_id joiner = 0" "peers joiner = None" "fresh_peers joiner"
    "peer_mem joiner 0 = Some \<lparr>peer_id = 0, sock_fd = 9, peer_addr = replicate 128 0\<rparr>"
    by (simp_all add: joiner_def fresh_peers_def lone_node_def)
  have st: "world member (2 * 7 + 1) = frame MSG_TYPE_PROTO_INIT (init_request 80) @ []"
    "world joiner (2 * 9 + 1) = frame MSG_TYPE_PROTO_INIT (init_answer member) @ []"
    by (simp_all add: member_def joiner_def)
  have M: "largest_id member \<noteq> - 1" "my_id member \<noteq> 0" "my_id member \<notin> set (ids_of member)" "(7 :: int) \<noteq> - 1"
    by (simp_all add: member_ok)
  have fj: "sock_fd \<lparr>peer_id = 0, sock_fd = 9, peer_addr = replicate 128 0\<rparr> = 9" by simp
  from join_agrees [where stM = "\<lambda>w. w (2 * 7 + 1)" and stJ = "\<lambda>w. w (2 * 9 + 1)",
      OF enough_memory_good duplex_os_ok(1,2) duplex_os_ok(3) member_ok(1-4) M(1-3) acc M(4) st(1)
      duplex_os_ok(1) duplex_os_ok(3) J(1-4) fj st(2)]
  show ?thesis by (simp add: member_ok) blast
qed

lemma connecting_terminates_witness:
  "connect_to_new_peers 20 good_runtime duplex_os 80 member \<noteq> Inl OutOfFuel"
  using connecting_terminates [of member 20 good_runtime duplex_os 80] node_of_three_ok member_ok
  by (simp add: member_def power2_eq_square)

lemma next_peer_id_witness: "get_next_peer_id member = Inr 4 \<and> 4 \<notin> set (0 # my_id member # ids_of member)"
  using next_peer_id [OF member_ok(1)] by (simp add: member_ok)

end
