(* ===== verification/Listener.thy ===== *)
theory Listener
  imports Handshake
begin

text \<open>
  The listener thread of \<^verbatim>\<open>src/src/protocol.c\<close>: one iteration of its loop accepts a new
  connection and dispatches one message of every peer that is ready. \<^verbatim>\<open>pselect\<close> is a
  parameter. The variable \<^verbatim>\<open>running\<close> is part of the loop's result; another thread may clear it
  in \<^verbatim>\<open>edsm_proto_shutdown\<close>, which is an input of the loop for every iteration.
\<close>

section \<open>Operations\<close>

definition EINTR :: int where "EINTR = 4"

datatype listen_status = Running | Stopped | Failed

text \<open>
  The loop over the peers; the handlers it calls do not change the table. The result tells whether
  every read succeeded.
\<close>

fun listen_peers ::
    "runtime \<Rightarrow> 'w os \<Rightarrow> ('h, 'w, 'z) call \<Rightarrow> int list \<Rightarrow> nat list \<Rightarrow> bool \<Rightarrow> ('h, 'w, 'z) proto_scheme
       \<Rightarrow> (bool \<times> ('h, 'w, 'z) proto_scheme) res" where
  "listen_peers rt os call ready [] running s = Inr (running, s)"
| "listen_peers rt os call ready (p # ps) running s =
     res_bind (peer_at s p) (\<lambda>pr.
     res_bind (check OutOfBounds (0 \<le> sock_fd pr \<and> sock_fd pr < FD_SETSIZE)) (\<lambda>_.
     if sock_fd pr \<in> set ready then
       res_bind (read_message_from_socket rt os (sock_fd pr) (world s)) (\<lambda>(m, w).
       case m of
         None \<Rightarrow> listen_peers rt os call ready ps False (s\<lparr>world := w\<rparr>)
       | Some new_msg \<Rightarrow>
           res_bind (read_u32 new_msg) (\<lambda>(_, v, msg).
           res_bind (determinate v) (\<lambda>msg_type.
           res_bind (handle_message call msg msg_type (peer_id pr) (s\<lparr>world := w\<rparr>)) (\<lambda>(_, s').
           listen_peers rt os call ready ps running s'))))
     else listen_peers rt os call ready ps running s))"

definition listen_iteration ::
    "runtime \<Rightarrow> 'w os \<Rightarrow> (int list \<Rightarrow> int \<Rightarrow> 'w \<Rightarrow> (int \<times> int list) \<times> 'w) \<Rightarrow> ('h, 'w, 'z) call \<Rightarrow> int
       \<Rightarrow> ('h, 'w, 'z) proto_scheme \<Rightarrow> (listen_status \<times> ('h, 'w, 'z) proto_scheme) res" where
  "listen_iteration rt os pselect call listen_sock s =
     res_bind (check OutOfBounds (0 \<le> listen_sock \<and> listen_sock < FD_SETSIZE)) (\<lambda>_.
     res_bind (fdset_add_peers s [listen_sock] listen_sock) (\<lambda>(fds, max_fd).
     case pselect fds (max_fd + 1) (world s) of ((result, ready), w1) \<Rightarrow>
     let s1 = s\<lparr>world := w1\<rparr> in
     if result = - 1 then (if os_errno os w1 \<noteq> EINTR then Inr (Failed, s1) else Inr (Running, s1))
     else if result = 0 then Inr (Running, s1)
     else
       res_bind (if listen_sock \<in> set ready then handle_new_connection rt os listen_sock s1 else Inr (SUCCESS, s1))
         (\<lambda>(_, s2).
       res_bind (listen_peers rt os call ready (HASH_ITER (peers s2)) True s2) (\<lambda>(running, s3).
       Inr (if running then Running else Stopped, s3)))))"

text \<open>The loop that destroys the peers reads the link of a peer after it has destroyed it.\<close>

fun destroy_peers :: "nat list \<Rightarrow> ('h, 'w, 'z) proto_scheme \<Rightarrow> ('h, 'w, 'z) proto_scheme res" where
  "destroy_peers [] s = Inr s"
| "destroy_peers (p # ps) s =
     res_bind (destroy_peer s p) (\<lambda>s1. res_bind (peer_at s1 p) (\<lambda>_. destroy_peers ps s1))"

lemma destroy_peers_eq: "destroy_peers ps s = (if ps = [] then Inr s else Inl UseAfterFree)"
  by (cases ps) (auto simp: destroy_peer_def peer_at_def split: option.splits)

text \<open>
  The loop: \<open>stop\<close> tells for each test of \<^verbatim>\<open>running\<close> whether it has been cleared since the
  last one.
\<close>

fun listen_loop ::
    "runtime \<Rightarrow> 'w os \<Rightarrow> (int list \<Rightarrow> int \<Rightarrow> 'w \<Rightarrow> (int \<times> int list) \<times> 'w) \<Rightarrow> ('h, 'w, 'z) call \<Rightarrow> int
       \<Rightarrow> bool list \<Rightarrow> ('h, 'w, 'z) proto_scheme \<Rightarrow> (listen_status \<times> ('h, 'w, 'z) proto_scheme) res" where
  "listen_loop rt os pselect call listen_sock [] s = Inr (Running, s)"
| "listen_loop rt os pselect call listen_sock (stop # stops) s =
     (if stop then res_bind (destroy_peers (HASH_ITER (peers s)) s) (\<lambda>s'. Inr (Stopped, s'))
      else res_bind (listen_iteration rt os pselect call listen_sock s) (\<lambda>(st, s1).
        case st of
          Running \<Rightarrow> listen_loop rt os pselect call listen_sock stops s1
        | Stopped \<Rightarrow> res_bind (destroy_peers (HASH_ITER (peers s1)) s1) (\<lambda>s'. Inr (Stopped, s'))
        | Failed \<Rightarrow> Inr (Failed, s1)))"

definition listen_thread ::
    "runtime \<Rightarrow> 'w os \<Rightarrow> (int list \<Rightarrow> int \<Rightarrow> 'w \<Rightarrow> (int \<times> int list) \<times> 'w) \<Rightarrow> ('h, 'w, 'z) call \<Rightarrow> bool list
       \<Rightarrow> ('h, 'w, 'z) proto_scheme \<Rightarrow> (int \<times> listen_status \<times> ('h, 'w, 'z) proto_scheme) res" where
  "listen_thread rt os pselect call stops s =
     res_bind (edsm_socket_listen os (listen_port s) 0 (world s)) (\<lambda>(listen_sock, w).
     if listen_sock = FAILURE then Inl AssertionFailed
     else res_bind (listen_loop rt os pselect call listen_sock stops (s\<lparr>world := w\<rparr>)) (\<lambda>(st, s').
       Inr (listen_sock, st, s')))"

text \<open>\<open>rc\<close> is the outcome of \<^verbatim>\<open>pthread_create\<close>.\<close>

definition edsm_proto_listener_init ::
    "int \<Rightarrow> u16 \<Rightarrow> ('h, 'w, 'z) proto_scheme \<Rightarrow> ('h, 'w, 'z) proto_scheme res" where
  "edsm_proto_listener_init rc port s =
     res_bind (check AssertionFailed (rc = 0)) (\<lambda>_. Inr (s\<lparr>listen_port := port\<rparr>))"

text \<open>Shutting down: the listener, at its next test, ends, and is joined; then its socket is closed.\<close>

definition edsm_proto_shutdown ::
    "runtime \<Rightarrow> 'w os \<Rightarrow> (int list \<Rightarrow> int \<Rightarrow> 'w \<Rightarrow> (int \<times> int list) \<times> 'w) \<Rightarrow> ('h, 'w, 'z) call \<Rightarrow> int
       \<Rightarrow> ('h, 'w, 'z) proto_scheme \<Rightarrow> ('h, 'w, 'z) proto_scheme res" where
  "edsm_proto_shutdown rt os pselect call listen_sock s =
     res_bind (listen_loop rt os pselect call listen_sock [True] s) (\<lambda>(_, s').
     Inr (s'\<lparr>world := os_close os listen_sock (world s')\<rparr>))"

section \<open>The loop over the peers\<close>

lemma listen_peers_append:
  "listen_peers rt os call ready (ps @ qs) running s
     = res_bind (listen_peers rt os call ready ps running s) (\<lambda>(r, s'). listen_peers rt os call ready qs r s')"
  by (induction ps arbitrary: running s) (auto simp: res_bind_def split: sum.split option.split)

text \<open>The descriptors of the peers can be members of a set of descriptors.\<close>

definition selectable :: "('h, 'w, 'z) proto_scheme \<Rightarrow> nat list \<Rightarrow> bool" where
  "selectable s ps \<longleftrightarrow> (\<forall>p \<in> set ps. \<exists>pr. peer_mem s p = Some pr \<and> 0 \<le> sock_fd pr \<and> sock_fd pr < FD_SETSIZE)"

lemma listen_peers_skip:
  "selectable s ps \<Longrightarrow> \<forall>p \<in> set ps. sock_fd (peer_of s p) \<notin> set ready \<Longrightarrow>
     listen_peers rt os call ready ps running s = Inr (running, s)"
  by (induction ps) (auto simp: selectable_def peer_at_def peer_of_def)

lemma fdset_add_ok: "selectable s ps \<Longrightarrow> \<exists>r. fdset_add s ps acc = Inr r"
proof (induction ps arbitrary: acc)
  case (Cons p ps)
  then obtain pr where pr: "peer_mem s p = Some pr" "0 \<le> sock_fd pr" "sock_fd pr < FD_SETSIZE" "selectable s ps"
    by (auto simp: selectable_def)
  obtain fds max_fd where "acc = (fds, max_fd)" by fastforce
  with pr(1-3) Cons.IH [OF pr(4)] show ?case by (simp add: peer_at_def)
qed simp

text \<open>The set handed to \<^verbatim>\<open>pselect\<close> has the descriptor of every peer, below its bound.\<close>

lemma fdset_add_all:
  "fdset_add s ps (fds0, max0) = Inr (fds, max_fd) \<Longrightarrow> set fds0 \<subseteq> set fds \<and> max0 \<le> max_fd
     \<and> (\<forall>p \<in> set ps. sock_fd (peer_of s p) \<in> set fds \<and> sock_fd (peer_of s p) \<le> max_fd)"
proof (induction ps arbitrary: fds0 max0)
  case (Cons p ps)
  then obtain pr where pr: "peer_at s p = Inr pr"
    "fdset_add s ps (sock_fd pr # fds0, if sock_fd pr > max0 then sock_fd pr else max0) = Inr (fds, max_fd)" by auto
  from pr(1) have "peer_of s p = pr" by (auto simp: peer_at_def peer_of_def split: option.splits)
  with Cons.IH [OF pr(2)] show ?case by (auto split: if_splits)
qed simp

lemma selectable_world [simp]: "selectable (s\<lparr>world := w\<rparr>) ps = selectable s ps"
  by (simp add: selectable_def)

lemma selectable_cong: "peer_mem t = peer_mem s \<Longrightarrow> selectable t ps = selectable s ps"
  by (simp add: selectable_def)

lemma iteration_ready:
  assumes "selectable s (HASH_ITER (peers s))" "0 \<le> listen_sock" "listen_sock < FD_SETSIZE" "listen_sock \<notin> set ready"
    and p: "p \<in> set (HASH_ITER (peers s))"
    and sel: "\<And>fds n. sock_fd (peer_of s p) \<in> set fds \<Longrightarrow> sock_fd (peer_of s p) < n \<Longrightarrow> pselect fds n (world s) = ((result, ready), w1)"
    and "0 < result"
  shows "listen_iteration rt os pselect call listen_sock s =
     res_bind (listen_peers rt os call ready (HASH_ITER (peers s)) True (s\<lparr>world := w1\<rparr>)) (\<lambda>(running, s').
       Inr (if running then Running else Stopped, s'))"
proof -
  obtain fds max_fd where f: "fdset_add_peers s [listen_sock] listen_sock = Inr (fds, max_fd)"
    using fdset_add_ok [OF assms(1)] by (fastforce simp: fdset_add_peers_def)
  from fdset_add_all [OF this [unfolded fdset_add_peers_def]] p
  have "pselect fds (max_fd + 1) (world s) = ((result, ready), w1)" by (intro sel) simp_all
  with assms(1-4,7) f show ?thesis by (simp add: listen_iteration_def)
qed

lemma only_ready:
  assumes s: "connected s" "selectable s (HASH_ITER (peers s))" and p: "p \<in> set (HASH_ITER (peers s))"
  obtains qs where "\<And>w. listen_peers rt os call [sock_fd (peer_of s p)] (HASH_ITER (peers s)) True (s\<lparr>world := w\<rparr>)
      = listen_peers rt os call [sock_fd (peer_of s p)] (p # qs) True (s\<lparr>world := w\<rparr>)"
    "\<And>u r. peer_mem u = peer_mem s \<Longrightarrow> listen_peers rt os call [sock_fd (peer_of s p)] qs r u = Inr (r, u)"
    "peer_at s p = Inr (peer_of s p)" "0 \<le> sock_fd (peer_of s p)" "sock_fd (peer_of s p) < FD_SETSIZE"
proof -
  let ?fd = "sock_fd (peer_of s p)"
  from p obtain ps qs where i: "HASH_ITER (peers s) = ps @ p # qs" by (meson split_list)
  have "distinct (HASH_ITER (peers s))" using s(1) by (auto simp: connected_def wf_peers_def ids_of_def distinct_map)
  with i have "p \<notin> set ps \<union> set qs" by auto
  moreover have "inj_on (sock_fd \<circ> peer_of s) (set (HASH_ITER (peers s)))" using s(1) by (simp add: connected_def)
  ultimately have n: "\<forall>q \<in> set ps \<union> set qs. sock_fd (peer_of s q) \<noteq> ?fd" unfolding i by (auto simp: inj_on_def)
  have r: "selectable s ps" "selectable s qs" "peer_mem s p = Some (peer_of s p)" "0 \<le> ?fd" "?fd < FD_SETSIZE"
    using s(2) unfolding i by (auto simp: selectable_def peer_of_def)
  have "listen_peers rt os call [?fd] qs f u = Inr (f, u)" if "peer_mem u = peer_mem s" for u f
  proof (rule listen_peers_skip)
    show "selectable u qs" using r(2) selectable_cong [OF that] by simp
    show "\<forall>q \<in> set qs. sock_fd (peer_of u q) \<notin> set [?fd]" using n that by (simp add: peer_of_def)
  qed
  with r n show ?thesis
    by (intro that [of qs])
      (simp_all add: i listen_peers_append listen_peers_skip peer_at_def del: listen_peers.simps)
qed

section \<open>Properties\<close>

text \<open>C15: when the descriptor of one peer is the one that is ready, as \<^verbatim>\<open>pselect\<close> reports when it is
  asked about that descriptor, the listener does ask about it and reads exactly one message from it and
  runs the handler of the message's type once, with that peer's id and the data of the message, whatever
  the other peers are; then it goes on.\<close>

theorem listener_dispatches:
  assumes rt: "enough_memory rt" and s: "connected s" "selectable s (HASH_ITER (peers s))" "p \<in> set (HASH_ITER (peers s))"
    and ls: "0 \<le> listen_sock" "listen_sock < FD_SETSIZE" "listen_sock \<noteq> sock_fd (peer_of s p)"
    and sel: "\<And>fds n. sock_fd (peer_of s p) \<in> set fds \<Longrightarrow> sock_fd (peer_of s p) < n \<Longrightarrow>
       pselect fds n (world s) = ((1, [sock_fd (peer_of s p)]), w1)"
    and os: "delivers os (sock_fd (peer_of s p)) stream" "stream w1 = frame t bs @ rest" "length bs + 4 < 2 ^ 31"
    and keep: "\<And>h i m u rc u'. call h i m u = Inr (rc, u') \<Longrightarrow> peer_mem u' = peer_mem u"
  shows "\<exists>m w. holds m bs \<and> stream w = rest \<and>
     listen_iteration rt os pselect call listen_sock s =
       res_bind (handle_message call m t (peer_id (peer_of s p)) (s\<lparr>world := w\<rparr>)) (\<lambda>(_, s'). Inr (Running, s'))"
proof -
  let ?fd = "sock_fd (peer_of s p)"
  note r = only_ready [OF s, where rt = rt and os = os and call = call]
  obtain qs where q: "\<And>w. listen_peers rt os call [?fd] (HASH_ITER (peers s)) True (s\<lparr>world := w\<rparr>)
        = listen_peers rt os call [?fd] (p # qs) True (s\<lparr>world := w\<rparr>)"
      "\<And>u r. peer_mem u = peer_mem s \<Longrightarrow> listen_peers rt os call [?fd] qs r u = Inr (r, u)"
      "peer_at s p = Inr (peer_of s p)" "0 \<le> ?fd" "?fd < FD_SETSIZE" by (rule r) blast
  obtain m0 w where m0: "read_message_from_socket rt os ?fd w1 = Inr (Some m0, w)" "holds m0 (bytes_of_u32 t @ bs)"
      "stream w = rest" using read_frame [OF rt os] by auto
  from m0(2) obtain m where m: "read_u32 m0 = Inr (SUCCESS, Some t, m)" "holds m bs" by (rule holds_read_u32)
  let ?h = "handle_message call m t (peer_id (peer_of s p)) (s\<lparr>world := w\<rparr>)"
  have h: "peer_mem u = peer_mem s" if "?h = Inr (rc, u)" for rc u
    using that keep by (fastforce simp: handle_message_def split: option.splits)
  have at: "peer_at (s\<lparr>world := w1\<rparr>) p = Inr (peer_of s p)" using q(3) by (simp add: peer_at_def)
  have "listen_peers rt os call [?fd] (p # qs) True (s\<lparr>world := w1\<rparr>)
      = res_bind ?h (\<lambda>(_, s'). listen_peers rt os call [?fd] qs True s')"
    using q(4,5) at m0(1) m(1) by simp
  also have "\<dots> = res_bind ?h (\<lambda>(_, s'). Inr (True, s'))"
    using q(2) h by (auto simp: res_bind_def split: sum.split)
  finally have l: "listen_peers rt os call [?fd] (HASH_ITER (peers s)) True (s\<lparr>world := w1\<rparr>)
      = res_bind ?h (\<lambda>(_, s'). Inr (True, s'))" unfolding q(1) .
  have "listen_iteration rt os pselect call listen_sock s = res_bind ?h (\<lambda>(_, s'). Inr (Running, s'))"
    using iteration_ready [of s listen_sock "[?fd]" p pselect 1 w1, OF s(2) ls(1,2) _ s(3) sel] ls(3) l
    by (simp add: case_prod_unfold)
  with m(2) m0(3) show ?thesis by blast
qed

text \<open>C37: shutting down a node that has peers uses memory after it is freed: the loop over the peers reads
  the link of each after destroying it. The same happens without a shutdown as soon as one peer closes
  its connection, which the listener, that waits for the descriptors of all peers, notices and ends.\<close>

theorem shutdown_uses_freed_peer:
  assumes rt: "enough_memory rt" and s: "connected s" "selectable s (HASH_ITER (peers s))" "p \<in> set (HASH_ITER (peers s))"
    and ls: "0 \<le> listen_sock" "listen_sock < FD_SETSIZE" "listen_sock \<noteq> sock_fd (peer_of s p)"
    and sel: "\<And>fds n. sock_fd (peer_of s p) \<in> set fds \<Longrightarrow> sock_fd (peer_of s p) < n \<Longrightarrow>
       pselect fds n (world s) = ((1, [sock_fd (peer_of s p)]), w1)"
    and os: "delivers os (sock_fd (peer_of s p)) stream" "stream w1 = []"
  shows "edsm_proto_shutdown rt os pselect call listen_sock s = Inl UseAfterFree
     \<and> listen_loop rt os pselect call listen_sock (False # stops) s = Inl UseAfterFree"
proof -
  let ?fd = "sock_fd (peer_of s p)"
  have d: "destroy_peers (HASH_ITER (peers s)) s = Inl UseAfterFree"
    "destroy_peers (HASH_ITER (peers s)) (s\<lparr>world := w\<rparr>) = Inl UseAfterFree" for w
    using s(3) by (auto simp: destroy_peers_eq)
  note r = only_ready [OF s, where rt = rt and os = os and call = call]
  obtain qs where q: "\<And>w. listen_peers rt os call [?fd] (HASH_ITER (peers s)) True (s\<lparr>world := w\<rparr>)
        = listen_peers rt os call [?fd] (p # qs) True (s\<lparr>world := w\<rparr>)"
      "\<And>u r. peer_mem u = peer_mem s \<Longrightarrow> listen_peers rt os call [?fd] qs r u = Inr (r, u)"
      "peer_at s p = Inr (peer_of s p)" "0 \<le> ?fd" "?fd < FD_SETSIZE" by (rule r) blast
  from socket_read_exact [OF os(1), of 4 "uninit 4" w1] os(2) obtain buf w where
    "edsm_socket_read os ?fd (uninit 4) 4 w1 = Inr (- 1, buf, w)" by auto
  then have rd: "read_message_from_socket rt os ?fd w1 = Inr (None, w)" by (simp add: read_message_from_socket_def)
  have at: "peer_at (s\<lparr>world := w1\<rparr>) p = Inr (peer_of s p)" using q(3) by (simp add: peer_at_def)
  have "listen_peers rt os call [?fd] (p # qs) True (s\<lparr>world := w1\<rparr>) = Inr (False, s\<lparr>world := w\<rparr>)"
    using q(2,4,5) at rd by simp
  then have l: "listen_peers rt os call [?fd] (HASH_ITER (peers s)) True (s\<lparr>world := w1\<rparr>) = Inr (False, s\<lparr>world := w\<rparr>)"
    unfolding q(1) .
  have "listen_iteration rt os pselect call listen_sock s = Inr (Stopped, s\<lparr>world := w\<rparr>)"
    using iteration_ready [of s listen_sock "[?fd]" p pselect 1 w1, OF s(2) ls(1,2) _ s(3) sel] ls(3) l by simp
  then show ?thesis using d by (simp add: edsm_proto_shutdown_def)
qed

lemma member_listens: "connected member" "selectable member (HASH_ITER (peers member))" "0 \<in> set (HASH_ITER (peers member))"
  "peer_of member 0 = sample_peer 2 5"
proof -
  have l: "peers_list member = [sample_peer 2 5, sample_peer 3 6]" "HASH_ITER (peers member) = [0, 1]"
    using node_of_three_ok by (simp_all add: member_def)
  then show "0 \<in> set (HASH_ITER (peers member))" "peer_of member 0 = sample_peer 2 5" by (simp_all add: peers_list_def)
  show "connected member" using node_of_three_connected by (simp add: member_def)
  have "\<forall>q \<in> set (HASH_ITER (peers member)). peer_mem member q = Some (peer_of member q)"
    using member_ok(1) by (auto simp: wf_peers_def peer_of_def)
  with l show "selectable member (HASH_ITER (peers member))"
    by (simp add: selectable_def peers_list_def sample_peer_def FD_SETSIZE_def)
qed

definition listening :: "(nat, int \<Rightarrow> byte list) proto" where
  "listening = member\<lparr>message_handlers := HASH_ADD handler_key None (MSG_TYPE_TASK, 7),
     world := (\<lambda>_. frame MSG_TYPE_TASK [1, 2])\<rparr>"

lemma listening_ok: "connected listening" "peers listening = peers member" "peer_of listening = peer_of member"
  "peer_mem listening = peer_mem member"
  "HASH_FIND handler_key (message_handlers listening) (bytes_of_u32 MSG_TYPE_TASK) = Some (MSG_TYPE_TASK, 7)"
proof -
  show e: "peers listening = peers member" "peer_of listening = peer_of member" "peer_mem listening = peer_mem member"
    by (simp_all add: listening_def peer_of_def fun_eq_iff)
  have "my_id listening = my_id member" by (simp add: listening_def)
  from connected_cong(1) [OF e(3,1) this] member_listens(1) show "connected listening" by simp
  from uthash.find_add [OF empty_table(1,2,4), of handler_key "(MSG_TYPE_TASK, 7)" "bytes_of_u32 MSG_TYPE_TASK"]
  show "HASH_FIND handler_key (message_handlers listening) (bytes_of_u32 MSG_TYPE_TASK) = Some (MSG_TYPE_TASK, 7)"
    by (simp add: listening_def handler_key_def)
qed

text \<open>A \<^verbatim>\<open>pselect\<close> to which descriptor 5 is ready, if it is asked about it.\<close>

definition five_ready :: "int list \<Rightarrow> int \<Rightarrow> 'w \<Rightarrow> (int \<times> int list) \<times> 'w" where
  "five_ready fds n w = (if 5 \<in> set fds \<and> 5 < n then ((1, [5]), w) else ((0, []), w))"

text \<open>The handler notes the id of the peer in the state.\<close>

lemma listener_dispatches_witness:
  "\<exists>s'. listen_iteration good_runtime duplex_os five_ready (\<lambda>_ i _ u. Inr (0, u\<lparr>my_id := i\<rparr>)) 3 listening
     = Inr (Running, s') \<and> my_id s' = 2"
proof -
  let ?call = "\<lambda>(_ :: nat) i (_ :: edsm_message) (u :: (nat, int \<Rightarrow> byte list) proto). Inr (0 :: int, u\<lparr>my_id := i\<rparr>) :: (int \<times> _) res"
  have m: "selectable listening (HASH_ITER (peers listening))" "0 \<in> set (HASH_ITER (peers listening))"
    "peer_of listening 0 = sample_peer 2 5"
    using member_listens(2-4) listening_ok(2-4) selectable_cong [of listening member] by simp_all
  have st: "world listening (2 * 5 + 1) = frame MSG_TYPE_TASK [1, 2] @ []" "length [1 :: byte, 2] + 4 < 2 ^ 31"
    by (simp_all add: listening_def)
  from listener_dispatches [OF enough_memory_good listening_ok(1) m(1,2), of 3 five_ready "world listening"
      duplex_os "\<lambda>w. w (2 * 5 + 1)" MSG_TYPE_TASK "[1, 2]" "[]" ?call] st duplex_os_ok(3) [of 5]
  obtain m w where "listen_iteration good_runtime duplex_os five_ready ?call 3 listening
      = res_bind (handle_message ?call m MSG_TYPE_TASK 2 (listening\<lparr>world := w\<rparr>)) (\<lambda>(_, s'). Inr (Running, s'))"
    by (auto simp: m(3) sample_peer_def FD_SETSIZE_def five_ready_def)
  then show ?thesis by (simp add: handle_message_def listening_ok(5))
qed

lemma shutdown_uses_freed_peer_witness:
  "edsm_proto_shutdown good_runtime duplex_os five_ready (\<lambda>_ _ _ u. Inr (0, u)) 3 (member\<lparr>world := \<lambda>_. []\<rparr>)
     = Inl UseAfterFree"
proof -
  let ?s = "member\<lparr>world := \<lambda>_. []\<rparr>"
  have m: "connected ?s" "selectable ?s (HASH_ITER (peers ?s))" "0 \<in> set (HASH_ITER (peers ?s))"
    using member_listens(1-3) by simp_all
  from shutdown_uses_freed_peer [OF enough_memory_good m, of 3 five_ready "\<lambda>_. []" duplex_os "\<lambda>w. w (2 * 5 + 1)"]
    duplex_os_ok(3) [of 5]
  show ?thesis by (simp add: member_listens(4) sample_peer_def FD_SETSIZE_def five_ready_def)
qed

end
