(* ===== verification/Edsmd.thy ===== *)
theory Edsmd
  imports Task Listener
begin

text \<open>
  The program, \<^verbatim>\<open>src/src/edsmd.c\<close>: command line, start-up and the linking of the tasks in a
  directory. The directory and the regular expression are parameters; so are the handlers that are
  registered and the lookup of the object 0, which \<^verbatim>\<open>edsm_dobj_init\<close> uses as a lock. A call of
  \<^verbatim>\<open>exit\<close> is the fault \<^term>\<open>Aborted\<close>.
\<close>

section \<open>Strings in fixed buffers\<close>

definition c_strlen :: "byte list \<Rightarrow> nat res" where
  "c_strlen buf = (if 0 \<in> set buf then Inr (length (takeWhile (\<lambda>b. b \<noteq> 0) buf)) else Inl OutOfBounds)"

text \<open>What \<^verbatim>\<open>strncpy(buf, str, n)\<close> stores, for a buffer of \<open>n\<close> bytes.\<close>

definition strncpy :: "byte list \<Rightarrow> nat \<Rightarrow> byte list" where
  "strncpy str n = take n (str @ replicate n 0)"

definition strncat :: "byte list \<Rightarrow> byte list \<Rightarrow> nat \<Rightarrow> byte list res" where
  "strncat buf str n =
     (let str' = take n str in
      res_bind (c_strlen buf) (\<lambda>k.
      res_bind (check OutOfBounds (k + length str' + 1 \<le> length buf)) (\<lambda>_.
      Inr (take k buf @ str' @ [0] @ drop (k + length str' + 1) buf))))"

fun number :: "int \<Rightarrow> byte list \<Rightarrow> int" where
  "number n [] = n"
| "number n (b # bs) = (if 48 \<le> b \<and> b \<le> 57 then number (n * 10 + (uint b - 48)) bs else n)"

text \<open>\<^verbatim>\<open>atoi\<close>; the value must fit \<^verbatim>\<open>int\<close>.\<close>

definition atoi :: "byte list \<Rightarrow> int res" where
  "atoi str =
     (let s = dropWhile (\<lambda>b. b = 32 \<or> 9 \<le> b \<and> b \<le> 13) str;
          v = (case s of [] \<Rightarrow> 0
            | b # bs \<Rightarrow> if b = 45 then - number 0 bs else if b = 43 then number 0 bs else number 0 s)
      in res_bind (check SignedOverflow (in_int v)) (\<lambda>_. Inr v))"

section \<open>Operations\<close>

text \<open>The buffer \<^verbatim>\<open>path\<close>, with a slash appended if it has none: over the terminator.\<close>

definition task_directory :: "byte list \<Rightarrow> byte list res" where
  "task_directory dir =
     (let path = strncpy dir 128 in
      res_bind (c_strlen path) (\<lambda>n.
      res_bind (check OutOfBounds (0 < n)) (\<lambda>_.
      Inr (if path ! (n - 1) \<noteq> 47 then path[n := 47] else path))))"

definition task_file :: "byte list \<Rightarrow> byte list \<Rightarrow> byte list res" where
  "task_file path name = strncat (strncpy (takeWhile (\<lambda>b. b \<noteq> 0) path) 128) name 128"

definition REG_NOMATCH :: int where "REG_NOMATCH = 1"

fun link_tasks ::
    "runtime \<Rightarrow> (byte list \<Rightarrow> 'l option) \<Rightarrow> ('l \<Rightarrow> 'u option) \<Rightarrow> bool \<Rightarrow> (byte list \<Rightarrow> int) \<Rightarrow> byte list \<Rightarrow> byte list list
       \<Rightarrow> ('h, 'w, 'k, 'u, 'z) tasks_scheme \<Rightarrow> ('h, 'w, 'k, 'u, 'z) tasks_scheme res" where
  "link_tasks rt dlopen dlsym spawn_ok regexec path [] s = Inr s"
| "link_tasks rt dlopen dlsym spawn_ok regexec path (name # names) s =
     (if regexec name = 0 then
        res_bind (task_file path name) (\<lambda>file_path.
        res_bind (edsm_task_link rt dlopen dlsym spawn_ok name (takeWhile (\<lambda>b. b \<noteq> 0) file_path) s) (\<lambda>(_, s').
        link_tasks rt dlopen dlsym spawn_ok regexec path names s'))
      else if regexec name \<noteq> REG_NOMATCH then Inl Aborted
      else link_tasks rt dlopen dlsym spawn_ok regexec path names s)"

definition link_directory ::
    "runtime \<Rightarrow> (byte list \<Rightarrow> 'l option) \<Rightarrow> ('l \<Rightarrow> 'u option) \<Rightarrow> bool \<Rightarrow> (byte list \<Rightarrow> int) \<Rightarrow> (byte list \<Rightarrow> byte list list option)
       \<Rightarrow> byte list \<Rightarrow> ('h, 'w, 'k, 'u, 'z) tasks_scheme \<Rightarrow> ('h, 'w, 'k, 'u, 'z) tasks_scheme res" where
  "link_directory rt dlopen dlsym spawn_ok regexec opendir dir s =
     res_bind (task_directory dir) (\<lambda>path.
     res_bind (c_strlen path) (\<lambda>n.
     case opendir (take n path) of
       None \<Rightarrow> Inr s
     | Some names \<Rightarrow> link_tasks rt dlopen dlsym spawn_ok regexec path names s))"

definition edsmd_init ::
    "runtime \<Rightarrow> nat \<Rightarrow> 'h \<Rightarrow> 'h
       \<Rightarrow> (('h, 'w, 'k, 'u, 'z) tasks_scheme \<Rightarrow> (nat \<times> ('h, 'w, 'k, 'u, 'z) tasks_scheme) res)
       \<Rightarrow> ('h, 'w, 'k, 'u, 'z) tasks_scheme \<Rightarrow> ('h, 'w, 'k, 'u, 'z) tasks_scheme res" where
  "edsmd_init rt pagesize task_handler dobj_handler mutex_get_0 s =
     res_bind (edsm_task_init rt task_handler (edsm_memory_init pagesize s)) (\<lambda>(_, s1).
     res_bind (edsm_dobj_init rt dobj_handler mutex_get_0 s1) (\<lambda>(_, s2). Inr s2))"

text \<open>\<^verbatim>\<open>main\<close> after it has started the listener, up to its last loop; and from its beginning. The last loop is in
  \<open>Shutdown\<close>.\<close>

definition edsmd_start_up ::
    "nat \<Rightarrow> runtime \<Rightarrow> 'w os \<Rightarrow> nat \<Rightarrow> 'h \<Rightarrow> 'h
       \<Rightarrow> (('h, 'w, 'k, 'u, 'z) tasks_scheme \<Rightarrow> (nat \<times> ('h, 'w, 'k, 'u, 'z) tasks_scheme) res)
       \<Rightarrow> (byte list \<Rightarrow> 'l option) \<Rightarrow> ('l \<Rightarrow> 'u option) \<Rightarrow> bool \<Rightarrow> (byte list \<Rightarrow> int) \<Rightarrow> (byte list \<Rightarrow> byte list list option)
       \<Rightarrow> byte list list \<Rightarrow> ('h, 'w, 'k, 'u, 'z) tasks_scheme \<Rightarrow> ('h, 'w, 'k, 'u, 'z) tasks_scheme res" where
  "edsmd_start_up fuel rt os pagesize task_handler dobj_handler mutex_get_0 dlopen dlsym spawn_ok regexec opendir argv s1 =
     res_bind (if length argv > 4
         then res_bind (atoi (argv ! 4)) (\<lambda>port. edsm_proto_group_join fuel rt os (argv ! 3) (word_of_int port) s1)
         else Inr (SUCCESS, s1)) (\<lambda>(rtn, s2).
     if rtn = FAILURE then Inl Aborted else
     res_bind (edsmd_init rt pagesize task_handler dobj_handler mutex_get_0 s2) (\<lambda>s3.
     link_directory rt dlopen dlsym spawn_ok regexec opendir (argv ! 2) s3))"

definition edsmd_main ::
    "nat \<Rightarrow> runtime \<Rightarrow> 'w os \<Rightarrow> int \<Rightarrow> nat \<Rightarrow> 'h \<Rightarrow> 'h
       \<Rightarrow> (('h, 'w, 'k, 'u, 'z) tasks_scheme \<Rightarrow> (nat \<times> ('h, 'w, 'k, 'u, 'z) tasks_scheme) res)
       \<Rightarrow> (byte list \<Rightarrow> 'l option) \<Rightarrow> ('l \<Rightarrow> 'u option) \<Rightarrow> bool \<Rightarrow> (byte list \<Rightarrow> int) \<Rightarrow> (byte list \<Rightarrow> byte list list option)
       \<Rightarrow> byte list list \<Rightarrow> ('h, 'w, 'k, 'u, 'z) tasks_scheme \<Rightarrow> ('h, 'w, 'k, 'u, 'z) tasks_scheme res" where
  "edsmd_main fuel rt os rc pagesize task_handler dobj_handler mutex_get_0 dlopen dlsym spawn_ok regexec opendir argv s =
     (if length argv < 3 then Inl Aborted else
      res_bind (atoi (argv ! 1)) (\<lambda>listen_port.
      res_bind (edsm_proto_listener_init rc (word_of_int listen_port) s) (\<lambda>s1.
      edsmd_start_up fuel rt os pagesize task_handler dobj_handler mutex_get_0 dlopen dlsym spawn_ok regexec opendir argv s1)))"

section \<open>Lemmas\<close>

lemma takeWhile_string: "0 \<notin> set s \<Longrightarrow> takeWhile (\<lambda>b. b \<noteq> 0) (s @ 0 # rest) = s" for s :: "byte list"
  by (induction s) auto

lemma c_strlen_string: "0 \<notin> set s \<Longrightarrow> c_strlen (s @ 0 # rest) = Inr (length s)"
  by (simp add: c_strlen_def takeWhile_string)

lemma strncpy_fits: "length s < n \<Longrightarrow> strncpy s n = s @ 0 # replicate (n - length s - 1) 0"
  by (cases "n - length s") (simp_all add: strncpy_def replicate_Suc [symmetric] del: replicate_Suc)

lemma strncpy_full: "n \<le> length s \<Longrightarrow> strncpy s n = take n s"
  by (simp add: strncpy_def)

text \<open>The directory with a slash at its end.\<close>

definition slashed :: "byte list \<Rightarrow> byte list" where
  "slashed dir = (if last dir = 47 then dir else dir @ [47])"

lemma task_directory_ok:
  assumes "dir \<noteq> []" "0 \<notin> set dir" "length (slashed dir) < 128"
  obtains rest where "task_directory dir = Inr (slashed dir @ 0 # rest)"
proof (cases "last dir = 47")
  case True
  then have l: "length dir < 128" using assms(3) by (simp add: slashed_def)
  with True assms(1,2) show ?thesis
    by (intro that) (simp add: task_directory_def strncpy_fits c_strlen_string slashed_def nth_append last_conv_nth)
next
  case False
  then have l: "Suc (length dir) < 128" using assms(3) by (simp add: slashed_def)
  then have "strncpy dir 128 = dir @ 0 # 0 # replicate (128 - length dir - 2) 0"
    by (simp add: strncpy_fits Suc_diff_Suc [symmetric])
  with False assms(1,2) show ?thesis
    by (intro that) (simp add: task_directory_def c_strlen_string slashed_def nth_append last_conv_nth list_update_append)
qed

section \<open>Properties\<close>

text \<open>C36: the path of a task is the directory, with a slash if it has none, followed by the file name, exactly
  when they fit 127 characters; otherwise the program accesses memory outside its buffers.\<close>

theorem task_path_bounds:
  assumes "dir \<noteq> []" "0 \<notin> set dir" "0 \<notin> set name"
  shows "res_bind (task_directory dir) (\<lambda>path. res_bind (c_strlen path) (\<lambda>_.
       res_bind (task_file path name) (\<lambda>file_path. Inr (takeWhile (\<lambda>b. b \<noteq> 0) file_path))))
     = (if length (slashed dir) + length name < 128 then Inr (slashed dir @ name) else Inl OutOfBounds)"
proof (cases "length (slashed dir) < 128")
  case True
  then obtain rest where d: "task_directory dir = Inr (slashed dir @ 0 # rest)"
    using task_directory_ok [OF assms(1,2)] by blast
  have z: "0 \<notin> set (slashed dir)" using assms(2) by (simp add: slashed_def)
  let ?n = "length (slashed dir)"
  have f: "task_file (slashed dir @ 0 # rest) name
      = res_bind (check OutOfBounds (?n + min 128 (length name) + 1 \<le> 128)) (\<lambda>_.
        Inr (slashed dir @ take 128 name @ [0] @ drop (?n + min 128 (length name) + 1) (strncpy (slashed dir) 128)))"
    using True z by (simp add: task_file_def takeWhile_string strncat_def strncpy_fits c_strlen_string min.commute)
  show ?thesis
  proof (cases "?n + length name < 128")
    case fits: True
    have "takeWhile (\<lambda>b. b \<noteq> 0) ((slashed dir @ name) @ 0 # xs) = slashed dir @ name" for xs
      using z assms(3) by (intro takeWhile_string) simp
    with fits show ?thesis by (simp add: d c_strlen_string [OF z] f)
  next
    case False
    moreover have "0 < ?n" using assms(1) by (simp add: slashed_def)
    ultimately have "\<not> ?n + min 128 (length name) + 1 \<le> 128" by (simp add: min_def)
    then show ?thesis using False by (simp add: d c_strlen_string [OF z] f)
  qed
next
  case False
  show ?thesis
  proof (cases "length dir < 128")
    case True
    with False have l: "length dir = 127" "last dir \<noteq> 47" by (auto simp: slashed_def split: if_splits)
    then have "task_directory dir = Inr (dir @ [47])"
      using assms(1,2) by (simp add: task_directory_def strncpy_fits c_strlen_string nth_append last_conv_nth list_update_append)
    then show ?thesis using assms(2) False by (simp add: c_strlen_def)
  next
    case long: False
    then have "0 \<notin> set (strncpy dir 128)" using assms(2) by (auto simp: strncpy_full dest: in_set_takeD)
    with False show ?thesis by (simp add: task_directory_def c_strlen_def)
  qed
qed

text \<open>The handlers of tasks and objects are registered only after the node has joined its group: a message
  that arrives before is dropped without a trace; afterwards the handlers of both types, and no others, are
  found.\<close>

theorem handlers_registered_late:
  assumes rt: "enough_memory rt" and s: "message_handlers s = None"
    and lock: "\<And>u. mutex_get_0 u = Inr (a, g u)" "\<And>u. message_handlers (g u) = message_handlers u"
  shows "handle_message call m t peer s = Inr (FAILURE, s)
     \<and> (\<exists>s'. edsmd_init rt pagesize task_handler dobj_handler mutex_get_0 s = Inr s'
       \<and> handle_message call m t peer s' =
           (if t = MSG_TYPE_TASK then res_bind (call task_handler peer m s') (\<lambda>(_, u). Inr (SUCCESS, u))
            else if t = MSG_TYPE_DOBJ then res_bind (call dobj_handler peer m s') (\<lambda>(_, u). Inr (SUCCESS, u))
            else Inr (FAILURE, s')))"
proof
  let ?t = "(MSG_TYPE_TASK, task_handler)" let ?d = "(MSG_TYPE_DOBJ, dobj_handler)"
  let ?h0 = "message_handlers s" let ?h1 = "HASH_ADD handler_key ?h0 ?t"
  have 0: "uthash.keyed handler_key ?h0" "can_expand ?h0" "HASH_FIND handler_key ?h0 k = None" for k by (simp_all add: s)
  show "handle_message call m t peer s = Inr (FAILURE, s)" by (simp add: handle_message_def 0)
  have 1: "uthash.keyed handler_key ?h1" "HASH_FIND handler_key ?h1 k = (if k = handler_key ?t then Some ?t else None)" for k
    using uthash.keyed_add [OF 0] uthash.find_add [OF 0] 0(3) by simp_all
  have "can_expand ?h1"
    by (rule few_items_can_expand, rule few_items_add) (simp_all add: s)
  moreover have "HASH_FIND handler_key ?h1 (handler_key ?d) = None"
    unfolding 1(2) by (simp add: handler_key_def MSG_TYPE_TASK_def MSG_TYPE_DOBJ_def)
  ultimately have 2: "HASH_FIND handler_key (HASH_ADD handler_key ?h1 ?d) k
      = (if k = handler_key ?d then Some ?d else HASH_FIND handler_key ?h1 k)" for k
    by (intro uthash.find_add [OF 1(1)])
  let ?s1 = "(edsm_memory_init pagesize s)\<lparr>message_handlers := HASH_ADD handler_key ?h1 ?d\<rparr>"
  let ?s' = "(g ?s1)\<lparr>object_lock := Some a\<rparr>"
  have i: "edsmd_init rt pagesize task_handler dobj_handler mutex_get_0 s = Inr ?s'"
    using rt lock(1) by (simp add: edsmd_init_def edsm_task_init_def edsm_dobj_init_def edsm_proto_register_handler_def
        edsm_memory_init_def)
  have h: "message_handlers ?s' = HASH_ADD handler_key ?h1 ?d" by (simp add: lock(2))
  have "handle_message call m t peer ?s' =
           (if t = MSG_TYPE_TASK then res_bind (call task_handler peer m ?s') (\<lambda>(_, u). Inr (SUCCESS, u))
            else if t = MSG_TYPE_DOBJ then res_bind (call dobj_handler peer m ?s') (\<lambda>(_, u). Inr (SUCCESS, u))
            else Inr (FAILURE, ?s'))"
    unfolding handle_message_def h 2 1(2) by (simp add: handler_key_def MSG_TYPE_TASK_def MSG_TYPE_DOBJ_def)
  with i show "\<exists>s'. edsmd_init rt pagesize task_handler dobj_handler mutex_get_0 s = Inr s'
       \<and> handle_message call m t peer s' =
           (if t = MSG_TYPE_TASK then res_bind (call task_handler peer m s') (\<lambda>(_, u). Inr (SUCCESS, u))
            else if t = MSG_TYPE_DOBJ then res_bind (call dobj_handler peer m s') (\<lambda>(_, u). Inr (SUCCESS, u))
            else Inr (FAILURE, s'))" by blast
qed

lemma task_path_bounds_witness:
  "res_bind (task_directory [116]) (\<lambda>path. res_bind (c_strlen path) (\<lambda>_.
       res_bind (task_file path [97]) (\<lambda>file_path. Inr (takeWhile (\<lambda>b. b \<noteq> 0) file_path)))) = Inr [116, 47, 97]"
  using task_path_bounds [of "[116]" "[97]"] by (simp add: slashed_def)

lemma handlers_registered_late_witness:
  "\<exists>s'. edsmd_init good_runtime 4096 7 8 (\<lambda>u. Inr (0, u)) (task_node\<lparr>message_handlers := None\<rparr>) = Inr s'
     \<and> handle_message no_call (message_of []) MSG_TYPE_DOBJ 2 s' = Inr (SUCCESS, s')"
  using handlers_registered_late [OF enough_memory_good, of "task_node\<lparr>message_handlers := None\<rparr>" "\<lambda>u. Inr (0, u)" 0 "\<lambda>u. u"
      no_call "message_of []" MSG_TYPE_DOBJ 2 4096 7 8] by (auto simp: MSG_TYPE_TASK_def MSG_TYPE_DOBJ_def)

end
