(* ===== verification/Shutdown.thy ===== *)
theory Shutdown
  imports Edsmd "HOL-Library.Sublist"
begin

text \<open>
  How the program ends: the main thread of \<^verbatim>\<open>src/src/edsmd.c\<close>, the listener thread of
  \<^verbatim>\<open>src/src/protocol.c\<close> and the handler of signals, which share the variable \<^verbatim>\<open>running\<close>. A
  schedule is a list of the parties that take a step, at the granularity of the accesses to the variable. A signal ends the
  program of a node that has no peers and comes late enough; with peers it leads to a use of freed memory, and too early it is lost.
\<close>

section \<open>Threads\<close>

text \<open>Where the threads are: the main thread before and in its last loop; the listener before and in its loop; and the
  handler, which interrupts the main thread and waits in \<^verbatim>\<open>pthread_join\<close> first.\<close>

datatype main_pc = Starting_Up | Sleeping | Returned

datatype listener_pc = Opening | Listening | Ended

datatype handler_pc = No_Handler | Joining | Closing

record 's process =
  running_flag :: bool
  main_at :: main_pc
  listener_at :: listener_pc
  handler_at :: handler_pc
  was_joined :: bool
  listen_fd :: int
  node :: 's

datatype party = Main_Thread | Listener_Thread | Signal_Handler | Signal_Arrives

text \<open>A step is \<^term>\<open>None\<close> if the party has none to take. The argument \<open>start\<close> is the start-up,
  \<^const>\<open>edsmd_start_up\<close> with its parameters.\<close>

definition main_step :: "('s \<Rightarrow> 's res) \<Rightarrow> 's process \<Rightarrow> 's process res option" where
  "main_step start p =
     (if handler_at p \<noteq> No_Handler then None else
      case main_at p of
        Starting_Up \<Rightarrow> Some (res_bind (start (node p)) (\<lambda>s. Inr (p\<lparr>running_flag := True, main_at := Sleeping, node := s\<rparr>)))
      | Sleeping \<Rightarrow> if running_flag p then None else Some (Inr (p\<lparr>main_at := Returned\<rparr>))
      | Returned \<Rightarrow> None)"

definition listener_step ::
    "runtime \<Rightarrow> 'w os \<Rightarrow> (int list \<Rightarrow> int \<Rightarrow> 'w \<Rightarrow> (int \<times> int list) \<times> 'w) \<Rightarrow> ('h, 'w, 'z) call
       \<Rightarrow> ('h, 'w, 'z) proto_scheme process \<Rightarrow> ('h, 'w, 'z) proto_scheme process res option" where
  "listener_step rt os pselect call p =
     (let s = node p in
      case listener_at p of
        Opening \<Rightarrow> Some (
          res_bind (edsm_socket_listen os (listen_port s) 0 (world s)) (\<lambda>(listen_sock, w).
          if listen_sock = FAILURE then Inl AssertionFailed
          else Inr (p\<lparr>running_flag := True, listener_at := Listening, listen_fd := listen_sock, node := s\<lparr>world := w\<rparr>\<rparr>)))
      | Listening \<Rightarrow> Some (
          if running_flag p then
            res_bind (listen_iteration rt os pselect call (listen_fd p) s) (\<lambda>(st, s1).
            Inr (case st of
                Running \<Rightarrow> p\<lparr>node := s1\<rparr>
              | Stopped \<Rightarrow> p\<lparr>running_flag := False, node := s1\<rparr>
              | Failed \<Rightarrow> p\<lparr>listener_at := Ended, node := s1\<rparr>))
          else res_bind (destroy_peers (HASH_ITER (peers s)) s) (\<lambda>s1. Inr (p\<lparr>listener_at := Ended, node := s1\<rparr>)))
      | Ended \<Rightarrow> None)"

text \<open>\<^verbatim>\<open>shutdown_handler\<close> and, within it, \<^verbatim>\<open>edsm_proto_shutdown\<close>. A second signal would join the thread again,
  which has ceased to exist.\<close>

definition shutdown_handler :: "'s process \<Rightarrow> 's process res option" where
  "shutdown_handler p =
     (if handler_at p \<noteq> No_Handler then None
      else if was_joined p then Some (Inl UseAfterFree)
      else Some (Inr (p\<lparr>running_flag := False, handler_at := Joining\<rparr>)))"

definition handler_step ::
    "'w os \<Rightarrow> ('h, 'w, 'z) proto_scheme process \<Rightarrow> ('h, 'w, 'z) proto_scheme process res option" where
  "handler_step os p =
     (case handler_at p of
        No_Handler \<Rightarrow> None
      | Joining \<Rightarrow> if listener_at p = Ended then Some (Inr (p\<lparr>handler_at := Closing, was_joined := True\<rparr>)) else None
      | Closing \<Rightarrow> Some (Inr (p\<lparr>running_flag := False, handler_at := No_Handler,
          node := (node p)\<lparr>world := os_close os (listen_fd p) (world (node p))\<rparr>\<rparr>)))"

definition process_step ::
    "runtime \<Rightarrow> 'w os \<Rightarrow> (int list \<Rightarrow> int \<Rightarrow> 'w \<Rightarrow> (int \<times> int list) \<times> 'w) \<Rightarrow> ('h, 'w, 'z) call
       \<Rightarrow> (('h, 'w, 'z) proto_scheme \<Rightarrow> ('h, 'w, 'z) proto_scheme res) \<Rightarrow> party
       \<Rightarrow> ('h, 'w, 'z) proto_scheme process \<Rightarrow> ('h, 'w, 'z) proto_scheme process res option" where
  "process_step rt os pselect call start e p =
     (if main_at p = Returned then None else
      case e of
        Main_Thread \<Rightarrow> main_step start p
      | Listener_Thread \<Rightarrow> listener_step rt os pselect call p
      | Signal_Handler \<Rightarrow> handler_step os p
      | Signal_Arrives \<Rightarrow> shutdown_handler p)"

text \<open>A party that cannot move is passed over.\<close>

fun run_process ::
    "runtime \<Rightarrow> 'w os \<Rightarrow> (int list \<Rightarrow> int \<Rightarrow> 'w \<Rightarrow> (int \<times> int list) \<times> 'w) \<Rightarrow> ('h, 'w, 'z) call
       \<Rightarrow> (('h, 'w, 'z) proto_scheme \<Rightarrow> ('h, 'w, 'z) proto_scheme res) \<Rightarrow> party list
       \<Rightarrow> ('h, 'w, 'z) proto_scheme process \<Rightarrow> ('h, 'w, 'z) proto_scheme process res" where
  "run_process rt os pselect call start [] p = Inr p"
| "run_process rt os pselect call start (e # es) p =
     (case process_step rt os pselect call start e p of
        None \<Rightarrow> run_process rt os pselect call start es p
      | Some r \<Rightarrow> res_bind r (run_process rt os pselect call start es))"

section \<open>Progress\<close>

lemma run_none:
  "(\<And>e. e \<in> set es \<Longrightarrow> process_step rt os pselect call start e p = None) \<Longrightarrow> run_process rt os pselect call start es p = Inr p"
  by (induction es) auto

text \<open>If only one party can move, the run waits for it.\<close>

lemma run_wait:
  assumes "\<And>f. f \<noteq> e \<Longrightarrow> f \<noteq> Signal_Arrives \<Longrightarrow> process_step rt os pselect call start f p = None"
    and "process_step rt os pselect call start e p = Some r"
    and "subseq (e # fs) es" "Signal_Arrives \<notin> set es"
  shows "\<exists>es'. run_process rt os pselect call start es p = res_bind r (run_process rt os pselect call start es')
    \<and> subseq fs es' \<and> Signal_Arrives \<notin> set es'"
  using assms(3,4)
proof (induction es rule: list.induct)
  case (Cons x es)
  show ?case
  proof (cases "x = e")
    case True
    with Cons.prems have "subseq fs es" by simp
    with True assms(2) Cons.prems(2) show ?thesis by auto
  next
    case False
    with Cons.prems have "subseq (e # fs) es" "Signal_Arrives \<notin> set es" "x \<noteq> Signal_Arrives" by auto
    with Cons.IH False assms(1) show ?thesis by simp
  qed
qed simp

lemmas party_steps = process_step_def main_step_def listener_step_def handler_step_def shutdown_handler_def

section \<open>Properties\<close>

text \<open>C16: what a signal does, once the main thread is in its last loop and the listener in its own. Whatever
  the threads do in whatever order, if each gets to take its steps: if the node has no peers, the listener ends first, its
  socket is closed, and the main thread returns; if it has any, the process faults, because the loop of the listener
  that destroys the peers uses the first one after it has freed it.\<close>

theorem signal_outcome:
  assumes p: "main_at p = Sleeping" "listener_at p = Listening" "handler_at p = No_Handler" "\<not> was_joined p"
    and es: "subseq [Listener_Thread, Signal_Handler, Signal_Handler, Main_Thread] es" "Signal_Arrives \<notin> set es"
  shows "run_process rt os pselect call start (Signal_Arrives # es) p =
    (if HASH_ITER (peers (node p)) = []
     then Inr (p\<lparr>running_flag := False, main_at := Returned, listener_at := Ended, was_joined := True,
        node := (node p)\<lparr>world := os_close os (listen_fd p) (world (node p))\<rparr>\<rparr>)
     else Inl UseAfterFree)"
proof -
  let ?run = "run_process rt os pselect call start" let ?d = "destroy_peers (HASH_ITER (peers (node p))) (node p)"
  let ?a = "p\<lparr>running_flag := False, handler_at := Joining\<rparr>"
  let ?step = "process_step rt os pselect call start"
  note wait = run_wait [where rt = rt and os = os and pselect = pselect and call = call and start = start]
  have a: "?step Listener_Thread ?a = Some (res_bind ?d (\<lambda>s. Inr (?a\<lparr>listener_at := Ended, node := s\<rparr>)))"
    using p by (simp add: party_steps Let_def)
  have oa: "?step f ?a = None" if "f \<noteq> Listener_Thread" "f \<noteq> Signal_Arrives" for f using that p by (cases f) (simp_all add: party_steps)
  obtain es1 where 1: "?run es ?a = res_bind (res_bind ?d (\<lambda>s. Inr (?a\<lparr>listener_at := Ended, node := s\<rparr>))) (?run es1)"
    "subseq [Signal_Handler, Signal_Handler, Main_Thread] es1" "Signal_Arrives \<notin> set es1"
    using wait [OF oa a es] by blast
  have "?run es1 (?a\<lparr>listener_at := Ended, node := s\<rparr>)
      = Inr (p\<lparr>running_flag := False, main_at := Returned, listener_at := Ended, was_joined := True,
          node := s\<lparr>world := os_close os (listen_fd p) (world s)\<rparr>\<rparr>)" for s
  proof -
    let ?b = "?a\<lparr>listener_at := Ended, node := s\<rparr>" let ?c = "?b\<lparr>handler_at := Closing, was_joined := True\<rparr>"
    let ?e = "?c\<lparr>handler_at := No_Handler, node := s\<lparr>world := os_close os (listen_fd p) (world s)\<rparr>\<rparr>"
    have b: "?step Signal_Handler ?b = Some (Inr ?c)" using p by (simp add: party_steps)
    have ob: "?step f ?b = None" if "f \<noteq> Signal_Handler" "f \<noteq> Signal_Arrives" for f using that p by (cases f) (simp_all add: party_steps)
    have c: "?step Signal_Handler ?c = Some (Inr ?e)" using p by (simp add: party_steps)
    have oc: "?step f ?c = None" if "f \<noteq> Signal_Handler" "f \<noteq> Signal_Arrives" for f using that p by (cases f) (simp_all add: party_steps)
    have e: "?step Main_Thread ?e = Some (Inr (?e\<lparr>main_at := Returned\<rparr>))" using p by (simp add: party_steps)
    have oe: "?step f ?e = None" if "f \<noteq> Main_Thread" "f \<noteq> Signal_Arrives" for f using that p by (cases f) (simp_all add: party_steps)
    obtain es2 where 2: "?run es1 ?b = ?run es2 ?c" "subseq [Signal_Handler, Main_Thread] es2" "Signal_Arrives \<notin> set es2"
      using wait [OF ob b 1(2,3)] by auto
    obtain es3 where 3: "?run es2 ?c = ?run es3 ?e" "subseq [Main_Thread] es3" "Signal_Arrives \<notin> set es3"
      using wait [OF oc c 2(2,3)] by auto
    obtain es4 where 4: "?run es3 ?e = ?run es4 (?e\<lparr>main_at := Returned\<rparr>)"
      using wait [OF oe e 3(2,3)] by auto
    have "?run es4 (?e\<lparr>main_at := Returned\<rparr>) = Inr (?e\<lparr>main_at := Returned\<rparr>)"
      by (rule run_none) (simp add: process_step_def)
    with 2(1) 3(1) 4 p(3) show ?thesis by simp
  qed
  moreover have "?run (Signal_Arrives # es) p = ?run es ?a" using p by (simp add: party_steps)
  ultimately show ?thesis using 1(1) by (simp add: destroy_peers_eq)
qed

text \<open>C38: a signal that arrives before the main thread has set \<^verbatim>\<open>running\<close> or before the listener has is
  lost: the later assignment overwrites the one of the handler, and the program never returns, whatever the threads do
  afterwards (as long as no peer leaves and \<^verbatim>\<open>pselect\<close> works).\<close>

theorem early_signal_lost:
  assumes p: "main_at p = Starting_Up \<or> main_at p = Sleeping \<and> listener_at p = Opening" "handler_at p = No_Handler" "\<not> was_joined p"
    and es: "Signal_Arrives \<notin> set es"
    and alive: "\<And>fd s st s'. listen_iteration rt os pselect call fd s = Inr (st, s') \<Longrightarrow> st = Running"
  shows "case run_process rt os pselect call start (Signal_Arrives # es) p of Inl e \<Rightarrow> True | Inr p' \<Rightarrow> main_at p' \<noteq> Returned"
proof -
  let ?run = "run_process rt os pselect call start"
  define stuck where "stuck p \<longleftrightarrow>
      (main_at p = Starting_Up \<and> (handler_at p = Joining \<or> listener_at p = Ended))
    \<or> (main_at p = Sleeping \<and> handler_at p = Joining \<and> (listener_at p = Opening \<or> listener_at p = Listening \<and> running_flag p))
    \<or> (main_at p = Sleeping \<and> handler_at p = No_Handler \<and> listener_at p = Ended \<and> running_flag p)" for p :: "('a, 'b, 'c) proto_scheme process"
  have main: "stuck p'" if "stuck p" "process_step rt os pselect call start Main_Thread p = Some (Inr p')" for p p'
    using that by (cases "main_at p"; cases "handler_at p") (auto simp: stuck_def process_step_def main_step_def split: if_splits)
  have handler: "stuck p'" if "stuck p" "process_step rt os pselect call start Signal_Handler p = Some (Inr p')" for p p'
    using that by (cases "main_at p"; cases "handler_at p") (auto simp: stuck_def process_step_def handler_step_def split: if_splits)
  have listener: "stuck p'" if s: "stuck p" and l: "process_step rt os pselect call start Listener_Thread p = Some (Inr p')" for p p'
  proof (cases "listener_at p")
    case Opening
    with l have "main_at p' = main_at p" "handler_at p' = handler_at p" "listener_at p' = Listening" "running_flag p'"
      by (auto simp: process_step_def listener_step_def Let_def split: if_splits)
    with s Opening show ?thesis by (auto simp: stuck_def)
  next
    case Listening
    show ?thesis
    proof (cases "running_flag p")
      case True
      with l Listening obtain st s1 where "listen_iteration rt os pselect call (listen_fd p) (node p) = Inr (st, s1)"
        "p' = (case st of Running \<Rightarrow> p\<lparr>node := s1\<rparr> | Stopped \<Rightarrow> p\<lparr>running_flag := False, node := s1\<rparr>
           | Failed \<Rightarrow> p\<lparr>listener_at := Ended, node := s1\<rparr>)"
        by (auto simp: process_step_def listener_step_def Let_def split: if_splits)
      with alive have "p' = p\<lparr>node := s1\<rparr>" by fastforce
      with s show ?thesis by (auto simp: stuck_def)
    next
      case False
      with l Listening have "main_at p' = main_at p" "listener_at p' = Ended"
        by (auto simp: process_step_def listener_step_def Let_def split: if_splits)
      with s Listening False show ?thesis by (auto simp: stuck_def)
    qed
  next
    case Ended
    with l show ?thesis by (simp add: process_step_def listener_step_def Let_def split: if_splits)
  qed
  have step: "stuck p'" if "stuck p" "e \<noteq> Signal_Arrives" "process_step rt os pselect call start e p = Some (Inr p')" for p p' e
    using that main handler listener by (cases e) blast+
  have "case ?run es p of Inl e \<Rightarrow> True | Inr p' \<Rightarrow> stuck p'" if "stuck p" for p
    using that es
  proof (induction es arbitrary: p)
    case (Cons e es)
    from Cons.prems(2) have e: "e \<noteq> Signal_Arrives" "Signal_Arrives \<notin> set es" by auto
    show ?case
    proof (cases "process_step rt os pselect call start e p")
      case None
      then show ?thesis using Cons.IH [OF Cons.prems(1) e(2)] by simp
    next
      case (Some r)
      show ?thesis
      proof (cases r)
        case (Inr q)
        with Some have "stuck q" using step [OF Cons.prems(1) e(1)] by simp
        from Cons.IH [OF this e(2)] Some Inr show ?thesis by simp
      qed (simp add: Some)
    qed
  qed simp
  moreover have "?run (Signal_Arrives # es) p = ?run es (p\<lparr>running_flag := False, handler_at := Joining\<rparr>)"
    using p by (auto simp: party_steps)
  moreover have "stuck (p\<lparr>running_flag := False, handler_at := Joining\<rparr>)" using p by (auto simp: stuck_def)
  moreover have "main_at p' \<noteq> Returned" if "stuck p'" for p' using that by (auto simp: stuck_def)
  ultimately show ?thesis by (fastforce split: sum.splits)
qed

text \<open>A node without peers, for the concrete instances.\<close>

definition lone_process :: "main_pc \<Rightarrow> (nat, int \<Rightarrow> byte list) proto process" where
  "lone_process m = \<lparr>running_flag = True, main_at = m, listener_at = Listening, handler_at = No_Handler, was_joined = False,
     listen_fd = 3, node = lone_node\<rparr>"

text \<open>A node without peers, and one with two.\<close>

lemma signal_outcome_witness:
  "(\<exists>p'. run_process good_runtime tape_os (\<lambda>_ _ w. ((0, []), w)) no_call Inr
        [Signal_Arrives, Signal_Handler, Main_Thread, Listener_Thread, Main_Thread, Signal_Handler, Signal_Handler, Main_Thread]
       (lone_process Sleeping) = Inr p' \<and> main_at p' = Returned)
   \<and> run_process good_runtime tape_os (\<lambda>_ _ w. ((0, []), w)) no_call Inr
        [Signal_Arrives, Listener_Thread, Signal_Handler, Signal_Handler, Main_Thread]
       ((lone_process Sleeping)\<lparr>node := member\<rparr>) = Inl UseAfterFree"
proof
  have "subseq [Listener_Thread, Signal_Handler, Signal_Handler, Main_Thread]
      [Signal_Handler, Main_Thread, Listener_Thread, Main_Thread, Signal_Handler, Signal_Handler, Main_Thread]" by simp
  from signal_outcome [OF _ _ _ _ this, of "lone_process Sleeping" good_runtime tape_os "\<lambda>_ _ w. ((0, []), w)" no_call Inr]
  show "\<exists>p'. run_process good_runtime tape_os (\<lambda>_ _ w. ((0, []), w)) no_call Inr
        [Signal_Arrives, Signal_Handler, Main_Thread, Listener_Thread, Main_Thread, Signal_Handler, Signal_Handler, Main_Thread]
       (lone_process Sleeping) = Inr p' \<and> main_at p' = Returned"
    by (simp add: lone_process_def lone_node_def)
  have "HASH_ITER (peers member) \<noteq> []" using member_listens(3) by auto
  with signal_outcome [of "(lone_process Sleeping)\<lparr>node := member\<rparr>"
      "[Listener_Thread, Signal_Handler, Signal_Handler, Main_Thread]" good_runtime tape_os "\<lambda>_ _ w. ((0, []), w)" no_call Inr]
  show "run_process good_runtime tape_os (\<lambda>_ _ w. ((0, []), w)) no_call Inr
        [Signal_Arrives, Listener_Thread, Signal_Handler, Signal_Handler, Main_Thread]
       ((lone_process Sleeping)\<lparr>node := member\<rparr>) = Inl UseAfterFree"
    by (simp add: lone_process_def)
qed

lemma early_signal_lost_witness:
  "\<exists>p'. run_process good_runtime tape_os (\<lambda>_ _ w. ((0, []), w)) no_call Inr [Signal_Arrives, Listener_Thread, Signal_Handler, Signal_Handler, Main_Thread, Main_Thread]
       (lone_process Starting_Up) = Inr p' \<and> main_at p' \<noteq> Returned"
proof -
  let ?run = "run_process good_runtime tape_os (\<lambda>_ _ w. ((0, []), w)) no_call Inr [Signal_Arrives, Listener_Thread, Signal_Handler, Signal_Handler, Main_Thread, Main_Thread]
       (lone_process Starting_Up)"
  have "st = Running" if "listen_iteration good_runtime tape_os (\<lambda>_ _ w. ((0, []), w)) no_call fd s = Inr (st, s')"
    for fd st and s s' :: "(nat, int \<Rightarrow> byte list) proto"
    using that by (auto simp: listen_iteration_def Let_def)
  from early_signal_lost [OF _ _ _ _ this, of "lone_process Starting_Up" "[Listener_Thread, Signal_Handler, Signal_Handler, Main_Thread, Main_Thread]"]
  have "case ?run of Inl e \<Rightarrow> True | Inr p' \<Rightarrow> main_at p' \<noteq> Returned" by (simp add: lone_process_def)
  moreover have "\<exists>p'. ?run = Inr p'" by (simp add: party_steps lone_process_def lone_node_def Let_def)
  ultimately show ?thesis by auto
qed

end
