(* ===== verification/Object_Lookup.thy ===== *)
theory Object_Lookup
  imports Dobj "HOL-Library.Multiset"
begin

text \<open>
  Looking an object up across nodes, from the call of \<^verbatim>\<open>edsm_dobj_get\<close> to its return: the request
  goes to every peer, each peer answers and remembers the requester, and the answers, in whatever order they
  arrive, release the caller, who then knows the holders. The operations are those of \<open>Dobj\<close>.
\<close>

section \<open>Tables of objects\<close>

text \<open>A table of live objects with different ids; addresses from \<open>obj_brk\<close> on are free.\<close>

definition wf_objects :: "('h, 'w, 'k, 'z) dobjs_scheme \<Rightarrow> bool" where
  "wf_objects s \<longleftrightarrow> uthash.keyed (obj_key (obj_mem s)) (objects s)
     \<and> (\<forall>a \<in> set (HASH_ITER (objects s)). obj_mem s a \<noteq> None) \<and> (\<forall>a \<ge> obj_brk s. obj_mem s a = None)"

lemma find_obj_live:
  assumes "wf_objects s" "find_obj s i = Some a"
  obtains ob where "obj_mem s a = Some ob" "obj_id ob = i" "a \<in> set (HASH_ITER (objects s))"
proof -
  have "a \<in> set (HASH_ITER (objects s)) \<and> obj_key (obj_mem s) a = bytes_of_u32 i"
    using assms uthash.find_iff [of "obj_key (obj_mem s)" "objects s" "bytes_of_u32 i" a] by (simp add: wf_objects_def find_obj_def)
  moreover from this assms(1) obtain ob where "obj_mem s a = Some ob" by (auto simp: wf_objects_def)
  ultimately show ?thesis by (intro that [of ob]) (simp_all add: obj_key_def)
qed

text \<open>Only the ids of the objects matter.\<close>

lemma obj_key_put: "obj_mem s a = Some ob \<Longrightarrow> obj_id ob' = obj_id ob \<Longrightarrow> obj_key ((obj_mem s)(a \<mapsto> ob')) = obj_key (obj_mem s)"
  by (auto simp: obj_key_def fun_eq_iff)

lemma put_obj_wf:
  assumes "obj_mem s a = Some ob" "obj_id ob' = obj_id ob"
  shows "wf_objects (put_obj s a ob') = wf_objects s" "find_obj (put_obj s a ob') = find_obj s"
proof -
  have k: "obj_key ((obj_mem s)(a \<mapsto> ob')) = obj_key (obj_mem s)" by (rule obj_key_put [OF assms])
  show "find_obj (put_obj s a ob') = find_obj s" by (rule ext) (simp add: find_obj_def put_obj_def k)
  show "wf_objects (put_obj s a ob') = wf_objects s"
    using assms(1) by (auto simp: wf_objects_def put_obj_def k)
qed

lemma wf_objects_world [simp]: "wf_objects (s\<lparr>world := w\<rparr>) = wf_objects s"
  by (simp add: wf_objects_def)

text \<open>A new object, put into the table at a free address.\<close>

definition add_object :: "'k edsm_dobj \<Rightarrow> ('h, 'w, 'k, 'z) dobjs_scheme \<Rightarrow> ('h, 'w, 'k, 'z) dobjs_scheme" where
  "add_object ob s =
     (let s1 = (put_obj s (obj_brk s) ob)\<lparr>obj_brk := Suc (obj_brk s)\<rparr>
      in s1\<lparr>objects := HASH_ADD (obj_key (obj_mem s1)) (objects s1) (obj_brk s)\<rparr>)"

lemma add_object_ok:
  assumes wf: "wf_objects s" "can_expand (objects s)" and new: "find_obj s (obj_id ob) = None"
  shows "wf_objects (add_object ob s)"
    "find_obj (add_object ob s) i = (if i = obj_id ob then Some (obj_brk s) else find_obj s i)"
    "HASH_ITER (objects (add_object ob s)) = HASH_ITER (objects s) @ [obj_brk s]"
proof -
  let ?a = "obj_brk s" let ?mem = "(obj_mem s)(?a \<mapsto> ob)"
  have f: "obj_mem (add_object ob s) = ?mem" "obj_brk (add_object ob s) = Suc ?a"
    "objects (add_object ob s) = HASH_ADD (obj_key ?mem) (objects s) ?a"
    by (simp_all add: add_object_def put_obj_def Let_def)
  have free: "obj_mem s ?a = None" using wf(1) by (simp add: wf_objects_def)
  have keys: "obj_key ?mem b = obj_key (obj_mem s) b" if "b \<in> set (HASH_ITER (objects s))" for b
  proof -
    have "b \<noteq> ?a" using that wf(1) free by (auto simp: wf_objects_def)
    then show ?thesis by (simp add: obj_key_def)
  qed
  have k0: "uthash.keyed (obj_key (obj_mem s)) (objects s)" using wf(1) by (simp add: wf_objects_def)
  have k: "uthash.keyed (obj_key ?mem) (objects s)" "HASH_FIND (obj_key ?mem) (objects s) j
      = HASH_FIND (obj_key (obj_mem s)) (objects s) j" for j
    using keyed_cong [OF keys k0] by simp_all
  have key: "obj_key ?mem ?a = bytes_of_u32 (obj_id ob)" by (simp add: obj_key_def)
  have nf: "HASH_FIND (obj_key ?mem) (objects s) (obj_key ?mem ?a) = None"
    using new k(2) key by (simp add: find_obj_def)
  have k2: "uthash.keyed (obj_key ?mem) (HASH_ADD (obj_key ?mem) (objects s) ?a)"
    by (rule uthash.keyed_add [OF k(1) wf(2) nf])
  show it: "HASH_ITER (objects (add_object ob s)) = HASH_ITER (objects s) @ [?a]"
    using uthash.items_add [OF _ wf(2)] k(1) by (simp add: uthash.keyed_def f)
  show "find_obj (add_object ob s) i = (if i = obj_id ob then Some ?a else find_obj s i)"
    using uthash.find_add [OF k(1) wf(2) nf, of "bytes_of_u32 i"] key k(2) by (simp add: find_obj_def f)
  show "wf_objects (add_object ob s)" using k2 it wf(1) by (auto simp: wf_objects_def f)
qed

section \<open>The request\<close>

lemma peer_ids_eq:
  assumes "wf_peers s"
  shows "edsm_proto_get_peer_ids s = Inr (ids_of s)"
proof -
  have "peer_ids s ps = Inr (map (peer_id \<circ> peer_of s) ps)" if "\<forall>p \<in> set ps. peer_mem s p \<noteq> None" for ps
    using that by (induction ps) (auto simp: peer_at_def peer_of_def)
  then show ?thesis using assms by (simp add: edsm_proto_get_peer_ids_def ids_of_def wf_peers_def)
qed

lemma send_get_ok:
  assumes rt: "enough_memory rt" and c: "connected s" "accepts os written"
  shows "\<exists>w. edsm_dobj_send_get rt os call i s = Inr (SUCCESS, s\<lparr>world := w\<rparr>)
     \<and> (\<forall>p. out written (s\<lparr>world := w\<rparr>) p
          = out written s p @ (if p \<in> set (ids_of s) then frame MSG_TYPE_DOBJ (get_content i) else []))"
proof -
  have "unat (8 :: u32) < 2 ^ 31" by simp
  with rt obtain m where m: "new_message rt 8 = Inr m" "holds m []" "used m = 0" by (rule new_message_ok)
  obtain m1 where m1: "write_u32s rt m [DOBJ_MSG_TYPE_GET, i] = Inr m1" "holds m1 (get_content i)"
    using write_u32s_ok [OF rt m(2), of "[DOBJ_MSG_TYPE_GET, i]"] m(3) by (auto simp: get_content_def)
  have "get_content i \<noteq> []" by (simp add: get_content_def bytes_of_u32_def)
  from edsm.to_all [OF conjI [OF c] m1(2) this, of rt call MSG_TYPE_DOBJ "world s"] obtain s' where
    s': "edsm_proto_send rt os call 0 MSG_TYPE_DOBJ m1 s = Inr (SUCCESS, s')"
      "s'\<lparr>world := world s\<rparr> = s\<lparr>world := world s\<rparr>"
      "\<forall>p. out written s' p = (if p \<in> set (ids_of s) then out written s p @ frame MSG_TYPE_DOBJ (get_content i) else out written s p)"
    by blast
  have e: "s' = s\<lparr>world := world s'\<rparr>" by (rule same_rest [OF s'(2)])
  have "edsm_dobj_send_get rt os call i s = Inr (SUCCESS, s')"
    by (simp add: edsm_dobj_send_get_def m(1) m1(1) s'(1))
  with s'(3) e show ?thesis by (intro exI [of _ "world s'"]) simp
qed

text \<open>The object as \<^verbatim>\<open>edsm_dobj_get\<close> leaves it while it waits.\<close>

definition waiting_object :: "u32 \<Rightarrow> 'k \<Rightarrow> obj_body \<Rightarrow> u32 list \<Rightarrow> 'k edsm_dobj" where
  "waiting_object i handler blank ids = \<lparr>obj_id = i, ref_count = 0, inited = 0, obj_handler = handler, obj_peers = [],
     obj_waiter = ids, body = blank\<rparr>"

lemma get_start_ok:
  assumes rt: "enough_memory rt" and c: "connected s" "accepts os written"
    and wf: "wf_objects s" "can_expand (objects s)" and new: "find_obj s i = None" "sizeof_edsm_dobj \<le> sz"
  shows "\<exists>s1. edsm_dobj_get_start rt os call i sz blank h s = Inr (obj_brk s, True, s1)
     \<and> obj_mem s1 = (obj_mem s)(obj_brk s \<mapsto> waiting_object i h blank (ids_of s)) \<and> find_obj s1 i = Some (obj_brk s)
     \<and> connected s1 \<and> ids_of s1 = ids_of s \<and> wf_objects s1
     \<and> (\<forall>p. out written s1 p
          = out written s p @ (if p \<in> set (ids_of s) then frame MSG_TYPE_DOBJ (get_content i) else []))"
proof -
  let ?a = "obj_brk s" let ?ob = "waiting_object i h blank []"
  let ?s2 = "add_object ?ob s"
  let ?s3 = "put_obj ?s2 ?a (waiting_object i h blank (ids_of s))"
  have n: "find_obj s (obj_id ?ob) = None" using new(1) by (simp add: waiting_object_def)
  have w2: "wf_objects ?s2" "find_obj ?s2 i = Some ?a"
    using add_object_ok [OF wf n] by (simp_all add: waiting_object_def)
  have ob2: "obj_mem ?s2 ?a = Some ?ob" by (simp add: add_object_def put_obj_def Let_def)
  have id: "obj_id (waiting_object i h blank (ids_of s)) = obj_id ?ob" by (simp add: waiting_object_def)
  have w3: "wf_objects ?s3" "find_obj ?s3 i = Some ?a"
    using put_obj_wf [OF ob2 id] w2 by simp_all
  have same: "connected ?s2 = connected s" "ids_of ?s2 = ids_of s" "wf_peers ?s2 = wf_peers s" "out written ?s2 = out written s"
    by (simp_all add: add_object_def put_obj_def Let_def connected_def wf_peers_def ids_of_def peer_of_def [abs_def] out_def find_peer_def fun_eq_iff
        split: option.splits)
  have wp: "wf_peers ?s2" using c(1) same by (simp add: connected_def)
  have c3: "connected ?s3" "ids_of ?s3 = ids_of s" using c(1) same by simp_all
  from send_get_ok [OF rt c3(1) c(2), of call i] obtain w where
    w: "edsm_dobj_send_get rt os call i ?s3 = Inr (SUCCESS, ?s3\<lparr>world := w\<rparr>)"
      "\<forall>p. out written (?s3\<lparr>world := w\<rparr>) p
          = out written ?s3 p @ (if p \<in> set (ids_of ?s3) then frame MSG_TYPE_DOBJ (get_content i) else [])"
    by blast
  have "malloc rt sz \<noteq> None" using rt by simp
  have "edsm_dobj_get_start rt os call i sz blank h s = Inr (?a, True, ?s3\<lparr>world := w\<rparr>)"
    using new rt w(1) peer_ids_eq [OF wp] same(2)
    by (simp add: edsm_dobj_get_start_def add_object_def put_obj_def waiter_create_def waiter_set_wait_on_def Let_def waiting_object_def)
  moreover have "obj_mem (?s3\<lparr>world := w\<rparr>) = (obj_mem s)(?a \<mapsto> waiting_object i h blank (ids_of s))"
    by (simp add: add_object_def put_obj_def Let_def)
  ultimately show ?thesis
    using w3 c3 w(2) same(4) by (intro exI [of _ "?s3\<lparr>world := w\<rparr>"]) simp
qed

section \<open>The answers\<close>

definition have_reference :: "('h, 'w, 'k, 'z) dobjs_scheme \<Rightarrow> u32 \<Rightarrow> u32" where
  "have_reference s i = (if find_obj s i = None then 0 else 1)"

text \<open>Messages handled one after another, each with its sender.\<close>

fun handle_each :: "(u32 \<Rightarrow> edsm_message \<Rightarrow> 's \<Rightarrow> (int \<times> 's) res) \<Rightarrow> (u32 \<times> edsm_message) list \<Rightarrow> 's \<Rightarrow> 's res" where
  "handle_each handle [] s = Inr s"
| "handle_each handle ((p, m) # ms) s = res_bind (handle p m s) (\<lambda>(_, s'). handle_each handle ms s')"

lemma add_peer_reference_in [simp]: "p \<in> set (obj_peers (add_peer_reference p ob))"
  by (simp add: add_peer_reference_def)

lemma replies_handled:
  assumes "wf_objects s" "find_obj s i = Some a" "obj_mem s a = Some ob"
    and "\<forall>(p, m) \<in> set ms. holds m (get_reply_content i (have p))"
  shows "\<exists>s' ob'. handle_each (edsm_dobj_handle_message rt os call call_obj) ms s = Inr s' \<and> obj_mem s' a = Some ob'
     \<and> wf_objects s' \<and> find_obj s' i = Some a \<and> ids_of s' = ids_of s \<and> connected s' = connected s
     \<and> set (obj_peers ob') = set (obj_peers ob) \<union> {p \<in> fst ` set ms. have p \<noteq> 0}
     \<and> (distinct (obj_peers ob) \<longrightarrow> distinct (obj_peers ob')) \<and> mset (obj_waiter ob') = mset (obj_waiter ob) - mset (map fst ms)
     \<and> body ob' = body ob \<and> inited ob' = inited ob"
  using assms
proof (induction ms arbitrary: s ob)
  case Nil
  then show ?case by auto
next
  case (Cons pm ms)
  obtain p m where [simp]: "pm = (p, m)" by fastforce
  from Cons.prems(4) have m: "holds m (get_reply_content i (have p))" by simp
  from dobj_get_reply_handled [OF m Cons.prems(2,3), of rt os call call_obj p] obtain rc ob1 where
    1: "edsm_dobj_handle_message rt os call call_obj p m s = Inr (rc, put_obj s a ob1)"
      "set (obj_peers ob1) = (if have p = 0 then set (obj_peers ob) else insert p (set (obj_peers ob)))"
      "distinct (obj_peers ob) \<longrightarrow> distinct (obj_peers ob1)" "obj_waiter ob1 = remove1 p (obj_waiter ob)"
      "body ob1 = body ob" "inited ob1 = inited ob" "obj_id ob1 = obj_id ob"
    by blast
  note wf = put_obj_wf [OF Cons.prems(3) 1(7)]
  have s1: "wf_objects (put_obj s a ob1)" "find_obj (put_obj s a ob1) i = Some a" "obj_mem (put_obj s a ob1) a = Some ob1"
    using wf Cons.prems(1,2) by simp_all
  from Cons.IH [OF s1] Cons.prems(4) obtain s' ob' where
    2: "handle_each (edsm_dobj_handle_message rt os call call_obj) ms (put_obj s a ob1) = Inr s'" "obj_mem s' a = Some ob'"
      "wf_objects s'" "find_obj s' i = Some a" "ids_of s' = ids_of s" "connected s' = connected s"
      "set (obj_peers ob') = set (obj_peers ob1) \<union> {p \<in> fst ` set ms. have p \<noteq> 0}"
      "distinct (obj_peers ob1) \<longrightarrow> distinct (obj_peers ob')" "mset (obj_waiter ob') = mset (obj_waiter ob1) - mset (map fst ms)"
      "body ob' = body ob1" "inited ob' = inited ob1"
    by auto
  have "set (obj_peers ob') = set (obj_peers ob) \<union> {p \<in> fst ` set (pm # ms). have p \<noteq> 0}"
    using 1(2) 2(7) by auto
  moreover have "mset (obj_waiter ob') = mset (obj_waiter ob) - mset (map fst (pm # ms))"
    using 1(4) 2(9) by (simp add: mset_remove1)
  ultimately show ?case using 1 2 by auto
qed

text \<open>C8: looking an object up across nodes. A node that does not have object \<open>i\<close> calls
  \<^verbatim>\<open>edsm_dobj_get\<close>: each of its peers gets one request. A peer that handles it sends back one
  answer, whether it has the object, and if so counts the caller among the holders. However the answers are ordered, the
  call is blocked while one is missing and returns once all have been handled; the caller then counts as holders exactly
  the peers that have the object, each once.\<close>

theorem objects_found_across_nodes:
  assumes rt: "enough_memory rt" and c: "connected s" "accepts os written"
    and wf: "wf_objects s" "can_expand (objects s)" and new: "find_obj s i = None" "sizeof_edsm_dobj \<le> sz"
    and nodes: "\<And>p. p \<in> set (ids_of s) \<Longrightarrow> connected (node p) \<and> my_id s \<in> set (ids_of (node p)) \<and> wf_objects (node p)"
    and ms: "mset (map fst ms) = mset (ids_of s)" "\<forall>(p, m) \<in> set ms. holds m (get_reply_content i (have_reference (node p) i))"
  shows "\<exists>s1. edsm_dobj_get_start rt os call i sz blank h s = Inr (obj_brk s, True, s1)
    \<and> (\<forall>p. out written s1 p = out written s p @ (if p \<in> set (ids_of s) then frame MSG_TYPE_DOBJ (get_content i) else []))
    \<and> (\<forall>p \<in> set (ids_of s). \<forall>m. holds m (get_content i) \<longrightarrow>
        (\<exists>rc n'. edsm_dobj_handle_message rt os call call_obj (my_id s) m (node p) = Inr (rc, n')
          \<and> out written n' = (out written (node p))(my_id s := out written (node p) (my_id s)
              @ frame MSG_TYPE_DOBJ (get_reply_content i (have_reference (node p) i)))
          \<and> (\<forall>a ob'. find_obj (node p) i = Some a \<longrightarrow> obj_mem n' a = Some ob' \<longrightarrow> my_id s \<in> set (obj_peers ob'))))
    \<and> (\<forall>k. \<exists>s2. handle_each (edsm_dobj_handle_message rt os call call_obj) (take k ms) s1 = Inr s2
        \<and> (if k < length ms then edsm_dobj_get_finish (obj_brk s) True s2 = None
           else \<exists>s3 ob. edsm_dobj_get_finish (obj_brk s) True s2 = Some (Inr (obj_brk s, s3)) \<and> obj_mem s3 (obj_brk s) = Some ob
             \<and> set (obj_peers ob) = {p \<in> set (ids_of s). find_obj (node p) i \<noteq> None} \<and> distinct (obj_peers ob)))"
proof -
  let ?a = "obj_brk s" let ?ob = "waiting_object i h blank (ids_of s)"
  obtain s1 where s1: "edsm_dobj_get_start rt os call i sz blank h s = Inr (?a, True, s1)"
      "obj_mem s1 = (obj_mem s)(?a \<mapsto> ?ob)" "find_obj s1 i = Some ?a" "wf_objects s1"
      "\<forall>p. out written s1 p = out written s p @ (if p \<in> set (ids_of s) then frame MSG_TYPE_DOBJ (get_content i) else [])"
    using get_start_ok [OF rt c wf new, of call blank h] by blast
  have "\<exists>rc n'. edsm_dobj_handle_message rt os call call_obj (my_id s) m (node p) = Inr (rc, n')
        \<and> out written n' = (out written (node p))(my_id s := out written (node p) (my_id s)
            @ frame MSG_TYPE_DOBJ (get_reply_content i (have_reference (node p) i)))
        \<and> (\<forall>a ob'. find_obj (node p) i = Some a \<longrightarrow> obj_mem n' a = Some ob' \<longrightarrow> my_id s \<in> set (obj_peers ob'))"
    if p: "p \<in> set (ids_of s)" and m: "holds m (get_content i)" for p m
  proof -
    have n: "connected (node p)" "my_id s \<in> set (ids_of (node p))" "wf_objects (node p)" using nodes [OF p] by simp_all
    have live: "find_obj (node p) i = Some a \<Longrightarrow> obj_mem (node p) a \<noteq> None" for a
      using find_obj_live [OF n(3)] by blast
    from dobj_get_answered [OF rt n(1) c(2) n(2) m live, of call call_obj] obtain n' rc where
      "edsm_dobj_handle_message rt os call call_obj (my_id s) m (node p) = Inr (rc, n')"
      "out written n' = (out written (node p))(my_id s := out written (node p) (my_id s)
          @ frame MSG_TYPE_DOBJ (get_reply_content i (if find_obj (node p) i = None then 0 else 1)))"
      "obj_mem n' = (case find_obj (node p) i of None \<Rightarrow> obj_mem (node p)
          | Some a \<Rightarrow> (obj_mem (node p))(a := map_option (add_peer_reference (my_id s)) (obj_mem (node p) a)))"
      by blast
    then show ?thesis
      by (intro exI [of _ rc] exI [of _ n']) (auto simp: have_reference_def)
  qed
  moreover have "\<exists>s2. handle_each (edsm_dobj_handle_message rt os call call_obj) (take k ms) s1 = Inr s2
        \<and> (if k < length ms then edsm_dobj_get_finish ?a True s2 = None
           else \<exists>s3 ob. edsm_dobj_get_finish ?a True s2 = Some (Inr (?a, s3)) \<and> obj_mem s3 ?a = Some ob
             \<and> set (obj_peers ob) = {p \<in> set (ids_of s). find_obj (node p) i \<noteq> None} \<and> distinct (obj_peers ob))" for k
  proof -
    have ob: "obj_mem s1 ?a = Some ?ob" using s1(2) by simp
    have "\<forall>(p, m) \<in> set (take k ms). holds m (get_reply_content i (have_reference (node p) i))"
      using ms(2) by (meson in_set_takeD)
    from replies_handled [OF s1(4,3) ob this, of rt os call call_obj] obtain s2 ob2 where
      2: "handle_each (edsm_dobj_handle_message rt os call call_obj) (take k ms) s1 = Inr s2" "obj_mem s2 ?a = Some ob2"
        "set (obj_peers ob2) = {p \<in> fst ` set (take k ms). have_reference (node p) i \<noteq> 0}" "distinct (obj_peers ob2)"
        "mset (obj_waiter ob2) = mset (ids_of s) - mset (map fst (take k ms))"
      by (auto simp: waiting_object_def)
    have "mset (ids_of s) = mset (map fst (take k ms @ drop k ms))" using ms(1) by simp
    then have split: "mset (ids_of s) = mset (map fst (take k ms)) + mset (map fst (drop k ms))"
      by (simp only: map_append mset_append)
    have w: "mset (obj_waiter ob2) = mset (map fst (drop k ms))" unfolding 2(5) split by simp
    show ?thesis
    proof (cases "k < length ms")
      case True
      then have "obj_waiter ob2 \<noteq> []" using w by auto
      with True 2(1,2) show ?thesis
        by (intro exI [of _ s2]) (simp add: edsm_dobj_get_finish_def obj_at_def waiter_done_def)
    next
      case False
      then have "obj_waiter ob2 = []" using w by simp
      moreover have "fst ` set ms = set (ids_of s)" using ms(1) by (metis list.set_map mset_eq_setD)
      ultimately show ?thesis using False 2
        by (intro exI [of _ s2])
          (auto simp: edsm_dobj_get_finish_def obj_at_def waiter_done_def have_reference_def split: if_splits)
    qed
  qed
  ultimately show ?thesis using s1(1,5) by (intro exI [of _ s1]) blast
qed

text \<open>Two nodes connected to each other, of which node 2 has object 9, for the concrete instance.\<close>

definition single_node :: "u32 \<Rightarrow> (nat, int \<Rightarrow> byte list, nat) dobjs" where
  "single_node i = proto.extend (lone_node\<lparr>my_id := i\<rparr>)
     \<lparr>max_obj_id = 9, objects = None, obj_mem = Map.empty, obj_brk = 0, object_lock = None\<rparr>"

definition pair_node :: "u32 \<Rightarrow> u32 \<Rightarrow> (nat, int \<Rightarrow> byte list, nat) dobjs" where
  "pair_node i j = new_peer (sample_peer j 5) (single_node i)"

definition with_object :: "(nat, int \<Rightarrow> byte list, nat) dobjs \<Rightarrow> (nat, int \<Rightarrow> byte list, nat) dobjs" where
  "with_object s = s\<lparr>objects := HASH_ADD (obj_key [0 \<mapsto> sample_object]) None 0, obj_mem := [0 \<mapsto> sample_object], obj_brk := 1\<rparr>"

lemma pair_node_ok:
  assumes "j \<noteq> 0" "i \<noteq> j"
  shows "connected (pair_node i j)" "ids_of (pair_node i j) = [j]" "my_id (pair_node i j) = i"
    "objects (pair_node i j) = None" "obj_mem (pair_node i j) = Map.empty" "obj_brk (pair_node i j) = 0"
proof -
  have s: "wf_peers (single_node i)" "fresh_peers (single_node i)" "few_items (peers (single_node i))"
    "find_peer (single_node i) k = None" "peers_list (single_node i) = []" "HASH_ITER (peers (single_node i)) = []"
    "peer_brk (single_node i) = 0" for k
    by (simp_all add: single_node_def proto.extend_def lone_node_def wf_peers_def ids_of_def fresh_peers_def peers_list_def
        find_peer_def)
  have n: "wf_peers (pair_node i j)" "peers_list (pair_node i j) = [sample_peer j 5]" "HASH_ITER (peers (pair_node i j)) = [0]"
    using new_peer_ok [OF s(1-4), of "sample_peer j 5"] s(5-7) by (simp_all add: pair_node_def)
  show ids: "ids_of (pair_node i j) = [j]" by (simp add: ids_of_peers_list n(2) sample_peer_def)
  show me: "my_id (pair_node i j) = i"
    by (simp add: pair_node_def new_peer_def add_peer_def single_node_def proto.extend_def)
  have "peer_of (pair_node i j) 0 = sample_peer j 5" using n(2) unfolding peers_list_def n(3) by simp
  then show "connected (pair_node i j)"
    unfolding connected_def n ids me using assms by (simp add: n(1) sample_peer_def)
  show "objects (pair_node i j) = None" "obj_mem (pair_node i j) = Map.empty" "obj_brk (pair_node i j) = 0"
    by (simp_all add: pair_node_def new_peer_def add_peer_def single_node_def proto.extend_def)
qed

lemma with_object_ok: "wf_objects (with_object s)" "find_obj (with_object s) 9 = Some 0"
  "connected (with_object s) = connected s" "ids_of (with_object s) = ids_of s"
proof -
  let ?k = "obj_key [0 \<mapsto> sample_object]"
  have k: "uthash.keyed ?k None" by simp
  have "HASH_FIND ?k None (?k 0) = None" by simp
  note add = uthash.keyed_add [OF k _ this] uthash.find_add [OF k _ this, of "bytes_of_u32 9"]
  have "HASH_ITER (HASH_ADD ?k None 0) = [0]" using uthash.items_add [of ?k None 0] by simp
  with add show "wf_objects (with_object s)" "find_obj (with_object s) 9 = Some 0"
    by (simp_all add: with_object_def wf_objects_def find_obj_def obj_key_def sample_object_def)
  show "connected (with_object s) = connected s" "ids_of (with_object s) = ids_of s"
    using connected_cong [of "with_object s" s] by (simp_all add: with_object_def)
qed

lemma objects_found_across_nodes_witness:
  "\<exists>s1 s2 s3 ob. edsm_dobj_get_start good_runtime tape_os no_call 9 96 (Barrier_Body None) 0 (pair_node 1 2) = Inr (0, True, s1)
     \<and> handle_each (edsm_dobj_handle_message good_runtime tape_os no_call (\<lambda>_ _ _ _ s. Inr (0, s)))
         [(2, message_of (get_reply_content 9 1))] s1 = Inr s2
     \<and> edsm_dobj_get_finish 0 True s2 = Some (Inr (0, s3)) \<and> obj_mem s3 0 = Some ob \<and> set (obj_peers ob) = {2}"
proof -
  let ?s = "pair_node 1 2" let ?n = "\<lambda>p :: u32. with_object (pair_node 2 1)"
  let ?ms = "[(2, message_of (get_reply_content 9 1))]"
  have p: "connected ?s" "ids_of ?s = [2]" "my_id ?s = 1" "objects ?s = None" "obj_mem ?s = Map.empty" "obj_brk ?s = 0"
    using pair_node_ok [of 2 1] by simp_all
  have q: "connected (?n p) \<and> my_id ?s \<in> set (ids_of (?n p)) \<and> wf_objects (?n p)" for p
    using pair_node_ok [of 1 2] p(3) by (simp add: with_object_ok)
  have h: "holds (message_of (get_reply_content 9 1)) (get_reply_content 9 1)"
    by (rule conjunct1 [OF holds_message_of]) (simp add: get_reply_content_def)
  have w: "wf_objects ?s" "can_expand (objects ?s)" "find_obj ?s 9 = None"
    by (simp_all add: wf_objects_def p find_obj_def)
  have "sizeof_edsm_dobj \<le> 96" by (simp add: sizeof_edsm_dobj_def)
  from objects_found_across_nodes [OF enough_memory_good p(1) tape_os_accepts w this, of ?n ?ms no_call
      "Barrier_Body None" 0 "\<lambda>_ _ _ _ s. Inr (0, s)"] q h p(2)
  show ?thesis
    by (auto simp: p(6) have_reference_def with_object_ok dest!: spec [of _ 1])
qed

end
