(* ===== verification/Safe_Calls.thy ===== *)
theory Safe_Calls
  imports Task Mutex Barrier Object_Lookup
begin

text \<open>
  Which calls can go wrong, and how. A call is safe if it does not use freed memory, does not take the block of one
  object for another, and does not run out of fuel; an end of the process by an assertion, an abort or a null
  pointer is allowed. Rules for the message, sending and diff operations.
\<close>

section \<open>Calls that do not go wrong\<close>

definition safe :: "('a \<Rightarrow> bool) \<Rightarrow> 'a res \<Rightarrow> bool" where
  "safe P r \<longleftrightarrow> (case r of Inr x \<Rightarrow> P x | Inl e \<Rightarrow> e \<notin> {TypeConfusion, UseAfterFree, OutOfFuel})"

abbreviation sane :: "'a res \<Rightarrow> bool" where "sane \<equiv> safe (\<lambda>_. True)"

lemma safe_simps [simp]:
  "safe P (Inr x) = P x" "safe P (Inl e) = (e \<notin> {TypeConfusion, UseAfterFree, OutOfFuel})"
  by (simp_all add: safe_def)

lemma safe_bind: "sane m \<Longrightarrow> (\<And>x. m = Inr x \<Longrightarrow> safe P (f x)) \<Longrightarrow> safe P (res_bind m f)"
  by (cases m) simp_all

lemma safe_bind_with: "safe Q m \<Longrightarrow> (\<And>x. Q x \<Longrightarrow> safe P (f x)) \<Longrightarrow> safe P (res_bind m f)"
  by (cases m) simp_all

lemma safe_mono: "safe P m \<Longrightarrow> (\<And>x. P x \<Longrightarrow> Q x) \<Longrightarrow> safe Q m"
  by (cases m) simp_all

lemma safe_reads:
  "sane m \<Longrightarrow> (\<And>a b c. m = Inr (a, b, c) \<Longrightarrow> safe P (f a b c)) \<Longrightarrow> safe P (res_bind m (\<lambda>(a, b, c). f a b c))"
  by (rule safe_bind) auto

lemma safe_pair: "sane m \<Longrightarrow> (\<And>a b. m = Inr (a, b) \<Longrightarrow> safe P (f a b)) \<Longrightarrow> safe P (res_bind m (\<lambda>(a, b). f a b))"
  by (rule safe_bind) auto

lemma safe_if: "(b \<Longrightarrow> safe P x) \<Longrightarrow> (\<not> b \<Longrightarrow> safe P y) \<Longrightarrow> safe P (if b then x else y)"
  by simp

lemma safe_option:
  "(m = None \<Longrightarrow> safe P x) \<Longrightarrow> (\<And>y. m = Some y \<Longrightarrow> safe P (f y)) \<Longrightarrow> safe P (case m of None \<Rightarrow> x | Some y \<Rightarrow> f y)"
  by (cases m) simp_all

lemma safe_let: "(\<And>x. x = v \<Longrightarrow> safe P (f x)) \<Longrightarrow> safe P (let x = v in f x)"
  by simp

lemma sane_check [simp]: "e \<notin> {TypeConfusion, UseAfterFree, OutOfFuel} \<Longrightarrow> sane (check e b)"
  by (simp add: check_def)

lemma safe_int_loop: "(\<And>m. safe P (rounds m)) \<Longrightarrow> safe P (int_loop n rounds)"
  by (auto simp: int_loop_def intro!: safe_bind_with)

lemma sane_LL_SORT [simp]: "sane (LL_SORT cmp xs)"
  by (simp add: LL_SORT_eq)

lemma sane_pointers [simp]: "sane (non_null p)" "sane (determinate v)"
  by (cases p; simp; fail) (cases v; simp)

lemma sane_memcpy [simp]: "sane (memcpy dst d src k n)"
  by (simp add: memcpy_def)

subsection \<open>Messages\<close>

lemma sane_create [simp]: "sane (edsm_message_create rt h t)"
  by (auto simp: edsm_message_create_def intro!: safe_bind split: option.splits)

lemma sane_put [simp]: "sane (edsm_message_put m n)" "sane (edsm_message_pull m n)"
  by (auto simp: edsm_message_put_def edsm_message_pull_def intro!: safe_bind)

lemma sane_read [simp]: "sane (edsm_message_read m dst d n)"
  by (auto simp: edsm_message_read_def intro!: safe_bind)

lemma sane_read_ints [simp]: "sane (read_u32 m)" "sane (read_u16 m)"
  by (auto simp: read_u32_def read_u16_def intro!: safe_bind)

lemma safe_resize: "enough_memory rt \<Longrightarrow> safe (\<lambda>(_, m'). m' \<noteq> None) (edsm_message_resize rt m h t)"
  by (auto simp: edsm_message_resize_def Let_def int_sub_def intro!: safe_bind)

lemma sane_write [simp]:
  assumes "enough_memory rt"
  shows "sane (edsm_message_write rt m src n)"
proof -
  have "safe (\<lambda>m'. m' \<noteq> None) (if \<not> n \<le> tail_size m
        then res_bind (if n < buffer_size m then Inr (buffer_size m * 2) else int_double n) (\<lambda>new_tail.
             res_bind (edsm_message_resize rt m (head_size m) new_tail) (\<lambda>(rc, m). Inr m))
        else Inr (Some m))"
    using safe_resize [OF assms]
    by (auto simp: int_double_def intro!: safe_bind safe_bind_with [where Q = "\<lambda>(_, m'). m' \<noteq> None"])
  then show ?thesis
    unfolding edsm_message_write_def by (rule safe_bind_with) (auto intro!: safe_bind)
qed

lemma sane_write_ints [simp]: "enough_memory rt \<Longrightarrow> sane (write_u32 rt m v)" "enough_memory rt \<Longrightarrow> sane (write_u16 rt m w)"
  by (simp_all add: write_u32_def write_u16_def)

lemma sane_write_u32s [simp]: "enough_memory rt \<Longrightarrow> sane (write_u32s rt m vs)"
proof (induction vs arbitrary: m)
  case (Cons v vs)
  then show ?case by (auto simp: write_u32s.simps intro!: safe_bind)
qed simp

lemma sane_new_message [simp]: "sane (new_message rt n)"
  by (auto simp: new_message_def intro!: safe_bind)

lemma sane_write_message [simp]: "enough_memory rt \<Longrightarrow> sane (edsm_message_write_message rt m v)"
  by (auto simp: edsm_message_write_message_def intro!: safe_bind split: option.split)

lemma sane_read_message [simp]: "sane (edsm_message_read_message rt m p)"
  by (auto simp: edsm_message_read_message_def intro!: safe_bind)

lemma sane_strings [simp]: "sane (edsm_message_read_string rt m)" "sane (c_string cs)"
  by (auto simp: edsm_message_read_string_def Let_def intro!: safe_bind) (induction cs rule: c_string.induct; auto intro!: safe_bind)

subsection \<open>Sending\<close>

text \<open>A send to others changes only the world.\<close>

definition only_world :: "('h, 'w, 'z) proto_scheme \<Rightarrow> ('h, 'w, 'z) proto_scheme \<Rightarrow> bool" where
  "only_world s s' \<longleftrightarrow> (\<exists>w. s' = s\<lparr>world := w\<rparr>)"

lemma only_world_refl [simp]: "only_world s s" "only_world s (s\<lparr>world := w\<rparr>)"
  by (auto simp: only_world_def intro: exI [of _ "world s"])

lemma only_world_trans: "only_world s t \<Longrightarrow> only_world t u \<Longrightarrow> only_world s u"
  by (auto simp: only_world_def)

lemma safe_world_bind:
  assumes "safe (\<lambda>(_, s'). only_world s s') m" "\<And>rc w. safe P (f (rc, s\<lparr>world := w\<rparr>))"
  shows "safe P (res_bind m f)"
  by (rule safe_bind_with [OF assms(1)]) (use assms(2) in \<open>auto simp: only_world_def\<close>)

lemma safe_only_world:
  "safe (\<lambda>(_, s'). only_world (s\<lparr>world := w\<rparr>) s') r \<Longrightarrow> safe (\<lambda>(_, s'). only_world s s') r"
  by (erule safe_mono) (auto intro: only_world_trans [OF only_world_refl(2)])

lemma safe_send_to_peer:
  assumes "peer_mem s p \<noteq> None"
  shows "safe (\<lambda>(_, s'). only_world s s') (send_to_peer os p t m s)"
proof -
  have "sane (fd_send_message os fd t m w)" for fd w
    by (auto simp: fd_send_message_def bytes_at_def intro!: safe_bind split: prod.splits)
  then show ?thesis
    using assms by (auto simp: send_to_peer_def peer_at_def intro!: safe_bind)
qed

lemma safe_broadcast:
  "\<forall>p \<in> set ps. peer_mem s p \<noteq> None \<Longrightarrow> safe (\<lambda>(_, s'). only_world s s') (broadcast os ps t m s)"
proof (induction ps arbitrary: s)
  case (Cons p ps)
  have "safe (\<lambda>(_, s'). only_world s s') (send_to_peer os p t m s)" using Cons.prems by (intro safe_send_to_peer) simp
  then show ?case unfolding broadcast.simps
  proof (rule safe_world_bind)
    fix rc w
    have "safe (\<lambda>(_, s'). only_world (s\<lparr>world := w\<rparr>) s') (broadcast os ps t m (s\<lparr>world := w\<rparr>))"
      using Cons.prems by (intro Cons.IH) simp_all
    then show "safe (\<lambda>(_, s'). only_world s s')
        (case (rc, s\<lparr>world := w\<rparr>) of (rc, s') \<Rightarrow> if rc = FAILURE then Inr (FAILURE, s') else broadcast os ps t m s')"
      by (auto dest: safe_only_world)
  qed
qed simp

lemma find_peer_live: "wf_peers s \<Longrightarrow> find_peer s i = Some p \<Longrightarrow> peer_mem s p \<noteq> None"
  using find_peer_iff [of s i p] by (auto simp: wf_peers_def)

lemma safe_send:
  assumes "wf_peers s" "p = 0 \<or> p \<noteq> my_id s"
  shows "safe (\<lambda>(_, s'). only_world s s') (edsm_proto_send rt os call p t m s)"
proof -
  have "\<forall>p \<in> set (HASH_ITER (peers s)). peer_mem s p \<noteq> None" using assms(1) by (auto simp: wf_peers_def)
  then show ?thesis
    using assms(2) find_peer_live [OF assms(1)]
    by (auto simp: edsm_proto_send_def intro!: safe_broadcast safe_send_to_peer split: option.split)
qed

lemma safe_send_each:
  "wf_peers s \<Longrightarrow> my_id s \<notin> set ps \<Longrightarrow> safe (\<lambda>(_, s'). only_world s s') (send_each (edsm_proto_send rt os call) ps t m s)"
proof (induction ps arbitrary: s)
  case (Cons p ps)
  have "safe (\<lambda>(_, s'). only_world s s') (edsm_proto_send rt os call p t m s)" using Cons.prems by (intro safe_send) auto
  then show ?case unfolding send_each.simps
  proof (rule safe_world_bind)
    fix rc w
    have "safe (\<lambda>(_, s'). only_world (s\<lparr>world := w\<rparr>) s') (send_each (edsm_proto_send rt os call) ps t m (s\<lparr>world := w\<rparr>))"
      using Cons.prems by (intro Cons.IH) simp_all
    then show "safe (\<lambda>(_, s'). only_world s s')
        (case (rc, s\<lparr>world := w\<rparr>) of (rc, s') \<Rightarrow> if rc = FAILURE then Inr (FAILURE, s') else send_each (edsm_proto_send rt os call) ps t m s')"
      by (auto dest: safe_only_world)
  qed
qed simp

lemma safe_dobj_send:
  assumes "enough_memory rt" "wf_peers s" "obj_mem s a = Some ob" "my_id s \<notin> set (obj_peers ob)"
  shows "safe (\<lambda>(_, s'). only_world s s') (edsm_dobj_send rt os call a m s)"
  using assms safe_send_each
  by (auto simp: edsm_dobj_send_def obj_at_def Let_def intro!: safe_bind)

lemma safe_get_reply:
  assumes "enough_memory rt" "wf_peers s" "p \<noteq> my_id s"
  shows "safe (\<lambda>(_, s'). only_world s s') (edsm_dobj_send_get_reply rt os call p i have s)"
  using assms by (auto simp: edsm_dobj_send_get_reply_def intro!: safe_bind safe_send)

lemma safe_send_get:
  assumes "enough_memory rt" "wf_peers s"
  shows "safe (\<lambda>(_, s'). only_world s s') (edsm_dobj_send_get rt os call i s)"
  using assms by (auto simp: edsm_dobj_send_get_def intro!: safe_bind safe_send)

subsection \<open>Diffs\<close>

lemma safe_read_length: "safe (\<lambda>(_, dst', _). length dst' = length dst) (edsm_message_read m dst d n)"
  by (auto simp: edsm_message_read_def intro!: safe_bind dest: length_memcpy)

lemma safe_read_bind:
  "(\<And>rc dst' m'. length dst' = length dst \<Longrightarrow> safe P (f rc dst' m'))
     \<Longrightarrow> safe P (res_bind (edsm_message_read m dst d n) (\<lambda>(rc, dst', m'). f rc dst' m'))"
  by (rule safe_bind_with [OF safe_read_length]) auto

lemma safe_memcpy_bind:
  "(\<And>dst'. length dst' = length dst \<Longrightarrow> safe P (f dst')) \<Longrightarrow> safe P (res_bind (memcpy dst d src k n) f)"
  by (rule safe_bind) (auto dest: length_memcpy)

lemma safe_apply_shadow: "length shadow = l \<Longrightarrow> safe (\<lambda>(shadow', _). length shadow' = l) (apply_shadow n shadow m)"
proof (induction n arbitrary: shadow m)
  case (Suc n)
  show ?case unfolding apply_shadow.simps
    apply (rule safe_reads, simp)
    apply (rule safe_reads, simp)
    apply (rule safe_bind, simp)
    apply (rule safe_bind, simp)
    apply (rule safe_read_bind)
    apply (rule Suc.IH, simp add: Suc.prems)
    done
qed simp

lemma safe_apply_twinned:
  "length twin = l \<Longrightarrow> length page = k
     \<Longrightarrow> safe (\<lambda>(twin', page', _). length twin' = l \<and> length page' = k) (apply_twinned ps n twin page m)"
proof (induction n arbitrary: twin page m)
  case (Suc n)
  show ?case unfolding apply_twinned.simps
    apply (rule safe_reads, simp)
    apply (rule safe_reads, simp)
    apply (rule safe_bind, simp)
    apply (rule safe_bind, simp)
    apply (rule safe_bind, simp)
    apply (rule safe_read_bind)
    apply (rule safe_memcpy_bind)
    apply (rule Suc.IH; simp add: Suc.prems)
    done
qed simp

lemma wf_writable: "wf_region ps r \<Longrightarrow> wf_region ps (r\<lparr>writable := (writable r)(a := False)\<rparr>)"
  by (auto simp: wf_region_def)

lemma page_at_length: "page_at ps r a = Inr page \<Longrightarrow> length page = ps \<and> a - head r + ps \<le> length (contents r)"
  by (auto simp: page_at_def split: if_splits)

lemma bytes_of_length: "bytes_of cs = Some bs \<Longrightarrow> length bs = length cs"
  by (simp add: bytes_of_eq_Some)

lemma safe_apply_page:
  assumes wf: "wf_region ps r"
  shows "safe (\<lambda>(r', _). wf_region ps r') (apply_page mprotect ps r m)"
proof -
  have shadow: "safe (\<lambda>(r', _). wf_region ps r') (res_bind (page_at ps r a) (\<lambda>page.
      res_bind (apply_shadow n (cells page) m2) (\<lambda>(shadow, m3).
      res_bind (determinate (bytes_of shadow)) (\<lambda>bs.
      Inr (put_page (r\<lparr>writable := (writable r)(a := False)\<rparr>) a bs, m3)))))" for a n m2
  proof (rule safe_bind)
    fix page assume pg: "page_at ps r a = Inr page"
    show "safe (\<lambda>(r', _). wf_region ps r') (res_bind (apply_shadow n (cells page) m2) (\<lambda>(shadow, m3).
        res_bind (determinate (bytes_of shadow)) (\<lambda>bs.
        Inr (put_page (r\<lparr>writable := (writable r)(a := False)\<rparr>) a bs, m3))))"
    proof (rule safe_bind_with [OF safe_apply_shadow [OF refl]], clarsimp)
      fix shadow :: "cell list" and m3
      assume "length shadow = length page"
      then show "safe (\<lambda>(r', _). wf_region ps r') (res_bind (determinate (bytes_of shadow)) (\<lambda>bs.
          Inr (put_page (r\<lparr>writable := (writable r)(a := False)\<rparr>) a bs, m3)))"
        using page_at_length [OF pg] wf_writable [OF wf, of a]
        by (cases "bytes_of shadow") (auto dest!: bytes_of_length intro!: wf_put_page)
    qed
  qed (simp add: page_at_def)
  have twinned: "safe (\<lambda>(r', _). wf_region ps r') (res_bind (page_at ps r a) (\<lambda>page.
      res_bind (apply_twinned ps n (cells (twin_data t)) (cells page) m2) (\<lambda>(twin', page', m3).
      res_bind (determinate (bytes_of twin')) (\<lambda>tb.
      res_bind (determinate (bytes_of page')) (\<lambda>pb.
      Inr (put_page (update_twin r a tb) a pb, m3))))))"
    if t: "find_twin r a = Some t" for a n m2 t
  proof (rule safe_bind)
    fix page assume pg: "page_at ps r a = Inr page"
    have lt: "length (twin_data t) = ps"
      using t wf by (auto simp: find_twin_def find_Some_iff wf_region_def list_all_iff)
    show "safe (\<lambda>(r', _). wf_region ps r') (res_bind (apply_twinned ps n (cells (twin_data t)) (cells page) m2) (\<lambda>(twin', page', m3).
        res_bind (determinate (bytes_of twin')) (\<lambda>tb.
        res_bind (determinate (bytes_of page')) (\<lambda>pb.
        Inr (put_page (update_twin r a tb) a pb, m3)))))"
    proof (rule safe_bind_with [OF safe_apply_twinned [OF refl refl]], clarsimp)
      fix twin' page' :: "cell list" and m3
      assume l: "length twin' = length (twin_data t)" "length page' = length page"
      have "wf_region ps (put_page (update_twin r a tb) a pb)"
        if "bytes_of twin' = Some tb" "bytes_of page' = Some pb" for tb pb
      proof -
        have "length tb = ps" "length pb = ps" using that l lt page_at_length [OF pg] by (auto dest!: bytes_of_length)
        moreover from this(1) have "wf_region ps (update_twin r a tb)" by (rule wf_update_twin [OF wf])
        ultimately show ?thesis
          using page_at_length [OF pg] by (intro wf_put_page) (simp_all add: update_twin_def)
      qed
      then show "safe (\<lambda>(r', _). wf_region ps r') (res_bind (determinate (bytes_of twin')) (\<lambda>tb.
          res_bind (determinate (bytes_of page')) (\<lambda>pb. Inr (put_page (update_twin r a tb) a pb, m3))))"
        by (cases "bytes_of twin'"; cases "bytes_of page'") simp_all
    qed
  qed (simp add: page_at_def)
  show ?thesis
    unfolding apply_page_def
    apply (rule safe_reads, simp)+
    apply (rule safe_bind, simp)+
    apply (rule safe_let, rule safe_bind, simp, rule safe_if, rule safe_option)
      apply (rule safe_bind, simp, rule shadow)
     apply (rule twinned, simp)
    apply (simp add: wf)
    done
qed

lemma safe_apply_pages: "wf_region ps r \<Longrightarrow> safe (\<lambda>(r', _). wf_region ps r') (apply_pages mprotect ps n r m)"
proof (induction n arbitrary: r m)
  case (Suc n)
  show ?case unfolding apply_pages.simps
    by (rule safe_bind_with [OF safe_apply_page [OF Suc.prems]]) (use Suc.IH in auto)
qed simp

lemma safe_memory_receive: "wf_region ps r \<Longrightarrow> safe (wf_region ps) (memory_receive mprotect ps r m)"
proof -
  assume wf: "wf_region ps r"
  then have "wf_region ps (setLamportTimestamp r t)" for t by (simp add: setLamportTimestamp_def wf_region_def)
  then show ?thesis
    unfolding memory_receive_def
    by (auto simp: Let_def intro!: safe_bind safe_bind_with [OF safe_int_loop [OF safe_apply_pages]])
qed

lemma sane_poke [simp]: "sane (poke m k bs)"
  by (auto simp: poke_def intro!: safe_bind)

lemma sane_page_at [simp]: "sane (page_at ps r a)"
  by (simp add: page_at_def)

lemma sane_diff_bytes [simp]:
  "enough_memory rt \<Longrightarrow> sane (diff_bytes rt i rs cs cb off n m)"
proof (induction rt i rs cs cb off n m rule: diff_bytes.induct)
  case (1 rt i r rs c cs cb off n msg)
  from 1 show ?case by (auto intro!: safe_bind)
qed simp_all

lemma distinct_map_remove1: "distinct (map f xs) \<Longrightarrow> distinct (map f (remove1 x xs))"
  by (induction xs) (auto dest: subsetD [OF set_remove1_subset])

lemma wf_drop_twin:
  assumes wf: "wf_region ps r"
  shows "wf_region ps (r\<lparr>writable := (writable r)(original_page_head t := False), twins := remove1 t (twins r)\<rparr>)"
proof -
  have "distinct (map original_page_head (remove1 t (twins r)))"
    using wf by (simp add: wf_region_def distinct_map_remove1)
  moreover have "p \<in> original_page_head ` set (remove1 t (twins r))" if "writable r p" "p \<noteq> original_page_head t" for p
  proof -
    have "p \<in> original_page_head ` set (twins r)" using that(1) wf by (simp add: wf_region_def)
    then obtain u where "u \<in> set (twins r)" "p = original_page_head u" by blast
    with that(2) show ?thesis by (metis image_eqI in_set_remove1)
  qed
  ultimately show ?thesis
    using wf by (auto simp: wf_region_def list_all_iff dest: notin_set_remove1)
qed

lemma safe_diff_twins:
  "enough_memory rt \<Longrightarrow> wf_region ps r \<Longrightarrow> safe (\<lambda>(_, r', _). wf_region ps r') (diff_twins rt mprotect ps ts n r m)"
proof (induction ts arbitrary: n r m)
  case (Cons t ts)
  show ?case
    unfolding diff_twins.simps Let_def
    apply (rule safe_pair, simp add: Cons.prems)
    apply (rule safe_pair, simp add: Cons.prems)
    apply (rule safe_bind, simp)
    apply (rule safe_bind, simp)
    apply (rule safe_bind, simp)
    apply (rule safe_pair, simp add: Cons.prems)
    apply (rule safe_bind, simp)
    apply (rule Cons.IH [OF Cons.prems(1)])
    apply (rule wf_drop_twin [OF Cons.prems(2)])
    done
qed simp

lemma safe_diff_region:
  assumes rt: "enough_memory rt" and wf: "wf_region ps r"
  shows "safe (\<lambda>(_, r', _). wf_region ps r') (diff_region rt mprotect ps r m)"
proof -
  have "wf_region ps (r\<lparr>lamport_timestamp := t\<rparr>)" for t using wf by (simp add: wf_region_def)
  then show ?thesis
    unfolding diff_region_def incrementLamportTimestamp_def Let_def prod.case
    apply -
    apply (rule safe_pair, simp add: rt)
    apply (rule safe_pair, simp add: rt)
    apply (rule safe_bind_with [OF safe_diff_twins [OF rt]])
    apply (auto intro!: safe_bind)
    done
qed

end
