(* ===== verification/Node.thy ===== *)
theory Node
  imports Safe_Calls
begin

text \<open>
  A whole node: the handlers of the components behind the function pointers of the tables, and the actions a node can
  take. The invariant is a typing of the node's memory; every action keeps it, whatever bytes the peers send, and
  no action uses freed memory or takes an object for something it is not.
\<close>

section \<open>Handlers\<close>

text \<open>The functions that the program stores in its tables, and calls through them.\<close>

datatype msg_handler = Task_Handler | Dobj_Handler

datatype obj_msg_handler = Mutex_Handler | Barrier_Handler | Memory_Handler

type_synonym ('w, 'u) node = "(msg_handler, 'w, obj_msg_handler, 'u) tasks"

definition obj_call ::
    "runtime \<Rightarrow> 'w os \<Rightarrow> (nat \<Rightarrow> bool) \<Rightarrow> ('h, 'w, (obj_msg_handler, 'z memory_ext) dobjs_ext) call
       \<Rightarrow> ('h, 'w, obj_msg_handler, 'z memory_ext) call_obj" where
  "obj_call rt os mprotect call k a peer msg s =
     (case k of
        Mutex_Handler \<Rightarrow> edsm_mutex_handle_message rt os call a peer msg s
      | Barrier_Handler \<Rightarrow> edsm_barrier_handle_message a peer msg s
      | Memory_Handler \<Rightarrow> edsm_memory_handle_message mprotect a peer msg s)"

text \<open>A node that sends to itself runs the handler within the send; the fuel bounds the nesting.\<close>

fun node_call ::
    "nat \<Rightarrow> runtime \<Rightarrow> 'w os \<Rightarrow> (nat \<Rightarrow> bool) \<Rightarrow> bool \<Rightarrow> msg_handler \<Rightarrow> u32 \<Rightarrow> edsm_message
       \<Rightarrow> ('w, 'u) node \<Rightarrow> (int \<times> ('w, 'u) node) res" where
  "node_call 0 rt os mprotect spawn_ok h peer msg s = Inl OutOfFuel"
| "node_call (Suc n) rt os mprotect spawn_ok h peer msg s =
     (case h of
        Task_Handler \<Rightarrow> edsm_task_handle_up_call rt spawn_ok peer msg s
      | Dobj_Handler \<Rightarrow> edsm_dobj_handle_message rt os (node_call n rt os mprotect spawn_ok)
          (obj_call rt os mprotect (node_call n rt os mprotect spawn_ok)) peer msg s)"

section \<open>Typed memory\<close>

text \<open>
  The block of an object holds what its handler takes it for, and the node is not among the holders it sends to.
\<close>

definition typed_body :: "nat \<Rightarrow> obj_msg_handler \<Rightarrow> obj_body \<Rightarrow> bool" where
  "typed_body ps k b =
     (case b of
        Mutex_Body _ \<Rightarrow> k = Mutex_Handler
      | Barrier_Body _ \<Rightarrow> k = Barrier_Handler
      | Region_Body r \<Rightarrow> k = Memory_Handler \<and> wf_region ps r)"

text \<open>The zeroed block of a new object.\<close>

definition blank_body :: "obj_msg_handler \<Rightarrow> obj_body" where
  "blank_body k = (case k of
      Mutex_Handler \<Rightarrow> Mutex_Body zero_mutex | Barrier_Handler \<Rightarrow> Barrier_Body None | Memory_Handler \<Rightarrow> Region_Body zero_region)"

definition typed_obj :: "('h, 'w, obj_msg_handler, 'z) memory_scheme \<Rightarrow> obj_msg_handler edsm_dobj \<Rightarrow> bool" where
  "typed_obj s ob \<longleftrightarrow> typed_body (memory_pagesize s) (obj_handler ob) (body ob) \<and> my_id s \<notin> set (obj_peers ob)
     \<and> (inited ob = 0 \<longrightarrow> body ob = blank_body (obj_handler ob))"

definition has_kind :: "('h, 'w, 'k, 'z) dobjs_scheme \<Rightarrow> nat \<Rightarrow> 'k \<Rightarrow> bool" where
  "has_kind s a k = (case obj_mem s a of None \<Rightarrow> False | Some ob \<Rightarrow> obj_handler ob = k)"

definition ready :: "('h, 'w, 'k, 'z) dobjs_scheme \<Rightarrow> nat \<Rightarrow> 'k \<Rightarrow> bool" where
  "ready s a k = (case obj_mem s a of None \<Rightarrow> False | Some ob \<Rightarrow> obj_handler ob = k \<and> inited ob \<noteq> 0)"

definition typed :: "('w, 'u) node \<Rightarrow> bool" where
  "typed s \<longleftrightarrow> wf_peers s \<and> wf_objects s \<and> (\<forall>a ob. obj_mem s a = Some ob \<longrightarrow> typed_obj s ob)
     \<and> (\<forall>a \<in> set (memory_regions s). ready s a Memory_Handler) \<and> 0 < memory_pagesize s \<and> memory_pagesize s dvd 2 ^ 64
     \<and> wf_tasks s \<and> (\<forall>t \<in> set (task_threads s). task_mem s (thread_task t) \<noteq> None)"

text \<open>What a step keeps: the node is typed after it, and its objects are still there.\<close>

definition kept :: "('w, 'u) node \<Rightarrow> ('w, 'u) node \<Rightarrow> bool" where
  "kept s s' \<longleftrightarrow> typed s' \<and> my_id s' = my_id s \<and> memory_pagesize s' = memory_pagesize s
     \<and> (\<forall>a k. (has_kind s a k \<longrightarrow> has_kind s' a k) \<and> (ready s a k \<longrightarrow> ready s' a k))"

lemma kept_refl [simp]: "kept s s = typed s"
  by (simp add: kept_def)

lemma kept_trans: "kept s t \<Longrightarrow> kept t u \<Longrightarrow> kept s u"
  by (simp add: kept_def)

lemma typed_world [simp]: "typed (s\<lparr>world := w\<rparr>) = typed s"
  by (simp add: typed_def wf_peers_def typed_obj_def has_kind_def ready_def wf_tasks_def)

lemma kept_world [simp]: "kept s (s'\<lparr>world := w\<rparr>) = kept s s'"
  by (simp add: kept_def has_kind_def ready_def)

lemma put_obj_fields [simp]:
  "my_id (put_obj s a ob) = my_id s" "obj_mem (put_obj s a ob) = (obj_mem s)(a \<mapsto> ob)"
  "peers (put_obj s a ob) = peers s" "peer_mem (put_obj s a ob) = peer_mem s"
  by (simp_all add: put_obj_def)

lemma put_obj_memory [simp]:
  "memory_pagesize (put_obj s a ob) = memory_pagesize s" "memory_regions (put_obj s a ob) = memory_regions s"
  by (simp_all add: put_obj_def)

lemma put_obj_tasks [simp]:
  "task_mem (put_obj s a ob) = task_mem s" "task_threads (put_obj s a ob) = task_threads s"
  "wf_tasks (put_obj s a ob) = wf_tasks s"
  by (simp_all add: put_obj_def wf_tasks_def)

lemma kept_put:
  assumes "typed s" "obj_mem s a = Some ob" "obj_id ob' = obj_id ob" "obj_handler ob' = obj_handler ob" "typed_obj s ob'"
    and "inited ob \<noteq> 0 \<Longrightarrow> inited ob' \<noteq> 0"
  shows "kept s (put_obj s a ob')"
proof -
  have "wf_objects (put_obj s a ob')" using assms put_obj_wf(1) by (fastforce simp: typed_def)
  moreover have "wf_peers (put_obj s a ob')" using assms(1) by (simp add: typed_def wf_peers_def)
  ultimately show ?thesis
    using assms by (auto simp: kept_def typed_def typed_obj_def has_kind_def ready_def split: if_splits)
qed

section \<open>Steps that keep the types\<close>

abbreviation keeps :: "('w, 'u) node \<Rightarrow> ('a \<times> ('w, 'u) node) res \<Rightarrow> bool" where
  "keeps s \<equiv> safe (\<lambda>x. kept s (snd x))"

abbreviation stays :: "('w, 'u) node \<Rightarrow> ('w, 'u) node res \<Rightarrow> bool" where
  "stays s \<equiv> safe (kept s)"

lemma safe_then:
  assumes "safe (\<lambda>x. kept s (g x)) m" "\<And>x. kept s (g x) \<Longrightarrow> typed (g x) \<Longrightarrow> safe (\<lambda>y. kept (g x) (h y)) (f x)"
  shows "safe (\<lambda>y. kept s (h y)) (res_bind m f)"
proof (rule safe_bind_with [OF assms(1)])
  fix x assume k: "kept s (g x)"
  then have "typed (g x)" by (simp add: kept_def)
  from assms(2) [OF k this] show "safe (\<lambda>y. kept s (h y)) (f x)" by (rule safe_mono) (rule kept_trans [OF k])
qed

lemma keeps_then:
  "keeps s m \<Longrightarrow> (\<And>x t. kept s t \<Longrightarrow> typed t \<Longrightarrow> safe (\<lambda>y. kept t (h y)) (f (x, t))) \<Longrightarrow> safe (\<lambda>y. kept s (h y)) (res_bind m f)"
  by (rule safe_then [where g = snd]) auto

lemmas keeps_keeps = keeps_then [where h = snd]
lemmas keeps_stays = keeps_then [where h = "\<lambda>s. s"]
lemmas stays_keeps = safe_then [where g = "\<lambda>s. s" and h = snd]

lemma keeps_world: "typed s \<Longrightarrow> safe (\<lambda>(_, s'). only_world s s') m \<Longrightarrow> keeps s m"
  by (erule safe_mono) (auto simp: only_world_def)

lemma typed_object:
  assumes "typed s" "ready s a k"
  obtains ob where "obj_mem s a = Some ob" "obj_handler ob = k" "typed_obj s ob" "inited ob \<noteq> 0"
  using assms by (auto simp: ready_def typed_def split: option.splits)

lemma typed_known:
  assumes "typed s" "has_kind s a k"
  obtains ob where "obj_mem s a = Some ob" "obj_handler ob = k" "typed_obj s ob"
  using assms by (auto simp: has_kind_def typed_def split: option.splits)

lemma typed_mutex:
  assumes "typed s" "ready s a Mutex_Handler"
  obtains mx where "mutex_at s a = Inr mx" "\<And>mx'. kept s (put_mutex s a mx')"
proof -
  obtain ob where ob: "obj_mem s a = Some ob" "obj_handler ob = Mutex_Handler" "typed_obj s ob" "inited ob \<noteq> 0"
    using typed_object [OF assms] by blast
  then obtain mx where "body ob = Mutex_Body mx" by (auto simp: typed_obj_def typed_body_def split: obj_body.splits)
  moreover have "kept s (put_obj s a (ob\<lparr>body := Mutex_Body mx'\<rparr>))" for mx'
    using assms(1) ob by (intro kept_put) (auto simp: typed_obj_def typed_body_def)
  ultimately show ?thesis using ob(1) by (intro that [of mx]) (simp_all add: mutex_at_def obj_at_def put_mutex_def)
qed

lemma typed_barrier:
  assumes "typed s" "ready s a Barrier_Handler"
  obtains w where "barrier_waiter s a = Inr w" "\<And>w'. kept s (put_barrier s a w')"
proof -
  obtain ob where ob: "obj_mem s a = Some ob" "obj_handler ob = Barrier_Handler" "typed_obj s ob" "inited ob \<noteq> 0"
    using typed_object [OF assms] by blast
  then obtain w where "body ob = Barrier_Body w" by (auto simp: typed_obj_def typed_body_def split: obj_body.splits)
  moreover have "kept s (put_obj s a (ob\<lparr>body := Barrier_Body w'\<rparr>))" for w'
    using assms(1) ob by (intro kept_put) (auto simp: typed_obj_def typed_body_def)
  ultimately show ?thesis using ob(1) by (intro that [of w]) (simp_all add: barrier_waiter_def obj_at_def put_barrier_def)
qed

lemma typed_region:
  assumes "typed s" "ready s a Memory_Handler"
  obtains r where "region_at s a = Inr r" "wf_region (memory_pagesize s) r"
    "\<And>r'. wf_region (memory_pagesize s) r' \<Longrightarrow> kept s (put_region s a r')"
proof -
  obtain ob where ob: "obj_mem s a = Some ob" "obj_handler ob = Memory_Handler" "typed_obj s ob" "inited ob \<noteq> 0"
    using typed_object [OF assms] by blast
  then obtain r where "body ob = Region_Body r" "wf_region (memory_pagesize s) r"
    by (auto simp: typed_obj_def typed_body_def split: obj_body.splits)
  moreover have "kept s (put_obj s a (ob\<lparr>body := Region_Body r'\<rparr>))" if "wf_region (memory_pagesize s) r'" for r'
    using assms(1) ob that by (intro kept_put) (auto simp: typed_obj_def typed_body_def)
  ultimately show ?thesis using ob(1) by (intro that [of r]) (simp_all add: region_at_def obj_at_def put_region_def)
qed

lemma kept_ready: "kept s t \<Longrightarrow> ready s a k \<Longrightarrow> ready t a k"
  by (simp add: kept_def)

lemma kept_typed: "kept s t \<Longrightarrow> typed t"
  by (simp add: kept_def)

lemma kept_after: "kept s t \<Longrightarrow> safe (\<lambda>x. kept t (g x)) m \<Longrightarrow> safe (\<lambda>x. kept s (g x)) m"
  by (erule safe_mono) (rule kept_trans)

lemma keeps_result: "keeps s m \<Longrightarrow> keeps s (res_bind m (\<lambda>(_, s'). Inr (c, s')))"
  by (cases m) auto

subsection \<open>Objects\<close>

lemma keeps_send:
  assumes "enough_memory rt" "typed s" "ready s a k"
  shows "keeps s (edsm_dobj_send rt os call a m s)"
proof -
  obtain ob where "obj_mem s a = Some ob" "my_id s \<notin> set (obj_peers ob)"
    using typed_object [OF assms(2,3)] by (auto simp: typed_obj_def)
  with assms show ?thesis by (intro keeps_world safe_dobj_send) (auto simp: typed_def)
qed

lemma keeps_mutex_reply:
  assumes rt: "enough_memory rt" and s: "typed s" "ready s a Mutex_Handler"
  shows "keeps s (edsm_mutex_send_reply rt os call a peer s)"
proof -
  obtain mx where mx: "mutex_at s a = Inr mx" "\<And>mx'. kept s (put_mutex s a mx')" using typed_mutex [OF s] by blast
  have "keeps s (edsm_dobj_send rt os call a m (put_mutex s a mx'))" for m mx'
    by (rule kept_after [OF mx(2) keeps_send [OF rt kept_typed [OF mx(2)] kept_ready [OF mx(2) s(2)]]])
  then have "keeps s (res_bind (edsm_dobj_send rt os call a m (put_mutex s a mx')) (\<lambda>(_, s'). Inr (SUCCESS, s')))" for m mx'
    by (rule keeps_result)
  then show ?thesis
    unfolding edsm_mutex_send_reply_def mx(1) res_bind_Inr Let_def
    by - (rule safe_bind, simp, rule safe_bind, simp add: rt)
qed

lemma keeps_mutex_message:
  assumes rt: "enough_memory rt" and s: "typed s" "ready s a Mutex_Handler"
  shows "keeps s (edsm_mutex_handle_message rt os call a peer msg s)"
proof -
  obtain mx where mx: "mutex_at s a = Inr mx" "\<And>mx'. kept s (put_mutex s a mx')" using typed_mutex [OF s] by blast
  have "keeps s (edsm_mutex_send_reply rt os call a peer (put_mutex s a mx'))" for mx'
    by (rule kept_after [OF mx(2) keeps_mutex_reply [OF rt kept_typed [OF mx(2)] kept_ready [OF mx(2) s(2)]]])
  then have reply: "keeps s (res_bind (edsm_mutex_send_reply rt os call a peer (put_mutex s a mx')) (\<lambda>(_, s'). Inr (SUCCESS, s')))" for mx'
    by (rule keeps_result)
  show ?thesis
    unfolding edsm_mutex_handle_message_def Let_def mx(1) res_bind_Inr
    apply (rule safe_bind, simp)
    apply (rule safe_reads, simp)
    apply (rule safe_reads, simp)
    apply (rule safe_bind, simp)
    apply (rule safe_bind, simp)
    apply (rule safe_if)
     apply (rule safe_bind, simp)
     apply (rule safe_if)
      apply (rule reply)
     apply (rule safe_bind, simp, simp add: mx(2))
    apply (rule safe_if; simp add: mx(2))
    done
qed

lemma stays_replies:
  assumes rt: "enough_memory rt"
  shows "typed s \<Longrightarrow> ready s a Mutex_Handler \<Longrightarrow> stays s (send_replies rt os call a es s)"
proof (induction es arbitrary: s)
  case (Cons e es)
  show ?case unfolding send_replies.simps
    by (rule keeps_stays [OF keeps_mutex_reply [OF rt Cons.prems]]) (simp add: Cons.IH kept_ready [OF _ Cons.prems(2)])
qed simp

lemma stays_lock_start:
  assumes rt: "enough_memory rt" and s: "typed s" "ready s a Mutex_Handler"
    and r: "edsm_mutex_lock_start rt os call a s = Some r"
  shows "stays s r"
proof -
  obtain mx where mx: "mutex_at s a = Inr mx" "\<And>mx'. kept s (put_mutex s a mx')" using typed_mutex [OF s] by blast
  have peers: "sane (edsm_dobj_get_peers a s)"
    using s(2) by (auto simp: edsm_dobj_get_peers_def obj_at_def ready_def split: option.splits)
  have send: "stays s (res_bind (edsm_dobj_send rt os call a m (put_mutex s a mx')) (\<lambda>(_, s1).
      res_bind (non_null (malloc rt 24)) (\<lambda>_. res_bind (mutex_at s1 a) (\<lambda>mx1.
      Inr (put_mutex s1 a (mx1\<lparr>local_request := Some \<lparr>req_time = t, req_peer = edsm_proto_local_id s1\<rparr>\<rparr>))))))" for m mx' t
  proof (rule kept_after [OF mx(2), of _ "\<lambda>s. s"], rule keeps_stays)
    show "keeps (put_mutex s a mx') (edsm_dobj_send rt os call a m (put_mutex s a mx'))"
      using kept_typed [OF mx(2)] by (rule keeps_send [OF rt _ kept_ready [OF mx(2) s(2)]])
    fix rc s1 assume k: "kept (put_mutex s a mx') s1" "typed s1"
    obtain mx1 where "mutex_at s1 a = Inr mx1" "\<And>mx'. kept s1 (put_mutex s1 a mx')"
      using typed_mutex [OF k(2) kept_ready [OF k(1) kept_ready [OF mx(2) s(2)]]] by blast
    then show "stays s1 (case (rc, s1) of (_, s1) \<Rightarrow> res_bind (non_null (malloc rt 24)) (\<lambda>_. res_bind (mutex_at s1 a) (\<lambda>mx1.
      Inr (put_mutex s1 a (mx1\<lparr>local_request := Some \<lparr>req_time = t, req_peer = edsm_proto_local_id s1\<rparr>\<rparr>)))))"
      by (simp only: prod.case) (rule safe_bind, simp, simp)
  qed
  have "r = res_bind (check AssertionFailed (local_request mx = None)) (\<lambda>_.
            res_bind (edsm_dobj_get_peers a s) (\<lambda>ps.
            let t = l_time mx + 1;
                mx = mx\<lparr>l_time := t, local_locked := True, mutex_waiter := waiter_set_wait_on (mutex_waiter mx) ps\<rparr>
            in res_bind (new_message rt 8) (\<lambda>m.
               res_bind (write_u32s rt m [EDSM_MUTEX_MSG_TYPE_REQUEST, t]) (\<lambda>m1.
               res_bind (edsm_dobj_send rt os call a (Some m1) (put_mutex s a mx)) (\<lambda>(_, s1).
               res_bind (non_null (malloc rt 24)) (\<lambda>_.
               res_bind (mutex_at s1 a) (\<lambda>mx1.
               Inr (put_mutex s1 a
                 (mx1\<lparr>local_request := Some \<lparr>req_time = t, req_peer = edsm_proto_local_id s1\<rparr>\<rparr>)))))))))"
    using r by (simp add: edsm_mutex_lock_start_def mx(1) split: if_splits)
  then show ?thesis
    unfolding Let_def
    apply (simp only:)
    apply (rule safe_bind, simp)
    apply (rule safe_bind, rule peers)
    apply (rule safe_bind, simp)
    apply (rule safe_bind, simp add: rt)
    apply (rule send)
    done
qed

subsection \<open>Barriers and memory\<close>

lemma stays_barrier_reply:
  assumes "typed s" "ready s a Barrier_Handler"
  shows "stays s (barrier_add_reply a peer s)"
proof -
  obtain w where "barrier_waiter s a = Inr w" "\<And>w'. kept s (put_barrier s a w')" using typed_barrier [OF assms] by blast
  then show ?thesis by (cases w) (simp_all add: barrier_add_reply_def)
qed

lemma keeps_barrier_message:
  "typed s \<Longrightarrow> ready s a Barrier_Handler \<Longrightarrow> keeps s (edsm_barrier_handle_message a peer msg s)"
  unfolding edsm_barrier_handle_message_def by (drule (1) stays_barrier_reply) (erule safe_bind_with, simp)

lemma keeps_arm:
  assumes "typed s" "ready s a Barrier_Handler"
  shows "keeps s (edsm_barrier_arm a ps s)"
proof -
  obtain w where "barrier_waiter s a = Inr w" "\<And>w'. kept s (put_barrier s a w')" using typed_barrier [OF assms] by blast
  then show ?thesis by (cases w) (simp_all add: edsm_barrier_arm_def)
qed

lemma keeps_memory_message:
  assumes s: "typed s" "ready s a Memory_Handler"
  shows "keeps s (edsm_memory_handle_message mprotect a peer msg s)"
proof -
  obtain r where r: "region_at s a = Inr r" "wf_region (memory_pagesize s) r"
    "\<And>r'. wf_region (memory_pagesize s) r' \<Longrightarrow> kept s (put_region s a r')" using typed_region [OF s] by blast
  show ?thesis
    unfolding edsm_memory_handle_message_def r(1) res_bind_Inr
    by (rule safe_bind, simp, rule safe_bind_with [OF safe_memory_receive [OF r(2)]]) (simp add: r(3))
qed

text \<open>The diff of a region, stored and sent.\<close>

lemma keeps_diff:
  assumes rt: "enough_memory rt" and s: "typed s" "ready s a Memory_Handler"
    and f: "\<And>n r' d. kept s (put_region s a r') \<Longrightarrow> safe (\<lambda>y. kept s (h y)) (f n r' d)"
  shows "safe (\<lambda>y. kept s (h y)) (res_bind (region_at s a) (\<lambda>r.
      res_bind (diff_region rt mprotect (memory_pagesize s) r m) (\<lambda>(n, r', d). f n r' d)))"
proof -
  obtain r where r: "region_at s a = Inr r" "wf_region (memory_pagesize s) r"
    "\<And>r'. wf_region (memory_pagesize s) r' \<Longrightarrow> kept s (put_region s a r')" using typed_region [OF s] by blast
  have "safe (\<lambda>y. kept s (h y)) (case x of (n, r', d) \<Rightarrow> f n r' d)"
    if "case x of (_, r', _) \<Rightarrow> wf_region (memory_pagesize s) r'" for x
    using that by (cases x) (simp add: f r(3))
  then show ?thesis
    unfolding r(1) res_bind_Inr by (rule safe_bind_with [OF safe_diff_region [OF rt r(2)]])
qed

lemma keeps_tx_end_regions:
  assumes rt: "enough_memory rt"
  shows "typed s \<Longrightarrow> \<forall>a \<in> set as. ready s a Memory_Handler \<Longrightarrow> keeps s (tx_end_regions rt os call mprotect as rc s)"
proof (induction as arbitrary: rc s)
  case (Cons a as)
  have a: "ready s a Memory_Handler" using Cons.prems(2) by simp
  have rest: "keeps t (tx_end_regions rt os call mprotect as rc' t)" if "kept s t" for t rc'
    using Cons.prems(2) kept_ready [OF that] kept_typed [OF that] by (intro Cons.IH) simp_all
  show ?case
    unfolding tx_end_regions.simps Let_def
  proof (rule safe_bind, simp, rule keeps_diff [OF rt Cons.prems(1) a], rule safe_if)
    fix n r' d rc' assume k: "kept s (put_region s a r')"
    have "keeps s (edsm_dobj_send rt os call a (Some d) (put_region s a r'))"
      by (rule kept_after [OF k keeps_send [OF rt kept_typed [OF k] kept_ready [OF k a]]])
    then show "keeps s (res_bind (edsm_dobj_send rt os call a (Some d) (put_region s a r')) (\<lambda>(rc', s2).
        tx_end_regions rt os call mprotect as (if rc' = FAILURE then FAILURE else rc) s2))"
    proof (rule safe_bind_with)
      fix x :: "int \<times> ('a, 'b) node" assume "kept s (snd x)"
      then show "keeps s (case x of (rc', s2) \<Rightarrow> tx_end_regions rt os call mprotect as (if rc' = FAILURE then FAILURE else rc) s2)"
        using kept_after [OF _ rest] by (cases x) simp
    qed
    show "keeps s (tx_end_regions rt os call mprotect as rc (put_region s a r'))"
      by (rule kept_after [OF k rest [OF k]])
  qed
qed simp

lemma keeps_tx_end:
  assumes rt: "enough_memory rt" and s: "typed s" and a: "\<And>a. region = Some a \<Longrightarrow> ready s a Memory_Handler"
  shows "keeps s (edsm_memory_tx_end rt os call mprotect region s)"
proof (cases region)
  case None
  have "\<forall>a \<in> set (memory_regions s). ready s a Memory_Handler" using s by (simp add: typed_def)
  with None show ?thesis using keeps_tx_end_regions [OF rt s] by (simp add: edsm_memory_tx_end_def)
next
  case (Some b)
  note b = a [OF Some]
  show ?thesis
    unfolding edsm_memory_tx_end_def Some option.case
  proof (rule safe_bind, simp, rule keeps_diff [OF rt s b])
    fix n r' d assume k: "kept s (put_region s b r')"
    have "keeps s (edsm_dobj_send rt os call b (Some d) (put_region s b r'))"
      by (rule kept_after [OF k keeps_send [OF rt kept_typed [OF k] kept_ready [OF k b]]])
    then show "keeps s (res_bind (edsm_dobj_send rt os call b (Some d) (put_region s b r')) (\<lambda>(rc', s1).
        Inr (if rc' = FAILURE then FAILURE else SUCCESS, s1)))"
      by (rule safe_bind_with) auto
  qed
qed

lemma keeps_unlock:
  assumes rt: "enough_memory rt" and s: "typed s" "ready s a Mutex_Handler"
  shows "keeps s (edsm_mutex_unlock rt os call mprotect a s)"
  unfolding edsm_mutex_unlock_def
proof (rule keeps_keeps [OF keeps_tx_end [OF rt s(1)]])
  fix rc s1 assume k: "kept s s1" "typed s1"
  note a = kept_ready [OF k(1) s(2)]
  obtain mx where mx: "mutex_at s1 a = Inr mx" using typed_mutex [OF k(2) a] by blast
  have "keeps s1 (res_bind (send_replies rt os call a (requests mx) s1) (\<lambda>s2. res_bind (mutex_at s2 a) (\<lambda>mx2.
     Inr (SUCCESS, put_mutex s2 a (mx2\<lparr>requests := [], local_request := None, local_locked := False\<rparr>)))))"
  proof (rule stays_keeps [OF stays_replies [OF rt k(2) a]])
    fix s2 assume k2: "kept s1 s2" "typed s2"
    obtain mx2 where "mutex_at s2 a = Inr mx2" "\<And>mx'. kept s2 (put_mutex s2 a mx')"
      using typed_mutex [OF k2(2) kept_ready [OF k2(1) a]] by blast
    then show "keeps s2 (res_bind (mutex_at s2 a) (\<lambda>mx2.
       Inr (SUCCESS, put_mutex s2 a (mx2\<lparr>requests := [], local_request := None, local_locked := False\<rparr>))))" by simp
  qed
  then show "keeps s1 (case (rc, s1) of (_, s1) \<Rightarrow> res_bind (mutex_at s1 a) (\<lambda>mx.
     res_bind (send_replies rt os call a (requests mx) s1) (\<lambda>s2. res_bind (mutex_at s2 a) (\<lambda>mx2.
     Inr (SUCCESS, put_mutex s2 a (mx2\<lparr>requests := [], local_request := None, local_locked := False\<rparr>))))))"
    by (simp add: mx)
qed simp

lemma keeps_notify:
  assumes rt: "enough_memory rt" and s: "typed s" "ready s a Barrier_Handler"
  shows "keeps s (edsm_barrier_notify rt os call mprotect a s)"
  unfolding edsm_barrier_notify_def
proof (rule keeps_keeps [OF keeps_tx_end [OF rt s(1)]])
  fix rc s1 assume k: "kept s s1" "typed s1"
  note a = kept_ready [OF k(1) s(2)]
  have "keeps s1 (res_bind (edsm_dobj_send rt os call a None s1) (\<lambda>(_, s2).
     res_bind (barrier_add_reply a (edsm_proto_local_id s2) s2) (\<lambda>s3. Inr (SUCCESS, s3))))"
  proof (rule keeps_keeps [OF keeps_send [OF rt k(2) a]])
    fix rc' s2 assume k2: "kept s1 s2" "typed s2"
    show "keeps s2 (case (rc', s2) of (_, s2) \<Rightarrow> res_bind (barrier_add_reply a (edsm_proto_local_id s2) s2) (\<lambda>s3. Inr (SUCCESS, s3)))"
      unfolding prod.case by (rule safe_bind_with [OF stays_barrier_reply [OF k2(2) kept_ready [OF k2(1) a]]]) simp
  qed
  then show "keeps s1 (case (rc, s1) of (_, s1) \<Rightarrow> res_bind (edsm_dobj_send rt os call a None s1) (\<lambda>(_, s2).
     res_bind (barrier_add_reply a (edsm_proto_local_id s2) s2) (\<lambda>s3. Inr (SUCCESS, s3))))" by simp
qed simp

subsection \<open>Messages\<close>

lemma typed_fields [simp]:
  "typed (s\<lparr>max_obj_id := v\<rparr>) = typed s"
  by (simp add: typed_def wf_peers_def wf_objects_def typed_obj_def has_kind_def ready_def wf_tasks_def ids_of_def peer_of_def [abs_def])

lemma keeps_obj_call:
  "enough_memory rt \<Longrightarrow> typed s \<Longrightarrow> ready s a k \<Longrightarrow> keeps s (obj_call rt os mprotect call k a peer msg s)"
  by (cases k) (simp_all add: obj_call_def keeps_mutex_message keeps_barrier_message keeps_memory_message)

lemma typed_found:
  assumes "typed s" "find_obj s i = Some a"
  obtains ob where "obj_mem s a = Some ob" "typed_obj s ob" "inited ob \<noteq> 0 \<Longrightarrow> ready s a (obj_handler ob)"
proof -
  have "wf_objects s" using assms(1) by (simp add: typed_def)
  then obtain ob where "obj_mem s a = Some ob" using assms(2) by (rule find_obj_live)
  then show ?thesis using assms(1) by (intro that [of ob]) (auto simp: typed_def ready_def)
qed

lemma sane_read_dobj [simp]: "sane (read_dobj m s)"
  by (auto simp: read_dobj_def intro!: safe_bind)

lemma read_dobj_found: "read_dobj m s = Inr (i, p, m') \<Longrightarrow> p = find_obj s i"
  by (auto simp: read_dobj_def res_bind_eq_Inr split: prod.splits)

lemma kept_holder:
  assumes "typed s" "obj_mem s a = Some ob" "peer \<noteq> my_id s"
  shows "kept s (put_obj s a ((if b then add_peer_reference peer ob else ob)\<lparr>obj_waiter := w\<rparr>))"
    "kept s (put_obj s a (add_peer_reference peer ob))"
proof -
  have t: "typed_obj s ob" using assms(1,2) by (simp add: typed_def)
  show "kept s (put_obj s a (add_peer_reference peer ob))"
    using t assms(3) by (intro kept_put [OF assms(1,2)]) (auto simp: typed_obj_def add_peer_reference_def)
  show "kept s (put_obj s a ((if b then add_peer_reference peer ob else ob)\<lparr>obj_waiter := w\<rparr>))"
    using t assms(3) by (intro kept_put [OF assms(1,2)]) (auto simp: typed_obj_def add_peer_reference_def)
qed

lemma keeps_get_reply_sent:
  assumes "enough_memory rt" "kept s t" "p \<noteq> my_id s"
  shows "keeps s (res_bind (edsm_dobj_send_get_reply rt os call p i have t) (\<lambda>(_, s'). Inr (SUCCESS, s')))"
proof (rule kept_after [OF assms(2)], rule keeps_result, rule keeps_world [OF kept_typed [OF assms(2)]], rule safe_get_reply [OF assms(1)])
  show "wf_peers t" "p \<noteq> my_id t" using assms(2,3) by (simp_all add: kept_def typed_def)
qed

lemma keeps_handle_get:
  assumes rt: "enough_memory rt" and s: "typed s" "peer \<noteq> my_id s"
  shows "keeps s (edsm_dobj_handle_get rt os call peer m s)"
  unfolding edsm_dobj_handle_get_def
proof (rule safe_reads, simp)
  fix i p m' assume "read_dobj m s = Inr (i, p, m')"
  then have p: "p = find_obj s i" by (rule read_dobj_found)
  show "keeps s (case p of
       Some a \<Rightarrow> res_bind (obj_at s a) (\<lambda>ob.
         res_bind (edsm_dobj_send_get_reply rt os call peer i 1 (put_obj s a (add_peer_reference peer ob))) (\<lambda>(_, s').
         Inr (SUCCESS, s')))
     | None \<Rightarrow> res_bind (edsm_dobj_send_get_reply rt os call peer i 0 s) (\<lambda>(_, s'). Inr (SUCCESS, s')))"
  proof (cases p)
    case None
    then show ?thesis using keeps_get_reply_sent [OF rt _ s(2)] s(1) by simp
  next
    case (Some a)
    then obtain ob where ob: "obj_mem s a = Some ob" using typed_found [OF s(1)] p by metis
    then show ?thesis
      using Some keeps_get_reply_sent [OF rt kept_holder(2) [OF s(1) ob s(2)] s(2)] by (simp add: obj_at_def)
  qed
qed

lemma keeps_handle_get_reply:
  assumes s: "typed s" "peer \<noteq> my_id s"
  shows "keeps s (edsm_dobj_handle_get_reply peer m s)"
  unfolding edsm_dobj_handle_get_reply_def
proof (rule safe_reads, simp, rule safe_reads, simp, rule safe_option)
  fix i p m' a have'
  assume "read_dobj m s = Inr (i, p, m')" "p = Some a"
  then have "find_obj s i = Some a" using read_dobj_found by metis
  then obtain ob where ob: "obj_mem s a = Some ob" using typed_found [OF s(1)] by metis
  show "keeps s (res_bind (determinate have') (\<lambda>have. res_bind (obj_at s a) (\<lambda>ob.
         let ob1 = (if have \<noteq> 0 then add_peer_reference peer ob else ob)
         in Inr (SUCCESS, put_obj s a (ob1\<lparr>obj_waiter := waiter_add_reply (obj_waiter ob1) peer\<rparr>)))))"
    using kept_holder(1) [OF s(1) ob s(2)] by (cases have') (simp_all add: obj_at_def ob Let_def)
qed (simp add: s)

lemma keeps_handle_create:
  assumes s: "typed s"
  shows "keeps s (edsm_dobj_handle_create peer m s)"
proof -
  have "kept s (s\<lparr>max_obj_id := v\<rparr>)" for v using s by (simp add: kept_def has_kind_def ready_def)
  then show ?thesis unfolding edsm_dobj_handle_create_def by - (rule safe_reads, simp, rule safe_bind, simp, simp)
qed

lemma keeps_dobj_message:
  assumes rt: "enough_memory rt" and s: "typed s" "peer \<noteq> my_id s"
  shows "keeps s (edsm_dobj_handle_message rt os call (obj_call rt os mprotect call') peer m s)"
proof -
  have object: "keeps s (res_bind (read_dobj m1 s) (\<lambda>(dobj_id, dobj, msg2). case dobj of
         None \<Rightarrow> Inr (FAILURE, s)
       | Some a \<Rightarrow>
           res_bind (obj_at s a) (\<lambda>ob.
           if inited ob \<noteq> 0 then
             res_bind (edsm_message_read_message rt msg2 None) (\<lambda>(rc', dobj_msg, msg3).
             if rc' \<noteq> FAILURE
             then res_bind (obj_call rt os mprotect call' (obj_handler ob) a peer dobj_msg s) (\<lambda>(_, s'). Inr (FAILURE, s'))
             else Inr (FAILURE, s))
           else Inr (FAILURE, s))))" for m1
  proof (rule safe_reads, simp, rule safe_option)
    fix i p m2 a
    assume "read_dobj m1 s = Inr (i, p, m2)" "p = Some a"
    then have "find_obj s i = Some a" using read_dobj_found by metis
    then obtain ob where ob: "obj_mem s a = Some ob" "inited ob \<noteq> 0 \<Longrightarrow> ready s a (obj_handler ob)"
      using typed_found [OF s(1)] by metis
    have "keeps s (res_bind (edsm_message_read_message rt m2 None) (\<lambda>(rc', dobj_msg, msg3).
        if rc' \<noteq> FAILURE
        then res_bind (obj_call rt os mprotect call' (obj_handler ob) a peer dobj_msg s) (\<lambda>(_, s'). Inr (FAILURE, s'))
        else Inr (FAILURE, s)))" if "inited ob \<noteq> 0"
      by (rule safe_reads, simp, rule safe_if, rule keeps_result, rule keeps_obj_call [OF rt s(1) ob(2) [OF that]]) (simp add: s(1))
    then show "keeps s (res_bind (obj_at s a) (\<lambda>ob.
           if inited ob \<noteq> 0 then
             res_bind (edsm_message_read_message rt m2 None) (\<lambda>(rc', dobj_msg, msg3).
             if rc' \<noteq> FAILURE
             then res_bind (obj_call rt os mprotect call' (obj_handler ob) a peer dobj_msg s) (\<lambda>(_, s'). Inr (FAILURE, s'))
             else Inr (FAILURE, s))
           else Inr (FAILURE, s)))"
      using s(1) by (simp add: obj_at_def ob(1))
  qed (simp add: s(1))
  show ?thesis
    unfolding edsm_dobj_handle_message_def
    apply (rule safe_reads, simp)
    apply (rule safe_bind, simp)
    apply (rule safe_if, rule keeps_handle_create [OF s(1)])
    apply (rule safe_if, rule keeps_handle_get [OF rt s])
    apply (rule safe_if, rule keeps_handle_get_reply [OF s])
    apply (rule safe_if, rule object)
    apply (simp add: s(1))
    done
qed

lemma keeps_up_call:
  assumes s: "typed s"
  shows "keeps s (edsm_task_handle_up_call rt spawn_ok peer m s)"
proof -
  have go: "keeps s (edsm_task_do_up_call rt spawn_ok name peer event params s)" for name event params
  proof (cases "find_task s name")
    case None
    then show ?thesis using s by (simp add: edsm_task_do_up_call_def find_task_def)
  next
    case (Some a)
    have "a \<in> set (HASH_ITER (task_table s))"
      using Some s uthash.find_iff [of "task_key (task_mem s)" "task_table s" name a]
      by (simp add: find_task_def typed_def wf_tasks_def)
    then have "task_mem s a \<noteq> None" using s by (auto simp: typed_def wf_tasks_def)
    then have "kept s (s\<lparr>task_threads := task_threads s @ [t]\<rparr>)" if "thread_task t = a" for t
      using s that by (auto simp: kept_def typed_def wf_peers_def wf_objects_def typed_obj_def has_kind_def ready_def wf_tasks_def ids_of_def peer_of_def [abs_def])
    then show ?thesis
      using Some s unfolding edsm_task_do_up_call_def find_task_def [symmetric]
      by - (simp only: option.case, rule safe_bind, simp, simp)
  qed
  show ?thesis
    unfolding edsm_task_handle_up_call_def
    apply (rule safe_pair, simp)
    apply (rule safe_option, simp add: s)
    apply (rule safe_reads, simp)
    apply (rule safe_if, simp add: s)
    apply (rule safe_reads, simp)
    apply (rule safe_if, simp add: s)
    apply (rule safe_bind, simp)
    apply (rule safe_bind, simp)
    apply (rule go)
    done
qed

section \<open>Getting objects\<close>

text \<open>The three functions that look an object up, by the handler they register.\<close>

definition get_start ::
    "runtime \<Rightarrow> 'w os \<Rightarrow> ('h, 'w, (obj_msg_handler, 'z memory_ext) dobjs_ext) call \<Rightarrow> obj_msg_handler \<Rightarrow> u32
       \<Rightarrow> ('h, 'w, obj_msg_handler, 'z) memory_scheme \<Rightarrow> (nat \<times> bool \<times> ('h, 'w, obj_msg_handler, 'z) memory_scheme) res" where
  "get_start rt os call k i s =
     (case k of
        Mutex_Handler \<Rightarrow> edsm_mutex_get_start rt os call i Mutex_Handler s
      | Barrier_Handler \<Rightarrow> edsm_barrier_get_start rt os call i Barrier_Handler s
      | Memory_Handler \<Rightarrow> edsm_dobj_get_start rt os call i sizeof_region (Region_Body zero_region) Memory_Handler s)"

definition get_finish ::
    "(nat \<Rightarrow> bool) \<Rightarrow> (nat \<Rightarrow> nat option) \<Rightarrow> obj_msg_handler \<Rightarrow> nat \<Rightarrow> nat \<Rightarrow> bool
       \<Rightarrow> ('h, 'w, obj_msg_handler, 'z) memory_scheme \<Rightarrow> (nat option \<times> ('h, 'w, obj_msg_handler, 'z) memory_scheme) res option" where
  "get_finish mprotect memalign k sz a wait s =
     (case k of
        Mutex_Handler \<Rightarrow> map_option (\<lambda>r. res_bind r (\<lambda>(a, s1). Inr (Some a, s1))) (edsm_mutex_get_finish a wait s)
      | Barrier_Handler \<Rightarrow> map_option (\<lambda>r. res_bind r (\<lambda>(a, s1). Inr (Some a, s1))) (edsm_barrier_get_finish a wait s)
      | Memory_Handler \<Rightarrow> map_option (\<lambda>r. res_bind r (\<lambda>(a, s1). edsm_memory_region_get mprotect memalign sz a s1))
          (edsm_dobj_get_finish a wait s))"

lemma typed_blank: "0 < ps \<Longrightarrow> typed_body ps k (blank_body k)"
  by (cases k) (simp_all add: typed_body_def blank_body_def wf_region_def zero_region_def)

lemma add_object_fields [simp]:
  "my_id (add_object ob s) = my_id s" "obj_mem (add_object ob s) = (obj_mem s)(obj_brk s \<mapsto> ob)"
  "peers (add_object ob s) = peers s" "peer_mem (add_object ob s) = peer_mem s"
  by (simp_all add: add_object_def put_obj_def Let_def)

lemma add_object_memory [simp]:
  "memory_pagesize (add_object ob s) = memory_pagesize s" "memory_regions (add_object ob s) = memory_regions s"
  by (simp_all add: add_object_def put_obj_def Let_def)

lemma kept_new_object:
  assumes s: "typed s" "can_expand (objects s)" and new: "find_obj s (obj_id ob) = None" and t: "typed_obj s ob"
  shows "kept s (add_object ob s)" "obj_mem (add_object ob s) (obj_brk s) = Some ob"
proof -
  let ?s2 = "add_object ob s"
  have wf: "wf_objects s" using s(1) by (simp add: typed_def)
  then have free: "obj_mem s (obj_brk s) = None" by (simp add: wf_objects_def)
  have f: "peers ?s2 = peers s" "peer_mem ?s2 = peer_mem s" "my_id ?s2 = my_id s" "memory_pagesize ?s2 = memory_pagesize s"
    "memory_regions ?s2 = memory_regions s" "task_mem ?s2 = task_mem s" "task_threads ?s2 = task_threads s"
    "task_table ?s2 = task_table s" "task_brk ?s2 = task_brk s" "obj_mem ?s2 = (obj_mem s)(obj_brk s \<mapsto> ob)"
    by (simp_all add: add_object_def put_obj_def Let_def)
  have "wf_peers ?s2" "wf_tasks ?s2"
    using s(1) f by (simp_all add: typed_def wf_peers_def wf_tasks_def ids_of_def peer_of_def [abs_def])
  moreover have "has_kind s a k \<Longrightarrow> has_kind ?s2 a k" "ready s a k \<Longrightarrow> ready ?s2 a k" for a k
    using free by (auto simp: has_kind_def ready_def f split: option.splits)
  ultimately show "kept s ?s2"
    using s(1) t add_object_ok(1) [OF wf s(2) new] by (auto simp: kept_def typed_def typed_obj_def f split: if_splits)
  show "obj_mem ?s2 (obj_brk s) = Some ob" by (simp add: f)
qed

lemma get_start_typed:
  assumes rt: "enough_memory rt" and s: "typed s" "can_expand (objects s)"
    and known: "\<And>a. find_obj s i = Some a \<Longrightarrow> has_kind s a k"
  shows "safe (\<lambda>(a, _, s'). kept s s' \<and> has_kind s' a k) (get_start rt os call k i s)"
proof -
  define sz where "sz = (case k of Mutex_Handler \<Rightarrow> sizeof_edsm_mutex | Barrier_Handler \<Rightarrow> sizeof_edsm_barrier | Memory_Handler \<Rightarrow> sizeof_region)"
  have start: "get_start rt os call k i s = edsm_dobj_get_start rt os call i sz (blank_body k) k s"
    by (simp add: get_start_def edsm_mutex_get_start_def edsm_barrier_get_start_def blank_body_def sz_def split: obj_msg_handler.split)
  have sz: "sizeof_edsm_dobj \<le> sz"
    by (simp add: sz_def sizeof_edsm_dobj_def sizeof_edsm_mutex_def sizeof_edsm_barrier_def sizeof_region_def split: obj_msg_handler.split)
  show ?thesis
  proof (cases "find_obj s i")
    case (Some a)
    then show ?thesis using sz s(1) known by (simp add: start edsm_dobj_get_start_def)
  next
    case None
    let ?ob = "waiting_object i k (blank_body k) []"
    let ?s2 = "add_object ?ob s"
    let ?s3 = "put_obj ?s2 (obj_brk s) (waiting_object i k (blank_body k) (ids_of ?s2))"
    have n: "find_obj s (obj_id ?ob) = None" using None by (simp add: waiting_object_def)
    have "typed_obj s ?ob" using s(1) by (simp add: typed_obj_def waiting_object_def typed_blank typed_def)
    note k2 = kept_new_object [OF s n this]
    have "typed_obj ?s2 (waiting_object i k (blank_body k) (ids_of ?s2))"
      using s(1) by (simp add: typed_obj_def waiting_object_def typed_blank typed_def)
    then have "kept ?s2 ?s3" by (intro kept_put [OF kept_typed [OF k2(1)] k2(2)]) (simp_all add: waiting_object_def)
    then have k3: "kept s ?s3" by (rule kept_trans [OF k2(1)])
    have wp: "wf_peers ?s2" "wf_peers ?s3" using k2(1) k3 by (simp_all add: kept_def typed_def)
    have "malloc rt sz \<noteq> None" using rt by simp
    then have e: "get_start rt os call k i s
        = res_bind (edsm_dobj_send_get rt os call i ?s3) (\<lambda>(_, s3). Inr (obj_brk s, True, s3))"
      using None sz rt peer_ids_eq [OF wp(1)]
      by (simp add: start edsm_dobj_get_start_def add_object_def put_obj_def waiter_create_def waiter_set_wait_on_def Let_def waiting_object_def)
    show ?thesis
      unfolding e by (rule safe_world_bind [OF safe_send_get [OF rt wp(2)]])
        (use k3 in \<open>simp add: has_kind_def ready_def waiting_object_def\<close>)
  qed
qed

lemma dobj_get_finish_typed:
  assumes s: "typed s" "has_kind s a k" and r: "edsm_dobj_get_finish a wait s = Some r"
  shows "\<exists>t. r = Inr (a, t) \<and> kept s t"
proof -
  obtain ob where ob: "obj_mem s a = Some ob" "typed_obj s ob" using typed_known [OF s] by blast
  have "kept s (put_obj s a (ob\<lparr>ref_count := ref_count ob + 1\<rparr>))"
    using ob(2) by (intro kept_put [OF s(1) ob(1)]) (simp_all add: typed_obj_def)
  then show ?thesis using r ob(1) by (auto simp: edsm_dobj_get_finish_def obj_at_def split: if_splits)
qed

text \<open>The object is ready after that, and was blank if it was not before.\<close>

lemma test_and_init_typed:
  assumes s: "typed s" "has_kind s a k"
  shows "\<exists>i t. edsm_dobj_test_and_init a s = Inr (i, t) \<and> kept s t \<and> ready t a k
    \<and> (\<forall>ob. i = 0 \<longrightarrow> obj_mem t a = Some ob \<longrightarrow> body ob = blank_body k)"
proof -
  obtain ob where ob: "obj_mem s a = Some ob" "obj_handler ob = k" "typed_obj s ob" using typed_known [OF s] by blast
  have "kept s (put_obj s a (ob\<lparr>inited := 1\<rparr>))"
    using ob(3) by (intro kept_put [OF s(1) ob(1)]) (simp_all add: typed_obj_def)
  then show ?thesis using ob by (auto simp: edsm_dobj_test_and_init_def obj_at_def ready_def typed_obj_def)
qed

lemma kept_regions:
  assumes "typed s" "ready s a Memory_Handler"
  shows "kept s (s\<lparr>memory_regions := a # memory_regions s\<rparr>)"
  using assms
  by (simp add: kept_def typed_def wf_peers_def wf_objects_def typed_obj_def has_kind_def ready_def wf_tasks_def ids_of_def peer_of_def [abs_def])

lemma keeps_region_get:
  assumes s: "typed s" "has_kind s a Memory_Handler"
    and al: "\<And>n h. memalign n = Some h \<Longrightarrow> h mod memory_pagesize s = 0"
  shows "keeps s (edsm_memory_region_get mprotect memalign sz a s)"
proof -
  obtain i t where t: "edsm_dobj_test_and_init a s = Inr (i, t)" "kept s t" "ready t a Memory_Handler"
    "\<And>ob. i = 0 \<Longrightarrow> obj_mem t a = Some ob \<Longrightarrow> body ob = Region_Body zero_region"
    using test_and_init_typed [OF s] unfolding blank_body_def obj_msg_handler.case by blast
  note t' = kept_typed [OF t(2)]
  obtain r where r: "region_at t a = Inr r" "wf_region (memory_pagesize t) r"
    "\<And>r'. wf_region (memory_pagesize t) r' \<Longrightarrow> kept t (put_region t a r')" using typed_region [OF t' t(3)] by blast
  let ?ps = "memory_pagesize t" let ?n = "round_up ?ps sz"
  have ps: "0 < ?ps" "?ps = memory_pagesize s" "?ps dvd 2 ^ 64" using t' t(2) by (simp_all add: typed_def kept_def)
  have "keeps t (case memalign ?n of
         None \<Rightarrow> Inr (None, put_region t a (r\<lparr>twins := []\<rparr>))
       | Some h \<Rightarrow> res_bind (region_protect mprotect (r\<lparr>twins := [], head := h, contents := replicate ?n 0, region_size := ?n\<rparr>)) (\<lambda>r1.
           Inr (Some a, (put_region t a r1)\<lparr>memory_regions := a # memory_regions t\<rparr>)))" if "i = 0"
  proof (rule safe_option)
    have "r = zero_region" using r(1) t(4) [OF that] by (auto simp: region_at_def obj_at_def split: option.splits)
    then show "keeps t (Inr (None, put_region t a (r\<lparr>twins := []\<rparr>)))" using r(2,3) by (simp add: zero_region_def)
  next
    fix h assume h: "memalign ?n = Some h"
    let ?r = "r\<lparr>twins := [], head := h, contents := replicate ?n 0, region_size := ?n, writable := (\<lambda>_. False)\<rparr>"
    have "wf_region ?ps ?r" using al [OF h] ps round_up_ok(4) [OF ps(1,3)] by (simp add: wf_region_def)
    then have k: "kept t (put_region t a ?r)" by (rule r(3))
    have "kept t ((put_region t a ?r)\<lparr>memory_regions := a # memory_regions t\<rparr>)"
      using kept_trans [OF k kept_regions [OF kept_typed [OF k] kept_ready [OF k t(3)]]] by simp
    then show "keeps t (res_bind (region_protect mprotect (r\<lparr>twins := [], head := h, contents := replicate ?n 0, region_size := ?n\<rparr>)) (\<lambda>r1.
           Inr (Some a, (put_region t a r1)\<lparr>memory_regions := a # memory_regions t\<rparr>)))"
      by (simp add: region_protect_def check_def)
  qed
  then show ?thesis
    using t' by (intro kept_after [OF t(2)]) (simp add: edsm_memory_region_get_def t(1) r(1) Let_def)
qed

lemma keeps_get_finish:
  assumes s: "typed s" "has_kind s a k" and r: "get_finish mprotect memalign k sz a wait s = Some r"
    and al: "\<And>n h. memalign n = Some h \<Longrightarrow> h mod memory_pagesize s = 0"
  shows "keeps s r"
proof -
  obtain q where q: "edsm_dobj_get_finish a wait s = Some q"
    using r by (auto simp: get_finish_def edsm_mutex_get_finish_def edsm_barrier_get_finish_def split: obj_msg_handler.splits)
  obtain t where t: "q = Inr (a, t)" "kept s t" using dobj_get_finish_typed [OF s q] by blast
  note t' = kept_typed [OF t(2)] have h: "has_kind t a k" using t(2) s(2) by (simp add: kept_def)
  obtain i u where u: "edsm_dobj_test_and_init a t = Inr (i, u)" "kept t u" "ready u a k"
    using test_and_init_typed [OF t' h] by blast
  note u' = kept_typed [OF u(2)] and su = kept_trans [OF t(2) u(2)]
  show ?thesis
  proof (cases k)
    case Mutex_Handler
    then obtain mx where "mutex_at u a = Inr mx" "\<And>mx'. kept u (put_mutex u a mx')" using typed_mutex [OF u'] u(3) by blast
    then show ?thesis
      using r Mutex_Handler su kept_trans [OF su] by (auto simp: get_finish_def edsm_mutex_get_finish_def q t(1) u(1))
  next
    case Barrier_Handler
    then obtain w where "barrier_waiter u a = Inr w" "\<And>w'. kept u (put_barrier u a w')" using typed_barrier [OF u'] u(3) by blast
    then show ?thesis
      using r Barrier_Handler su kept_trans [OF su] by (auto simp: get_finish_def edsm_barrier_get_finish_def q t(1) u(1))
  next
    case Memory_Handler
    have "memory_pagesize t = memory_pagesize s" using t(2) by (simp add: kept_def)
    then have "keeps t (edsm_memory_region_get mprotect memalign sz a t)"
      using keeps_region_get [OF t' h [unfolded Memory_Handler]] al by simp
    moreover have "r = edsm_memory_region_get mprotect memalign sz a t"
      using r Memory_Handler by (simp add: get_finish_def q t(1))
    ultimately show ?thesis using kept_after [OF t(2)] by blast
  qed
qed

subsection \<open>Stores and messages of the node\<close>

lemma typed_wf_memory: "typed s \<Longrightarrow> wf_memory s"
  unfolding wf_memory_def list_all_iff
proof
  fix a assume s: "typed s" "a \<in> set (memory_regions s)"
  then have "ready s a Memory_Handler" by (simp add: typed_def)
  then obtain r where "region_at s a = Inr r" "wf_region (memory_pagesize s) r" using typed_region [OF s(1)] by blast
  then show "case region_at s a of Inl _ \<Rightarrow> False | Inr r \<Rightarrow> wf_region (memory_pagesize s) r" by simp
qed

lemma stays_store:
  assumes rt: "enough_memory rt" and mp: "\<forall>p. mprotect p" and s: "typed s"
  shows "stays s (store_byte rt mprotect addr v s)"
proof -
  note wf = typed_wf_memory [OF s]
  have "\<exists>p. find_region s addr as = Inr p" if "list_all (\<lambda>a. case region_at s a of Inl _ \<Rightarrow> False | Inr r \<Rightarrow> wf_region ps r) as" for as ps
    using that by (induction as) (auto split: sum.splits)
  then obtain p where p: "find_region_for_addr addr s = Inr p" using wf unfolding find_region_for_addr_def wf_memory_def by blast
  show ?thesis
  proof (cases p)
    case None
    then show ?thesis using p store_outside [of addr s] by simp
  next
    case (Some a)
    then have a: "a \<in> set (memory_regions s)" using p find_region_result by (fastforce simp: find_region_for_addr_def)
    then have h: "ready s a Memory_Handler" using s by (simp add: typed_def)
    obtain r where r: "region_at s a = Inr r" "\<And>r'. wf_region (memory_pagesize s) r' \<Longrightarrow> kept s (put_region s a r')"
      using typed_region [OF s h] by blast
    obtain r' where r': "store_byte rt mprotect addr v s = Inr (put_region s a r')" "wf_memory (put_region s a r')"
      using store_byte_ok [OF rt mp wf p [unfolded Some] r(1)] by blast
    have "wf_region (memory_pagesize s) r'"
      using r'(2) a by (auto simp: wf_memory_def list_all_iff region_at_put [OF r(1)])
    then show ?thesis using r'(1) r(2) by simp
  qed
qed

lemma stays_create:
  assumes rt: "enough_memory rt" and s: "typed s"
  shows "stays s (edsm_dobj_create_locked rt os call s)"
proof -
  let ?s = "s\<lparr>max_obj_id := max_obj_id s + 1\<rparr>"
  have k: "kept s ?s" using s by (simp add: kept_def has_kind_def ready_def)
  then have wp: "wf_peers ?s" by (simp add: kept_def typed_def)
  have "stays s (res_bind (edsm_proto_send rt os call 0 t m ?s) (\<lambda>(rc, s'). res_bind (check Aborted (rc \<noteq> FAILURE)) (\<lambda>_. Inr s')))" for t m
    by (rule safe_world_bind [OF safe_send [OF wp]]) (use k in \<open>auto simp: check_def\<close>)
  then show ?thesis
    unfolding edsm_dobj_create_locked_def Let_def by - (rule safe_bind, simp, rule safe_bind, simp add: rt)
qed

lemma sane_write_string [simp]: "enough_memory rt \<Longrightarrow> sane (edsm_message_write_string rt m name)"
  unfolding edsm_message_write_string_def Let_def
  by (rule safe_pair, simp, rule safe_if, simp, rule safe_pair, simp, simp)

lemma keeps_send_up_call:
  assumes rt: "enough_memory rt" and s: "typed s" "peer \<noteq> my_id s"
  shows "keeps s (edsm_task_send_up_call rt os call name peer event params s)"
proof -
  have "wf_peers s" using s(1) by (simp add: typed_def)
  then have "keeps s (edsm_proto_send rt os call peer t m s)" for t m
    using s(2) by (intro keeps_world [OF s(1)] safe_send) simp_all
  then show ?thesis
    unfolding edsm_task_send_up_call_def
    by - (rule safe_bind, simp, rule safe_pair, simp add: rt, rule safe_pair, simp add: rt, rule safe_pair, simp add: rt)
qed

lemma keeps_message:
  assumes rt: "enough_memory rt" and s: "typed s" "peer \<noteq> my_id s"
  shows "keeps s (handle_message (node_call (Suc n) rt os mprotect spawn_ok) m t peer s)"
proof -
  have "keeps s (node_call (Suc n) rt os mprotect spawn_ok h peer m s)" for h
    by (cases h) (simp_all add: keeps_up_call [OF s(1)] keeps_dobj_message [OF rt s])
  then show ?thesis
    unfolding handle_message_def by (auto simp: s(1) split: option.split intro: keeps_result)
qed

section \<open>The actions of a node\<close>

text \<open>
  What the listener and the threads of tasks do, each action one call: a message from a peer is dispatched; a task gets an
  object and uses it. A call that would block leaves the state as it is.
\<close>

datatype action =
    Receive u32 u32 edsm_message
  | Get_Start obj_msg_handler u32
  | Get_Finish obj_msg_handler nat nat bool
  | Create
  | Lock nat
  | Unlock nat
  | Arm nat "u32 list"
  | Notify nat
  | Store nat byte
  | Tx_End "nat option"
  | Up_Call "byte list" u32 u32 "edsm_message option"

definition unless_blocked :: "'s res option \<Rightarrow> 's \<Rightarrow> 's res" where
  "unless_blocked r s = (case r of None \<Rightarrow> Inr s | Some r \<Rightarrow> r)"

fun perform ::
    "nat \<Rightarrow> runtime \<Rightarrow> 'w os \<Rightarrow> (nat \<Rightarrow> bool) \<Rightarrow> (nat \<Rightarrow> nat option) \<Rightarrow> bool \<Rightarrow> action \<Rightarrow> ('w, 'u) node \<Rightarrow> ('w, 'u) node res" where
  "perform n rt os mprotect memalign spawn_ok act s =
     (let call = node_call n rt os mprotect spawn_ok in
      case act of
        Receive peer t m \<Rightarrow> res_bind (handle_message (node_call (Suc n) rt os mprotect spawn_ok) m t peer s) (\<lambda>(_, s'). Inr s')
      | Get_Start k i \<Rightarrow> res_bind (get_start rt os call k i s) (\<lambda>(_, _, s'). Inr s')
      | Get_Finish k sz a wait \<Rightarrow>
          unless_blocked (map_option (\<lambda>r. res_bind r (\<lambda>(_, s'). Inr s')) (get_finish mprotect memalign k sz a wait s)) s
      | Create \<Rightarrow> edsm_dobj_create_locked rt os call s
      | Lock a \<Rightarrow> unless_blocked (edsm_mutex_lock_start rt os call a s) s
      | Unlock a \<Rightarrow> res_bind (edsm_mutex_unlock rt os call mprotect a s) (\<lambda>(_, s'). Inr s')
      | Arm a ps \<Rightarrow> res_bind (edsm_barrier_arm a ps s) (\<lambda>(_, s'). Inr s')
      | Notify a \<Rightarrow> res_bind (edsm_barrier_notify rt os call mprotect a s) (\<lambda>(_, s'). Inr s')
      | Store addr v \<Rightarrow> store_byte rt mprotect addr v s
      | Tx_End region \<Rightarrow> res_bind (edsm_memory_tx_end rt os call mprotect region s) (\<lambda>(_, s'). Inr s')
      | Up_Call name peer event params \<Rightarrow>
          res_bind (edsm_task_send_up_call rt os call name peer event params s) (\<lambda>(_, s'). Inr s'))"

text \<open>
  The typing rules: an id is used with one kind of object, and an object that has been got as what it is. Messages come
  from other nodes. The program checks none of this.
\<close>

fun allowed :: "('w, 'u) node \<Rightarrow> action \<Rightarrow> bool" where
  "allowed s (Receive peer t m) = (peer \<noteq> my_id s)"
| "allowed s (Get_Start k i) = (can_expand (objects s) \<and> (case find_obj s i of None \<Rightarrow> True | Some a \<Rightarrow> has_kind s a k))"
| "allowed s (Get_Finish k sz a wait) = has_kind s a k"
| "allowed s (Lock a) = ready s a Mutex_Handler"
| "allowed s (Unlock a) = ready s a Mutex_Handler"
| "allowed s (Arm a ps) = ready s a Barrier_Handler"
| "allowed s (Notify a) = ready s a Barrier_Handler"
| "allowed s (Tx_End region) = (case region of None \<Rightarrow> True | Some a \<Rightarrow> ready s a Memory_Handler)"
| "allowed s (Up_Call name peer event params) = (peer \<noteq> my_id s)"
| "allowed s act = True"

lemma keeps_state: "keeps s m \<Longrightarrow> stays s (res_bind m (\<lambda>(_, s'). Inr s'))"
  by (cases m) auto

lemma perform_keeps:
  assumes rt: "enough_memory rt" and mp: "\<forall>p. mprotect p" and al: "\<And>n h. memalign n = Some h \<Longrightarrow> h mod memory_pagesize s = 0"
    and s: "typed s" "allowed s act"
  shows "stays s (perform n rt os mprotect memalign spawn_ok act s)"
proof (cases act)
  case (Receive peer t m)
  with s show ?thesis using keeps_state [OF keeps_message [OF rt s(1)]] by simp
next
  case (Get_Start k i)
  with s have k: "can_expand (objects s)" "\<And>a. find_obj s i = Some a \<Longrightarrow> has_kind s a k" by auto
  show ?thesis
    unfolding perform.simps Let_def Get_Start action.case
    by (rule safe_bind_with [OF get_start_typed [OF rt s(1) k]]) auto
next
  case (Get_Finish k sz a wait)
  with s show ?thesis
    using keeps_state [OF keeps_get_finish [OF s(1) _ _ al]]
    by (cases "get_finish mprotect memalign k sz a wait s") (auto simp: unless_blocked_def Let_def)
next
  case Create
  with s show ?thesis using stays_create [OF rt s(1)] by simp
next
  case (Lock a)
  with s show ?thesis
    using stays_lock_start [OF rt s(1)] by (simp add: unless_blocked_def Let_def split: option.split)
next
  case (Unlock a)
  with s show ?thesis using keeps_state [OF keeps_unlock [OF rt s(1)]] by (simp add: Let_def)
next
  case (Arm a ps)
  with s show ?thesis using keeps_state [OF keeps_arm [OF s(1)]] by (simp add: Let_def)
next
  case (Notify a)
  with s show ?thesis using keeps_state [OF keeps_notify [OF rt s(1)]] by (simp add: Let_def)
next
  case (Store addr v)
  with s show ?thesis using stays_store [OF rt mp s(1)] by (simp add: Let_def)
next
  case (Tx_End region)
  with s have "\<And>a. region = Some a \<Longrightarrow> ready s a Memory_Handler" by simp
  from keeps_state [OF keeps_tx_end [OF rt s(1) this]] Tx_End show ?thesis by (simp add: Let_def)
next
  case (Up_Call name peer event params)
  with s show ?thesis using keeps_state [OF keeps_send_up_call [OF rt s(1)]] by (simp add: Let_def)
qed

section \<open>Well-typed tasks do not go wrong\<close>

fun run_node ::
    "nat \<Rightarrow> runtime \<Rightarrow> 'w os \<Rightarrow> (nat \<Rightarrow> bool) \<Rightarrow> (nat \<Rightarrow> nat option) \<Rightarrow> bool \<Rightarrow> action list \<Rightarrow> ('w, 'u) node \<Rightarrow> ('w, 'u) node res" where
  "run_node n rt os mprotect memalign spawn_ok [] s = Inr s"
| "run_node n rt os mprotect memalign spawn_ok (act # acts) s =
     res_bind (perform n rt os mprotect memalign spawn_ok act s) (run_node n rt os mprotect memalign spawn_ok acts)"

text \<open>Every action is allowed in the state in which it is performed.\<close>

fun well_typed ::
    "nat \<Rightarrow> runtime \<Rightarrow> 'w os \<Rightarrow> (nat \<Rightarrow> bool) \<Rightarrow> (nat \<Rightarrow> nat option) \<Rightarrow> bool \<Rightarrow> action list \<Rightarrow> ('w, 'u) node \<Rightarrow> bool" where
  "well_typed n rt os mprotect memalign spawn_ok [] s = True"
| "well_typed n rt os mprotect memalign spawn_ok (act # acts) s =
     (allowed s act \<and> (case perform n rt os mprotect memalign spawn_ok act s of
        Inl _ \<Rightarrow> True | Inr s' \<Rightarrow> well_typed n rt os mprotect memalign spawn_ok acts s'))"

declare perform.simps [simp del]

text \<open>C5: type soundness of a node. Start from a state in which every object's block holds what its handler takes it for,
  and let the tasks use ids and objects consistently, in any order with messages of any bytes from any peers. Then the
  node never takes the block of an object for another structure, never uses a freed or missing structure, never needs more
  nested handlers than one; and the state it reaches is typed in the same way. What can end the run are the
  faults of bad messages and failed system calls: assertions, null pointers, bounds, indeterminate values.\<close>

theorem nodes_stay_typed:
  assumes rt: "enough_memory rt" and mp: "\<forall>p. mprotect p"
    and al: "\<And>n h. memalign n = Some h \<Longrightarrow> h mod memory_pagesize s = 0"
    and s: "typed s" "well_typed n rt os mprotect memalign spawn_ok acts s"
  shows "case run_node n rt os mprotect memalign spawn_ok acts s of
      Inl e \<Rightarrow> e \<noteq> TypeConfusion \<and> e \<noteq> UseAfterFree \<and> e \<noteq> OutOfFuel
    | Inr s' \<Rightarrow> typed s' \<and> my_id s' = my_id s
        \<and> (\<forall>a k. (has_kind s a k \<longrightarrow> has_kind s' a k) \<and> (ready s a k \<longrightarrow> ready s' a k))"
proof -
  have "stays s (run_node n rt os mprotect memalign spawn_ok acts s)"
    using s al
  proof (induction acts arbitrary: s)
    case (Cons act acts)
    have "stays s (perform n rt os mprotect memalign spawn_ok act s)"
      using Cons.prems by (intro perform_keeps [OF rt mp]) simp_all
    then show ?case
    proof (cases "perform n rt os mprotect memalign spawn_ok act s")
      case (Inr t)
      then have k: "kept s t" using \<open>stays s (perform n rt os mprotect memalign spawn_ok act s)\<close> by simp
      then have t: "typed t" "memory_pagesize t = memory_pagesize s" by (simp_all add: kept_def)
      have "stays t (run_node n rt os mprotect memalign spawn_ok acts t)"
        using Cons.prems Inr t by (intro Cons.IH) simp_all
      then have "stays s (run_node n rt os mprotect memalign spawn_ok acts t)" by (rule kept_after [OF k])
      then show ?thesis by (simp add: Inr)
    qed simp
  qed simp
  then show ?thesis by (auto simp: safe_def kept_def split: sum.splits)
qed

text \<open>A node with a mutex, for the concrete instance.\<close>

definition empty_node :: "(int \<Rightarrow> byte list, nat) node" where
  "empty_node = \<lparr>world = (\<lambda>_. []), my_id = 1, listen_port = 5, peers = None, peer_mem = Map.empty, peer_brk = 0,
     message_handlers = HASH_ADD handler_key None (MSG_TYPE_DOBJ, Dobj_Handler),
     max_obj_id = 0, objects = None, obj_mem = Map.empty, obj_brk = 0, object_lock = None,
     memory_regions = [], memory_pagesize = 4096, task_table = None, task_mem = Map.empty, task_brk = 0, task_threads = []\<rparr>"

definition held_mutex :: "obj_msg_handler edsm_dobj" where
  "held_mutex = \<lparr>obj_id = 9, ref_count = 1, inited = 1, obj_handler = Mutex_Handler, obj_peers = [2], obj_waiter = [],
     body = Mutex_Body zero_mutex\<rparr>"

definition holding_node :: "(int \<Rightarrow> byte list, nat) node" where
  "holding_node = add_object held_mutex empty_node"

lemma holding_node_typed: "typed holding_node" "ready holding_node 0 Mutex_Handler" "my_id holding_node = 1"
  "memory_pagesize holding_node = 4096"
proof -
  have e: "typed empty_node" "can_expand (objects empty_node)" "find_obj empty_node 9 = None" "obj_brk empty_node = 0"
    by (simp_all add: empty_node_def typed_def wf_peers_def wf_objects_def ids_of_def wf_tasks_def uthash.keyed_def wf_uthash_def
        HASH_ITER_def can_expand_def find_obj_def HASH_FIND_def)
  have t: "typed_obj empty_node held_mutex"
    by (simp add: typed_obj_def held_mutex_def typed_body_def empty_node_def)
  have n: "find_obj empty_node (obj_id held_mutex) = None" using e(3) by (simp add: held_mutex_def)
  note k = kept_new_object [OF e(1,2) n t, folded holding_node_def]
  then show "typed holding_node" by (simp add: kept_def)
  show "ready holding_node 0 Mutex_Handler" using k(2) by (simp add: e(4) ready_def held_mutex_def)
  show "my_id holding_node = 1" "memory_pagesize holding_node = 4096"
    using k(1) by (simp_all add: kept_def empty_node_def)
qed

text \<open>A message of arbitrary bytes, then the mutex is taken and given back.\<close>

lemma nodes_stay_typed_witness:
  "case run_node 1 good_runtime tape_os (\<lambda>_. True) (\<lambda>_. Some 8192) True
      [Receive 2 MSG_TYPE_DOBJ (message_of [3, 1, 4, 1, 5]), Lock 0, Unlock 0] holding_node of
    Inl e \<Rightarrow> e \<noteq> TypeConfusion \<and> e \<noteq> UseAfterFree \<and> e \<noteq> OutOfFuel
  | Inr s' \<Rightarrow> typed s' \<and> ready s' 0 Mutex_Handler"
proof -
  have keep: "kept s t" if "perform 1 good_runtime tape_os (\<lambda>_. True) (\<lambda>_. Some 8192) True act s = Inr t"
    "typed s" "allowed s act" "memory_pagesize s = 4096" for s t :: "(int \<Rightarrow> byte list, nat) node" and act
    using perform_keeps [OF enough_memory_good, of "\<lambda>_. True" "\<lambda>_. Some 8192" s act 1 tape_os True] that by simp
  have "well_typed 1 good_runtime tape_os (\<lambda>_. True) (\<lambda>_. Some 8192) True
      [Receive 2 MSG_TYPE_DOBJ (message_of [3, 1, 4, 1, 5]), Lock 0, Unlock 0] holding_node"
    using keep holding_node_typed by (auto simp: kept_def split: sum.splits)
  moreover have "(8192 :: nat) mod 4096 = 0" by simp
  ultimately show ?thesis
    using nodes_stay_typed [OF enough_memory_good, of "\<lambda>_. True" "\<lambda>_. Some 8192" holding_node 1 tape_os True]
      holding_node_typed by (fastforce split: sum.splits)
qed

end
