(* ===== verification/Release.thy ===== *)
theory Release
  imports Node
begin

text \<open>
  What the shared memory promises, composed from the memory, the mutex and the connections: the node that gives a
  mutex back publishes every byte it has stored, and the node that is let in by that reads them.
\<close>

section \<open>Publishing\<close>

definition region_of :: "('h, 'w, 'k, 'z) dobjs_scheme \<Rightarrow> nat \<Rightarrow> region_fields" where
  "region_of s a = (case region_at s a of Inl _ \<Rightarrow> zero_region | Inr r \<Rightarrow> r)"

definition id_of :: "('h, 'w, 'k, 'z) dobjs_scheme \<Rightarrow> nat \<Rightarrow> u32" where
  "id_of s a = (case obj_mem s a of None \<Rightarrow> 0 | Some ob \<Rightarrow> obj_id ob)"

text \<open>The regions with open pages, and the message that the end of the transaction sends for one.\<close>

definition dirty :: "('h, 'w, 'k, 'z) dobjs_scheme \<Rightarrow> nat list \<Rightarrow> nat list" where
  "dirty s as = filter (\<lambda>a. twins (region_of s a) \<noteq> []) as"

definition diff_message :: "('h, 'w, 'k, 'z) memory_scheme \<Rightarrow> nat \<Rightarrow> byte list" where
  "diff_message s a = obj_content (id_of s a) (diff_of (memory_pagesize s) (region_of s a))"

text \<open>A region that can be sent and that peer \<open>q\<close> holds, too.\<close>

definition publishable :: "runtime \<Rightarrow> (nat \<Rightarrow> bool) \<Rightarrow> u32 \<Rightarrow> ('h, 'w, 'k, 'z) memory_scheme \<Rightarrow> nat \<Rightarrow> bool" where
  "publishable rt mprotect q s a \<longleftrightarrow> (case obj_mem s a of None \<Rightarrow> False | Some ob \<Rightarrow>
     (case body ob of
        Region_Body r \<Rightarrow> sendable rt mprotect (memory_pagesize s) r \<and> set (obj_peers ob) \<subseteq> set (ids_of s) \<and> distinct (obj_peers ob)
          \<and> q \<in> set (obj_peers ob) \<and> length (diff_of (memory_pagesize s) r) + 12 \<le> message_room
      | _ \<Rightarrow> False))"

lemma publishableE:
  assumes "publishable rt mprotect q s a"
  obtains ob where "obj_mem s a = Some ob" "body ob = Region_Body (region_of s a)" "region_at s a = Inr (region_of s a)"
    "id_of s a = obj_id ob" "sendable rt mprotect (memory_pagesize s) (region_of s a)" "set (obj_peers ob) \<subseteq> set (ids_of s)"
    "distinct (obj_peers ob)" "q \<in> set (obj_peers ob)" "length (diff_of (memory_pagesize s) (region_of s a)) + 12 \<le> message_room"
  using assms by (auto simp: publishable_def region_of_def region_at_def obj_at_def id_of_def split: option.splits obj_body.splits)

text \<open>The views of a state that is changed elsewhere.\<close>

lemma views_cong:
  assumes "obj_mem s' a = obj_mem s a"
  shows "region_at s' a = region_at s a" "region_of s' a = region_of s a" "id_of s' a = id_of s a"
  using assms by (simp_all add: region_at_def obj_at_def region_of_def id_of_def)

lemma diff_message_cong: "obj_mem s' a = obj_mem s a \<Longrightarrow> memory_pagesize s' = memory_pagesize s \<Longrightarrow> diff_message s' a = diff_message s a"
  unfolding diff_message_def by (simp only: views_cong [where s' = s' and s = s])

lemma publishable_cong:
  "obj_mem s' a = obj_mem s a \<Longrightarrow> memory_pagesize s' = memory_pagesize s \<Longrightarrow> ids_of s' = ids_of s
     \<Longrightarrow> publishable rt mprotect q s' a = publishable rt mprotect q s a"
  by (simp add: publishable_def split: option.split obj_body.split)

text \<open>What the end of a transaction leaves as it is.\<close>

definition published :: "('w \<Rightarrow> int \<Rightarrow> byte list) \<Rightarrow> u32 \<Rightarrow> nat list \<Rightarrow> ('h, 'w, 'k, 'z) memory_scheme
    \<Rightarrow> ('h, 'w, 'k, 'z) memory_scheme \<Rightarrow> bool" where
  "published written q as s s' \<longleftrightarrow> connected s' \<and> ids_of s' = ids_of s \<and> memory_pagesize s' = memory_pagesize s
     \<and> (\<forall>b. b \<notin> set as \<longrightarrow> obj_mem s' b = obj_mem s b)
     \<and> (\<forall>a \<in> set as. contents (region_of s' a) = contents (region_of s a) \<and> twins (region_of s' a) = [])
     \<and> out written s' q = out written s q @ concat (map (\<lambda>a. frame MSG_TYPE_DOBJ (diff_message s a)) (dirty s as))"

text \<open>One region.\<close>

lemma publish_one:
  assumes c: "connected s" "accepts os written" and p: "publishable rt mprotect q s a"
  obtains s1 where "tx_end_regions rt os call mprotect (a # as) rc s = tx_end_regions rt os call mprotect as rc s1"
    "published written q [a] s s1"
proof -
  obtain ob where ob: "obj_mem s a = Some ob" "body ob = Region_Body (region_of s a)" "region_at s a = Inr (region_of s a)"
    "id_of s a = obj_id ob" "sendable rt mprotect (memory_pagesize s) (region_of s a)" "set (obj_peers ob) \<subseteq> set (ids_of s)"
    "distinct (obj_peers ob)" "q \<in> set (obj_peers ob)" "length (diff_of (memory_pagesize s) (region_of s a)) + 12 \<le> message_room"
    using publishableE [OF p] by blast
  let ?r = "region_of s a" let ?bs = "diff_of (memory_pagesize s) ?r"
  have rt: "enough_memory rt" using ob(5) by (simp add: sendable_def)
  have "unat (300 :: u32) < 2 ^ 31" by simp
  with rt obtain m where n: "new_message rt 300 = Inr m" "holds m []" "used m = 0" by (rule new_message_ok)
  from diff_sent [OF ob(5) n(2,3)] obtain r' m' where
    d: "diff_region rt mprotect (memory_pagesize s) ?r m = Inr (word_of_nat (length (twins ?r)), r', m')"
      "holds m' ?bs" "contents r' = contents ?r" "twins r' = []" by blast
  let ?s1 = "put_region s a r'" let ?ob = "ob\<lparr>body := Region_Body r'\<rparr>"
  have o1: "obj_mem ?s1 = (obj_mem s)(a \<mapsto> ?ob)" using ob(1) by (simp add: put_region_def put_obj_def)
  have r1: "region_of (?s1\<lparr>world := w\<rparr>) a = r'" "region_of ?s1 a = r'" for w using o1 by (simp_all add: region_of_def region_at_def obj_at_def)
  have "length (twins ?r) \<le> message_room"
    using ob(5) mult_le_mono2 [of 1 "6 + 5 * memory_pagesize s" "length (twins ?r)"] unfolding sendable_def by linarith
  then have small: "length (twins ?r) < 2 ^ 31" by (simp add: message_room_def)
  have pages: "0 <s (word_of_nat (length (twins ?r)) :: u32) \<longleftrightarrow> twins ?r \<noteq> []"
  proof -
    have "unat (word_of_nat (length (twins ?r)) :: u32) = length (twins ?r)"
      using small by (simp add: unat_of_nat take_bit_nat_eq_self)
    then have "sint (word_of_nat (length (twins ?r)) :: u32) = int (length (twins ?r))"
      using small sint_small [of "word_of_nat (length (twins ?r))"] by simp
    then show ?thesis by (simp add: word_sless_alt)
  qed
  show ?thesis
  proof (cases "twins ?r = []")
    case True
    have "published written q [a] s ?s1"
      using c o1 r1 d(3,4) True by (simp add: published_def dirty_def)
    moreover have "tx_end_regions rt os call mprotect (a # as) rc s = tx_end_regions rt os call mprotect as rc ?s1"
      using n(1) ob(3) d(1) True by simp
    ultimately show ?thesis by (intro that)
  next
    case False
    have p: "payload (Some m') ?bs" using d(2) by (simp add: payload_def)
    have o1': "obj_mem ?s1 a = Some ?ob" using o1 by simp
    have "\<exists>w. edsm_dobj_send rt os call a (Some m') ?s1 = Inr (SUCCESS, ?s1\<lparr>world := w\<rparr>)
      \<and> (\<forall>i. out written (?s1\<lparr>world := w\<rparr>) i = (if i \<in> set (obj_peers ?ob)
           then out written ?s1 i @ frame MSG_TYPE_DOBJ (obj_content (obj_id ?ob) ?bs) else out written ?s1 i))"
      by (rule dobj_send_ok [OF rt _ c(2) o1' _ _ p ob(9)]) (use c(1) ob(6,7) in simp_all)
    then obtain w where w: "edsm_dobj_send rt os call a (Some m') ?s1 = Inr (SUCCESS, ?s1\<lparr>world := w\<rparr>)"
      "out written (?s1\<lparr>world := w\<rparr>) q = out written s q @ frame MSG_TYPE_DOBJ (obj_content (obj_id ob) ?bs)"
      using ob(8) by auto
    have "connected (?s1\<lparr>world := w\<rparr>)" "ids_of (?s1\<lparr>world := w\<rparr>) = ids_of s"
      using c(1) connected_cong [of "?s1\<lparr>world := w\<rparr>" ?s1] by simp_all
    then have "published written q [a] s (?s1\<lparr>world := w\<rparr>)"
      using o1 r1 d(3,4) False w(2) ob(4) by (simp add: published_def dirty_def diff_message_def)
    moreover have "tx_end_regions rt os call mprotect (a # as) rc s = tx_end_regions rt os call mprotect as rc (?s1\<lparr>world := w\<rparr>)"
      using n(1) ob(3) d(1) False pages w(1) by (simp add: SUCCESS_def FAILURE_def)
    ultimately show ?thesis by (intro that)
  qed
qed

lemma published_trans:
  assumes p: "published written q [a] s s1" "published written q as s1 s2" and a: "a \<notin> set as"
  shows "published written q (a # as) s s2"
proof -
  have 1: "obj_mem s1 b = obj_mem s b" if "b \<noteq> a" for b using p(1) that by (simp add: published_def)
  have ps: "memory_pagesize s1 = memory_pagesize s" using p(1) by (simp add: published_def)
  have e: "region_of s1 b = region_of s b" "diff_message s1 b = diff_message s b" if "b \<in> set as" for b
  proof -
    have "obj_mem s1 b = obj_mem s b" using 1 that a by metis
    from views_cong(2) [OF this] diff_message_cong [OF this ps]
    show "region_of s1 b = region_of s b" "diff_message s1 b = diff_message s b" .
  qed
  have "dirty s1 as = dirty s as" unfolding dirty_def using e(1) by (intro filter_cong) simp_all
  moreover have "concat (map (\<lambda>a. frame MSG_TYPE_DOBJ (diff_message s1 a)) (dirty s as))
      = concat (map (\<lambda>a. frame MSG_TYPE_DOBJ (diff_message s a)) (dirty s as))"
    using e(2) by (intro arg_cong [where f = concat] map_cong) (simp_all add: dirty_def)
  moreover have "region_of s2 a = region_of s1 a" using p(2) a by (intro views_cong) (simp add: published_def)
  moreover have "dirty s (a # as) = dirty s [a] @ dirty s as" by (simp add: dirty_def)
  ultimately show ?thesis
    using p a e(1) unfolding published_def by simp
qed

lemma publish_regions:
  assumes a: "accepts os written"
  shows "connected s \<Longrightarrow> distinct as \<Longrightarrow> \<forall>a \<in> set as. publishable rt mprotect q s a \<Longrightarrow>
    \<exists>s'. tx_end_regions rt os call mprotect as rc s = Inr (rc, s') \<and> published written q as s s'"
proof (induction as arbitrary: s)
  case Nil
  then show ?case by (simp add: published_def dirty_def)
next
  case (Cons a as)
  from Cons.prems have "publishable rt mprotect q s a" by simp
  then obtain s1 where s1: "tx_end_regions rt os call mprotect (a # as) rc s = tx_end_regions rt os call mprotect as rc s1"
    "published written q [a] s s1" by (rule publish_one [OF Cons.prems(1) assms])
  have "publishable rt mprotect q s1 b" if "b \<in> set as" for b
  proof -
    have "b \<noteq> a" using that Cons.prems(2) by auto
    then show ?thesis using that s1(2) Cons.prems(3) publishable_cong [of s1 b s rt mprotect q] by (simp add: published_def)
  qed
  moreover have "connected s1" using s1(2) by (simp add: published_def)
  ultimately obtain s2 where s2: "tx_end_regions rt os call mprotect as rc s1 = Inr (rc, s2)" "published written q as s1 s2"
    using Cons.IH [of s1] Cons.prems(2) by auto
  then have "published written q (a # as) s s2" using published_trans [OF s1(2)] Cons.prems(2) by simp
  with s1(1) s2(1) show ?case by auto
qed

section \<open>Reading\<close>

text \<open>The object with an id.\<close>

definition obj_by :: "('h, 'w, 'k, 'z) dobjs_scheme \<Rightarrow> u32 \<Rightarrow> 'k edsm_dobj option" where
  "obj_by t i = (case find_obj t i of None \<Rightarrow> None | Some b \<Rightarrow> obj_mem t b)"

text \<open>
  A replica at another node: a region of the same size, without changes of its own, which has the bytes that were
  committed at node \<open>s\<close>; and one that has all the bytes of \<open>s\<close>.
\<close>

definition region_by :: "('h, 'w, obj_msg_handler, 'z) memory_scheme \<Rightarrow> u32 \<Rightarrow> region_fields option" where
  "region_by t i = (case obj_by t i of None \<Rightarrow> None | Some ob \<Rightarrow>
     (case body ob of
        Region_Body r \<Rightarrow> if inited ob \<noteq> 0 \<and> obj_handler ob = Memory_Handler \<and> wf_region (memory_pagesize t) r then Some r else None
      | _ \<Rightarrow> None))"

definition replica :: "('h, 'w, 'k, 'y) memory_scheme \<Rightarrow> nat \<Rightarrow> ('h2, 'w2, obj_msg_handler, 'z) memory_scheme \<Rightarrow> bool" where
  "replica s a t \<longleftrightarrow> (case region_by t (id_of s a) of None \<Rightarrow> False | Some r \<Rightarrow>
     region_size r = region_size (region_of s a)
     \<and> (\<forall>i \<in> {..<region_size r}. contents r ! i = committed (memory_pagesize s) (region_of s a) i))"

definition same_bytes :: "('h, 'w, 'k, 'y) memory_scheme \<Rightarrow> nat \<Rightarrow> ('h2, 'w2, obj_msg_handler, 'z) memory_scheme \<Rightarrow> bool" where
  "same_bytes s a t \<longleftrightarrow> (case region_by t (id_of s a) of None \<Rightarrow> False | Some r \<Rightarrow> contents r = contents (region_of s a))"

lemma region_byE:
  assumes "region_by t i = Some r"
  obtains b ob where "find_obj t i = Some b" "obj_mem t b = Some ob" "body ob = Region_Body r" "inited ob \<noteq> 0"
    "obj_handler ob = Memory_Handler" "wf_region (memory_pagesize t) r"
  using assms by (auto simp: region_by_def obj_by_def split: option.splits obj_body.splits if_splits)

lemma obj_by_other:
  assumes wf: "wf_objects t" and b: "find_obj t i = Some b" and j: "j \<noteq> i"
  shows "(case find_obj t j of None \<Rightarrow> None | Some c \<Rightarrow> ((obj_mem t)(b \<mapsto> ob)) c) = obj_by t j"
proof -
  have "c \<noteq> b" if c: "find_obj t j = Some c" for c
  proof -
    obtain o1 where "obj_mem t c = Some o1" "obj_id o1 = j" using find_obj_live [OF wf c] by blast
    moreover obtain o2 where "obj_mem t b = Some o2" "obj_id o2 = i" using find_obj_live [OF wf b] by blast
    ultimately show ?thesis using j by auto
  qed
  then show ?thesis by (auto simp: obj_by_def split: option.split)
qed

text \<open>What handling the message of one object leaves as it is.\<close>

definition touches :: "u32 set \<Rightarrow> ('h, 'w, 'k, 'z) memory_scheme \<Rightarrow> ('h, 'w, 'k, 'z) memory_scheme \<Rightarrow> bool" where
  "touches is t t' \<longleftrightarrow> wf_objects t' \<and> find_obj t' = find_obj t \<and> memory_pagesize t' = memory_pagesize t \<and> connected t' = connected t
     \<and> ids_of t' = ids_of t \<and> (\<forall>j. j \<notin> is \<longrightarrow> obj_by t' j = obj_by t j)"

lemma touches_views:
  assumes "touches is t t'" "j \<notin> is"
  shows "obj_by t' j = obj_by t j" "region_by t' j = region_by t j"
proof -
  show o: "obj_by t' j = obj_by t j" using assms by (simp add: touches_def)
  have "memory_pagesize t' = memory_pagesize t" using assms by (simp add: touches_def)
  with o show "region_by t' j = region_by t j" by (simp only: region_by_def)
qed

lemma touches_refl: "wf_objects t \<Longrightarrow> touches is t t"
  by (simp add: touches_def)

lemma touches_trans: "touches is t t1 \<Longrightarrow> touches js t1 t2 \<Longrightarrow> touches (is \<union> js) t t2"
  by (simp add: touches_def)

lemma touches_put_obj:
  assumes "wf_objects t" "find_obj t i = Some b" "obj_mem t b = Some ob" "obj_id ob' = obj_id ob"
  shows "touches {i} t (put_obj t b ob')" "obj_by (put_obj t b ob') i = Some ob'"
proof -
  have w: "wf_objects (put_obj t b ob')" "find_obj (put_obj t b ob') = find_obj t"
    using put_obj_wf [OF assms(3,4)] assms(1) by simp_all
  show "obj_by (put_obj t b ob') i = Some ob'" using w(2) assms(2) by (simp add: obj_by_def)
  have "obj_by (put_obj t b ob') j = obj_by t j" if "j \<noteq> i" for j
    using obj_by_other [OF assms(1,2) that, of ob'] by (simp add: obj_by_def w(2) cong: option.case_cong)
  then show "touches {i} t (put_obj t b ob')" using w by (simp add: touches_def)
qed

lemma touches_put_region:
  assumes "wf_objects t" "find_obj t i = Some b" "obj_mem t b = Some ob"
  shows "touches {i} t (put_region t b r)" "obj_by (put_region t b r) i = Some (ob\<lparr>body := Region_Body r\<rparr>)"
  using touches_put_obj [OF assms, of "ob\<lparr>body := Region_Body r\<rparr>"] assms(3) by (simp_all add: put_region_def)

lemma obj_by_world [simp]: "obj_by (t\<lparr>world := w\<rparr>) i = obj_by t i"
  by (simp add: obj_by_def cong: option.case_cong)

lemma touches_world: "touches is t t' \<Longrightarrow> touches is t (t'\<lparr>world := w\<rparr>)"
  by (simp add: touches_def)

text \<open>The message with a diff arrives: the replica gets the bytes of the sender.\<close>

lemma diff_arrives:
  fixes t :: "('h2, 'w2, obj_msg_handler, 'z) memory_scheme"
  assumes p: "publishable rt mprotect q s a" and t: "wf_objects t" "memory_pagesize t = memory_pagesize s" "replica s a t"
    and m: "holds m (diff_message s a)"
  obtains t' where "edsm_dobj_handle_message rt os call (obj_call rt os mprotect call) peer m t = Inr (FAILURE, t')"
    "touches {id_of s a} t t'" "same_bytes s a t'"
proof -
  let ?i = "id_of s a" let ?ps = "memory_pagesize s" let ?r = "region_of s a" let ?bs = "diff_of ?ps ?r"
  have s: "sendable rt mprotect ?ps ?r" "length ?bs + 12 \<le> message_room" using publishableE [OF p] by blast+
  have rt: "enough_memory rt" and mp: "\<forall>a. mprotect a" using s(1) by (auto simp: sendable_def)
  obtain r2 where r2: "region_by t ?i = Some r2" "region_size r2 = region_size ?r"
    "\<forall>i < region_size r2. contents r2 ! i = committed ?ps ?r i"
    using t(3) by (auto simp: replica_def split: option.splits)
  obtain b ob where b: "find_obj t ?i = Some b" "obj_mem t b = Some ob" "body ob = Region_Body r2" "inited ob \<noteq> 0"
    "obj_handler ob = Memory_Handler" "wf_region (memory_pagesize t) r2" using region_byE [OF r2(1)] by blast
  have "length ?bs < 2 ^ 31" using s(2) by (simp add: message_room_def)
  from dobj_dispatch_ok [OF rt m [unfolded diff_message_def] this b(1,2,4), where os = os and call = call and peer = peer
      and call_obj = "obj_call rt os mprotect call"]
  obtain pl where pl: "payload pl ?bs" "pl = None \<longleftrightarrow> ?bs = []"
    "edsm_dobj_handle_message rt os call (obj_call rt os mprotect call) peer m t
      = res_bind (edsm_memory_handle_message mprotect b peer pl t) (\<lambda>(_, s'). Inr (FAILURE, s'))"
    using b(5) by (auto simp: obj_call_def)
  have "?bs \<noteq> []" by (simp add: diff_of_def enc_diff_def bytes_of_u32_def)
  with pl(1,2) obtain msg where msg: "pl = Some msg" "holds msg ?bs" by (cases pl) (auto simp: payload_def)
  have w2: "wf_region ?ps r2" using b(6) t(2) by simp
  from diff_received [OF s(1) w2 r2(2) mp msg(2)] obtain r3 where
    r3: "memory_receive mprotect ?ps r2 msg = Inr r3" "wf_region ?ps r3" "region_size r3 = region_size r2"
    "\<forall>i < region_size ?r. contents r3 ! i = (if changed ?ps ?r i then contents ?r ! i else contents r2 ! i)" by blast
  have "region_at t b = Inr r2" using b(2,3) by (simp add: region_body)
  then have h: "edsm_dobj_handle_message rt os call (obj_call rt os mprotect call) peer m t = Inr (FAILURE, put_region t b r3)"
    using pl(3) msg(1) r3(1) t(2) by (simp add: edsm_memory_handle_message_def)
  note tp = touches_put_region [OF t(1) b(1,2), of r3]
  have "wf_region ?ps ?r" using s(1) by (simp add: sendable_def)
  then have l: "length (contents r3) = length (contents ?r)" using r3(2,3) r2(2) by (simp add: wf_region_def)
  have "contents r3 = contents ?r"
  proof (rule nth_equalityI [OF l])
    fix i assume "i < length (contents r3)"
    then have "i < region_size ?r" using r3(2,3) r2(2) by (simp add: wf_region_def)
    then show "contents r3 ! i = contents ?r ! i" using r3(4) r2(2,3) by (simp add: changed_def)
  qed
  moreover have "region_by (put_region t b r3) ?i = Some r3"
    using tp b(4,5) r3(2) t(2) by (simp add: region_by_def touches_def)
  ultimately have "same_bytes s a (put_region t b r3)" by (simp add: same_bytes_def)
  with h tp(1) show ?thesis by (rule that)
qed

lemma diffs_arrive:
  fixes t :: "('h2, 'w2, obj_msg_handler, 'z) memory_scheme"
  assumes "\<forall>a \<in> set as. publishable rt mprotect q s a" "distinct (map (id_of s) as)"
    and "wf_objects t" "memory_pagesize t = memory_pagesize s" "\<forall>a \<in> set as. replica s a t"
    and "list_all2 holds ms (map (diff_message s) as)"
  shows "\<exists>t'. handle_each (edsm_dobj_handle_message rt os call (obj_call rt os mprotect call)) (map (Pair peer) ms) t = Inr t'
    \<and> touches (id_of s ` set as) t t' \<and> (\<forall>a \<in> set as. same_bytes s a t')"
  using assms
proof (induction as arbitrary: ms t)
  case Nil
  then show ?case by (simp add: touches_refl)
next
  case (Cons a as)
  from Cons.prems(6) obtain m ms' where ms: "ms = m # ms'" "holds m (diff_message s a)" "list_all2 holds ms' (map (diff_message s) as)"
    by (auto simp: list_all2_Cons2)
  have pa: "publishable rt mprotect q s a" "replica s a t" using Cons.prems(1,5) by simp_all
  obtain t1 where t1: "edsm_dobj_handle_message rt os call (obj_call rt os mprotect call) peer m t = Inr (FAILURE, t1)"
    "touches {id_of s a} t t1" "same_bytes s a t1"
    using diff_arrives [OF pa(1) Cons.prems(3,4) pa(2) ms(2)] by blast
  have fresh: "id_of s b \<notin> {id_of s a}" if "b \<in> set as" for b
  proof -
    have "id_of s b \<in> id_of s ` set as" using that by simp
    then show ?thesis using Cons.prems(2) by (metis distinct.simps(2) list.simps(9) list.set_map singletonD)
  qed
  have "\<forall>b \<in> set as. replica s b t1"
  proof
    fix b assume b: "b \<in> set as"
    then show "replica s b t1"
      using Cons.prems(5) touches_views(2) [OF t1(2) fresh [OF b]] by (simp add: replica_def)
  qed
  moreover have "wf_objects t1" "memory_pagesize t1 = memory_pagesize s" using t1(2) Cons.prems(4) by (simp_all add: touches_def)
  ultimately obtain t2 where t2: "handle_each (edsm_dobj_handle_message rt os call (obj_call rt os mprotect call)) (map (Pair peer) ms') t1 = Inr t2"
    "touches (id_of s ` set as) t1 t2" "\<forall>a \<in> set as. same_bytes s a t2"
    using Cons.IH [of t1 ms'] Cons.prems(1,2) ms(3) by auto
  have "id_of s a \<notin> id_of s ` set as" using Cons.prems(2) by auto
  then have "same_bytes s a t2"
    using t1(3) touches_views(2) [OF t2(2)] by (simp add: same_bytes_def)
  moreover have "touches (id_of s ` set (a # as)) t t2" using touches_trans [OF t1(2) t2(2)] by simp
  ultimately show ?case using t1(1) t2(1,3) ms(1) by auto
qed

text \<open>A region without open pages needs no message.\<close>

lemma clean_replica:
  assumes "publishable rt mprotect q s a" "twins (region_of s a) = []" "replica s a t" "memory_pagesize t = memory_pagesize s"
  shows "same_bytes s a t"
proof -
  let ?ps = "memory_pagesize s" let ?r = "region_of s a"
  have wf: "wf_region ?ps ?r" using publishableE [OF assms(1)] unfolding sendable_def by metis
  obtain r2 where r2: "region_by t (id_of s a) = Some r2" "region_size r2 = region_size ?r"
    "\<forall>i < region_size r2. contents r2 ! i = committed ?ps ?r i"
    using assms(3) by (auto simp: replica_def split: option.splits)
  have w2: "wf_region ?ps r2" using region_byE [OF r2(1)] assms(4) by metis
  have "contents r2 = contents ?r"
  proof (rule nth_equalityI)
    show "length (contents r2) = length (contents ?r)" using wf w2 r2(2) by (simp add: wf_region_def)
    fix i assume "i < length (contents r2)"
    then have "i < region_size r2" using w2 by (simp add: wf_region_def)
    then show "contents r2 ! i = contents ?r ! i" using r2(2,3) committed_no_twins [OF wf assms(2)] by simp
  qed
  with r2(1) show ?thesis by (simp add: same_bytes_def)
qed

section \<open>Letting a node in\<close>

text \<open>The bytes of the replies of \<^verbatim>\<open>edsm_mutex_unlock\<close>, one for each deferred request.\<close>

definition reply_times :: "u32 \<Rightarrow> nat \<Rightarrow> u32 list" where
  "reply_times t n = map (\<lambda>k. t + word_of_nat (Suc k)) [0..<n]"

lemma mutex_release_replies: "snd (mutex_release mx) = map Reply (reply_times (l_time mx) (length (requests mx)))"
proof -
  have "snd (mutex_replies n mx) = map (\<lambda>k. Reply (l_time mx + word_of_nat (Suc k))) [0..<n]" for n mx
  proof (induction n arbitrary: mx)
    case (Suc n)
    have "[0..<Suc n] = 0 # map Suc [0..<n]" by (metis map_Suc_upt upt_conv_Cons zero_less_Suc)
    with Suc [of "mx\<lparr>l_time := l_time mx + 1\<rparr>"] show ?case
      by (simp add: mutex_reply_def split_def comp_def add.assoc)
  qed simp
  then show ?thesis by (simp add: mutex_release_def split_def reply_times_def comp_def)
qed

text \<open>A reply arrives at a node that wants the mutex.\<close>

lemma reply_arrives:
  assumes u: "usable rt os written t b ob" and wf: "wf_objects t" "find_obj t i = Some b" "inited ob \<noteq> 0" "obj_handler ob = Mutex_Handler"
    and mx: "body ob = Mutex_Body mx" and m: "holds m (obj_content i (mutex_bytes (Reply n)))"
  obtains t' ob' mx' where "edsm_dobj_handle_message rt os call (obj_call rt os mprotect call) peer m t = Inr (FAILURE, t')"
    "touches {i} t t'" "usable rt os written t' b ob'" "inited ob' \<noteq> 0" "obj_handler ob' = Mutex_Handler" "body ob' = Mutex_Body mx'"
    "mutex_waiter mx' = remove1 peer (mutex_waiter mx)"
proof -
  let ?bs = "mutex_bytes (Reply n)"
  have rt: "enough_memory rt" and ob: "obj_mem t b = Some ob" using u by (simp_all add: usable_def)
  have "length ?bs < 2 ^ 31" by (simp add: mutex_bytes_def)
  from dobj_dispatch_ok [OF rt m this wf(2) ob wf(3), where os = os and call = call and peer = peer
      and call_obj = "obj_call rt os mprotect call"]
  obtain pl where pl: "payload pl ?bs" "pl = None \<longleftrightarrow> ?bs = []"
    "edsm_dobj_handle_message rt os call (obj_call rt os mprotect call) peer m t
      = res_bind (edsm_mutex_handle_message rt os call b peer pl t) (\<lambda>(_, s'). Inr (FAILURE, s'))"
    using wf(4) by (auto simp: obj_call_def)
  have "?bs \<noteq> []" by (simp add: mutex_bytes_def bytes_of_u32_def)
  with pl(1,2) obtain msg where msg: "pl = Some msg" "holds msg ?bs" by (cases pl) (auto simp: payload_def)
  let ?mx = "fst (mutex_receive peer (Reply n) mx)"
  have "\<not> defers peer (Reply n) mx" by (simp add: defers_def)
  with mutex_handle_ok [OF u mx msg(2), where call = call and peer = peer] obtain t' where
    t': "edsm_mutex_handle_message rt os call b peer (Some msg) t = Inr (SUCCESS, t')"
      "mutex_effect written b ob t (mutex_receive peer (Reply n) mx) t'" by (auto split: if_splits)
  have e: "t' = (put_mutex t b ?mx)\<lparr>world := world t'\<rparr>" using t'(2) by (simp add: mutex_effect_def)
  have "put_mutex t b ?mx = put_obj t b (ob\<lparr>body := Mutex_Body ?mx\<rparr>)" using ob by (simp add: put_mutex_def)
  then have "touches {i} t (put_mutex t b ?mx)"
    using touches_put_obj(1) [OF wf(1,2) ob, of "ob\<lparr>body := Mutex_Body ?mx\<rparr>"] by simp
  then have "touches {i} t t'" by (subst e) (simp add: touches_world)
  moreover note mutex_effect_usable [OF u t'(2)]
  moreover have "mutex_waiter ?mx = remove1 peer (mutex_waiter mx)"
    by (simp add: mutex_receive_def clock_seen_def Let_def waiter_add_reply_def)
  ultimately show ?thesis using pl(3) t'(1) msg(1) wf(3,4)
    by (intro that [of t' "ob\<lparr>body := Mutex_Body ?mx\<rparr>" ?mx]) simp_all
qed

lemma replies_arrive:
  assumes "usable rt os written t b ob" "wf_objects t" "find_obj t i = Some b" "inited ob \<noteq> 0" "obj_handler ob = Mutex_Handler"
    and "body ob = Mutex_Body mx" "list_all2 holds ms (map (\<lambda>n. obj_content i (mutex_bytes (Reply n))) ns)"
  shows "\<exists>t' mx'. handle_each (edsm_dobj_handle_message rt os call (obj_call rt os mprotect call)) (map (Pair peer) ms) t = Inr t'
    \<and> touches {i} t t' \<and> mutex_at t' b = Inr mx' \<and> mutex_waiter mx' = (remove1 peer ^^ length ns) (mutex_waiter mx)"
  using assms
proof (induction ns arbitrary: ms t ob mx)
  case Nil
  then show ?case by (auto simp: touches_refl mutex_body usable_def)
next
  case (Cons n ns)
  from Cons.prems(7) obtain m ms' where ms: "ms = m # ms'" "holds m (obj_content i (mutex_bytes (Reply n)))"
    "list_all2 holds ms' (map (\<lambda>n. obj_content i (mutex_bytes (Reply n))) ns)"
    by (auto simp: list_all2_Cons2)
  obtain t1 ob1 mx1 where 1: "edsm_dobj_handle_message rt os call (obj_call rt os mprotect call) peer m t = Inr (FAILURE, t1)"
    "touches {i} t t1" "usable rt os written t1 b ob1" "inited ob1 \<noteq> 0" "obj_handler ob1 = Mutex_Handler" "body ob1 = Mutex_Body mx1"
    "mutex_waiter mx1 = remove1 peer (mutex_waiter mx)"
    using reply_arrives [OF Cons.prems(1-6) ms(2)] by blast
  have w: "wf_objects t1" "find_obj t1 i = Some b" using 1(2) Cons.prems(3) by (simp_all add: touches_def)
  from Cons.IH [OF 1(3) w 1(4,5,6) ms(3)] obtain t2 mx2 where
    2: "handle_each (edsm_dobj_handle_message rt os call (obj_call rt os mprotect call)) (map (Pair peer) ms') t1 = Inr t2"
      "touches {i} t1 t2" "mutex_at t2 b = Inr mx2" "mutex_waiter mx2 = (remove1 peer ^^ length ns) (mutex_waiter mx1)" by blast
  have "mutex_waiter mx2 = (remove1 peer ^^ length (n # ns)) (mutex_waiter mx)"
    using 2(4) 1(7) by (simp add: funpow_swap1)
  moreover have "touches {i} t t2" using touches_trans [OF 1(2) 2(2)] by simp
  ultimately show ?case using 1(1) 2(1,3) ms(1) by auto
qed

section \<open>Release and acquire\<close>

text \<open>The messages of an unlock: the diffs of the open regions, then the replies.\<close>

definition release_messages :: "('h, 'w, 'k, 'z) memory_scheme \<Rightarrow> u32 \<Rightarrow> mutex_fields \<Rightarrow> byte list list" where
  "release_messages s i mx = map (diff_message s) (dirty s (memory_regions s))
     @ map (\<lambda>n. obj_content i (mutex_bytes (Reply n))) (reply_times (l_time mx) (length (requests mx)))"

text \<open>A node that has asked for mutex \<open>i\<close> and lacks only the reply of peer \<open>p\<close>.\<close>

definition waits_for ::
    "runtime \<Rightarrow> 'w os \<Rightarrow> ('w \<Rightarrow> int \<Rightarrow> byte list) \<Rightarrow> ('h, 'w, obj_msg_handler, 'z) memory_scheme \<Rightarrow> nat \<Rightarrow> u32 \<Rightarrow> u32 \<Rightarrow> bool" where
  "waits_for rt os written t b i p \<longleftrightarrow> wf_objects t \<and> find_obj t i = Some b \<and> (case obj_mem t b of None \<Rightarrow> False | Some ob \<Rightarrow>
     usable rt os written t b ob \<and> inited ob \<noteq> 0 \<and> obj_handler ob = Mutex_Handler
     \<and> (case body ob of Mutex_Body mx \<Rightarrow> mutex_waiter mx = [p] | _ \<Rightarrow> False))"

lemma waits_forE:
  assumes "waits_for rt os written t b i p"
  obtains ob mx where "usable rt os written t b ob" "wf_objects t" "find_obj t i = Some b" "inited ob \<noteq> 0"
    "obj_handler ob = Mutex_Handler" "body ob = Mutex_Body mx" "mutex_waiter mx = [p]"
  using assms by (auto simp: waits_for_def split: option.splits obj_body.splits)

lemma waits_for_touches:
  assumes "waits_for rt os written t b i p" "touches is t t'" "i \<notin> is"
  shows "waits_for rt os written t' b i p"
proof -
  have f: "find_obj t' = find_obj t" "find_obj t i = Some b" using assms(1,2) by (simp_all add: waits_for_def touches_def)
  have "obj_by t' i = obj_by t i" by (rule touches_views [OF assms(2,3)])
  then have "obj_mem t' b = obj_mem t b" using f by (simp add: obj_by_def)
  then show ?thesis
    using assms(1,2) by (simp add: waits_for_def touches_def usable_def split: option.splits)
qed

lemma still_blocked:
  assumes "waits_for rt os written t b i p"
  shows "edsm_mutex_lock_finish b t = None"
proof -
  obtain ob mx where "usable rt os written t b ob" "body ob = Mutex_Body mx" "mutex_waiter mx = [p]"
    using waits_forE [OF assms] by blast
  then have "mutex_at t b = Inr mx" by (auto simp: mutex_body usable_def)
  then show ?thesis using \<open>mutex_waiter mx = [p]\<close> by (simp add: edsm_mutex_lock_finish_def waiter_done_def)
qed

lemma let_in:
  assumes w: "waits_for rt os written t b i p" and ns: "ns \<noteq> []"
    and ms: "list_all2 holds ms (map (\<lambda>n. obj_content i (mutex_bytes (Reply n))) ns)"
  shows "\<exists>t'. handle_each (edsm_dobj_handle_message rt os call (obj_call rt os mprotect call)) (map (Pair p) ms) t = Inr t'
    \<and> touches {i} t t' \<and> edsm_mutex_lock_finish b t' = Some (Inr SUCCESS)"
proof -
  obtain ob mx where ob: "usable rt os written t b ob" "wf_objects t" "find_obj t i = Some b" "inited ob \<noteq> 0"
    "obj_handler ob = Mutex_Handler" "body ob = Mutex_Body mx" "mutex_waiter mx = [p]" using waits_forE [OF w] by blast
  from replies_arrive [OF ob(1-6) ms] obtain t' mx' where
    t': "handle_each (edsm_dobj_handle_message rt os call (obj_call rt os mprotect call)) (map (Pair p) ms) t = Inr t'"
      "touches {i} t t'" "mutex_at t' b = Inr mx'" "mutex_waiter mx' = (remove1 p ^^ length ns) (mutex_waiter mx)" by blast
  have "(remove1 p ^^ n) [] = []" for n by (induction n) simp_all
  then have "mutex_waiter mx' = []" using t'(4) ob(7) ns by (cases ns) (simp_all add: funpow_swap1)
  then show ?thesis using t' by (intro exI [of _ t']) (simp add: edsm_mutex_lock_finish_def waiter_done_def)
qed

lemma handle_each_append:
  "handle_each h (xs @ ys) s = res_bind (handle_each h xs s) (handle_each h ys)"
proof (induction xs arbitrary: s)
  case (Cons x xs)
  then show ?case by (cases x) (simp add: res_bind_assoc split_def)
qed simp

text \<open>The messages of the sender are handled in part.\<close>

lemma release_handled:
  fixes t :: "('h2, 'w2, obj_msg_handler, 'z memory_ext) dobjs_scheme"
  assumes p: "\<forall>a \<in> set (memory_regions s). publishable rt mprotect q s a" "distinct (map (id_of s) (memory_regions s))"
    and t: "memory_pagesize t = memory_pagesize s" "\<forall>a \<in> set (memory_regions s). replica s a t"
    and w: "waits_for rt os written t b i p" and i: "i \<notin> id_of s ` set (memory_regions s)"
    and ms: "list_all2 holds ms (release_messages s i mx)"
  shows "\<exists>t'. handle_each (edsm_dobj_handle_message rt os call (obj_call rt os mprotect call)) (map (Pair p) (take k ms)) t = Inr t'
    \<and> (if k \<le> length (dirty s (memory_regions s)) \<or> requests mx = [] then edsm_mutex_lock_finish b t' = None
       else edsm_mutex_lock_finish b t' = Some (Inr SUCCESS) \<and> (\<forall>a \<in> set (memory_regions s). same_bytes s a t'))"
proof -
  let ?rs = "memory_regions s" let ?ds = "dirty s ?rs" let ?l = "length ?ds" let ?ns = "reply_times (l_time mx) (length (requests mx))"
  have sub: "set (take k ?ds) \<subseteq> set ?rs" "set ?ds \<subseteq> set ?rs" by (auto simp: dirty_def dest: in_set_takeD)
  have d: "distinct (map (id_of s) (take k ?ds))"
    using p(2) unfolding dirty_def by (metis distinct_map_filter distinct_take take_map)
  have "list_all2 holds (take k ms) (take k (map (diff_message s) ?ds) @ take (k - ?l) (map (\<lambda>n. obj_content i (mutex_bytes (Reply n))) ?ns))"
    using list_all2_takeI [OF ms, of k] by (simp add: release_messages_def)
  then obtain ms1 ms2 where m: "take k ms = ms1 @ ms2" "list_all2 holds ms1 (map (diff_message s) (take k ?ds))"
    "list_all2 holds ms2 (map (\<lambda>n. obj_content i (mutex_bytes (Reply n))) (take (k - ?l) ?ns))"
    by (auto simp: list_all2_append2 take_map)
  have wf: "wf_objects t" using w by (simp add: waits_for_def)
  have pub: "\<forall>a \<in> set (take k ?ds). publishable rt mprotect q s a" "\<forall>a \<in> set (take k ?ds). replica s a t" using p(1) t(2) sub by auto
  obtain t1 where t1: "handle_each (edsm_dobj_handle_message rt os call (obj_call rt os mprotect call)) (map (Pair p) ms1) t = Inr t1"
      "touches (id_of s ` set (take k ?ds)) t t1" "\<forall>a \<in> set (take k ?ds). same_bytes s a t1"
    using diffs_arrive [OF pub(1) d wf t(1) pub(2) m(2), of os call p] by blast
  have "i \<notin> id_of s ` set (take k ?ds)" using i sub by auto
  from waits_for_touches [OF w t1(2) this] have w1: "waits_for rt os written t1 b i p" .
  show ?thesis
  proof (cases "k \<le> ?l \<or> requests mx = []")
    case True
    then have n: "take (k - ?l) ?ns = []" by (auto simp: reply_times_def)
    have "ms2 = []" using m(3) unfolding n by simp
    then show ?thesis using t1(1) m(1) still_blocked [OF w1] True by simp
  next
    case False
    then have "take (k - ?l) ?ns \<noteq> []" by (simp add: reply_times_def)
    from let_in [OF w1 this m(3)] obtain t2 where
      t2: "handle_each (edsm_dobj_handle_message rt os call (obj_call rt os mprotect call)) (map (Pair p) ms2) t1 = Inr t2"
        "touches {i} t1 t2" "edsm_mutex_lock_finish b t2 = Some (Inr SUCCESS)" by blast
    have all: "take k ?ds = ?ds" using False by simp
    have "same_bytes s a t2" if a: "a \<in> set ?rs" for a
    proof -
      have "id_of s a \<notin> {i}" using i a by auto
      from touches_views(2) [OF t2(2) this] have v2: "region_by t2 (id_of s a) = region_by t1 (id_of s a)" .
      have "same_bytes s a t1"
      proof (cases "a \<in> set ?ds")
        case True
        then show ?thesis using t1(3) all by simp
      next
        case False
        then have c: "twins (region_of s a) = []" using a by (simp add: dirty_def)
        have "id_of s a \<notin> id_of s ` set ?ds"
          using p(2) a False sub(2) by (auto simp: distinct_map dest: inj_onD)
        then have "region_by t1 (id_of s a) = region_by t (id_of s a)" using touches_views(2) [OF t1(2)] all by simp
        moreover have "same_bytes s a t" using clean_replica [OF _ c _ t(1)] p(1) t(2) a by blast
        ultimately show ?thesis by (simp add: same_bytes_def)
      qed
      then show ?thesis using v2 by (simp add: same_bytes_def)
    qed
    then show ?thesis using t1(1) t2(1,3) m(1) False by (simp add: handle_each_append)
  qed
qed

text \<open>C4: release consistency, over the whole path from the unlock at one node to the return of the lock at another.
  \<^verbatim>\<open>edsm_mutex_unlock\<close> writes to a peer that holds the regions and the mutex first one diff for
  each region with open pages and then the replies, and nothing else. Let the peer be waiting in
  \<^verbatim>\<open>edsm_mutex_lock\<close> for this node alone, with replicas that have the committed bytes. However many of the
  messages it has handled, it stays blocked as long as a diff is missing or no reply has come; once it is let in, every
  shared region has there all the bytes that the first node stored under the lock.\<close>

theorem release_consistency:
  fixes t :: "('h2, 'w2, obj_msg_handler, 'y memory_ext) dobjs_scheme"
  assumes s: "connected s" "accepts os written" "distinct (map (id_of s) (memory_regions s))"
      "\<forall>a \<in> set (memory_regions s). publishable rt mprotect q s a"
    and mob: "obj_mem s am = Some mob" "body mob = Mutex_Body mx" "enough_memory rt" "set (obj_peers mob) \<subseteq> set (ids_of s)"
      "distinct (obj_peers mob)" "q \<in> set (obj_peers mob)" "obj_id mob \<notin> id_of s ` set (memory_regions s)"
    and t: "memory_pagesize t = memory_pagesize s" "\<forall>a \<in> set (memory_regions s). replica s a t"
      "waits_for rt os2 written2 t bm (obj_id mob) (my_id s)"
    and ms: "list_all2 holds ms (release_messages s (obj_id mob) mx)"
  shows "\<exists>s'. edsm_mutex_unlock rt os call mprotect am s = Inr (SUCCESS, s')
    \<and> out written s' q = out written s q @ concat (map (frame MSG_TYPE_DOBJ) (release_messages s (obj_id mob) mx))
    \<and> (\<forall>k. \<exists>t'. handle_each (edsm_dobj_handle_message rt os2 call2 (obj_call rt os2 mprotect call2))
           (map (Pair (my_id s)) (take k ms)) t = Inr t'
         \<and> (if k \<le> length (dirty s (memory_regions s)) \<or> requests mx = [] then edsm_mutex_lock_finish bm t' = None
            else edsm_mutex_lock_finish bm t' = Some (Inr SUCCESS)
              \<and> (\<forall>a \<in> set (memory_regions s). same_bytes s a t')))"
proof -
  have "distinct (memory_regions s)" using s(3) by (simp add: distinct_map)
  from publish_regions [OF s(2,1) this s(4), of call SUCCESS] obtain s1 where
    s1: "tx_end_regions rt os call mprotect (memory_regions s) SUCCESS s = Inr (SUCCESS, s1)"
      "published written q (memory_regions s) s s1" by blast
  have "am \<notin> set (memory_regions s)"
  proof
    assume "am \<in> set (memory_regions s)"
    then have "publishable rt mprotect q s am" using s(4) by blast
    then show False using mob(1,2) by (simp add: publishable_def)
  qed
  then have "usable rt os written s1 am mob"
    using s1(2) s(2) mob by (simp add: usable_def published_def)
  moreover have "edsm_memory_tx_end rt os call mprotect None s = Inr (SUCCESS, s1)" using s1(1) by (simp add: edsm_memory_tx_end_def)
  ultimately obtain s' where s': "edsm_mutex_unlock rt os call mprotect am s = Inr (SUCCESS, s')"
    "mutex_effect written am mob s1 (mutex_release mx) s'" using mutex_unlock_ok mob(2) by blast
  have "out written s' q = out written s q @ concat (map (frame MSG_TYPE_DOBJ) (release_messages s (obj_id mob) mx))"
    using s'(2) s1(2) mob(6)
    by (simp add: mutex_effect_def published_def broadcasts_def mutex_release_replies release_messages_def comp_def)
  with s'(1) release_handled [OF s(4,3) t(1,2,3) mob(7) ms] show ?thesis by blast
qed

text \<open>
  Two nodes that share region 9 and mutex 10: node 1 has changed a byte under the lock and has deferred the request
  of node 2; the concrete instance.
\<close>

definition shared_object :: "u32 \<Rightarrow> obj_msg_handler \<Rightarrow> u32 \<Rightarrow> obj_body \<Rightarrow> obj_msg_handler edsm_dobj" where
  "shared_object i h j b =
     \<lparr>obj_id = i, ref_count = 1, inited = 1, obj_handler = h, obj_peers = [j], obj_waiter = [], body = b\<rparr>"

definition shared_base :: "u32 \<Rightarrow> u32 \<Rightarrow> (nat, int \<Rightarrow> byte list, obj_msg_handler) memory" where
  "shared_base i j = dobjs.extend (proto.extend (proto.truncate (pair_node i j))
       \<lparr>max_obj_id = 10, objects = None, obj_mem = Map.empty, obj_brk = 0, object_lock = None\<rparr>)
     \<lparr>memory_regions = [0], memory_pagesize = 4\<rparr>"

definition sharing_node :: "u32 \<Rightarrow> u32 \<Rightarrow> region_fields \<Rightarrow> mutex_fields \<Rightarrow> (nat, int \<Rightarrow> byte list, obj_msg_handler) memory" where
  "sharing_node i j r mx = add_object (shared_object 10 Mutex_Handler j (Mutex_Body mx))
     (add_object (shared_object 9 Memory_Handler j (Region_Body r)) (shared_base i j))"

definition owner_mutex :: mutex_fields where
  "owner_mutex = zero_mutex\<lparr>l_time := 2, local_locked := True, requests := [\<lparr>req_time = 1, req_peer = 2\<rparr>]\<rparr>"

definition waiting_mutex :: mutex_fields where
  "waiting_mutex = zero_mutex\<lparr>l_time := 1, local_locked := True, mutex_waiter := [1],
     local_request := Some \<lparr>req_time = 1, req_peer = 2\<rparr>\<rparr>"

lemma shared_base_ok:
  assumes "j \<noteq> 0" "i \<noteq> j"
  shows "connected (shared_base i j)" "ids_of (shared_base i j) = [j]" "my_id (shared_base i j) = i"
    "objects (shared_base i j) = None" "obj_mem (shared_base i j) = Map.empty" "obj_brk (shared_base i j) = 0"
    "memory_regions (shared_base i j) = [0]" "memory_pagesize (shared_base i j) = 4"
proof -
  have f: "peer_mem (shared_base i j) = peer_mem (pair_node i j)" "peers (shared_base i j) = peers (pair_node i j)"
    "my_id (shared_base i j) = my_id (pair_node i j)"
    by (simp_all add: shared_base_def dobjs.extend_def proto.extend_def proto.truncate_def)
  show "connected (shared_base i j)" "ids_of (shared_base i j) = [j]" "my_id (shared_base i j) = i"
    using connected_cong [OF f] pair_node_ok [OF assms] f(3) by simp_all
  show "objects (shared_base i j) = None" "obj_mem (shared_base i j) = Map.empty" "obj_brk (shared_base i j) = 0"
    "memory_regions (shared_base i j) = [0]" "memory_pagesize (shared_base i j) = 4"
    by (simp_all add: shared_base_def dobjs.extend_def proto.extend_def)
qed

lemma sharing_node_ok:
  assumes "j \<noteq> 0" "i \<noteq> j"
  shows "connected (sharing_node i j r mx)" "ids_of (sharing_node i j r mx) = [j]" "my_id (sharing_node i j r mx) = i"
    "obj_mem (sharing_node i j r mx) = [0 \<mapsto> shared_object 9 Memory_Handler j (Region_Body r),
       1 \<mapsto> shared_object 10 Mutex_Handler j (Mutex_Body mx)]"
    "memory_regions (sharing_node i j r mx) = [0]" "memory_pagesize (sharing_node i j r mx) = 4"
    "wf_objects (sharing_node i j r mx)" "find_obj (sharing_node i j r mx) 9 = Some 0" "find_obj (sharing_node i j r mx) 10 = Some 1"
proof -
  let ?b = "shared_base i j" let ?o1 = "shared_object 9 Memory_Handler j (Region_Body r)"
  let ?o2 = "shared_object 10 Mutex_Handler j (Mutex_Body mx)" let ?s1 = "add_object ?o1 ?b" let ?s = "sharing_node i j r mx"
  note b = shared_base_ok [OF assms]
  have f: "find_obj ?b k = None" for k by (simp add: find_obj_def b)
  have "wf_objects ?b" by (simp add: wf_objects_def b)
  note s1 = add_object_ok [OF this _ f, of ?o1]
  have brk: "obj_brk ?s1 = 1" by (simp add: add_object_def Let_def b)
  have "few_items (objects ?s1)"
    unfolding add_object_def Let_def using few_items_add [of "obj_key [0 \<mapsto> ?o1]" None 0] by (simp add: put_obj_def b few_items_def)
  then have ce: "can_expand (objects ?s1)" by (rule few_items_can_expand)
  have s1': "wf_objects ?s1" "find_obj ?s1 (obj_id ?o2) = None" "find_obj ?s1 9 = Some 0"
    using s1 f by (simp_all add: b shared_object_def)
  have "obj_id ?o2 = 10" by (simp add: shared_object_def)
  with add_object_ok [OF s1'(1) ce s1'(2), folded sharing_node_def] s1'(3)
  show "wf_objects ?s" "find_obj ?s 9 = Some 0" "find_obj ?s 10 = Some 1" by (simp_all add: brk)
  have e: "peer_mem ?s = peer_mem ?b" "peers ?s = peers ?b" "my_id ?s = my_id ?b" by (simp_all add: sharing_node_def)
  show "connected ?s" "ids_of ?s = [j]" "my_id ?s = i" using connected_cong [OF e] b e(3) by simp_all
  show "obj_mem ?s = [0 \<mapsto> ?o1, 1 \<mapsto> ?o2]" "memory_regions ?s = [0]" "memory_pagesize ?s = 4"
    by (simp_all add: sharing_node_def brk b)
qed

lemma release_consistency_witness:
  "\<exists>s' t' r. edsm_mutex_unlock good_runtime tape_os no_call (\<lambda>_. True) 1 (sharing_node 1 2 dirty_region owner_mutex) = Inr (SUCCESS, s')
     \<and> handle_each (edsm_dobj_handle_message good_runtime tape_os no_call (obj_call good_runtime tape_os (\<lambda>_. True) no_call))
         [(1, message_of (obj_content 9 (diff_of 4 dirty_region))), (1, message_of (obj_content 10 (mutex_bytes (Reply 3))))]
         (sharing_node 2 1 sample_region waiting_mutex) = Inr t'
     \<and> edsm_mutex_lock_finish 1 t' = Some (Inr SUCCESS) \<and> region_by t' 9 = Some r \<and> contents r = [0, 1, 2, 3, 4, 9, 6, 7]"
proof -
  let ?s = "sharing_node 1 2 dirty_region owner_mutex" let ?t = "sharing_node 2 1 sample_region waiting_mutex"
  let ?mob = "shared_object 10 Mutex_Handler 2 (Mutex_Body owner_mutex)"
  let ?ms = "[message_of (obj_content 9 (diff_of 4 dirty_region)), message_of (obj_content 10 (mutex_bytes (Reply 3)))]"
  have s: "connected ?s" "ids_of ?s = [2]" "my_id ?s = 1" "obj_mem ?s = [0 \<mapsto> shared_object 9 Memory_Handler 2 (Region_Body dirty_region), 1 \<mapsto> ?mob]"
    "memory_regions ?s = [0]" "memory_pagesize ?s = 4" using sharing_node_ok [of 2 1 dirty_region owner_mutex] by simp_all
  have t: "connected ?t" "ids_of ?t = [1]" "obj_mem ?t = [0 \<mapsto> shared_object 9 Memory_Handler 1 (Region_Body sample_region),
      1 \<mapsto> shared_object 10 Mutex_Handler 1 (Mutex_Body waiting_mutex)]"
    "memory_pagesize ?t = 4" "wf_objects ?t" "find_obj ?t 9 = Some 0" "find_obj ?t 10 = Some 1"
    using sharing_node_ok [of 1 2 sample_region waiting_mutex] by simp_all
  have v: "region_of ?s 0 = dirty_region" "id_of ?s 0 = 9"
    by (simp_all add: region_of_def region_at_def obj_at_def id_of_def s shared_object_def)
  have p: "publishable good_runtime (\<lambda>_. True) 2 ?s 0"
    using dirty_ok(1) by (simp add: publishable_def s shared_object_def dirty_lengths message_room_def)
  have rb: "region_by ?t 9 = Some sample_region"
    using sample_region_ok by (simp add: region_by_def obj_by_def t shared_object_def)
  have "contents sample_region ! i = committed 4 dirty_region i" if "i < 8" for i
  proof -
    from that consider "i = 0" | "i = 1" | "i = 2" | "i = 3" | "i = 4" | "i = 5" | "i = 6" | "i = 7" by linarith
    then show ?thesis
      by cases (simp_all add: committed_def base_page_def find_twin_def page_of_def dirty_region_def sample_region_def)
  qed
  then have r: "replica ?s 0 ?t"
    by (simp add: replica_def v rb s) (simp add: dirty_region_def sample_region_def)
  have w: "waits_for good_runtime tape_os (\<lambda>w. w) ?t 1 10 1"
    using t tape_os_accepts enough_memory_good
    by (simp add: waits_for_def usable_def shared_object_def waiting_mutex_def zero_mutex_def)
  have d: "twins dirty_region \<noteq> []" by (simp add: dirty_region_def)
  have m: "release_messages ?s 10 owner_mutex = [obj_content 9 (diff_of 4 dirty_region), obj_content 10 (mutex_bytes (Reply 3))]"
    using d by (simp add: release_messages_def dirty_def s v diff_message_def) (simp add: owner_mutex_def reply_times_def)
  have "holds (message_of bs) bs" if "length bs < 1000" for bs
    by (rule conjunct1 [OF holds_message_of]) (use that in simp)
  then have ms: "list_all2 holds ?ms (release_messages ?s (obj_id ?mob) owner_mutex)"
    unfolding m shared_object_def by (simp add: m obj_content_def dirty_lengths mutex_bytes_def)
  have q: "obj_mem ?s 1 = Some ?mob" "body ?mob = Mutex_Body owner_mutex" "set (obj_peers ?mob) \<subseteq> set (ids_of ?s)"
    "distinct (obj_peers ?mob)" "2 \<in> set (obj_peers ?mob)" "obj_id ?mob \<notin> id_of ?s ` set (memory_regions ?s)"
    by (simp_all add: s v) (simp_all add: shared_object_def)
  have w': "waits_for good_runtime tape_os (\<lambda>w. w) ?t 1 (obj_id ?mob) (my_id ?s)" using w by (simp add: s(3)) (simp add: shared_object_def)
  have "distinct (map (id_of ?s) (memory_regions ?s))" "\<forall>a \<in> set (memory_regions ?s). publishable good_runtime (\<lambda>_. True) 2 ?s a"
    "memory_pagesize ?t = memory_pagesize ?s" "\<forall>a \<in> set (memory_regions ?s). replica ?s a ?t"
    using p r by (simp_all add: s t)
  note c = release_consistency [OF s(1) tape_os_accepts this(1,2) q(1,2) enough_memory_good q(3-6) this(3,4) w' ms, of no_call no_call]
  have f: "requests owner_mutex \<noteq> []" by (simp add: owner_mutex_def)
  have g: "dirty ?s (memory_regions ?s) = [0]" using d by (simp add: dirty_def s v)
  from c obtain s' where s': "edsm_mutex_unlock good_runtime tape_os no_call (\<lambda>_. True) 1 ?s = Inr (SUCCESS, s')" by blast
  from c obtain t' where
    "handle_each (edsm_dobj_handle_message good_runtime tape_os no_call (obj_call good_runtime tape_os (\<lambda>_. True) no_call))
       (map (Pair (my_id ?s)) (take 2 ?ms)) ?t = Inr t'"
    "if 2 \<le> length (dirty ?s (memory_regions ?s)) \<or> requests owner_mutex = [] then edsm_mutex_lock_finish 1 t' = None
     else edsm_mutex_lock_finish 1 t' = Some (Inr SUCCESS) \<and> (\<forall>a \<in> set (memory_regions ?s). same_bytes ?s a t')" by blast
  then have "handle_each (edsm_dobj_handle_message good_runtime tape_os no_call (obj_call good_runtime tape_os (\<lambda>_. True) no_call))
       (map (Pair 1) ?ms) ?t = Inr t'" "edsm_mutex_lock_finish 1 t' = Some (Inr SUCCESS)" "same_bytes ?s 0 t'"
    unfolding s(3,5) g [unfolded s(5)] using f by (auto split: if_splits)
  moreover have "contents dirty_region = [0, 1, 2, 3, 4, 9, 6, 7]" by (simp add: dirty_region_def)
  ultimately show ?thesis using s' by (auto simp: same_bytes_def v split: option.splits)
qed

end
