(* ===== verification/Blocks.thy ===== *)
theory Blocks
  imports Prelude
begin

text \<open>
  Blocks of dynamic memory that grow: what a pointer into the heap is (null, dangling, or a block of
  cells), and \<^verbatim>\<open>realloc\<close> and \<^verbatim>\<open>free\<close> on it. The containers of
  \<^verbatim>\<open>utstring.h\<close> and \<^verbatim>\<open>utarray.h\<close> own one such block each. A cell is
  \<^term>\<open>None\<close> while it is indeterminate. Positions are integers, so that an address before the
  block is an error and not position 0.
\<close>

datatype 'c block = Null_Ptr | Dangling | Block "'c option list"

definition block_cells :: "'c block \<Rightarrow> 'c option list res" where
  "block_cells b = (case b of Null_Ptr \<Rightarrow> Inl NullDereference | Dangling \<Rightarrow> Inl UseAfterFree | Block cs \<Rightarrow> Inr cs)"

text \<open>
  \<^verbatim>\<open>realloc\<close> to \<open>n\<close> cells of \<open>sz\<close> bytes. The number of bytes is a product of
  type \<^verbatim>\<open>size_t\<close>, which wraps: the block then has only the whole cells that fit into the
  wrapped number of bytes. A null result, after which the callers end the process, is
  \<^term>\<open>Inl Aborted\<close>.
\<close>

definition cells_granted :: "nat \<Rightarrow> nat \<Rightarrow> nat" where
  "cells_granted n sz = (if n * sz < 2 ^ 64 then n else (n * sz mod 2 ^ 64) div sz)"

definition realloc_or_exit :: "runtime \<Rightarrow> 'c block \<Rightarrow> nat \<Rightarrow> nat \<Rightarrow> 'c block res" where
  "realloc_or_exit rt b n sz =
     (case b of
        Dangling \<Rightarrow> Inl UseAfterFree
      | _ \<Rightarrow>
          if malloc_ok rt (n * sz mod 2 ^ 64)
          then let m = cells_granted n sz in
               Inr (Block (case b of Block cs \<Rightarrow> take m cs @ replicate (m - length cs) None | _ \<Rightarrow> replicate m None))
          else Inl Aborted)"

definition free_block :: "'c block \<Rightarrow> 'c block res" where
  "free_block b = (case b of Null_Ptr \<Rightarrow> Inr Null_Ptr | Dangling \<Rightarrow> Inl UseAfterFree | Block _ \<Rightarrow> Inr Dangling)"

text \<open>Reading and writing the cell at a position.\<close>

definition cell_at :: "'c option list \<Rightarrow> int \<Rightarrow> 'c res" where
  "cell_at cs k = (if 0 \<le> k \<and> k < int (length cs) then determinate (cs ! nat k) else Inl OutOfBounds)"

definition put_cell :: "'c option list \<Rightarrow> int \<Rightarrow> 'c \<Rightarrow> 'c option list res" where
  "put_cell cs k x = (if 0 \<le> k \<and> k < int (length cs) then Inr (cs[nat k := Some x]) else Inl OutOfBounds)"

text \<open>Runs of determinate cells.\<close>

definition filled :: "'c list \<Rightarrow> 'c option list" where
  "filled xs = map Some xs"

lemma block_cells_simps [simp]:
  "block_cells Null_Ptr = Inl NullDereference" "block_cells Dangling = Inl UseAfterFree" "block_cells (Block cs) = Inr cs"
  by (simp_all add: block_cells_def)

lemma realloc_or_exit_simps:
  "realloc_or_exit rt Dangling n sz = Inl UseAfterFree"
  "enough_memory rt \<Longrightarrow> n * sz < 2 ^ 64 \<Longrightarrow> realloc_or_exit rt Null_Ptr n sz = Inr (Block (replicate n None))"
  "enough_memory rt \<Longrightarrow> n * sz < 2 ^ 64 \<Longrightarrow>
     realloc_or_exit rt (Block cs) n sz = Inr (Block (take n cs @ replicate (n - length cs) None))"
  by (simp_all add: realloc_or_exit_def enough_memory_def cells_granted_def)

text \<open>Bytes counted by a \<^verbatim>\<open>size_t\<close>, and 32-bit counts of elements of up to \<open>2\<^sup>3\<^sup>2\<close> bytes.\<close>

lemma bytes_fit: "unat (n :: u64) < 2 ^ 64"
  using unsigned_less [of n, where ?'a = nat] by simp

lemma elements_fit:
  assumes "sz \<le> 2 ^ 32"
  shows "unat (n :: u32) * sz < 2 ^ 64"
proof -
  have "unat n * sz \<le> unat n * 2 ^ 32" using assms by simp
  also have "\<dots> < 2 ^ 32 * 2 ^ 32" using unsigned_less [of n, where ?'a = nat] by simp
  finally show ?thesis by simp
qed

lemmas realloc_elements = realloc_or_exit_simps(2,3) [OF _ elements_fit]

lemma free_block_simps [simp]:
  "free_block Null_Ptr = Inr Null_Ptr" "free_block Dangling = Inl UseAfterFree" "free_block (Block cs) = Inr Dangling"
  by (simp_all add: free_block_def)

lemma cell_at_ok [simp]: "k < length cs \<Longrightarrow> cs ! k = Some x \<Longrightarrow> cell_at cs (int k) = Inr x"
  by (simp add: cell_at_def)

lemma cell_at_outside [simp]: "k < 0 \<or> int (length cs) \<le> k \<Longrightarrow> cell_at cs k = Inl OutOfBounds"
  by (auto simp: cell_at_def)

lemma put_cell_ok [simp]: "k < length cs \<Longrightarrow> put_cell cs (int k) x = Inr (cs[k := Some x])"
  by (simp add: put_cell_def)

lemma filled_simps [simp]:
  "filled [] = []" "length (filled xs) = length xs" "filled (xs @ ys) = filled xs @ filled ys"
  "take n (filled xs) = filled (take n xs)" "drop n (filled xs) = filled (drop n xs)"
  "filled (x # xs) = Some x # filled xs" "filled xs = filled ys \<longleftrightarrow> xs = ys"
  by (simp_all add: filled_def take_map drop_map inj_map_eq_map inj_def)

lemma nth_filled [simp]: "k < length xs \<Longrightarrow> filled xs ! k = Some (xs ! k)"
  by (simp add: filled_def)

lemma cell_at_filled [simp]: "0 \<le> k \<Longrightarrow> k < int (length xs) \<Longrightarrow> cell_at (filled xs) k = Inr (xs ! nat k)"
  by (simp add: cell_at_def)

lemma cells_filled: "cells = filled"
  by (simp add: fun_eq_iff cells_def filled_def)

section \<open>Calls that may not return\<close>

text \<open>\<^term>\<open>None\<close> is a call that never returns; faults pass through.\<close>

definition opt_res_bind :: "'a res option \<Rightarrow> ('a \<Rightarrow> 'b res option) \<Rightarrow> 'b res option" where
  "opt_res_bind m f = (case m of None \<Rightarrow> None | Some (Inl e) \<Rightarrow> Some (Inl e) | Some (Inr x) \<Rightarrow> f x)"

lemma opt_res_bind_simps [simp]:
  "opt_res_bind None f = None" "opt_res_bind (Some (Inl e)) f = Some (Inl e)" "opt_res_bind (Some (Inr x)) f = f x"
  by (simp_all add: opt_res_bind_def)

lemma opt_res_bind_eq: "opt_res_bind m f = Option.bind m (\<lambda>r. case r of Inl e \<Rightarrow> Some (Inl e) | Inr x \<Rightarrow> f x)"
  by (auto simp: opt_res_bind_def split: option.splits sum.splits)

lemma opt_res_bind_mono [partial_function_mono]:
  assumes "mono_option B" "\<And>y. mono_option (\<lambda>f. C y f)"
  shows "mono_option (\<lambda>f. opt_res_bind (B f) (\<lambda>y. C y f))"
  unfolding opt_res_bind_eq
proof (rule bind_mono [OF assms(1)])
  show "mono_option (\<lambda>f. case r of Inl e \<Rightarrow> Some (Inl e) | Inr x \<Rightarrow> C x f)" for r
    using assms(2) by (cases r) (simp_all add: monotone_def fun_ord_def flat_ord_def)
qed

end
