(* ===== verification/Utstring.thy ===== *)
theory Utstring
  imports Blocks
begin

text \<open>
  The growing strings of \<^verbatim>\<open>src/uthash/utstring.h\<close>: the buffer macros and
  formatted output. \<^verbatim>\<open>size_t\<close> values are 64-bit words. The loop of formatted output may run for ever
  and is a partial function.
\<close>

section \<open>The buffer\<close>

record UT_string =
  str_d :: "byte block"
  str_n :: u64
  str_i :: u64

definition utstring_reserve :: "runtime \<Rightarrow> UT_string \<Rightarrow> u64 \<Rightarrow> UT_string res" where
  "utstring_reserve rt s amt =
     (if str_n s - str_i s < amt
      then res_bind (realloc_or_exit rt (str_d s) (unat (str_n s + amt)) 1) (\<lambda>d.
           Inr (s\<lparr>str_d := d, str_n := str_n s + amt\<rparr>))
      else Inr s)"

text \<open>\<^verbatim>\<open>s->d[k] = c\<close>\<close>

definition store_char :: "UT_string \<Rightarrow> u64 \<Rightarrow> byte \<Rightarrow> UT_string res" where
  "store_char s k c =
     res_bind (block_cells (str_d s)) (\<lambda>cs.
     res_bind (put_cell cs (int (unat k)) c) (\<lambda>cs'.
     Inr (s\<lparr>str_d := Block cs'\<rparr>)))"

text \<open>The fields are set whatever they were before.\<close>

definition utstring_init :: "runtime \<Rightarrow> UT_string res" where
  "utstring_init rt =
     res_bind (utstring_reserve rt \<lparr>str_d = Null_Ptr, str_n = 0, str_i = 0\<rparr> 100) (\<lambda>s.
     store_char s 0 0)"

definition utstring_done :: "UT_string \<Rightarrow> UT_string res" where
  "utstring_done s =
     res_bind (if str_d s \<noteq> Null_Ptr then free_block (str_d s) else Inr (str_d s)) (\<lambda>d.
     Inr (s\<lparr>str_d := d, str_n := 0\<rparr>))"

definition sizeof_UT_string :: nat where "sizeof_UT_string = 24"

definition utstring_new :: "runtime \<Rightarrow> UT_string res" where
  "utstring_new rt =
     res_bind (check Aborted (malloc_ok rt sizeof_UT_string)) (\<lambda>_. utstring_init rt)"

text \<open>\<^verbatim>\<open>utstring_free\<close>: what is left of the string is a dangling pointer.\<close>

definition utstring_free :: "UT_string \<Rightarrow> unit res" where
  "utstring_free s = res_bind (utstring_done s) (\<lambda>_. Inr ())"

definition utstring_clear :: "UT_string \<Rightarrow> UT_string res" where
  "utstring_clear s = store_char (s\<lparr>str_i := 0\<rparr>) 0 0"

definition utstring_renew :: "runtime \<Rightarrow> UT_string option \<Rightarrow> UT_string res" where
  "utstring_renew rt p = (case p of Some s \<Rightarrow> utstring_clear s | None \<Rightarrow> utstring_new rt)"

definition utstring_bincpy :: "runtime \<Rightarrow> UT_string \<Rightarrow> cell list \<Rightarrow> u64 \<Rightarrow> UT_string res" where
  "utstring_bincpy rt s b l =
     res_bind (utstring_reserve rt s (l + 1)) (\<lambda>s1.
     res_bind (if l = 0 then Inr s1
               else res_bind (block_cells (str_d s1)) (\<lambda>cs.
                    res_bind (memcpy cs (int (unat (str_i s1))) b 0 (unat l)) (\<lambda>cs'.
                    Inr (s1\<lparr>str_d := Block cs'\<rparr>)))) (\<lambda>s2.
     store_char (s2\<lparr>str_i := str_i s2 + l\<rparr>) (str_i s2 + l) 0))"

text \<open>\<^verbatim>\<open>utstring_concat\<close> of two different strings.\<close>

definition utstring_concat :: "runtime \<Rightarrow> UT_string \<Rightarrow> UT_string \<Rightarrow> UT_string res" where
  "utstring_concat rt dst src =
     res_bind (utstring_reserve rt dst (str_i src + 1)) (\<lambda>s1.
     res_bind (if str_i src = 0 then Inr s1
               else res_bind (block_cells (str_d s1)) (\<lambda>cs.
                    res_bind (block_cells (str_d src)) (\<lambda>b.
                    res_bind (memcpy cs (int (unat (str_i s1))) b 0 (unat (str_i src))) (\<lambda>cs'.
                    Inr (s1\<lparr>str_d := Block cs'\<rparr>))))) (\<lambda>s2.
     store_char (s2\<lparr>str_i := str_i s2 + str_i src\<rparr>) (str_i s2 + str_i src) 0))"

definition utstring_len :: "UT_string \<Rightarrow> u32" where
  "utstring_len s = ucast (str_i s)"

definition utstring_body :: "UT_string \<Rightarrow> byte block" where
  "utstring_body s = str_d s"

text \<open>
  \<^verbatim>\<open>vsnprintf\<close> into \<open>room\<close> bytes from position \<open>k\<close> on, of arguments whose
  complete text is \<open>txt\<close>: the C99 result is the length of the complete text, the older one
  (\<open>old\<close>) is negative when the text does not fit; a length that is not an
  \<^verbatim>\<open>int\<close> is an error.
\<close>

definition vsnprintf_at :: "bool \<Rightarrow> cell list \<Rightarrow> nat \<Rightarrow> nat \<Rightarrow> byte list \<Rightarrow> (int \<times> cell list) res" where
  "vsnprintf_at old cs k room txt =
     (let n = (if \<not> in_int (int (length txt)) \<or> old \<and> room \<le> length txt then - 1 else int (length txt))
      in if room = 0 then Inr (n, cs)
         else res_bind (memcpy cs (int k) (filled (take (room - 1) txt @ [0])) 0
                (Suc (min (room - 1) (length txt)))) (\<lambda>cs'. Inr (n, cs')))"

partial_function (option) utstring_printf_va ::
    "runtime \<Rightarrow> bool \<Rightarrow> UT_string \<Rightarrow> byte list \<Rightarrow> UT_string res option" where
  "utstring_printf_va rt old s txt =
     (case res_bind (block_cells (str_d s)) (\<lambda>cs.
        vsnprintf_at old cs (unat (str_i s)) (unat (str_n s - str_i s)) txt) of
        Inl e \<Rightarrow> Some (Inl e)
      | Inr (n, cs) \<Rightarrow>
          let s1 = s\<lparr>str_d := Block cs\<rparr> in
          if n > - 1 \<and> nat n < unat (str_n s - str_i s)
          then Some (Inr (s1\<lparr>str_i := str_i s + word_of_int n\<rparr>))
          else case (if n > - 1
                     then res_bind (check SignedOverflow (in_int (n + 1))) (\<lambda>_.
                          utstring_reserve rt s1 (word_of_int (n + 1)))
                     else utstring_reserve rt s1 (str_n s * 2)) of
              Inl e \<Rightarrow> Some (Inl e)
            | Inr s2 \<Rightarrow> utstring_printf_va rt old s2 txt)"

section \<open>What a string holds\<close>

text \<open>The text, its terminating zero, and the room behind it.\<close>

definition holds_text :: "UT_string \<Rightarrow> byte list \<Rightarrow> bool" where
  "holds_text s txt \<longleftrightarrow> (\<exists>rest. str_d s = Block (filled txt @ Some 0 # rest) \<and> unat (str_i s) = length txt
     \<and> unat (str_n s) = length txt + 1 + length rest)"


lemma unat_u64_add: "unat (x :: u64) + unat y < 2 ^ 64 \<Longrightarrow> unat (x + y) = unat x + unat y"
  by (simp add: unat_word_ariths)

lemma unat_u64_sub: "unat (y :: u64) \<le> unat x \<Longrightarrow> unat (x - y) = unat x - unat y"
  by (simp add: unat_sub word_le_nat_alt)

lemma holds_room: "holds_text s txt \<Longrightarrow> unat (str_n s - str_i s) = unat (str_n s) - length txt"
  by (auto simp: holds_text_def unat_u64_sub)

text \<open>The block of a string that holds a text and has room for \<open>k\<close> bytes after it.\<close>

definition has_room :: "UT_string \<Rightarrow> byte list \<Rightarrow> nat \<Rightarrow> bool" where
  "has_room s txt k \<longleftrightarrow> (\<exists>rest. str_d s = Block (filled txt @ rest) \<and> unat (str_i s) = length txt
     \<and> unat (str_n s) = length txt + length rest \<and> k \<le> length rest)"

lemma holds_has_room: "holds_text s txt \<Longrightarrow> has_room s txt (unat (str_n s) - length txt)"
  by (auto simp: holds_text_def has_room_def)

lemma reserve_room:
  assumes "enough_memory rt" "has_room s txt k" "unat (str_n s) + unat amt < 2 ^ 64"
  shows "\<exists>s' rest rest'. utstring_reserve rt s amt = Inr s' \<and> has_room s' txt (unat amt)
     \<and> str_d s = Block (filled txt @ rest) \<and> str_d s' = Block (filled txt @ rest @ rest')
     \<and> str_n s' = (if str_n s - str_i s < amt then str_n s + amt else str_n s)"
proof -
  from assms(2) obtain rest where s: "str_d s = Block (filled txt @ rest)" "unat (str_i s) = length txt"
      "unat (str_n s) = length txt + length rest"
    by (auto simp: has_room_def)
  have n: "unat (str_n s + amt) = unat (str_n s) + unat amt" using assms(3) by (rule unat_u64_add)
  show ?thesis
  proof (cases "str_n s - str_i s < amt")
    case True
    with assms(1) s n bytes_fit [of "str_n s + amt"] show ?thesis
      by (auto simp: utstring_reserve_def has_room_def realloc_or_exit_simps)
  next
    case False
    then have "unat amt \<le> unat (str_n s) - length txt"
      using s by (simp add: word_less_nat_alt unat_u64_sub)
    with False s show ?thesis by (auto simp: utstring_reserve_def has_room_def)
  qed
qed

lemma reserve_ok:
  assumes "enough_memory rt" "holds_text s txt" "unat (str_n s) + unat amt < 2 ^ 64"
  shows "\<exists>s'. utstring_reserve rt s amt = Inr s' \<and> has_room s' txt (unat amt) \<and> holds_text s' txt"
proof -
  from reserve_room [OF assms(1) holds_has_room [OF assms(2)] assms(3)] obtain s' rest rest' where
    r: "utstring_reserve rt s amt = Inr s'" "has_room s' txt (unat amt)"
      "str_d s = Block (filled txt @ rest)" "str_d s' = Block (filled txt @ rest @ rest')"
    by blast
  moreover have "holds_text s' txt"
    using r(2-) assms(2) by (auto simp: holds_text_def has_room_def)
  ultimately show ?thesis by blast
qed

lemma store_char_ok:
  assumes "str_d s = Block (filled txt @ c # rest)" "unat k = length txt"
  shows "store_char s k b = Inr (s\<lparr>str_d := Block (filled txt @ Some b # rest)\<rparr>)"
  using assms list_update_length [of "filled txt" c rest "Some b"] by (simp add: store_char_def put_cell_def)

text \<open>Copying bytes behind the text and ending it with a zero.\<close>

lemma append_bytes_ok:
  assumes "has_room s txt (length bs + 1)" "l = word_of_nat (length bs)" "length txt + length bs < 2 ^ 64"
  shows "\<exists>cs cs'. str_d s = Block cs \<and> memcpy cs (int (unat (str_i s))) (filled bs @ x) 0 (unat l) = Inr cs'
     \<and> (\<exists>s'. store_char (s\<lparr>str_d := Block cs', str_i := str_i s + l\<rparr>) (str_i s + l) 0 = Inr s' \<and> holds_text s' (txt @ bs))"
proof -
  from assms(1) obtain rest where s: "str_d s = Block (filled txt @ rest)" "unat (str_i s) = length txt"
      "unat (str_n s) = length txt + length rest" "length bs + 1 \<le> length rest"
    by (auto simp: has_room_def)
  have l: "unat l = length bs" using assms(2,3) by (simp add: unat_of_nat)
  then have i: "unat (str_i s + l) = length (txt @ bs)" using s(2) assms(3) by (simp add: unat_u64_add)
  obtain c rest' where r: "drop (length bs) rest = c # rest'" using s(4) by (cases "drop (length bs) rest") auto
  have m: "memcpy (filled txt @ rest) (int (length txt)) (filled bs @ x) 0 (length bs)
      = Inr (filled (txt @ bs) @ c # rest')"
    using s(4) r by (subst memcpy_ok) simp_all
  have "store_char (s\<lparr>str_d := Block (filled (txt @ bs) @ c # rest'), str_i := str_i s + l\<rparr>) (str_i s + l) 0
      = Inr (s\<lparr>str_d := Block (filled (txt @ bs) @ Some 0 # rest'), str_i := str_i s + l\<rparr>)"
    using i by (subst store_char_ok [of _ "txt @ bs" c "rest'"]) simp_all
  moreover have "length rest = length bs + Suc (length rest')"
    using r s(4) by (metis add_diff_inverse_nat length_Cons length_drop not_less Suc_eq_plus1 Suc_leD)
  ultimately show ?thesis using s i l m by (auto simp: holds_text_def)
qed

lemma bincpy_ok:
  assumes "enough_memory rt" "holds_text s txt" "unat (str_n s) + length bs + 1 < 2 ^ 64"
  shows "\<exists>s'. utstring_bincpy rt s (filled bs @ x) (word_of_nat (length bs)) = Inr s' \<and> holds_text s' (txt @ bs)"
proof -
  let ?l = "word_of_nat (length bs) :: u64"
  have l: "unat (?l + 1) = length bs + 1" "unat ?l = length bs"
    using assms(3) by (simp_all add: unat_of_nat unat_u64_add)
  have "unat (str_n s) + unat (?l + 1) < 2 ^ 64" using assms(3) l(1) by simp
  from reserve_ok [OF assms(1,2) this] l
  obtain s1 where s1: "utstring_reserve rt s (?l + 1) = Inr s1" "has_room s1 txt (length bs + 1)" by auto
  have b: "length txt + length bs < 2 ^ 64" using assms(2,3) by (auto simp: holds_text_def)
  from append_bytes_ok [OF s1(2) refl b, of x] obtain cs cs' s' where a: "str_d s1 = Block cs"
      "memcpy cs (int (unat (str_i s1))) (filled bs @ x) 0 (unat ?l) = Inr cs'"
      "store_char (s1\<lparr>str_d := Block cs', str_i := str_i s1 + ?l\<rparr>) (str_i s1 + ?l) 0 = Inr s'" "holds_text s' (txt @ bs)"
    by blast
  show ?thesis
  proof (cases "?l = 0")
    case True
    with a(2) have "cs' = cs" by (simp add: memcpy_def)
    then have "s1\<lparr>str_d := Block cs'\<rparr> = s1" using a(1) by simp
    with True a s1(1) show ?thesis by (simp add: utstring_bincpy_def)
  next
    case False
    with a s1(1) show ?thesis by (simp add: utstring_bincpy_def)
  qed
qed

lemma concat_is_bincpy:
  assumes "holds_text src t2"
  shows "\<exists>x. utstring_concat rt dst src = utstring_bincpy rt dst (filled t2 @ x) (word_of_nat (length t2))"
proof -
  from assms obtain rest where "str_d src = Block (filled t2 @ Some 0 # rest)" "unat (str_i src) = length t2"
    by (auto simp: holds_text_def)
  moreover have "word_of_nat (unat (str_i src)) = str_i src" by simp
  ultimately have "utstring_concat rt dst src = utstring_bincpy rt dst (filled t2 @ Some 0 # rest) (word_of_nat (length t2))"
    by (simp add: utstring_concat_def utstring_bincpy_def cong: if_cong)
  then show ?thesis by blast
qed

lemma init_ok: "enough_memory rt \<Longrightarrow> \<exists>s. utstring_init rt = Inr s \<and> holds_text s []"
  using store_char_ok [of "\<lparr>str_d = Block (replicate 100 None), str_n = 100, str_i = 0\<rparr>" "[]" None "replicate 99 None" 0 0]
  by (simp add: utstring_init_def utstring_reserve_def holds_text_def realloc_or_exit_simps flip: replicate_Suc)

lemma clear_ok:
  assumes "holds_text s txt"
  shows "\<exists>s'. utstring_clear s = Inr s' \<and> holds_text s' []"
proof -
  from assms obtain rest where s: "str_d s = Block (filled txt @ Some 0 # rest)"
      "unat (str_n s) = length txt + 1 + length rest" by (auto simp: holds_text_def)
  obtain c cs where c: "filled txt @ Some 0 # rest = c # cs" by (cases "filled txt @ Some 0 # rest") auto
  then have "length (c # cs) = length txt + 1 + length rest" by (metis add_Suc_right length_append filled_simps(2) length_Cons Suc_eq_plus1 plus_1_eq_Suc add.assoc add.commute)
  with s c show ?thesis
    using store_char_ok [of "s\<lparr>str_i := 0\<rparr>" "[]" c cs 0 0] by (auto simp: utstring_clear_def holds_text_def)
qed


text \<open>Formatted output, by induction on the room that is missing.\<close>

lemma printf_ok:
  assumes rt: "enough_memory rt" and t: "int (length t) < 2 ^ 31 - 1"
    and m: "3 * (length txt + length t + 1) \<le> m" "4 * m < 2 ^ 64"
  shows "has_room s txt 1 \<Longrightarrow> unat (str_n s) \<le> m \<Longrightarrow>
     \<exists>s'. utstring_printf_va rt old s t = Some (Inr s') \<and> holds_text s' (txt @ t)"
proof (induction "length txt + length t + 1 - unat (str_n s)" arbitrary: s rule: less_induct)
  case less
  from less.prems(1) obtain rest where s: "str_d s = Block (filled txt @ rest)" "unat (str_i s) = length txt"
      "unat (str_n s) = length txt + length rest" "1 \<le> length rest"
    by (auto simp: has_room_def)
  have room: "unat (str_n s - str_i s) = length rest" using s by (simp add: unat_u64_sub)
  have t': "in_int (int (length t))" "in_int (int (length t) + 1)" using t by (simp_all add: in_int_def)
  show ?case
  proof (cases "length t < length rest")
    case True
    then obtain c rest' where r: "drop (length t) rest = c # rest'" by (cases "drop (length t) rest") auto
    have l: "length rest = length t + Suc (length rest')"
      using r True by (metis add_diff_inverse_nat length_Cons length_drop less_not_sym)
    have "drop (Suc (length t)) rest = rest'" using r by (metis drop_Suc list.sel(3) tl_drop)
    then have "vsnprintf_at old (filled txt @ rest) (length txt) (length rest) t
        = Inr (int (length t), filled (txt @ t) @ Some 0 # rest')"
      using True t' l by (simp add: vsnprintf_at_def memcpy_ok min_def)
    moreover have "unat (str_i s + word_of_nat (length t)) = length (txt @ t)"
      using s(2) m by (subst unat_u64_add) (simp_all add: unat_of_nat)
    ultimately show ?thesis
      using s room True l by (subst utstring_printf_va.simps) (simp add: holds_text_def)
  next
    case False
    define n where "n = (if old then - 1 else int (length t))"
    define rest1 where "rest1 = filled (take (length rest - 1) t @ [0])"
    have r1: "length rest1 = length rest" using False s(4) by (simp add: rest1_def)
    have v: "vsnprintf_at old (filled txt @ rest) (length txt) (length rest) t = Inr (n, filled txt @ rest1)"
      using False t' s(4) r1 by (cases rest) (simp_all add: vsnprintf_at_def memcpy_ok n_def rest1_def Let_def min_def)
    let ?s1 = "s\<lparr>str_d := Block (filled txt @ rest1)\<rparr>"
    let ?amt = "if old then str_n s * 2 else word_of_int (int (length t) + 1)"
    have h: "has_room ?s1 txt 1" using s r1 by (auto simp: has_room_def)
    have amt: "unat (?amt) = (if old then 2 * unat (str_n s) else length t + 1)"
    proof (cases old)
      case True
      have "unat (str_n s * 2) = unat (str_n s) * 2" using less.prems(2) m by (subst unat_word_ariths) simp
      with True show ?thesis by simp
    next
      case False
      have "word_of_int (int (length t) + 1) = (word_of_nat (length t + 1) :: u64)" by simp
      with False m show ?thesis by (simp only: if_False) (subst unat_of_nat, simp)
    qed
    have "unat (str_n ?s1) + unat ?amt < 2 ^ 64" using less.prems(2) m amt by (cases old) auto
    from reserve_room [OF rt h this] obtain s2 where
      s2: "utstring_reserve rt ?s1 ?amt = Inr s2" "has_room s2 txt (unat ?amt)"
        "str_n s2 = (if str_n ?s1 - str_i ?s1 < ?amt then str_n ?s1 + ?amt else str_n ?s1)"
      by blast
    have lt: "str_n s - str_i s < ?amt"
      using room amt False s(3,4) by (cases old) (auto simp: word_less_nat_alt)
    have "str_n s2 = str_n s + ?amt" using s2(3) lt by simp
    moreover have "unat (str_n s + ?amt) = unat (str_n s) + unat ?amt"
      by (rule unat_u64_add) (use amt less.prems(2) m in \<open>cases old; simp\<close>)
    ultimately have n2: "unat (str_n s2) = unat (str_n s) + unat ?amt" by (simp only:)
    have grown: "length txt + length t + 1 - unat (str_n s2) < length txt + length t + 1 - unat (str_n s)"
      using n2 amt s(3,4) False by (cases old) auto
    have step: "utstring_printf_va rt old s t = utstring_printf_va rt old s2 t"
      using s room v False s2(1) t' by (subst utstring_printf_va.simps) (auto simp: n_def)
    have "has_room s2 txt 1" using s2(2) amt s(3,4) by (cases old) (auto simp: has_room_def)
    moreover have "unat (str_n s2) \<le> m" using n2 amt False s(3) m by (cases old) auto
    ultimately show ?thesis using less.hyps [OF grown] step by simp
  qed
qed


text \<open>C32: a new string is empty, and each of the appending operations (\<^verbatim>\<open>utstring_bincpy\<close>,
  \<^verbatim>\<open>utstring_concat\<close>, formatted output with either convention of \<^verbatim>\<open>vsnprintf\<close>)
  returns, never writes outside the block and leaves the old text followed by the new one and a zero;
  clearing empties the string.\<close>

theorem utstring_appends:
  assumes rt: "enough_memory rt" and s: "holds_text s txt" and t: "holds_text src bs"
    and b: "int (length bs) < 2 ^ 31 - 1" "12 * (length txt + length bs + 1) + 4 * unat (str_n s) < 2 ^ 64"
  shows "(\<exists>s'. utstring_new rt = Inr s' \<and> holds_text s' [])
    \<and> (\<exists>s'. utstring_bincpy rt s (filled bs @ x) (word_of_nat (length bs)) = Inr s' \<and> holds_text s' (txt @ bs))
    \<and> (\<exists>s'. utstring_concat rt s src = Inr s' \<and> holds_text s' (txt @ bs))
    \<and> (\<exists>s'. utstring_printf_va rt old s bs = Some (Inr s') \<and> holds_text s' (txt @ bs))
    \<and> (\<exists>s'. utstring_renew rt (Some s) = Inr s' \<and> holds_text s' [])"
proof (intro conjI)
  show "\<exists>s'. utstring_new rt = Inr s' \<and> holds_text s' []"
    using init_ok [OF rt] rt by (simp add: utstring_new_def enough_memory_def)
  have n: "unat (str_n s) + length bs + 1 < 2 ^ 64" using b(2) by simp
  show "\<exists>s'. utstring_bincpy rt s (filled bs @ x) (word_of_nat (length bs)) = Inr s' \<and> holds_text s' (txt @ bs)"
    by (rule bincpy_ok [OF rt s n])
  show "\<exists>s'. utstring_concat rt s src = Inr s' \<and> holds_text s' (txt @ bs)"
    using concat_is_bincpy [OF t, of rt s] bincpy_ok [OF rt s n] by metis
  have r: "has_room s txt 1" using s by (auto simp: holds_text_def has_room_def)
  show "\<exists>s'. utstring_printf_va rt old s bs = Some (Inr s') \<and> holds_text s' (txt @ bs)"
    by (rule printf_ok [OF rt b(1) _ _ r, where m = "3 * (length txt + length bs + 1) + unat (str_n s)"]) (use b(2) in simp_all)
  show "\<exists>s'. utstring_renew rt (Some s) = Inr s' \<and> holds_text s' []"
    using clear_ok [OF s] by (simp add: utstring_renew_def)
qed

definition short_string :: UT_string where
  "short_string = \<lparr>str_d = Block [Some 65, Some 0], str_n = 2, str_i = 1\<rparr>"

lemma utstring_appends_witness:
  "\<exists>s'. utstring_printf_va good_runtime True short_string [65] = Some (Inr s') \<and> holds_text s' [65, 65]"
proof -
  have h: "holds_text short_string [65]" by (simp add: short_string_def holds_text_def)
  from utstring_appends [OF enough_memory_good h h, of "[]" True] show ?thesis by (simp add: short_string_def)
qed

text \<open>A string that was released keeps its pointer: releasing it again frees the block twice.\<close>

lemma done_twice: "holds_text s txt \<Longrightarrow> res_bind (utstring_done s) utstring_done = Inl UseAfterFree"
  by (auto simp: holds_text_def utstring_done_def)

end
