(* ===== verification/Debug.thy ===== *)
theory Debug
  imports Utstring Message
begin

text \<open>
  \<^verbatim>\<open>debug.c\<close> and \<^verbatim>\<open>debug.h\<close>: time stamps, the messages on the terminal, the
  backtrace of a crash. A stream is what has been written to it. The arguments of a message have been
  converted already: \<open>txt\<close> is the complete text of the format, of which the code keeps what fits its buffer. The
  calendar, the texts of \<^verbatim>\<open>errno\<close>, what writing to a stream and what formatting into a buffer do to
  \<^verbatim>\<open>errno\<close>, and the call stack with its symbols are the fields of the record \<open>clib\<close>; writing the time stamp includes asking for the time. A successful
  \<^verbatim>\<open>strerror\<close> leaves \<^verbatim>\<open>errno\<close> as it is, as POSIX demands.
\<close>

section \<open>State\<close>

definition MAX_DEBUG_LEN :: nat where "MAX_DEBUG_LEN = 1024"
definition MAX_BACKTRACE_LEN :: nat where "MAX_BACKTRACE_LEN = 100"

datatype stream = Stdout | Stderr

record console =
  c_out :: "byte list"
  c_err :: "byte list"
  c_errno :: int

record tm =
  tm_sec :: int
  tm_min :: int
  tm_hour :: int
  tm_mday :: int
  tm_mon :: int
  tm_year :: int

record 'a clib =
  localtime_r :: "int \<Rightarrow> tm option"
  strerror :: "int \<Rightarrow> byte list"
  errno_after :: "byte list \<Rightarrow> int \<Rightarrow> int"
  errno_after_format :: "byte list \<Rightarrow> int \<Rightarrow> int"
  call_stack :: "'a list"
  backtrace_symbols :: "'a list \<Rightarrow> byte list list option"

section \<open>Formatted output\<close>

definition ascii :: "string \<Rightarrow> byte list" where
  "ascii s = map of_char s"

fun decimal :: "nat \<Rightarrow> byte list" where
  "decimal n = (if n < 10 then [] else decimal (n div 10)) @ [word_of_nat (48 + n mod 10)]"

declare decimal.simps [simp del]

definition pad :: "byte \<Rightarrow> nat \<Rightarrow> byte list \<Rightarrow> byte list" where
  "pad c w txt = replicate (w - length txt) c @ txt"

text \<open>\<^verbatim>\<open>%d\<close>, \<^verbatim>\<open>%0wd\<close> and \<^verbatim>\<open>%wd\<close>\<close>

definition print_d :: "int \<Rightarrow> byte list" where
  "print_d n = (if n < 0 then 45 # decimal (nat (- n)) else decimal (nat n))"

definition print_0d :: "nat \<Rightarrow> int \<Rightarrow> byte list" where
  "print_0d w n = (if n < 0 then 45 # pad 48 (w - 1) (decimal (nat (- n))) else pad 48 w (decimal (nat n)))"

definition print_wd :: "nat \<Rightarrow> int \<Rightarrow> byte list" where
  "print_wd w n = pad 32 w (print_d n)"

definition put_stream :: "'a clib \<Rightarrow> stream \<Rightarrow> byte list \<Rightarrow> console \<Rightarrow> console" where
  "put_stream lib st txt s =
     (case st of Stdout \<Rightarrow> s\<lparr>c_out := c_out s @ txt\<rparr> | Stderr \<Rightarrow> s\<lparr>c_err := c_err s @ txt\<rparr>)
       \<lparr>c_errno := errno_after lib txt (c_errno s)\<rparr>"

section \<open>Operations\<close>

text \<open>\<^verbatim>\<open>%d/%02d/%02d %02d:%02d:%02d.%06d\<close> of the local time of \<open>now\<close>.\<close>

definition time_stamp :: "'a clib \<Rightarrow> timeval \<Rightarrow> byte list res" where
  "time_stamp lib now =
     res_bind (determinate (localtime_r lib (tv_sec now))) (\<lambda>broken.
     res_bind (check SignedOverflow (in_int (tm_mon broken + 1) \<and> in_int (tm_year broken + 1900))) (\<lambda>_.
     Inr (print_d (tm_mon broken + 1) @ ascii ''/'' @ print_0d 2 (tm_mday broken) @ ascii ''/''
       @ print_0d 2 (tm_year broken + 1900) @ ascii '' '' @ print_0d 2 (tm_hour broken) @ ascii '':''
       @ print_0d 2 (tm_min broken) @ ascii '':'' @ print_0d 2 (tm_sec broken) @ ascii ''.''
       @ print_0d 6 (tv_usec now))))"

definition print_time :: "'a clib \<Rightarrow> timeval \<Rightarrow> stream \<Rightarrow> console \<Rightarrow> console res" where
  "print_time lib now st s = res_bind (time_stamp lib now) (\<lambda>txt. Inr (put_stream lib st txt s))"

fun strrchr :: "byte \<Rightarrow> byte list \<Rightarrow> nat option" where
  "strrchr c [] = None"
| "strrchr c (b # bs) =
     (case strrchr c bs of Some k \<Rightarrow> Some (Suc k) | None \<Rightarrow> if b = c then Some 0 else None)"

definition split_file :: "byte list \<Rightarrow> byte list" where
  "split_file file = (case strrchr 47 file of None \<Rightarrow> file | Some k \<Rightarrow> drop (Suc k) file)"

text \<open>
  What \<^verbatim>\<open>%s\<close> prints of the buffer after \<^verbatim>\<open>vsnprintf(buffer, sizeof(buffer), msg, args)\<close>,
  which may change \<^verbatim>\<open>errno\<close>.
\<close>

definition buffered :: "'a clib \<Rightarrow> byte list \<Rightarrow> console \<Rightarrow> (byte list \<times> console) res" where
  "buffered lib txt s =
     res_bind (vsnprintf_at False (replicate MAX_DEBUG_LEN None) 0 MAX_DEBUG_LEN txt) (\<lambda>(_, buffer).
     res_bind (c_string buffer) (\<lambda>b. Inr (b, s\<lparr>c_errno := errno_after_format lib txt (c_errno s)\<rparr>)))"

definition debug_msg :: "'a clib \<Rightarrow> timeval \<Rightarrow> byte list \<Rightarrow> int \<Rightarrow> byte list \<Rightarrow> byte list \<Rightarrow> console \<Rightarrow> console res" where
  "debug_msg lib now file line func txt s =
     res_bind (print_time lib now Stdout s) (\<lambda>s1.
     res_bind (buffered lib txt s1) (\<lambda>(b, s2).
     Inr (put_stream lib Stdout ([9] @ split_file file @ ascii '' (line '' @ print_d line @ ascii ''): '' @ func
       @ ascii ''() -- '' @ b @ [10]) s2)))"

definition error_msg :: "'a clib \<Rightarrow> timeval \<Rightarrow> byte list \<Rightarrow> int \<Rightarrow> byte list \<Rightarrow> byte list \<Rightarrow> console \<Rightarrow> console res" where
  "error_msg lib now file line func txt s =
     res_bind (print_time lib now Stdout s) (\<lambda>s1.
     res_bind (buffered lib txt s1) (\<lambda>(b, s2).
     Inr (put_stream lib Stdout ([9] @ ascii ''ERROR_MSG: '' @ split_file file @ ascii '' (line '' @ print_d line
       @ ascii ''): '' @ func @ ascii ''() -- '' @ b @ ascii '': '' @ strerror lib (c_errno s2) @ ascii '' - Error #(''
       @ print_d (c_errno s2) @ ascii '')'' @ [10]) s2)))"

definition print_warning :: "'a clib \<Rightarrow> timeval \<Rightarrow> byte list \<Rightarrow> console \<Rightarrow> console res" where
  "print_warning lib now txt s =
     res_bind (print_time lib now Stdout s) (\<lambda>s1.
     res_bind (buffered lib txt s1) (\<lambda>(b, s2).
     Inr (put_stream lib Stdout ([9] @ ascii ''Warning: '' @ b @ [10]) s2)))"

text \<open>\<open>DEBUG_ONCE\<close>, with its static variable.\<close>

definition debug_once ::
    "'a clib \<Rightarrow> timeval \<Rightarrow> byte list \<Rightarrow> int \<Rightarrow> byte list \<Rightarrow> byte list \<Rightarrow> bool \<times> console \<Rightarrow> (bool \<times> console) res" where
  "debug_once lib now file line func txt st =
     (case st of (print_msg, s) \<Rightarrow>
        if print_msg then res_bind (debug_msg lib now file line func txt s) (\<lambda>s1. Inr (False, s1)) else Inr (print_msg, s))"

fun print_frames :: "'a clib \<Rightarrow> stream \<Rightarrow> byte list list \<Rightarrow> nat list \<Rightarrow> console \<Rightarrow> console res" where
  "print_frames lib st symbols [] s = Inr s"
| "print_frames lib st symbols (i # is) s =
     res_bind (check OutOfBounds (i < length symbols)) (\<lambda>_.
     print_frames lib st symbols is (put_stream lib st (print_wd 2 (int i) @ ascii '' '' @ symbols ! i @ [10]) s))"

definition print_backtrace :: "'a clib \<Rightarrow> stream \<Rightarrow> console \<Rightarrow> console res" where
  "print_backtrace lib st s =
     (let ptrs = take MAX_BACKTRACE_LEN (call_stack lib)
      in case backtrace_symbols lib ptrs of
           None \<Rightarrow> Inr (put_stream lib Stderr (ascii ''backtrace_symbols: '' @ strerror lib (c_errno s) @ [10]) s)
         | Some symbols \<Rightarrow>
             print_frames lib st symbols [0..<length ptrs] (put_stream lib st (ascii ''Backtrace:'' @ [10]) s))"

text \<open>What is printed, and the status given to \<^verbatim>\<open>exit\<close>.\<close>

definition segfault_handler :: "'a clib \<Rightarrow> console \<Rightarrow> (console \<times> int) res" where
  "segfault_handler lib s = res_bind (print_backtrace lib Stderr s) (\<lambda>s1. Inr (s1, 1))"

text \<open>\<^verbatim>\<open>ASSERT_OR_ELSE(expr) body\<close>, with \<^verbatim>\<open>NDEBUG\<close> or without.\<close>

definition assert_or_else :: "bool \<Rightarrow> bool \<Rightarrow> ('s \<Rightarrow> 's res) \<Rightarrow> 's \<Rightarrow> 's res" where
  "assert_or_else ndebug expr body s =
     (if ndebug then (if \<not> expr then body s else Inr s)
      else res_bind (check AssertionFailed expr) (\<lambda>_. Inr s))"

section \<open>Text\<close>

lemma c_string_filled: "c_string (filled (bs @ [0]) @ cs) = Inr (takeWhile (\<lambda>b. b \<noteq> 0) bs)"
  by (induction bs) simp_all

lemma buffered_eq:
  "buffered lib txt s = Inr (takeWhile (\<lambda>b. b \<noteq> 0) (take 1023 txt), s\<lparr>c_errno := errno_after_format lib txt (c_errno s)\<rparr>)"
proof -
  let ?b = "take 1023 txt" and ?n = "Suc (min 1023 (length txt))"
  have "memcpy (replicate 1024 None) 0 (filled (?b @ [0])) 0 ?n = Inr (filled (?b @ [0]) @ drop ?n (replicate 1024 None))"
    by (subst memcpy_whole) (auto simp: min_def)
  then have "vsnprintf_at False (replicate MAX_DEBUG_LEN None) 0 MAX_DEBUG_LEN txt
      = Inr (if in_int (int (length txt)) then int (length txt) else - 1, filled (?b @ [0]) @ drop ?n (replicate 1024 None))"
    by (simp add: vsnprintf_at_def MAX_DEBUG_LEN_def)
  then show ?thesis by (simp only: buffered_def res_bind_Inr split_conv c_string_filled)
qed

lemma strrchr_None [simp]: "c \<notin> set bs \<Longrightarrow> strrchr c bs = None"
  by (induction bs) auto

lemma strrchr_last [simp]: "c \<notin> set bs \<Longrightarrow> strrchr c (as @ c # bs) = Some (length as)"
  by (induction as) auto

lemma split_file_base: "47 \<notin> set base \<Longrightarrow> split_file (dir @ 47 # base) = base"
  by (simp add: split_file_def)

lemma split_file_plain: "47 \<notin> set file \<Longrightarrow> split_file file = file"
  by (simp add: split_file_def)

lemma put_stream_fields [simp]:
  "c_out (put_stream lib Stdout txt s) = c_out s @ txt" "c_err (put_stream lib Stdout txt s) = c_err s"
  "c_out (put_stream lib Stderr txt s) = c_out s" "c_err (put_stream lib Stderr txt s) = c_err s @ txt"
  "c_errno (put_stream lib st txt s) = errno_after lib txt (c_errno s)"
  by (simp_all add: put_stream_def)

subsection \<open>Numbers\<close>

lemma decimal_digit: "unat (word_of_nat (48 + n mod 10) :: byte) = 48 + n mod 10"
proof -
  have "48 + n mod 10 < 256" using mod_less_divisor [of 10 n] by linarith
  then show ?thesis unfolding unat_of_nat by simp
qed

lemma decimal_digits: "set (decimal n) \<subseteq> {48..57}"
proof (induction n rule: decimal.induct)
  case (1 n)
  have "word_of_nat (48 + n mod 10) \<in> {48 .. 57 :: byte}"
    using decimal_digit [of n] mod_less_divisor [of 10 n] unfolding word_le_nat_alt atLeastAtMost_iff by simp
  with 1 show ?case by (subst decimal.simps) auto
qed

definition digits_value :: "byte list \<Rightarrow> nat" where
  "digits_value bs = foldl (\<lambda>n b. 10 * n + (unat b - 48)) 0 bs"

lemma digits_value_decimal: "digits_value (decimal n) = n"
proof (induction n rule: decimal.induct)
  case (1 n)
  then show ?case
    using decimal_digit [of n] by (subst decimal.simps) (cases "n < 10"; simp add: digits_value_def del: of_nat_add)
qed

lemma digits_value_pad: "digits_value (pad 48 w bs) = digits_value bs"
proof -
  have "foldl (\<lambda>n b. 10 * n + (unat b - 48)) 0 (replicate k (48 :: byte)) = 0" for k
    by (induction k) simp_all
  then show ?thesis by (simp add: digits_value_def pad_def)
qed

lemma print_d_inj: "0 \<le> m \<Longrightarrow> 0 \<le> n \<Longrightarrow> print_d m = print_d n \<longleftrightarrow> m = n"
  by (metis digits_value_decimal eq_nat_nat_iff not_less print_d_def)

lemma print_0d_inj: "0 \<le> m \<Longrightarrow> 0 \<le> n \<Longrightarrow> print_0d w m = print_0d w n \<longleftrightarrow> m = n"
  by (metis digits_value_decimal digits_value_pad eq_nat_nat_iff not_less print_0d_def)

lemma print_digits:
  "0 \<le> n \<Longrightarrow> set (print_d n) \<subseteq> {48..57}" "0 \<le> n \<Longrightarrow> set (print_0d w n) \<subseteq> {48..57}"
  using decimal_digits [of "nat n"] by (auto simp: print_d_def print_0d_def pad_def)

lemma field_inj:
  assumes "set xs \<subseteq> {48..57 :: byte}" "set ys \<subseteq> {48..57}" "c \<notin> {48..57}"
  shows "xs @ c # us = ys @ c # vs \<longleftrightarrow> xs = ys \<and> us = vs"
proof -
  have "takeWhile (\<lambda>b. b \<in> {48..57}) (zs @ c # ws) = zs" if "set zs \<subseteq> {48..57}" for zs ws
    using that assms(3) by (simp add: takeWhile_append2 subset_iff)
  from this [OF assms(1)] this [OF assms(2)] show ?thesis by (metis same_append_eq list.inject)
qed

section \<open>Properties\<close>

text \<open>The fields \<^verbatim>\<open>localtime_r\<close> gives.\<close>

definition calendar :: "tm \<Rightarrow> bool" where
  "calendar b \<longleftrightarrow> 0 \<le> tm_mon b \<and> 0 \<le> tm_mday b \<and> 0 \<le> tm_year b + 1900 \<and> 0 \<le> tm_hour b \<and> 0 \<le> tm_min b \<and> 0 \<le> tm_sec b"

text \<open>The time stamp of a message determines the calendar fields and the microseconds.\<close>

theorem time_stamp_determines:
  assumes "localtime_r lib (tv_sec t1) = Some b1" "localtime_r lib (tv_sec t2) = Some b2" "calendar b1" "calendar b2"
    and "0 \<le> tv_usec t1" "0 \<le> tv_usec t2" "time_stamp lib t1 = Inr ts" "time_stamp lib t2 = Inr ts"
  shows "b1 = b2 \<and> tv_usec t1 = tv_usec t2"
proof -
  have a: "ascii ''/'' = [47]" "ascii '' '' = [32]" "ascii '':'' = [58]" "ascii ''.'' = [46]"
    by (simp_all add: ascii_def)
  from assms show ?thesis
    unfolding calendar_def
    by (auto simp: time_stamp_def a field_inj [OF print_digits(1) print_digits(1)] field_inj [OF print_digits(2) print_digits(2)]
        print_d_inj print_0d_inj)
qed

text \<open>The lines printed, given the time stamp.\<close>

lemma debug_msg_line:
  assumes "time_stamp lib now = Inr ts"
  shows "debug_msg lib now file line func txt s =
    Inr (put_stream lib Stdout ([9] @ split_file file @ ascii '' (line '' @ print_d line @ ascii ''): '' @ func
       @ ascii ''() -- '' @ takeWhile (\<lambda>b. b \<noteq> 0) (take 1023 txt) @ [10])
       ((put_stream lib Stdout ts s)\<lparr>c_errno := errno_after_format lib txt (errno_after lib ts (c_errno s))\<rparr>))"
  using assms by (simp add: debug_msg_def print_time_def buffered_eq)

text \<open>C33: whatever the length of the text and wherever the source file is, an error message stays inside its buffer and ends
  with a newline. It shows the last component of the path of the source file and at most 1023 bytes of the text; and the error it
  shows is the one \<^verbatim>\<open>errno\<close> has after the time stamp was printed and the text was formatted, not the one of the caller.\<close>

theorem error_msg_prints:
  assumes "time_stamp lib now = Inr ts" "file = base \<or> (\<exists>dir. file = dir @ 47 # base)" "47 \<notin> set base" "0 \<notin> set txt"
    and "e = errno_after_format lib txt (errno_after lib ts (c_errno s))"
  shows "\<exists>s1. error_msg lib now file line func txt s = Inr s1
    \<and> c_out s1 = c_out s @ ts @ [9] @ ascii ''ERROR_MSG: '' @ base @ ascii '' (line '' @ print_d line @ ascii ''): '' @ func
        @ ascii ''() -- '' @ take 1023 txt @ ascii '': '' @ strerror lib e
        @ ascii '' - Error #('' @ print_d e @ ascii '')'' @ [10]
    \<and> c_err s1 = c_err s"
proof -
  have "takeWhile (\<lambda>b. b \<noteq> 0) (take 1023 txt) = take 1023 txt"
    unfolding takeWhile_eq_all_conv using assms(4) by (metis in_set_takeD)
  moreover have "split_file file = base" using assms(2,3) by (auto simp: split_file_base split_file_plain)
  ultimately show ?thesis
    using assms(1,5) by (simp add: error_msg_def print_time_def buffered_eq)
qed

definition plain_clib :: "unit clib" where
  "plain_clib = \<lparr>localtime_r = (\<lambda>t. Some \<lparr>tm_sec = t mod 60, tm_min = 0, tm_hour = 0, tm_mday = 1, tm_mon = 0, tm_year = 70\<rparr>),
     strerror = (\<lambda>_. [63]), errno_after = (\<lambda>_ _. 25), errno_after_format = (\<lambda>_ e. if e = 25 then 12 else e),
     call_stack = [], backtrace_symbols = (\<lambda>_. None)\<rparr>"

lemma plain_clib_simps [simp]: "strerror plain_clib e = [63]" "errno_after plain_clib txt e = 25"
  "errno_after_format plain_clib txt 25 = 12"
  by (simp_all add: plain_clib_def)

text \<open>\<^verbatim>\<open>errno\<close> is 2 at the error, 25 after the time stamp, 12 after formatting; the file is \<^verbatim>\<open>a/b\<close>, then \<^verbatim>\<open>b\<close>.\<close>

lemma error_msg_prints_witness:
  "\<exists>ts. \<forall>file \<in> {[97, 47, 98], [98]}. \<exists>s1. error_msg plain_clib \<lparr>tv_sec = 5, tv_usec = 7\<rparr> file 3 [102] [111] \<lparr>c_out = [], c_err = [], c_errno = 2\<rparr> = Inr s1
     \<and> c_out s1 = ts @ [9] @ ascii ''ERROR_MSG: '' @ [98] @ ascii '' (line '' @ print_d 3 @ ascii ''): '' @ [102]
        @ ascii ''() -- '' @ [111] @ ascii '': '' @ [63] @ ascii '' - Error #('' @ print_d 12 @ ascii '')'' @ [10]"
proof -
  obtain ts where "time_stamp plain_clib \<lparr>tv_sec = 5, tv_usec = 7\<rparr> = Inr ts"
    by (simp add: time_stamp_def plain_clib_def in_int_def)
  note m = error_msg_prints [OF this, of _ "[98]" "[111]" 12 "\<lparr>c_out = [], c_err = [], c_errno = 2\<rparr>" 3 "[102]"]
  have "\<exists>s1. error_msg plain_clib \<lparr>tv_sec = 5, tv_usec = 7\<rparr> f 3 [102] [111] \<lparr>c_out = [], c_err = [], c_errno = 2\<rparr> = Inr s1
     \<and> c_out s1 = ts @ [9] @ ascii ''ERROR_MSG: '' @ [98] @ ascii '' (line '' @ print_d 3 @ ascii ''): '' @ [102]
        @ ascii ''() -- '' @ [111] @ ascii '': '' @ [63] @ ascii '' - Error #('' @ print_d 12 @ ascii '')'' @ [10]"
    if "f \<in> {[97, 47, 98], [98]}" for f
  proof -
    have "f = [98] \<or> (\<exists>dir. f = dir @ 47 # [98])" using that by (auto intro: exI [of _ "[97]"])
    from m [OF this] show ?thesis by auto
  qed
  then show ?thesis by blast
qed

lemma time_stamp_determines_witness:
  "localtime_r plain_clib 5 = localtime_r plain_clib 65"
proof -
  have "time_stamp plain_clib \<lparr>tv_sec = 5, tv_usec = 7\<rparr> = time_stamp plain_clib \<lparr>tv_sec = 65, tv_usec = 7\<rparr>"
    by (simp add: time_stamp_def plain_clib_def)
  moreover obtain ts where "time_stamp plain_clib \<lparr>tv_sec = 5, tv_usec = 7\<rparr> = Inr ts"
    by (simp add: time_stamp_def plain_clib_def in_int_def)
  ultimately show ?thesis
    using time_stamp_determines [of plain_clib "\<lparr>tv_sec = 5, tv_usec = 7\<rparr>" _ "\<lparr>tv_sec = 65, tv_usec = 7\<rparr>" _ ts]
    by (simp add: plain_clib_def calendar_def)
qed

subsection \<open>Backtraces\<close>

definition frame_line :: "byte list list \<Rightarrow> nat \<Rightarrow> byte list" where
  "frame_line symbols i = print_wd 2 (int i) @ ascii '' '' @ symbols ! i @ [10]"

lemma print_frames_ok:
  "\<forall>i \<in> set is. i < length symbols \<Longrightarrow> \<exists>s'. print_frames lib Stderr symbols is s = Inr s'
     \<and> c_err s' = c_err s @ concat (map (frame_line symbols) is) \<and> c_out s' = c_out s"
proof (induction "is" arbitrary: s)
  case (Cons i js)
  then have "\<forall>i \<in> set js. i < length symbols" by simp
  from Cons.IH [OF this, of "put_stream lib Stderr (frame_line symbols i) s"] Cons.prems
  show ?case by (auto simp: frame_line_def)
qed simp

text \<open>A crash is reported with at most 100 frames, numbered from the innermost, on the error stream, and ends
  the process with status 1.\<close>

theorem crash_reported:
  assumes "\<And>xs ss. backtrace_symbols lib xs = Some ss \<Longrightarrow> length ss = length xs"
    and "backtrace_symbols lib (take 100 (call_stack lib)) = Some symbols"
  shows "\<exists>s'. segfault_handler lib s = Inr (s', 1) \<and> c_out s' = c_out s
    \<and> c_err s' = c_err s @ ascii ''Backtrace:'' @ [10] @ concat (map (frame_line symbols) [0..<min 100 (length (call_stack lib))])"
proof -
  from assms have "length symbols = min 100 (length (call_stack lib))" by force
  then have "\<forall>i \<in> set [0..<min 100 (length (call_stack lib))]. i < length symbols" by simp
  from print_frames_ok [OF this, of lib "put_stream lib Stderr (ascii ''Backtrace:'' @ [10]) s"] assms(2)
  show ?thesis by (auto simp: segfault_handler_def print_backtrace_def MAX_BACKTRACE_LEN_def min.commute)
qed

text \<open>A message guarded by \<open>DEBUG_ONCE\<close> is printed at the first passage and at no later one.\<close>

lemma debug_once_once:
  assumes "time_stamp lib now = Inr ts"
  shows "\<exists>s1. debug_once lib now file line func txt (True, s) = Inr (False, s1) \<and> c_out s1 \<noteq> c_out s"
    and "debug_once lib now file line func txt (False, s) = Inr (False, s)"
  using debug_msg_line [OF assms] by (simp_all add: debug_once_def)

end
