(* ===== verification/Substring.thy ===== *)
theory Substring
  imports Utstring
begin

text \<open>
  The substring search of \<^verbatim>\<open>utstring.h\<close>: the tables of Knuth, Morris and Pratt and the
  search over them, from the left and from the right. The inner loops of all four functions move
  along the table until the characters agree; they are one function, which takes the test of its
  first condition, the offset of the table and the character compared with. \<^verbatim>\<open>long\<close>
  values are integers; where the code narrows a length to \<^verbatim>\<open>int\<close> or computes in
  \<^verbatim>\<open>size_t\<close> the definitions do too.
\<close>

section \<open>The search functions\<close>

definition int_of_size :: "nat \<Rightarrow> int" where "int_of_size n = sint (word_of_nat n :: i32)"
definition long_of_size :: "nat \<Rightarrow> int" where "long_of_size n = sint (word_of_nat n :: u64)"

text \<open>\<^verbatim>\<open>while (inside(k) && P_Needle[k] != c) k = P_KMP_Table[k + off];\<close>\<close>

partial_function (option) kmp_shift ::
    "(int \<Rightarrow> bool) \<Rightarrow> int \<Rightarrow> cell list \<Rightarrow> int option list \<Rightarrow> byte res \<Rightarrow> int \<Rightarrow> int res option" where
  "kmp_shift inside off p T c k =
     (if inside k
      then opt_res_bind (Some (res_bind (cell_at p k) (\<lambda>a. res_bind c (\<lambda>b. Inr (a \<noteq> b))))) (\<lambda>differ.
           if differ then opt_res_bind (Some (cell_at T (k + off))) (\<lambda>k'. kmp_shift inside off p T c k')
           else Some (Inr k))
      else Some (Inr k))"

partial_function (option) build_loop ::
    "cell list \<Rightarrow> nat \<Rightarrow> int option list \<Rightarrow> int \<Rightarrow> int \<Rightarrow> int option list res option" where
  "build_loop p nl T i j =
     (if i < long_of_size nl
      then opt_res_bind (kmp_shift (\<lambda>k. k > - 1) 0 p T (cell_at p i) j) (\<lambda>j'.
           let i1 = i + 1; j1 = j' + 1
           in opt_res_bind (Some (if i1 < long_of_size nl
                then res_bind (cell_at p i1) (\<lambda>a. res_bind (cell_at p j1) (\<lambda>b.
                     if a = b then res_bind (cell_at T j1) (put_cell T i1) else put_cell T i1 j1))
                else put_cell T i1 j1)) (\<lambda>T'.
              build_loop p nl T' i1 j1))
      else Some (Inr T))"

definition utstring_BuildTable :: "cell list \<Rightarrow> nat \<Rightarrow> int option list \<Rightarrow> int option list res option" where
  "utstring_BuildTable p nl T = opt_res_bind (Some (put_cell T 0 (- 1))) (\<lambda>T'. build_loop p nl T' 0 (- 1))"

partial_function (option) build_loopR ::
    "cell list \<Rightarrow> nat \<Rightarrow> int option list \<Rightarrow> int \<Rightarrow> int \<Rightarrow> int option list res option" where
  "build_loopR p nl T i j =
     (if i \<ge> 0
      then opt_res_bind (kmp_shift (\<lambda>k. k < long_of_size nl) 1 p T (cell_at p i) j) (\<lambda>j'.
           let i1 = i - 1; j1 = j' - 1
           in opt_res_bind (Some (if i1 \<ge> 0
                then res_bind (cell_at p i1) (\<lambda>a. res_bind (cell_at p j1) (\<lambda>b.
                     if a = b then res_bind (cell_at T (j1 + 1)) (put_cell T (i1 + 1)) else put_cell T (i1 + 1) j1))
                else put_cell T (i1 + 1) j1)) (\<lambda>T'.
              build_loopR p nl T' i1 j1))
      else Some (Inr T))"

definition utstring_BuildTableR :: "cell list \<Rightarrow> nat \<Rightarrow> int option list \<Rightarrow> int option list res option" where
  "utstring_BuildTableR p nl T =
     (let i = long_of_size nl - 1; j = i + 1
      in opt_res_bind (Some (put_cell T (i + 1) j)) (\<lambda>T'. build_loopR p nl T' i j))"

text \<open>The haystack starts at position \<open>b\<close> of the cells \<open>hay\<close>.\<close>

partial_function (option) find_loop ::
    "cell list \<Rightarrow> int \<Rightarrow> nat \<Rightarrow> cell list \<Rightarrow> nat \<Rightarrow> int option list \<Rightarrow> int \<Rightarrow> int \<Rightarrow> int res option" where
  "find_loop hay b hl p nl T i j =
     (if j < int_of_size hl \<and> int nl \<le> (int hl - j + i) mod 2 ^ 64
      then opt_res_bind (kmp_shift (\<lambda>k. k > - 1) 0 p T (cell_at hay (b + j)) i) (\<lambda>i'.
           let i1 = i' + 1; j1 = j + 1
           in if i1 \<ge> int_of_size nl then Some (Inr (j1 - i1))
              else find_loop hay b hl p nl T i1 j1)
      else Some (Inr (- 1)))"

definition utstring_find_table ::
    "cell list \<Rightarrow> int \<Rightarrow> nat \<Rightarrow> cell list \<Rightarrow> nat \<Rightarrow> int option list \<Rightarrow> int res option" where
  "utstring_find_table hay b hl p nl T = find_loop hay b hl p nl T 0 0"

partial_function (option) findR_loop ::
    "cell list \<Rightarrow> cell list \<Rightarrow> nat \<Rightarrow> int option list \<Rightarrow> int \<Rightarrow> int \<Rightarrow> int res option" where
  "findR_loop hay p nl T i j =
     (if j \<ge> 0 \<and> j \<ge> i
      then opt_res_bind (kmp_shift (\<lambda>k. k < int_of_size nl) 1 p T (cell_at hay j) i) (\<lambda>i'.
           let i1 = i' - 1; j1 = j - 1
           in if i1 < 0 then Some (Inr (j1 + 1))
              else findR_loop hay p nl T i1 j1)
      else Some (Inr (- 1)))"

definition utstring_findR_table ::
    "cell list \<Rightarrow> nat \<Rightarrow> cell list \<Rightarrow> nat \<Rightarrow> int option list \<Rightarrow> int res option" where
  "utstring_findR_table hay hl p nl T =
     findR_loop hay p nl T (long_of_size nl - 1) (long_of_size hl - 1)"

text \<open>
  The one time searches allocate \<^verbatim>\<open>sizeof(long) * (P_NeedleLen + 1)\<close> bytes for the table,
  in \<^verbatim>\<open>size_t\<close>.
\<close>

definition table_bytes :: "nat \<Rightarrow> nat" where
  "table_bytes nl = 8 * (nl + 1) mod 2 ^ 64"

definition start_position :: "UT_string \<Rightarrow> int \<Rightarrow> int" where
  "start_position s start = (if start < 0 then int (unat (str_i s)) + start else start)"

definition utstring_find :: "runtime \<Rightarrow> UT_string \<Rightarrow> int \<Rightarrow> cell list \<Rightarrow> nat \<Rightarrow> int res option" where
  "utstring_find rt s start p nl =
     (let v_start = start_position s start;
          v_len = int (unat (str_i s)) - v_start
      in if v_len \<ge> long_of_size nl \<and> nl > 0
         then if malloc_ok rt (table_bytes nl)
              then opt_res_bind (utstring_BuildTable p nl (replicate (table_bytes nl div 8) None)) (\<lambda>T.
                   opt_res_bind (Some (block_cells (str_d s))) (\<lambda>hay.
                   opt_res_bind (utstring_find_table hay v_start (nat v_len) p nl T) (\<lambda>pos.
                   Some (Inr (if pos \<ge> 0 then pos + v_start else pos)))))
              else Some (Inr (- 1))
         else Some (Inr (- 1)))"

definition utstring_findR :: "runtime \<Rightarrow> UT_string \<Rightarrow> int \<Rightarrow> cell list \<Rightarrow> nat \<Rightarrow> int res option" where
  "utstring_findR rt s start p nl =
     (let v_start = start_position s start;
          v_len = v_start + 1
      in if v_len \<ge> long_of_size nl \<and> nl > 0
         then if malloc_ok rt (table_bytes nl)
              then opt_res_bind (utstring_BuildTableR p nl (replicate (table_bytes nl div 8) None)) (\<lambda>T.
                   opt_res_bind (Some (block_cells (str_d s))) (\<lambda>hay.
                   utstring_findR_table hay (nat v_len) p nl T))
              else Some (Inr (- 1))
         else Some (Inr (- 1)))"

section \<open>Runs of matching characters\<close>

text \<open>The first \<open>k\<close> characters of \<open>p\<close> are the last ones of the first \<open>j\<close> of \<open>h\<close>.\<close>

definition run :: "'a list \<Rightarrow> nat \<Rightarrow> 'a list \<Rightarrow> nat \<Rightarrow> bool" where
  "run p k h j \<longleftrightarrow> k \<le> length p \<and> k \<le> j \<and> j \<le> length h \<and> (\<forall>t < k. p ! t = h ! (j - k + t))"

lemma run_0 [simp]: "run p 0 h j \<longleftrightarrow> j \<le> length h"
  by (simp add: run_def)

lemma run_bounds: "run p k h j \<Longrightarrow> k \<le> length p \<and> k \<le> j \<and> j \<le> length h"
  by (simp add: run_def)

lemma run_Suc: "run p (Suc k) h (Suc j) \<longleftrightarrow> run p k h j \<and> k < length p \<and> j < length h \<and> p ! k = h ! j"
proof
  assume "run p (Suc k) h (Suc j)"
  then show "run p k h j \<and> k < length p \<and> j < length h \<and> p ! k = h ! j"
    by (auto simp: run_def less_Suc_eq)
next
  assume a: "run p k h j \<and> k < length p \<and> j < length h \<and> p ! k = h ! j"
  show "run p (Suc k) h (Suc j)"
    unfolding run_def
  proof (intro conjI allI impI)
    fix t assume "t < Suc k"
    then show "p ! t = h ! (Suc j - Suc k + t)" using a by (cases "t = k") (auto simp: run_def)
  qed (use a in \<open>auto simp: run_def\<close>)
qed

lemma run_border: "run p k h j \<Longrightarrow> run p m h j \<Longrightarrow> m \<le> k \<Longrightarrow> run p m p k"
  unfolding run_def
proof (intro conjI allI impI)
  fix t
  assume a: "k \<le> length p \<and> k \<le> j \<and> j \<le> length h \<and> (\<forall>t<k. p ! t = h ! (j - k + t))"
    and b: "m \<le> length p \<and> m \<le> j \<and> j \<le> length h \<and> (\<forall>t<m. p ! t = h ! (j - m + t))" and "m \<le> k" "t < m"
  then have "p ! (k - m + t) = h ! (j - k + (k - m + t))" by simp
  also have "j - k + (k - m + t) = j - m + t" using a \<open>m \<le> k\<close> by simp
  finally show "p ! t = p ! (k - m + t)" using b \<open>t < m\<close> by simp
qed auto

lemma run_trans: "run p k h j \<Longrightarrow> run p m p k \<Longrightarrow> run p m h j"
  unfolding run_def
proof (intro conjI allI impI)
  fix t
  assume a: "k \<le> length p \<and> k \<le> j \<and> j \<le> length h \<and> (\<forall>t<k. p ! t = h ! (j - k + t))"
    and b: "m \<le> length p \<and> m \<le> k \<and> k \<le> length p \<and> (\<forall>t<m. p ! t = p ! (k - m + t))" and "t < m"
  have "k - m + t < k" using b \<open>t < m\<close> by linarith
  then have "p ! (k - m + t) = h ! (j - k + (k - m + t))" using a by blast
  also have "j - k + (k - m + t) = j - m + t" using a b by simp
  finally have "p ! (k - m + t) = h ! (j - m + t)" .
  moreover have "p ! t = p ! (k - m + t)" using b \<open>t < m\<close> by blast
  ultimately show "p ! t = h ! (j - m + t)" by simp
qed auto

text \<open>An entry of the table: where a mismatch at position \<open>i\<close> of the needle continues.\<close>

definition entry_ok :: "'a list \<Rightarrow> nat \<Rightarrow> int \<Rightarrow> bool" where
  "entry_ok p i t \<longleftrightarrow> (t = - 1 \<or> (\<exists>k. t = int k \<and> k < i \<and> run p k p i))
     \<and> (\<forall>k < i. run p k p i \<longrightarrow> p ! k \<noteq> p ! i \<longrightarrow> int k \<le> t)"

definition table_ok :: "'a list \<Rightarrow> nat \<Rightarrow> int option list \<Rightarrow> bool" where
  "table_ok p n T \<longleftrightarrow> n \<le> length T \<and> (\<forall>i < n. \<exists>t. T ! i = Some t \<and> entry_ok p i t)"

text \<open>The candidates to continue with at a position of the haystack.\<close>

definition shifted :: "'a list \<Rightarrow> 'a list \<Rightarrow> nat \<Rightarrow> nat \<Rightarrow> int \<Rightarrow> bool" where
  "shifted p h j n k \<longleftrightarrow> (k = - 1 \<or> (\<exists>m < n. k = int m \<and> run p m h j))
     \<and> (\<forall>m < n. run p m h j \<longrightarrow> p ! m = h ! j \<longrightarrow> int m \<le> k)"

lemma shifted_step:
  assumes T: "table_ok p n T" and n: "n \<le> length p" and j: "j < length h"
    and k: "shifted p h j n (int m)" "m < n" "p ! m \<noteq> h ! j"
  shows "\<exists>t. T ! m = Some t \<and> t < int m \<and> - 1 \<le> t \<and> shifted p h j n t"
proof -
  from T k(2) obtain t where t: "T ! m = Some t" "entry_ok p m t" by (auto simp: table_ok_def)
  have m: "run p m h j" using k(1) by (auto simp: shifted_def)
  have "t = - 1 \<or> (\<exists>k < n. t = int k \<and> run p k h j)"
    using t(2) k(2) run_trans [OF m] by (auto simp: entry_ok_def)
  moreover have "int q \<le> t" if q: "q < n" "run p q h j" "p ! q = h ! j" for q
  proof -
    have "q \<le> m" using k(1) q by (auto simp: shifted_def)
    moreover have "q \<noteq> m" using q(3) k(3) by auto
    ultimately have "q < m" by simp
    moreover have "run p q p m" using run_border [OF m q(2)] \<open>q < m\<close> by simp
    moreover have "p ! q \<noteq> p ! m" using q(3) k(3) by simp
    ultimately show ?thesis using t(2) by (auto simp: entry_ok_def)
  qed
  ultimately show ?thesis using t by (auto simp: shifted_def entry_ok_def)
qed

text \<open>After the step, the longest run up to and including the new character.\<close>

definition longest :: "'a list \<Rightarrow> 'a list \<Rightarrow> nat \<Rightarrow> nat \<Rightarrow> nat \<Rightarrow> bool" where
  "longest p h j n m \<longleftrightarrow> m \<le> n \<and> run p m h j \<and> (\<forall>m' \<le> n. run p m' h j \<longrightarrow> m' \<le> m)"

lemma longest_Suc:
  assumes "shifted p h j n k" "k = - 1 \<or> p ! nat k = h ! j" "j < length h" "n \<le> length p"
  shows "longest p h (Suc j) n (nat (k + 1))"
proof -
  have "run p (nat (k + 1)) h (Suc j)" "nat (k + 1) \<le> n"
    using assms by (auto simp: shifted_def nat_add_distrib run_Suc)
  moreover have "m' \<le> nat (k + 1)" if "m' \<le> n" "run p m' h (Suc j)" for m'
    using that assms(1) by (cases m') (auto simp: run_Suc shifted_def nat_add_distrib)
  ultimately show ?thesis by (simp add: longest_def)
qed

lemma shifted_longest: "longest p h j n m \<Longrightarrow> m < n \<Longrightarrow> shifted p h j n (int m)"
  by (auto simp: longest_def shifted_def)


section \<open>Building the table\<close>

lemma entry_next:
  assumes l: "longest p p i (i - 1) j" and i: "0 < i" "i < length p" and T: "table_ok p i T"
  shows "entry_ok p i (if p ! i = p ! j then the (T ! j) else int j)"
proof -
  have j: "j < i" "run p j p i" "\<And>k. k < i \<Longrightarrow> run p k p i \<Longrightarrow> k \<le> j"
    using l i(1) by (auto simp: longest_def)
  show ?thesis
  proof (cases "p ! i = p ! j")
    case False
    with j show ?thesis by (auto simp: entry_ok_def)
  next
    case True
    from T j(1) obtain t where t: "T ! j = Some t" "entry_ok p j t" by (auto simp: table_ok_def)
    have "t = - 1 \<or> (\<exists>k. t = int k \<and> k < i \<and> run p k p i)"
      using t(2) j(1) run_trans [OF j(2)] by (auto simp: entry_ok_def)
    moreover have "int k \<le> t" if k: "k < i" "run p k p i" "p ! k \<noteq> p ! i" for k
    proof -
      have "k \<noteq> j" using k(3) True by auto
      with j(3) [OF k(1,2)] have "k < j" by simp
      moreover have "run p k p j" using run_border [OF j(2) k(2)] \<open>k < j\<close> by simp
      ultimately show ?thesis using t(2) k(3) True by (auto simp: entry_ok_def)
    qed
    ultimately show ?thesis using True t(1) by (simp add: entry_ok_def)
  qed
qed

lemma table_ok_put:
  assumes "table_ok p i T" "i < length T" "entry_ok p i t"
  shows "table_ok p (Suc i) (T[i := Some t])"
  using assms by (auto simp: table_ok_def nth_list_update less_Suc_eq)

lemma long_of_size_small: "n < 2 ^ 63 \<Longrightarrow> long_of_size n = int n"
proof -
  assume n: "n < 2 ^ 63"
  then have u: "uint (word_of_nat n :: u64) = int n" by (simp add: unsigned_of_nat take_bit_nat_eq_self)
  have "- (2 ^ 63) \<le> int n" by simp
  moreover have "int n < 2 ^ 63" using n by simp
  ultimately show ?thesis using signed_take_bit_int_eq_self [of 63 "int n"] u
    by (simp add: long_of_size_def sint_uint)
qed

lemma int_of_size_small: "n < 2 ^ 31 \<Longrightarrow> int_of_size n = int n"
  by (simp add: int_of_size_def sint_small unat_u32_of_nat)

text \<open>\<open>j\<close> is the longest proper border of the first \<open>i\<close> characters, \<open>- 1\<close> at the start.\<close>

definition building :: "'a list \<Rightarrow> nat \<Rightarrow> int option list \<Rightarrow> int \<Rightarrow> bool" where
  "building p i T j \<longleftrightarrow> table_ok p (Suc i) T \<and> (if i = 0 then j = - 1 else (\<exists>m. j = int m \<and> longest p p i (i - 1) m))"

lemma building_shifted:
  assumes "building p i T j" "i < length p"
  shows "shifted p p i i j \<and> table_ok p i T"
proof (cases "i = 0")
  case True
  with assms show ?thesis by (simp add: building_def shifted_def table_ok_def)
next
  case False
  with assms(1) obtain m where m: "j = int m" "longest p p i (i - 1) m" by (auto simp: building_def)
  then have "m < i" "run p m p i" "\<And>k. k < i \<Longrightarrow> run p k p i \<Longrightarrow> k \<le> m" using False by (auto simp: longest_def)
  with m(1) assms(1) show ?thesis by (auto simp: building_def shifted_def table_ok_def)
qed

text \<open>One round of the loop: the new index of the table and what it gets.\<close>

lemma building_step:
  assumes b: "building p i T j" and i: "Suc i < length p" "length p < length T" and l: "longest p p (Suc i) i m"
  shows "m < Suc i \<and> building p (Suc i) (T[Suc i := Some (if p ! Suc i = p ! m then the (T ! m) else int m)]) (int m)"
proof -
  have T: "table_ok p (Suc i) T" using b by (simp add: building_def)
  with l i(1) have "entry_ok p (Suc i) (if p ! Suc i = p ! m then the (T ! m) else int m)"
    using entry_next [of p "Suc i" m T] by simp
  with table_ok_put [OF T] i l show ?thesis by (auto simp: building_def longest_def)
qed

section \<open>Searching\<close>

definition occurs :: "'a list \<Rightarrow> 'a list \<Rightarrow> nat \<Rightarrow> bool" where
  "occurs p h q \<longleftrightarrow> q + length p \<le> length h \<and> take (length p) (drop q h) = p"

lemma occurs_run: "occurs p h q \<longleftrightarrow> run p (length p) h (q + length p)"
  by (auto simp: occurs_def run_def list_eq_iff_nth_eq)

lemma occurs_prefix_run: "occurs p h q \<Longrightarrow> q \<le> j \<Longrightarrow> j \<le> q + length p \<Longrightarrow> run p (j - q) h j"
  by (auto simp: occurs_run run_def)

text \<open>The state of a search: the longest run at position \<open>j\<close>, and no occurrence that ends before.\<close>

definition searching :: "'a list \<Rightarrow> 'a list \<Rightarrow> nat \<Rightarrow> nat \<Rightarrow> bool" where
  "searching p h j m \<longleftrightarrow> m < length p \<and> longest p h j (length p) m \<and> (\<forall>q. occurs p h q \<longrightarrow> j < q + length p)"

lemma searching_start: "p \<noteq> [] \<Longrightarrow> searching p h 0 0"
  by (auto simp: searching_def longest_def run_def)

lemma searching_stop:
  assumes "searching p h j m" "j < length h \<longrightarrow> length h + m < length p + j"
  shows "\<forall>q. \<not> occurs p h q"
proof -
  have "\<not> occurs p h q" for q
  proof
    assume q: "occurs p h q"
    have e: "j < q + length p" "q + length p \<le> length h" using q assms(1) by (auto simp: searching_def occurs_def)
    then have l: "length h + m < length p + j" using assms(2) by simp
    have "q \<le> j" using l e by simp
    with e have "run p (j - q) h j" by (intro occurs_prefix_run [OF q]) auto
    moreover have "j - q \<le> length p" using e by simp
    ultimately have "j - q \<le> m" using assms(1) by (simp add: searching_def longest_def)
    with l e \<open>q \<le> j\<close> show False by simp
  qed
  then show ?thesis by blast
qed

text \<open>A step of the search ends it at the first occurrence, or goes on.\<close>

lemma searching_step:
  assumes s: "searching p h j m" and l: "longest p h (Suc j) (length p) m'"
  shows "m' = length p \<and> (\<exists>q. Suc j = q + length p \<and> occurs p h q \<and> (\<forall>q' < q. \<not> occurs p h q'))
     \<or> m' < length p \<and> searching p h (Suc j) m'"
proof -
  have before: "Suc j \<le> q + length p" if "occurs p h q" for q using s that by (auto simp: searching_def Suc_le_eq)
  show ?thesis
  proof (cases "length p \<le> m'")
    case True
    with l have m': "m' = length p" "run p (length p) h (Suc j)" by (auto simp: longest_def)
    then have q: "Suc j = (Suc j - length p) + length p" by (auto dest: run_bounds)
    with m'(2) have "occurs p h (Suc j - length p)" by (simp add: occurs_run)
    moreover have "\<not> occurs p h q'" if "q' < Suc j - length p" for q' using before [of q'] that by auto
    ultimately show ?thesis using m'(1) q by blast
  next
    case False
    have "Suc j \<noteq> q + length p" if "occurs p h q" for q
      using that l False by (auto simp: occurs_run longest_def)
    with before have "\<forall>q. occurs p h q \<longrightarrow> Suc j < q + length p" by (metis le_neq_implies_less)
    with False l show ?thesis by (simp add: searching_def)
  qed
qed

section \<open>Two directions\<close>

text \<open>
  How a direction of the search stores what the proofs are about: position \<open>k\<close> of the needle is at
  \<open>g k\<close>, and the entry for \<open>k\<close> at \<open>g k + off\<close>; \<open>g (- 1)\<close> is the position past
  the end.
\<close>

locale search_view =
  fixes g :: "nat \<Rightarrow> int \<Rightarrow> int"
    and inside :: "nat \<Rightarrow> int \<Rightarrow> bool"
    and off :: int
    and view :: "nat \<Rightarrow> int option list \<Rightarrow> int option list"
  assumes inside_iff: "- 1 \<le> k \<Longrightarrow> inside n (g n k) \<longleftrightarrow> k > - 1"
    and entry_at: "length T = Suc n \<Longrightarrow> m \<le> n \<Longrightarrow> T ! m = Some t \<Longrightarrow> cell_at (view n T) (g n (int m) + off) = Inr (g n t)"
    and put_entry: "length T = Suc n \<Longrightarrow> m \<le> n \<Longrightarrow>
        put_cell (view n T) (g n (int m) + off) (g n t) = Inr (view n (T[m := Some t]))"
begin

text \<open>The needle is stored in the direction of the view.\<close>

definition stores :: "cell list \<Rightarrow> byte list \<Rightarrow> bool" where
  "stores cs p \<longleftrightarrow> (\<forall>k < length p. cell_at cs (g (length p) (int k)) = Inr (p ! k))"

text \<open>The inner loop ends at the longest run that the next character extends.\<close>

lemma kmp_shift_ok:
  assumes T: "table_ok p n T" "length T = Suc (length p)" and n: "n \<le> length p" and j: "j < length h"
    and p: "stores cs p"
  shows "shifted p h j n k \<Longrightarrow>
     \<exists>k'. kmp_shift (inside (length p)) off cs (view (length p) T) (Inr (h ! j)) (g (length p) k)
         = Some (Inr (g (length p) k')) \<and> k' \<le> k
       \<and> shifted p h j n k' \<and> (k' = - 1 \<or> p ! nat k' = h ! j)"
proof (induction "nat (k + 1)" arbitrary: k rule: less_induct)
  case less
  show ?case
  proof (cases "k = - 1")
    case True
    with less.prems inside_iff [of k "length p"] show ?thesis by (subst kmp_shift.simps) auto
  next
    case False
    with less.prems obtain m where m: "k = int m" "m < n" "run p m h j" by (auto simp: shifted_def)
    have c: "inside (length p) (g (length p) (int m))" "cell_at cs (g (length p) (int m)) = Inr (p ! m)"
      using m(2) n p inside_iff [of "int m" "length p"] by (simp_all add: stores_def)
    show ?thesis
    proof (cases "p ! m = h ! j")
      case True
      with m(1) c less.prems show ?thesis by (subst kmp_shift.simps) auto
    next
      case False
      from shifted_step [OF T(1) n j _ m(2) False] less.prems m(1) obtain t where
        t: "T ! m = Some t" "t < int m" "- 1 \<le> t" "shifted p h j n t" by auto
      have "cell_at (view (length p) T) (g (length p) (int m) + off) = Inr (g (length p) t)"
        using entry_at [OF T(2) _ t(1)] m(2) n by simp
      then have "kmp_shift (inside (length p)) off cs (view (length p) T) (Inr (h ! j)) (g (length p) k)
          = kmp_shift (inside (length p)) off cs (view (length p) T) (Inr (h ! j)) (g (length p) t)"
        using m(1) c False by (subst kmp_shift.simps) simp
      moreover have "nat (t + 1) < nat (k + 1)" using t m(1) by simp
      ultimately show ?thesis using less.hyps [OF _ t(4)] t(2) m(1) by fastforce
    qed
  qed
qed

text \<open>What a round of either loop computes from the position it is at.\<close>

lemma round_ok:
  assumes "table_ok p n T" "length T = Suc (length p)" "n \<le> length p" "j < length h" "stores cs p" "shifted p h j n k"
  obtains m where "kmp_shift (inside (length p)) off cs (view (length p) T) (Inr (h ! j)) (g (length p) k)
      = Some (Inr (g (length p) (int m - 1)))" "longest p h (Suc j) n m" "int m - 1 \<le> k"
    "shifted p h j n (int m - 1)" "m = 0 \<or> p ! (m - 1) = h ! j"
proof -
  from kmp_shift_ok [OF assms] obtain k' where k:
    "kmp_shift (inside (length p)) off cs (view (length p) T) (Inr (h ! j)) (g (length p) k) = Some (Inr (g (length p) k'))"
    "k' \<le> k" "shifted p h j n k'" "k' = - 1 \<or> p ! nat k' = h ! j" by blast
  obtain m where m: "k' = int m - 1" using k(3) by (auto simp: shifted_def intro: that [of 0] that [of "Suc _"])
  have "longest p h (Suc j) n m" using longest_Suc [OF k(3,4) assms(4,3)] m by simp
  moreover have "m = 0 \<or> p ! (m - 1) = h ! j" using k(4) m by (cases m) auto
  ultimately show thesis using that [of m] k(1-3) [unfolded m] by blast
qed

end

text \<open>
  The loops of one direction, as rounds: what a round of the code does once its inner loop has ended at
  \<open>m - 1\<close>. \<open>char hl j\<close> is the character of the haystack the search reaches as number \<open>j\<close>.
\<close>

locale search_code = search_view +
  fixes build :: "cell list \<Rightarrow> nat \<Rightarrow> int option list \<Rightarrow> int \<Rightarrow> int \<Rightarrow> int option list res option"
    and search :: "nat \<Rightarrow> cell list \<Rightarrow> nat \<Rightarrow> int option list \<Rightarrow> int \<Rightarrow> nat \<Rightarrow> int res option"
    and char :: "nat \<Rightarrow> nat \<Rightarrow> byte res"
    and found :: "nat \<Rightarrow> nat \<Rightarrow> nat \<Rightarrow> int"
  assumes build_last: "\<lbrakk>n < 2 ^ 31; Suc i = n; length T = Suc n;
        kmp_shift (inside n) off cs (view n T) (cell_at cs (g n (int i))) (g n k) = Some (Inr (g n (int m - 1)))\<rbrakk>
      \<Longrightarrow> build cs n (view n T) (g n (int i)) (g n k) = Some (Inr (view n (T[n := Some (int m)])))"
    and build_round: "\<lbrakk>n < 2 ^ 31; Suc i < n; length T = Suc n;
        kmp_shift (inside n) off cs (view n T) (cell_at cs (g n (int i))) (g n k) = Some (Inr (g n (int m - 1)));
        cell_at cs (g n (int (Suc i))) = Inr a; cell_at cs (g n (int m)) = Inr b; m \<le> n; T ! m = Some t\<rbrakk>
      \<Longrightarrow> build cs n (view n T) (g n (int i)) (g n k)
        = build cs n (view n (T[Suc i := Some (if a = b then t else int m)])) (g n (int (Suc i))) (g n (int m))"
    and search_stop: "\<lbrakk>n < 2 ^ 31; hl < 2 ^ 31; m \<le> j; j \<le> hl; j < hl \<longrightarrow> hl + m < n + j\<rbrakk>
      \<Longrightarrow> search hl cs n (view n T) (g n (int m)) j = Some (Inr (- 1))"
    and search_round: "\<lbrakk>n < 2 ^ 31; hl < 2 ^ 31; m \<le> j; j < hl; n + j \<le> hl + m; m' \<le> n;
        kmp_shift (inside n) off cs (view n T) (char hl j) (g n (int m)) = Some (Inr (g n (int m' - 1)))\<rbrakk>
      \<Longrightarrow> search hl cs n (view n T) (g n (int m)) j
        = (if n \<le> m' then Some (Inr (found hl n (Suc j))) else search hl cs n (view n T) (g n (int m')) (Suc j))"
begin

lemma build_ok:
  assumes nl: "length p < 2 ^ 31" and cs: "stores cs p"
  shows "building p i T j \<Longrightarrow> i < length p \<Longrightarrow> length T = Suc (length p) \<Longrightarrow>
     \<exists>T'. build cs (length p) (view (length p) T) (g (length p) (int i)) (g (length p) j)
         = Some (Inr (view (length p) T')) \<and> table_ok p (length p) T' \<and> length T' = Suc (length p)"
proof (induction "length p - i" arbitrary: i T j rule: less_induct)
  case less
  from building_shifted [OF less.prems(1,2)] have s: "shifted p p i i j" "table_ok p i T" by auto
  from round_ok [OF s(2) less.prems(3) less_imp_le [OF less.prems(2)] less.prems(2) cs s(1)] obtain m where
    k: "kmp_shift (inside (length p)) off cs (view (length p) T) (Inr (p ! i)) (g (length p) j)
        = Some (Inr (g (length p) (int m - 1)))" "longest p p (Suc i) i m" .
  have ci: "cell_at cs (g (length p) (int i)) = Inr (p ! i)" using cs less.prems(2) by (simp add: stores_def)
  note k1 = k(1) [folded ci]
  show ?case
  proof (cases "Suc i = length p")
    case True
    have "table_ok p (length p) (T[length p := Some (int m)])"
      using less.prems(1,3) True by (auto simp: building_def table_ok_def)
    with build_last [OF nl True less.prems(3) k1] less.prems(3) show ?thesis by auto
  next
    case False
    then have si: "Suc i < length p" using less.prems(2) by simp
    from building_step [OF less.prems(1) si _ k(2)] less.prems(3)
    have m: "m < Suc i" "building p (Suc i) (T[Suc i := Some (if p ! Suc i = p ! m then the (T ! m) else int m)]) (int m)"
      by simp_all
    obtain t where t: "T ! m = Some t" using less.prems(1) m(1) unfolding building_def table_ok_def by blast
    have "cell_at cs (g (length p) (int (Suc i))) = Inr (p ! Suc i)" "cell_at cs (g (length p) (int m)) = Inr (p ! m)"
      using cs si m(1) by (simp_all add: stores_def del: of_nat_Suc)
    from build_round [OF nl si less.prems(3) k1 this _ t] m(1) si
    have "build cs (length p) (view (length p) T) (g (length p) (int i)) (g (length p) j)
        = build cs (length p) (view (length p) (T[Suc i := Some (if p ! Suc i = p ! m then t else int m)]))
            (g (length p) (int (Suc i))) (g (length p) (int m))"
      by simp
    moreover have "length p - Suc i < length p - i" using si by simp
    ultimately show ?thesis using less.hyps [OF _ m(2) si, unfolded t option.sel] less.prems(3) by simp
  qed
qed

lemma building_start: "p \<noteq> [] \<Longrightarrow> length T = Suc (length p) \<Longrightarrow> building p 0 (T[0 := Some (- 1)]) (- 1)"
  by (cases T) (auto simp: building_def table_ok_def entry_ok_def)

text \<open>The search stops at the first occurrence in its direction.\<close>

lemma search_ok:
  assumes nl: "length p < 2 ^ 31" and hl: "length h < 2 ^ 31" and T: "table_ok p (length p) T" "length T = Suc (length p)"
    and cs: "stores cs p" and hay: "\<And>j. j < length h \<Longrightarrow> char (length h) j = Inr (h ! j)"
  shows "searching p h j m \<Longrightarrow>
     (\<forall>q. \<not> occurs p h q) \<and> search (length h) cs (length p) (view (length p) T) (g (length p) (int m)) j = Some (Inr (- 1))
   \<or> (\<exists>q. occurs p h q \<and> (\<forall>q' < q. \<not> occurs p h q')
       \<and> search (length h) cs (length p) (view (length p) T) (g (length p) (int m)) j
           = Some (Inr (found (length h) (length p) (q + length p))))"
proof (induction "length h - j" arbitrary: j m rule: less_induct)
  case less
  have m: "m < length p" "m \<le> j" "j \<le> length h" using less.prems by (auto simp: searching_def longest_def dest: run_bounds)
  show ?case
  proof (cases "j < length h \<and> length p + j \<le> length h + m")
    case False
    then have st: "j < length h \<longrightarrow> length h + m < length p + j" by auto
    from searching_stop [OF less.prems st] search_stop [OF nl hl m(2,3) st] show ?thesis by simp
  next
    case True
    then have j: "j < length h" "length p + j \<le> length h + m" by auto
    have "shifted p h j (length p) (int m)" using less.prems shifted_longest by (auto simp: searching_def)
    from round_ok [OF T order_refl j(1) cs this] obtain m' where
      k: "kmp_shift (inside (length p)) off cs (view (length p) T) (Inr (h ! j)) (g (length p) (int m))
          = Some (Inr (g (length p) (int m' - 1)))" "longest p h (Suc j) (length p) m'" by blast
    have m': "m' \<le> length p" using k(2) by (simp add: longest_def)
    note r = search_round [OF nl hl m(2) j m' k(1) [folded hay [OF j(1)]]]
    from searching_step [OF less.prems k(2)] show ?thesis
    proof
      assume "m' = length p \<and> (\<exists>q. Suc j = q + length p \<and> occurs p h q \<and> (\<forall>q' < q. \<not> occurs p h q'))"
      with r show ?thesis by auto
    next
      assume s: "m' < length p \<and> searching p h (Suc j) m'"
      have "length h - Suc j < length h - j" using j(1) by simp
      from less.hyps [OF this conjunct2 [OF s]] s r show ?thesis by simp
    qed
  qed
qed

end


section \<open>The two directions of the code\<close>

text \<open>
  From the right, position \<open>k\<close> is \<open>n - 1 - k\<close>, and entry \<open>k\<close> of the table is entry
  \<open>n - k\<close>.
\<close>

definition mir :: "nat \<Rightarrow> int \<Rightarrow> int" where "mir n k = int n - 1 - k"
definition mirT :: "nat \<Rightarrow> int option list \<Rightarrow> int option list" where "mirT n T = map (map_option (mir n)) (rev T)"

lemma length_mirT [simp]: "length (mirT n T) = length T" by (simp add: mirT_def)

lemma mirT_position: "length T = Suc n \<Longrightarrow> m \<le> n \<Longrightarrow> mir n (int m) + 1 = int (length T - Suc m)"
  by (simp add: mir_def)

lemma cell_at_mirT:
  assumes "length T = Suc n" "m \<le> n" "T ! m = Some t"
  shows "cell_at (mirT n T) (mir n (int m) + 1) = Inr (mir n t)"
  using assms by (subst mirT_position [OF assms(1,2)], intro cell_at_ok) (simp_all add: mirT_def rev_nth)

lemma put_cell_mirT:
  assumes "length T = Suc n" "m \<le> n"
  shows "put_cell (mirT n T) (mir n (int m) + 1) (mir n t) = Inr (mirT n (T[m := Some t]))"
  using assms by (subst mirT_position [OF assms], subst put_cell_ok) (simp_all add: mirT_def rev_update map_update)

lemma range_test: "(\<lambda>k. k < long_of_size n) = (\<lambda>k. k < int n)" "(\<lambda>k. k < int_of_size n) = (\<lambda>k. k < int n)"
  if "n < 2 ^ 31"
  using that by (simp_all add: int_of_size_small long_of_size_small)

interpretation left: search_code "\<lambda>_ k. k" "\<lambda>_ k. k > - 1" 0 "\<lambda>_ T. T" build_loop
    "\<lambda>hl cs n T i j. find_loop hay b hl cs n T i (int j)" "\<lambda>_ j. cell_at hay (b + int j)" "\<lambda>_ n j. int j - int n"
  for hay b
proof unfold_locales
  fix n i :: nat and T cs and k :: int and m
  assume n: "n < 2 ^ 31" "Suc i = n" "length T = Suc n"
    and k: "kmp_shift (\<lambda>k. k > - 1) 0 cs T (cell_at cs (int i)) k = Some (Inr (int m - 1))"
  have e: "int i + 1 = int n" "int i < int n" using n(2) by simp_all
  have p: "put_cell T (int n) (int m) = Inr (T[n := Some (int m)])" using n(3) by (intro put_cell_ok) simp
  show "build_loop cs n T (int i) k = Some (Inr (T[n := Some (int m)]))"
    using n(1) k p e by (subst build_loop.simps, simp add: long_of_size_small) (subst build_loop.simps, simp add: long_of_size_small)
next
  fix n i :: nat and T cs and k :: int and m a b' t
  assume n: "n < 2 ^ 31" "Suc i < n" "length T = Suc n" "m \<le> n" "T ! m = Some t"
    and k: "kmp_shift (\<lambda>k. k > - 1) 0 cs T (cell_at cs (int i)) k = Some (Inr (int m - 1))"
    and c: "cell_at cs (int (Suc i)) = Inr a" "cell_at cs (int m) = Inr b'"
  have e: "int i + 1 = int (Suc i)" by simp
  show "build_loop cs n T (int i) k = build_loop cs n (T[Suc i := Some (if a = b' then t else int m)]) (int (Suc i)) (int m)"
    using n k c by (subst build_loop.simps) (simp add: long_of_size_small Let_def e del: of_nat_Suc)
next
  fix n hl m j :: nat and T cs
  assume n: "n < 2 ^ 31" "hl < 2 ^ 31" "m \<le> j" "j \<le> hl" and st: "j < hl \<longrightarrow> hl + m < n + j"
  have "(int hl - int j + int m) mod 2 ^ 64 = int hl - int j + int m"
    using n by (intro mod_pos_pos_trivial) auto
  then show "find_loop hay b hl cs n T (int m) (int j) = Some (Inr (- 1))"
    using n(1,2) st by (subst find_loop.simps) (simp only: int_of_size_small if_False, auto)
next
  fix n hl m j m' :: nat and T cs
  assume n: "n < 2 ^ 31" "hl < 2 ^ 31" "m \<le> j" "j < hl" "n + j \<le> hl + m" "m' \<le> n"
    and k: "kmp_shift (\<lambda>k. k > - 1) 0 cs T (cell_at hay (b + int j)) (int m) = Some (Inr (int m' - 1))"
  have u: "(int hl - int j + int m) mod 2 ^ 64 = int hl - int j + int m"
    using n by (intro mod_pos_pos_trivial) auto
  have e: "int j + 1 = int (Suc j)" by simp
  show "find_loop hay b hl cs n T (int m) (int j) =
      (if n \<le> m' then Some (Inr (int (Suc j) - int n)) else find_loop hay b hl cs n T (int m') (int (Suc j)))"
    using n k by (subst find_loop.simps) (simp only: int_of_size_small u, simp add: Let_def e del: of_nat_Suc)
qed simp_all

interpretation right: search_code mir "\<lambda>n k. k < int n" 1 mirT build_loopR
    "\<lambda>hl cs n T i j. findR_loop hay cs n T i (mir hl (int j))" "\<lambda>hl j. cell_at hay (mir hl (int j))" "\<lambda>hl _ j. int hl - int j"
  for hay
proof unfold_locales
  fix n i :: nat and T cs and k :: int and m
  assume n: "n < 2 ^ 31" "Suc i = n" "length T = Suc n"
    and k: "kmp_shift (\<lambda>k. k < int n) 1 cs (mirT n T) (cell_at cs (mir n (int i))) (mir n k) = Some (Inr (mir n (int m - 1)))"
  have e: "mir n (int i) = 0" "mir n (int m - 1) - 1 = mir n (int m)" using n(2) by (simp_all add: mir_def)
  have p: "put_cell (mirT n T) 0 (mir n (int m)) = Inr (mirT n (T[n := Some (int m)]))"
    using put_cell_mirT [OF n(3) order_refl, of "int m"] by (simp add: mir_def)
  show "build_loopR cs n (mirT n T) (mir n (int i)) (mir n k) = Some (Inr (mirT n (T[n := Some (int m)])))"
    using k p unfolding e by (subst build_loopR.simps, simp add: range_test [OF n(1)] e) (subst build_loopR.simps, simp)
next
  fix n i :: nat and T cs and k :: int and m a b t
  assume n: "n < 2 ^ 31" "Suc i < n" "length T = Suc n" "m \<le> n" "T ! m = Some t"
    and k: "kmp_shift (\<lambda>k. k < int n) 1 cs (mirT n T) (cell_at cs (mir n (int i))) (mir n k) = Some (Inr (mir n (int m - 1)))"
    and c: "cell_at cs (mir n (int (Suc i))) = Inr a" "cell_at cs (mir n (int m)) = Inr b"
  have e: "mir n (int i) - 1 = mir n (int (Suc i))" "mir n (int m - 1) - 1 = mir n (int m)" by (simp_all add: mir_def)
  have i: "0 \<le> mir n (int i)" "0 \<le> mir n (int (Suc i))" using n(2) by (simp_all add: mir_def)
  show "build_loopR cs n (mirT n T) (mir n (int i)) (mir n k)
      = build_loopR cs n (mirT n (T[Suc i := Some (if a = b then t else int m)])) (mir n (int (Suc i))) (mir n (int m))"
    using k c i n put_cell_mirT [OF n(3), of "Suc i"] cell_at_mirT [OF n(3-5)]
    by (subst build_loopR.simps) (simp add: range_test [OF n(1)] Let_def e del: of_nat_Suc)
next
  fix n hl m j :: nat and T cs
  assume n: "m \<le> j" "j \<le> hl" and st: "j < hl \<longrightarrow> hl + m < n + j"
  then have "\<not> (mir hl (int j) \<ge> 0 \<and> mir hl (int j) \<ge> mir n (int m))" by (auto simp: mir_def)
  then show "findR_loop hay cs n (mirT n T) (mir n (int m)) (mir hl (int j)) = Some (Inr (- 1))"
    by (subst findR_loop.simps) auto
next
  fix n hl m j m' :: nat and T cs
  assume n: "n < 2 ^ 31" "j < hl" "n + j \<le> hl + m" "m' \<le> n"
    and k: "kmp_shift (\<lambda>k. k < int n) 1 cs (mirT n T) (cell_at hay (mir hl (int j))) (mir n (int m)) = Some (Inr (mir n (int m' - 1)))"
  have c: "mir hl (int j) \<ge> 0" "mir hl (int j) \<ge> mir n (int m)" using n by (auto simp: mir_def)
  have e: "mir n (int m' - 1) - 1 = mir n (int m')" "mir hl (int j) - 1 = mir hl (int (Suc j))"
    "mir n (int m' - 1) < 1 \<longleftrightarrow> n \<le> m'" "mir hl (int (Suc j)) + 1 = int hl - int (Suc j)" by (auto simp: mir_def)
  show "findR_loop hay cs n (mirT n T) (mir n (int m)) (mir hl (int j)) =
      (if n \<le> m' then Some (Inr (int hl - int (Suc j)))
       else findR_loop hay cs n (mirT n T) (mir n (int m')) (mir hl (int (Suc j))))"
    using c k by (subst findR_loop.simps) (simp add: range_test [OF n(1)] Let_def e del: of_nat_Suc)
qed (rule cell_at_mirT put_cell_mirT, assumption+ | simp add: mir_def)+


section \<open>What a search returns\<close>

text \<open>The reference: the first, or last, position at which the needle occurs.\<close>

definition naive_find :: "'a list \<Rightarrow> 'a list \<Rightarrow> nat \<Rightarrow> int" where
  "naive_find p h start = (case List.find (occurs p h) [start..<Suc (length h)] of None \<Rightarrow> - 1 | Some q \<Rightarrow> int q)"

definition naive_findR :: "'a list \<Rightarrow> 'a list \<Rightarrow> nat \<Rightarrow> int" where
  "naive_findR p h start =
     (case List.find (occurs p (take (Suc start) h)) (rev [0..<Suc (length h)]) of None \<Rightarrow> - 1 | Some q \<Rightarrow> int q)"

lemma find_upt:
  assumes "a \<le> q" "q < b" "P q" "\<And>q'. a \<le> q' \<Longrightarrow> q' < q \<Longrightarrow> \<not> P q'"
  shows "List.find P [a..<b] = Some q"
  unfolding find_Some_iff
  by (rule exI [of _ "q - a"]) (use assms in \<open>auto simp: less_diff_conv\<close>)

lemma find_rev_upt:
  assumes "q < b" "P q" "\<And>q'. q < q' \<Longrightarrow> q' < b \<Longrightarrow> \<not> P q'"
  shows "List.find P (rev [0..<b]) = Some q"
  unfolding find_Some_iff
  by (rule exI [of _ "b - Suc q"]) (use assms in \<open>auto simp: rev_nth\<close>)

lemma occurs_drop: "start \<le> length h \<Longrightarrow> occurs p (drop start h) q \<longleftrightarrow> occurs p h (start + q)"
  by (auto simp: occurs_def add_ac)

lemma occurs_rev:
  assumes "q + length p \<le> length h"
  shows "occurs (rev p) (rev h) q \<longleftrightarrow> occurs p h (length h - length p - q)"
proof -
  have "take (length p) (drop q (rev h)) = rev (drop (length h - q - length p) (take (length h - q) h))"
    using assms by (simp add: drop_rev take_rev)
  also have "drop (length h - q - length p) (take (length h - q) h) = take (length p) (drop (length h - length p - q) h)"
    using assms by (simp add: take_drop add_ac diff_right_commute)
  finally show ?thesis using assms by (simp add: occurs_def)
qed

lemma table_bytes_small: "n < 2 ^ 31 \<Longrightarrow> table_bytes n div 8 = Suc n"
  by (simp add: table_bytes_def)

lemma BuildTable_ok:
  assumes "length p < 2 ^ 31" "p \<noteq> []"
  shows "\<exists>T. utstring_BuildTable (filled p @ x) (length p) (replicate (Suc (length p)) None) = Some (Inr T)
     \<and> table_ok p (length p) T \<and> length T = Suc (length p)"
proof -
  have cs: "left.stores (filled p @ x) p" by (simp add: left.stores_def cell_at_def nth_append)
  let ?T = "(replicate (Suc (length p)) None)[0 := Some (- 1)]"
  have l: "length ?T = Suc (length p)" by simp
  have "building p 0 ?T (- 1)" by (rule left.building_start) (use assms in simp_all)
  from left.build_ok [OF assms(1) cs this _ l] assms(2) put_cell_ok [of 0 "replicate (Suc (length p)) None :: int option list" "- 1"]
  show ?thesis by (simp add: utstring_BuildTable_def)
qed

lemma stores_rev: "right.stores (filled p @ x) (rev p)"
  unfolding right.stores_def
proof (intro allI impI)
  fix k assume k: "k < length (rev p)"
  then have e: "mir (length (rev p)) (int k) = int (length p - Suc k)" "length p - Suc k < length p" by (simp_all add: mir_def)
  show "cell_at (filled p @ x) (mir (length (rev p)) (int k)) = Inr (rev p ! k)"
    unfolding e(1) by (rule cell_at_ok) (use e(2) k in \<open>simp_all add: nth_append rev_nth\<close>)
qed

lemma BuildTableR_ok:
  assumes "length p < 2 ^ 31" "p \<noteq> []"
  shows "\<exists>T. utstring_BuildTableR (filled p @ x) (length p) (replicate (Suc (length p)) None) = Some (Inr (mirT (length p) T))
     \<and> table_ok (rev p) (length p) T \<and> length T = Suc (length p)"
proof -
  note cs = stores_rev [of p x]
  let ?N = "replicate (Suc (length p)) None :: int option list" let ?T = "?N[0 := Some (- 1)]"
  have l: "length ?T = Suc (length (rev p))" by simp
  have "building (rev p) 0 ?T (- 1)" by (rule right.building_start) (use assms in simp_all)
  from right.build_ok [OF _ cs this _ l] assms obtain T where
    T: "build_loopR (filled p @ x) (length p) (mirT (length p) ?T) (mir (length p) 0) (mir (length p) (- 1))
      = Some (Inr (mirT (length p) T))" "table_ok (rev p) (length p) T" "length T = Suc (length p)"
    by auto
  have "put_cell ?N (int (length p)) (int (length p)) = Inr (mirT (length p) ?T)"
    using put_cell_mirT [of ?N "length p" 0 "- 1"] by (simp add: mir_def mirT_def rev_replicate map_replicate del: replicate_Suc)
  with T assms(1) show ?thesis
    by (auto simp: utstring_BuildTableR_def Let_def long_of_size_small mir_def)
qed


lemma naive_find_first:
  assumes "start + length p \<le> length txt + 1"
    and "(\<forall>q. \<not> occurs p (drop start txt) q) \<and> r = - 1
      \<or> (\<exists>q. occurs p (drop start txt) q \<and> (\<forall>q' < q. \<not> occurs p (drop start txt) q') \<and> r = int (q + start))"
    and p: "p \<noteq> []"
  shows "r = naive_find p txt start"
proof -
  have s: "start \<le> length txt" using assms(1) p by (cases p) auto
  note o = occurs_drop [OF s]
  from assms(2) show ?thesis
  proof
    assume a: "(\<forall>q. \<not> occurs p (drop start txt) q) \<and> r = - 1"
    have "List.find (occurs p txt) [start..<Suc (length txt)] = None"
      unfolding find_None_iff using a o by (auto simp: le_iff_add)
    with a show ?thesis by (simp add: naive_find_def)
  next
    assume "\<exists>q. occurs p (drop start txt) q \<and> (\<forall>q' < q. \<not> occurs p (drop start txt) q') \<and> r = int (q + start)"
    then obtain q where q: "occurs p txt (start + q)" "\<And>q'. q' < q \<Longrightarrow> \<not> occurs p txt (start + q')" "r = int (start + q)"
      using o by (auto simp: add.commute)
    have "\<not> occurs p txt q'" if "start \<le> q'" "q' < start + q" for q'
      using q(2) [of "q' - start"] that by simp
    moreover have "start + q < Suc (length txt)" using q(1) by (simp add: occurs_def)
    ultimately have "List.find (occurs p txt) [start..<Suc (length txt)] = Some (start + q)"
      using q(1) by (intro find_upt) auto
    with q(3) show ?thesis by (simp add: naive_find_def)
  qed
qed

lemma naive_findR_last:
  assumes "\<And>q. occurs (rev p) (rev h) q \<Longrightarrow> q + length p \<le> length h" and h: "h = take (Suc start) txt"
    and "(\<forall>q. \<not> occurs (rev p) (rev h) q) \<and> r = - 1
      \<or> (\<exists>q. occurs (rev p) (rev h) q \<and> (\<forall>q' < q. \<not> occurs (rev p) (rev h) q')
           \<and> r = int (length h) - int (q + length p))"
  shows "r = naive_findR p txt start"
  using assms(3)
proof
  assume a: "(\<forall>q. \<not> occurs (rev p) (rev h) q) \<and> r = - 1"
  have "\<not> occurs p h q" for q
  proof
    assume "occurs p h q"
    then have "q + length p \<le> length h" by (simp add: occurs_def)
    with a \<open>occurs p h q\<close> occurs_rev [of "length h - length p - q" p h] show False by simp
  qed
  then have "List.find (occurs p h) (rev [0..<Suc (length txt)]) = None" by (simp add: find_None_iff)
  with a h show ?thesis by (simp add: naive_findR_def)
next
  assume "\<exists>q. occurs (rev p) (rev h) q \<and> (\<forall>q' < q. \<not> occurs (rev p) (rev h) q') \<and> r = int (length h) - int (q + length p)"
  then obtain q where q: "occurs (rev p) (rev h) q" "\<And>q'. q' < q \<Longrightarrow> \<not> occurs (rev p) (rev h) q'"
    "r = int (length h) - int (q + length p)" by blast
  let ?q = "length h - length p - q"
  have le: "q + length p \<le> length h" using assms(1) q(1) by blast
  have "occurs p h ?q" using q(1) occurs_rev [OF le] by simp
  moreover have "\<not> occurs p h q'" if "?q < q'" for q'
  proof
    assume o: "occurs p h q'"
    then have l: "q' + length p \<le> length h" by (simp add: occurs_def)
    have "occurs (rev p) (rev h) (length h - length p - q')" using o l by (subst occurs_rev) simp_all
    moreover have "length h - length p - q' < q" using that l le by simp
    ultimately show False using q(2) by blast
  qed
  moreover have "?q < Suc (length txt)" using h by simp
  ultimately have "List.find (occurs p h) (rev [0..<Suc (length txt)]) = Some ?q" by (intro find_rev_upt) auto
  moreover have "r = int ?q" using q(3) le by simp
  ultimately show ?thesis using h by (simp add: naive_findR_def)
qed


lemma occurs_nowhere: "length h < length p \<Longrightarrow> \<not> occurs p h q"
  by (simp add: occurs_def)

lemma naive_find_none: "length txt < start + length p \<Longrightarrow> naive_find p txt start = - 1"
proof -
  assume "length txt < start + length p"
  then have "List.find (occurs p txt) [start..<Suc (length txt)] = None" by (auto simp: find_None_iff occurs_def)
  then show ?thesis by (simp add: naive_find_def)
qed

lemma utstring_find_ok:
  assumes rt: "enough_memory rt" and s: "holds_text s txt" "length txt < 2 ^ 31" and p: "p \<noteq> []" "length p < 2 ^ 63"
    and st: "start_position s start = int n"
  shows "utstring_find rt s start (filled p @ x) (length p) = Some (Inr (naive_find p txt n))"
proof -
  from s(1) obtain rest where d: "str_d s = Block (filled txt @ Some 0 # rest)" "unat (str_i s) = length txt"
    by (auto simp: holds_text_def)
  have m: "malloc_ok rt k" for k using rt by (simp add: enough_memory_def)
  show ?thesis
  proof (cases "n + length p \<le> length txt")
    case False
    then show ?thesis
      using d(2) st p(2) by (simp add: utstring_find_def Let_def long_of_size_small naive_find_none)
  next
    case True
    then have small: "length p < 2 ^ 31" using s(2) by simp
    let ?h = "drop n txt" let ?hay = "filled txt @ Some 0 # rest"
    have v: "nat (int (length txt) - int n) = length ?h" "\<not> int (length txt) - int n < int (length p)" using True by simp_all
    from BuildTable_ok [OF small p(1)] obtain T where
      T: "utstring_BuildTable (filled p @ x) (length p) (replicate (Suc (length p)) None) = Some (Inr T)"
        "table_ok p (length p) T" "length T = Suc (length p)" by blast
    have cs: "left.stores (filled p @ x) p" by (simp add: left.stores_def cell_at_def nth_append)
    have hay: "cell_at ?hay (int n + int j) = Inr (?h ! j)" if "j < length ?h" for j
    proof -
      have "cell_at ?hay (int (n + j)) = Inr (?h ! j)" by (rule cell_at_ok) (use that less_diff_conv [of j "length txt" n] in \<open>simp_all add: nth_append add.commute\<close>)
      then show ?thesis by simp
    qed
    have hl: "length ?h < 2 ^ 31" using s(2) by simp
    from left.search_ok [where hay = ?hay and b = "int n", OF small hl T(2,3) cs hay searching_start [OF p(1)]]
    obtain pos where pos: "utstring_find_table ?hay (int n) (length ?h) (filled p @ x) (length p) T = Some (Inr pos)"
      "(\<forall>q. \<not> occurs p ?h q) \<and> pos = - 1 \<or> (\<exists>q. occurs p ?h q \<and> (\<forall>q' < q. \<not> occurs p ?h q') \<and> pos = int q)"
      by (auto simp: utstring_find_table_def)
    have "(if pos \<ge> 0 then pos + int n else pos) = naive_find p txt n"
      by (rule naive_find_first) (use True pos(2) p(1) in auto)
    with T(1) pos(1) d st v m True small p(1) show ?thesis
      by (simp add: utstring_find_def Let_def long_of_size_small table_bytes_small del: replicate_Suc)
  qed
qed

lemma utstring_findR_ok:
  assumes rt: "enough_memory rt" and s: "holds_text s txt" "length txt < 2 ^ 31" and p: "p \<noteq> []" "length p < 2 ^ 63"
    and st: "start_position s start = int n" "n < length txt"
  shows "utstring_findR rt s start (filled p @ x) (length p) = Some (Inr (naive_findR p txt n))"
proof -
  from s(1) obtain rest where d: "str_d s = Block (filled txt @ Some 0 # rest)" "unat (str_i s) = length txt"
    by (auto simp: holds_text_def)
  have m: "malloc_ok rt k" for k using rt by (simp add: enough_memory_def)
  let ?h = "take (Suc n) txt" let ?hay = "filled txt @ Some 0 # rest"
  have lh: "length ?h = Suc n" using st(2) by simp
  show ?thesis
  proof (cases "length p \<le> Suc n")
    case False
    then have "List.find (occurs p ?h) (rev [0..<Suc (length txt)]) = None" by (simp add: find_None_iff occurs_def)
    then show ?thesis
      using False st p(2) by (simp add: utstring_findR_def Let_def long_of_size_small naive_findR_def)
  next
    case True
    then have small: "length p < 2 ^ 31" using s(2) st(2) by simp
    from BuildTableR_ok [OF small p(1)] obtain T where
      T: "utstring_BuildTableR (filled p @ x) (length p) (replicate (Suc (length p)) None) = Some (Inr (mirT (length p) T))"
        "table_ok (rev p) (length p) T" "length T = Suc (length p)" by blast
    have hay: "cell_at ?hay (mir (length (rev ?h)) (int j)) = Inr (rev ?h ! j)" if "j < length (rev ?h)" for j
    proof -
      have e: "mir (length (rev ?h)) (int j) = int (n - j)" "n - j < length txt" using that lh st(2) by (simp_all add: mir_def)
      show ?thesis unfolding e(1) by (rule cell_at_ok) (use e(2) that lh st(2) in \<open>simp_all add: nth_append rev_nth\<close>)
    qed
    have hl: "length (rev ?h) < 2 ^ 31" "length (rev p) < 2 ^ 31" using s(2) small by simp_all
    have T': "table_ok (rev p) (length (rev p)) T" "length T = Suc (length (rev p))" using T by simp_all
    have p': "rev p \<noteq> []" using p(1) by simp
    from right.search_ok [where hay = ?hay, OF hl(2,1) T' stores_rev [of p x] hay searching_start [OF p']]
    obtain pos where pos: "findR_loop ?hay (filled p @ x) (length p) (mirT (length p) T) (mir (length p) 0) (mir (length ?h) 0)
        = Some (Inr pos)"
      "(\<forall>q. \<not> occurs (rev p) (rev ?h) q) \<and> pos = - 1 \<or> (\<exists>q. occurs (rev p) (rev ?h) q \<and> (\<forall>q' < q. \<not> occurs (rev p) (rev ?h) q')
        \<and> pos = int (length ?h) - int (q + length p))"
      by auto
    have "pos = naive_findR p txt n"
      by (rule naive_findR_last [OF _ refl pos(2)]) (simp add: occurs_def)
    moreover have "utstring_findR_table ?hay (Suc n) (filled p @ x) (length p) (mirT (length p) T) = Some (Inr pos)"
      using pos(1) lh small s(2) st(2) by (simp add: utstring_findR_table_def long_of_size_small mir_def)
    ultimately show ?thesis
      using T(1) d st(1) m True small p(1)
      by (simp add: utstring_findR_def Let_def long_of_size_small table_bytes_small nat_add_distrib del: replicate_Suc)
  qed
qed


section \<open>Properties\<close>

definition sample_string :: UT_string where
  "sample_string = \<lparr>str_d = Block (filled [97, 98, 97, 97, 98] @ [Some 0]), str_n = 6, str_i = 5\<rparr>"

lemma sample_string_holds: "holds_text sample_string [97, 98, 97, 97, 98]"
  by (simp add: sample_string_def holds_text_def)

text \<open>C20: the searches of \<^verbatim>\<open>utstring.h\<close> end without leaving the needle, the table or the text,
  and return what trying every position gives: the first occurrence at or after the start position,
  and the last occurrence within the text up to the start position. Negative start positions count from
  the end.\<close>

theorem substring_search_is_naive:
  assumes "enough_memory rt" "holds_text s txt" "length txt < 2 ^ 31" "p \<noteq> []" "length p < 2 ^ 63"
    and "start_position s start = int n"
  shows "utstring_find rt s start (filled p @ x) (length p) = Some (Inr (naive_find p txt n))
    \<and> (n < length txt \<longrightarrow> utstring_findR rt s start (filled p @ x) (length p) = Some (Inr (naive_findR p txt n)))"
  using utstring_find_ok [OF assms] utstring_findR_ok [OF assms] by blast

lemma substring_search_is_naive_witness:
  "utstring_find good_runtime sample_string 1 (filled [97, 98]) (length [97, 98 :: byte]) = Some (Inr 3)
   \<and> utstring_findR good_runtime sample_string (- 2) (filled [97, 98]) (length [97, 98 :: byte]) = Some (Inr 0)"
  using substring_search_is_naive [OF enough_memory_good sample_string_holds, of "[97, 98]" 1 1 "[]"]
    substring_search_is_naive [OF enough_memory_good sample_string_holds, of "[97, 98]" "- 2" 3 "[]"]
  by (simp add: start_position_def sample_string_def naive_find_def naive_findR_def occurs_def upt_rec)

text \<open>A start position is not checked against the text: one before its beginning makes the search
  from the left read before the block, one past the end of the block makes the search from the right read
  behind it.\<close>

theorem search_start_unchecked:
  assumes rt: "enough_memory rt" and s: "holds_text s txt" and p: "p \<noteq> []" "length p < 2 ^ 31"
  shows "(start < - int (length txt) \<and> - start < 2 ^ 31 \<and> int (length p) \<le> - start
      \<longrightarrow> utstring_find rt s start (filled p @ x) (length p) = Some (Inl OutOfBounds))
    \<and> (int (unat (str_n s)) \<le> start \<and> start < 2 ^ 62 \<and> int (length p) \<le> start + 1
      \<longrightarrow> utstring_findR rt s start (filled p @ x) (length p) = Some (Inl OutOfBounds))"
proof (intro conjI impI; elim conjE)
  from s obtain rest where d: "str_d s = Block (filled txt @ Some 0 # rest)" "unat (str_i s) = length txt"
      "unat (str_n s) = length txt + 1 + length rest"
    by (auto simp: holds_text_def)
  let ?hay = "filled txt @ Some 0 # rest"
  have m: "malloc_ok rt k" for k using rt by (simp add: enough_memory_def)
  assume st: "start < - int (length txt)" "- start < 2 ^ 31" "int (length p) \<le> - start"
  from BuildTable_ok [OF p(2,1)] obtain T where
    T: "utstring_BuildTable (filled p @ x) (length p) (replicate (Suc (length p)) None) = Some (Inr T)" by blast
  have "cell_at (filled p @ x) (int 0) = Inr (p ! 0)" by (rule cell_at_ok) (use p(1) in \<open>simp_all add: nth_append\<close>)
  then have "kmp_shift (\<lambda>k. k > - 1) 0 (filled p @ x) T (cell_at ?hay (int (length txt) + start)) 0 = Some (Inl OutOfBounds)"
    using st(1) by (subst kmp_shift.simps) simp
  then have "utstring_find_table ?hay (int (length txt) + start) (nat (- start)) (filled p @ x) (length p) T
      = Some (Inl OutOfBounds)"
    using st by (subst utstring_find_table_def, subst find_loop.simps) (simp add: int_of_size_small)
  moreover have "start_position s start = int (length txt) + start" using st(1) d(2) by (simp add: start_position_def)
  ultimately show "utstring_find rt s start (filled p @ x) (length p) = Some (Inl OutOfBounds)"
    using T d p m st(3) by (simp add: utstring_find_def Let_def long_of_size_small table_bytes_small del: replicate_Suc)
next
  from s obtain rest where d: "str_d s = Block (filled txt @ Some 0 # rest)" "unat (str_n s) = length txt + 1 + length rest"
    by (auto simp: holds_text_def)
  let ?hay = "filled txt @ Some 0 # rest"
  have m: "malloc_ok rt k" for k using rt by (simp add: enough_memory_def)
  assume st: "int (unat (str_n s)) \<le> start" "start < 2 ^ 62" "int (length p) \<le> start + 1"
  from BuildTableR_ok [OF p(2,1)] obtain T where
    T: "utstring_BuildTableR (filled p @ x) (length p) (replicate (Suc (length p)) None) = Some (Inr (mirT (length p) T))" by blast
  have e: "int (length p) - 1 = int (length p - 1)" using p(1) by (cases p) auto
  have "length p - 1 < length p" using p(1) by (cases p) auto
  then have "cell_at (filled p @ x) (int (length p - 1)) = Inr (p ! (length p - 1))"
    by (intro cell_at_ok) (simp_all add: nth_append)
  then have "kmp_shift (\<lambda>k. k < int_of_size (length p)) 1 (filled p @ x) (mirT (length p) T) (cell_at ?hay start) (int (length p) - 1)
      = Some (Inl OutOfBounds)"
    using st(1) d(2) p by (subst kmp_shift.simps) (simp add: e int_of_size_small)
  then have "utstring_findR_table ?hay (nat (start + 1)) (filled p @ x) (length p) (mirT (length p) T) = Some (Inl OutOfBounds)"
    using st d(2) p(2) by (subst utstring_findR_table_def, subst findR_loop.simps) (simp add: long_of_size_small)
  moreover have "start_position s start = start" using st(1) d(2) by (simp add: start_position_def)
  ultimately show "utstring_findR rt s start (filled p @ x) (length p) = Some (Inl OutOfBounds)"
    using T d(1) p m st(3) by (simp add: utstring_findR_def Let_def long_of_size_small table_bytes_small del: replicate_Suc)
qed

lemma search_start_unchecked_witness:
  "utstring_find good_runtime sample_string (- 6) (filled [98]) (length [98 :: byte]) = Some (Inl OutOfBounds)
   \<and> utstring_findR good_runtime sample_string 6 (filled [98]) (length [98 :: byte]) = Some (Inl OutOfBounds)"
  using search_start_unchecked [OF enough_memory_good sample_string_holds, of "[98]" "- 6" "[]"]
    search_start_unchecked [OF enough_memory_good sample_string_holds, of "[98]" 6 "[]"]
  by (simp add: sample_string_def)

end
