(* ===== verification/Utarray.thy ===== *)
theory Utarray
  imports Blocks Utlist
begin

text \<open>
  The dynamic arrays of \<^verbatim>\<open>src/uthash/utarray.h\<close>. An element is a value of a type
  \<open>'e\<close>, a slot that holds nothing determinate is \<^term>\<open>None\<close>, and a pointer to an element
  is the index of its slot. \<^verbatim>\<open>unsigned\<close> values wrap at 32 bits. The initialiser and the
  copy function of an array are values; its destructor is recorded by the elements it was called on.
\<close>

section \<open>Arrays\<close>

record 'e UT_icd =
  icd_sz :: nat
  icd_init :: "'e option"
  icd_copy :: "('e \<Rightarrow> 'e) option"
  icd_dtor :: bool

record 'e UT_array =
  arr_i :: u32
  arr_n :: u32
  arr_icd :: "'e UT_icd"
  arr_d :: "'e block"
  destroyed :: "'e list"

definition utarray_init :: "'e UT_icd \<Rightarrow> 'e UT_array" where
  "utarray_init icd = \<lparr>arr_i = 0, arr_n = 0, arr_icd = icd, arr_d = Null_Ptr, destroyed = []\<rparr>"

definition sizeof_UT_array :: nat where "sizeof_UT_array = 56"

definition utarray_new :: "runtime \<Rightarrow> 'e UT_icd \<Rightarrow> 'e UT_array res" where
  "utarray_new rt icd = res_bind (check NullDereference (malloc_ok rt sizeof_UT_array)) (\<lambda>_. Inr (utarray_init icd))"

definition utarray_len :: "'e UT_array \<Rightarrow> u32" where "utarray_len a = arr_i a"

text \<open>A pointer to the element with index \<open>j\<close>, or the null pointer.\<close>

definition utarray_eltptr :: "'e UT_array \<Rightarrow> nat \<Rightarrow> int option" where
  "utarray_eltptr a j = (if j < unat (arr_i a) then Some (int j) else None)"

text \<open>The destructor and the initialiser on a pointer to an element; they dereference it.\<close>

definition destroy_elt :: "'e UT_array \<Rightarrow> int option \<Rightarrow> 'e UT_array res" where
  "destroy_elt a e =
     res_bind (non_null e) (\<lambda>k.
     res_bind (block_cells (arr_d a)) (\<lambda>cs.
     res_bind (cell_at cs k) (\<lambda>x. Inr (a\<lparr>destroyed := destroyed a @ [x]\<rparr>))))"

definition store_elt :: "'e UT_array \<Rightarrow> int option \<Rightarrow> 'e \<Rightarrow> 'e UT_array res" where
  "store_elt a e x =
     res_bind (non_null e) (\<lambda>k.
     res_bind (block_cells (arr_d a)) (\<lambda>cs.
     res_bind (put_cell cs k x) (\<lambda>cs'. Inr (a\<lparr>arr_d := Block cs'\<rparr>))))"

fun destroy_each :: "'e UT_array \<Rightarrow> nat list \<Rightarrow> 'e UT_array res" where
  "destroy_each a [] = Inr a"
| "destroy_each a (k # ks) = res_bind (destroy_elt a (utarray_eltptr a k)) (\<lambda>a'. destroy_each a' ks)"

text \<open>\<^verbatim>\<open>if (icd.dtor) for (...) icd.dtor(utarray_eltptr(a, k));\<close>\<close>

definition destroy_slots :: "'e UT_array \<Rightarrow> nat list \<Rightarrow> 'e UT_array res" where
  "destroy_slots a ks = (if icd_dtor (arr_icd a) then destroy_each a ks else Inr a)"

fun init_each :: "'e \<Rightarrow> 'e UT_array \<Rightarrow> nat list \<Rightarrow> 'e UT_array res" where
  "init_each x a [] = Inr a"
| "init_each x a (k # ks) = res_bind (store_elt a (utarray_eltptr a k) x) (\<lambda>a'. init_each x a' ks)"

text \<open>\<^verbatim>\<open>memmove\<close>, \<^verbatim>\<open>memcpy\<close> and \<^verbatim>\<open>memset\<close> on whole elements of the array.\<close>

definition move_elts :: "'e UT_array \<Rightarrow> nat \<Rightarrow> nat \<Rightarrow> nat \<Rightarrow> 'e UT_array res" where
  "move_elts a dst src n =
     res_bind (block_cells (arr_d a)) (\<lambda>cs.
     if dst + n \<le> length cs \<and> src + n \<le> length cs
     then Inr (a\<lparr>arr_d := Block (take dst cs @ take n (drop src cs) @ drop (dst + n) cs)\<rparr>)
     else Inl OutOfBounds)"

definition copy_elts :: "'e UT_array \<Rightarrow> nat \<Rightarrow> 'e option list \<Rightarrow> 'e UT_array res" where
  "copy_elts a dst xs =
     res_bind (block_cells (arr_d a)) (\<lambda>cs.
     res_bind (memcpy cs (int dst) xs 0 (length xs)) (\<lambda>cs'. Inr (a\<lparr>arr_d := Block cs'\<rparr>)))"

definition utarray_done :: "'e UT_array \<Rightarrow> 'e UT_array res" where
  "utarray_done a =
     res_bind (if arr_n a \<noteq> 0
               then res_bind (destroy_slots a [0..<unat (arr_i a)]) (\<lambda>a1.
                    res_bind (free_block (arr_d a1)) (\<lambda>d. Inr (a1\<lparr>arr_d := d\<rparr>)))
               else Inr a) (\<lambda>a2.
     Inr (a2\<lparr>arr_n := 0\<rparr>))"

text \<open>\<^verbatim>\<open>utarray_free\<close> leaves nothing but what the destructor did.\<close>

definition utarray_free :: "'e UT_array \<Rightarrow> 'e list res" where
  "utarray_free a = res_bind (utarray_done a) (\<lambda>a'. Inr (destroyed a'))"

section \<open>Room\<close>

partial_function (option) grow_slots :: "u32 \<Rightarrow> u32 \<Rightarrow> u32 option" where
  "grow_slots need n = (if n < need then grow_slots need (if n \<noteq> 0 then 2 * n else 8) else Some n)"

definition utarray_reserve :: "runtime \<Rightarrow> 'e UT_array \<Rightarrow> u32 \<Rightarrow> 'e UT_array res option" where
  "utarray_reserve rt a amt =
     (if arr_n a < arr_i a + amt
      then case grow_slots (arr_i a + amt) (arr_n a) of
             None \<Rightarrow> None
           | Some n \<Rightarrow> Some (res_bind (realloc_or_exit rt (arr_d a) (unat n) (icd_sz (arr_icd a))) (\<lambda>d.
                         Inr (a\<lparr>arr_n := n, arr_d := d\<rparr>)))
      else Some (Inr a))"

text \<open>The element stored by a copy of \<open>p\<close>.\<close>

definition copied :: "'e UT_array \<Rightarrow> 'e \<Rightarrow> 'e" where
  "copied a p = (case icd_copy (arr_icd a) of Some f \<Rightarrow> f p | None \<Rightarrow> p)"

definition utarray_push_back :: "runtime \<Rightarrow> 'e UT_array \<Rightarrow> 'e \<Rightarrow> 'e UT_array res option" where
  "utarray_push_back rt a p =
     opt_res_bind (utarray_reserve rt a 1) (\<lambda>a1.
     Some (store_elt (a1\<lparr>arr_i := arr_i a1 + 1\<rparr>) (Some (int (unat (arr_i a1)))) (copied a1 p)))"

definition utarray_pop_back :: "'e UT_array \<Rightarrow> 'e UT_array res" where
  "utarray_pop_back a =
     (let a1 = a\<lparr>arr_i := arr_i a - 1\<rparr>
      in if icd_dtor (arr_icd a) then destroy_elt a1 (Some (int (unat (arr_i a1)))) else Inr a1)"

text \<open>\<open>z\<close> is the element all of whose bytes are zero.\<close>

definition utarray_extend_back :: "runtime \<Rightarrow> 'e \<Rightarrow> 'e UT_array \<Rightarrow> 'e UT_array res option" where
  "utarray_extend_back rt z a =
     opt_res_bind (utarray_reserve rt a 1) (\<lambda>a1.
     opt_res_bind (Some (store_elt a1 (Some (int (unat (arr_i a1))))
        (case icd_init (arr_icd a1) of Some x \<Rightarrow> x | None \<Rightarrow> z))) (\<lambda>a2.
     Some (Inr (a2\<lparr>arr_i := arr_i a2 + 1\<rparr>))))"

definition utarray_resize :: "runtime \<Rightarrow> 'e \<Rightarrow> 'e UT_array \<Rightarrow> u32 \<Rightarrow> 'e UT_array res option" where
  "utarray_resize rt z dst num =
     opt_res_bind
       (if num < arr_i dst
        then Some (destroy_slots dst [unat num..<unat (arr_i dst)])
        else if arr_i dst < num
        then opt_res_bind (utarray_reserve rt dst (num - arr_i dst)) (\<lambda>d1.
             Some (case icd_init (arr_icd d1) of
                 Some x \<Rightarrow> init_each x d1 [unat (arr_i d1)..<unat num]
               | None \<Rightarrow> copy_elts d1 (unat (arr_i d1)) (replicate (unat (num - arr_i d1)) (Some z))))
        else Some (Inr dst)) (\<lambda>d2.
     Some (Inr (d2\<lparr>arr_i := num\<rparr>)))"

definition utarray_insert :: "runtime \<Rightarrow> 'e \<Rightarrow> 'e UT_array \<Rightarrow> 'e \<Rightarrow> u32 \<Rightarrow> 'e UT_array res option" where
  "utarray_insert rt z a p j =
     opt_res_bind (if arr_i a < j then utarray_resize rt z a j else Some (Inr a)) (\<lambda>a1.
     opt_res_bind (utarray_reserve rt a1 1) (\<lambda>a2.
     opt_res_bind (Some (if j < arr_i a2 then move_elts a2 (unat j + 1) (unat j) (unat (arr_i a2 - j)) else Inr a2)) (\<lambda>a3.
     opt_res_bind (Some (store_elt a3 (Some (int (unat j))) (copied a3 p))) (\<lambda>a4.
     Some (Inr (a4\<lparr>arr_i := arr_i a4 + 1\<rparr>))))))"

text \<open>The elements of another array \<open>w\<close>.\<close>

definition elts_of :: "'e UT_array \<Rightarrow> 'e option list res" where
  "elts_of w = res_bind (block_cells (arr_d w)) (\<lambda>cs.
     if unat (arr_i w) \<le> length cs then Inr (take (unat (arr_i w)) cs) else Inl OutOfBounds)"

fun copy_each :: "'e UT_array \<Rightarrow> nat \<Rightarrow> 'e option list \<Rightarrow> 'e UT_array res" where
  "copy_each a j [] = Inr a"
| "copy_each a j (x # xs) =
     res_bind (determinate x) (\<lambda>p.
     res_bind (store_elt a (Some (int j)) (copied a p)) (\<lambda>a'. copy_each a' (Suc j) xs))"

definition utarray_inserta :: "runtime \<Rightarrow> 'e \<Rightarrow> 'e UT_array \<Rightarrow> 'e UT_array \<Rightarrow> u32 \<Rightarrow> 'e UT_array res option" where
  "utarray_inserta rt z a w j =
     (if utarray_len w = 0 then Some (Inr a)
      else
        opt_res_bind (if arr_i a < j then utarray_resize rt z a j else Some (Inr a)) (\<lambda>a1.
        opt_res_bind (utarray_reserve rt a1 (utarray_len w)) (\<lambda>a2.
        opt_res_bind (Some (if j < arr_i a2
             then move_elts a2 (unat (j + utarray_len w)) (unat j) (unat (arr_i a2 - j)) else Inr a2)) (\<lambda>a3.
        opt_res_bind (Some (res_bind (elts_of w) (\<lambda>xs.
             if icd_copy (arr_icd a3) \<noteq> None then copy_each a3 (unat j) xs else copy_elts a3 (unat j) xs))) (\<lambda>a4.
        Some (Inr (a4\<lparr>arr_i := arr_i a4 + utarray_len w\<rparr>)))))))"

definition utarray_concat :: "runtime \<Rightarrow> 'e \<Rightarrow> 'e UT_array \<Rightarrow> 'e UT_array \<Rightarrow> 'e UT_array res option" where
  "utarray_concat rt z dst src = utarray_inserta rt z dst src (utarray_len dst)"

definition utarray_erase :: "'e UT_array \<Rightarrow> u32 \<Rightarrow> u32 \<Rightarrow> 'e UT_array res" where
  "utarray_erase a pos len =
     res_bind (destroy_slots a [unat pos..<unat pos + unat len]) (\<lambda>a1.
     res_bind (if pos + len < arr_i a1
               then move_elts a1 (unat pos) (unat (pos + len)) (unat (arr_i a1 - (pos + len))) else Inr a1) (\<lambda>a2.
     Inr (a2\<lparr>arr_i := arr_i a2 - len\<rparr>)))"

definition utarray_clear :: "'e UT_array \<Rightarrow> 'e UT_array res" where
  "utarray_clear a =
     (if 0 < arr_i a
      then res_bind (destroy_slots a [0..<unat (arr_i a)]) (\<lambda>a1.
           Inr (a1\<lparr>arr_i := 0\<rparr>))
      else Inr a)"

definition utarray_renew :: "runtime \<Rightarrow> 'e UT_array option \<Rightarrow> 'e UT_icd \<Rightarrow> 'e UT_array res" where
  "utarray_renew rt p u = (case p of Some a \<Rightarrow> utarray_clear a | None \<Rightarrow> utarray_new rt u)"

section \<open>Walking, sorting, searching\<close>

definition utarray_front :: "'e UT_array \<Rightarrow> nat option" where
  "utarray_front a = (if arr_i a \<noteq> 0 then Some 0 else None)"

definition utarray_back :: "'e UT_array \<Rightarrow> nat option" where
  "utarray_back a = (if arr_i a \<noteq> 0 then Some (unat (arr_i a - 1)) else None)"

text \<open>\<^verbatim>\<open>utarray_eltidx\<close> of a pointer to an element is the element's index.\<close>

definition utarray_next :: "'e UT_array \<Rightarrow> nat option \<Rightarrow> nat option" where
  "utarray_next a e =
     (case e of None \<Rightarrow> utarray_front a
      | Some k \<Rightarrow> if k + 1 < unat (arr_i a) then Some (k + 1) else None)"

definition utarray_prev :: "'e UT_array \<Rightarrow> nat option \<Rightarrow> nat option" where
  "utarray_prev a e =
     (case e of None \<Rightarrow> utarray_back a
      | Some k \<Rightarrow> if k > 0 then Some (k - 1) else None)"

text \<open>
  \<^verbatim>\<open>qsort\<close> and \<^verbatim>\<open>bsearch\<close> of the C library are parameters: a permutation of the
  elements sorted by a comparison function, and the index of an element that compares equal.
\<close>

definition utarray_sort :: "(('e \<Rightarrow> 'e \<Rightarrow> int) \<Rightarrow> 'e list \<Rightarrow> 'e list) \<Rightarrow> 'e UT_array \<Rightarrow> ('e \<Rightarrow> 'e \<Rightarrow> int) \<Rightarrow> 'e UT_array res" where
  "utarray_sort qsort a cmp =
     (if arr_i a = 0 then Inr a
      else res_bind (elts_of a) (\<lambda>cs.
           res_bind (if None \<in> set cs then Inl Uninitialised else Inr (map the cs)) (\<lambda>xs.
           copy_elts a 0 (filled (qsort cmp xs)))))"

definition utarray_find :: "(('e \<Rightarrow> 'e \<Rightarrow> int) \<Rightarrow> 'e \<Rightarrow> 'e list \<Rightarrow> nat option) \<Rightarrow> 'e UT_array \<Rightarrow> 'e \<Rightarrow> ('e \<Rightarrow> 'e \<Rightarrow> int)
    \<Rightarrow> nat option res" where
  "utarray_find bsearch a v cmp =
     (if arr_i a = 0 then Inr None
      else res_bind (elts_of a) (\<lambda>cs.
           res_bind (if None \<in> set cs then Inl Uninitialised else Inr (map the cs)) (\<lambda>xs.
           Inr (bsearch cmp v xs))))"

text \<open>Arrays of strings: a string is copied, and released by its destructor.\<close>

definition utarray_str_cpy :: "byte list option \<Rightarrow> byte list option" where
  "utarray_str_cpy src = (case src of None \<Rightarrow> None | Some s \<Rightarrow> Some s)"

definition ut_str_icd :: "byte list option UT_icd" where
  "ut_str_icd = \<lparr>icd_sz = 8, icd_init = None, icd_copy = Some utarray_str_cpy, icd_dtor = True\<rparr>"

definition ut_int_icd :: "i32 UT_icd" where
  "ut_int_icd = \<lparr>icd_sz = 4, icd_init = None, icd_copy = None, icd_dtor = False\<rparr>"

definition ut_ptr_icd :: "u64 UT_icd" where
  "ut_ptr_icd = \<lparr>icd_sz = 8, icd_init = None, icd_copy = None, icd_dtor = False\<rparr>"


section \<open>What an array holds\<close>

text \<open>The size of an element is at most \<open>2\<^sup>3\<^sup>2\<close>, so that the size of the block does not wrap.\<close>

definition holds_elts :: "'e UT_array \<Rightarrow> 'e list \<Rightarrow> bool" where
  "holds_elts a xs \<longleftrightarrow> unat (arr_i a) = length xs \<and> icd_sz (arr_icd a) \<le> 2 ^ 32
     \<and> (if arr_n a = 0 then arr_d a = Null_Ptr \<and> xs = []
        else \<exists>rest. arr_d a = Block (filled xs @ rest) \<and> unat (arr_n a) = length xs + length rest)"

text \<open>The same with at least \<open>k\<close> free slots in a block.\<close>

definition roomy :: "'e UT_array \<Rightarrow> 'e list \<Rightarrow> nat \<Rightarrow> bool" where
  "roomy a xs k \<longleftrightarrow> unat (arr_i a) = length xs \<and> icd_sz (arr_icd a) \<le> 2 ^ 32
     \<and> (\<exists>rest. arr_d a = Block (filled xs @ rest) \<and> unat (arr_n a) = length xs + length rest \<and> k \<le> length rest)"

lemma elements_sized: "holds_elts a xs \<Longrightarrow> icd_sz (arr_icd a) \<le> 2 ^ 32"
  by (simp add: holds_elts_def)

lemma roomy_holds: "roomy a xs k \<Longrightarrow> 0 < k \<Longrightarrow> holds_elts a xs"
  by (auto simp: roomy_def holds_elts_def unat_eq_0)

lemma grow_slots_ok:
  assumes "unat need \<le> 2 ^ 31"
  shows "\<exists>n'. grow_slots need n = Some n' \<and> need \<le> n' \<and> n \<le> n'"
proof (induction "2 ^ 32 - unat n" arbitrary: n rule: less_induct)
  case less
  show ?case
  proof (cases "n < need")
    case False
    then show ?thesis by (subst grow_slots.simps) auto
  next
    case True
    let ?m = "if n \<noteq> 0 then 2 * n else 8"
    have n: "unat n < 2 ^ 31" using True assms by (simp add: word_less_nat_alt)
    have m: "unat ?m > unat n" 
    proof (cases "n = 0")
      case False
      then have "unat n > 0" by (simp add: unat_gt_0)
      moreover have "unat (2 * n) = 2 * unat n" using n by (simp add: unat_word_ariths)
      ultimately show ?thesis using False by simp
    qed simp
    have "unat ?m < 2 ^ 32" by (rule unat_u32_bound)
    with m have "2 ^ 32 - unat ?m < 2 ^ 32 - unat n" by simp
    from less [OF this] obtain n' where "grow_slots need ?m = Some n'" "need \<le> n'" "?m \<le> n'" by blast
    with True m show ?thesis by (subst grow_slots.simps) (auto simp: word_le_nat_alt)
  qed
qed

lemma reserve_roomy:
  assumes rt: "enough_memory rt" and a: "holds_elts a xs" and b: "length xs + unat k \<le> 2 ^ 31" "0 < k"
  shows "\<exists>a'. utarray_reserve rt a k = Some (Inr a') \<and> roomy a' xs (unat k) \<and> arr_icd a' = arr_icd a
     \<and> destroyed a' = destroyed a \<and> arr_i a' = arr_i a"
proof -
  have i: "unat (arr_i a) = length xs" and sz: "icd_sz (arr_icd a) \<le> 2 ^ 32" using a by (simp_all add: holds_elts_def)
  then have s: "unat (arr_i a + k) = length xs + unat k" using b(1) by (simp add: unat_add)
  note realloc = realloc_elements [OF rt sz]
  show ?thesis
  proof (cases "arr_n a < arr_i a + k")
    case True
    have "unat (arr_i a + k) \<le> 2 ^ 31" using s b(1) by simp
    from grow_slots_ok [OF this, of "arr_n a"] obtain n where
      n: "grow_slots (arr_i a + k) (arr_n a) = Some n" "arr_i a + k \<le> n" "arr_n a \<le> n" by blast
    have le: "length xs + unat k \<le> unat n" using n(2) s by (simp add: word_le_nat_alt)
    show ?thesis
    proof (cases "arr_n a = 0")
      case z: True
      with a have "arr_d a = Null_Ptr" "xs = []" by (auto simp: holds_elts_def)
      with True n rt i sz le show ?thesis by (auto simp: utarray_reserve_def roomy_def realloc)
    next
      case nz: False
      with a obtain rest where r: "arr_d a = Block (filled xs @ rest)" "unat (arr_n a) = length xs + length rest"
        by (auto simp: holds_elts_def)
      have "unat (arr_n a) \<le> unat n" using n(3) by (simp add: word_le_nat_alt)
      with True n rt i sz le r show ?thesis by (auto simp: utarray_reserve_def roomy_def realloc)
    qed
  next
    case False
    then have le: "length xs + unat k \<le> unat (arr_n a)" using s by (simp add: word_less_nat_alt)
    have "unat k > 0" using b(2) by (simp add: unat_gt_0 word_greater_zero_iff)
    with le have "arr_n a \<noteq> 0" by auto
    with a i le False show ?thesis by (auto simp: utarray_reserve_def roomy_def holds_elts_def)
  qed
qed

lemma store_elt_at:
  assumes "arr_d a = Block (filled xs @ c # rest)"
  shows "store_elt a (Some (int (length xs))) x = Inr (a\<lparr>arr_d := Block (filled (xs @ [x]) @ rest)\<rparr>)"
  using assms list_update_length [of "filled xs" c rest "Some x"] by (simp add: store_elt_def put_cell_def)


lemma holds_block:
  assumes "holds_elts a xs" "xs \<noteq> []"
  obtains rest where "arr_d a = Block (filled xs @ rest)" "unat (arr_n a) = length xs + length rest" "arr_n a \<noteq> 0"
  using assms by (auto simp: holds_elts_def split: if_splits)

lemma uint_length: "unat (i :: u32) = n \<Longrightarrow> uint i = int n"
  by auto

text \<open>The fields no operation on the elements touches.\<close>

definition same_array :: "'e UT_array \<Rightarrow> 'e UT_array \<Rightarrow> bool" where
  "same_array a a' \<longleftrightarrow> arr_icd a' = arr_icd a \<and> destroyed a' = destroyed a"

lemma push_back_ok:
  assumes rt: "enough_memory rt" and a: "holds_elts a xs" "length xs < 2 ^ 31"
  shows "\<exists>a'. utarray_push_back rt a p = Some (Inr a') \<and> holds_elts a' (xs @ [copied a p]) \<and> same_array a a'"
proof -
  from reserve_roomy [OF rt a(1), of 1] a(2) obtain a1 where
    a1: "utarray_reserve rt a 1 = Some (Inr a1)" "roomy a1 xs 1" "arr_icd a1 = arr_icd a" "destroyed a1 = destroyed a"
    by auto
  then obtain c rest where r: "unat (arr_i a1) = length xs" "arr_d a1 = Block (filled xs @ c # rest)"
      "unat (arr_n a1) = length xs + Suc (length rest)"
    by (auto simp: roomy_def Suc_le_length_iff)
  have "unat (arr_i a1 + 1) = Suc (length xs)" using r(1) a(2) by (simp add: unat_add)
  moreover have "arr_n a1 \<noteq> 0" using r(3) by auto
  moreover have "store_elt (a1\<lparr>arr_i := arr_i a1 + 1\<rparr>) (Some (int (length xs))) (copied a1 p)
      = Inr (a1\<lparr>arr_i := arr_i a1 + 1, arr_d := Block (filled (xs @ [copied a1 p]) @ rest)\<rparr>)"
    using r(2) by (subst store_elt_at) simp_all
  then have "utarray_push_back rt a p = Some (Inr (a1\<lparr>arr_i := arr_i a1 + 1, arr_d := Block (filled (xs @ [copied a1 p]) @ rest)\<rparr>))"
    using a1(1) uint_length [OF r(1)] by (simp add: utarray_push_back_def)
  moreover have "copied a1 p = copied a p" using a1(3) by (simp add: copied_def)
  ultimately show ?thesis using a1 r(3) elements_sized [OF a(1)] by (simp add: holds_elts_def same_array_def)
qed

lemma destroy_elt_at:
  assumes "arr_d a = Block (filled xs @ rest)" "k < length xs"
  shows "destroy_elt a (Some (int k)) = Inr (a\<lparr>destroyed := destroyed a @ [xs ! k]\<rparr>)"
  using assms by (simp add: destroy_elt_def) (simp add: cell_at_def nth_append)

lemma destroy_each_ok:
  assumes "arr_d a = Block (filled xs @ rest)" "unat (arr_i a) = length xs" "\<forall>k \<in> set ks. k < length xs"
  shows "destroy_each a ks = Inr (a\<lparr>destroyed := destroyed a @ map ((!) xs) ks\<rparr>)"
  using assms
proof (induction ks arbitrary: a)
  case (Cons k ks)
  then show ?case by (simp add: utarray_eltptr_def destroy_elt_at)
qed simp

lemma pop_back_ok:
  assumes a: "holds_elts a (xs @ [x])"
  shows "\<exists>a'. utarray_pop_back a = Inr a' \<and> holds_elts a' xs \<and> arr_icd a' = arr_icd a
     \<and> destroyed a' = destroyed a @ (if icd_dtor (arr_icd a) then [x] else [])"
proof -
  from holds_block [OF a] obtain rest where
    r: "arr_d a = Block (filled (xs @ [x]) @ rest)" "unat (arr_n a) = length (xs @ [x]) + length rest" "arr_n a \<noteq> 0" by auto
  have i: "unat (arr_i a) = Suc (length xs)" using a by (simp add: holds_elts_def)
  then have i': "unat (arr_i a - 1) = length xs" by (subst unat_sub_le) simp_all
  have d: "destroy_elt (a\<lparr>arr_i := arr_i a - 1\<rparr>) (Some (int (length xs)))
      = Inr (a\<lparr>arr_i := arr_i a - 1, destroyed := destroyed a @ [x]\<rparr>)"
    using destroy_elt_at [of "a\<lparr>arr_i := arr_i a - 1\<rparr>" "xs @ [x]" rest "length xs"] r(1) by simp
  show ?thesis
    using r i' d uint_length [OF i'] elements_sized [OF a] by (auto simp: utarray_pop_back_def Let_def holds_elts_def)
qed

text \<open>Opening a gap of \<open>k\<close> slots at index \<open>j\<close>.\<close>

lemma move_up_ok:
  assumes "roomy a xs k" "j < length xs"
  shows "\<exists>gap rest. length gap = k
     \<and> move_elts a (j + k) j (length xs - j) = Inr (a\<lparr>arr_d := Block (filled (take j xs) @ gap @ filled (drop j xs) @ rest)\<rparr>)
     \<and> unat (arr_n a) = length xs + k + length rest"
proof -
  from assms(1) obtain rest where r: "arr_d a = Block (filled xs @ rest)" "unat (arr_n a) = length xs + length rest" "k \<le> length rest"
    by (auto simp: roomy_def)
  let ?cs = "filled xs @ rest"
  let ?gap = "take k (drop j ?cs)"
  have m: "move_elts a (j + k) j (length xs - j)
      = Inr (a\<lparr>arr_d := Block (take (j + k) ?cs @ take (length xs - j) (drop j ?cs) @ drop (j + k + (length xs - j)) ?cs)\<rparr>)"
    using assms(2) r by (simp add: move_elts_def)
  have 1: "take (j + k) ?cs = filled (take j xs) @ ?gap" using assms(2) by (subst take_add) simp
  have 2: "take (length xs - j) (drop j ?cs) = filled (drop j xs)" using assms(2) by simp
  have 3: "drop (j + k + (length xs - j)) ?cs = drop k rest" using assms(2) by simp
  have "move_elts a (j + k) j (length xs - j)
      = Inr (a\<lparr>arr_d := Block (filled (take j xs) @ ?gap @ filled (drop j xs) @ drop k rest)\<rparr>)"
    unfolding m 1 2 3 append_assoc ..
  moreover have "length ?gap = k" using assms(2) r(3) by simp
  moreover have "unat (arr_n a) = length xs + k + length (drop k rest)" using r(2,3) by simp
  ultimately show ?thesis by blast
qed

text \<open>At the end of the array the gap is the free slots.\<close>

lemma gap_ok:
  assumes a: "roomy a xs k" and j: "unat j \<le> length xs" and k: "length xs + k < 2 ^ 32"
  shows "\<exists>a' gap rest. (if j < arr_i a then move_elts a (unat j + k) (unat j) (unat (arr_i a - j)) else Inr a) = Inr a'
     \<and> length gap = k \<and> arr_d a' = Block (filled (take (unat j) xs) @ gap @ filled (drop (unat j) xs) @ rest)
     \<and> unat (arr_n a') = length xs + k + length rest \<and> arr_i a' = arr_i a \<and> same_array a a'"
proof (cases "j < arr_i a")
  case True
  have i: "unat (arr_i a) = length xs" using a by (simp add: roomy_def)
  then have jl: "unat j < length xs" using True by (simp add: word_less_nat_alt)
  have s: "unat (arr_i a - j) = length xs - unat j" using i j by (simp add: unat_sub_le)
  from move_up_ok [OF a jl] obtain gap rest where "length gap = k"
    "move_elts a (unat j + k) (unat j) (length xs - unat j)
      = Inr (a\<lparr>arr_d := Block (filled (take (unat j) xs) @ gap @ filled (drop (unat j) xs) @ rest)\<rparr>)"
    "unat (arr_n a) = length xs + k + length rest" by blast
  with True s show ?thesis by (auto simp: same_array_def)
next
  case False
  have i: "unat (arr_i a) = length xs" using a by (simp add: roomy_def)
  then have jl: "unat j = length xs" using False j by (simp add: word_less_nat_alt)
  from a obtain rest where "arr_d a = Block (filled xs @ rest)" "unat (arr_n a) = length xs + length rest" "k \<le> length rest"
    by (auto simp: roomy_def)
  then show ?thesis using False jl
    by (intro exI [of _ a] exI [of _ "take k rest"] exI [of _ "drop k rest"]) (simp add: same_array_def)
qed


lemma copy_elts_ok:
  assumes "arr_d a = Block (filled ps @ gap @ rest)" "length gap = length ys"
  shows "copy_elts a (length ps) (filled ys) = Inr (a\<lparr>arr_d := Block (filled (ps @ ys) @ rest)\<rparr>)"
  using assms by (simp add: copy_elts_def memcpy_ok)

lemma copy_each_ok:
  assumes "arr_d a = Block (filled ps @ gap @ rest)" "length gap = length ys"
  shows "copy_each a (length ps) (filled ys) = Inr (a\<lparr>arr_d := Block (filled (ps @ map (copied a) ys) @ rest)\<rparr>)"
  using assms
proof (induction ys arbitrary: a ps gap)
  case Nil
  then show ?case by simp
next
  case (Cons y ys)
  then obtain c gap' where g: "gap = c # gap'" "length gap' = length ys" by (cases gap) auto
  let ?a = "a\<lparr>arr_d := Block (filled (ps @ [copied a y]) @ gap' @ rest)\<rparr>"
  have "store_elt a (Some (int (length ps))) (copied a y) = Inr ?a"
    using store_elt_at [of a ps c "gap' @ rest"] Cons.prems(1) g(1) by simp
  moreover have "copied ?a = copied a" by (simp add: copied_def fun_eq_iff)
  moreover have "copy_each ?a (length (ps @ [copied a y])) (filled ys)
      = Inr (?a\<lparr>arr_d := Block (filled ((ps @ [copied a y]) @ map (copied ?a) ys) @ rest)\<rparr>)"
    by (rule Cons.IH) (use g(2) in simp_all)
  ultimately show ?case by simp
qed

lemma elts_of_ok: "holds_elts w ys \<Longrightarrow> ys \<noteq> [] \<Longrightarrow> elts_of w = Inr (filled ys)"
  by (auto simp: elts_of_def holds_elts_def split: if_splits)

lemma inserta_ok:
  assumes rt: "enough_memory rt" and a: "holds_elts a xs" and w: "holds_elts w ys"
    and j: "unat j \<le> length xs" and b: "length xs + length ys \<le> 2 ^ 31"
  shows "\<exists>a'. utarray_inserta rt z a w j = Some (Inr a')
     \<and> holds_elts a' (take (unat j) xs @ map (copied a) ys @ drop (unat j) xs) \<and> same_array a a'"
proof (cases "ys = []")
  case True
  then have "utarray_len w = 0" using w by (simp add: holds_elts_def utarray_len_def unat_eq_0)
  then show ?thesis using a True by (simp add: utarray_inserta_def same_array_def)
next
  case False
  have l: "unat (utarray_len w) = length ys" using w by (simp add: holds_elts_def utarray_len_def)
  then have l0: "0 < utarray_len w" using False by (simp add: word_less_nat_alt)
  have i: "unat (arr_i a) = length xs" using a by (simp add: holds_elts_def)
  then have nj: "\<not> arr_i a < j" using j by (simp add: word_less_nat_alt)
  from reserve_roomy [OF rt a _ l0] b l obtain a1 where
    a1: "utarray_reserve rt a (utarray_len w) = Some (Inr a1)" "roomy a1 xs (length ys)" "arr_icd a1 = arr_icd a"
      "destroyed a1 = destroyed a" by auto
  have "length xs + length ys < 2 ^ 32" using b by simp
  from gap_ok [OF a1(2) j this] obtain a2 gap rest where
    a2: "(if j < arr_i a1 then move_elts a1 (unat j + length ys) (unat j) (unat (arr_i a1 - j)) else Inr a1) = Inr a2"
      "length gap = length ys" "arr_d a2 = Block (filled (take (unat j) xs) @ gap @ filled (drop (unat j) xs) @ rest)"
      "unat (arr_n a2) = length xs + length ys + length rest" "arr_i a2 = arr_i a1" "same_array a1 a2" by blast
  have jw: "unat (j + utarray_len w) = unat j + length ys" using l j b by (subst unat_add) simp_all
  have lt: "length (take (unat j) xs) = unat j" using j by simp
  have c: "copied a2 = copied a" using a1(3) a2(6) by (simp add: copied_def same_array_def fun_eq_iff)
  have id: "icd_copy (arr_icd a2) = None \<Longrightarrow> map (copied a2) ys = ys" by (rule map_idI) (simp add: copied_def)
  let ?a3 = "a2\<lparr>arr_d := Block (filled (take (unat j) xs @ map (copied a2) ys) @ filled (drop (unat j) xs) @ rest)\<rparr>"
  have c3: "res_bind (elts_of w) (\<lambda>xs. if icd_copy (arr_icd a2) \<noteq> None then copy_each a2 (unat j) xs else copy_elts a2 (unat j) xs) = Inr ?a3"
    using copy_elts_ok [OF a2(3,2)] copy_each_ok [OF a2(3,2)] id unfolding lt
    by (simp add: elts_of_ok [OF w False])
  have "utarray_inserta rt z a w j = Some (Inr (?a3\<lparr>arr_i := arr_i ?a3 + utarray_len w\<rparr>))"
    unfolding utarray_inserta_def
    by (simp only: word_neq_0_conv [THEN iffD2, OF l0] nj if_False opt_res_bind_simps a1(1) jw a2(1) c3)
  moreover have "unat (arr_i ?a3 + utarray_len w) = length xs + length ys"
    using a1(2) a2(5) l b by (simp add: roomy_def unat_add)
  moreover have "arr_n a2 \<noteq> 0" using a2(4) False by auto
  ultimately show ?thesis using a1 a2 j c elements_sized [OF a] by (auto simp: holds_elts_def same_array_def)
qed

lemma insert_ok:
  assumes rt: "enough_memory rt" and a: "holds_elts a xs" and j: "unat j \<le> length xs" and b: "length xs < 2 ^ 31"
  shows "\<exists>a'. utarray_insert rt z a p j = Some (Inr a')
     \<and> holds_elts a' (take (unat j) xs @ copied a p # drop (unat j) xs) \<and> same_array a a'"
proof -
  have i: "unat (arr_i a) = length xs" using a by (simp add: holds_elts_def)
  then have nj: "\<not> arr_i a < j" using j by (simp add: word_less_nat_alt)
  from reserve_roomy [OF rt a, of 1] b obtain a1 where
    a1: "utarray_reserve rt a 1 = Some (Inr a1)" "roomy a1 xs 1" "arr_icd a1 = arr_icd a"
      "destroyed a1 = destroyed a" by auto
  have "length xs + 1 < 2 ^ 32" using b by simp
  from gap_ok [OF a1(2) j this] obtain a2 gap rest where
    a2: "(if j < arr_i a1 then move_elts a1 (unat j + 1) (unat j) (unat (arr_i a1 - j)) else Inr a1) = Inr a2"
      "length gap = 1" "arr_d a2 = Block (filled (take (unat j) xs) @ gap @ filled (drop (unat j) xs) @ rest)"
      "unat (arr_n a2) = length xs + 1 + length rest" "arr_i a2 = arr_i a1" "same_array a1 a2" by blast
  from a2(2) obtain c where g: "gap = [c]" by (auto simp: length_Suc_conv)
  have u: "uint j = int (length (take (unat j) xs))" using j by (intro uint_length) simp
  have c: "copied a2 p = copied a p" using a1(3) a2(6) by (simp add: copied_def same_array_def)
  let ?a3 = "a2\<lparr>arr_d := Block (filled (take (unat j) xs @ [copied a2 p]) @ filled (drop (unat j) xs) @ rest)\<rparr>"
  have u': "int (unat j) = int (length (take (unat j) xs))" using u by simp
  have c3: "store_elt a2 (Some (int (length (take (unat j) xs)))) (copied a2 p) = Inr ?a3"
    using a2(3) g by (intro store_elt_at) simp
  have "utarray_insert rt z a p j = Some (Inr (?a3\<lparr>arr_i := arr_i ?a3 + 1\<rparr>))"
    unfolding utarray_insert_def by (simp only: nj if_False opt_res_bind_simps a1(1) a2(1) u' c3)
  moreover have "unat (arr_i ?a3 + 1) = length xs + 1"
    using a1(2) a2(5) b by (simp add: roomy_def unat_add)
  moreover have "arr_n a2 \<noteq> 0" using a2(4) by auto
  ultimately show ?thesis using a1 a2 j c elements_sized [OF a] by (auto simp: holds_elts_def same_array_def)
qed


text \<open>What the destructor is called on when the elements \<open>ds\<close> go.\<close>

definition gone :: "'e UT_array \<Rightarrow> 'e list \<Rightarrow> 'e list" where
  "gone a ds = destroyed a @ (if icd_dtor (arr_icd a) then ds else [])"

lemma destroy_range_ok:
  assumes a: "holds_elts a xs" and k: "j + k \<le> length xs"
  shows "destroy_slots a [j..<j + k]
     = Inr (a\<lparr>destroyed := gone a (take k (drop j xs))\<rparr>)"
proof (cases "k = 0 \<or> \<not> icd_dtor (arr_icd a)")
  case False
  with k have "xs \<noteq> []" by auto
  from holds_block [OF a this] obtain rest where r: "arr_d a = Block (filled xs @ rest)" by blast
  have "map ((!) xs) [j..<j + k] = take k (drop j xs)"
    using k by (intro nth_equalityI) simp_all
  with destroy_each_ok [OF r, of "[j..<j + k]"] a k False show ?thesis
    by (simp add: holds_elts_def gone_def destroy_slots_def)
qed (auto simp: gone_def destroy_slots_def)

lemma erase_ok:
  assumes a: "holds_elts a xs" and k: "unat pos + unat len \<le> length xs"
  shows "\<exists>a'. utarray_erase a pos len = Inr a' \<and> holds_elts a' (take (unat pos) xs @ drop (unat pos + unat len) xs)
     \<and> arr_icd a' = arr_icd a \<and> destroyed a' = gone a (take (unat len) (drop (unat pos) xs))"
proof -
  have i: "unat (arr_i a) = length xs" using a by (simp add: holds_elts_def)
  have b: "length xs < 2 ^ 32" using i unat_u32_bound by metis
  have s: "unat (pos + len) = unat pos + unat len" using k b by (intro unat_add) simp
  have l: "unat (arr_i a - len) = length xs - unat len" using i k by (simp add: unat_sub_le)
  let ?a1 = "a\<lparr>destroyed := gone a (take (unat len) (drop (unat pos) xs))\<rparr>"
  note d = destroy_range_ok [OF a k]
  show ?thesis
  proof (cases "pos + len < arr_i a")
    case True
    then have lt: "unat pos + unat len < length xs" using s i by (simp add: word_less_nat_alt)
    then have "xs \<noteq> []" by auto
    from holds_block [OF a this] obtain rest where
      r: "arr_d a = Block (filled xs @ rest)" "unat (arr_n a) = length xs + length rest" "arr_n a \<noteq> 0" by blast
    have n: "unat (arr_i a - (pos + len)) = length xs - (unat pos + unat len)" using i s lt by (simp add: unat_sub_le)
    let ?cs = "filled xs @ rest"
    let ?cs' = "take (unat pos) ?cs @ take (length xs - (unat pos + unat len)) (drop (unat pos + unat len) ?cs)
        @ drop (unat pos + (length xs - (unat pos + unat len))) ?cs"
    have "move_elts ?a1 (unat pos) (unat (pos + len)) (unat (arr_i a - (pos + len))) = Inr (?a1\<lparr>arr_d := Block ?cs'\<rparr>)"
      unfolding n s using r(1) lt by (simp add: move_elts_def)
    then have "utarray_erase a pos len = Inr (?a1\<lparr>arr_d := Block ?cs', arr_i := arr_i a - len\<rparr>)"
      using d True by (simp add: utarray_erase_def)
    moreover have "?cs' = filled (take (unat pos) xs @ drop (unat pos + unat len) xs)
        @ drop (unat pos + (length xs - (unat pos + unat len))) ?cs"
      using lt by simp
    moreover have "length (drop (unat pos + (length xs - (unat pos + unat len))) ?cs) = unat len + length rest" using lt by simp
    ultimately show ?thesis using r(2,3) l lt elements_sized [OF a]
      by (intro exI [of _ "?a1\<lparr>arr_d := Block ?cs', arr_i := arr_i a - len\<rparr>"])
        (simp only: holds_elts_def UT_array.simps if_False length_append length_take length_drop, auto)
  next
    case False
    then have e: "unat pos + unat len = length xs" using s i k by (simp add: word_less_nat_alt)
    have "utarray_erase a pos len = Inr (?a1\<lparr>arr_i := arr_i a - len\<rparr>)"
      using d False by (simp add: utarray_erase_def)
    moreover have "holds_elts (?a1\<lparr>arr_i := arr_i a - len\<rparr>) (take (unat pos) xs)"
    proof (cases "arr_n a = 0")
      case True
      with a l e show ?thesis by (auto simp: holds_elts_def)
    next
      case False
      with a obtain rest where "arr_d a = Block (filled xs @ rest)" "unat (arr_n a) = length xs + length rest"
        by (auto simp: holds_elts_def)
      moreover have "filled xs = filled (take (unat pos) xs) @ filled (drop (unat pos) xs)"
        by (metis append_take_drop_id filled_simps(3))
      ultimately show ?thesis using False l e elements_sized [OF a] by (auto simp: holds_elts_def)
    qed
    ultimately show ?thesis using e by simp
  qed
qed


lemma array_clear_ok:
  assumes a: "holds_elts a xs"
  shows "\<exists>a'. utarray_clear a = Inr a' \<and> holds_elts a' [] \<and> arr_icd a' = arr_icd a \<and> destroyed a' = gone a xs"
proof -
  have i: "unat (arr_i a) = length xs" using a by (simp add: holds_elts_def)
  show ?thesis
  proof (cases "xs = []")
    case True
    with a i show ?thesis by (auto simp: utarray_clear_def gone_def unat_eq_0 word_gt_0)
  next
    case False
    then have "0 < arr_i a" using i by (simp add: word_less_nat_alt)
    then have "utarray_clear a = Inr (a\<lparr>destroyed := gone a xs, arr_i := 0\<rparr>)"
      using destroy_range_ok [OF a, of 0 "length xs"] i by (simp add: utarray_clear_def)
    moreover have "holds_elts (a\<lparr>destroyed := gone a xs, arr_i := 0\<rparr>) []"
      using a False by (auto simp: holds_elts_def split: if_splits)
    ultimately show ?thesis by simp
  qed
qed

lemma done_ok:
  assumes a: "holds_elts a xs"
  shows "utarray_free a = Inr (gone a xs)"
proof (cases "arr_n a = 0")
  case True
  with a have "xs = []" by (simp add: holds_elts_def)
  with True show ?thesis by (simp add: utarray_free_def utarray_done_def gone_def)
next
  case False
  with a obtain rest where "arr_d a = Block (filled xs @ rest)" "unat (arr_i a) = length xs"
    by (auto simp: holds_elts_def)
  with destroy_range_ok [OF a, of 0 "length xs"] False show ?thesis
    by (simp add: utarray_free_def utarray_done_def)
qed

lemma resize_shrink_ok:
  assumes a: "holds_elts a xs" and n: "unat num \<le> length xs"
  shows "\<exists>a'. utarray_resize rt z a num = Some (Inr a') \<and> holds_elts a' (take (unat num) xs)
     \<and> arr_icd a' = arr_icd a \<and> destroyed a' = gone a (drop (unat num) xs)"
proof -
  have i: "unat (arr_i a) = length xs" using a by (simp add: holds_elts_def)
  show ?thesis
  proof (cases "num < arr_i a")
    case True
    then have lt: "unat num < length xs" using i by (simp add: word_less_nat_alt)
    then have ne: "xs \<noteq> []" by auto
    from holds_block [OF a ne] obtain rest where
      r: "arr_d a = Block (filled xs @ rest)" "unat (arr_n a) = length xs + length rest" "arr_n a \<noteq> 0" by blast
    have "filled xs = filled (take (unat num) xs) @ filled (drop (unat num) xs)"
      by (metis append_take_drop_id filled_simps(3))
    then have "holds_elts (a\<lparr>destroyed := gone a (drop (unat num) xs), arr_i := num\<rparr>) (take (unat num) xs)"
      using r lt elements_sized [OF a] by (auto simp: holds_elts_def)
    with True destroy_range_ok [OF a, of "unat num" "length xs - unat num"] lt i show ?thesis
      by (simp add: utarray_resize_def)
  next
    case False
    then have "num = arr_i a" using n i by (simp add: word_less_nat_alt word_unat_eq_iff)
    with a i show ?thesis by (simp add: utarray_resize_def gone_def)
  qed
qed

lemma resize_grow_ok:
  assumes rt: "enough_memory rt" and a: "holds_elts a xs" and n: "length xs < unat num" "unat num \<le> 2 ^ 31"
    and init: "icd_init (arr_icd a) = None"
  shows "\<exists>a'. utarray_resize rt z a num = Some (Inr a')
     \<and> holds_elts a' (xs @ replicate (unat num - length xs) z) \<and> same_array a a'"
proof -
  have i: "unat (arr_i a) = length xs" using a by (simp add: holds_elts_def)
  have lt: "arr_i a < num" "\<not> num < arr_i a" using n(1) i by (simp_all add: word_less_nat_alt)
  have k: "unat (num - arr_i a) = unat num - length xs" using n(1) i by (simp add: unat_sub_le)
  then have k0: "0 < num - arr_i a" using n(1) by (simp add: word_less_nat_alt)
  have "length xs + unat (num - arr_i a) \<le> 2 ^ 31" using k n by simp
  from reserve_roomy [OF rt a this k0] obtain a1 where
    a1: "utarray_reserve rt a (num - arr_i a) = Some (Inr a1)" "roomy a1 xs (unat num - length xs)" "arr_icd a1 = arr_icd a"
      "destroyed a1 = destroyed a" "arr_i a1 = arr_i a" unfolding k by blast
  from a1(2) obtain rest where r: "arr_d a1 = Block (filled xs @ rest)" "unat (arr_n a1) = length xs + length rest"
      "unat num - length xs \<le> length rest" by (auto simp: roomy_def)
  let ?k = "unat num - length xs"
  have f: "replicate ?k (Some z) = filled (replicate ?k z)" by (simp add: filled_def)
  have "arr_d a1 = Block (filled xs @ take ?k rest @ drop ?k rest)" using r(1) by simp
  then have "copy_elts a1 (length xs) (filled (replicate ?k z))
      = Inr (a1\<lparr>arr_d := Block (filled (xs @ replicate ?k z) @ drop ?k rest)\<rparr>)"
    using r(3) by (intro copy_elts_ok [where gap = "take ?k rest"]) auto
  then have "utarray_resize rt z a num
      = Some (Inr (a1\<lparr>arr_d := Block (filled (xs @ replicate ?k z) @ drop ?k rest), arr_i := num\<rparr>))"
    using lt a1 init i k by (simp add: utarray_resize_def f)
  moreover have "arr_n a1 \<noteq> 0" using r n(1) by auto
  ultimately show ?thesis using r n(1) a1 elements_sized [OF a] by (simp add: holds_elts_def same_array_def)
qed


section \<open>Operations on lists\<close>

text \<open>
  A client's operations, what they do to the list of elements and to the list of destroyed elements, and
  how they run on an array. A list operation is defined when its positions are in the array, at
  most \<open>2\<^sup>3\<^sup>1\<close> elements result, and, if there is an initialiser \<open>ini\<close>, it is not a resize
  that adds elements, which faults in every state (\<open>resize_initialises_null\<close> below).
\<close>

datatype 'e array_op =
    Push_Back 'e
  | Pop_Back
  | Extend_Back
  | Insert 'e u32
  | Insert_All "'e UT_array" "'e list" u32
  | Erase u32 u32
  | Resize u32
  | Clear

fun list_op :: "('e \<Rightarrow> 'e) \<Rightarrow> 'e \<Rightarrow> 'e option \<Rightarrow> 'e array_op \<Rightarrow> 'e list \<Rightarrow> ('e list \<times> 'e list) option" where
  "list_op cp z ini (Push_Back p) xs = (if length xs < 2 ^ 31 then Some (xs @ [cp p], []) else None)"
| "list_op cp z ini Pop_Back xs = (if xs = [] then None else Some (butlast xs, [last xs]))"
| "list_op cp z ini Extend_Back xs = (if length xs < 2 ^ 31 then Some (xs @ [case ini of Some x \<Rightarrow> x | None \<Rightarrow> z], []) else None)"
| "list_op cp z ini (Insert p j) xs =
     (if unat j \<le> length xs \<and> length xs < 2 ^ 31 then Some (take (unat j) xs @ cp p # drop (unat j) xs, []) else None)"
| "list_op cp z ini (Insert_All w ys j) xs =
     (if unat j \<le> length xs \<and> length xs + length ys \<le> 2 ^ 31
      then Some (take (unat j) xs @ map cp ys @ drop (unat j) xs, []) else None)"
| "list_op cp z ini (Erase pos len) xs =
     (if unat pos + unat len \<le> length xs
      then Some (take (unat pos) xs @ drop (unat pos + unat len) xs, take (unat len) (drop (unat pos) xs)) else None)"
| "list_op cp z ini (Resize num) xs =
     (if unat num \<le> 2 ^ 31 \<and> (ini = None \<or> unat num \<le> length xs)
      then Some (take (unat num) xs @ replicate (unat num - length xs) z, drop (unat num) xs) else None)"
| "list_op cp z ini Clear xs = Some ([], xs)"

fun run_op :: "runtime \<Rightarrow> 'e \<Rightarrow> 'e array_op \<Rightarrow> 'e UT_array \<Rightarrow> 'e UT_array res option" where
  "run_op rt z (Push_Back p) a = utarray_push_back rt a p"
| "run_op rt z Pop_Back a = Some (utarray_pop_back a)"
| "run_op rt z Extend_Back a = utarray_extend_back rt z a"
| "run_op rt z (Insert p j) a = utarray_insert rt z a p j"
| "run_op rt z (Insert_All w ys j) a = utarray_inserta rt z a w j"
| "run_op rt z (Erase pos len) a = Some (utarray_erase a pos len)"
| "run_op rt z (Resize num) a = utarray_resize rt z a num"
| "run_op rt z Clear a = Some (utarray_clear a)"

text \<open>The array argument of an operation holds the elements it says.\<close>

fun op_ok :: "'e array_op \<Rightarrow> bool" where
  "op_ok (Insert_All w ys j) = holds_elts w ys"
| "op_ok _ = True"

lemma extend_back_ok:
  assumes rt: "enough_memory rt" and a: "holds_elts a xs" "length xs < 2 ^ 31"
  shows "\<exists>a'. utarray_extend_back rt z a = Some (Inr a')
     \<and> holds_elts a' (xs @ [case icd_init (arr_icd a) of Some x \<Rightarrow> x | None \<Rightarrow> z]) \<and> same_array a a'"
proof -
  let ?z = "case icd_init (arr_icd a) of Some x \<Rightarrow> x | None \<Rightarrow> z"
  from reserve_roomy [OF rt a(1), of 1] a(2) obtain a1 where
    a1: "utarray_reserve rt a 1 = Some (Inr a1)" "roomy a1 xs 1" "arr_icd a1 = arr_icd a" "destroyed a1 = destroyed a"
    by auto
  then obtain c rest where r: "unat (arr_i a1) = length xs" "arr_d a1 = Block (filled xs @ c # rest)"
      "unat (arr_n a1) = length xs + Suc (length rest)"
    by (auto simp: roomy_def Suc_le_length_iff)
  have i: "unat (arr_i a1 + 1) = Suc (length xs)" using r(1) a(2) by (simp add: unat_add)
  have n: "arr_n a1 \<noteq> 0" using r(3) by auto
  have "store_elt a1 (Some (int (length xs))) ?z = Inr (a1\<lparr>arr_d := Block (filled (xs @ [?z]) @ rest)\<rparr>)"
    using r(2) by (rule store_elt_at)
  then have "utarray_extend_back rt z a = Some (Inr (a1\<lparr>arr_d := Block (filled (xs @ [?z]) @ rest), arr_i := arr_i a1 + 1\<rparr>))"
    using a1(1,3) uint_length [OF r(1)] by (simp add: utarray_extend_back_def)
  then show ?thesis using a1 r(3) i n elements_sized [OF a(1)] by (simp add: holds_elts_def same_array_def)
qed

lemma run_op_step:
  assumes rt: "enough_memory rt" and a: "holds_elts a xs"
    and p: "op_ok p" "list_op (copied a) z (icd_init (arr_icd a)) p xs = Some (ys, ds)"
  shows "\<exists>a'. run_op rt z p a = Some (Inr a') \<and> holds_elts a' ys \<and> arr_icd a' = arr_icd a \<and> destroyed a' = gone a ds"
proof (cases p)
  case (Push_Back x)
  with p a push_back_ok [OF rt a, of x] show ?thesis by (auto simp: same_array_def gone_def split: if_splits)
next
  case Pop_Back
  with p have "xs \<noteq> []" by (auto split: if_splits)
  with a have "holds_elts a (butlast xs @ [last xs])" by simp
  from pop_back_ok [OF this] p Pop_Back \<open>xs \<noteq> []\<close> show ?thesis by (auto simp: gone_def)
next
  case Extend_Back
  with p a extend_back_ok [OF rt a, of z] show ?thesis by (auto simp: same_array_def gone_def split: if_splits)
next
  case (Insert x j)
  with p a insert_ok [OF rt a, of j z x] show ?thesis by (auto simp: same_array_def gone_def split: if_splits)
next
  case (Insert_All w us j)
  with p have c: "holds_elts w us" "unat j \<le> length xs" "length xs + length us \<le> 2 ^ 31" by (auto split: if_splits)
  from inserta_ok [OF rt a c, of z] p Insert_All show ?thesis by (auto simp: same_array_def gone_def split: if_splits)
next
  case (Erase pos len)
  with p erase_ok [OF a, of pos len] show ?thesis by (auto split: if_splits)
next
  case (Resize num)
  show ?thesis
  proof (cases "unat num \<le> length xs")
    case True
    with p Resize resize_shrink_ok [OF a, of num rt z] show ?thesis by (auto split: if_splits)
  next
    case False
    with p Resize resize_grow_ok [OF rt a, of num z] show ?thesis
      by (auto simp: same_array_def gone_def split: if_splits)
  qed
next
  case Clear
  with p array_clear_ok [OF a] show ?thesis by auto
qed

fun run_list :: "('e \<Rightarrow> 'e) \<Rightarrow> 'e \<Rightarrow> 'e option \<Rightarrow> 'e array_op list \<Rightarrow> 'e list \<Rightarrow> ('e list \<times> 'e list) option" where
  "run_list cp z ini [] xs = Some (xs, [])"
| "run_list cp z ini (p # ps) xs =
     Option.bind (list_op cp z ini p xs) (\<lambda>(ys, ds). map_option (apsnd ((@) ds)) (run_list cp z ini ps ys))"

fun run_array :: "runtime \<Rightarrow> 'e \<Rightarrow> 'e array_op list \<Rightarrow> 'e UT_array \<Rightarrow> 'e UT_array res option" where
  "run_array rt z [] a = Some (Inr a)"
| "run_array rt z (p # ps) a = opt_res_bind (run_op rt z p a) (run_array rt z ps)"

lemma run_array_ok:
  assumes rt: "enough_memory rt"
  shows "holds_elts a xs \<Longrightarrow> list_all op_ok ps \<Longrightarrow> run_list (copied a) z (icd_init (arr_icd a)) ps xs = Some (ys, ds) \<Longrightarrow>
     \<exists>a'. run_array rt z ps a = Some (Inr a') \<and> holds_elts a' ys \<and> arr_icd a' = arr_icd a \<and> destroyed a' = gone a ds"
proof (induction ps arbitrary: a xs ds)
  case Nil
  then show ?case by (simp add: gone_def)
next
  case (Cons p ps)
  from Cons.prems(3) obtain us d1 d2 where
    l: "list_op (copied a) z (icd_init (arr_icd a)) p xs = Some (us, d1)" "run_list (copied a) z (icd_init (arr_icd a)) ps us = Some (ys, d2)" "ds = d1 @ d2"
    by (auto simp: bind_eq_Some_conv)
  from Cons.prems(2) have o: "op_ok p" "list_all op_ok ps" by simp_all
  from run_op_step [OF rt Cons.prems(1) o(1) l(1)] obtain a1 where
    a1: "run_op rt z p a = Some (Inr a1)" "holds_elts a1 us" "arr_icd a1 = arr_icd a" "destroyed a1 = gone a d1" by blast
  have "copied a1 = copied a" using a1(3) by (simp add: copied_def fun_eq_iff)
  with Cons.IH [OF a1(2) o(2), of d2] a1 l show ?case by (auto simp: gone_def)
qed

section \<open>Properties\<close>

text \<open>C26: whatever operations a client runs on a new array, with positions inside it, at most
  \<open>2\<^sup>3\<^sup>1\<close> elements of at most \<open>2\<^sup>3\<^sup>2\<close> bytes each, and no growing resize when the
  array has an initialiser (that one always faults), the array holds the
  elements the same operations leave in a list, no operation leaves the block, and the destructor
  has been called once on each element that was removed, in order, and when the array is freed on each
  that is left. The element an extension adds is the initialiser's, or else zero.\<close>

theorem utarray_implements_lists:
  assumes "enough_memory rt" "icd_sz icd \<le> 2 ^ 32" "list_all op_ok ps"
    and "run_list (case icd_copy icd of Some f \<Rightarrow> f | None \<Rightarrow> id) z (icd_init icd) ps [] = Some (xs, ds)"
  shows "\<exists>a. opt_res_bind (Some (utarray_new rt icd)) (run_array rt z ps) = Some (Inr a) \<and> holds_elts a xs
     \<and> destroyed a = (if icd_dtor icd then ds else [])
     \<and> utarray_free a = Inr (if icd_dtor icd then ds @ xs else [])"
proof -
  let ?a = "utarray_init icd"
  have h: "holds_elts ?a []" "arr_icd ?a = icd" "destroyed ?a = []" using assms(2) by (simp_all add: utarray_init_def holds_elts_def)
  have c: "copied ?a = (case icd_copy icd of Some f \<Rightarrow> f | None \<Rightarrow> id)"
    by (auto simp: copied_def h fun_eq_iff split: option.splits)
  have l: "run_list (copied ?a) z (icd_init (arr_icd ?a)) ps [] = Some (xs, ds)" using assms(4) by (simp only: c h(2))
  from run_array_ok [OF assms(1) h(1) assms(3) l] h obtain a where
    a: "run_array rt z ps ?a = Some (Inr a)" "holds_elts a xs" "arr_icd a = icd" "destroyed a = (if icd_dtor icd then ds else [])"
    by (auto simp: gone_def)
  moreover have "utarray_free a = Inr (if icd_dtor icd then ds @ xs else [])"
    using done_ok [OF a(2)] a(3,4) by (simp add: gone_def)
  moreover have "utarray_new rt icd = Inr ?a" using assms(1) by (simp add: utarray_new_def enough_memory_def)
  ultimately show ?thesis by simp
qed

text \<open>An array with an initialiser and a destructor.\<close>

definition init_icd :: "u32 UT_icd" where
  "init_icd = \<lparr>icd_sz = 4, icd_init = Some 7, icd_copy = None, icd_dtor = True\<rparr>"

lemma utarray_implements_lists_witness:
  "(\<exists>a. opt_res_bind (Some (utarray_new good_runtime ut_str_icd))
       (run_array good_runtime None [Push_Back (Some [65]), Insert (Some [66]) 0, Pop_Back]) = Some (Inr a)
     \<and> utarray_free a = Inr [Some [65], Some [66]])
   \<and> (\<exists>a. opt_res_bind (Some (utarray_new good_runtime init_icd))
       (run_array good_runtime 0 [Extend_Back, Push_Back 5, Resize 1]) = Some (Inr a)
     \<and> utarray_free a = Inr [5, 7])"
proof
  show "\<exists>a. opt_res_bind (Some (utarray_new good_runtime ut_str_icd))
       (run_array good_runtime None [Push_Back (Some [65]), Insert (Some [66]) 0, Pop_Back]) = Some (Inr a)
     \<and> utarray_free a = Inr [Some [65], Some [66]]"
    using utarray_implements_lists [OF enough_memory_good, of ut_str_icd
        "[Push_Back (Some [65]), Insert (Some [66]) 0, Pop_Back]" None]
    by (auto simp: ut_str_icd_def utarray_str_cpy_def)
  show "\<exists>a. opt_res_bind (Some (utarray_new good_runtime init_icd))
       (run_array good_runtime 0 [Extend_Back, Push_Back 5, Resize 1]) = Some (Inr a)
     \<and> utarray_free a = Inr [5, 7]"
    using utarray_implements_lists [OF enough_memory_good, of init_icd "[Extend_Back, Push_Back 5, Resize 1]" 0]
    by (auto simp: init_icd_def)
qed

lemma unat_power_u32: "k \<le> 31 \<Longrightarrow> unat (2 ^ k :: u32) = 2 ^ k"
proof -
  assume "k \<le> 31"
  then have "(2 :: nat) ^ k < 2 ^ 32" by (intro power_strict_increasing) simp_all
  then have "unat (word_of_nat (2 ^ k) :: u32) = 2 ^ k" by (rule unat_u32_of_nat)
  then show ?thesis by simp
qed

definition never_enough :: "u32 \<Rightarrow> u32 \<Rightarrow> bool" where
  "never_enough need n \<longleftrightarrow> 2 ^ 31 < unat need \<and> (n = 0 \<or> (\<exists>k \<le> 31. n = 2 ^ k))"

lemma never_enough_step: "never_enough need n \<Longrightarrow> n < need \<and> never_enough need (if n \<noteq> 0 then 2 * n else 8)"
proof -
  assume "never_enough need n"
  then have need: "2 ^ 31 < unat need" and pow: "n = 0 \<or> (\<exists>k \<le> 31. n = 2 ^ k)" by (simp_all add: never_enough_def)
  have n: "unat n \<le> 2 ^ 31"
    using pow
  proof (elim disjE exE conjE)
    fix k :: nat assume k: "k \<le> 31" "n = 2 ^ k"
    then have "(2 :: nat) ^ k \<le> 2 ^ 31" by (intro power_increasing) simp_all
    with k show ?thesis by (simp only: unat_power_u32)
  qed simp
  with need have lt: "n < need" by (simp add: word_less_nat_alt)
  let ?m = "if n \<noteq> 0 then 2 * n else 8"
  have "?m = 0 \<or> (\<exists>k \<le> 31. ?m = 2 ^ k)"
  proof (cases "n = 0")
    case True
    then show ?thesis by (intro disjI2 exI [of _ 3]) simp
  next
    case False
    with pow obtain k where k: "k \<le> 31" "n = 2 ^ k" by blast
    show ?thesis
    proof (cases "k = 31")
      case False
      with k \<open>n \<noteq> 0\<close> show ?thesis by (intro disjI2 exI [of _ "Suc k"]) simp
    qed (use k \<open>n \<noteq> 0\<close> in simp)
  qed
  with need lt show ?thesis unfolding never_enough_def by blast
qed

lemma grow_slots_stuck: "grow_slots need n = Some r \<Longrightarrow> \<not> never_enough need n"
proof (rule grow_slots.raw_induct [where P = "\<lambda>need n _. \<not> never_enough need n"], goal_cases)
  case (1 grow need n r)
  show ?case
  proof
    assume "never_enough need n"
    from never_enough_step [OF this] have n: "n < need" "never_enough need (if n \<noteq> 0 then 2 * n else 8)" by simp_all
    then have "grow need (if n \<noteq> 0 then 2 * n else 8) = Some r" using 1(3) by simp
    from 1(2) [OF this] n(2) show False by simp
  qed
qed

text \<open>C29: the loop that looks for room ends exactly when at most \<open>2\<^sup>3\<^sup>1\<close> slots are needed; above,
  doubling wraps to 0 and starts again for ever.\<close>

theorem reserve_returns_iff:
  assumes "n = 0 \<or> (\<exists>k \<le> 31. n = 2 ^ k)"
  shows "grow_slots need n \<noteq> None \<longleftrightarrow> unat need \<le> 2 ^ 31"
  using grow_slots_ok [of need n] grow_slots_stuck [of need n] assms by (fastforce simp: never_enough_def)

lemma reserve_returns_iff_witness: "grow_slots 0x80000001 8 = None \<and> grow_slots 0x80000000 8 \<noteq> None"
  using reserve_returns_iff [of 8 "0x80000001"] reserve_returns_iff [of 8 "0x80000000"] exI [of "\<lambda>k. k \<le> 31 \<and> (8 :: u32) = 2 ^ k" 3]
  by simp

text \<open>Growing an array that has an initialiser calls it with a null pointer, because the
  elements to initialise are not yet counted.\<close>

theorem resize_initialises_null:
  assumes rt: "enough_memory rt" and a: "holds_elts a xs" and n: "length xs < unat num" "unat num \<le> 2 ^ 31"
    and init: "icd_init (arr_icd a) = Some x"
  shows "utarray_resize rt z a num = Some (Inl NullDereference)"
proof -
  have i: "unat (arr_i a) = length xs" using a by (simp add: holds_elts_def)
  have lt: "arr_i a < num" "\<not> num < arr_i a" using n(1) i by (simp_all add: word_less_nat_alt)
  have k: "unat (num - arr_i a) = unat num - length xs" using n(1) i by (simp add: unat_sub_le)
  then have k0: "0 < num - arr_i a" using n(1) by (simp add: word_less_nat_alt)
  have "length xs + unat (num - arr_i a) \<le> 2 ^ 31" using k n by simp
  from reserve_roomy [OF rt a this k0] obtain a1 where
    a1: "utarray_reserve rt a (num - arr_i a) = Some (Inr a1)" "arr_icd a1 = arr_icd a" "arr_i a1 = arr_i a" by blast
  have "[unat (arr_i a1)..<unat num] = unat (arr_i a1) # [Suc (unat (arr_i a1))..<unat num]"
    using n(1) i a1(3) by (intro upt_conv_Cons) simp
  then show ?thesis using lt a1 init by (simp add: utarray_resize_def utarray_eltptr_def store_elt_def)
qed

lemma resize_initialises_null_witness:
  "utarray_resize good_runtime 0 (utarray_init \<lparr>icd_sz = 4, icd_init = Some (7 :: u32), icd_copy = None, icd_dtor = False\<rparr>) 1
     = Some (Inl NullDereference)"
  by (rule resize_initialises_null [OF enough_memory_good, where xs = "[]" and x = "7 :: u32"])
    (simp_all add: utarray_init_def holds_elts_def)

end
