(* ===== verification/Utlist_Double.thy ===== *)
theory Utlist_Double
  imports Blocks Utlist
begin

text \<open>
  The doubly linked and circular list macros of \<^verbatim>\<open>utlist.h\<close>, and the singly linked
  ones that EDSM does not use. A state has the \<^verbatim>\<open>next\<close> and \<^verbatim>\<open>prev\<close> fields of
  all nodes and the head pointer of one list. Arguments that a macro asserts to be non-null are
  optional addresses; the others are addresses. The macros of the three kinds of list meet one contract,
  the locale \<open>linked_list\<close>, from which sequences of calls and deletion during a traversal are proved once.
\<close>

section \<open>State\<close>

record 'p list_state =
  s_next :: "'p links"
  s_prev :: "'p links"
  s_list :: "'p option"

definition put_next :: "'p \<Rightarrow> 'p option \<Rightarrow> 'p list_state \<Rightarrow> 'p list_state" where
  "put_next a v s = s\<lparr>s_next := (s_next s)(a := v)\<rparr>"

definition put_prev :: "'p \<Rightarrow> 'p option \<Rightarrow> 'p list_state \<Rightarrow> 'p list_state" where
  "put_prev a v s = s\<lparr>s_prev := (s_prev s)(a := v)\<rparr>"

text \<open>\<^verbatim>\<open>assert(head != NULL); assert(el != NULL); assert(add != NULL);\<close>\<close>

definition asserts :: "'p list_state \<Rightarrow> 'p option \<Rightarrow> 'p option \<Rightarrow> ('p \<times> 'p \<times> 'p) res" where
  "asserts s el add = (case (s_list s, el, add) of
     (Some h, Some e, Some a) \<Rightarrow> Inr (h, e, a) | _ \<Rightarrow> Inl AssertionFailed)"

section \<open>Singly linked lists\<close>

definition LL_CONCAT :: "'p list_state \<Rightarrow> 'p option \<Rightarrow> 'p list_state option" where
  "LL_CONCAT s head2 =
     (case s_list s of
        None \<Rightarrow> Some (s\<lparr>s_list := head2\<rparr>)
      | Some h \<Rightarrow> map_option (\<lambda>tmp. put_next tmp head2 s) (ll_tail (s_next s) h))"

text \<open>\<^verbatim>\<open>while ((add)->next->next) { (add)->next = (add)->next->next; }\<close>\<close>

partial_function (option) vs_tail :: "'p links \<Rightarrow> 'p \<Rightarrow> 'p links res option" where
  "vs_tail nx add =
     opt_res_bind (Some (non_null (nx add))) (\<lambda>a.
     case nx a of None \<Rightarrow> Some (Inr nx) | Some b \<Rightarrow> vs_tail (nx(add := Some b)) add)"

definition LL_APPEND_VS2008 :: "'p links \<Rightarrow> 'p option \<Rightarrow> 'p \<Rightarrow> ('p links \<times> 'p option) res option" where
  "LL_APPEND_VS2008 nx head add =
     (case head of
        Some h \<Rightarrow>
          opt_res_bind (vs_tail (nx(add := head)) add) (\<lambda>nx1.
          opt_res_bind (Some (non_null (nx1 add))) (\<lambda>t.
          Some (Inr (nx1(t := Some add, add := None), head))))
      | None \<Rightarrow> Some (Inr (nx(add := None), Some add)))"

text \<open>\<^verbatim>\<open>while ((head)->next && ((head)->next != (del))) { head = (head)->next; }\<close>\<close>

partial_function (option) vs_before :: "'p links \<Rightarrow> 'p \<Rightarrow> 'p option \<Rightarrow> 'p option res option" where
  "vs_before nx del head =
     opt_res_bind (Some (non_null head)) (\<lambda>h.
     if nx h \<noteq> None \<and> nx h \<noteq> Some del then vs_before nx del (nx h) else Some (Inr head))"

definition LL_DELETE_VS2008 :: "'p links \<Rightarrow> 'p option \<Rightarrow> 'p \<Rightarrow> ('p links \<times> 'p option) res option" where
  "LL_DELETE_VS2008 nx head del =
     (if head = Some del then Some (Inr (nx, nx del))
      else let tmp = head in
        opt_res_bind (vs_before nx del head) (\<lambda>head1.
        opt_res_bind (Some (non_null head1)) (\<lambda>h.
        Some (Inr (if nx h \<noteq> None then nx(h := nx del) else nx, tmp)))))"

definition LL_SEARCH :: "'p links \<Rightarrow> ('p \<Rightarrow> 'e \<Rightarrow> int) \<Rightarrow> 'e \<Rightarrow> 'p option \<Rightarrow> 'p option option" where
  "LL_SEARCH nx cmp elt head = LL_SEARCH_SCALAR nx (\<lambda>p. cmp p elt = 0) head"

text \<open>What the two macros on elements do after \<^verbatim>\<open>add\<close> has its \<^verbatim>\<open>next\<close>.\<close>

definition LL_REPLACE_ELEM :: "'p list_state \<Rightarrow> 'p option \<Rightarrow> 'p option \<Rightarrow> 'p list_state res option" where
  "LL_REPLACE_ELEM s el add =
     opt_res_bind (Some (asserts s el add)) (\<lambda>(h, e, a).
     let s1 = put_next a (s_next s e) s
     in if h = e then Some (Inr (s1\<lparr>s_list := Some a\<rparr>))
        else map_option (\<lambda>tmp. Inr (if s_next s1 tmp \<noteq> None then put_next tmp (Some a) s1 else s1))
               (ll_before (s_next s1) e h))"

definition LL_PREPEND_ELEM :: "'p list_state \<Rightarrow> 'p option \<Rightarrow> 'p option \<Rightarrow> 'p list_state res option" where
  "LL_PREPEND_ELEM s el add =
     opt_res_bind (Some (asserts s el add)) (\<lambda>(h, e, a).
     let s1 = put_next a (Some e) s
     in if h = e then Some (Inr (s1\<lparr>s_list := Some a\<rparr>))
        else map_option (\<lambda>tmp. Inr (if s_next s1 tmp \<noteq> None then put_next tmp (Some a) s1 else s1))
               (ll_before (s_next s1) e h))"

section \<open>Doubly linked lists\<close>

definition DL_PREPEND :: "'p list_state \<Rightarrow> 'p \<Rightarrow> 'p list_state" where
  "DL_PREPEND s add =
     (let s1 = put_next add (s_list s) s;
          s2 = (case s_list s1 of
                  Some h \<Rightarrow> put_prev h (Some add) (put_prev add (s_prev s1 h) s1)
                | None \<Rightarrow> put_prev add (Some add) s1)
      in s2\<lparr>s_list := Some add\<rparr>)"

definition DL_APPEND :: "'p list_state \<Rightarrow> 'p \<Rightarrow> 'p list_state res" where
  "DL_APPEND s add =
     (case s_list s of
        Some h \<Rightarrow>
          (let s1 = put_prev add (s_prev s h) s
           in res_bind (non_null (s_prev s1 h)) (\<lambda>l.
              Inr (put_next add None (put_prev h (Some add) (put_next l (Some add) s1)))))
      | None \<Rightarrow> Inr (put_next add None (put_prev add (Some add) (s\<lparr>s_list := Some add\<rparr>))))"

definition DL_CONCAT :: "'p list_state \<Rightarrow> 'p option \<Rightarrow> 'p list_state res" where
  "DL_CONCAT s head2 =
     (case head2 of
        None \<Rightarrow> Inr s
      | Some h2 \<Rightarrow>
          (case s_list s of
             None \<Rightarrow> Inr (s\<lparr>s_list := head2\<rparr>)
           | Some h1 \<Rightarrow>
               (let tmp = s_prev s h2; s1 = put_prev h2 (s_prev s h1) s
                in res_bind (non_null (s_prev s1 h1)) (\<lambda>l.
                   Inr (put_prev h1 tmp (put_next l head2 s1))))))"

definition DL_DELETE :: "'p list_state \<Rightarrow> 'p \<Rightarrow> 'p list_state res" where
  "DL_DELETE s del =
     res_bind (check AssertionFailed (s_prev s del \<noteq> None)) (\<lambda>_.
     if s_prev s del = Some del then Inr (s\<lparr>s_list := None\<rparr>)
     else if s_list s = Some del then
       res_bind (non_null (s_next s del)) (\<lambda>n.
       let s1 = put_prev n (s_prev s del) s in Inr (s1\<lparr>s_list := s_next s1 del\<rparr>))
     else
       res_bind (non_null (s_prev s del)) (\<lambda>p.
       let s1 = put_next p (s_next s del) s
       in case s_next s1 del of
            Some n \<Rightarrow> Inr (put_prev n (s_prev s1 del) s1)
          | None \<Rightarrow> res_bind (non_null (s_list s1)) (\<lambda>h. Inr (put_prev h (s_prev s1 del) s1))))"

definition DL_REPLACE_ELEM :: "'p list_state \<Rightarrow> 'p option \<Rightarrow> 'p option \<Rightarrow> 'p list_state res" where
  "DL_REPLACE_ELEM s el add =
     res_bind (asserts s el add) (\<lambda>(h, e, a).
     if h = e then
       (let s1 = put_next a (s_next s e) (s\<lparr>s_list := Some a\<rparr>)
        in if s_next s1 e = None then Inr (put_prev a (Some a) s1)
           else (let s2 = put_prev a (s_prev s1 e) s1
                 in res_bind (non_null (s_next s2 a)) (\<lambda>n. Inr (put_prev n (Some a) s2))))
     else
       (let s1 = put_next a (s_next s e) s; s2 = put_prev a (s_prev s1 e) s1
        in res_bind (non_null (s_prev s2 a)) (\<lambda>p.
           let s3 = put_next p (Some a) s2
           in if s_next s3 e = None then Inr (put_prev h (Some a) s3)
              else res_bind (non_null (s_next s3 a)) (\<lambda>n. Inr (put_prev n (Some a) s3)))))"

definition DL_PREPEND_ELEM :: "'p list_state \<Rightarrow> 'p option \<Rightarrow> 'p option \<Rightarrow> 'p list_state res" where
  "DL_PREPEND_ELEM s el add =
     res_bind (asserts s el add) (\<lambda>(h, e, a).
     let s1 = put_next a (Some e) s;
         s2 = put_prev a (s_prev s1 e) s1;
         s3 = put_prev e (Some a) s2
     in if h = e then Inr (s3\<lparr>s_list := Some a\<rparr>)
        else res_bind (non_null (s_prev s3 a)) (\<lambda>p. Inr (put_next p (Some a) s3)))"

section \<open>Circular lists\<close>

definition CDL_PREPEND :: "'p list_state \<Rightarrow> 'p \<Rightarrow> 'p list_state res" where
  "CDL_PREPEND s add =
     (case s_list s of
        Some h \<Rightarrow>
          (let s1 = put_prev add (s_prev s h) s;
               s2 = put_next add (Some h) s1;
               s3 = put_prev h (Some add) s2
           in res_bind (non_null (s_prev s3 add)) (\<lambda>p.
              Inr ((put_next p (Some add) s3)\<lparr>s_list := Some add\<rparr>)))
      | None \<Rightarrow> Inr ((put_next add (Some add) (put_prev add (Some add) s))\<lparr>s_list := Some add\<rparr>))"

definition CDL_DELETE :: "'p list_state \<Rightarrow> 'p \<Rightarrow> 'p list_state res" where
  "CDL_DELETE s del =
     (if s_list s = Some del \<and> s_next s del = s_list s then Inr (s\<lparr>s_list := None\<rparr>)
      else
        res_bind (non_null (s_next s del)) (\<lambda>n.
        let s1 = put_prev n (s_prev s del) s
        in res_bind (non_null (s_prev s1 del)) (\<lambda>p.
           let s2 = put_next p (s_next s1 del) s1
           in Inr (if s_list s2 = Some del then s2\<lparr>s_list := s_next s2 del\<rparr> else s2))))"

definition CDL_REPLACE_ELEM :: "'p list_state \<Rightarrow> 'p option \<Rightarrow> 'p option \<Rightarrow> 'p list_state res" where
  "CDL_REPLACE_ELEM s el add =
     res_bind (asserts s el add) (\<lambda>(h, e, a).
     if s_next s e = Some e then
       Inr ((put_prev a (Some a) (put_next a (Some a) s))\<lparr>s_list := Some a\<rparr>)
     else
       (let s1 = put_next a (s_next s e) s; s2 = put_prev a (s_prev s1 e) s1
        in res_bind (non_null (s_next s2 a)) (\<lambda>n.
           let s3 = put_prev n (Some a) s2
           in res_bind (non_null (s_prev s3 a)) (\<lambda>p.
              let s4 = put_next p (Some a) s3
              in Inr (if h = e then s4\<lparr>s_list := Some a\<rparr> else s4)))))"

definition CDL_PREPEND_ELEM :: "'p list_state \<Rightarrow> 'p option \<Rightarrow> 'p option \<Rightarrow> 'p list_state res" where
  "CDL_PREPEND_ELEM s el add =
     res_bind (asserts s el add) (\<lambda>(h, e, a).
     let s1 = put_next a (Some e) s;
         s2 = put_prev a (s_prev s1 e) s1;
         s3 = put_prev e (Some a) s2
     in res_bind (non_null (s_prev s3 a)) (\<lambda>p.
        let s4 = put_next p (Some a) s3
        in Inr (if h = e then s4\<lparr>s_list := Some a\<rparr> else s4)))"

definition DL_FOREACH :: "'p links \<Rightarrow> 'p option \<Rightarrow> 'p list option" where
  "DL_FOREACH nx head = LL_FOREACH nx head"

definition DL_COUNT :: "'p links \<Rightarrow> 'p option \<Rightarrow> nat option" where
  "DL_COUNT nx head = LL_COUNT nx head"

text \<open>Traversals of a circular list take the node before the head for the last one.\<close>

definition round_to :: "'p option \<Rightarrow> 'p links \<Rightarrow> 'p \<Rightarrow> 'p option" where
  "round_to oldhead nx a = (if nx a = oldhead then None else nx a)"

definition CDL_FOREACH :: "'p links \<Rightarrow> 'p option \<Rightarrow> 'p list option" where
  "CDL_FOREACH nx head = LL_FOREACH (round_to head nx) head"

definition CDL_COUNT :: "'p links \<Rightarrow> 'p option \<Rightarrow> nat option" where
  "CDL_COUNT nx head = LL_COUNT (round_to head nx) head"

definition CDL_SEARCH_SCALAR :: "'p links \<Rightarrow> ('p \<Rightarrow> bool) \<Rightarrow> 'p option \<Rightarrow> 'p option option" where
  "CDL_SEARCH_SCALAR nx hit head = LL_SEARCH_SCALAR (round_to head nx) hit head"

text \<open>
  The traversals that are safe for deletion read \<^verbatim>\<open>next\<close> before the body runs. The
  circular one stops after the node \<open>tmp1\<close>, the last one when it starts. Besides the list, the body works on
  variables of its own, of type \<open>'c\<close>.
\<close>

partial_function (option) foreach_safe ::
    "'p option \<Rightarrow> ('p \<Rightarrow> 'p list_state \<times> 'c \<Rightarrow> ('p list_state \<times> 'c) res option) \<Rightarrow> 'p list_state \<times> 'c \<Rightarrow> 'p option
       \<Rightarrow> ('p list_state \<times> 'c) res option" where
  "foreach_safe tmp1 body s el =
     (case el of
        None \<Rightarrow> Some (Inr s)
      | Some p \<Rightarrow>
          (let tmp2 = s_next (fst s) p
           in opt_res_bind (body p s) (\<lambda>s'. foreach_safe tmp1 body s' (if Some p = tmp1 then None else tmp2))))"

declare vs_tail.simps [simp del] vs_before.simps [simp del] foreach_safe.simps [simp del]

definition DL_FOREACH_SAFE ::
    "('p \<Rightarrow> 'p list_state \<times> 'c \<Rightarrow> ('p list_state \<times> 'c) res option) \<Rightarrow> 'p list_state \<times> 'c
       \<Rightarrow> ('p list_state \<times> 'c) res option" where
  "DL_FOREACH_SAFE body s = foreach_safe None body s (s_list (fst s))"

definition CDL_FOREACH_SAFE ::
    "('p \<Rightarrow> 'p list_state \<times> 'c \<Rightarrow> ('p list_state \<times> 'c) res option) \<Rightarrow> 'p list_state \<times> 'c
       \<Rightarrow> ('p list_state \<times> 'c) res option" where
  "CDL_FOREACH_SAFE body s =
     (let tmp1 = (case s_list (fst s) of Some h \<Rightarrow> s_prev (fst s) h | None \<Rightarrow> None)
      in foreach_safe tmp1 body s (s_list (fst s)))"


section \<open>The shapes of the lists\<close>

text \<open>Following \<open>f\<close> from \<open>p\<close> visits \<open>xs\<close> and stops in front of \<open>r\<close>.\<close>

fun walk :: "('p \<Rightarrow> 'p option) \<Rightarrow> 'p option \<Rightarrow> 'p list \<Rightarrow> 'p option \<Rightarrow> bool" where
  "walk f p [] r = (p = r)"
| "walk f p (x # xs) r = (p = Some x \<and> walk f (f x) xs r)"

lemma walk_append: "walk f p (xs @ ys) r \<longleftrightarrow> (\<exists>m. walk f p xs m \<and> walk f m ys r)"
  by (induction xs arbitrary: p) auto

lemma walk_mid [simp]: "walk f p (xs @ y # ys) r \<longleftrightarrow> walk f p xs (Some y) \<and> walk f (f y) ys r"
  by (induction xs arbitrary: p) auto

lemma walk_cong: "walk f p xs r \<Longrightarrow> (\<And>a. a \<in> set xs \<Longrightarrow> g a = f a) \<Longrightarrow> walk g p xs r"
  by (induction xs arbitrary: p) auto

lemma walk_upd [simp]: "a \<notin> set xs \<Longrightarrow> walk (f(a := v)) p xs r = walk f p xs r"
  by (induction xs arbitrary: p) auto

lemma chain_walk: "chain nx p xs = walk nx p xs None"
  by (induction nx p xs rule: chain.induct) auto

text \<open>
  The first node's \<^verbatim>\<open>prev\<close> is the last node; the last node's \<^verbatim>\<open>next\<close> is null, or the
  first node in a circular list.
\<close>

definition dl_nodes :: "bool \<Rightarrow> 'p links \<Rightarrow> 'p links \<Rightarrow> 'p option \<Rightarrow> 'p list \<Rightarrow> bool" where
  "dl_nodes circular nx pv head xs \<longleftrightarrow>
     (if xs = [] then head = None
      else head = Some (hd xs) \<and> distinct xs
        \<and> successively (\<lambda>a b. nx a = Some b) xs \<and> nx (last xs) = (if circular then Some (hd xs) else None)
        \<and> successively (\<lambda>a b. pv b = Some a) xs \<and> pv (hd xs) = Some (last xs))"

lemma walk_iff: "xs \<noteq> [] \<Longrightarrow> walk f p xs r \<longleftrightarrow>
    p = Some (hd xs) \<and> successively (\<lambda>a b. f a = Some b) xs \<and> f (last xs) = r"
proof (induction xs arbitrary: p)
  case (Cons x xs)
  then show ?case by (cases xs) auto
qed simp

lemma walk_rev_iff: "xs \<noteq> [] \<Longrightarrow> walk f (Some (last xs)) (rev xs) r \<longleftrightarrow>
    successively (\<lambda>a b. f b = Some a) xs \<and> f (hd xs) = r"
  by (simp add: walk_iff hd_rev last_rev successively_rev)

lemma dl_nodes_walk:
  "xs \<noteq> [] \<Longrightarrow> dl_nodes c nx pv head xs \<longleftrightarrow> distinct xs \<and> walk nx head xs (if c then head else None)
     \<and> walk pv (Some (last xs)) (rev xs) (Some (last xs))"
  by (subst walk_rev_iff, simp, subst walk_iff, simp) (auto simp: dl_nodes_def)

lemma dl_nodes_Nil [simp]: "dl_nodes c nx pv head [] \<longleftrightarrow> head = None"
  by (simp add: dl_nodes_def)

lemma dl_nodes_head: "dl_nodes c nx pv head xs \<Longrightarrow> head = (if xs = [] then None else Some (hd xs))"
  by (simp add: dl_nodes_def split: if_splits)

lemma dl_nodes_distinct: "dl_nodes c nx pv head xs \<Longrightarrow> distinct xs"
  by (cases "xs = []") (simp_all add: dl_nodes_def)

lemma dl_nodes_next: "dl_nodes c nx pv head (us @ p # q # vs) \<Longrightarrow> nx p = Some q"
  by (simp add: dl_nodes_walk)

lemma dl_nodes_last: "dl_nodes c nx pv head (us @ [p]) \<Longrightarrow> nx p = (if c then head else None) \<and> (\<forall>h. head = Some h \<longrightarrow> pv h = Some p)"
  by (auto simp: dl_nodes_def)

text \<open>The fields of the nodes outside a set are as before.\<close>

definition frame :: "'p set \<Rightarrow> ('p, 'a) list_state_scheme \<Rightarrow> ('p, 'a) list_state_scheme \<Rightarrow> bool" where
  "frame A s s' \<longleftrightarrow> (\<forall>a. a \<notin> A \<longrightarrow> s_next s' a = s_next s a \<and> s_prev s' a = s_prev s a)"

lemma frame_refl [simp]: "frame A s s" by (simp add: frame_def)

lemma frame_trans: "frame A s s' \<Longrightarrow> frame B s' s'' \<Longrightarrow> A \<subseteq> C \<Longrightarrow> B \<subseteq> C \<Longrightarrow> frame C s s''"
  unfolding frame_def by (metis subsetD)

abbreviation double :: "bool \<Rightarrow> 'p list_state \<Rightarrow> 'p list \<Rightarrow> bool" where
  "double c s xs \<equiv> dl_nodes c (s_next s) (s_prev s) (s_list s) xs"

lemma list_ends [case_names Nil single ends]:
  "(xs = [] \<Longrightarrow> P) \<Longrightarrow> (\<And>x. xs = [x] \<Longrightarrow> P) \<Longrightarrow> (\<And>x ys y. xs = x # ys @ [y] \<Longrightarrow> P) \<Longrightarrow> P"
  by (cases xs; cases "tl xs" rule: rev_cases) auto

lemmas double_simps = dl_nodes_walk put_next_def put_prev_def frame_def asserts_def

section \<open>The macros on doubly linked lists\<close>

lemma DL_PREPEND_ok:
  assumes "double False s xs" "a \<notin> set xs"
  shows "double False (DL_PREPEND s a) (a # xs) \<and> frame (insert a (set xs)) s (DL_PREPEND s a)"
  using assms by (cases xs rule: list_ends) (auto simp: DL_PREPEND_def double_simps)

lemma DL_APPEND_ok:
  assumes "double False s xs" "a \<notin> set xs"
  shows "\<exists>s'. DL_APPEND s a = Inr s' \<and> double False s' (xs @ [a]) \<and> frame (insert a (set xs)) s s'"
  using assms by (cases xs rule: list_ends) (auto simp: DL_APPEND_def double_simps)

lemma DL_DELETE_ok:
  assumes "double False s (us @ e # vs)"
  shows "\<exists>s'. DL_DELETE s e = Inr s' \<and> double False s' (us @ vs) \<and> frame (set (us @ e # vs)) s s'"
  using assms by (cases us rule: list_ends; cases vs rule: list_ends) (auto simp: DL_DELETE_def double_simps)

lemma DL_REPLACE_ELEM_ok:
  assumes "double False s (us @ e # vs)" "a \<notin> set (us @ e # vs)"
  shows "\<exists>s'. DL_REPLACE_ELEM s (Some e) (Some a) = Inr s' \<and> double False s' (us @ a # vs)
    \<and> frame (insert a (set (us @ e # vs))) s s'"
  using assms by (cases us rule: list_ends; cases vs rule: list_ends) (auto simp: DL_REPLACE_ELEM_def double_simps)


lemma DL_PREPEND_ELEM_ok:
  assumes "double False s (us @ e # vs)" "a \<notin> set (us @ e # vs)"
  shows "\<exists>s'. DL_PREPEND_ELEM s (Some e) (Some a) = Inr s' \<and> double False s' (us @ a # e # vs)
    \<and> frame (insert a (set (us @ e # vs))) s s'"
  using assms by (cases us rule: list_ends; cases vs rule: list_ends) (auto simp: DL_PREPEND_ELEM_def double_simps)

lemma DL_CONCAT_ok:
  assumes "double False s xs" "dl_nodes False (s_next s) (s_prev s) head2 ys" "set xs \<inter> set ys = {}"
  shows "\<exists>s'. DL_CONCAT s head2 = Inr s' \<and> double False s' (xs @ ys) \<and> frame (set xs \<union> set ys) s s'"
  using assms by (cases xs rule: list_ends; cases ys rule: list_ends) (auto simp: DL_CONCAT_def double_simps)

section \<open>The macros on circular lists\<close>

lemma CDL_PREPEND_ok:
  assumes "double True s xs" "a \<notin> set xs"
  shows "\<exists>s'. CDL_PREPEND s a = Inr s' \<and> double True s' (a # xs) \<and> frame (insert a (set xs)) s s'"
  using assms by (cases xs rule: list_ends) (auto simp: CDL_PREPEND_def double_simps)

lemma CDL_DELETE_ok:
  assumes "double True s (us @ e # vs)"
  shows "\<exists>s'. CDL_DELETE s e = Inr s' \<and> double True s' (us @ vs) \<and> frame (set (us @ e # vs)) s s'"
  using assms by (cases us rule: list_ends; cases vs rule: list_ends) (auto simp: CDL_DELETE_def double_simps)

lemma CDL_REPLACE_ELEM_ok:
  assumes "double True s (us @ e # vs)" "a \<notin> set (us @ e # vs)"
  shows "\<exists>s'. CDL_REPLACE_ELEM s (Some e) (Some a) = Inr s' \<and> double True s' (us @ a # vs)
    \<and> frame (insert a (set (us @ e # vs))) s s'"
  using assms by (cases us rule: list_ends; cases vs rule: list_ends) (auto simp: CDL_REPLACE_ELEM_def double_simps)

lemma CDL_PREPEND_ELEM_ok:
  assumes "double True s (us @ e # vs)" "a \<notin> set (us @ e # vs)"
  shows "\<exists>s'. CDL_PREPEND_ELEM s (Some e) (Some a) = Inr s' \<and> double True s' (us @ a # e # vs)
    \<and> frame (insert a (set (us @ e # vs))) s s'"
  using assms by (cases us rule: list_ends; cases vs rule: list_ends) (auto simp: CDL_PREPEND_ELEM_def double_simps)

lemma walk_round:
  "walk nx p xs (Some h) \<Longrightarrow> distinct xs \<Longrightarrow> xs \<noteq> [] \<Longrightarrow> h \<notin> set (tl xs) \<Longrightarrow> walk (round_to (Some h) nx) p xs None"
proof (induction xs arbitrary: p)
  case (Cons x xs)
  then show ?case by (cases xs) (auto simp: round_to_def)
qed simp

lemma circular_chain: "dl_nodes True nx pv head xs \<Longrightarrow> chain (round_to head nx) head xs"
proof (cases "xs = []")
  case False
  assume "dl_nodes True nx pv head xs"
  with False have w: "walk nx head xs head" "distinct xs" "head = Some (hd xs)" by (auto simp: dl_nodes_walk walk_iff)
  from w(2) False have "hd xs \<notin> set (tl xs)" by (cases xs) auto
  with w False walk_round [of nx head xs "hd xs"] show ?thesis by (simp add: chain_walk)
qed simp

section \<open>The macros on singly linked lists\<close>

abbreviation single :: "'p list_state \<Rightarrow> 'p list \<Rightarrow> bool" where
  "single s xs \<equiv> chain (s_next s) (s_list s) xs"

lemma ll_before_eq: "chain nx (Some h) (h # us @ e # vs) \<Longrightarrow> ll_before nx e h = Some (last (h # us))"
proof (induction us arbitrary: h)
  case Nil
  then show ?case by (subst ll_before.simps) simp
next
  case (Cons u us)
  have "u \<noteq> e" using chain_distinct [OF Cons.prems] by auto
  with Cons show ?case by (subst ll_before.simps) simp
qed

lemmas single_simps = chain_walk put_next_def put_prev_def frame_def asserts_def

lemma LL_CONCAT_ok:
  assumes "single s xs" "chain (s_next s) head2 ys" "set xs \<inter> set ys = {}"
  shows "\<exists>s'. LL_CONCAT s head2 = Some s' \<and> single s' (xs @ ys) \<and> frame (set xs) s s'"
proof (cases xs)
  case Nil
  with assms show ?thesis by (simp add: LL_CONCAT_def frame_def)
next
  case (Cons h us)
  with assms(1) have t: "ll_tail (s_next s) h = Some (last xs)" by (intro ll_tail_chain [THEN trans]) auto
  show ?thesis
    using assms t Cons chain_distinct [OF assms(1)]
    by (cases us rule: rev_cases) (auto simp: LL_CONCAT_def single_simps walk_append)
qed

lemma LL_ELEM_ok:
  assumes s: "single s (us @ e # vs)" and a: "a \<notin> set (us @ e # vs)"
  shows "\<exists>s'. LL_REPLACE_ELEM s (Some e) (Some a) = Some (Inr s') \<and> single s' (us @ a # vs)
      \<and> frame (insert a (set (us @ e # vs))) s s'"
    "\<exists>s'. LL_PREPEND_ELEM s (Some e) (Some a) = Some (Inr s') \<and> single s' (us @ a # e # vs)
      \<and> frame (insert a (set (us @ e # vs))) s s'"
proof -
  have b: "ll_before ((s_next s)(a := v)) e h = Some (last us)" if "us \<noteq> []" "h = hd us" for h v
  proof -
    have "chain ((s_next s)(a := v)) (Some h) (h # tl us @ e # vs)"
      using s a that by (cases us) auto
    then show ?thesis using ll_before_eq that by fastforce
  qed
  show "\<exists>s'. LL_REPLACE_ELEM s (Some e) (Some a) = Some (Inr s') \<and> single s' (us @ a # vs)
      \<and> frame (insert a (set (us @ e # vs))) s s'"
    using s a b chain_distinct [OF s]
    by (cases us rule: list_ends) (auto simp: LL_REPLACE_ELEM_def single_simps)
  show "\<exists>s'. LL_PREPEND_ELEM s (Some e) (Some a) = Some (Inr s') \<and> single s' (us @ a # e # vs)
      \<and> frame (insert a (set (us @ e # vs))) s s'"
    using s a b chain_distinct [OF s]
    by (cases us rule: list_ends) (auto simp: LL_PREPEND_ELEM_def single_simps)
qed

text \<open>The replacements for compilers without \<^verbatim>\<open>decltype\<close> compute the same.\<close>

lemma vs_tail_ok: "chain nx (Some h) (h # ps) \<Longrightarrow> a \<notin> set (h # ps) \<Longrightarrow>
   vs_tail (nx(a := Some h)) a = Some (Inr (nx(a := Some (last (h # ps)))))"
proof (induction ps arbitrary: h)
  case (Cons p ps)
  have "chain nx (Some p) (p # ps)" using Cons.prems(1) by simp
  note ih = Cons.IH [OF this]
  have "a \<noteq> h" "nx h = Some p" using Cons.prems by auto
  then have "vs_tail (nx(a := Some h)) a = vs_tail (nx(a := Some p)) a"
    by (subst vs_tail.simps) simp
  also have "\<dots> = Some (Inr (nx(a := Some (last (p # ps)))))" using Cons.prems(2) by (intro ih) simp
  finally show ?case by (simp only: last.simps list.simps if_False)
qed (subst vs_tail.simps, simp)

lemma vs2008_append: 
  assumes "chain nx head ps" "a \<notin> set ps"
  shows "LL_APPEND_VS2008 nx head a = map_option Inr (LL_APPEND nx head a)"
proof (cases ps)
  case Nil
  with assms show ?thesis by (simp add: LL_APPEND_VS2008_def LL_APPEND_def)
next
  case (Cons h qs)
  with assms have h: "head = Some h" "chain nx (Some h) (h # qs)" "a \<notin> set (h # qs)" by auto
  then have "chain (nx(a := None)) (Some h) (h # qs)" by (subst chain_upd)
  note t = ll_tail_chain [OF this] vs_tail_ok [OF h(2,3)]
  have "last (h # qs) \<noteq> a" using h(3) by (metis last_in_set list.distinct(1))
  then have "nx(last (h # qs) := Some a, a := None) = nx(a := None, last (h # qs) := Some a)"
    by (rule fun_upd_twist)
  with t h(1) show ?thesis by (simp del: last.simps add: LL_APPEND_VS2008_def LL_APPEND_def)
qed

lemma vs_before_ok: "chain nx (Some h) (h # ps) \<Longrightarrow> vs_before nx del (Some h) = map_option (\<lambda>b. Inr (Some b)) (ll_before nx del h)"
proof (induction ps arbitrary: h)
  case (Cons p ps)
  have "chain nx (Some p) (p # ps)" using Cons.prems(1) by simp
  from Cons.IH [OF this] Cons.prems show ?case by (subst vs_before.simps, subst ll_before.simps) auto
qed (subst vs_before.simps, subst ll_before.simps, auto)

lemma vs2008_delete:
  assumes "chain nx head ps"
  shows "LL_DELETE_VS2008 nx head del = LL_DELETE nx head del"
proof (cases ps)
  case Nil
  with assms show ?thesis by (simp add: LL_DELETE_VS2008_def LL_DELETE_def vs_before.simps)
next
  case (Cons h qs)
  with assms have h: "head = Some h" "chain nx (Some h) (h # qs)" by auto
  with vs_before_ok [OF h(2), of del] show ?thesis
    by (cases "ll_before nx del h") (auto simp: LL_DELETE_VS2008_def LL_DELETE_def split: option.splits)
qed


section \<open>What a linked list promises\<close>

text \<open>The macros of one kind of list, as operations on states.\<close>

record 'p list_macros =
  m_prepend :: "'p list_state \<Rightarrow> 'p \<Rightarrow> 'p list_state res option"
  m_delete :: "'p list_state \<Rightarrow> 'p \<Rightarrow> 'p list_state res option"
  m_replace :: "'p list_state \<Rightarrow> 'p option \<Rightarrow> 'p option \<Rightarrow> 'p list_state res option"
  m_insert :: "'p list_state \<Rightarrow> 'p option \<Rightarrow> 'p option \<Rightarrow> 'p list_state res option"

definition on_links :: "'p list_state \<Rightarrow> 'p links \<times> 'p option \<Rightarrow> 'p list_state" where
  "on_links s r = s\<lparr>s_next := fst r, s_list := snd r\<rparr>"

definition ll_macros :: "'p list_macros" where
  "ll_macros = \<lparr>
     m_prepend = (\<lambda>s a. Some (Inr (on_links s (LL_PREPEND (s_next s) (s_list s) a)))),
     m_delete = (\<lambda>s e. map_option (map_sum id (on_links s)) (LL_DELETE (s_next s) (s_list s) e)),
     m_replace = LL_REPLACE_ELEM, m_insert = LL_PREPEND_ELEM\<rparr>"

definition dl_macros :: "'p list_macros" where
  "dl_macros = \<lparr>
     m_prepend = (\<lambda>s a. Some (Inr (DL_PREPEND s a))), m_delete = (\<lambda>s e. Some (DL_DELETE s e)),
     m_replace = (\<lambda>s e a. Some (DL_REPLACE_ELEM s e a)), m_insert = (\<lambda>s e a. Some (DL_PREPEND_ELEM s e a))\<rparr>"

definition cdl_macros :: "'p list_macros" where
  "cdl_macros = \<lparr>
     m_prepend = (\<lambda>s a. Some (CDL_PREPEND s a)), m_delete = (\<lambda>s e. Some (CDL_DELETE s e)),
     m_replace = (\<lambda>s e a. Some (CDL_REPLACE_ELEM s e a)), m_insert = (\<lambda>s e a. Some (CDL_PREPEND_ELEM s e a))\<rparr>"

datatype 'p list_call = Prepend 'p | Delete 'p | Replace 'p 'p | Insert_Before 'p 'p

fun do_call :: "'p list_macros \<Rightarrow> 'p list_call \<Rightarrow> 'p list_state \<Rightarrow> 'p list_state res option" where
  "do_call M (Prepend a) s = m_prepend M s a"
| "do_call M (Delete e) s = m_delete M s e"
| "do_call M (Replace e a) s = m_replace M s (Some e) (Some a)"
| "do_call M (Insert_Before e a) s = m_insert M s (Some e) (Some a)"

fun do_calls :: "'p list_macros \<Rightarrow> 'p list_call list \<Rightarrow> 'p list_state \<Rightarrow> 'p list_state res option" where
  "do_calls M [] s = Some (Inr s)"
| "do_calls M (c # cs) s = opt_res_bind (do_call M c s) (do_calls M cs)"

text \<open>The same calls on lists of nodes: a new node must not be in the list, and an old one must.\<close>

fun call_nodes :: "'p list_call \<Rightarrow> 'p list \<Rightarrow> 'p list option" where
  "call_nodes (Prepend a) xs = (if a \<in> set xs then None else Some (a # xs))"
| "call_nodes (Delete e) xs = (if e \<in> set xs then Some (remove1 e xs) else None)"
| "call_nodes (Replace e a) xs =
     (if e \<in> set xs \<and> a \<notin> set xs then Some (map (\<lambda>x. if x = e then a else x) xs) else None)"
| "call_nodes (Insert_Before e a) xs =
     (if e \<in> set xs \<and> a \<notin> set xs then Some (takeWhile (\<lambda>x. x \<noteq> e) xs @ a # dropWhile (\<lambda>x. x \<noteq> e) xs) else None)"

fun calls_nodes :: "'p list_call list \<Rightarrow> 'p list \<Rightarrow> 'p list option" where
  "calls_nodes [] xs = Some xs"
| "calls_nodes (c # cs) xs = Option.bind (call_nodes c xs) (calls_nodes cs)"

text \<open>A body that deletes the nodes that satisfy a test, and keeps a log of the nodes it is run on.\<close>

definition delete_where ::
    "'p list_macros \<Rightarrow> ('p \<Rightarrow> bool) \<Rightarrow> 'p \<Rightarrow> 'p list_state \<times> 'p list \<Rightarrow> ('p list_state \<times> 'p list) res option" where
  "delete_where M hit p s =
     opt_res_bind (if hit p then m_delete M (fst s) p else Some (Inr (fst s))) (\<lambda>s'. Some (Inr (s', snd s @ [p])))"

locale linked_list =
  fixes shape :: "'p list_state \<Rightarrow> 'p list \<Rightarrow> bool"
    and macros :: "'p list_macros"
    and final :: "'p list_state \<Rightarrow> 'p option"
  assumes shape_head: "shape s xs \<Longrightarrow> s_list s = (if xs = [] then None else Some (hd xs))"
    and shape_distinct: "shape s xs \<Longrightarrow> distinct xs"
    and shape_next: "shape s (us @ p # q # vs) \<Longrightarrow> s_next s p = Some q"
    and final_last: "shape s0 (us @ [p]) \<Longrightarrow> shape s (vs @ [p]) \<Longrightarrow> Some p = final s0 \<or> s_next s p = None"
    and final_other: "shape s (us @ p # q # vs) \<Longrightarrow> Some p \<noteq> final s"
    and prepend_ok: "shape s xs \<Longrightarrow> a \<notin> set xs \<Longrightarrow>
      \<exists>s'. m_prepend macros s a = Some (Inr s') \<and> shape s' (a # xs)"
    and delete_ok: "shape s (us @ e # vs) \<Longrightarrow>
      \<exists>s'. m_delete macros s e = Some (Inr s') \<and> shape s' (us @ vs)"
    and replace_ok: "shape s (us @ e # vs) \<Longrightarrow> a \<notin> set (us @ e # vs) \<Longrightarrow>
      \<exists>s'. m_replace macros s (Some e) (Some a) = Some (Inr s') \<and> shape s' (us @ a # vs)"
    and insert_ok: "shape s (us @ e # vs) \<Longrightarrow> a \<notin> set (us @ e # vs) \<Longrightarrow>
      \<exists>s'. m_insert macros s (Some e) (Some a) = Some (Inr s') \<and> shape s' (us @ a # e # vs)"
begin

lemma call_ok:
  assumes "shape s xs" "call_nodes c xs = Some ys"
  shows "\<exists>s'. do_call macros c s = Some (Inr s') \<and> shape s' ys"
proof -
  have split: "\<exists>us vs. xs = us @ e # vs \<and> e \<notin> set us \<and> e \<notin> set vs" if "e \<in> set xs" for e
    using split_list_first [OF that] shape_distinct [OF assms(1)] by fastforce
  show ?thesis
  proof (cases c)
    case (Prepend a)
    with assms prepend_ok show ?thesis by (auto split: if_splits)
  next
    case (Delete e)
    with assms split [of e] obtain us vs where "xs = us @ e # vs" "e \<notin> set us" "ys = us @ vs"
      by (auto split: if_splits simp: remove1_append)
    with Delete assms delete_ok show ?thesis by auto
  next
    case (Replace e a)
    with assms split [of e] obtain us vs where x: "xs = us @ e # vs" "e \<notin> set us" "e \<notin> set vs" "a \<notin> set xs"
      "ys = map (\<lambda>x. if x = e then a else x) xs" by (auto split: if_splits)
    then have "map (\<lambda>x. if x = e then a else x) us = us" "map (\<lambda>x. if x = e then a else x) vs = vs"
      by (auto intro!: map_idI)
    with x have "ys = us @ a # vs" by simp
    with Replace x assms(1) replace_ok show ?thesis by auto
  next
    case (Insert_Before e a)
    with assms split [of e] obtain us vs where x: "xs = us @ e # vs" "e \<notin> set us" "a \<notin> set xs"
      "ys = takeWhile (\<lambda>x. x \<noteq> e) xs @ a # dropWhile (\<lambda>x. x \<noteq> e) xs" by (auto split: if_splits)
    then have "takeWhile (\<lambda>x. x \<noteq> e) us = us" "dropWhile (\<lambda>x. x \<noteq> e) us = []" by auto
    with x have y: "ys = us @ a # e # vs" by (simp add: takeWhile_append2 dropWhile_append2)
    have "shape s (us @ e # vs)" "a \<notin> set (us @ e # vs)" using assms(1) x by simp_all
    from insert_ok [OF this] show ?thesis using Insert_Before y by simp
  qed
qed

lemma calls_ok:
  "shape s xs \<Longrightarrow> calls_nodes cs xs = Some ys \<Longrightarrow> \<exists>s'. do_calls macros cs s = Some (Inr s') \<and> shape s' ys"
proof (induction cs arbitrary: s xs)
  case (Cons c cs)
  then obtain zs where z: "call_nodes c xs = Some zs" "calls_nodes cs zs = Some ys" by (auto simp: bind_eq_Some_conv)
  with call_ok [OF Cons.prems(1)] obtain s1 where "do_call macros c s = Some (Inr s1)" "shape s1 zs" by blast
  with Cons.IH z(2) show ?case by auto
qed simp

lemma safe_delete_from:
  assumes "shape s0 (pre @ rest)"
  shows "shape s (kept @ rest) \<Longrightarrow>
    \<exists>s'. foreach_safe (final s0) (delete_where macros hit) (s, seen) (if rest = [] then None else Some (hd rest))
        = Some (Inr (s', seen @ rest))
      \<and> shape s' (kept @ filter (\<lambda>p. \<not> hit p) rest)"
  using assms
proof (induction rest arbitrary: s seen kept pre)
  case Nil
  then show ?case by (simp add: foreach_safe.simps)
next
  case (Cons p r)
  let ?kept = "if hit p then kept else kept @ [p]"
  have "\<exists>s1. delete_where macros hit p (s, seen) = Some (Inr (s1, seen @ [p])) \<and> shape s1 (?kept @ r)"
    using Cons.prems(1) delete_ok [of s kept p r] by (auto simp: delete_where_def)
  then obtain s1 where s1: "delete_where macros hit p (s, seen) = Some (Inr (s1, seen @ [p]))" "shape s1 (?kept @ r)" by blast
  have n: "(if Some p = final s0 then None else s_next s p) = (if r = [] then None else Some (hd r))"
  proof (cases r)
    case Nil
    with Cons.prems final_last [of s0 pre p s kept] show ?thesis by auto
  next
    case (Cons q r')
    with Cons.prems final_other [of s0 pre p q r'] shape_next [of s kept p q r'] show ?thesis by auto
  qed
  have "foreach_safe (final s0) (delete_where macros hit) (s, seen) (Some p)
      = foreach_safe (final s0) (delete_where macros hit) (s1, seen @ [p]) (if r = [] then None else Some (hd r))"
    using s1(1) n by (subst foreach_safe.simps) (simp add: Let_def)
  moreover have "shape s0 ((pre @ [p]) @ r)" using Cons.prems(2) by simp
  ultimately show ?case using Cons.IH [OF s1(2), of "pre @ [p]" "seen @ [p]"] by (cases "hit p") auto
qed

text \<open>Deleting the nodes that satisfy a test while traversing the list runs on every node once, in order, and leaves the
  others, in order.\<close>

lemma safe_delete:
  "shape s xs \<Longrightarrow> \<exists>s'. foreach_safe (final s) (delete_where macros hit) (s, []) (s_list s) = Some (Inr (s', xs))
     \<and> shape s' (filter (\<lambda>p. \<not> hit p) xs)"
  using safe_delete_from [of s "[]" xs s "[]" hit "[]"] shape_head [of s xs] by simp

end

interpretation ll_list: linked_list single ll_macros "\<lambda>_. None"
proof unfold_locales
  fix s :: "'a list_state" and us vs e
  assume s: "single s (us @ e # vs)"
  with ll_delete_refines [OF s, of e] chain_distinct [OF s] show
    "\<exists>s'. m_delete ll_macros s e = Some (Inr s') \<and> single s' (us @ vs)"
    by (auto simp: ll_macros_def on_links_def remove1_append)
next
  fix s :: "'a list_state" and us vs e a
  assume "single s (us @ e # vs)" "a \<notin> set (us @ e # vs)"
  note l = LL_ELEM_ok [OF this]
  from l(1) show "\<exists>s'. m_replace ll_macros s (Some e) (Some a) = Some (Inr s') \<and> single s' (us @ a # vs)"
    by (auto simp: ll_macros_def)
  from l(2) show "\<exists>s'. m_insert ll_macros s (Some e) (Some a) = Some (Inr s') \<and> single s' (us @ a # e # vs)"
    by (auto simp: ll_macros_def)
next
  fix s :: "'a list_state" and xs
  show "single s xs \<Longrightarrow> s_list s = (if xs = [] then None else Some (hd xs))" by (cases xs) auto
next
  fix s :: "'a list_state" and xs a
  assume "single s xs" "a \<notin> set xs"
  with LL_PREPEND_chain [of "s_next s" "s_list s" xs a] show
    "\<exists>s'. m_prepend ll_macros s a = Some (Inr s') \<and> single s' (a # xs)"
    by (auto simp: ll_macros_def on_links_def split: prod.splits)
qed (auto simp: chain_walk dest: chain_distinct [unfolded chain_walk])

interpretation dl_list: linked_list "double False" dl_macros "\<lambda>_. None"
proof unfold_locales
  fix s :: "'a list_state" and us vs e
  show "double False s (us @ e # vs) \<Longrightarrow> \<exists>s'. m_delete dl_macros s e = Some (Inr s') \<and> double False s' (us @ vs)"
    using DL_DELETE_ok [of s us e vs] by (auto simp: dl_macros_def)
next
  fix s :: "'a list_state" and us vs e a
  assume a: "double False s (us @ e # vs)" "a \<notin> set (us @ e # vs)"
  show "\<exists>s'. m_replace dl_macros s (Some e) (Some a) = Some (Inr s') \<and> double False s' (us @ a # vs)"
    using DL_REPLACE_ELEM_ok [OF a] by (auto simp: dl_macros_def)
  show "\<exists>s'. m_insert dl_macros s (Some e) (Some a) = Some (Inr s') \<and> double False s' (us @ a # e # vs)"
    using DL_PREPEND_ELEM_ok [OF a] by (auto simp: dl_macros_def)
next
  fix s :: "'a list_state" and xs a
  assume "double False s xs" "a \<notin> set xs"
  from DL_PREPEND_ok [OF this] show "\<exists>s'. m_prepend dl_macros s a = Some (Inr s') \<and> double False s' (a # xs)"
    by (auto simp: dl_macros_def)
qed (auto dest: dl_nodes_head dl_nodes_distinct dl_nodes_next dl_nodes_last)

interpretation cdl_list: linked_list "double True" cdl_macros
  "\<lambda>s. case s_list s of Some h \<Rightarrow> s_prev s h | None \<Rightarrow> None"
proof unfold_locales
  fix s :: "'a list_state" and us vs e
  show "double True s (us @ e # vs) \<Longrightarrow> \<exists>s'. m_delete cdl_macros s e = Some (Inr s') \<and> double True s' (us @ vs)"
    using CDL_DELETE_ok [of s us e vs] by (auto simp: cdl_macros_def)
next
  fix s :: "'a list_state" and us vs e a
  assume a: "double True s (us @ e # vs)" "a \<notin> set (us @ e # vs)"
  show "\<exists>s'. m_replace cdl_macros s (Some e) (Some a) = Some (Inr s') \<and> double True s' (us @ a # vs)"
    using CDL_REPLACE_ELEM_ok [OF a] by (auto simp: cdl_macros_def)
  show "\<exists>s'. m_insert cdl_macros s (Some e) (Some a) = Some (Inr s') \<and> double True s' (us @ a # e # vs)"
    using CDL_PREPEND_ELEM_ok [OF a] by (auto simp: cdl_macros_def)
next
  fix s :: "'a list_state" and xs a
  assume "double True s xs" "a \<notin> set xs"
  from CDL_PREPEND_ok [OF this] show "\<exists>s'. m_prepend cdl_macros s a = Some (Inr s') \<and> double True s' (a # xs)"
    by (auto simp: cdl_macros_def)
next
  fix s :: "'a list_state" and us p q vs
  assume "double True s (us @ p # q # vs)"
  then show "Some p \<noteq> (case s_list s of Some h \<Rightarrow> s_prev s h | None \<Rightarrow> None)"
    by (cases us; cases vs rule: rev_cases) (auto simp: dl_nodes_def)
next
  fix s0 s :: "'a list_state" and us vs p
  assume "double True s0 (us @ [p])"
  then show "Some p = (case s_list s0 of Some h \<Rightarrow> s_prev s0 h | None \<Rightarrow> None) \<or> s_next s p = None"
    using dl_nodes_head dl_nodes_last by fastforce
qed (auto dest: dl_nodes_head dl_nodes_distinct dl_nodes_next dl_nodes_last)

section \<open>Properties\<close>

text \<open>C19: any sequence of prepends, deletions, replacements and insertions before a node, each of a
  node that is new or in the list as the call needs, returns on every kind of list without following a null
  pointer or failing an assertion, and leaves a well-formed list of that kind whose nodes are those that
  the same sequence gives on lists of nodes.\<close>

theorem linked_lists_implement_lists:
  assumes "calls_nodes cs xs = Some ys"
  shows "(single s xs \<longrightarrow> (\<exists>s'. do_calls ll_macros cs s = Some (Inr s') \<and> single s' ys))
    \<and> (double False s xs \<longrightarrow> (\<exists>s'. do_calls dl_macros cs s = Some (Inr s') \<and> double False s' ys))
    \<and> (double True s xs \<longrightarrow> (\<exists>s'. do_calls cdl_macros cs s = Some (Inr s') \<and> double True s' ys))"
  using ll_list.calls_ok [OF _ assms] dl_list.calls_ok [OF _ assms] cdl_list.calls_ok [OF _ assms] by blast

definition two_linked :: "nat list_state" where
  "two_linked = \<lparr>s_next = (\<lambda>_. None)(1 := Some 2), s_prev = (\<lambda>_. None)(1 := Some 2, 2 := Some 1), s_list = Some 1\<rparr>"

lemma linked_lists_implement_lists_witness:
  "\<exists>s'. do_calls dl_macros [Insert_Before 2 7, Delete 1, Replace 2 5, Prepend 9] two_linked = Some (Inr s')
     \<and> double False s' [9, 7, 5]"
  using linked_lists_implement_lists [of "[Insert_Before 2 7, Delete 1, Replace 2 5, Prepend 9]" "[1, 2]" "[9, 7, 5]" two_linked]
  by (simp add: two_linked_def dl_nodes_def)

text \<open>C28: deleting, during a traversal that is safe for it, the nodes that satisfy a test: the traversal
  ends and follows no null pointer; the log of its body is the list of nodes as it was, so every node was visited once, in
  order; and a well-formed list of exactly the other nodes in their order is left, on singly linked, doubly linked
  and circular lists.\<close>

theorem delete_during_traversal:
  "(single s xs \<longrightarrow> (\<exists>s'. foreach_safe None (delete_where ll_macros hit) (s, []) (s_list s) = Some (Inr (s', xs))
        \<and> distinct xs \<and> single s' (filter (\<lambda>p. \<not> hit p) xs)))
    \<and> (double False s xs \<longrightarrow> (\<exists>s'. DL_FOREACH_SAFE (delete_where dl_macros hit) (s, []) = Some (Inr (s', xs))
        \<and> distinct xs \<and> double False s' (filter (\<lambda>p. \<not> hit p) xs)))
    \<and> (double True s xs \<longrightarrow> (\<exists>s'. CDL_FOREACH_SAFE (delete_where cdl_macros hit) (s, []) = Some (Inr (s', xs))
        \<and> distinct xs \<and> double True s' (filter (\<lambda>p. \<not> hit p) xs)))"
  unfolding DL_FOREACH_SAFE_def CDL_FOREACH_SAFE_def Let_def fst_conv
  using ll_list.safe_delete dl_list.safe_delete cdl_list.safe_delete
    ll_list.shape_distinct dl_list.shape_distinct cdl_list.shape_distinct by blast

lemma delete_during_traversal_witness:
  "\<exists>s'. DL_FOREACH_SAFE (delete_where dl_macros (\<lambda>p. p = 1)) (two_linked, []) = Some (Inr (s', [1, 2])) \<and> double False s' [2]"
  using delete_during_traversal [of two_linked "[1, 2]" "\<lambda>p. p = 1"]
  by (simp add: two_linked_def dl_nodes_def)

end
