(* ===== verification/Linked_Sort.thy ===== *)
theory Linked_Sort
  imports Utlist_Double
begin

text \<open>
  The merge sorts of \<^verbatim>\<open>utlist.h\<close> on the nodes themselves. The three macros run the same
  passes; they differ in how a cursor moves (\<open>follow\<close>: the circular sort stops at the head the pass
  started with), in whether \<^verbatim>\<open>prev\<close> is set (\<open>dbl\<close>), in how the list is closed after a
  pass, and the sort of hash tables in the type of the run length (\<open>twice\<close>). The passes are shown to
  compute the sort on lists of \<open>Utlist\<close>, for every way to close a list that meets the contract
  \<open>sort_code\<close>.
\<close>

section \<open>The passes\<close>

record 'p sort_state = "'p list_state" +
  s_tail :: "'p option"

text \<open>\<^verbatim>\<open>for (i = 0; i < insize; i++) { psize++; q = q->next; if (!q) break; }\<close>\<close>

fun ls_advance_ptr :: "('p \<Rightarrow> 'p option) \<Rightarrow> nat \<Rightarrow> 'p option \<Rightarrow> (nat \<times> 'p option) res" where
  "ls_advance_ptr f 0 q = Inr (0, q)"
| "ls_advance_ptr f (Suc i) q =
     res_bind (non_null q) (\<lambda>a.
     case f a of
       None \<Rightarrow> Inr (1, None)
     | Some b \<Rightarrow> res_bind (ls_advance_ptr f i (Some b)) (\<lambda>(n, r). Inr (Suc n, r)))"

text \<open>Putting \<open>e\<close> behind the tail of the new list.\<close>

definition emit :: "bool \<Rightarrow> 'p \<Rightarrow> 'p sort_state \<Rightarrow> 'p sort_state" where
  "emit dbl e s =
     (let s1 = (case s_tail s of
            Some t \<Rightarrow> s\<lparr>s_next := (s_next s)(t := Some e)\<rparr>
          | None \<Rightarrow> s\<lparr>s_list := Some e\<rparr>);
          s2 = (if dbl then s1\<lparr>s_prev := (s_prev s1)(e := s_tail s1)\<rparr> else s1)
      in s2\<lparr>s_tail := Some e\<rparr>)"

function ls_merge_ptr ::
    "('p links \<Rightarrow> 'p \<Rightarrow> 'p option) \<Rightarrow> bool \<Rightarrow> ('p \<Rightarrow> 'p \<Rightarrow> int) \<Rightarrow> 'p sort_state
       \<Rightarrow> 'p option \<Rightarrow> nat \<Rightarrow> 'p option \<Rightarrow> nat \<Rightarrow> ('p sort_state \<times> 'p option) res" where
  "ls_merge_ptr follow dbl cmp s p psize q qsize =
     (if 0 < psize \<or> (0 < qsize \<and> q \<noteq> None)
      then if psize = 0
           then res_bind (non_null q) (\<lambda>e.
                ls_merge_ptr follow dbl cmp (emit dbl e s) p psize (follow (s_next s) e) (qsize - 1))
           else if qsize = 0 \<or> q = None
           then res_bind (non_null p) (\<lambda>e.
                ls_merge_ptr follow dbl cmp (emit dbl e s) (follow (s_next s) e) (psize - 1) q qsize)
           else res_bind (non_null p) (\<lambda>a. res_bind (non_null q) (\<lambda>b.
                if cmp a b \<le> 0
                then ls_merge_ptr follow dbl cmp (emit dbl a s) (follow (s_next s) a) (psize - 1) q qsize
                else ls_merge_ptr follow dbl cmp (emit dbl b s) p psize (follow (s_next s) b) (qsize - 1)))
      else Inr (s, q))"
  by pat_completeness auto
termination
  by (relation "measure (\<lambda>(_, _, _, _, _, psize, _, qsize). psize + qsize)") auto

declare ls_merge_ptr.simps [simp del]

partial_function (option) ls_pass_ptr ::
    "('p links \<Rightarrow> 'p \<Rightarrow> 'p option) \<Rightarrow> bool \<Rightarrow> ('p \<Rightarrow> 'p \<Rightarrow> int) \<Rightarrow> nat \<Rightarrow> 'p sort_state
       \<Rightarrow> 'p option \<Rightarrow> nat \<Rightarrow> ('p sort_state \<times> nat) res option" where
  "ls_pass_ptr follow dbl cmp insize s p nmerges =
     (if p = None then Some (Inr (s, nmerges))
      else opt_res_bind (Some (res_bind (ls_advance_ptr (follow (s_next s)) insize p) (\<lambda>(psize, q).
             ls_merge_ptr follow dbl cmp s p psize q insize))) (\<lambda>(s', q').
           ls_pass_ptr follow dbl cmp insize s' q' (nmerges + 1)))"

partial_function (option) sort_passes ::
    "('p option \<Rightarrow> 'p links \<Rightarrow> 'p \<Rightarrow> 'p option) \<Rightarrow> bool \<Rightarrow> ('p sort_state \<Rightarrow> 'p sort_state res)
       \<Rightarrow> (nat \<Rightarrow> nat res) \<Rightarrow> ('p \<Rightarrow> 'p \<Rightarrow> int) \<Rightarrow> nat \<Rightarrow> 'p sort_state \<Rightarrow> 'p sort_state res option" where
  "sort_passes follow_from dbl close twice cmp insize s =
     opt_res_bind (ls_pass_ptr (follow_from (s_list s)) dbl cmp insize (s\<lparr>s_list := None, s_tail := None\<rparr>) (s_list s) 0)
       (\<lambda>(s1, nmerges).
     opt_res_bind (Some (close s1)) (\<lambda>s2.
     opt_res_bind (Some (twice insize)) (\<lambda>insize'.
     if nmerges \<le> 1 then Some (Inr s2)
     else sort_passes follow_from dbl close twice cmp insize' s2)))"

text \<open>\<^verbatim>\<open>int _ls_insize; _ls_insize *= 2;\<close>\<close>

definition twice_int :: "nat \<Rightarrow> nat res" where
  "twice_int n = res_bind (check SignedOverflow (in_int (2 * int n))) (\<lambda>_. Inr (2 * n))"

section \<open>The macros\<close>

definition straight :: "'p option \<Rightarrow> 'p links \<Rightarrow> 'p \<Rightarrow> 'p option" where
  "straight oldhead nx a = nx a"

definition ll_close :: "'p sort_state \<Rightarrow> 'p sort_state res" where
  "ll_close s = (case s_tail s of None \<Rightarrow> Inr s | Some t \<Rightarrow> Inr (s\<lparr>s_next := (s_next s)(t := None)\<rparr>))"

definition dl_close :: "'p sort_state \<Rightarrow> 'p sort_state res" where
  "dl_close s = res_bind (non_null (s_list s)) (\<lambda>l. res_bind (non_null (s_tail s)) (\<lambda>t.
     Inr (s\<lparr>s_prev := (s_prev s)(l := Some t), s_next := (s_next s)(t := None)\<rparr>)))"

definition cdl_close :: "'p sort_state \<Rightarrow> 'p sort_state res" where
  "cdl_close s = res_bind (non_null (s_list s)) (\<lambda>l. res_bind (non_null (s_tail s)) (\<lambda>t.
     Inr (s\<lparr>s_prev := (s_prev s)(l := Some t), s_next := (s_next s)(t := Some l)\<rparr>)))"

definition sort_from :: "'p links \<Rightarrow> 'p links \<Rightarrow> 'p option \<Rightarrow> 'p sort_state" where
  "sort_from nx pv list = \<lparr>s_next = nx, s_prev = pv, s_list = list, s_tail = None\<rparr>"

definition LL_SORT_nodes ::
    "('p \<Rightarrow> 'p \<Rightarrow> int) \<Rightarrow> 'p sort_state \<Rightarrow> 'p sort_state res option" where
  "LL_SORT_nodes cmp s =
     (if s_list s = None then Some (Inr s) else sort_passes straight False ll_close twice_int cmp 1 s)"

definition DL_SORT :: "('p \<Rightarrow> 'p \<Rightarrow> int) \<Rightarrow> 'p sort_state \<Rightarrow> 'p sort_state res option" where
  "DL_SORT cmp s =
     (if s_list s = None then Some (Inr s) else sort_passes straight True dl_close twice_int cmp 1 s)"

definition CDL_SORT :: "('p \<Rightarrow> 'p \<Rightarrow> int) \<Rightarrow> 'p sort_state \<Rightarrow> 'p sort_state res option" where
  "CDL_SORT cmp s =
     (if s_list s = None then Some (Inr s) else sort_passes round_to True cdl_close twice_int cmp 1 s)"

section \<open>Cursors and the list under construction\<close>

lemma advance_ok:
  "walk f p xs None \<Longrightarrow> xs \<noteq> [] \<Longrightarrow> 0 < n \<Longrightarrow>
     \<exists>q. ls_advance_ptr f n p = Inr (min n (length xs), q) \<and> walk f p (take n xs) q \<and> walk f q (drop n xs) None"
proof (induction n arbitrary: p xs)
  case (Suc n)
  then obtain x us where x: "xs = x # us" "p = Some x" "walk f (f x) us None" by (cases xs) auto
  show ?case
  proof (cases us)
    case Nil
    with x show ?thesis by simp
  next
    case (Cons y zs)
    with x have fx: "f x = Some y" by simp
    show ?thesis
    proof (cases "n = 0")
      case True
      with x fx Cons show ?thesis by simp
    next
      case False
      from Suc.IH [OF x(3)] Cons False obtain q where
        "ls_advance_ptr f n (f x) = Inr (min n (length us), q)" "walk f (f x) (take n us) q" "walk f q (drop n us) None"
        by auto
      with x fx show ?thesis by simp
    qed
  qed
qed simp

definition emitted :: "bool \<Rightarrow> 'p sort_state \<Rightarrow> 'p list \<Rightarrow> bool" where
  "emitted dbl s xs \<longleftrightarrow> s_list s = (if xs = [] then None else Some (hd xs))
     \<and> s_tail s = (if xs = [] then None else Some (last xs))
     \<and> successively (\<lambda>a b. s_next s a = Some b) xs
     \<and> (dbl \<longrightarrow> successively (\<lambda>a b. s_prev s b = Some a) xs \<and> (xs \<noteq> [] \<longrightarrow> s_prev s (hd xs) = None))"

lemma successively_snoc_iff:
  "successively P (xs @ [y]) \<longleftrightarrow> successively P xs \<and> (xs \<noteq> [] \<longrightarrow> P (last xs) y)"
  by (auto simp: successively_append_iff)

lemma successively_upd_last:
  assumes "successively (\<lambda>a b. nx a = Some b) xs" "distinct xs" "xs \<noteq> []"
  shows "successively (\<lambda>a b. (nx(last xs := v)) a = Some b) xs"
  using assms
proof (induction xs)
  case (Cons x xs)
  then show ?case by (cases xs) (auto dest: last_in_set)
qed simp

lemma successively_upd_other:
  "e \<notin> set xs \<Longrightarrow> successively (\<lambda>a b. (pv(e := v)) b = Some a) xs = successively (\<lambda>a b. pv b = Some a) xs"
  by (rule successively_cong) auto

lemma emit_ok:
  assumes s: "emitted dbl s xs" and d: "distinct (xs @ [e])"
  shows "emitted dbl (emit dbl e s) (xs @ [e])" "frame (set xs \<union> {e}) s (emit dbl e s)"
    "\<And>a. a \<notin> set xs \<Longrightarrow> s_next (emit dbl e s) a = s_next s a"
proof -
  show n: "\<And>a. a \<notin> set xs \<Longrightarrow> s_next (emit dbl e s) a = s_next s a"
    using s by (auto simp: emit_def emitted_def Let_def split: if_splits)
  show "frame (set xs \<union> {e}) s (emit dbl e s)"
    using s by (auto simp: frame_def emit_def emitted_def Let_def split: if_splits)
  show "emitted dbl (emit dbl e s) (xs @ [e])"
  proof (cases "xs = []")
    case True
    with s show ?thesis by (simp add: emitted_def emit_def Let_def)
  next
    case False
    with s d have t: "s_tail s = Some (last xs)" "successively (\<lambda>a b. s_next s a = Some b) xs" "e \<notin> set xs" "hd xs \<noteq> e"
      by (auto simp: emitted_def)
    from successively_upd_last [OF t(2)] d False have
      "successively (\<lambda>a b. ((s_next s)(last xs := Some e)) a = Some b) xs" by simp
    then show ?thesis
      using s t False successively_upd_other [OF t(3), of "s_prev s" "Some (last xs)"]
      by (auto simp: emitted_def emit_def Let_def successively_snoc_iff)
  qed
qed


section \<open>Merging\<close>

locale cursor =
  fixes follow :: "'p links \<Rightarrow> 'p \<Rightarrow> 'p option"
  assumes follow_cong: "nx' a = nx a \<Longrightarrow> follow nx' a = follow nx a"
begin

lemma walk_emit:
  assumes "walk (follow (s_next s)) p xs r" "emitted dbl s outs" "distinct (outs @ [e])" "set xs \<inter> set outs = {}"
  shows "walk (follow (s_next (emit dbl e s))) p xs r"
  using emit_ok(3) [OF assms(2,3)] assms(4) by (intro walk_cong [OF assms(1)] follow_cong) auto

lemma merge_ptr_ok:
  "\<lbrakk>emitted dbl s outs; walk (follow (s_next s)) p xs r; length xs = psize;
    walk (follow (s_next s)) q (ys @ zs) None; length ys = qsize \<or> length ys \<le> qsize \<and> zs = [];
    distinct (outs @ xs @ ys @ zs)\<rbrakk> \<Longrightarrow>
   \<exists>s' q'. ls_merge_ptr follow dbl cmp s p psize q qsize = Inr (s', q')
     \<and> emitted dbl s' (outs @ merge_by cmp xs ys) \<and> walk (follow (s_next s')) q' zs None
     \<and> frame (set outs \<union> set xs \<union> set ys) s s'"
proof (induction "length xs + length ys" arbitrary: s outs p xs psize q ys qsize rule: less_induct)
  case less
  note emitted = less.prems(1) and px = less.prems(2) and ps = less.prems(3) and qy = less.prems(4)
    and qs = less.prems(5) and dist = less.prems(6)
  have take_q: ?case if y: "ys = y # us" and out: "merge_by cmp xs ys = y # merge_by cmp xs us"
    and step: "ls_merge_ptr follow dbl cmp s p psize q qsize
      = ls_merge_ptr follow dbl cmp (emit dbl y s) p psize (follow (s_next s) y) (qsize - 1)" for y us
  proof -
    have d: "distinct (outs @ [y])" using dist y by auto
    note e = emit_ok [OF emitted d]
    have f: "follow (s_next (emit dbl y s)) y = follow (s_next s) y"
      using e(3) [of y] dist y by (intro follow_cong) auto
    have px': "walk (follow (s_next (emit dbl y s))) p xs r"
      by (rule walk_emit [OF px emitted d]) (use dist in auto)
    have qy': "walk (follow (s_next (emit dbl y s))) (follow (s_next s) y) (us @ zs) None"
      by (rule walk_emit [OF _ emitted d]) (use dist y qy in auto)
    have l: "length xs + length us < length xs + length ys" using y by simp
    have q': "length us = qsize - 1 \<or> length us \<le> qsize - 1 \<and> zs = []" using qs y by auto
    have "distinct ((outs @ [y]) @ xs @ us @ zs)" using dist y by auto
    from less.hyps [OF l e(1) px' ps qy' q' this] obtain s' q' where
      r: "ls_merge_ptr follow dbl cmp (emit dbl y s) p psize (follow (s_next s) y) (qsize - 1) = Inr (s', q')"
        "emitted dbl s' ((outs @ [y]) @ merge_by cmp xs us)" "walk (follow (s_next s')) q' zs None"
        "frame (set (outs @ [y]) \<union> set xs \<union> set us) (emit dbl y s) s'"
      by blast
    have "frame (set outs \<union> set xs \<union> set ys) s s'"
      by (rule frame_trans [OF e(2) r(4)]) (use y in auto)
    with r step out show ?thesis by auto
  qed
  have take_p: ?case if x: "xs = x # us" and out: "merge_by cmp xs ys = x # merge_by cmp us ys"
    and step: "ls_merge_ptr follow dbl cmp s p psize q qsize
      = ls_merge_ptr follow dbl cmp (emit dbl x s) (follow (s_next s) x) (psize - 1) q qsize" for x us
  proof -
    have d: "distinct (outs @ [x])" using dist x by auto
    note e = emit_ok [OF emitted d]
    have px': "walk (follow (s_next (emit dbl x s))) (follow (s_next s) x) us r"
      by (rule walk_emit [OF _ emitted d]) (use dist x px in auto)
    have qy': "walk (follow (s_next (emit dbl x s))) q (ys @ zs) None"
      by (rule walk_emit [OF qy emitted d]) (use dist x in auto)
    have l: "length us + length ys < length xs + length ys" using x by simp
    have p': "length us = psize - 1" using ps x by auto
    have "distinct ((outs @ [x]) @ us @ ys @ zs)" using dist x by auto
    from less.hyps [OF l e(1) px' p' qy' qs this] obtain s' q' where
      r: "ls_merge_ptr follow dbl cmp (emit dbl x s) (follow (s_next s) x) (psize - 1) q qsize = Inr (s', q')"
        "emitted dbl s' ((outs @ [x]) @ merge_by cmp us ys)" "walk (follow (s_next s')) q' zs None"
        "frame (set (outs @ [x]) \<union> set us \<union> set ys) (emit dbl x s) s'"
      by blast
    have "frame (set outs \<union> set xs \<union> set ys) s s'"
      by (rule frame_trans [OF e(2) r(4)]) (use x in auto)
    with r step out show ?thesis by auto
  qed
  show ?case
  proof (cases xs; cases ys)
    assume n: "xs = []" "ys = []"
    then have "\<not> (0 < psize \<or> 0 < qsize \<and> q \<noteq> None)" using ps qs qy by auto
    then have "ls_merge_ptr follow dbl cmp s p psize q qsize = Inr (s, q)" by (subst ls_merge_ptr.simps) (simp only: if_False)
    with n emitted qy show ?thesis by simp
  next
    fix y us assume n: "xs = []" "ys = y # us"
    then have c: "q = Some y" "0 < qsize" "psize = 0" using ps qs qy by auto
    show ?thesis by (rule take_q [OF n(2)], use n in simp, subst ls_merge_ptr.simps, use c in simp)
  next
    fix x us assume n: "xs = x # us" "ys = []"
    then have c: "qsize = 0 \<or> q = None" "0 < psize" "p = Some x" using qs qy ps px by auto
    show ?thesis by (rule take_p [OF n(1)], use n in simp, subst ls_merge_ptr.simps, use c in auto)
  next
    fix x us y vs assume n: "xs = x # us" "ys = y # vs"
    then have c: "qsize \<noteq> 0" "q = Some y" "psize \<noteq> 0" "p = Some x" using qs qy ps px by auto
    show ?thesis
    proof (cases "cmp x y \<le> 0")
      case True
      then show ?thesis by (intro take_p [OF n(1)], use n in simp, subst ls_merge_ptr.simps, use c True in simp)
    next
      case False
      then show ?thesis by (intro take_q [OF n(2)], use n in simp, subst ls_merge_ptr.simps, use c False in simp)
    qed
  qed
qed

text \<open>A pass computes the pass on lists.\<close>

lemma pass_ptr_ok:
  "\<lbrakk>emitted dbl s outs; walk (follow (s_next s)) p xs None; distinct (outs @ xs)\<rbrakk> \<Longrightarrow>
   \<exists>s'. ls_pass_ptr follow dbl cmp (2 ^ k) s p n = Some (Inr (s', n + snd (ls_pass cmp k xs)))
     \<and> emitted dbl s' (outs @ fst (ls_pass cmp k xs)) \<and> frame (set outs \<union> set xs) s s'"
proof (induction "length xs" arbitrary: s outs p xs n rule: less_induct)
  case less
  show ?case
  proof (cases "xs = []")
    case True
    with less.prems show ?thesis by (subst ls_pass_ptr.simps) (simp add: ls_pass_unfold)
  next
    case False
    let ?N = "2 ^ k :: nat"
    obtain x us where x: "xs = x # us" using False by (cases xs) auto
    from advance_ok [OF less.prems(2) False, of ?N] obtain q where
      a: "ls_advance_ptr (follow (s_next s)) ?N p = Inr (min ?N (length xs), q)"
        "walk (follow (s_next s)) p (take ?N xs) q" "walk (follow (s_next s)) q (drop ?N xs) None"
      by auto
    let ?xs = "take ?N xs" and ?ys = "take ?N (drop ?N xs)" and ?zs = "drop (2 ^ Suc k) xs"
    have yz: "drop ?N xs = ?ys @ ?zs" using append_take_drop_id [of ?N "drop ?N xs"] by (simp add: mult_2)
    have a3: "walk (follow (s_next s)) q (?ys @ ?zs) None" using a(3) by (subst (asm) yz)
    have split: "xs = ?xs @ ?ys @ ?zs" by (metis append_take_drop_id yz)
    have d: "distinct (outs @ ?xs @ ?ys @ ?zs)" using less.prems(3) split by metis
    have l: "length ?xs = min ?N (length xs)" "length ?ys = ?N \<or> length ?ys \<le> ?N \<and> ?zs = []"
      by (auto simp: min_def)
    from merge_ptr_ok [OF less.prems(1) a(2) l(1) a3 l(2) d, of cmp] obtain s1 q1 where
      m: "ls_merge_ptr follow dbl cmp s p (min ?N (length xs)) q ?N = Inr (s1, q1)"
        "emitted dbl s1 (outs @ merge_by cmp ?xs ?ys)" "walk (follow (s_next s1)) q1 ?zs None"
        "frame (set outs \<union> set ?xs \<union> set ?ys) s s1" by blast
    have "length ?zs < length xs" using x by simp
    moreover have "distinct ((outs @ merge_by cmp ?xs ?ys) @ ?zs)"
    proof -
      have "mset ((outs @ merge_by cmp ?xs ?ys) @ ?zs) = mset (outs @ ?xs @ ?ys @ ?zs)" by simp
      then show ?thesis using d by (metis mset_eq_imp_distinct_iff)
    qed
    ultimately obtain s2 where
      s2: "ls_pass_ptr follow dbl cmp ?N s1 q1 (n + 1) = Some (Inr (s2, n + 1 + snd (ls_pass cmp k ?zs)))"
        "emitted dbl s2 ((outs @ merge_by cmp ?xs ?ys) @ fst (ls_pass cmp k ?zs))"
        "frame (set (outs @ merge_by cmp ?xs ?ys) \<union> set ?zs) s1 s2"
      using less.hyps [OF _ m(2,3), of "n + 1"] by blast
    have "ls_pass_ptr follow dbl cmp ?N s p n = Some (Inr (s2, n + 1 + snd (ls_pass cmp k ?zs)))"
      using less.prems(2) x a(1) m(1) s2(1) by (subst ls_pass_ptr.simps) simp
    moreover have "fst (ls_pass cmp k xs) = merge_by cmp ?xs ?ys @ fst (ls_pass cmp k ?zs)"
      "snd (ls_pass cmp k xs) = Suc (snd (ls_pass cmp k ?zs))"
      using ls_pass_unfold(2) [OF False] by (simp_all split: prod.splits)
    moreover have "frame (set outs \<union> set xs) s s2"
      by (rule frame_trans [OF m(4) s2(3)]) (auto dest: in_set_takeD in_set_dropD)
    ultimately show ?thesis using s2(2) by auto
  qed
qed

end


section \<open>The sort\<close>

text \<open>
  What a macro adds to the passes: \<open>shape s xs\<close> says that the list of \<open>s\<close> has the nodes \<open>xs\<close>. A
  cursor visits them; closing a list under construction gives it its shape again; run lengths double.
\<close>

locale sort_code =
  fixes follow_from :: "'p option \<Rightarrow> 'p links \<Rightarrow> 'p \<Rightarrow> 'p option"
    and dbl :: bool
    and close :: "'p sort_state \<Rightarrow> 'p sort_state res"
    and twice :: "nat \<Rightarrow> nat res"
    and shape :: "'p sort_state \<Rightarrow> 'p list \<Rightarrow> bool"
  assumes follow_from_cong: "nx' a = nx a \<Longrightarrow> follow_from h nx' a = follow_from h nx a"
    and shape_walk: "shape s xs \<Longrightarrow> xs \<noteq> [] \<Longrightarrow>
        walk (follow_from (s_list s) (s_next s)) (s_list s) xs None \<and> distinct xs"
    and close_ok: "emitted dbl s xs \<Longrightarrow> distinct xs \<Longrightarrow> xs \<noteq> [] \<Longrightarrow>
        \<exists>s'. close s = Inr s' \<and> shape s' xs \<and> frame (set xs) s s'"
    and twice_ok: "n < 2 ^ 30 \<Longrightarrow> twice n = Inr (2 * n)"

sublocale sort_code \<subseteq> cursor "follow_from h" for h
  by unfold_locales (rule follow_from_cong)

context sort_code
begin

lemma sort_passes_ok:
  "\<lbrakk>shape s xs; xs \<noteq> []; length xs \<le> 2 ^ 30; (2 :: nat) ^ k < 2 ^ 30\<rbrakk> \<Longrightarrow>
   \<exists>s'. sort_passes follow_from dbl close twice cmp (2 ^ k) s = Some (Inr s')
     \<and> shape s' (merge_sort_from cmp k xs) \<and> frame (set xs) s s'"
proof (induction cmp k xs arbitrary: s rule: merge_sort_from.induct)
  case (1 cmp k xs)
  obtain ys n where p: "ls_pass cmp k xs = (ys, n)" by fastforce
  have m: "mset ys = mset xs" using ls_pass_mset [of cmp k xs] p by simp
  then have ys: "ys \<noteq> []" "length ys = length xs" "set ys = set xs"
    using "1.prems"(2) by (auto dest: mset_eq_length mset_eq_setD)
  have w: "walk (follow_from (s_list s) (s_next s)) (s_list s) xs None" "distinct xs"
    using shape_walk [OF "1.prems"(1,2)] by auto
  have d: "distinct ys" using w(2) m by (metis mset_eq_imp_distinct_iff)
  let ?s0 = "s\<lparr>s_list := None, s_tail := None\<rparr>"
  have e: "emitted dbl ?s0 []" by (simp add: emitted_def)
  from pass_ptr_ok [OF e, where p = "s_list s" and xs = xs and h = "s_list s" and k = k and n = 0 and cmp = cmp] w p
  obtain s1 where s1: "ls_pass_ptr (follow_from (s_list s)) dbl cmp (2 ^ k) ?s0 (s_list s) 0 = Some (Inr (s1, n))"
      "emitted dbl s1 ys" "frame (set xs) ?s0 s1" by auto
  from close_ok [OF s1(2) d ys(1)] obtain s2 where s2: "close s1 = Inr s2" "shape s2 ys" "frame (set ys) s1 s2" by blast
  have f: "frame (set xs) s s2"
    using s1(3) s2(3) ys(3) by (auto simp: frame_def)
  have t: "twice (2 ^ k) = Inr (2 ^ Suc k)" using twice_ok [OF "1.prems"(4)] by simp
  have step: "sort_passes follow_from dbl close twice cmp (2 ^ k) s
      = (if n \<le> 1 then Some (Inr s2) else sort_passes follow_from dbl close twice cmp (2 ^ Suc k) s2)"
    using s1(1) s2(1) t by (subst sort_passes.simps) simp
  show ?case
  proof (cases "n \<le> 1")
    case True
    with p step s2(2) f show ?thesis by (simp add: merge_sort_from.simps)
  next
    case False
    then have "2 ^ Suc k < length xs" using ls_pass_nmerges [of xs cmp k] p by simp
    then have k: "(2 :: nat) ^ Suc k < 2 ^ 30" using "1.prems"(3) by simp
    have "length ys \<le> 2 ^ 30" using ys(2) "1.prems"(3) by simp
    from "1.IH" [OF p [symmetric] False s2(2) ys(1) this k] obtain s' where
      "sort_passes follow_from dbl close twice cmp (2 ^ Suc k) s2 = Some (Inr s')"
      "shape s' (merge_sort_from cmp (Suc k) ys)" "frame (set ys) s2 s'" by blast
    moreover have "merge_sort_from cmp k xs = merge_sort_from cmp (Suc k) ys"
      using p False by (subst merge_sort_from.simps) simp
    moreover have "frame (set xs) s s'"
      by (rule frame_trans [OF f \<open>frame (set ys) s2 s'\<close>]) (use ys in auto)
    ultimately show ?thesis using step False by simp
  qed
qed

text \<open>From runs of length one, the passes leave the nodes in the order of the sort on lists.\<close>

lemma sort_ok:
  assumes "shape s xs" "xs \<noteq> []" "length xs \<le> 2 ^ 30"
  shows "\<exists>s'. sort_passes follow_from dbl close twice cmp 1 s = Some (Inr s') \<and> shape s' (merge_sort cmp xs) \<and> frame (set xs) s s'"
  using sort_passes_ok [OF assms, of 0 cmp] assms(2) by (simp add: merge_sort_def)

end

section \<open>The three sorts\<close>

lemma successively_prev_hd:
  "successively (\<lambda>a b. pv b = Some a) xs \<Longrightarrow> distinct xs \<Longrightarrow> xs \<noteq> [] \<Longrightarrow> successively (\<lambda>a b. (pv(hd xs := v)) b = Some a) xs"
proof (induction xs)
  case (Cons x us)
  have "successively (\<lambda>a b. pv b = Some a) us" using Cons.prems(1) by (cases us) auto
  then have u: "successively (\<lambda>a b. (pv(x := v)) b = Some a) us"
    using successively_upd_other [of x us pv v] Cons.prems(2) by simp
  show ?case
    using Cons.prems(1,2) u by (simp only: successively_Cons list.sel) (auto dest: hd_in_set)
qed simp

lemma twice_int_ok: "n < 2 ^ 30 \<Longrightarrow> twice_int n = Inr (2 * n)"
  by (simp add: twice_int_def in_int_def)

interpretation ll_sort: sort_code straight False ll_close twice_int "\<lambda>s xs. chain (s_next s) (s_list s) xs"
proof unfold_locales
  fix s :: "'a sort_state" and xs
  assume s: "emitted False s xs" "distinct xs" "xs \<noteq> []"
  let ?s = "s\<lparr>s_next := (s_next s)(last xs := None)\<rparr>"
  have "chain (s_next ?s) (s_list ?s) xs"
    using s successively_upd_last [of "s_next s" xs None] walk_iff [of xs "s_next ?s" "s_list ?s" None]
    by (simp add: emitted_def chain_walk)
  moreover have "frame (set xs) s ?s" using s(3) by (auto simp: frame_def)
  ultimately show "\<exists>s'. ll_close s = Inr s' \<and> chain (s_next s') (s_list s') xs \<and> frame (set xs) s s'"
    using s by (intro exI [of _ ?s]) (simp add: ll_close_def emitted_def)
qed (auto simp: straight_def [abs_def] chain_walk [symmetric] chain_distinct twice_int_ok)

interpretation dl_sort: sort_code straight True dl_close twice_int "\<lambda>s. dl_nodes False (s_next s) (s_prev s) (s_list s)"
proof unfold_locales
  fix s :: "'a sort_state" and xs
  assume s: "emitted True s xs" "distinct xs" "xs \<noteq> []"
  let ?s = "s\<lparr>s_prev := (s_prev s)(hd xs := Some (last xs)), s_next := (s_next s)(last xs := None)\<rparr>"
  have "dl_nodes False (s_next ?s) (s_prev ?s) (s_list ?s) xs"
    using s successively_upd_last [of "s_next s" xs None] successively_prev_hd [of "s_prev s" xs "Some (last xs)"]
    by (simp add: emitted_def dl_nodes_def)
  moreover have "frame (set xs) s ?s" using s(3) by (auto simp: frame_def)
  ultimately show "\<exists>s'. dl_close s = Inr s' \<and> dl_nodes False (s_next s') (s_prev s') (s_list s') xs \<and> frame (set xs) s s'"
    using s by (intro exI [of _ ?s]) (simp add: dl_close_def emitted_def)
qed (auto simp: straight_def [abs_def] dl_nodes_def walk_iff twice_int_ok)

interpretation cdl_sort: sort_code round_to True cdl_close twice_int "\<lambda>s. dl_nodes True (s_next s) (s_prev s) (s_list s)"
proof unfold_locales
  fix s :: "'a sort_state" and xs
  assume s: "emitted True s xs" "distinct xs" "xs \<noteq> []"
  let ?s = "s\<lparr>s_prev := (s_prev s)(hd xs := Some (last xs)), s_next := (s_next s)(last xs := Some (hd xs))\<rparr>"
  have "dl_nodes True (s_next ?s) (s_prev ?s) (s_list ?s) xs"
    using s successively_upd_last [of "s_next s" xs "Some (hd xs)"] successively_prev_hd [of "s_prev s" xs "Some (last xs)"]
    by (simp add: emitted_def dl_nodes_def)
  moreover have "frame (set xs) s ?s" using s(3) by (auto simp: frame_def)
  ultimately show "\<exists>s'. cdl_close s = Inr s' \<and> dl_nodes True (s_next s') (s_prev s') (s_list s') xs \<and> frame (set xs) s s'"
    using s by (intro exI [of _ ?s]) (simp add: cdl_close_def emitted_def)
next
  fix s :: "'a sort_state" and xs
  assume s: "dl_nodes True (s_next s) (s_prev s) (s_list s) xs" "xs \<noteq> []"
  then show "walk (round_to (s_list s) (s_next s)) (s_list s) xs None \<and> distinct xs"
    by (simp add: circular_chain dl_nodes_distinct flip: chain_walk)
qed (auto simp: round_to_def twice_int_ok)

section \<open>Properties\<close>

text \<open>C21: the three merge sorts of \<^verbatim>\<open>utlist.h\<close> end on every well-formed list of at most
  \<open>2\<^sup>3\<^sup>0\<close> nodes, never follow a null pointer, leave a well-formed list of the same kind, and its nodes are in
  the order that the sort on lists gives; the fields of other nodes do not change.\<close>

theorem list_sorts_agree:
  assumes "length xs \<le> 2 ^ 30"
  shows "(chain (s_next s) (s_list s) xs \<longrightarrow> (\<exists>s'. LL_SORT_nodes cmp s = Some (Inr s')
        \<and> chain (s_next s') (s_list s') (merge_sort cmp xs) \<and> frame (set xs) s s'))
    \<and> (dl_nodes False (s_next s) (s_prev s) (s_list s) xs \<longrightarrow> (\<exists>s'. DL_SORT cmp s = Some (Inr s')
        \<and> dl_nodes False (s_next s') (s_prev s') (s_list s') (merge_sort cmp xs) \<and> frame (set xs) s s'))
    \<and> (dl_nodes True (s_next s) (s_prev s) (s_list s) xs \<longrightarrow> (\<exists>s'. CDL_SORT cmp s = Some (Inr s')
        \<and> dl_nodes True (s_next s') (s_prev s') (s_list s') (merge_sort cmp xs) \<and> frame (set xs) s s'))"
proof (cases "xs = []")
  case True
  then show ?thesis by (auto simp: LL_SORT_nodes_def DL_SORT_def CDL_SORT_def dl_nodes_def merge_sort_def)
next
  case False
  show ?thesis
  proof (intro conjI impI)
    assume c: "chain (s_next s) (s_list s) xs"
    then have "s_list s \<noteq> None" using False by (cases xs) auto
    then show "\<exists>s'. LL_SORT_nodes cmp s = Some (Inr s')
        \<and> chain (s_next s') (s_list s') (merge_sort cmp xs) \<and> frame (set xs) s s'"
      using ll_sort.sort_ok [OF c False assms, of cmp] by (simp only: LL_SORT_nodes_def if_False)
  next
    assume c: "dl_nodes False (s_next s) (s_prev s) (s_list s) xs"
    then have "s_list s \<noteq> None" using False by (simp add: dl_nodes_def)
    then show "\<exists>s'. DL_SORT cmp s = Some (Inr s')
        \<and> dl_nodes False (s_next s') (s_prev s') (s_list s') (merge_sort cmp xs) \<and> frame (set xs) s s'"
      using dl_sort.sort_ok [OF c False assms, of cmp] by (simp only: DL_SORT_def if_False)
  next
    assume c: "dl_nodes True (s_next s) (s_prev s) (s_list s) xs"
    then have "s_list s \<noteq> None" using False by (simp add: dl_nodes_def)
    then show "\<exists>s'. CDL_SORT cmp s = Some (Inr s')
        \<and> dl_nodes True (s_next s') (s_prev s') (s_list s') (merge_sort cmp xs) \<and> frame (set xs) s s'"
      using cdl_sort.sort_ok [OF c False assms, of cmp] by (simp only: CDL_SORT_def if_False)
  qed
qed

definition three_nodes :: "nat sort_state" where
  "three_nodes = \<lparr>s_next = (\<lambda>_. None)(5 := Some 2, 2 := Some 9), s_prev = (\<lambda>_. None)(5 := Some 9, 2 := Some 5, 9 := Some 2),
     s_list = Some 5, s_tail = None\<rparr>"

lemma list_sorts_agree_witness:
  "\<exists>s'. DL_SORT (\<lambda>a b. int a - int b) three_nodes = Some (Inr s')
     \<and> dl_nodes False (s_next s') (s_prev s') (s_list s') (merge_sort (\<lambda>a b. int a - int b) [5, 2, 9])"
  using list_sorts_agree [of "[5, 2, 9]" three_nodes "\<lambda>a b. int a - int b"]
  by (auto simp: three_nodes_def dl_nodes_def)

end
