(* ===== verification/Uthash_Nodes.thy ===== *)
theory Uthash_Nodes
  imports Uthash Linked_Sort
begin

text \<open>
  The hash table of \<^verbatim>\<open>uthash.h\<close> on its nodes: the four link fields of the hash handles, the
  bucket array with its chain heads, and the tail of the application order. An element and its handle are
  one address, so \<^verbatim>\<open>ELMT_FROM_HH\<close> and the offset \<^verbatim>\<open>hho\<close> are the identity.
  The operations are shown to compute those of \<open>Uthash\<close>, where chains and the application order are lists,
  and deletion, the sort and the selection are treated here.
  \<open>alloc\<close> says which sizes \<^verbatim>\<open>malloc\<close> provides; a failure is \<^verbatim>\<open>exit(-1)\<close>.
\<close>

section \<open>State\<close>

record 'p bkt =
  hh_head :: "'p option"
  bkt_items :: u32
  bkt_mult :: u32

record 'p hash_table =
  tb_buckets :: "'p bkt list"
  tb_num :: u32
  tb_log2 :: u32
  tb_items :: u32
  tb_tail :: "'p option"
  tb_ideal :: u32
  tb_nonideal :: u32
  tb_ineff :: u32
  tb_noexpand :: u32

text \<open>The handles of all elements, the head pointer and the table that the head's handle points to.\<close>

record 'p hash =
  hp_prev :: "'p links"
  hp_next :: "'p links"
  hp_bprev :: "'p links"
  hp_bnext :: "'p links"
  hp_hashv :: "'p \<Rightarrow> u32"
  hp_head :: "'p option"
  hp_tbl :: "'p hash_table"

definition sizeof_UT_hash_bucket :: nat where "sizeof_UT_hash_bucket = 16"
definition sizeof_UT_hash_table :: nat where "sizeof_UT_hash_table = 64"
definition sizeof_UT_hash_handle :: nat where "sizeof_UT_hash_handle = 56"

definition zero_bkt :: "'p bkt" where
  "zero_bkt = \<lparr>hh_head = None, bkt_items = 0, bkt_mult = 0\<rparr>"

section \<open>Buckets\<close>

definition bucket_at :: "'p bkt list \<Rightarrow> nat \<Rightarrow> 'p bkt res" where
  "bucket_at bs b = res_bind (check OutOfBounds (b < length bs)) (\<lambda>_. Inr (bs ! b))"

text \<open>Putting the handle \<open>a\<close> at the head of a chain.\<close>

definition link_head :: "'p \<Rightarrow> 'p bkt \<Rightarrow> 'p hash \<Rightarrow> 'p hash" where
  "link_head a bk s =
     (let s1 = s\<lparr>hp_bnext := (hp_bnext s)(a := hh_head bk), hp_bprev := (hp_bprev s)(a := None)\<rparr>
      in case hh_head bk of
           Some h \<Rightarrow> s1\<lparr>hp_bprev := (hp_bprev s1)(h := Some a)\<rparr>
         | None \<Rightarrow> s1)"

definition move_item :: "u32 \<Rightarrow> u32 \<Rightarrow> 'p \<Rightarrow> 'p hash \<times> 'p bkt list \<times> u32 \<Rightarrow> ('p hash \<times> 'p bkt list \<times> u32) res" where
  "move_item num ideal a st = (case st of (s, bs, nonideal) \<Rightarrow>
     let b = HASH_TO_BKT (hp_hashv s a) num
     in res_bind (bucket_at bs b) (\<lambda>bk.
        let c = bkt_items bk + 1
        in res_bind
             (if ideal < c
              then res_bind (check DivisionByZero (ideal \<noteq> 0)) (\<lambda>_.
                   Inr (bk\<lparr>bkt_items := c, bkt_mult := c div ideal\<rparr>, nonideal + 1))
              else Inr (bk\<lparr>bkt_items := c\<rparr>, nonideal)) (\<lambda>(bk1, n1).
           Inr (link_head a bk1 s, bs[b := bk1\<lparr>hh_head := Some a\<rparr>], n1))))"

text \<open>\<^verbatim>\<open>while (_he_thh != NULL) { _he_hh_nxt = _he_thh->hh_next; ...; _he_thh = _he_hh_nxt; }\<close>\<close>

partial_function (option) move_chain ::
    "u32 \<Rightarrow> u32 \<Rightarrow> 'p option \<Rightarrow> 'p hash \<times> 'p bkt list \<times> u32 \<Rightarrow> ('p hash \<times> 'p bkt list \<times> u32) res option" where
  "move_chain num ideal thh st =
     (case thh of
        None \<Rightarrow> Some (Inr st)
      | Some a \<Rightarrow>
          (let nxt = hp_bnext (fst st) a
           in opt_res_bind (Some (move_item num ideal a st)) (move_chain num ideal nxt)))"

fun move_chains ::
    "u32 \<Rightarrow> u32 \<Rightarrow> 'p bkt list \<Rightarrow> 'p hash \<times> 'p bkt list \<times> u32 \<Rightarrow> ('p hash \<times> 'p bkt list \<times> u32) res option" where
  "move_chains num ideal [] st = Some (Inr st)"
| "move_chains num ideal (bk # bks) st =
     opt_res_bind (move_chain num ideal (hh_head bk) st) (move_chains num ideal bks)"

definition hash_expand_buckets :: "(nat \<Rightarrow> bool) \<Rightarrow> 'p hash \<Rightarrow> 'p hash res option" where
  "hash_expand_buckets alloc s =
     (let t = hp_tbl s; n = unat (2 * tb_num t)
      in opt_res_bind (Some (check Aborted (alloc (n * sizeof_UT_hash_bucket)))) (\<lambda>_.
         let ideal = drop_bit (unat (tb_log2 t + 1)) (tb_items t)
               + (if tb_items t AND (tb_num t * 2 - 1) \<noteq> 0 then 1 else 0)
         in opt_res_bind (move_chains (tb_num t * 2) ideal (take (unat (tb_num t)) (tb_buckets t))
                            (s, replicate n zero_bkt, 0)) (\<lambda>(s1, bs, nonideal).
            let ineff = (if drop_bit 1 (tb_items t) < nonideal then tb_ineff t + 1 else 0)
            in Some (Inr (s1\<lparr>hp_tbl := t\<lparr>tb_buckets := bs, tb_num := tb_num t * 2, tb_log2 := tb_log2 t + 1,
                 tb_ideal := ideal, tb_nonideal := nonideal, tb_ineff := ineff,
                 tb_noexpand := (if 1 < ineff then 1 else tb_noexpand t)\<rparr>\<rparr>)))))"

definition hash_add_to_bkt :: "(nat \<Rightarrow> bool) \<Rightarrow> nat \<Rightarrow> 'p \<Rightarrow> 'p hash \<Rightarrow> 'p hash res option" where
  "hash_add_to_bkt alloc b a s =
     opt_res_bind (Some (bucket_at (tb_buckets (hp_tbl s)) b)) (\<lambda>bk.
     let bk1 = bk\<lparr>bkt_items := bkt_items bk + 1\<rparr>;
         s1 = link_head a bk1 s;
         bk2 = bk1\<lparr>hh_head := Some a\<rparr>;
         s2 = s1\<lparr>hp_tbl := (hp_tbl s1)\<lparr>tb_buckets := (tb_buckets (hp_tbl s1))[b := bk2]\<rparr>\<rparr>
     in if (bkt_mult bk2 + 1) * HASH_BKT_CAPACITY_THRESH \<le> bkt_items bk2 \<and> tb_noexpand (hp_tbl s2) \<noteq> 1
        then hash_expand_buckets alloc s2 else Some (Inr s2))"

definition hash_del_in_bkt :: "nat \<Rightarrow> 'p \<Rightarrow> 'p hash \<Rightarrow> 'p hash res" where
  "hash_del_in_bkt b a s =
     res_bind (bucket_at (tb_buckets (hp_tbl s)) b) (\<lambda>bk.
     let bk1 = bk\<lparr>bkt_items := bkt_items bk - 1\<rparr>;
         bk2 = (if hh_head bk1 = Some a then bk1\<lparr>hh_head := hp_bnext s a\<rparr> else bk1);
         s1 = s\<lparr>hp_tbl := (hp_tbl s)\<lparr>tb_buckets := (tb_buckets (hp_tbl s))[b := bk2]\<rparr>\<rparr>;
         s2 = (case hp_bprev s1 a of
                 Some p \<Rightarrow> s1\<lparr>hp_bnext := (hp_bnext s1)(p := hp_bnext s1 a)\<rparr> | None \<Rightarrow> s1)
     in Inr (case hp_bnext s2 a of
               Some n \<Rightarrow> s2\<lparr>hp_bprev := (hp_bprev s2)(n := hp_bprev s2 a)\<rparr> | None \<Rightarrow> s2))"

section \<open>The operations\<close>

definition hash_make_table :: "(nat \<Rightarrow> bool) \<Rightarrow> 'p \<Rightarrow> 'p hash_table res" where
  "hash_make_table alloc a =
     res_bind (check Aborted (alloc sizeof_UT_hash_table)) (\<lambda>_.
     res_bind (check Aborted (alloc (unat HASH_INITIAL_NUM_BUCKETS * sizeof_UT_hash_bucket))) (\<lambda>_.
     Inr \<lparr>tb_buckets = replicate (unat HASH_INITIAL_NUM_BUCKETS) zero_bkt,
       tb_num = HASH_INITIAL_NUM_BUCKETS, tb_log2 = HASH_INITIAL_NUM_BUCKETS_LOG2, tb_items = 0,
       tb_tail = Some a, tb_ideal = 0, tb_nonideal = 0, tb_ineff = 0, tb_noexpand = 0\<rparr>))"

definition hash_add :: "(nat \<Rightarrow> bool) \<Rightarrow> ('p \<Rightarrow> byte list) \<Rightarrow> 'p \<Rightarrow> 'p hash \<Rightarrow> 'p hash res option" where
  "hash_add alloc keyof a s =
     (let s1 = s\<lparr>hp_next := (hp_next s)(a := None)\<rparr>
      in opt_res_bind (Some (case hp_head s1 of
             None \<Rightarrow> res_bind (hash_make_table alloc a) (\<lambda>t.
               Inr (s1\<lparr>hp_head := Some a, hp_prev := (hp_prev s1)(a := None), hp_tbl := t\<rparr>))
           | Some h \<Rightarrow> res_bind (non_null (tb_tail (hp_tbl s1))) (\<lambda>l.
               Inr (s1\<lparr>hp_next := (hp_next s1)(l := Some a), hp_prev := (hp_prev s1)(a := Some l),
                    hp_tbl := (hp_tbl s1)\<lparr>tb_tail := Some a\<rparr>\<rparr>)))) (\<lambda>s2.
         let s3 = s2\<lparr>hp_tbl := (hp_tbl s2)\<lparr>tb_items := tb_items (hp_tbl s2) + 1\<rparr>,
                   hp_hashv := (hp_hashv s2)(a := HASH_JEN (keyof a))\<rparr>
         in hash_add_to_bkt alloc (HASH_TO_BKT (hp_hashv s3 a) (tb_num (hp_tbl s3))) a s3))"

text \<open>The patch-up of the application order.\<close>

definition hash_unlink :: "'p \<Rightarrow> 'p hash \<Rightarrow> 'p hash" where
  "hash_unlink a s =
     (let s1 = (if tb_tail (hp_tbl s) = Some a
                then s\<lparr>hp_tbl := (hp_tbl s)\<lparr>tb_tail := hp_prev s a\<rparr>\<rparr> else s);
          s2 = (case hp_prev s1 a of
                  Some p \<Rightarrow> s1\<lparr>hp_next := (hp_next s1)(p := hp_next s1 a)\<rparr>
                | None \<Rightarrow> s1\<lparr>hp_head := hp_next s1 a\<rparr>)
      in case hp_next s2 a of
           Some n \<Rightarrow> s2\<lparr>hp_prev := (hp_prev s2)(n := hp_prev s2 a)\<rparr> | None \<Rightarrow> s2)"

definition hash_delete :: "'p \<Rightarrow> 'p hash \<Rightarrow> 'p hash res" where
  "hash_delete a s =
     (if hp_prev s a = None \<and> hp_next s a = None
      then res_bind (non_null (hp_head s)) (\<lambda>_. Inr (s\<lparr>hp_head := None\<rparr>))
      else res_bind (non_null (hp_head s)) (\<lambda>_.
        let s3 = hash_unlink a s
        in res_bind (hash_del_in_bkt (HASH_TO_BKT (hp_hashv s3 a) (tb_num (hp_tbl s3))) a s3) (\<lambda>s4.
           Inr (s4\<lparr>hp_tbl := (hp_tbl s4)\<lparr>tb_items := tb_items (hp_tbl s4) - 1\<rparr>\<rparr>))))"

partial_function (option) find_in_chain ::
    "('p \<Rightarrow> byte list) \<Rightarrow> 'p links \<Rightarrow> byte list \<Rightarrow> 'p option \<Rightarrow> 'p option option" where
  "find_in_chain keyof nx k out =
     (case out of
        None \<Rightarrow> Some None
      | Some a \<Rightarrow>
          if length (keyof a) = length k \<and> keyof a = k then Some (Some a)
          else find_in_chain keyof nx k (nx a))"

definition hash_find :: "('p \<Rightarrow> byte list) \<Rightarrow> 'p hash \<Rightarrow> byte list \<Rightarrow> 'p option res option" where
  "hash_find keyof s k =
     (case hp_head s of
        None \<Rightarrow> Some (Inr None)
      | Some _ \<Rightarrow>
          opt_res_bind (Some (bucket_at (tb_buckets (hp_tbl s)) (HASH_TO_BKT (HASH_JEN k) (tb_num (hp_tbl s))))) (\<lambda>bk.
          map_option Inr (find_in_chain keyof (hp_bnext s) k (hh_head bk))))"

definition hash_replace ::
    "(nat \<Rightarrow> bool) \<Rightarrow> ('p \<Rightarrow> byte list) \<Rightarrow> 'p \<Rightarrow> 'p hash \<Rightarrow> ('p hash \<times> 'p option) res option" where
  "hash_replace alloc keyof a s =
     opt_res_bind (hash_find keyof s (keyof a)) (\<lambda>replaced.
     opt_res_bind (Some (case replaced of Some r \<Rightarrow> hash_delete r s | None \<Rightarrow> Inr s)) (\<lambda>s1.
     opt_res_bind (hash_add alloc keyof a s1) (\<lambda>s2. Some (Inr (s2, replaced)))))"

definition hash_clear :: "'p hash \<Rightarrow> 'p hash" where
  "hash_clear s = (case hp_head s of None \<Rightarrow> s | Some _ \<Rightarrow> s\<lparr>hp_head := None\<rparr>)"

definition hash_iter :: "'p hash \<Rightarrow> 'p list option" where
  "hash_iter s = LL_FOREACH (hp_next s) (hp_head s)"

definition hash_cnt :: "'p hash \<Rightarrow> u32" where
  "hash_cnt s = (case hp_head s of None \<Rightarrow> 0 | Some _ \<Rightarrow> tb_items (hp_tbl s))"

definition hash_overhead :: "'p hash \<Rightarrow> nat" where
  "hash_overhead s =
     (case hp_head s of
        None \<Rightarrow> 0
      | Some _ \<Rightarrow> unat (tb_items (hp_tbl s)) * sizeof_UT_hash_handle
          + unat (tb_num (hp_tbl s)) * sizeof_UT_hash_bucket + sizeof_UT_hash_table)"

section \<open>The consistency check\<close>

text \<open>Walking along \<open>nx\<close>, comparing \<open>pv\<close> with the node before; the number of nodes or, for a
  broken link, the call of \<^verbatim>\<open>exit\<close>.\<close>

partial_function (option) fsck_walk :: "'p links \<Rightarrow> 'p links \<Rightarrow> 'p option \<Rightarrow> 'p option \<Rightarrow> u32 \<Rightarrow> u32 res option" where
  "fsck_walk nx pv before thh cnt =
     (case thh of
        None \<Rightarrow> Some (Inr cnt)
      | Some a \<Rightarrow> if before \<noteq> pv a then Some (Inl Aborted) else fsck_walk nx pv (Some a) (nx a) (cnt + 1))"

fun fsck_buckets :: "'p links \<Rightarrow> 'p links \<Rightarrow> 'p bkt list \<Rightarrow> u32 \<Rightarrow> u32 res option" where
  "fsck_buckets nx pv [] cnt = Some (Inr cnt)"
| "fsck_buckets nx pv (bk # bks) cnt =
     opt_res_bind (fsck_walk nx pv None (hh_head bk) 0) (\<lambda>n.
     if bkt_items bk \<noteq> n then Some (Inl Aborted) else fsck_buckets nx pv bks (cnt + n))"

definition hash_fsck :: "'p hash \<Rightarrow> unit res option" where
  "hash_fsck s =
     (case hp_head s of
        None \<Rightarrow> Some (Inr ())
      | Some h \<Rightarrow>
          opt_res_bind (fsck_buckets (hp_bnext s) (hp_bprev s) (take (unat (tb_num (hp_tbl s))) (tb_buckets (hp_tbl s))) 0) (\<lambda>n.
          if n \<noteq> tb_items (hp_tbl s) then Some (Inl Aborted)
          else opt_res_bind (fsck_walk (hp_next s) (hp_prev s) None (Some h) 0) (\<lambda>m.
               if m \<noteq> tb_items (hp_tbl s) then Some (Inl Aborted) else Some (Inr ()))))"

declare move_chain.simps [simp del] find_in_chain.simps [simp del] fsck_walk.simps [simp del]


section \<open>The table on lists that a state stands for\<close>

definition dchain :: "'p links \<Rightarrow> 'p links \<Rightarrow> 'p option \<Rightarrow> 'p list \<Rightarrow> bool" where
  "dchain nx pv h xs \<longleftrightarrow> distinct xs \<and> walk nx h xs None
     \<and> walk pv (if xs = [] then None else Some (last xs)) (rev xs) None"

lemma dchain_cong:
  assumes "dchain nx pv h xs" "\<And>a. a \<in> set xs \<Longrightarrow> nx' a = nx a \<and> pv' a = pv a"
  shows "dchain nx' pv' h xs"
  using assms(1) walk_cong [of nx h xs None nx'] walk_cong [of pv _ "rev xs" None pv'] assms(2)
  by (simp add: dchain_def)

lemma dchain_Nil [simp]: "dchain nx pv h [] \<longleftrightarrow> h = None"
  by (simp add: dchain_def)

lemma dchain_head: "dchain nx pv h xs \<Longrightarrow> h = (if xs = [] then None else Some (hd xs))"
  by (cases xs) (auto simp: dchain_def)

lemma dchain_push:
  assumes "dchain nx pv h xs" "a \<notin> set xs"
  shows "dchain (nx(a := h)) (case h of Some x \<Rightarrow> pv(a := None, x := Some a) | None \<Rightarrow> pv(a := None)) (Some a) (a # xs)"
  using assms by (cases xs) (auto simp: dchain_def)

lemma dchain_snoc:
  assumes "dchain nx pv h xs" "a \<notin> set xs" "xs \<noteq> []"
  shows "dchain (nx(a := None, last xs := Some a)) (pv(a := Some (last xs))) h (xs @ [a])"
  using assms by (cases xs rule: list_ends) (auto simp: dchain_def)

text \<open>Unlinking a node, as \<^verbatim>\<open>HASH_DELETE\<close> and \<^verbatim>\<open>HASH_DEL_IN_BKT\<close> do.\<close>

definition cut_next :: "'p links \<Rightarrow> 'p links \<Rightarrow> 'p \<Rightarrow> 'p links" where
  "cut_next nx pv a = (case pv a of Some p \<Rightarrow> nx(p := nx a) | None \<Rightarrow> nx)"

definition cut_prev :: "'p links \<Rightarrow> 'p links \<Rightarrow> 'p \<Rightarrow> 'p links" where
  "cut_prev nx pv a = (case nx a of Some n \<Rightarrow> pv(n := pv a) | None \<Rightarrow> pv)"

lemma dchain_split:
  assumes "dchain nx pv h (us @ a # vs)"
  shows "nx a = (if vs = [] then None else Some (hd vs))" "pv a = (if us = [] then None else Some (last us))"
    "h = Some (if us = [] then a else hd us)"
  using assms by (cases us rule: list_ends; cases vs rule: list_ends; simp add: dchain_def)+

lemma dchain_cut:
  assumes "dchain nx pv h (us @ a # vs)"
  shows "dchain (cut_next nx pv a) (cut_prev nx pv a) (if us = [] then nx a else h) (us @ vs)"
  using assms by (cases us rule: list_ends; cases vs rule: list_ends) (auto simp: dchain_def cut_next_def cut_prev_def)

lemma cut_other:
  assumes "dchain nx pv h xs" "a \<in> set xs" "c \<notin> set xs"
  shows "cut_next nx pv a c = nx c" "cut_prev nx pv a c = pv c"
proof -
  obtain us vs where x: "xs = us @ a # vs" using split_list [OF assms(2)] by blast
  with assms(3) have "us \<noteq> [] \<Longrightarrow> last us \<noteq> c" "vs \<noteq> [] \<Longrightarrow> hd vs \<noteq> c" by auto
  with dchain_split [OF assms(1) [unfolded x]] show "cut_next nx pv a c = nx c" "cut_prev nx pv a c = pv c"
    by (auto simp: cut_next_def cut_prev_def)
qed

definition chain_rep :: "'p hash \<Rightarrow> 'p option \<Rightarrow> 'p UT_hash_handle list \<Rightarrow> bool" where
  "chain_rep s h hs \<longleftrightarrow> dchain (hp_bnext s) (hp_bprev s) h (map elmt hs)
     \<and> (\<forall>x \<in> set hs. hp_hashv s (elmt x) = hashv x)"

definition bkt_rep :: "'p hash \<Rightarrow> 'p bkt \<Rightarrow> 'p UT_hash_bucket \<Rightarrow> bool" where
  "bkt_rep s bk lb \<longleftrightarrow> chain_rep s (hh_head bk) (hh_chain lb) \<and> bkt_items bk = bkt_count lb \<and> bkt_mult bk = expand_mult lb"

definition buckets_rep :: "'p hash \<Rightarrow> 'p bkt list \<Rightarrow> 'p UT_hash_bucket list \<Rightarrow> bool" where
  "buckets_rep s bs lbs \<longleftrightarrow> list_all2 (bkt_rep s) bs lbs \<and> distinct (map elmt (all_handles lbs))"

definition table_rep :: "'p hash_table \<Rightarrow> 'p UT_hash_table \<Rightarrow> bool" where
  "table_rep u t \<longleftrightarrow> tb_num u = num_buckets t \<and> tb_log2 u = log2_num_buckets t \<and> tb_items u = num_items t
     \<and> tb_ideal u = ideal_chain_maxlen t \<and> tb_nonideal u = nonideal_items t \<and> tb_ineff u = ineff_expands t
     \<and> tb_noexpand u = noexpand t"

definition rep :: "'p hash \<Rightarrow> 'p uthash \<Rightarrow> bool" where
  "rep s head \<longleftrightarrow> (case head of
     None \<Rightarrow> hp_head s = None
   | Some t \<Rightarrow> app_order t \<noteq> [] \<and> dchain (hp_next s) (hp_prev s) (hp_head s) (app_order t)
       \<and> tb_tail (hp_tbl s) = Some (last (app_order t)) \<and> table_rep (hp_tbl s) t
       \<and> buckets_rep s (tb_buckets (hp_tbl s)) (buckets t))"

section \<open>Buckets\<close>

text \<open>Everything but the bucket links of the elements in \<open>A\<close> is unchanged.\<close>

definition outside :: "'p set \<Rightarrow> 'p hash \<Rightarrow> 'p hash \<Rightarrow> bool" where
  "outside A s s' \<longleftrightarrow> (\<forall>a. a \<notin> A \<longrightarrow> hp_bnext s' a = hp_bnext s a \<and> hp_bprev s' a = hp_bprev s a)
     \<and> hp_hashv s' = hp_hashv s \<and> hp_next s' = hp_next s \<and> hp_prev s' = hp_prev s \<and> hp_head s' = hp_head s"

lemma outside_refl [simp]: "outside A s s" by (simp add: outside_def)

lemma outside_trans: "outside A s s' \<Longrightarrow> outside B s' s'' \<Longrightarrow> A \<subseteq> C \<Longrightarrow> B \<subseteq> C \<Longrightarrow> outside C s s''"
  unfolding outside_def by (metis subsetD)

lemma chain_rep_outside:
  "chain_rep s h hs \<Longrightarrow> outside A s s' \<Longrightarrow> A \<inter> elmt ` set hs = {} \<Longrightarrow> chain_rep s' h hs"
  unfolding chain_rep_def outside_def
  by (auto intro!: dchain_cong [of "hp_bnext s" "hp_bprev s" h "map elmt hs" "hp_bnext s'" "hp_bprev s'"])

lemma link_head_ok:
  assumes "chain_rep s (hh_head bk) hs" "a \<notin> elmt ` set hs"
  shows "chain_rep (link_head a bk s) (Some a) (\<lparr>elmt = a, hashv = hp_hashv s a\<rparr> # hs)"
    "outside (insert a (elmt ` set hs)) s (link_head a bk s)" "hp_tbl (link_head a bk s) = hp_tbl s"
proof -
  let ?s = "link_head a bk s"
  have d: "dchain (hp_bnext s) (hp_bprev s) (hh_head bk) (map elmt hs)" using assms(1) by (simp add: chain_rep_def)
  have n: "hp_bnext ?s = (hp_bnext s)(a := hh_head bk)"
    "hp_bprev ?s = (case hh_head bk of Some x \<Rightarrow> (hp_bprev s)(a := None, x := Some a) | None \<Rightarrow> (hp_bprev s)(a := None))"
    "hp_hashv ?s = hp_hashv s" "hp_next ?s = hp_next s" "hp_prev ?s = hp_prev s" "hp_head ?s = hp_head s" "hp_tbl ?s = hp_tbl s"
    by (simp_all add: link_head_def Let_def split: option.splits)
  from dchain_push [OF d, of a] assms show "chain_rep ?s (Some a) (\<lparr>elmt = a, hashv = hp_hashv s a\<rparr> # hs)"
    by (auto simp: chain_rep_def n)
  from dchain_head [OF d] show "outside (insert a (elmt ` set hs)) s ?s"
    by (cases hs) (auto simp: outside_def n)
  show "hp_tbl ?s = hp_tbl s" by (rule n)
qed

lemma chains_disjoint:
  assumes "distinct (map elmt (all_handles lbs))" "i < length lbs" "j < length lbs" "i \<noteq> j"
  shows "elmt ` set (hh_chain (lbs ! i)) \<inter> elmt ` set (hh_chain (lbs ! j)) = {}"
  using assms
proof (induction lbs arbitrary: i j)
  case (Cons x lbs)
  have sub: "k < length lbs \<Longrightarrow> set (hh_chain (lbs ! k)) \<subseteq> set (all_handles lbs)" for k by (rule chain_subset)
  have d: "distinct (map elmt (all_handles lbs))" "elmt ` set (hh_chain x) \<inter> elmt ` set (all_handles lbs) = {}"
    using Cons.prems(1) by (auto simp: all_handles_def)
  show ?case
  proof (cases i; cases j)
    fix i' j' assume "i = Suc i'" "j = Suc j'"
    with Cons d show ?thesis by simp
  next
    fix j' assume "i = 0" "j = Suc j'"
    with Cons.prems d sub [of j'] show ?thesis by auto
  next
    fix i' assume "i = Suc i'" "j = 0"
    with Cons.prems d sub [of i'] show ?thesis by auto
  qed (use Cons.prems in auto)
qed simp

lemma disjoint_from: "A \<subseteq> C \<union> B \<Longrightarrow> B \<inter> D = {} \<Longrightarrow> E \<inter> C = {} \<Longrightarrow> E \<subseteq> D \<Longrightarrow> A \<inter> E = {}"
  by blast

lemma buckets_rep_update:
  assumes r: "buckets_rep s bs lbs" and b: "b < length lbs"
    and s': "outside A s s'" "A \<subseteq> elmt ` set (hh_chain (lbs ! b)) \<union> B" "B \<inter> elmt ` set (all_handles lbs) = {}"
    and bk: "bkt_rep s' bk lb" and d: "distinct (map elmt (all_handles (lbs[b := lb])))"
  shows "buckets_rep s' (bs[b := bk]) (lbs[b := lb])"
proof -
  have l: "length bs = length lbs" "\<And>i. i < length lbs \<Longrightarrow> bkt_rep s (bs ! i) (lbs ! i)" "distinct (map elmt (all_handles lbs))"
    using r by (auto simp: buckets_rep_def list_all2_conv_all_nth)
  have "bkt_rep s' (bs[b := bk] ! i) (lbs[b := lb] ! i)" if i: "i < length lbs" for i
  proof (cases "i = b")
    case False
    have "A \<inter> elmt ` set (hh_chain (lbs ! i)) = {}"
      by (rule disjoint_from [OF s'(2,3) chains_disjoint [OF l(3) i b False] image_mono [OF chain_subset [OF i]]])
    with l(2) [OF i] s'(1) have "bkt_rep s' (bs ! i) (lbs ! i)"
      by (auto simp: bkt_rep_def intro: chain_rep_outside)
    with False show ?thesis by simp
  qed (use bk b l(1) in simp)
  with l(1) d show ?thesis by (simp add: buckets_rep_def list_all2_conv_all_nth)
qed

lemma buckets_rep_nth: "buckets_rep s bs lbs \<Longrightarrow> b < length lbs \<Longrightarrow> b < length bs \<and> bkt_rep s (bs ! b) (lbs ! b)"
  by (auto simp: buckets_rep_def list_all2_conv_all_nth)

lemma bucket_at_ok [simp]: "b < length bs \<Longrightarrow> bucket_at bs b = Inr (bs ! b)"
  by (simp add: bucket_at_def)

text \<open>A chain gets a new handle at its head.\<close>

lemma push_rep:
  assumes r: "buckets_rep s bs lbs" and b: "b < length lbs" and a: "a \<notin> elmt ` set (all_handles lbs)"
    and bk: "hh_head bk = hh_head (bs ! b)" "hh_head bk' = Some a" "bkt_items bk' = bkt_count lb" "bkt_mult bk' = expand_mult lb"
    and lb: "hh_chain lb = \<lparr>elmt = a, hashv = hp_hashv s a\<rparr> # hh_chain (lbs ! b)"
  shows "buckets_rep (link_head a bk s) (bs[b := bk']) (lbs[b := lb])"
    "outside (insert a (elmt ` set (all_handles lbs))) s (link_head a bk s)"
    "mset (all_handles (lbs[b := lb])) = add_mset \<lparr>elmt = a, hashv = hp_hashv s a\<rparr> (mset (all_handles lbs))"
proof -
  have c: "chain_rep s (hh_head bk) (hh_chain (lbs ! b))"
    using buckets_rep_nth [OF r b] bk(1) by (simp add: bkt_rep_def)
  have n: "a \<notin> elmt ` set (hh_chain (lbs ! b))" using a chain_subset [OF b] by auto
  note l = link_head_ok [OF c n]
  show m: "mset (all_handles (lbs[b := lb])) = add_mset \<lparr>elmt = a, hashv = hp_hashv s a\<rparr> (mset (all_handles lbs))"
    by (rule mset_all_handles_update [OF b lb])
  then have "mset (map elmt (all_handles (lbs[b := lb]))) = mset (map elmt (\<lparr>elmt = a, hashv = hp_hashv s a\<rparr> # all_handles lbs))"
    by simp
  moreover have "distinct (map elmt (\<lparr>elmt = a, hashv = hp_hashv s a\<rparr> # all_handles lbs))"
    using a r by (auto simp: buckets_rep_def)
  ultimately have d: "distinct (map elmt (all_handles (lbs[b := lb])))" by (metis mset_eq_imp_distinct_iff)
  show "buckets_rep (link_head a bk s) (bs[b := bk']) (lbs[b := lb])"
    by (rule buckets_rep_update [OF r b l(2), where B = "{a}"]) (use l(1) a bk lb d in \<open>auto simp: bkt_rep_def\<close>)
  show "outside (insert a (elmt ` set (all_handles lbs))) s (link_head a bk s)"
    using outside_trans [OF l(2) outside_refl, of _ "{}"] chain_subset [OF b] by (metis empty_subsetI image_mono insert_mono)
qed


section \<open>Expansion\<close>

lemma link_head_tbl [simp]: "hp_tbl (link_head a bk s) = hp_tbl s"
  by (simp add: link_head_def Let_def split: option.splits)

lemma handle_eta: "hp_hashv s (elmt h) = hashv h \<Longrightarrow> \<lparr>elmt = elmt h, hashv = hp_hashv s (elmt h)\<rparr> = h"
  by simp

definition moved :: "'p hash \<Rightarrow> 'p UT_hash_bucket list \<Rightarrow> 'p UT_hash_handle list \<Rightarrow> 'p UT_hash_bucket list \<times> u32
    \<Rightarrow> 'p hash \<times> 'p bkt list \<times> u32 \<Rightarrow> bool" where
  "moved s lbs hs r st \<longleftrightarrow> (case (r, st) of ((lbs', n), (s', bs', n')) \<Rightarrow> n' = n \<and> buckets_rep s' bs' lbs'
     \<and> outside (elmt ` set (hs @ all_handles lbs)) s s' \<and> hp_tbl s' = hp_tbl s
     \<and> mset (all_handles lbs') = mset (hs @ all_handles lbs) \<and> length lbs' = length lbs)"

lemma move_item_ok:
  assumes r: "buckets_rep s bs lbs" and b: "HASH_TO_BKT (hashv h) num < length lbs"
    and a: "elmt h \<notin> elmt ` set (all_handles lbs)" and hv: "hp_hashv s (elmt h) = hashv h" and i: "ideal \<noteq> 0"
  shows "\<exists>st. move_item num ideal (elmt h) (s, bs, n) = Inr st \<and> moved s lbs [h] (rehash_item num ideal h (lbs, n)) st"
proof -
  let ?b = "HASH_TO_BKT (hashv h) num"
  have l: "?b < length bs" "bkt_items (bs ! ?b) = bkt_count (lbs ! ?b)" "bkt_mult (bs ! ?b) = expand_mult (lbs ! ?b)"
    using buckets_rep_nth [OF r b] by (auto simp: bkt_rep_def)
  have p: "moved s lbs [h] (lbs[?b := lb], m) (link_head (elmt h) bk s, bs[?b := bk'], m)"
    if "hh_head bk = hh_head (bs ! ?b)" "hh_head bk' = Some (elmt h)" "bkt_items bk' = bkt_count lb" "bkt_mult bk' = expand_mult lb"
      "hh_chain lb = h # hh_chain (lbs ! ?b)" for lb bk bk' and m :: u32
    using push_rep [OF r b a that(1,2,3,4), unfolded handle_eta [OF hv], OF that(5)]
    by (simp add: moved_def insert_commute)
  show ?thesis
    using l hv i by (cases "ideal < bkt_count (lbs ! ?b) + 1") (auto simp: move_item_def rehash_item_def Let_def intro!: p)
qed

lemma moved_append:
  assumes m: "moved s lbs hs1 (lbs1, n1) (s1, bs1, n1')" and st: "moved s1 lbs1 hs r st"
  shows "moved s lbs (hs1 @ hs) r st"
proof -
  obtain lbs2 n2 s2 bs2 n2' where rs: "r = (lbs2, n2)" "st = (s2, bs2, n2')" by (cases r; cases st) auto
  have m1: "outside (elmt ` set (hs1 @ all_handles lbs)) s s1" "hp_tbl s1 = hp_tbl s"
    "mset (all_handles lbs1) = mset (hs1 @ all_handles lbs)" "length lbs1 = length lbs"
    using m by (simp_all only: moved_def prod.case)
  have m2: "n2' = n2" "buckets_rep s2 bs2 lbs2" "outside (elmt ` set (hs @ all_handles lbs1)) s1 s2" "hp_tbl s2 = hp_tbl s1"
    "mset (all_handles lbs2) = mset (hs @ all_handles lbs1)" "length lbs2 = length lbs1"
    using st by (simp_all only: moved_def prod.case rs)
  have e: "set (all_handles lbs1) = set (hs1 @ all_handles lbs)" using m1(3) by (rule mset_eq_setD)
  have "outside (elmt ` set ((hs1 @ hs) @ all_handles lbs)) s s2"
    by (rule outside_trans [OF m1(1) m2(3)]) (auto simp: e)
  with m1 m2 show ?thesis by (simp add: moved_def rs)
qed

text \<open>A chain to be moved: the expansion follows it without looking at \<^verbatim>\<open>hh_prev\<close>.\<close>

definition to_move :: "'p hash \<Rightarrow> 'p option \<Rightarrow> 'p UT_hash_handle list \<Rightarrow> bool" where
  "to_move s thh hs \<longleftrightarrow> walk (hp_bnext s) thh (map elmt hs) None \<and> (\<forall>h \<in> set hs. hp_hashv s (elmt h) = hashv h)"

lemma to_move_outside: "to_move s thh hs \<Longrightarrow> outside A s s' \<Longrightarrow> A \<inter> elmt ` set hs = {} \<Longrightarrow> to_move s' thh hs"
  unfolding to_move_def outside_def by (auto intro!: walk_cong [of "hp_bnext s"])

lemma chain_rep_to_move: "chain_rep s thh hs \<Longrightarrow> to_move s thh hs"
  by (simp add: chain_rep_def dchain_def to_move_def)

lemma moved_distinct:
  assumes "moved s lbs hs1 (lbs1, n1) st" "distinct (map elmt (hs1 @ hs2 @ all_handles lbs))"
  shows "distinct (map elmt (hs2 @ all_handles lbs1))"
proof -
  have "mset (all_handles lbs1) = mset (hs1 @ all_handles lbs)" using assms(1) by (auto simp: moved_def)
  then have "mset (map elmt (hs2 @ all_handles lbs1)) = mset (map elmt (hs1 @ hs2 @ all_handles lbs))" by simp
  with assms(2) show ?thesis by (metis mset_eq_imp_distinct_iff)
qed

lemma move_chain_ok:
  "\<lbrakk>buckets_rep s bs lbs; \<forall>hv. HASH_TO_BKT hv num < length lbs; to_move s thh hs;
    distinct (map elmt (hs @ all_handles lbs)); ideal \<noteq> 0\<rbrakk> \<Longrightarrow>
   \<exists>st. move_chain num ideal thh (s, bs, n) = Some (Inr st) \<and> moved s lbs hs (fold (rehash_item num ideal) hs (lbs, n)) st"
proof (induction hs arbitrary: s bs lbs thh n)
  case Nil
  then show ?case by (subst move_chain.simps) (simp add: to_move_def moved_def)
next
  case (Cons h hs)
  have w: "thh = Some (elmt h)" "to_move s (hp_bnext s (elmt h)) hs" "hp_hashv s (elmt h) = hashv h"
    using Cons.prems(3) by (auto simp: to_move_def)
  obtain lbs1 n1 where r1: "rehash_item num ideal h (lbs, n) = (lbs1, n1)" by fastforce
  have "elmt h \<notin> elmt ` set (all_handles lbs)" using Cons.prems(4) by auto
  from move_item_ok [OF Cons.prems(1) _ this w(3) Cons.prems(5), of num n] Cons.prems(2) r1 obtain s1 bs1 n1' where
    m: "move_item num ideal (elmt h) (s, bs, n) = Inr (s1, bs1, n1')" "moved s lbs [h] (lbs1, n1) (s1, bs1, n1')" by fastforce
  have m1: "n1' = n1" "buckets_rep s1 bs1 lbs1" "outside (elmt ` set ([h] @ all_handles lbs)) s s1" "length lbs1 = length lbs"
    using m(2) by (auto simp: moved_def)
  have c: "to_move s1 (hp_bnext s (elmt h)) hs"
    by (rule to_move_outside [OF w(2) m1(3)]) (use Cons.prems(4) in auto)
  have d: "distinct (map elmt (hs @ all_handles lbs1))"
    by (rule moved_distinct [OF m(2)]) (use Cons.prems(4) in simp)
  have l: "\<forall>hv. HASH_TO_BKT hv num < length lbs1" using Cons.prems(2) m1(4) by simp
  from Cons.IH [OF m1(2) l c d Cons.prems(5), of n1] obtain st where
    st: "move_chain num ideal (hp_bnext s (elmt h)) (s1, bs1, n1) = Some (Inr st)"
      "moved s1 lbs1 hs (fold (rehash_item num ideal) hs (lbs1, n1)) st" by blast
  have "move_chain num ideal thh (s, bs, n) = Some (Inr st)"
    using w(1) m(1) m1(1) st(1) by (subst move_chain.simps) simp
  with moved_append [OF m(2) st(2)] r1 show ?case by auto
qed

lemma move_chains_ok:
  "\<lbrakk>buckets_rep s bs lbs; \<forall>hv. HASH_TO_BKT hv num < length lbs; list_all2 (\<lambda>bk hs. to_move s (hh_head bk) hs) bks hss;
    distinct (map elmt (concat hss @ all_handles lbs)); ideal \<noteq> 0\<rbrakk> \<Longrightarrow>
   \<exists>st. move_chains num ideal bks (s, bs, n) = Some (Inr st)
     \<and> moved s lbs (concat hss) (fold (rehash_item num ideal) (concat hss) (lbs, n)) st"
proof (induction bks arbitrary: hss s bs lbs n)
  case Nil
  then show ?case by (simp add: moved_def)
next
  case (Cons bk bks)
  then obtain hs hss' where hss: "hss = hs # hss'" "to_move s (hh_head bk) hs" "list_all2 (\<lambda>bk hs. to_move s (hh_head bk) hs) bks hss'"
    by (auto simp: list_all2_Cons1)
  have d: "distinct (map elmt (hs @ all_handles lbs))" using Cons.prems(4) hss(1) by auto
  obtain lbs1 n1 where f: "fold (rehash_item num ideal) hs (lbs, n) = (lbs1, n1)" by fastforce
  from move_chain_ok [OF Cons.prems(1,2) hss(2) d Cons.prems(5), of n] f obtain s1 bs1 n1' where
    m: "move_chain num ideal (hh_head bk) (s, bs, n) = Some (Inr (s1, bs1, n1'))" "moved s lbs hs (lbs1, n1) (s1, bs1, n1')"
    by fastforce
  have m1: "n1' = n1" "buckets_rep s1 bs1 lbs1" "outside (elmt ` set (hs @ all_handles lbs)) s s1" "length lbs1 = length lbs"
    using m(2) by (auto simp: moved_def)
  have c: "list_all2 (\<lambda>bk hs. to_move s1 (hh_head bk) hs) bks hss'"
  proof (rule list.rel_mono_strong [OF hss(3)])
    fix b ys assume ys: "ys \<in> set hss'" "to_move s (hh_head b) ys"
    have "distinct (map elmt hs @ map elmt (concat hss') @ map elmt (all_handles lbs))"
      using Cons.prems(4) hss(1) by simp
    then have "set (map elmt hs) \<inter> set (map elmt (concat hss')) = {}"
      "set (map elmt (concat hss')) \<inter> set (map elmt (all_handles lbs)) = {}"
      unfolding distinct_append set_append by blast+
    then have "elmt ` set (hs @ all_handles lbs) \<inter> elmt ` set (concat hss') = {}"
      unfolding list.set_map set_append image_Un by blast
    moreover have "elmt ` set ys \<subseteq> elmt ` set (concat hss')" using ys(1) by auto
    ultimately have "elmt ` set (hs @ all_handles lbs) \<inter> elmt ` set ys = {}" by blast
    then show "to_move s1 (hh_head b) ys" by (rule to_move_outside [OF ys(2) m1(3)])
  qed
  have d1: "distinct (map elmt (concat hss' @ all_handles lbs1))"
    by (rule moved_distinct [OF m(2)]) (use Cons.prems(4) hss(1) in simp)
  have l: "\<forall>hv. HASH_TO_BKT hv num < length lbs1" using Cons.prems(2) m1(4) by simp
  from Cons.IH [OF m1(2) l c d1 Cons.prems(5), of n1] obtain st where
    st: "move_chains num ideal bks (s1, bs1, n1) = Some (Inr st)"
      "moved s1 lbs1 (concat hss') (fold (rehash_item num ideal) (concat hss') (lbs1, n1)) st" by blast
  with moved_append [OF m(2) st(2)] f m(1) m1(1) hss(1) show ?case by simp
qed


lemma ideal_not_zero:
  assumes "0 < k" "w \<noteq> 0"
  shows "drop_bit k w + (if w AND (2 ^ k - 1) \<noteq> 0 then 1 else 0) \<noteq> (0 :: u32)"
proof (cases "take_bit k w = 0")
  case True
  have "drop_bit k w \<noteq> 0"
    using bits_ident [of k w] True assms(2) by auto
  with True show ?thesis by (simp add: take_bit_eq_mask mask_eq_exp_minus_1)
next
  case False
  have "unat (drop_bit k w) \<le> unat w div 2"
  proof -
    have "unat (drop_bit k w) = unat w div 2 ^ k" by (metis drop_bit_eq_div unat_drop_bit_eq)
    moreover have "(2 :: nat) ^ 1 \<le> 2 ^ k" using assms(1) by (intro power_increasing) auto
    ultimately show ?thesis using div_le_mono2 [of 2 "2 ^ k" "unat w"] by simp
  qed
  moreover have "unat w < 2 ^ 32" by (rule unat_u32_bound)
  ultimately have "unat (drop_bit k w) + unat (1 :: u32) < 2 ^ 32" by simp
  then have "unat (drop_bit k w + 1) = unat (drop_bit k w) + 1" by (subst unat_add) simp_all
  then have "drop_bit k w + 1 \<noteq> 0" by (metis add_is_0 one_neq_zero unsigned_0)
  with False show ?thesis by (simp add: take_bit_eq_mask mask_eq_exp_minus_1)
qed

definition sized :: "'p UT_hash_table \<Rightarrow> bool" where
  "sized t \<longleftrightarrow> unat (log2_num_buckets t) < 32 \<and> num_buckets t = 2 ^ unat (log2_num_buckets t)
     \<and> length (buckets t) = unat (num_buckets t)"

lemma wf_sized: "wf_table keyof t \<Longrightarrow> sized t"
  by (simp add: wf_table_def sized_def)

lemma HASH_TO_BKT_bucket:
  assumes "sized t"
  shows "HASH_TO_BKT hv (num_buckets t) < length (buckets t)"
  using assms HASH_TO_BKT_less [of "unat (log2_num_buckets t)"] unat_pow2 by (simp add: sized_def)

lemma buckets_rep_zero: "buckets_rep s (replicate n zero_bkt) (replicate n empty_bucket)"
  by (simp add: buckets_rep_def list_all2_conv_all_nth bkt_rep_def chain_rep_def zero_bkt_def empty_bucket_def all_handles_def)

text \<open>Expansion keeps the elements and computes the table of \<^verbatim>\<open>Uthash\<close>, or ends the process.\<close>

lemma expand_ok:
  assumes wf: "sized t" and lg: "unat (log2_num_buckets t) < 31" and i: "num_items t \<noteq> 0"
    and tr: "table_rep (hp_tbl s) t" and br: "buckets_rep s (tb_buckets (hp_tbl s)) (buckets t)"
  shows "hash_expand_buckets alloc s = Some (Inl Aborted)
    \<and> \<not> alloc (2 ^ Suc (unat (log2_num_buckets t)) * sizeof_UT_hash_bucket)
   \<or> (\<exists>s'. hash_expand_buckets alloc s = Some (Inr s') \<and> table_rep (hp_tbl s') (HASH_EXPAND_BUCKETS t)
        \<and> buckets_rep s' (tb_buckets (hp_tbl s')) (buckets (HASH_EXPAND_BUCKETS t))
        \<and> outside (elmt ` set (all_handles (buckets t))) s s' \<and> tb_tail (hp_tbl s') = tb_tail (hp_tbl s)
        \<and> alloc (2 ^ Suc (unat (log2_num_buckets t)) * sizeof_UT_hash_bucket))"
proof -
  let ?k = "unat (log2_num_buckets t)" let ?u = "hp_tbl s" let ?hss = "map hh_chain (buckets t)"
  have u: "tb_num ?u = num_buckets t" "tb_log2 ?u = log2_num_buckets t" "tb_items ?u = num_items t" "tb_ineff ?u = ineff_expands t"
    "tb_noexpand ?u = noexpand t" using tr by (simp_all add: table_rep_def)
  have num: "num_buckets t * 2 = 2 ^ Suc ?k" "unat (log2_num_buckets t + 1) = Suc ?k"
    using wf lg by (simp_all add: sized_def unat_add)
  have len: "unat (2 * num_buckets t) = 2 ^ Suc ?k"
    using num(1) lg unat_pow2 [of "Suc ?k"] by (simp add: mult.commute)
  have tk: "take (unat (num_buckets t)) (tb_buckets ?u) = tb_buckets ?u"
    using wf br list_all2_lengthD [of "bkt_rep s" "tb_buckets ?u" "buckets t"] by (auto simp: sized_def buckets_rep_def)
  have ideal: "ideal_chain t \<noteq> 0"
    using ideal_not_zero [of "Suc ?k" "num_items t"] i unfolding ideal_chain_def num by simp
  have a: "list_all2 (\<lambda>bk hs. to_move s (hh_head bk) hs) (tb_buckets ?u) ?hss"
    using br by (auto simp: buckets_rep_def list_all2_conv_all_nth bkt_rep_def intro: chain_rep_to_move)
  have b: "\<forall>hv. HASH_TO_BKT hv (2 ^ Suc ?k) < length (replicate (2 ^ Suc ?k) (empty_bucket :: 'a UT_hash_bucket))"
    using HASH_TO_BKT_less [of "Suc ?k"] lg by (simp del: power_Suc)
  have d: "distinct (map elmt (concat ?hss @ all_handles (replicate (2 ^ Suc ?k) empty_bucket)))"
    using br by (simp add: buckets_rep_def all_handles_def empty_bucket_def)
  obtain lbs n where f: "fold (rehash_item (2 ^ Suc ?k) (ideal_chain t)) (concat ?hss) (replicate (2 ^ Suc ?k) empty_bucket, 0) = (lbs, n)"
    by fastforce
  from move_chains_ok [OF buckets_rep_zero b a d ideal, of 0] f obtain s1 bs n' where
    m: "move_chains (2 ^ Suc ?k) (ideal_chain t) (tb_buckets ?u) (s, replicate (2 ^ Suc ?k) zero_bkt, 0) = Some (Inr (s1, bs, n'))"
      "moved s (replicate (2 ^ Suc ?k) empty_bucket) (concat ?hss) (lbs, n) (s1, bs, n')" by (auto simp del: power_Suc)
  have m1: "n' = n" "buckets_rep s1 bs lbs" "outside (elmt ` set (all_handles (buckets t))) s s1"
    using m(2) by (auto simp: moved_def all_handles_def empty_bucket_def)
  have e: "HASH_EXPAND_BUCKETS t = t\<lparr>buckets := lbs, num_buckets := 2 ^ Suc ?k, log2_num_buckets := log2_num_buckets t + 1,
      ideal_chain_maxlen := ideal_chain t, nonideal_items := n,
      ineff_expands := (if drop_bit 1 (num_items t) < n then ineff_expands t + 1 else 0),
      noexpand := (if 1 < (if drop_bit 1 (num_items t) < n then ineff_expands t + 1 else 0) then 1 else noexpand t)\<rparr>"
    unfolding HASH_EXPAND_BUCKETS_def Let_def num(1) len f by (simp only: prod.case)
  let ?u' = "?u\<lparr>tb_buckets := bs, tb_num := 2 ^ Suc ?k, tb_log2 := log2_num_buckets t + 1,
      tb_ideal := ideal_chain t, tb_nonideal := n,
      tb_ineff := (if drop_bit 1 (num_items t) < n then ineff_expands t + 1 else 0),
      tb_noexpand := (if 1 < (if drop_bit 1 (num_items t) < n then ineff_expands t + 1 else 0) then 1 else noexpand t)\<rparr>"
  have ideal: "drop_bit (Suc ?k) (num_items t) + (if num_items t AND 2 ^ Suc ?k - 1 \<noteq> 0 then 1 else 0) = ideal_chain t"
    unfolding ideal_chain_def num ..
  have x: "hash_expand_buckets alloc s = (if alloc (2 ^ Suc ?k * sizeof_UT_hash_bucket) then Some (Inr (s1\<lparr>hp_tbl := ?u'\<rparr>)) else Some (Inl Aborted))"
    unfolding hash_expand_buckets_def Let_def u len num tk ideal
    using m(1) m1(1) by (simp del: power_Suc add: check_def)
  have same: "bkt_rep (s1\<lparr>hp_tbl := ?u'\<rparr>) = bkt_rep s1" by (simp add: fun_eq_iff bkt_rep_def chain_rep_def)
  have o: "outside A s (s1\<lparr>hp_tbl := ?u'\<rparr>) = outside A s s1" for A by (simp add: outside_def)
  show ?thesis
  proof (cases "alloc (2 ^ Suc ?k * sizeof_UT_hash_bucket)")
    case True
    have "table_rep ?u' (HASH_EXPAND_BUCKETS t)" using tr unfolding e table_rep_def by simp
    moreover have "buckets_rep (s1\<lparr>hp_tbl := ?u'\<rparr>) bs lbs" using m1(2) unfolding buckets_rep_def same .
    moreover have "buckets (HASH_EXPAND_BUCKETS t) = lbs" unfolding e by simp
    ultimately show ?thesis using x True m1(3) o by (intro disjI2 exI [of _ "s1\<lparr>hp_tbl := ?u'\<rparr>"]) simp
  qed (use x in simp)
qed

end
