(* ===== verification/Uthash_Refines.thy ===== *)
theory Uthash_Refines
  imports Uthash_Nodes
begin

text \<open>
  The operations on nodes of \<open>Uthash_Nodes\<close> compute the operations on lists: lookup, insertion with
  expansion, deletion, replacement, iteration, counting and the consistency check. From this, a sequence of
  insertions and deletions through the macros is a sequence of changes of a map.
\<close>

section \<open>Insertion\<close>

definition pushed :: "'p UT_hash_table \<Rightarrow> nat \<Rightarrow> 'p UT_hash_handle \<Rightarrow> 'p UT_hash_table" where
  "pushed t b h = t\<lparr>buckets := (buckets t)[b := (buckets t ! b)\<lparr>hh_chain := h # hh_chain (buckets t ! b),
     bkt_count := bkt_count (buckets t ! b) + 1\<rparr>]\<rparr>"

definition overfull :: "'p UT_hash_table \<Rightarrow> nat \<Rightarrow> bool" where
  "overfull t b \<longleftrightarrow> (expand_mult (buckets t ! b) + 1) * HASH_BKT_CAPACITY_THRESH \<le> bkt_count (buckets t ! b) + 1
     \<and> noexpand t \<noteq> 1"

lemma HASH_ADD_TO_BKT_pushed:
  "b < length (buckets t) \<Longrightarrow> HASH_ADD_TO_BKT t b h = (if overfull t b then HASH_EXPAND_BUCKETS (pushed t b h) else pushed t b h)"
  by (simp add: HASH_ADD_TO_BKT_def pushed_def overfull_def Let_def)

text \<open>The handle is put at the head of its chain, and then the buckets are expanded when the chain is long.\<close>

lemma push_in_bkt:
  assumes b: "b < length (buckets t)" and tr: "table_rep (hp_tbl s) t"
    and br: "buckets_rep s (tb_buckets (hp_tbl s)) (buckets t)" and a: "a \<notin> elmt ` set (all_handles (buckets t))"
  obtains s2 where "\<And>alloc. hash_add_to_bkt alloc b a s = (if overfull t b then hash_expand_buckets alloc s2 else Some (Inr s2))"
    "table_rep (hp_tbl s2) (pushed t b \<lparr>elmt = a, hashv = hp_hashv s a\<rparr>)"
    "buckets_rep s2 (tb_buckets (hp_tbl s2)) (buckets (pushed t b \<lparr>elmt = a, hashv = hp_hashv s a\<rparr>))"
    "outside (insert a (elmt ` set (all_handles (buckets t)))) s s2" "tb_tail (hp_tbl s2) = tb_tail (hp_tbl s)"
    "mset (all_handles (buckets (pushed t b \<lparr>elmt = a, hashv = hp_hashv s a\<rparr>)))
      = add_mset \<lparr>elmt = a, hashv = hp_hashv s a\<rparr> (mset (all_handles (buckets t)))"
proof -
  let ?u = "hp_tbl s" let ?bk = "tb_buckets ?u ! b" let ?lb = "buckets t ! b" let ?h = "\<lparr>elmt = a, hashv = hp_hashv s a\<rparr>"
  define lb where "lb = ?lb\<lparr>hh_chain := ?h # hh_chain ?lb, bkt_count := bkt_count ?lb + 1\<rparr>"
  define bk2 where "bk2 = ?bk\<lparr>bkt_items := bkt_items ?bk + 1, hh_head := Some a\<rparr>"
  define s1 where "s1 = link_head a (?bk\<lparr>bkt_items := bkt_items ?bk + 1\<rparr>) s"
  define s2 where "s2 = s1\<lparr>hp_tbl := ?u\<lparr>tb_buckets := (tb_buckets ?u)[b := bk2]\<rparr>\<rparr>"
  note nth = buckets_rep_nth [OF br b]
  have c: "hh_head (?bk\<lparr>bkt_items := bkt_items ?bk + 1\<rparr>) = hh_head ?bk" "hh_head bk2 = Some a"
    "bkt_items bk2 = bkt_count lb" "bkt_mult bk2 = expand_mult lb" "hh_chain lb = ?h # hh_chain ?lb"
    using nth by (simp_all add: lb_def bk2_def bkt_rep_def)
  note p = push_rep [OF br b a c, folded s1_def]
  have t1: "pushed t b ?h = t\<lparr>buckets := (buckets t)[b := lb]\<rparr>" by (simp add: pushed_def lb_def)
  show thesis
  proof (rule that [of s2])
    show "buckets_rep s2 (tb_buckets (hp_tbl s2)) (buckets (pushed t b ?h))"
      using p(1) by (simp add: s2_def t1 buckets_rep_def bkt_rep_def [abs_def] chain_rep_def)
    show "table_rep (hp_tbl s2) (pushed t b ?h)" using tr by (simp add: s2_def t1 table_rep_def)
    show "outside (insert a (elmt ` set (all_handles (buckets t)))) s s2" using p(2) by (simp add: s2_def outside_def)
    show "tb_tail (hp_tbl s2) = tb_tail (hp_tbl s)" by (simp add: s2_def)
    show "mset (all_handles (buckets (pushed t b ?h))) = add_mset ?h (mset (all_handles (buckets t)))" using p(3) by (simp add: t1)
    have "overfull t b \<longleftrightarrow> (bkt_mult bk2 + 1) * HASH_BKT_CAPACITY_THRESH \<le> bkt_items bk2 \<and> tb_noexpand (hp_tbl s2) \<noteq> 1"
      using nth tr by (simp add: bk2_def s2_def bkt_rep_def table_rep_def overfull_def)
    then show "hash_add_to_bkt alloc b a s = (if overfull t b then hash_expand_buckets alloc s2 else Some (Inr s2))" for alloc
      using nth by (simp add: hash_add_to_bkt_def Let_def s1_def s2_def bk2_def)
  qed
qed

lemma add_to_bkt_ok:
  fixes s :: "'p hash" and a :: 'p and t :: "'p UT_hash_table"
  defines "b \<equiv> HASH_TO_BKT (hp_hashv s a) (num_buckets t)"
  defines "t' \<equiv> HASH_ADD_TO_BKT t b \<lparr>elmt = a, hashv = hp_hashv s a\<rparr>"
  assumes sz: "sized t" and lg: "unat (log2_num_buckets t) < 31" and i: "num_items t \<noteq> 0"
    and tr: "table_rep (hp_tbl s) t" and br: "buckets_rep s (tb_buckets (hp_tbl s)) (buckets t)"
    and a: "a \<notin> elmt ` set (all_handles (buckets t))"
  shows "hash_add_to_bkt alloc b a s = Some (Inl Aborted)
      \<and> \<not> alloc (2 ^ Suc (unat (log2_num_buckets t)) * sizeof_UT_hash_bucket)
   \<or> (\<exists>s'. hash_add_to_bkt alloc b a s = Some (Inr s') \<and> table_rep (hp_tbl s') t'
        \<and> buckets_rep s' (tb_buckets (hp_tbl s')) (buckets t')
        \<and> outside (insert a (elmt ` set (all_handles (buckets t)))) s s' \<and> tb_tail (hp_tbl s') = tb_tail (hp_tbl s)
        \<and> (log2_num_buckets t' = log2_num_buckets t
           \<or> log2_num_buckets t' = log2_num_buckets t + 1
             \<and> alloc (2 ^ Suc (unat (log2_num_buckets t)) * sizeof_UT_hash_bucket)))"
proof -
  let ?h = "\<lparr>elmt = a, hashv = hp_hashv s a\<rparr>"
  have b: "b < length (buckets t)" unfolding b_def by (rule HASH_TO_BKT_bucket [OF sz])
  define t1 where "t1 = pushed t b ?h"
  obtain s2 where f: "hash_add_to_bkt alloc b a s = (if overfull t b then hash_expand_buckets alloc s2 else Some (Inr s2))"
    and tr2: "table_rep (hp_tbl s2) t1" and br2: "buckets_rep s2 (tb_buckets (hp_tbl s2)) (buckets t1)"
    and o2: "outside (insert a (elmt ` set (all_handles (buckets t)))) s s2" and tl: "tb_tail (hp_tbl s2) = tb_tail (hp_tbl s)"
    and m: "mset (all_handles (buckets t1)) = add_mset ?h (mset (all_handles (buckets t)))"
    unfolding t1_def by (rule push_in_bkt [OF b tr br a]) blast
  have t': "t' = (if overfull t b then HASH_EXPAND_BUCKETS t1 else t1)"
    unfolding t'_def t1_def by (rule HASH_ADD_TO_BKT_pushed [OF b])
  have sz1: "sized t1" "unat (log2_num_buckets t1) < 31" "num_items t1 \<noteq> 0" "log2_num_buckets t1 = log2_num_buckets t"
    using sz lg i by (simp_all add: t1_def sized_def pushed_def)
  show ?thesis
  proof (cases "overfull t b")
    case False
    with f t' br2 tr2 o2 tl sz1(4) show ?thesis by simp
  next
    case True
    have l': "log2_num_buckets (HASH_EXPAND_BUCKETS t1) = log2_num_buckets t1 + 1"
      by (simp add: HASH_EXPAND_BUCKETS_def Let_def split: prod.splits)
    have e: "elmt ` set (all_handles (buckets t1)) = insert a (elmt ` set (all_handles (buckets t)))"
      using mset_eq_setD [of "all_handles (buckets t1)" "?h # all_handles (buckets t)"] m by simp
    have fe: "hash_add_to_bkt alloc b a s = hash_expand_buckets alloc s2" "t' = HASH_EXPAND_BUCKETS t1"
      using f t' True by simp_all
    have o: "outside A s s'" if "outside (elmt ` set (all_handles (buckets t1))) s2 s'" "A = insert a (elmt ` set (all_handles (buckets t)))" for s' A
      by (rule outside_trans [OF o2 that(1)]) (simp_all add: that(2) e)
    from expand_ok [OF sz1(1-3) tr2 br2, of alloc] show ?thesis
      unfolding fe l' sz1(4) tl using o by blast
  qed
qed

text \<open>What \<^verbatim>\<open>malloc\<close> never provides: an array of \<open>2\<^sup>3\<^sup>1\<close> buckets or more.\<close>

definition bounded_memory :: "(nat \<Rightarrow> bool) \<Rightarrow> bool" where
  "bounded_memory alloc \<longleftrightarrow> (\<forall>n \<ge> 2 ^ 35. \<not> alloc n)"

lemma handles_order: "wf_table keyof t \<Longrightarrow> elmt ` set (all_handles (buckets t)) = set (app_order t)"
  unfolding wf_table_def by (metis list.set_map mset_eq_setD)

lemma outside_order:
  "dchain (hp_next s) (hp_prev s) (hp_head s) xs \<Longrightarrow> outside A s s' \<Longrightarrow> dchain (hp_next s') (hp_prev s') (hp_head s') xs"
  by (simp add: outside_def)

lemma word_length_0: "length xs < 2 ^ 32 \<Longrightarrow> xs \<noteq> [] \<Longrightarrow> (word_of_nat (length xs) :: u32) \<noteq> 0"
  by (metis length_0_conv unat_u32_of_nat unsigned_0)

lemma bounded_step:
  "bounded_memory alloc \<Longrightarrow> k < 31 \<Longrightarrow> alloc (2 ^ Suc k * sizeof_UT_hash_bucket) \<Longrightarrow> Suc k < 31"
proof (rule ccontr)
  assume b: "bounded_memory alloc" and k: "k < 31" and a: "alloc (2 ^ Suc k * sizeof_UT_hash_bucket)" and "\<not> Suc k < 31"
  with k have "k = 30" by simp
  with b a show False by (simp add: bounded_memory_def sizeof_UT_hash_bucket_def)
qed

lemma buckets_rep_rehashed:
  assumes "buckets_rep s bs lbs" "hp_bnext s' = hp_bnext s" "hp_bprev s' = hp_bprev s"
    and "\<And>a. a \<noteq> p \<Longrightarrow> hp_hashv s' a = hp_hashv s a" "p \<notin> elmt ` set (all_handles lbs)"
  shows "buckets_rep s' bs lbs"
proof -
  have "bkt_rep s' bk lb" if "lb \<in> set lbs" "bkt_rep s bk lb" for bk lb
  proof -
    have "elmt h \<noteq> p" if "h \<in> set (hh_chain lb)" for h
      using that \<open>lb \<in> set lbs\<close> assms(5) by (auto simp: all_handles_def)
    with that(2) assms(2-4) show ?thesis by (simp add: bkt_rep_def chain_rep_def)
  qed
  with assms(1) show ?thesis by (auto simp: buckets_rep_def intro: list.rel_mono_strong)
qed

text \<open>The logarithm of the number of buckets, or of that of a new table.\<close>

definition hash_log2 :: "'p uthash \<Rightarrow> nat" where
  "hash_log2 head = (case head of None \<Rightarrow> 5 | Some t \<Rightarrow> unat (log2_num_buckets t))"

text \<open>Insertion computes the insertion of \<open>Uthash\<close>, unless there is no memory for it.\<close>

lemma hash_add_ok:
  assumes r: "rep s head" and wf: "wf_uthash keyof head" and p: "p \<notin> set (HASH_ITER head)"
    and n: "Suc (length (HASH_ITER head)) < 2 ^ 32" and c: "can_expand head" and m: "bounded_memory alloc"
  shows "hash_add alloc keyof p s = Some (Inl Aborted)
      \<and> (\<exists>n \<le> 2 ^ Suc (hash_log2 head) * sizeof_UT_hash_bucket. \<not> alloc n)
    \<or> (\<exists>s'. hash_add alloc keyof p s = Some (Inr s') \<and> rep s' (HASH_ADD keyof head p) \<and> can_expand (HASH_ADD keyof head p))"
proof -
  let ?h = "HASH_JEN (keyof p)"
  define t where "t = (case head of None \<Rightarrow> HASH_MAKE_TABLE | Some t \<Rightarrow> t)"
  define t1 where "t1 = t\<lparr>app_order := app_order t @ [p], num_items := num_items t + 1\<rparr>"
  have add: "HASH_ADD keyof head p = Some (HASH_ADD_TO_BKT t1 (HASH_TO_BKT ?h (num_buckets t1)) \<lparr>elmt = p, hashv = ?h\<rparr>)"
    by (simp add: HASH_ADD_def Let_def t1_def t_def)
  have wft: "wf_table keyof t" using wf by (auto simp: t_def wf_uthash_def wf_make_table split: option.splits)
  have ord: "app_order t = HASH_ITER head"
    by (auto simp: t_def HASH_ITER_def HASH_MAKE_TABLE_def split: option.splits)
  have items: "num_items t1 \<noteq> 0"
  proof -
    have "num_items t1 = word_of_nat (length (app_order t @ [p]))" using wft by (simp add: t1_def wf_table_def)
    then show ?thesis using word_length_0 [of "app_order t @ [p]"] n ord by simp
  qed
  have lg: "unat (log2_num_buckets t1) < 31"
    using c by (auto simp: t1_def t_def can_expand_def HASH_MAKE_TABLE_def HASH_INITIAL_NUM_BUCKETS_LOG2_def split: option.splits)
  have sz: "sized t1" using wf_sized [OF wft] by (simp add: t1_def sized_def)
  have fresh: "p \<notin> elmt ` set (all_handles (buckets t1))"
    using handles_order [OF wft] p ord by (simp add: t1_def)
  let ?s1 = "s\<lparr>hp_next := (hp_next s)(p := None)\<rparr>"
  let ?step = "case hp_head ?s1 of
       None \<Rightarrow> res_bind (hash_make_table alloc p) (\<lambda>t. Inr (?s1\<lparr>hp_head := Some p, hp_prev := (hp_prev ?s1)(p := None), hp_tbl := t\<rparr>))
     | Some h \<Rightarrow> res_bind (non_null (tb_tail (hp_tbl ?s1))) (\<lambda>l.
         Inr (?s1\<lparr>hp_next := (hp_next ?s1)(l := Some p), hp_prev := (hp_prev ?s1)(p := Some l), hp_tbl := (hp_tbl ?s1)\<lparr>tb_tail := Some p\<rparr>\<rparr>))"
  let ?fin = "\<lambda>s2. s2\<lparr>hp_tbl := (hp_tbl s2)\<lparr>tb_items := tb_items (hp_tbl s2) + 1\<rparr>, hp_hashv := (hp_hashv s2)(p := ?h)\<rparr>"
  have "?step = Inl Aborted \<and> (\<exists>n \<le> 2 ^ Suc (hash_log2 head) * sizeof_UT_hash_bucket. \<not> alloc n) \<or> (\<exists>s2. ?step = Inr s2 \<and> dchain (hp_next s2) (hp_prev s2) (hp_head s2) (app_order t1)
      \<and> tb_tail (hp_tbl s2) = Some p \<and> table_rep (hp_tbl (?fin s2)) t1 \<and> buckets_rep (?fin s2) (tb_buckets (hp_tbl s2)) (buckets t))"
  proof (cases head)
    case None
    have z: "sizeof_UT_hash_table \<le> 2 ^ Suc (hash_log2 head) * sizeof_UT_hash_bucket"
      "unat HASH_INITIAL_NUM_BUCKETS * sizeof_UT_hash_bucket \<le> 2 ^ Suc (hash_log2 head) * sizeof_UT_hash_bucket"
      using None by (simp_all add: hash_log2_def sizeof_UT_hash_table_def sizeof_UT_hash_bucket_def HASH_INITIAL_NUM_BUCKETS_def)
    show ?thesis
    proof (cases "alloc sizeof_UT_hash_table \<and> alloc (unat HASH_INITIAL_NUM_BUCKETS * sizeof_UT_hash_bucket)")
      case True
      with r None show ?thesis
        by (auto simp: rep_def hash_make_table_def check_def t1_def t_def HASH_MAKE_TABLE_def table_rep_def dchain_def
            buckets_rep_zero)
    next
      case False
      then have "hash_make_table alloc p = Inl Aborted" by (auto simp: hash_make_table_def check_def)
      moreover have "\<exists>n \<le> 2 ^ Suc (hash_log2 head) * sizeof_UT_hash_bucket. \<not> alloc n" using z False by blast
      moreover have "hp_head s = None" using r None by (simp add: rep_def)
      ultimately show ?thesis by simp
    qed
  next
    case (Some u)
    then have t: "t = u" and ru: "app_order t \<noteq> []" "dchain (hp_next s) (hp_prev s) (hp_head s) (app_order t)"
      "tb_tail (hp_tbl s) = Some (last (app_order t))" "table_rep (hp_tbl s) t" "buckets_rep s (tb_buckets (hp_tbl s)) (buckets t)"
      using r by (simp_all add: rep_def t_def)
    have pt: "p \<notin> set (app_order t)" using p ord by simp
    show ?thesis
      using ru dchain_snoc [OF ru(2) pt ru(1)] dchain_head [OF ru(2)] fresh
      by (auto simp: t1_def table_rep_def intro!: buckets_rep_rehashed [OF ru(5), of _ p])
  qed
  then consider "?step = Inl Aborted" "\<exists>n \<le> 2 ^ Suc (hash_log2 head) * sizeof_UT_hash_bucket. \<not> alloc n" | s2 where "?step = Inr s2" "dchain (hp_next s2) (hp_prev s2) (hp_head s2) (app_order t1)"
      "tb_tail (hp_tbl s2) = Some p" "table_rep (hp_tbl (?fin s2)) t1" "buckets_rep (?fin s2) (tb_buckets (hp_tbl s2)) (buckets t)" by blast
  then show ?thesis
  proof cases
    case 1
    then show ?thesis unfolding hash_add_def Let_def by (simp only: opt_res_bind_simps simp_thms)
  next
    case 2
    have br: "buckets_rep (?fin s2) (tb_buckets (hp_tbl (?fin s2))) (buckets t1)" using 2(5) by (simp add: t1_def)
    have hv: "hp_hashv (?fin s2) p = ?h" by simp
    have num: "tb_num (hp_tbl (?fin s2)) = num_buckets t1" using 2(4) by (simp only: table_rep_def)
    have f: "hash_add alloc keyof p s = hash_add_to_bkt alloc (HASH_TO_BKT ?h (num_buckets t1)) p (?fin s2)"
      unfolding hash_add_def Let_def 2(1) opt_res_bind_simps hv num ..
    have d: "dchain (hp_next (?fin s2)) (hp_prev (?fin s2)) (hp_head (?fin s2)) (app_order t1)" using 2(2) by simp
    let ?t' = "HASH_ADD_TO_BKT t1 (HASH_TO_BKT ?h (num_buckets t1)) \<lparr>elmt = p, hashv = ?h\<rparr>"
    have ord': "app_order ?t' = app_order t1"
      by (simp add: HASH_ADD_TO_BKT_def HASH_EXPAND_BUCKETS_def Let_def split: prod.splits)
    have lg2: "unat (log2_num_buckets t1) = hash_log2 head"
      by (auto simp: t1_def t_def hash_log2_def HASH_MAKE_TABLE_def HASH_INITIAL_NUM_BUCKETS_LOG2_def split: option.splits)
    have "app_order t1 \<noteq> []" "last (app_order t1) = p" by (simp_all add: t1_def)
    with add_to_bkt_ok [OF sz lg items 2(4) br fresh, of alloc, unfolded hv] show ?thesis
      unfolding f add lg2 [symmetric] using ord' outside_order [OF d] 2(3) lg bounded_step [OF m lg]
      by (auto simp: rep_def can_expand_def unat_add)
  qed
qed

end
