(* ===== verification/Uthash_Map.thy ===== *)
theory Uthash_Map
  imports Uthash_Refines
begin

text \<open>
  Deletion, on lists and on the nodes, lookup, iteration, counting and the consistency check on the nodes,
  and what they give together: a sequence of insertions and deletions through the macros is a sequence of
  changes of a map.
\<close>

section \<open>Deletion on lists\<close>

definition HASH_DELETE :: "('p \<Rightarrow> byte list) \<Rightarrow> 'p uthash \<Rightarrow> 'p \<Rightarrow> 'p uthash" where
  "HASH_DELETE keyof head p =
     (case head of
        None \<Rightarrow> None
      | Some t \<Rightarrow>
          if app_order t = [p] then None
          else let b = HASH_TO_BKT (HASH_JEN (keyof p)) (num_buckets t); bk = buckets t ! b
               in Some (t\<lparr>app_order := remove1 p (app_order t), num_items := num_items t - 1,
                     buckets := (buckets t)[b := bk\<lparr>hh_chain := filter (\<lambda>h. elmt h \<noteq> p) (hh_chain bk),
                                                   bkt_count := bkt_count bk - 1\<rparr>]\<rparr>))"

lemma mset_all_handles_remove:
  assumes "b < length bs" "hh_chain (bs ! b) = us @ h # vs" "hh_chain bk = us @ vs"
  shows "mset (all_handles bs) = add_mset h (mset (all_handles (bs[b := bk])))"
  using assms
proof (induction bs arbitrary: b)
  case (Cons x bs)
  then show ?case by (cases b) (auto simp: all_handles_def)
qed simp

text \<open>Where the handle of an element is.\<close>

lemma handle_position:
  assumes wf: "wf_table keyof t" and p: "p \<in> set (app_order t)" and d: "distinct (map elmt (all_handles (buckets t)))"
  defines "b \<equiv> HASH_TO_BKT (HASH_JEN (keyof p)) (num_buckets t)"
  obtains us vs h where "b < length (buckets t)" "hh_chain (buckets t ! b) = us @ h # vs" "elmt h = p"
    "hashv h = HASH_JEN (keyof p)" "filter (\<lambda>h. elmt h \<noteq> p) (hh_chain (buckets t ! b)) = us @ vs"
proof -
  have b: "b < length (buckets t)" unfolding b_def by (rule HASH_TO_BKT_bucket [OF wf_sized [OF wf]])
  have "p \<in> elmt ` set (all_handles (buckets t))" using p handles_order [OF wf] by blast
  then obtain h where h: "h \<in> set (all_handles (buckets t))" "elmt h = p" by auto
  then obtain c where c: "c < length (buckets t)" "h \<in> set (hh_chain (buckets t ! c))"
    by (auto simp: all_handles_def in_set_conv_nth [of _ "buckets t"])
  have hv: "hashv h = HASH_JEN (keyof p)" "HASH_TO_BKT (hashv h) (num_buckets t) = c"
    using wf h c unfolding wf_table_def wf_buckets_def by blast+
  then have "c = b" by (simp add: b_def)
  with c obtain us vs where ch: "hh_chain (buckets t ! b) = us @ h # vs" by (auto dest: split_list)
  have "distinct (map elmt (hh_chain (buckets t ! b)))"
    using d b by (auto simp: all_handles_def map_concat distinct_concat_iff comp_def)
  with ch h(2) have "filter (\<lambda>h. elmt h \<noteq> p) us = us" "filter (\<lambda>h. elmt h \<noteq> p) vs = vs"
    by (auto simp: filter_id_conv) (metis imageI)+
  with b ch h(2) hv(1) that show thesis by simp
qed

lemma HASH_DELETE_wf:
  assumes wf: "wf_uthash keyof head" and p: "p \<in> set (HASH_ITER head)" and d: "distinct (HASH_ITER head)"
  shows "wf_uthash keyof (HASH_DELETE keyof head p) \<and> HASH_ITER (HASH_DELETE keyof head p) = remove1 p (HASH_ITER head)"
proof -
  from p obtain t where head: "head = Some t" by (cases head) (auto simp: HASH_ITER_def)
  have wft: "wf_table keyof t" and pt: "p \<in> set (app_order t)" using wf p head by (simp_all add: wf_uthash_def HASH_ITER_def)
  have dt: "distinct (map elmt (all_handles (buckets t)))"
    using wft d head by (metis HASH_ITER_def mset_eq_imp_distinct_iff option.case(2) wf_table_def)
  show ?thesis
  proof (cases "app_order t = [p]")
    case True
    with head show ?thesis by (simp add: HASH_DELETE_def HASH_ITER_def wf_uthash_def)
  next
    case False
    let ?b = "HASH_TO_BKT (HASH_JEN (keyof p)) (num_buckets t)" let ?bk = "buckets t ! ?b"
    obtain us vs h where h: "?b < length (buckets t)" "hh_chain ?bk = us @ h # vs" "elmt h = p"
      "filter (\<lambda>h. elmt h \<noteq> p) (hh_chain ?bk) = us @ vs"
      by (rule handle_position [OF wft pt dt]) blast
    let ?bk' = "?bk\<lparr>hh_chain := us @ vs, bkt_count := bkt_count ?bk - 1\<rparr>"
    define bs' where "bs' = (buckets t)[?b := ?bk']"
    have m: "mset (all_handles (buckets t)) = add_mset h (mset (all_handles bs'))"
      unfolding bs'_def by (rule mset_all_handles_remove [OF h(1,2)]) simp
    then have s: "set (all_handles bs') \<subseteq> set (all_handles (buckets t))"
      by (metis set_mset_add_mset_insert set_mset_mset subset_insertI)
    have "mset (map elmt (all_handles (buckets t))) = mset (app_order t)" using wft by (simp only: wf_table_def)
    then have "add_mset p (mset (map elmt (all_handles bs'))) = mset (app_order t)"
      using m h(3) by simp
    then have o: "mset (map elmt (all_handles bs')) = mset (remove1 p (app_order t))"
      by (metis add_mset_remove_trivial mset_remove1)
    have w: "wf_buckets (num_buckets t) bs'"
      using wft h(1,2) by (auto simp: bs'_def wf_table_def wf_buckets_def nth_list_update)
    have l: "Suc (length (remove1 p (app_order t))) = length (app_order t)"
      using pt by (simp add: length_remove1) (metis Suc_pred length_pos_if_in_set)
    then have n: "num_items t - 1 = word_of_nat (length (remove1 p (app_order t)))"
      using wft by (simp add: wf_table_def flip: l)
    have "wf_table keyof (t\<lparr>app_order := remove1 p (app_order t), num_items := num_items t - 1, buckets := bs'\<rparr>)"
      using wft w s o n unfolding wf_table_def by (auto simp del: mset_map simp: bs'_def)
    with head False h(4) show ?thesis by (simp add: bs'_def HASH_DELETE_def HASH_ITER_def wf_uthash_def Let_def)
  qed
qed

section \<open>Deletion on the nodes\<close>

lemma del_in_bkt_ok:
  assumes br: "buckets_rep s (tb_buckets (hp_tbl s)) lbs" and b: "b < length lbs" and ch: "hh_chain (lbs ! b) = us @ h # vs"
    and lb: "hh_chain lb = us @ vs" "bkt_count lb = bkt_count (lbs ! b) - 1" "expand_mult lb = expand_mult (lbs ! b)"
  shows "\<exists>s' bs. hash_del_in_bkt b (elmt h) s = Inr s' \<and> hp_tbl s' = (hp_tbl s)\<lparr>tb_buckets := bs\<rparr>
    \<and> buckets_rep s' bs (lbs[b := lb]) \<and> outside (elmt ` set (all_handles lbs)) s s'"
proof -
  let ?bk = "tb_buckets (hp_tbl s) ! b" let ?a = "elmt h"
  have nth: "b < length (tb_buckets (hp_tbl s))" "bkt_rep s ?bk (lbs ! b)" using buckets_rep_nth [OF br b] by auto
  have dc: "dchain (hp_bnext s) (hp_bprev s) (hh_head ?bk) (map elmt us @ ?a # map elmt vs)"
    using nth(2) ch by (simp add: bkt_rep_def chain_rep_def)
  have dist: "distinct (map elmt us @ ?a # map elmt vs)" using dc by (simp add: dchain_def)
  note sp = dchain_split [OF dc]
  have "map elmt us \<noteq> [] \<Longrightarrow> last (map elmt us) \<in> set (map elmt us)" by (rule last_in_set)
  then have na: "hp_bprev s ?a \<noteq> Some ?a" using sp(2) dist by auto
  have hd: "hh_head ?bk = Some ?a \<longleftrightarrow> us = []" using sp(3) dist by (cases us) auto
  define bk2 where "bk2 = ?bk\<lparr>bkt_items := bkt_items ?bk - 1, hh_head := (if us = [] then hp_bnext s ?a else hh_head ?bk)\<rparr>"
  define s' where "s' = s\<lparr>hp_tbl := (hp_tbl s)\<lparr>tb_buckets := (tb_buckets (hp_tbl s))[b := bk2]\<rparr>,
    hp_bnext := cut_next (hp_bnext s) (hp_bprev s) ?a, hp_bprev := cut_prev (hp_bnext s) (hp_bprev s) ?a\<rparr>"
  have f: "hash_del_in_bkt b ?a s = Inr s'"
    using nth(1) hd na
    by (auto simp: hash_del_in_bkt_def Let_def s'_def bk2_def cut_next_def cut_prev_def split: option.splits)
  have r: "bkt_rep s' bk2 lb"
    using nth(2) dchain_cut [OF dc] lb ch by (auto simp: bkt_rep_def chain_rep_def s'_def bk2_def)
  have o: "outside (elmt ` set (hh_chain (lbs ! b))) s s'"
    using cut_other [OF dc, of ?a] ch by (auto simp: outside_def s'_def)
  have m: "mset (all_handles lbs) = add_mset h (mset (all_handles (lbs[b := lb])))"
    by (rule mset_all_handles_remove [OF b ch lb(1)])
  have "distinct (map elmt (h # all_handles (lbs[b := lb])))"
    using br m by (metis buckets_rep_def mset.simps(2) mset_eq_imp_distinct_iff mset_map)
  then have d: "distinct (map elmt (all_handles (lbs[b := lb])))" by simp
  have "buckets_rep s' ((tb_buckets (hp_tbl s))[b := bk2]) (lbs[b := lb])"
    by (rule buckets_rep_update [OF br b o, where B = "{}"]) (use r d in auto)
  moreover have "outside (elmt ` set (all_handles lbs)) s s'"
    by (rule outside_trans [OF o outside_refl, of _ "{}"]) (use chain_subset [OF b] in auto)
  ultimately show ?thesis using f by (intro exI [of _ s'] exI [of _ "(tb_buckets (hp_tbl s))[b := bk2]"]) (simp add: s'_def)
qed


lemma hash_unlink_fields:
  assumes "hp_prev s p \<noteq> Some p"
  shows "hp_next (hash_unlink p s) = cut_next (hp_next s) (hp_prev s) p"
    "hp_prev (hash_unlink p s) = cut_prev (hp_next s) (hp_prev s) p"
    "hp_head (hash_unlink p s) = (if hp_prev s p = None then hp_next s p else hp_head s)"
    "hp_bnext (hash_unlink p s) = hp_bnext s" "hp_bprev (hash_unlink p s) = hp_bprev s" "hp_hashv (hash_unlink p s) = hp_hashv s"
    "hp_tbl (hash_unlink p s) = (hp_tbl s)\<lparr>tb_tail := (if tb_tail (hp_tbl s) = Some p then hp_prev s p else tb_tail (hp_tbl s))\<rparr>"
  using assms by (auto simp: hash_unlink_def Let_def cut_next_def cut_prev_def split: option.splits)

lemma hash_delete_ok:
  assumes r: "rep s head" and wf: "wf_uthash keyof head" and p: "p \<in> set (HASH_ITER head)"
  shows "\<exists>s'. hash_delete p s = Inr s' \<and> rep s' (HASH_DELETE keyof head p)"
proof -
  from p obtain t where head: "head = Some t" by (cases head) (auto simp: HASH_ITER_def)
  have wft: "wf_table keyof t" and pt: "p \<in> set (app_order t)" using wf p head by (simp_all add: wf_uthash_def HASH_ITER_def)
  have ru: "app_order t \<noteq> []" "dchain (hp_next s) (hp_prev s) (hp_head s) (app_order t)"
    "tb_tail (hp_tbl s) = Some (last (app_order t))" "table_rep (hp_tbl s) t" "buckets_rep s (tb_buckets (hp_tbl s)) (buckets t)"
    using r head by (simp_all add: rep_def)
  have dt: "distinct (map elmt (all_handles (buckets t)))" using ru(5) by (simp add: buckets_rep_def)
  obtain us vs where app: "app_order t = us @ p # vs" using split_list [OF pt] by blast
  have dist: "distinct (us @ p # vs)" using ru(2) app by (simp add: dchain_def)
  note dc = ru(2) [unfolded app]
  note sp = dchain_split [OF dc]
  obtain hd0 where hd: "hp_head s = Some hd0" using sp(3) by simp
  show ?thesis
  proof (cases "app_order t = [p]")
    case True
    with app have "us = []" "vs = []" by (cases us; simp)+
    with sp hd True head show ?thesis
      by (simp add: hash_delete_def HASH_DELETE_def rep_def)
  next
    case False
    with app have ne: "us \<noteq> [] \<or> vs \<noteq> []" by auto
    let ?b = "HASH_TO_BKT (HASH_JEN (keyof p)) (num_buckets t)" let ?bk = "buckets t ! ?b"
    obtain hus hvs h where h: "?b < length (buckets t)" "hh_chain ?bk = hus @ h # hvs" "elmt h = p"
      "hashv h = HASH_JEN (keyof p)" "filter (\<lambda>h. elmt h \<noteq> p) (hh_chain ?bk) = hus @ hvs"
      by (rule handle_position [OF wft pt dt]) blast
    let ?lb = "?bk\<lparr>hh_chain := hus @ hvs, bkt_count := bkt_count ?bk - 1\<rparr>"
    define s3 where "s3 = hash_unlink p s"
    have "us \<noteq> [] \<Longrightarrow> last us \<noteq> p" using dist last_in_set [of us] by auto
    then have np: "hp_prev s p \<noteq> Some p" using sp(2) by auto
    note s3 = hash_unlink_fields [OF np, folded s3_def]
    have hv: "hp_hashv s3 p = HASH_JEN (keyof p)"
    proof -
      have "\<forall>x \<in> set (hh_chain ?bk). hp_hashv s (elmt x) = hashv x"
        using buckets_rep_nth [OF ru(5) h(1)] by (simp add: bkt_rep_def chain_rep_def)
      then show ?thesis using h by (simp add: s3)
    qed
    have num: "tb_num (hp_tbl s3) = num_buckets t" using ru(4) by (simp add: s3 table_rep_def)
    have f: "hash_delete p s = res_bind (hash_del_in_bkt ?b p s3) (\<lambda>s4.
        Inr (s4\<lparr>hp_tbl := (hp_tbl s4)\<lparr>tb_items := tb_items (hp_tbl s4) - 1\<rparr>\<rparr>))"
      unfolding hash_delete_def Let_def s3_def [symmetric] hv num using ne sp hd by auto
    have br: "buckets_rep s3 (tb_buckets (hp_tbl s3)) (buckets t)"
      using ru(5) by (simp add: s3 buckets_rep_def bkt_rep_def [abs_def] chain_rep_def)
    from del_in_bkt_ok [OF br h(1,2), of ?lb] h(3) obtain s4 bs where
      s4: "hash_del_in_bkt ?b p s3 = Inr s4" "hp_tbl s4 = (hp_tbl s3)\<lparr>tb_buckets := bs\<rparr>"
        "buckets_rep s4 bs ((buckets t)[?b := ?lb])" "outside (elmt ` set (all_handles (buckets t))) s3 s4" by auto
    have d3: "dchain (hp_next s3) (hp_prev s3) (hp_head s3) (us @ vs)"
      using dchain_cut [OF dc] sp(2) by (cases "us = []") (simp_all add: s3)
    have rem: "remove1 p (app_order t) = us @ vs" using dist app by (simp add: remove1_append)
    have tl: "tb_tail (hp_tbl s3) = Some (last (us @ vs))"
      using ru(3) app sp(2) dist ne by (cases vs rule: rev_cases) (auto simp: s3)
    let ?s' = "s4\<lparr>hp_tbl := (hp_tbl s4)\<lparr>tb_items := tb_items (hp_tbl s4) - 1\<rparr>\<rparr>"
    have "table_rep (hp_tbl ?s') (t\<lparr>app_order := us @ vs, num_items := num_items t - 1, buckets := (buckets t)[?b := ?lb]\<rparr>)"
      using ru(4) s4(2) by (simp add: table_rep_def s3)
    moreover have "buckets_rep ?s' bs ((buckets t)[?b := ?lb])"
      using s4(3) by (simp add: buckets_rep_def bkt_rep_def [abs_def] chain_rep_def)
    moreover have "tb_buckets (hp_tbl ?s') = bs" "tb_tail (hp_tbl ?s') = Some (last (us @ vs))"
      using s4(2) tl by simp_all
    moreover have "dchain (hp_next ?s') (hp_prev ?s') (hp_head ?s') (us @ vs)"
      using outside_order [OF d3 s4(4)] by simp
    ultimately have "rep ?s' (HASH_DELETE keyof head p)"
      using head False ne h(5) rem by (simp add: HASH_DELETE_def Let_def rep_def)
    then show ?thesis using f s4(1) by simp
  qed
qed

section \<open>Lookup, iteration and the check on the nodes\<close>

lemma find_in_chain_ok:
  "walk nx h (map elmt hs) None \<Longrightarrow> find_in_chain keyof nx k h = Some (HASH_FIND_IN_BKT keyof hs k)"
  by (induction hs arbitrary: h) (subst find_in_chain.simps, simp)+

lemma hash_find_ok:
  assumes r: "rep s head" and wf: "wf_uthash keyof head"
  shows "hash_find keyof s k = Some (Inr (HASH_FIND keyof head k))"
proof (cases head)
  case None
  with r show ?thesis by (simp add: rep_def hash_find_def HASH_FIND_def)
next
  case (Some t)
  let ?b = "HASH_TO_BKT (HASH_JEN k) (num_buckets t)"
  have b: "?b < length (buckets t)" using wf Some by (simp add: wf_uthash_def HASH_TO_BKT_bucket wf_sized)
  have r': "hp_head s \<noteq> None" "tb_num (hp_tbl s) = num_buckets t" "buckets_rep s (tb_buckets (hp_tbl s)) (buckets t)"
    using r Some dchain_head by (fastforce simp: rep_def table_rep_def)+
  from buckets_rep_nth [OF r'(3) b] have "?b < length (tb_buckets (hp_tbl s))"
    "walk (hp_bnext s) (hh_head (tb_buckets (hp_tbl s) ! ?b)) (map elmt (hh_chain (buckets t ! ?b))) None"
    by (simp_all add: bkt_rep_def chain_rep_def dchain_def)
  with r' Some show ?thesis by (auto simp: hash_find_def HASH_FIND_def find_in_chain_ok)
qed

lemma hash_iter_ok: "rep s head \<Longrightarrow> hash_iter s = Some (HASH_ITER head)"
  by (cases head)
    (simp_all add: rep_def hash_iter_def HASH_ITER_def dchain_def LL_FOREACH_chain chain_walk LL_FOREACH.simps [of _ None])

lemma hash_cnt_ok: "rep s head \<Longrightarrow> hash_cnt s = HASH_COUNT head"
proof (cases head)
  case (Some t)
  moreover assume "rep s head"
  ultimately have "app_order t \<noteq> []" "dchain (hp_next s) (hp_prev s) (hp_head s) (app_order t)" "table_rep (hp_tbl s) t"
    by (simp_all add: rep_def)
  with dchain_head [OF this(2)] Some show ?thesis by (simp add: hash_cnt_def HASH_COUNT_def table_rep_def)
qed (simp add: rep_def hash_cnt_def HASH_COUNT_def)

lemma fsck_walk_ok:
  "walk nx h xs None \<Longrightarrow> walk pv (if xs = [] then l else Some (last xs)) (rev xs) l \<Longrightarrow>
     fsck_walk nx pv l h n = Some (Inr (n + word_of_nat (length xs)))"
proof (induction xs arbitrary: h l n)
  case Nil
  then show ?case by (simp add: fsck_walk.simps)
next
  case (Cons x xs)
  have w: "h = Some x" "walk nx (nx x) xs None" "pv x = l" using Cons.prems by auto
  have "walk pv (if xs = [] then Some x else Some (last xs)) (rev xs) (Some x)"
    using Cons.prems(2) by (auto split: if_splits)
  from Cons.IH [OF w(2) this] w show ?case by (subst fsck_walk.simps) (simp add: add.assoc)
qed

lemma fsck_buckets_ok:
  "list_all2 (bkt_rep s) bs lbs \<Longrightarrow> list_all (\<lambda>bk. bkt_count bk = word_of_nat (length (hh_chain bk))) lbs \<Longrightarrow>
     fsck_buckets (hp_bnext s) (hp_bprev s) bs n = Some (Inr (n + word_of_nat (sum_list (map (length \<circ> hh_chain) lbs))))"
proof (induction bs arbitrary: lbs n)
  case (Cons bk bs)
  then obtain lb lbs' where l: "lbs = lb # lbs'" "bkt_rep s bk lb" "list_all2 (bkt_rep s) bs lbs'" by (auto simp: list_all2_Cons1)
  then have "fsck_walk (hp_bnext s) (hp_bprev s) None (hh_head bk) 0 = Some (Inr (word_of_nat (length (hh_chain lb))))"
    using fsck_walk_ok [of "hp_bnext s" "hh_head bk" "map elmt (hh_chain lb)" "hp_bprev s" None 0]
    by (simp add: bkt_rep_def chain_rep_def dchain_def)
  moreover have "bkt_items bk = word_of_nat (length (hh_chain lb))" "list_all (\<lambda>bk. bkt_count bk = word_of_nat (length (hh_chain bk))) lbs'"
    using l(1,2) Cons.prems(2) by (simp_all add: bkt_rep_def)
  ultimately show ?case using Cons.IH [OF l(3)] l(1) by (simp add: add.assoc)
qed simp

lemma fsck_buckets_wf:
  assumes wft: "wf_table keyof t" and r: "list_all2 (bkt_rep s) bs (buckets t)"
  shows "fsck_buckets (hp_bnext s) (hp_bprev s) (take (unat (num_buckets t)) bs) 0 = Some (Inr (num_items t))"
proof -
  have "length bs = length (buckets t)" using r by (rule list_all2_lengthD)
  then have tk: "take (unat (num_buckets t)) bs = bs" using wft by (simp add: wf_table_def)
  have "length (map elmt (all_handles (buckets t))) = length (app_order t)"
    using wft by (metis wf_table_def size_mset)
  then have sum: "sum_list (map (length \<circ> hh_chain) (buckets t)) = length (app_order t)"
    by (simp add: all_handles_def length_concat comp_def)
  have "list_all (\<lambda>bk. bkt_count bk = word_of_nat (length (hh_chain bk))) (buckets t)"
    using wft by (auto simp: wf_table_def wf_buckets_def list_all_length)
  from fsck_buckets_ok [OF r this, of 0] sum wft tk show ?thesis by (simp add: wf_table_def)
qed

lemma hash_fsck_ok:
  assumes r: "rep s head" and wf: "wf_uthash keyof head"
  shows "hash_fsck s = Some (Inr ())"
proof (cases head)
  case None
  with r show ?thesis by (simp add: rep_def hash_fsck_def)
next
  case (Some t)
  have wft: "wf_table keyof t" using wf Some by (simp add: wf_uthash_def)
  have r': "app_order t \<noteq> []" "dchain (hp_next s) (hp_prev s) (hp_head s) (app_order t)" "tb_num (hp_tbl s) = num_buckets t"
    "tb_items (hp_tbl s) = num_items t" "list_all2 (bkt_rep s) (tb_buckets (hp_tbl s)) (buckets t)"
    using r Some by (auto simp: rep_def table_rep_def buckets_rep_def)
  obtain h where h: "hp_head s = Some h" using dchain_head [OF r'(2)] r'(1) by auto
  have "fsck_walk (hp_next s) (hp_prev s) None (Some h) 0 = Some (Inr (num_items t))"
    using fsck_walk_ok [of "hp_next s" "Some h" "app_order t" "hp_prev s" None 0] r'(1,2) h wft
    by (simp add: dchain_def wf_table_def)
  with fsck_buckets_wf [OF wft r'(5)] h r'(3,4) show ?thesis by (simp add: hash_fsck_def)
qed

section \<open>Sequences of calls\<close>

datatype 'p hash_call = Hash_Add 'p | Hash_Del 'p

fun hash_do :: "(nat \<Rightarrow> bool) \<Rightarrow> ('p \<Rightarrow> byte list) \<Rightarrow> 'p hash_call \<Rightarrow> 'p hash \<Rightarrow> 'p hash res option" where
  "hash_do alloc keyof (Hash_Add p) s = hash_add alloc keyof p s"
| "hash_do alloc keyof (Hash_Del p) s = Some (hash_delete p s)"

fun hash_run :: "(nat \<Rightarrow> bool) \<Rightarrow> ('p \<Rightarrow> byte list) \<Rightarrow> 'p hash_call list \<Rightarrow> 'p hash \<Rightarrow> 'p hash res option" where
  "hash_run alloc keyof [] s = Some (Inr s)"
| "hash_run alloc keyof (c # cs) s = opt_res_bind (hash_do alloc keyof c s) (hash_run alloc keyof cs)"

text \<open>The same calls on the list of elements: a new key, or an element that is there.\<close>

fun hash_items :: "('p \<Rightarrow> byte list) \<Rightarrow> 'p hash_call list \<Rightarrow> 'p list \<Rightarrow> 'p list option" where
  "hash_items keyof [] xs = Some xs"
| "hash_items keyof (Hash_Add p # cs) xs =
     (if keyof p \<in> keyof ` set xs then None else hash_items keyof cs (xs @ [p]))"
| "hash_items keyof (Hash_Del p # cs) xs =
     (if p \<in> set xs then hash_items keyof cs (remove1 p xs) else None)"

fun insertions :: "'p hash_call list \<Rightarrow> nat" where
  "insertions [] = 0"
| "insertions (Hash_Add _ # cs) = Suc (insertions cs)"
| "insertions (Hash_Del _ # cs) = insertions cs"

definition stands_for :: "('p \<Rightarrow> byte list) \<Rightarrow> 'p hash \<Rightarrow> 'p uthash \<Rightarrow> 'p list \<Rightarrow> bool" where
  "stands_for keyof s head xs \<longleftrightarrow> rep s head \<and> wf_uthash keyof head \<and> can_expand head \<and> HASH_ITER head = xs
     \<and> distinct (map keyof xs)"

lemma hash_log2_delete: "hash_log2 (HASH_DELETE keyof head p) \<le> max 5 (hash_log2 head)"
  "can_expand head \<Longrightarrow> can_expand (HASH_DELETE keyof head p)"
  by (auto simp: hash_log2_def can_expand_def HASH_DELETE_def Let_def split: option.splits)

lemma hash_log2_add: "wf_uthash keyof head \<Longrightarrow> can_expand head \<Longrightarrow> hash_log2 (HASH_ADD keyof head p) \<le> Suc (hash_log2 head)"
  using log2_add [of keyof head p] by (auto simp: hash_log2_def split: option.splits)

lemma hash_run_ok:
  "\<lbrakk>stands_for keyof s head xs; hash_items keyof cs xs = Some ys; bounded_memory alloc; length xs + length cs < 2 ^ 32\<rbrakk> \<Longrightarrow>
   (hash_run alloc keyof cs s = Some (Inl Aborted)
      \<and> (\<exists>n \<le> 2 ^ (max 5 (hash_log2 head) + insertions cs) * sizeof_UT_hash_bucket. \<not> alloc n))
   \<or> (\<exists>s' head'. hash_run alloc keyof cs s = Some (Inr s') \<and> stands_for keyof s' head' ys)"
proof (induction cs arbitrary: s head xs)
  case Nil
  then show ?case by auto
next
  case (Cons c cs)
  have r: "rep s head" "wf_uthash keyof head" "can_expand head" "HASH_ITER head = xs" "distinct (map keyof xs)"
    using Cons.prems(1) by (simp_all add: stands_for_def)
  have mono: "\<exists>n \<le> 2 ^ l * sizeof_UT_hash_bucket. \<not> alloc n" if "\<exists>n \<le> 2 ^ k * sizeof_UT_hash_bucket. \<not> alloc n" "k \<le> l" for k l
  proof -
    have "(2 :: nat) ^ k * sizeof_UT_hash_bucket \<le> 2 ^ l * sizeof_UT_hash_bucket" using that(2) by (simp add: power_increasing)
    with that(1) show ?thesis by (meson le_trans)
  qed
  show ?case
  proof (cases c)
    case (Hash_Add p)
    with Cons.prems(2) have p: "keyof p \<notin> keyof ` set xs" "hash_items keyof cs (xs @ [p]) = Some ys" by (auto split: if_splits)
    then have px: "p \<notin> set (HASH_ITER head)" using r(4) by auto
    have n: "Suc (length (HASH_ITER head)) < 2 ^ 32" using Cons.prems(4) r(4) by simp
    from hash_add_ok [OF r(1,2) px n r(3) Cons.prems(3)] consider
      "hash_add alloc keyof p s = Some (Inl Aborted)" "\<exists>n \<le> 2 ^ Suc (hash_log2 head) * sizeof_UT_hash_bucket. \<not> alloc n"
      | s1 where "hash_add alloc keyof p s = Some (Inr s1)" "rep s1 (HASH_ADD keyof head p)" "can_expand (HASH_ADD keyof head p)" by blast
    then show ?thesis
    proof cases
      case 1
      then show ?thesis using mono [OF 1(2), of "max 5 (hash_log2 head) + insertions (c # cs)"] Hash_Add by simp
    next
      case 2
      have s1: "stands_for keyof s1 (HASH_ADD keyof head p) (xs @ [p])"
        using 2(2,3) HASH_ADD_wf [OF r(2,3), of p] r(4,5) p(1) by (simp add: stands_for_def)
      have l: "length (xs @ [p]) + length cs < 2 ^ 32" using Cons.prems(4) by simp
      have k: "max 5 (hash_log2 (HASH_ADD keyof head p)) + insertions cs \<le> max 5 (hash_log2 head) + insertions (c # cs)"
        using hash_log2_add [OF r(2,3), of p] Hash_Add by (simp add: max_def)
      from Cons.IH [OF s1 p(2) Cons.prems(3) l] 2(1) Hash_Add mono [OF _ k] show ?thesis by auto
    qed
  next
    case (Hash_Del p)
    with Cons.prems(2) have p: "p \<in> set xs" "hash_items keyof cs (remove1 p xs) = Some ys" by (auto split: if_splits)
    then have px: "p \<in> set (HASH_ITER head)" using r(4) by simp
    from hash_delete_ok [OF r(1,2) px] obtain s1 where s1: "hash_delete p s = Inr s1" "rep s1 (HASH_DELETE keyof head p)" by blast
    have "distinct (HASH_ITER head)" using r(4,5) by (simp add: distinct_map)
    from HASH_DELETE_wf [OF r(2) px this] have st: "stands_for keyof s1 (HASH_DELETE keyof head p) (remove1 p xs)"
      using s1(2) hash_log2_delete(2) [OF r(3)] r(4,5) by (auto simp: stands_for_def distinct_map intro: inj_on_subset set_remove1_subset)
    have l: "length (remove1 p xs) + length cs < 2 ^ 32" using Cons.prems(4) length_remove1 [of p xs] by (auto split: if_splits)
    have k: "max 5 (hash_log2 (HASH_DELETE keyof head p)) + insertions cs \<le> max 5 (hash_log2 head) + insertions (c # cs)"
      using hash_log2_delete(1) [of keyof head p] Hash_Del by simp
    from Cons.IH [OF st p(2) Cons.prems(3) l] s1(1) Hash_Del mono [OF _ k] show ?thesis by auto
  qed
qed

lemma HASH_FIND_items:
  assumes "wf_uthash keyof head" "distinct (map keyof (HASH_ITER head))"
  shows "HASH_FIND keyof head k = find (\<lambda>p. keyof p = k) (HASH_ITER head)"
proof -
  have kd: "uthash.keyed keyof head" using assms by (simp add: uthash.keyed_def)
  show ?thesis
  proof (cases "find (\<lambda>p. keyof p = k) (HASH_ITER head)")
    case None
    then have "k \<notin> keyof ` set (HASH_ITER head)" by (auto simp: List.find_None_iff)
    with uthash.find_None_iff [OF assms(1), of k] have "HASH_FIND keyof head k = None" by simp
    with None show ?thesis by simp
  next
    case (Some p)
    then have "p \<in> set (HASH_ITER head)" "keyof p = k" by (auto simp: find_Some_iff)
    with uthash.find_iff [OF kd, of k p] Some show ?thesis by simp
  qed
qed

section \<open>Properties\<close>

text \<open>C18: a sequence of insertions of elements with new keys and deletions of elements that are in the table,
  starting with an empty table and made on the nodes, is a sequence of changes of a map: it ends, follows no null
  pointer and stays inside the bucket array, whatever expansions it makes; then iteration visits the elements left in
  insertion order, a lookup of any key finds the element that has it and nothing else, the count is their
  number, and the consistency check of the debugging build accepts the table. Only a failed allocation
  ends the process instead, and with fewer than 26 insertions only one of less than \<open>2\<^sup>3\<^sup>5\<close> bytes.\<close>

theorem hash_calls_implement_map:
  assumes "hp_head s = None" "hash_items keyof cs [] = Some ys" "length cs < 2 ^ 32" "bounded_memory alloc"
  shows "(hash_run alloc keyof cs s = Some (Inl Aborted)
      \<and> (\<exists>n \<le> 2 ^ (5 + insertions cs) * sizeof_UT_hash_bucket. \<not> alloc n))
   \<or> (\<exists>s'. hash_run alloc keyof cs s = Some (Inr s') \<and> hash_iter s' = Some ys
        \<and> (\<forall>k. hash_find keyof s' k = Some (Inr (find (\<lambda>p. keyof p = k) ys)))
        \<and> hash_cnt s' = word_of_nat (length ys) \<and> hash_fsck s' = Some (Inr ()))"
proof -
  have "stands_for keyof s None []" using assms(1) by (simp add: stands_for_def rep_def)
  from hash_run_ok [OF this assms(2,4)] assms(3) consider
    "hash_run alloc keyof cs s = Some (Inl Aborted)" "\<exists>n \<le> 2 ^ (5 + insertions cs) * sizeof_UT_hash_bucket. \<not> alloc n"
    | s' head' where "hash_run alloc keyof cs s = Some (Inr s')" "stands_for keyof s' head' ys"
    by (auto simp: hash_log2_def)
  then show ?thesis
  proof cases
    case 2
    then have r: "rep s' head'" "wf_uthash keyof head'" "HASH_ITER head' = ys" "distinct (map keyof (HASH_ITER head'))"
      by (auto simp: stands_for_def)
    have "hash_iter s' = Some ys" "hash_cnt s' = word_of_nat (length ys)" "hash_fsck s' = Some (Inr ())"
      using hash_iter_ok [OF r(1)] hash_cnt_ok [OF r(1)] HASH_COUNT_wf [OF r(2)] hash_fsck_ok [OF r(1,2)] r(3) by simp_all
    moreover have "\<forall>k. hash_find keyof s' k = Some (Inr (find (\<lambda>p. keyof p = k) ys))"
      using hash_find_ok [OF r(1,2)] HASH_FIND_items [OF r(2,4)] r(3) by simp
    ultimately show ?thesis using 2(1) by blast
  qed simp
qed

definition no_table :: "u32 hash" where
  "no_table = \<lparr>hp_prev = (\<lambda>_. None), hp_next = (\<lambda>_. None), hp_bprev = (\<lambda>_. None), hp_bnext = (\<lambda>_. None),
     hp_hashv = (\<lambda>_. 0), hp_head = None,
     hp_tbl = \<lparr>tb_buckets = [], tb_num = 0, tb_log2 = 0, tb_items = 0, tb_tail = None, tb_ideal = 0, tb_nonideal = 0,
       tb_ineff = 0, tb_noexpand = 0\<rparr>\<rparr>"

lemma hash_calls_implement_map_witness:
  "\<exists>s'. hash_run (\<lambda>n. n < 2 ^ 35) bytes_of_u32 [Hash_Add 7, Hash_Add 9, Hash_Del 7] no_table = Some (Inr s')
     \<and> hash_iter s' = Some [9] \<and> hash_cnt s' = 1"
proof -
  have "\<not> (\<exists>n \<le> 2 ^ (5 + insertions [Hash_Add 7, Hash_Add 9, Hash_Del (7 :: u32)]) * sizeof_UT_hash_bucket. \<not> n < 2 ^ 35)"
    by (simp add: sizeof_UT_hash_bucket_def)
  moreover have c: "hash_items bytes_of_u32 [Hash_Add 7, Hash_Add 9, Hash_Del 7] [] = Some [9]"
    "hp_head no_table = None" "length [Hash_Add 7, Hash_Add 9, Hash_Del (7 :: u32)] < 2 ^ 32" "bounded_memory (\<lambda>n. n < 2 ^ 35)"
    by (simp_all add: no_table_def bounded_memory_def)
  note hash_calls_implement_map [OF c(2,1,3,4)]
  ultimately obtain s' where "hash_run (\<lambda>n. n < 2 ^ 35) bytes_of_u32 [Hash_Add 7, Hash_Add 9, Hash_Del 7] no_table = Some (Inr s')"
    "hash_iter s' = Some [9]" "hash_cnt s' = word_of_nat (length [9 :: u32])" by blast
  then show ?thesis by auto
qed

end
