(* ===== verification/Uthash_Select.thy ===== *)
theory Uthash_Select
  imports Uthash_Map
begin

text \<open>
  \<^verbatim>\<open>HASH_SRT\<close>, the merge sort of the application order, which is the code of the list sorts with
  an unsigned run length, and \<^verbatim>\<open>HASH_SELECT\<close>, which links the elements that satisfy a condition into a
  second table through a second handle. The guards of the sort against null cursors never matter: the
  theorem on it shows that no cursor is null where the model would stop.
\<close>

section \<open>Sorting\<close>

lemma merge_sort_from_mset: "mset (merge_sort_from cmp k xs) = mset xs"
proof (induction cmp k xs rule: merge_sort_from.induct)
  case (1 cmp k xs)
  obtain ys n where p: "ls_pass cmp k xs = (ys, n)" by fastforce
  with ls_pass_mset [of cmp k xs] 1 [OF p [symmetric]] show ?case
    by (subst merge_sort_from.simps) (simp add: p)
qed

lemma merge_sort_mset: "mset (merge_sort cmp xs) = mset xs"
  by (simp add: merge_sort_def merge_sort_from_mset)

text \<open>\<^verbatim>\<open>unsigned _hs_insize; _hs_insize *= 2U;\<close>\<close>

definition twice_unsigned :: "nat \<Rightarrow> nat res" where
  "twice_unsigned n = Inr (2 * n mod 2 ^ 32)"

definition hash_srt :: "('p \<Rightarrow> 'p \<Rightarrow> int) \<Rightarrow> 'p hash \<Rightarrow> 'p hash res option" where
  "hash_srt cmp s =
     (case hp_head s of
        None \<Rightarrow> Some (Inr s)
      | Some h \<Rightarrow>
          opt_res_bind (sort_passes straight True ll_close twice_unsigned cmp 1
            \<lparr>s_next = hp_next s, s_prev = hp_prev s, s_list = Some h, s_tail = tb_tail (hp_tbl s)\<rparr>) (\<lambda>r.
          Some (Inr (s\<lparr>hp_next := s_next r, hp_prev := s_prev r, hp_head := s_list r,
            hp_tbl := (hp_tbl s)\<lparr>tb_tail := s_tail r\<rparr>\<rparr>))))"

definition app_shape :: "'p sort_state \<Rightarrow> 'p list \<Rightarrow> bool" where
  "app_shape s xs \<longleftrightarrow> dchain (s_next s) (s_prev s) (s_list s) xs \<and> s_tail s = (if xs = [] then None else Some (last xs))"

interpretation hs_sort: sort_code straight True ll_close twice_unsigned app_shape
proof unfold_locales
  fix s :: "'a sort_state" and xs
  assume s: "emitted True s xs" "distinct xs" "xs \<noteq> []"
  let ?s = "s\<lparr>s_next := (s_next s)(last xs := None)\<rparr>"
  have "app_shape ?s xs"
    using s successively_upd_last [of "s_next s" xs None]
    by (simp add: emitted_def app_shape_def dchain_def walk_iff hd_rev last_rev successively_rev)
  moreover have "frame (set xs) s ?s" using s(3) by (auto simp: frame_def)
  ultimately show "\<exists>s'. ll_close s = Inr s' \<and> app_shape s' xs \<and> frame (set xs) s s'"
    using s by (intro exI [of _ ?s]) (simp add: ll_close_def emitted_def)
qed (auto simp: straight_def [abs_def] app_shape_def dchain_def twice_unsigned_def)

lemma hash_srt_ok:
  assumes st: "stands_for keyof s head xs" and l: "length xs \<le> 2 ^ 30"
  shows "\<exists>s' head'. hash_srt cmp s = Some (Inr s') \<and> stands_for keyof s' head' (merge_sort cmp xs)
    \<and> (\<forall>k. HASH_FIND keyof head' k = HASH_FIND keyof head k)"
proof (cases head)
  case None
  with st have "xs = []" "hash_srt cmp s = Some (Inr s)"
    by (auto simp: stands_for_def hash_srt_def rep_def HASH_ITER_def)
  with st None show ?thesis by (intro exI [of _ s] exI [of _ head]) (simp add: merge_sort_def)
next
  case (Some t)
  let ?s0 = "\<lparr>s_next = hp_next s, s_prev = hp_prev s, s_list = hp_head s, s_tail = tb_tail (hp_tbl s)\<rparr>"
  have r: "xs \<noteq> []" "dchain (hp_next s) (hp_prev s) (hp_head s) xs" "tb_tail (hp_tbl s) = Some (last xs)" "table_rep (hp_tbl s) t"
    "buckets_rep s (tb_buckets (hp_tbl s)) (buckets t)" "app_order t = xs" "wf_table keyof t" "can_expand head" "distinct (map keyof xs)"
    using st Some by (auto simp: stands_for_def rep_def HASH_ITER_def wf_uthash_def)
  have "app_shape ?s0 xs" using r by (simp add: app_shape_def)
  from hs_sort.sort_ok [OF this r(1) l, of cmp] obtain q where q: "sort_passes straight True ll_close twice_unsigned cmp 1 ?s0 = Some (Inr q)"
    "app_shape q (merge_sort cmp xs)" by blast
  obtain h where h: "hp_head s = Some h" using dchain_head [OF r(2)] r(1) by auto
  let ?s' = "s\<lparr>hp_next := s_next q, hp_prev := s_prev q, hp_head := s_list q, hp_tbl := (hp_tbl s)\<lparr>tb_tail := s_tail q\<rparr>\<rparr>"
  let ?t' = "t\<lparr>app_order := merge_sort cmp xs\<rparr>"
  have m: "mset (merge_sort cmp xs) = mset xs"
    by (rule merge_sort_mset)
  then have ne: "merge_sort cmp xs \<noteq> []" "length (merge_sort cmp xs) = length xs" using r(1) by (auto dest: mset_eq_length)
  have "distinct (map keyof (merge_sort cmp xs))" using m r(9) by (metis mset_eq_imp_distinct_iff mset_map)
  moreover have "wf_table keyof ?t'" using r(6,7) m ne(2) by (auto simp: wf_table_def)
  moreover have "rep ?s' (Some ?t')"
    using q(2) ne(1) r(4,5) by (simp add: rep_def app_shape_def table_rep_def buckets_rep_def bkt_rep_def [abs_def] chain_rep_def)
  ultimately have "stands_for keyof ?s' (Some ?t') (merge_sort cmp xs)"
    using r(8) Some by (simp add: stands_for_def wf_uthash_def can_expand_def HASH_ITER_def)
  moreover have "hash_srt cmp s = Some (Inr ?s')" using q(1) h by (simp add: hash_srt_def)
  moreover have "HASH_FIND keyof (Some ?t') k = HASH_FIND keyof head k" for k by (simp add: HASH_FIND_def Some)
  ultimately show ?thesis by blast
qed


section \<open>Selection\<close>

text \<open>One turn of the inner loop for the handle of \<open>a\<close>; \<open>lst\<close> is \<^verbatim>\<open>_last_elt\<close>.\<close>

definition select_item ::
    "(nat \<Rightarrow> bool) \<Rightarrow> ('p \<Rightarrow> bool) \<Rightarrow> 'p hash \<Rightarrow> 'p \<Rightarrow> 'p hash \<times> 'p option \<Rightarrow> ('p hash \<times> 'p option) res option" where
  "select_item alloc cond src a st = (case st of (dst, lst) \<Rightarrow>
     if \<not> cond a then Some (Inr (dst, lst))
     else
       let d1 = dst\<lparr>hp_hashv := (hp_hashv dst)(a := hp_hashv src a), hp_prev := (hp_prev dst)(a := lst),
                    hp_next := (hp_next dst)(a := None)\<rparr>;
           d2 = (case lst of Some l \<Rightarrow> d1\<lparr>hp_next := (hp_next d1)(l := Some a)\<rparr> | None \<Rightarrow> d1)
       in opt_res_bind (Some (case hp_head d2 of
              None \<Rightarrow> res_bind (hash_make_table alloc a) (\<lambda>t. Inr (d2\<lparr>hp_head := Some a, hp_tbl := t\<rparr>))
            | Some _ \<Rightarrow> Inr d2)) (\<lambda>d3.
          opt_res_bind (hash_add_to_bkt alloc (HASH_TO_BKT (hp_hashv d3 a) (tb_num (hp_tbl d3))) a d3) (\<lambda>d4.
          Some (Inr (d4\<lparr>hp_tbl := (hp_tbl d4)\<lparr>tb_items := tb_items (hp_tbl d4) + 1\<rparr>\<rparr>, Some a)))))"

partial_function (option) select_chain ::
    "(nat \<Rightarrow> bool) \<Rightarrow> ('p \<Rightarrow> bool) \<Rightarrow> 'p hash \<Rightarrow> 'p option \<Rightarrow> 'p hash \<times> 'p option \<Rightarrow> ('p hash \<times> 'p option) res option" where
  "select_chain alloc cond src hh st =
     (case hh of
        None \<Rightarrow> Some (Inr st)
      | Some a \<Rightarrow> opt_res_bind (select_item alloc cond src a st) (select_chain alloc cond src (hp_bnext src a)))"

fun select_buckets ::
    "(nat \<Rightarrow> bool) \<Rightarrow> ('p \<Rightarrow> bool) \<Rightarrow> 'p hash \<Rightarrow> 'p bkt list \<Rightarrow> 'p hash \<times> 'p option \<Rightarrow> ('p hash \<times> 'p option) res option" where
  "select_buckets alloc cond src [] st = Some (Inr st)"
| "select_buckets alloc cond src (bk # bks) st =
     opt_res_bind (select_chain alloc cond src (hh_head bk) st) (select_buckets alloc cond src bks)"

definition hash_select :: "(nat \<Rightarrow> bool) \<Rightarrow> ('p \<Rightarrow> bool) \<Rightarrow> 'p hash \<Rightarrow> 'p hash \<Rightarrow> 'p hash res option" where
  "hash_select alloc cond src dst =
     (case hp_head src of
        None \<Rightarrow> Some (Inr dst)
      | Some _ \<Rightarrow>
          opt_res_bind (select_buckets alloc cond src (take (unat (tb_num (hp_tbl src))) (tb_buckets (hp_tbl src))) (dst, None)) (\<lambda>st.
          Some (Inr (fst st))))"

declare select_chain.simps [simp del]

text \<open>
  The destination after some elements have been selected into it: a well-formed table of them, except
  that its tail is still its first element.
\<close>

definition selected :: "('p \<Rightarrow> byte list) \<Rightarrow> 'p hash \<Rightarrow> 'p UT_hash_table \<Rightarrow> bool" where
  "selected keyof d t \<longleftrightarrow> app_order t \<noteq> [] \<and> dchain (hp_next d) (hp_prev d) (hp_head d) (app_order t)
     \<and> tb_tail (hp_tbl d) = Some (hd (app_order t)) \<and> table_rep (hp_tbl d) t
     \<and> buckets_rep d (tb_buckets (hp_tbl d)) (buckets t) \<and> wf_table keyof t \<and> log2_num_buckets t = 5
     \<and> (\<forall>lb \<in> set (buckets t). expand_mult lb = 0)"

definition selection :: "('p \<Rightarrow> byte list) \<Rightarrow> 'p hash \<Rightarrow> 'p list \<Rightarrow> bool" where
  "selection keyof d zs \<longleftrightarrow> (if zs = [] then hp_head d = None else \<exists>t. selected keyof d t \<and> app_order t = zs)"

lemma small_bucket:
  assumes wf: "wf_table keyof t" and m: "\<forall>lb \<in> set (buckets t). expand_mult lb = 0" and l: "length (app_order t) < 9"
    and b: "b < length (buckets t)"
  shows "\<not> overfull t b"
proof -
  have "length (map elmt (all_handles (buckets t))) = length (app_order t)"
    using wf by (metis wf_table_def size_mset)
  then have s: "sum_list (map (length \<circ> hh_chain) (buckets t)) = length (app_order t)"
    by (simp add: all_handles_def length_concat comp_def)
  have "length (hh_chain (buckets t ! b)) \<le> sum_list (map (length \<circ> hh_chain) (buckets t))"
    using b by (intro member_le_sum_list) (auto simp: image_iff intro!: bexI [of _ "buckets t ! b"])
  then have c: "length (hh_chain (buckets t ! b)) < 9" using s l by simp
  have "bkt_count (buckets t ! b) = word_of_nat (length (hh_chain (buckets t ! b)))"
    using wf b by (simp add: wf_table_def wf_buckets_def)
  then have "unat (bkt_count (buckets t ! b)) < 9" using c by (simp add: unat_u32_of_nat)
  then have "bkt_count (buckets t ! b) < 9" by (simp add: word_less_nat_alt)
  then have "bkt_count (buckets t ! b) + 1 < 10" by (simp add: word_less_nat_alt unat_add)
  moreover have "expand_mult (buckets t ! b) = 0" using m b by simp
  ultimately show ?thesis by (simp add: overfull_def HASH_BKT_CAPACITY_THRESH_def not_le)
qed


lemma pushed_small:
  assumes wf: "wf_table keyof t" and m: "\<forall>lb \<in> set (buckets t). expand_mult lb = 0" and l: "length (app_order t) < 9"
    and lg: "unat (log2_num_buckets t) < 31" and h: "h = HASH_JEN (keyof a)"
  defines "b \<equiv> HASH_TO_BKT h (num_buckets t)"
  defines "t' \<equiv> (pushed t b \<lparr>elmt = a, hashv = h\<rparr>)\<lparr>app_order := app_order t @ [a], num_items := num_items t + 1\<rparr>"
  shows "wf_table keyof t'" "\<forall>lb \<in> set (buckets t'). expand_mult lb = 0"
proof -
  have b: "b < length (buckets t)" unfolding b_def by (rule HASH_TO_BKT_bucket [OF wf_sized [OF wf]])
  let ?tA = "t\<lparr>app_order := app_order t @ [a], num_items := num_items t + 1\<rparr>"
  have "\<not> overfull ?tA b" using small_bucket [OF wf m l b] by (simp add: overfull_def)
  then have "HASH_ADD_TO_BKT ?tA b \<lparr>elmt = a, hashv = h\<rparr> = t'"
    using b by (simp add: HASH_ADD_TO_BKT_pushed) (simp add: t'_def pushed_def)
  with add_to_bkt_wf [OF wf lg h] show "wf_table keyof t'" by (simp add: b_def)
  show "\<forall>lb \<in> set (buckets t'). expand_mult lb = 0"
    using m b by (auto simp: t'_def pushed_def dest!: subsetD [OF set_update_subset_insert])
qed

definition opt_last :: "'p list \<Rightarrow> 'p option" where
  "opt_last xs = (if xs = [] then None else Some (last xs))"

lemma opt_last_simps [simp]: "opt_last [] = None" "opt_last (xs @ [x]) = Some x" "xs \<noteq> [] \<Longrightarrow> opt_last xs = Some (last xs)"
  by (simp_all add: opt_last_def)

lemma select_item_ok:
  assumes sel: "selection keyof d zs" and a: "a \<notin> set zs" and hv: "hp_hashv src a = HASH_JEN (keyof a)" and c: "cond a"
    and l: "length zs < 8" and al: "alloc sizeof_UT_hash_table" "alloc (unat HASH_INITIAL_NUM_BUCKETS * sizeof_UT_hash_bucket)"
  shows "\<exists>d'. select_item alloc cond src a (d, opt_last zs) = Some (Inr (d', Some a))
    \<and> selection keyof d' (zs @ [a])"
proof -
  let ?h = "HASH_JEN (keyof a)"
  obtain t where t: "wf_table keyof t" "app_order t = zs" "\<forall>lb \<in> set (buckets t). expand_mult lb = 0"
    "log2_num_buckets t = 5" "zs \<noteq> [] \<Longrightarrow> selected keyof d t" "zs = [] \<Longrightarrow> t = HASH_MAKE_TABLE"
  proof (cases "zs = []")
    case True
    show thesis
      by (rule that [of HASH_MAKE_TABLE]) (use True wf_make_table in
        \<open>auto simp: HASH_MAKE_TABLE_def empty_bucket_def HASH_INITIAL_NUM_BUCKETS_LOG2_def\<close>)
  next
    case False
    with sel obtain u where "selected keyof d u" "app_order u = zs" by (auto simp: selection_def)
    with False show thesis by (intro that [of u]) (auto simp: selected_def)
  qed
  have fresh: "a \<notin> elmt ` set (all_handles (buckets t))" using handles_order [OF t(1)] t(2) a by simp
  let ?d1 = "d\<lparr>hp_hashv := (hp_hashv d)(a := ?h), hp_prev := (hp_prev d)(a := opt_last zs),
      hp_next := (hp_next d)(a := None)\<rparr>"
  let ?d2 = "case opt_last zs of Some l \<Rightarrow> ?d1\<lparr>hp_next := (hp_next ?d1)(l := Some a)\<rparr> | None \<Rightarrow> ?d1"
  let ?step = "case hp_head ?d2 of None \<Rightarrow> res_bind (hash_make_table alloc a) (\<lambda>t. Inr (?d2\<lparr>hp_head := Some a, hp_tbl := t\<rparr>))
      | Some _ \<Rightarrow> Inr ?d2"
  have "\<exists>d3. ?step = Inr d3 \<and> dchain (hp_next d3) (hp_prev d3) (hp_head d3) (zs @ [a]) \<and> tb_tail (hp_tbl d3) = Some (hd (zs @ [a]))
      \<and> table_rep (hp_tbl d3) t \<and> buckets_rep d3 (tb_buckets (hp_tbl d3)) (buckets t) \<and> hp_hashv d3 a = ?h"
  proof (cases "zs = []")
    case True
    with sel have "hp_head d = None" by (simp add: selection_def)
    with True t(6) al show ?thesis
      by (auto simp: hash_make_table_def HASH_MAKE_TABLE_def table_rep_def dchain_def buckets_rep_zero)
  next
    case False
    from t(5) [OF False] have s: "dchain (hp_next d) (hp_prev d) (hp_head d) zs" "tb_tail (hp_tbl d) = Some (hd zs)"
      "table_rep (hp_tbl d) t" "buckets_rep d (tb_buckets (hp_tbl d)) (buckets t)" using t(2) by (simp_all add: selected_def)
    obtain h0 where "hp_head d = Some h0" using dchain_head [OF s(1)] False by simp
    with False s dchain_snoc [OF s(1) a False] fresh show ?thesis
      by (auto intro!: buckets_rep_rehashed [OF s(4), of _ a])
  qed
  then obtain d3 where d3: "?step = Inr d3" "dchain (hp_next d3) (hp_prev d3) (hp_head d3) (zs @ [a])"
    "tb_tail (hp_tbl d3) = Some (hd (zs @ [a]))" "table_rep (hp_tbl d3) t" "buckets_rep d3 (tb_buckets (hp_tbl d3)) (buckets t)"
    "hp_hashv d3 a = ?h" by blast
  let ?b = "HASH_TO_BKT ?h (num_buckets t)"
  have b: "?b < length (buckets t)" by (rule HASH_TO_BKT_bucket [OF wf_sized [OF t(1)]])
  have no: "\<not> overfull t ?b" using small_bucket [OF t(1,3) _ b] t(2) l by simp
  let ?h' = "\<lparr>elmt = a, hashv = hp_hashv d3 a\<rparr>"
  obtain d4 where d4: "\<And>al. hash_add_to_bkt al ?b a d3 = (if overfull t ?b then hash_expand_buckets al d4 else Some (Inr d4))"
    "table_rep (hp_tbl d4) (pushed t ?b ?h')" "buckets_rep d4 (tb_buckets (hp_tbl d4)) (buckets (pushed t ?b ?h'))"
    "outside (insert a (elmt ` set (all_handles (buckets t)))) d3 d4" "tb_tail (hp_tbl d4) = tb_tail (hp_tbl d3)"
    by (rule push_in_bkt [OF b d3(4,5) fresh]) blast
  let ?t' = "(pushed t ?b \<lparr>elmt = a, hashv = ?h\<rparr>)\<lparr>app_order := app_order t @ [a], num_items := num_items t + 1\<rparr>"
  let ?d' = "d4\<lparr>hp_tbl := (hp_tbl d4)\<lparr>tb_items := tb_items (hp_tbl d4) + 1\<rparr>\<rparr>"
  have l9: "length (app_order t) < 9" using l t(2) by simp
  have lg: "unat (log2_num_buckets t) < 31" using t(4) by simp
  have "selected keyof ?d' ?t'"
    unfolding selected_def
  proof (intro conjI)
    show "table_rep (hp_tbl ?d') ?t'" using d4(2) by (simp add: table_rep_def d3(6) pushed_def)
    show "buckets_rep ?d' (tb_buckets (hp_tbl ?d')) (buckets ?t')"
      using d4(3) by (simp add: d3(6) buckets_rep_def bkt_rep_def [abs_def] chain_rep_def)
    show "dchain (hp_next ?d') (hp_prev ?d') (hp_head ?d') (app_order ?t')"
      using outside_order [OF d3(2) d4(4)] t(2) by simp
    show "tb_tail (hp_tbl ?d') = Some (hd (app_order ?t'))" using d4(5) d3(3) t(2) by simp
    show "wf_table keyof ?t'" "\<forall>lb \<in> set (buckets ?t'). expand_mult lb = 0"
      by (rule pushed_small [OF t(1,3) l9 lg refl])+
  qed (use t(4) in \<open>simp_all add: pushed_def\<close>)
  then have "selection keyof ?d' (zs @ [a])" using t(2) by (auto simp: selection_def)
  moreover have "select_item alloc cond src a (d, opt_last zs) = Some (Inr (?d', Some a))"
  proof -
    have num: "tb_num (hp_tbl d3) = num_buckets t" using d3(4) by (simp add: table_rep_def)
    show ?thesis
      unfolding select_item_def Let_def prod.case hv d3(1) opt_res_bind_simps d3(6) num d4(1) using c no by simp
  qed
  ultimately show ?thesis by blast
qed


lemma select_chain_ok:
  "\<lbrakk>selection keyof d zs; walk (hp_bnext src) hh as None; distinct (zs @ as); length zs + length (filter cond as) \<le> 8;
    \<forall>a \<in> set as. hp_hashv src a = HASH_JEN (keyof a);
    alloc sizeof_UT_hash_table; alloc (unat HASH_INITIAL_NUM_BUCKETS * sizeof_UT_hash_bucket)\<rbrakk> \<Longrightarrow>
   \<exists>d'. select_chain alloc cond src hh (d, opt_last zs)
       = Some (Inr (d', opt_last (zs @ filter cond as)))
     \<and> selection keyof d' (zs @ filter cond as)"
proof (induction as arbitrary: d zs hh)
  case Nil
  then show ?case by (simp add: select_chain.simps)
next
  case (Cons a as)
  from Cons.prems(2) have w: "hh = Some a" "walk (hp_bnext src) (hp_bnext src a) as None" by auto
  show ?case
  proof (cases "cond a")
    case False
    with Cons.IH [OF Cons.prems(1) w(2)] Cons.prems w(1) show ?thesis
      by (subst select_chain.simps) (simp add: select_item_def del: opt_last_simps(3))
  next
    case True
    have "a \<notin> set zs" "hp_hashv src a = HASH_JEN (keyof a)" "length zs < 8" using Cons.prems True by auto
    from select_item_ok [where cond = cond and alloc = alloc and keyof = keyof, OF Cons.prems(1) this(1,2) True this(3) Cons.prems(6,7)] obtain d1 where
      d1: "select_item alloc cond src a (d, opt_last zs) = Some (Inr (d1, Some a))"
        "selection keyof d1 (zs @ [a])" by blast
    have "distinct ((zs @ [a]) @ as)" "length (zs @ [a]) + length (filter cond as) \<le> 8"
      "\<forall>a \<in> set as. hp_hashv src a = HASH_JEN (keyof a)" using Cons.prems True by auto
    from Cons.IH [OF d1(2) w(2) this Cons.prems(6,7)] True w(1) d1(1) show ?thesis
      by (subst select_chain.simps) (simp del: opt_last_simps(3))
  qed
qed

lemma select_buckets_ok:
  "\<lbrakk>selection keyof d zs; list_all2 (bkt_rep src) bks lbs; distinct (zs @ map elmt (all_handles lbs));
    length zs + length (filter cond (map elmt (all_handles lbs))) \<le> 8;
    \<forall>h \<in> set (all_handles lbs). hashv h = HASH_JEN (keyof (elmt h));
    alloc sizeof_UT_hash_table; alloc (unat HASH_INITIAL_NUM_BUCKETS * sizeof_UT_hash_bucket)\<rbrakk> \<Longrightarrow>
   \<exists>d' l. select_buckets alloc cond src bks (d, opt_last zs) = Some (Inr (d', l))
     \<and> selection keyof d' (zs @ filter cond (map elmt (all_handles lbs)))"
proof (induction bks arbitrary: d zs lbs)
  case Nil
  then show ?case by (simp add: all_handles_def)
next
  case (Cons bk bks)
  then obtain lb lbs' where lbs: "lbs = lb # lbs'" "bkt_rep src bk lb" "list_all2 (bkt_rep src) bks lbs'"
    by (auto simp: list_all2_Cons1)
  have hs: "all_handles lbs = hh_chain lb @ all_handles lbs'" by (simp add: lbs(1) all_handles_def)
  let ?as = "map elmt (hh_chain lb)"
  have w: "walk (hp_bnext src) (hh_head bk) ?as None" "\<forall>a \<in> set ?as. hp_hashv src a = HASH_JEN (keyof a)"
    using lbs(2) Cons.prems(5) by (auto simp: bkt_rep_def chain_rep_def dchain_def hs)
  have "distinct (zs @ ?as)" "length zs + length (filter cond ?as) \<le> 8" using Cons.prems(3,4) by (auto simp: hs)
  from select_chain_ok [OF Cons.prems(1) w(1) this w(2) Cons.prems(6,7)] obtain d1 where
    d1: "select_chain alloc cond src (hh_head bk) (d, opt_last zs)
        = Some (Inr (d1, opt_last (zs @ filter cond ?as)))"
      "selection keyof d1 (zs @ filter cond ?as)" by blast
  have "distinct ((zs @ filter cond ?as) @ map elmt (all_handles lbs'))"
    "length (zs @ filter cond ?as) + length (filter cond (map elmt (all_handles lbs'))) \<le> 8"
    "\<forall>h \<in> set (all_handles lbs'). hashv h = HASH_JEN (keyof (elmt h))"
    using Cons.prems(3-5) by (auto simp: hs)
  from Cons.IH [OF d1(2) lbs(3) this Cons.prems(6,7)] d1(1) show ?case by (simp add: hs)
qed

text \<open>Selection into an empty table: everything selected is in the destination, and its tail is the first of it.\<close>

lemma hash_select_ok:
  assumes st: "stands_for keyof s head xs" and d: "hp_head d = None" and l: "length (filter cond xs) \<le> 8"
    and al: "alloc sizeof_UT_hash_table" "alloc (unat HASH_INITIAL_NUM_BUCKETS * sizeof_UT_hash_bucket)"
  shows "\<exists>d' zs. hash_select alloc cond s d = Some (Inr d') \<and> selection keyof d' zs \<and> mset zs = mset (filter cond xs)"
proof (cases head)
  case None
  with st d show ?thesis
    by (intro exI [of _ d] exI [of _ "[]"]) (auto simp: stands_for_def rep_def hash_select_def selection_def HASH_ITER_def)
next
  case (Some t)
  have r: "app_order t = xs" "wf_table keyof t" "list_all2 (bkt_rep s) (tb_buckets (hp_tbl s)) (buckets t)" "tb_num (hp_tbl s) = num_buckets t"
    "distinct (map elmt (all_handles (buckets t)))" "hp_head s \<noteq> None"
    using st Some dchain_head by (fastforce simp: stands_for_def rep_def HASH_ITER_def wf_uthash_def buckets_rep_def table_rep_def)+
  let ?hs = "map elmt (all_handles (buckets t))"
  have m: "mset ?hs = mset xs" using r(1,2) by (simp only: wf_table_def)
  then have f: "mset (filter cond ?hs) = mset (filter cond xs)" by (metis mset_filter)
  then have "length [] + length (filter cond ?hs) \<le> 8" using l by (metis add_0 list.size(3) mset_eq_length)
  moreover have "\<forall>h \<in> set (all_handles (buckets t)). hashv h = HASH_JEN (keyof (elmt h))" using r(2) unfolding wf_table_def by blast
  moreover have "selection keyof d []" using d by (simp add: selection_def)
  ultimately obtain d' l' where sb: "select_buckets alloc cond s (tb_buckets (hp_tbl s)) (d, None) = Some (Inr (d', l'))"
    "selection keyof d' (filter cond ?hs)"
    using select_buckets_ok [of keyof d "[]" s "tb_buckets (hp_tbl s)" "buckets t" cond alloc, OF _ r(3)] r(5) al by auto
  have "length (tb_buckets (hp_tbl s)) = length (buckets t)" using r(3) by (rule list_all2_lengthD)
  then have "take (unat (tb_num (hp_tbl s))) (tb_buckets (hp_tbl s)) = tb_buckets (hp_tbl s)"
    using r(2,4) by (simp add: wf_table_def)
  with sb f r(6) show ?thesis by (intro exI [of _ d'] exI [of _ "filter cond ?hs"]) (auto simp: hash_select_def)
qed

text \<open>An insertion after a selection appends to the first selected element.\<close>

lemma add_after_selection:
  assumes sel: "selection keyof d (z # zs)" and p: "p \<notin> set (z # zs)" and l: "length zs < 8"
  shows "\<exists>d'. hash_add alloc keyof p d = Some (Inr d') \<and> hash_iter d' = Some [z, p] \<and> hash_cnt d' = word_of_nat (length zs + 2)
    \<and> hash_fsck d' = (if zs = [] then Some (Inr ()) else Some (Inl Aborted))"
proof -
  from sel obtain t where "selected keyof d t" and t2: "app_order t = z # zs" by (auto simp: selection_def)
  then have s: "dchain (hp_next d) (hp_prev d) (hp_head d) (z # zs)" "tb_tail (hp_tbl d) = Some z" "table_rep (hp_tbl d) t"
    "buckets_rep d (tb_buckets (hp_tbl d)) (buckets t)" "wf_table keyof t" "log2_num_buckets t = 5" "\<forall>lb \<in> set (buckets t). expand_mult lb = 0"
    by (simp_all add: selected_def)
  let ?h = "HASH_JEN (keyof p)" let ?b = "HASH_TO_BKT ?h (num_buckets t)"
  have fresh: "p \<notin> elmt ` set (all_handles (buckets t))" using handles_order [OF s(5)] t2 p by simp
  define d3 where "d3 = d\<lparr>hp_next := (hp_next d)(p := None, z := Some p), hp_prev := (hp_prev d)(p := Some z),
    hp_tbl := (hp_tbl d)\<lparr>tb_tail := Some p, tb_items := tb_items (hp_tbl d) + 1\<rparr>, hp_hashv := (hp_hashv d)(p := ?h)\<rparr>"
  let ?t1 = "t\<lparr>num_items := num_items t + 1\<rparr>"
  have hd: "hp_head d = Some z" "hp_prev d z = None" using s(1) dchain_head [OF s(1)] dchain_split(2) [of _ _ _ "[]" z zs] by auto
  have b: "?b < length (buckets t)" by (rule HASH_TO_BKT_bucket [OF wf_sized [OF s(5)]])
  have l9: "length (app_order t) < 9" using l t2 by simp
  have no: "\<not> overfull ?t1 ?b" using small_bucket [OF s(5,7) l9 b] by (simp add: overfull_def)
  have tr: "table_rep (hp_tbl d3) ?t1" using s(3) by (simp add: d3_def table_rep_def)
  have br: "buckets_rep d3 (tb_buckets (hp_tbl d3)) (buckets ?t1)"
    using buckets_rep_rehashed [OF s(4), of d3 p] fresh by (simp add: d3_def)
  have hv: "hp_hashv d3 p = ?h" by (simp add: d3_def)
  have num: "tb_num (hp_tbl d3) = num_buckets t" using tr by (simp add: table_rep_def)
  have add: "hash_add alloc keyof p d = hash_add_to_bkt alloc ?b p d3"
    unfolding hv [symmetric] num [symmetric] using hd(1) s(2) by (simp add: hash_add_def d3_def)
  have "?b < length (buckets ?t1)" "p \<notin> elmt ` set (all_handles (buckets ?t1))" using b fresh by simp_all
  then obtain d4 where d4: "hash_add_to_bkt alloc ?b p d3 = Some (Inr d4)" "table_rep (hp_tbl d4) (pushed ?t1 ?b \<lparr>elmt = p, hashv = ?h\<rparr>)"
    "buckets_rep d4 (tb_buckets (hp_tbl d4)) (buckets (pushed ?t1 ?b \<lparr>elmt = p, hashv = ?h\<rparr>))"
    "outside (insert p (elmt ` set (all_handles (buckets t)))) d3 d4"
    using push_in_bkt [OF _ tr br, of ?b p] no hv by (metis (no_types, lifting) UT_hash_table.select_convs(1) UT_hash_table.surjective UT_hash_table.update_convs(4))
  let ?t' = "(pushed t ?b \<lparr>elmt = p, hashv = ?h\<rparr>)\<lparr>app_order := app_order t @ [p], num_items := num_items t + 1\<rparr>"
  have lg: "unat (log2_num_buckets t) < 31" using s(6) by simp
  have wf': "wf_table keyof ?t'" by (rule pushed_small [OF s(5,7) l9 lg refl])
  have same: "buckets (pushed ?t1 ?b \<lparr>elmt = p, hashv = ?h\<rparr>) = buckets ?t'" "num_buckets (pushed ?t1 ?b \<lparr>elmt = p, hashv = ?h\<rparr>) = num_buckets ?t'"
    "num_items (pushed ?t1 ?b \<lparr>elmt = p, hashv = ?h\<rparr>) = num_items ?t'"
    by (simp_all add: pushed_def)
  have items: "tb_items (hp_tbl d4) = num_items ?t'" "tb_num (hp_tbl d4) = num_buckets ?t'" "num_items ?t' = word_of_nat (length zs + 2)"
    using d4(2) same wf' t2 by (simp_all add: table_rep_def wf_table_def)
  have links: "hp_head d4 = Some z" "hp_next d4 z = Some p" "hp_next d4 p = None" "hp_prev d4 z = None" "hp_prev d4 p = Some z"
    using d4(4) hd p by (auto simp: outside_def d3_def)
  have "chain (hp_next d4) (Some z) [z, p]" using links by simp
  then have it: "hash_iter d4 = Some [z, p]" using links(1) by (simp add: hash_iter_def LL_FOREACH_chain)
  have "list_all2 (bkt_rep d4) (tb_buckets (hp_tbl d4)) (buckets ?t')" using d4(3) same(1) by (simp add: buckets_rep_def)
  from fsck_buckets_wf [OF wf' this] have
    b: "fsck_buckets (hp_bnext d4) (hp_bprev d4) (take (unat (tb_num (hp_tbl d4))) (tb_buckets (hp_tbl d4))) 0 = Some (Inr (tb_items (hp_tbl d4)))"
    using items by simp
  have a: "fsck_walk (hp_next d4) (hp_prev d4) None (Some z) 0 = Some (Inr (word_of_nat 2))"
    using fsck_walk_ok [of "hp_next d4" "Some z" "[z, p]" "hp_prev d4" None 0] links by simp
  have u: "unat (word_of_nat 2 :: u32) = 2" "unat (word_of_nat (length zs + 2) :: u32) = length zs + 2"
    using l by (intro unat_u32_of_nat; simp)+
  have "(word_of_nat 2 :: u32) = word_of_nat (length zs + 2) \<longleftrightarrow> zs = []"
    unfolding word_unat_eq_iff u by auto
  then have "hash_fsck d4 = (if zs = [] then Some (Inr ()) else Some (Inl Aborted))"
    using links(1) a b items by (simp add: hash_fsck_def)
  with it add d4(1) links(1) items show ?thesis by (simp add: hash_cnt_def)
qed


section \<open>Replacement and clearing\<close>

lemma stands_for_find:
  "stands_for keyof s head xs \<Longrightarrow> hash_find keyof s k = Some (Inr (find (\<lambda>p. keyof p = k) xs))"
  using hash_find_ok HASH_FIND_items by (fastforce simp: stands_for_def)

lemma stands_for_delete:
  assumes "stands_for keyof s head xs" "p \<in> set xs"
  shows "\<exists>s'. hash_delete p s = Inr s' \<and> stands_for keyof s' (HASH_DELETE keyof head p) (remove1 p xs)"
proof -
  have r: "rep s head" "wf_uthash keyof head" "can_expand head" "HASH_ITER head = xs" "distinct (map keyof xs)"
    using assms(1) by (simp_all add: stands_for_def)
  have px: "p \<in> set (HASH_ITER head)" "distinct (HASH_ITER head)" using assms(2) r(4,5) by (simp_all add: distinct_map)
  from hash_delete_ok [OF r(1,2) px(1)] obtain s' where "hash_delete p s = Inr s'" "rep s' (HASH_DELETE keyof head p)" by blast
  with HASH_DELETE_wf [OF r(2) px] hash_log2_delete(2) [OF r(3)] r(4,5) show ?thesis
    by (auto simp: stands_for_def distinct_map intro: inj_on_subset set_remove1_subset)
qed

text \<open>Replacing returns the element that had the key, and the new element takes its place at the end.\<close>

theorem hash_replace_ok:
  assumes st: "stands_for keyof s head xs" and p: "p \<notin> set xs" and n: "Suc (length xs) < 2 ^ 32" and m: "bounded_memory alloc"
  shows "hash_replace alloc keyof p s = Some (Inl Aborted)
    \<or> (\<exists>s' head'. hash_replace alloc keyof p s = Some (Inr (s', find (\<lambda>q. keyof q = keyof p) xs))
        \<and> stands_for keyof s' head' (filter (\<lambda>q. keyof q \<noteq> keyof p) xs @ [p]))"
proof -
  let ?old = "find (\<lambda>q. keyof q = keyof p) xs" let ?ys = "filter (\<lambda>q. keyof q \<noteq> keyof p) xs"
  have inj: "inj_on keyof (set xs)" "distinct xs" using st by (simp_all add: stands_for_def distinct_map)
  have "\<exists>s1 head1. (case ?old of Some r \<Rightarrow> hash_delete r s | None \<Rightarrow> Inr s) = Inr s1 \<and> stands_for keyof s1 head1 ?ys"
  proof (cases ?old)
    case None
    then have "?ys = xs" by (auto simp: List.find_None_iff filter_id_conv)
    with None st show ?thesis by auto
  next
    case (Some r)
    then have r: "r \<in> set xs" "keyof r = keyof p" by (auto simp: List.find_Some_iff)
    have "remove1 r xs = filter (\<lambda>q. q \<noteq> r) xs" using inj(2) by (simp add: distinct_remove1_removeAll removeAll_filter_not_eq eq_commute)
    also have "\<dots> = ?ys" using r inj_on_eq_iff [OF inj(1), of _ r] by (intro filter_cong refl) auto
    finally show ?thesis using stands_for_delete [OF st r(1)] Some by auto
  qed
  then obtain s1 head1 where s1: "(case ?old of Some r \<Rightarrow> hash_delete r s | None \<Rightarrow> Inr s) = Inr s1" "stands_for keyof s1 head1 ?ys" by blast
  have r1: "rep s1 head1" "wf_uthash keyof head1" "can_expand head1" "HASH_ITER head1 = ?ys" "distinct (map keyof ?ys)"
    using s1(2) by (simp_all add: stands_for_def)
  have "p \<notin> set (HASH_ITER head1)" "Suc (length (HASH_ITER head1)) < 2 ^ 32"
    using p n r1(4) le_less_trans [OF length_filter_le [of "\<lambda>q. keyof q \<noteq> keyof p" xs]] by auto
  from hash_add_ok [OF r1(1,2) this r1(3) m] consider "hash_add alloc keyof p s1 = Some (Inl Aborted)"
    | s2 where "hash_add alloc keyof p s1 = Some (Inr s2)" "rep s2 (HASH_ADD keyof head1 p)" "can_expand (HASH_ADD keyof head1 p)" by blast
  then show ?thesis
  proof cases
    case 1
    then show ?thesis using s1(1) by (simp add: hash_replace_def stands_for_find [OF st])
  next
    case 2
    have "stands_for keyof s2 (HASH_ADD keyof head1 p) (?ys @ [p])"
      using 2(2,3) HASH_ADD_wf [OF r1(2,3), of p] r1(4,5) by (auto simp: stands_for_def)
    with 2(1) s1(1) show ?thesis by (auto simp: hash_replace_def stands_for_find [OF st])
  qed
qed

lemma hash_clear_ok: "hash_iter (hash_clear s) = Some []" "hash_cnt (hash_clear s) = 0" "hash_find keyof (hash_clear s) k = Some (Inr None)"
  by (simp_all add: hash_clear_def hash_iter_def hash_cnt_def hash_find_def LL_FOREACH.simps split: option.splits)

section \<open>Properties\<close>

text \<open>C27: sorting a table by a total preorder ends and follows no null pointer; afterwards iteration visits the same
  elements in ascending order, every lookup answers as before, and the consistency check
  of the debugging build accepts the table.\<close>

theorem hash_sort_orders_iteration:
  assumes "stands_for keyof s head xs" "length xs \<le> 2 ^ 30" "comparator cmp"
  shows "\<exists>s' ys. hash_srt cmp s = Some (Inr s') \<and> hash_iter s' = Some ys
    \<and> sorted_wrt (\<lambda>a b. cmp a b \<le> 0) ys \<and> mset ys = mset xs
    \<and> (\<forall>k. hash_find keyof s' k = hash_find keyof s k) \<and> hash_fsck s' = Some (Inr ())"
proof -
  from hash_srt_ok [OF assms(1,2)] obtain s' head' where s': "hash_srt cmp s = Some (Inr s')"
    "stands_for keyof s' head' (merge_sort cmp xs)" "\<forall>k. HASH_FIND keyof head' k = HASH_FIND keyof head k" by blast
  have r: "rep s head" "wf_uthash keyof head" "rep s' head'" "wf_uthash keyof head'" "HASH_ITER head' = merge_sort cmp xs"
    using assms(1) s'(2) by (simp_all add: stands_for_def)
  from s' r show ?thesis
    using comparator.merge_sort_correct [OF assms(3), of xs] hash_iter_ok [OF r(3)] hash_fsck_ok [OF r(3,4)]
      hash_find_ok [OF r(1,2)] hash_find_ok [OF r(3,4)] by auto
qed

lemma two_in_table:
  obtains s head where "stands_for bytes_of_u32 s head [7, 9]"
proof -
  have c: "hash_items bytes_of_u32 [Hash_Add 7, Hash_Add 9] [] = Some [7, 9]" by simp
  have s0: "stands_for bytes_of_u32 no_table None []" by (simp add: stands_for_def rep_def no_table_def)
  have b: "bounded_memory (\<lambda>n. n < 2 ^ 35)" by (simp add: bounded_memory_def)
  have l: "length [] + length [Hash_Add 7, Hash_Add (9 :: u32)] < 2 ^ 32" by simp
  have "\<not> (\<exists>n \<le> 2 ^ (max 5 (hash_log2 (None :: u32 uthash)) + insertions [Hash_Add 7, Hash_Add (9 :: u32)]) * sizeof_UT_hash_bucket. \<not> n < 2 ^ 35)"
    by (simp add: hash_log2_def sizeof_UT_hash_bucket_def)
  with hash_run_ok [OF s0 c b l] that show thesis by blast
qed

lemma hash_sort_orders_iteration_witness:
  "\<exists>s s'. hash_srt (\<lambda>a b. int (unat (b :: u32)) - int (unat a)) s = Some (Inr s') \<and> hash_fsck s' = Some (Inr ())"
proof -
  obtain s head where "stands_for bytes_of_u32 s head [7, 9]" by (rule two_in_table)
  moreover have "comparator (\<lambda>a b. int (unat (b :: u32)) - int (unat a))" by unfold_locales auto
  ultimately show ?thesis using hash_sort_orders_iteration [of bytes_of_u32 s head "[7, 9]"] by fastforce
qed

text \<open>C31: \<^verbatim>\<open>HASH_SELECT\<close> into an empty table leaves the table's tail at its first element. With two
  to eight elements selected the destination holds them all, but the next insertion links the new
  element behind the first: iteration then visits only these two, although all are counted, and the consistency
  check of the debugging build ends the process.\<close>

theorem selection_then_insertion_loses_elements:
  assumes "stands_for keyof s head xs" "hp_head d = None" "2 \<le> length (filter cond xs)" "length (filter cond xs) \<le> 8"
    and "alloc sizeof_UT_hash_table" "alloc (unat HASH_INITIAL_NUM_BUCKETS * sizeof_UT_hash_bucket)" "p \<notin> set xs"
  shows "\<exists>d1 zs d2. hash_select alloc cond s d = Some (Inr d1) \<and> hash_iter d1 = Some zs \<and> mset zs = mset (filter cond xs)
    \<and> hash_add alloc keyof p d1 = Some (Inr d2) \<and> hash_iter d2 = Some [hd zs, p]
    \<and> hash_cnt d2 = word_of_nat (length zs + 1) \<and> hash_fsck d2 = Some (Inl Aborted)"
proof -
  from hash_select_ok [OF assms(1,2,4,5,6)] obtain d1 zs where d1: "hash_select alloc cond s d = Some (Inr d1)"
    "selection keyof d1 zs" "mset zs = mset (filter cond xs)" by blast
  then have l: "length zs = length (filter cond xs)" by (metis mset_eq_length)
  with assms(3) obtain z us where zs: "zs = z # us" "us \<noteq> []" by (cases zs; cases "tl zs") auto
  have "set zs \<subseteq> set xs" using mset_eq_setD [OF d1(3)] by auto
  then have p: "p \<notin> set (z # us)" using assms(7) zs(1) by auto
  have "length us < 8" using l zs(1) assms(4) by simp
  from add_after_selection [OF d1(2) [unfolded zs(1)] p this] obtain d2 where
    d2: "hash_add alloc keyof p d1 = Some (Inr d2)" "hash_iter d2 = Some [z, p]" "hash_cnt d2 = word_of_nat (length us + 2)"
      "hash_fsck d2 = Some (Inl Aborted)" using zs(2) by auto
  have "hash_iter d1 = Some zs"
    using d1(2) zs(1) by (auto simp: selection_def selected_def hash_iter_def dchain_def LL_FOREACH_chain chain_walk)
  with d1 d2 zs(1) show ?thesis by auto
qed

lemma selection_then_insertion_loses_elements_witness:
  "\<exists>s d1 d2. hash_select (\<lambda>n. True) (\<lambda>x. True) s no_table = Some (Inr d1)
     \<and> hash_add (\<lambda>n. True) bytes_of_u32 (5 :: u32) d1 = Some (Inr d2) \<and> hash_fsck d2 = Some (Inl Aborted)"
proof -
  obtain s head where "stands_for bytes_of_u32 s head [7, 9]" by (rule two_in_table)
  then show ?thesis
    using selection_then_insertion_loses_elements [of bytes_of_u32 s head "[7, 9]" no_table "\<lambda>x. True" "\<lambda>n. True" 5]
    by (auto simp: no_table_def)
qed

end
