(* ===== verification/Uthash_Functions.thy ===== *)
theory Uthash_Functions
  imports Uthash
begin

text \<open>
  The hash functions of \<^verbatim>\<open>uthash.h\<close> beside the default one, and its Bloom filter. Keys of the functions
  that read them through \<^verbatim>\<open>const char *\<close> are sign-extended bytes, as on the machines EDSM is
  built for. MurmurHash reads its key through pointers, with an alignment-dependent macro, so it gets the
  memory and the address of the key.
\<close>

section \<open>Byte-wise functions\<close>

definition HASH_BER :: "byte list \<Rightarrow> u32" where
  "HASH_BER key = foldl (\<lambda>h c. (push_bit 5 h + h) + scast c) 0 key"

definition HASH_SAX :: "byte list \<Rightarrow> u32" where
  "HASH_SAX key = foldl (\<lambda>h c. h XOR (push_bit 5 h + drop_bit 2 h + scast c)) 0 key"

definition HASH_FNV :: "byte list \<Rightarrow> u32" where
  "HASH_FNV key = foldl (\<lambda>h c. (h XOR scast c) * 16777619) 2166136261 key"

definition oat_step :: "u32 \<Rightarrow> byte \<Rightarrow> u32" where
  "oat_step h c =
     (let h = h + scast c; h = h + push_bit 10 h in h XOR drop_bit 6 h)"

definition HASH_OAT :: "byte list \<Rightarrow> u32" where
  "HASH_OAT key =
     (let h = foldl oat_step 0 key;
          h = h + push_bit 3 h;
          h = h XOR drop_bit 11 h
      in h + push_bit 15 h)"

section \<open>Paul Hsieh's function\<close>

definition get16bits :: "byte list \<Rightarrow> nat \<Rightarrow> u32" where
  "get16bits d n = push_bit 8 (ucast (d ! (n + 1))) + ucast (d ! n)"

fun sfh_blocks :: "nat \<Rightarrow> byte list \<Rightarrow> u32 \<Rightarrow> byte list \<times> u32" where
  "sfh_blocks 0 key h = (key, h)"
| "sfh_blocks (Suc n) key h =
     (let h = h + get16bits key 0;
          tmp = push_bit 11 (get16bits key 2) XOR h;
          h = push_bit 16 h XOR tmp
      in sfh_blocks n (drop 4 key) (h + drop_bit 11 h))"

definition sfh_rest :: "nat \<Rightarrow> byte list \<Rightarrow> u32 \<Rightarrow> u32" where
  "sfh_rest r key h =
     (if r = 3 then
        (let h = h + get16bits key 0; h = h XOR push_bit 16 h; h = h XOR push_bit 18 (ucast (key ! 2)) in h + drop_bit 11 h)
      else if r = 2 then
        (let h = h + get16bits key 0; h = h XOR push_bit 11 h in h + drop_bit 17 h)
      else if r = 1 then
        (let h = h + ucast (key ! 0); h = h XOR push_bit 10 h in h + drop_bit 1 h)
      else h)"

definition HASH_SFH :: "byte list \<Rightarrow> u32" where
  "HASH_SFH key =
     (case sfh_blocks (length key div 4) key 0xcafebabe of (rest, h) \<Rightarrow>
        let h = sfh_rest (length key mod 4) rest h;
            h = h XOR push_bit 3 h; h = h + drop_bit 5 h;
            h = h XOR push_bit 4 h; h = h + drop_bit 17 h;
            h = h XOR push_bit 25 h
        in h + drop_bit 6 h)"

section \<open>MurmurHash\<close>

text \<open>The aligned or unaligned little-endian word at an address.\<close>

definition word_at :: "(int \<Rightarrow> byte) \<Rightarrow> int \<Rightarrow> u32" where
  "word_at mem p = ucast (mem p) OR push_bit 8 (ucast (mem (p + 1))) OR push_bit 16 (ucast (mem (p + 2)))
     OR push_bit 24 (ucast (mem (p + 3)))"

text \<open>On Intel: \<^verbatim>\<open>p[i]\<close>.\<close>

definition MUR_GETBLOCK_intel :: "(int \<Rightarrow> byte) \<Rightarrow> int \<Rightarrow> int \<Rightarrow> u32" where
  "MUR_GETBLOCK_intel mem p i = word_at mem (p + 4 * i)"

definition WP :: "int \<Rightarrow> int" where
  "WP p = 4 * (p div 4)"

definition MUR_THREE_ONE :: "(int \<Rightarrow> byte) \<Rightarrow> int \<Rightarrow> u32" where
  "MUR_THREE_ONE mem p = drop_bit 8 (word_at mem (WP p) AND 0xffffff00) OR push_bit 24 (word_at mem (WP p + 4) AND 0x000000ff)"

definition MUR_TWO_TWO :: "(int \<Rightarrow> byte) \<Rightarrow> int \<Rightarrow> u32" where
  "MUR_TWO_TWO mem p = drop_bit 16 (word_at mem (WP p) AND 0xffff0000) OR push_bit 16 (word_at mem (WP p + 4) AND 0x0000ffff)"

definition MUR_ONE_THREE :: "(int \<Rightarrow> byte) \<Rightarrow> int \<Rightarrow> u32" where
  "MUR_ONE_THREE mem p = drop_bit 24 (word_at mem (WP p) AND 0xff000000) OR push_bit 8 (word_at mem (WP p + 4) AND 0x00ffffff)"

text \<open>On other little-endian machines.\<close>

definition MUR_GETBLOCK :: "(int \<Rightarrow> byte) \<Rightarrow> int \<Rightarrow> int \<Rightarrow> u32" where
  "MUR_GETBLOCK mem p i =
     (if p mod 4 = 0 then word_at mem (p + 4 * i)
      else if p mod 4 = 1 then MUR_THREE_ONE mem p
      else if p mod 4 = 2 then MUR_TWO_TWO mem p
      else MUR_ONE_THREE mem p)"

definition MUR_ROTL32 :: "u32 \<Rightarrow> nat \<Rightarrow> u32" where
  "MUR_ROTL32 x r = push_bit r x OR drop_bit (32 - r) x"

definition MUR_FMIX :: "u32 \<Rightarrow> u32" where
  "MUR_FMIX h =
     (let h = h XOR drop_bit 16 h; h = h * 0x85ebca6b; h = h XOR drop_bit 13 h; h = h * 0xc2b2ae35
      in h XOR drop_bit 16 h)"

definition mur_k :: "u32 \<Rightarrow> u32" where
  "mur_k k = MUR_ROTL32 (k * 0xcc9e2d51) 15 * 0x1b873593"

definition mur_block :: "u32 \<Rightarrow> u32 \<Rightarrow> u32" where
  "mur_block h k = MUR_ROTL32 (h XOR mur_k k) 13 * 5 + 0xe6546b64"

definition mur_rest :: "(int \<Rightarrow> byte) \<Rightarrow> int \<Rightarrow> nat \<Rightarrow> u32 \<Rightarrow> u32" where
  "mur_rest mem tail r h =
     (if r = 0 then h
      else let k = (if r = 3 then push_bit 16 (ucast (mem (tail + 2))) else 0);
               k = (if 2 \<le> r then k XOR push_bit 8 (ucast (mem (tail + 1))) else k);
               k = k XOR ucast (mem tail)
           in h XOR mur_k k)"

definition HASH_MUR :: "((int \<Rightarrow> byte) \<Rightarrow> int \<Rightarrow> int \<Rightarrow> u32) \<Rightarrow> (int \<Rightarrow> byte) \<Rightarrow> int \<Rightarrow> nat \<Rightarrow> u32" where
  "HASH_MUR getblock mem data keylen =
     (let nblocks = keylen div 4;
          blocks = data + 4 * int nblocks;
          h = foldl mur_block 0xf88D5353 (map (\<lambda>i. getblock mem blocks (int i - int nblocks)) [0..<nblocks]);
          h = mur_rest mem blocks (keylen mod 4) h
      in MUR_FMIX (h XOR word_of_nat keylen))"

section \<open>Invertible steps\<close>

lemma xor_zero: "(x :: u32) XOR y = 0 \<Longrightarrow> x = y"
proof (rule bit_word_eqI)
  fix i assume "x XOR y = 0"
  then have "\<not> bit (x XOR y) i" by simp
  then show "bit x i = bit y i" by (simp add: bit_xor_iff)
qed

lemma xor_left_inj: "(h :: u32) XOR x = h XOR y \<Longrightarrow> x = y"
proof (rule bit_word_eqI)
  fix i assume "h XOR x = h XOR y"
  then have "bit (h XOR x) i = bit (h XOR y) i" by simp
  then show "bit x i = bit y i" by (auto simp: bit_xor_iff)
qed

lemma xor_right_inj: "x XOR (h :: u32) = y XOR h \<Longrightarrow> x = y"
  using xor_left_inj [of h x y] by (simp add: xor.commute)

lemma xor_shift_inj:
  fixes x y :: u32
  assumes "x XOR drop_bit n x = y XOR drop_bit n y" "0 < n"
  shows "x = y"
proof -
  let ?d = "x XOR y"
  have "?d = drop_bit n ?d"
    using assms(1) by (simp add: drop_bit_xor) (metis (no_types, opaque_lifting) xor.assoc xor.commute xor.left_commute bit.xor_self xor.right_neutral)
  then have "unat ?d = unat ?d div 2 ^ n" by (metis drop_bit_eq_div unat_drop_bit_eq)
  then have "unat ?d = 0"
    using assms(2) by (metis div_less_dividend neq0_conv one_less_numeral_iff one_less_power semiring_norm(76) nat_neq_iff)
  then have "?d = 0" by (simp only: unsigned_eq_0_iff)
  then show ?thesis by (rule xor_zero)
qed

lemma odd_mult_inj:
  fixes x y c v :: u32
  assumes "x * c = y * c" "c * v = 1"
  shows "x = y"
proof -
  have "x = x * c * v" "y = y * c * v" using assms(2) by (simp_all add: mult.assoc)
  with assms(1) show ?thesis by simp
qed

lemma rotl_bit: "i < 32 \<Longrightarrow> 0 < r \<Longrightarrow> r < 32 \<Longrightarrow> bit (MUR_ROTL32 x r) (if i + r < 32 then i + r else i + r - 32) = bit x i"
  by (auto simp: MUR_ROTL32_def bit_simps dest: bit_imp_le_length)

lemma rotl_inj:
  assumes "MUR_ROTL32 x r = MUR_ROTL32 y r" "0 < r" "r < 32"
  shows "x = y"
proof (rule bit_word_eqI)
  fix i assume "i < LENGTH(32)"
  then have "i < 32" by simp
  with rotl_bit [of i r x] rotl_bit [of i r y] assms show "bit x i = bit y i" by simp
qed

lemma fmix_inj: "MUR_FMIX x = MUR_FMIX y \<Longrightarrow> x = y"
  unfolding MUR_FMIX_def Let_def
  by (drule xor_shift_inj, simp, drule odd_mult_inj [where v = "0x7ed1b41d"], simp, drule xor_shift_inj, simp,
      drule odd_mult_inj [where v = "0xa5cb9243"], simp, drule xor_shift_inj, simp)


lemma mur_k_inj: "mur_k x = mur_k y \<Longrightarrow> x = y"
  unfolding mur_k_def
  by (drule odd_mult_inj [where v = "0x56ed309b"], simp, drule rotl_inj, simp, simp,
      drule odd_mult_inj [where v = "0xdee13bb1"], simp)

lemma mur_block_inj: "mur_block h x = mur_block h y \<Longrightarrow> x = y"
  unfolding mur_block_def add_right_cancel
  by (drule odd_mult_inj [where v = "0xcccccccd"], simp, drule rotl_inj, simp, simp, rule mur_k_inj, rule xor_left_inj)

section \<open>Unaligned blocks\<close>

lemma bit_word_at:
  "bit (word_at mem p) n \<longleftrightarrow> n < 32 \<and> bit (mem (p + int (n div 8))) (n mod 8)"
proof -
  have big: "\<not> bit (b :: byte) k" if "8 \<le> k" for b k using that by (auto dest: bit_imp_le_length)
  define m where "m = n mod 8"
  have m: "m < 8" by (simp add: m_def)
  then have d: "(8 + m) div 8 = 1" "(16 + m) div 8 = 2" "(24 + m) div 8 = 3"
    "(8 + m) mod 8 = m" "(16 + m) mod 8 = m" "(24 + m) mod 8 = m" by auto presburger+
  have "n = m \<or> n = 8 + m \<or> n = 16 + m \<or> n = 24 + m \<or> 32 \<le> n" unfolding m_def by presburger
  then show ?thesis
  proof (elim disjE)
    assume n: "n = m"
    show ?thesis unfolding n using m by (auto simp: word_at_def bit_simps big)
  next
    assume n: "n = 8 + m"
    show ?thesis unfolding n using m d by (auto simp: word_at_def bit_simps big)
  next
    assume n: "n = 16 + m"
    show ?thesis unfolding n using m d by (auto simp: word_at_def bit_simps big)
  next
    assume n: "n = 24 + m"
    show ?thesis unfolding n using m d by (auto simp: word_at_def bit_simps big)
  next
    assume "32 \<le> n"
    then show ?thesis by (auto dest: bit_imp_le_length)
  qed
qed

lemma word_at_shift:
  assumes "j \<in> {1, 2, 3}"
  shows "drop_bit (8 * j) (word_at mem a AND push_bit (8 * j) (mask (32 - 8 * j)))
     OR push_bit (32 - 8 * j) (word_at mem (a + 4) AND mask (8 * j)) = word_at mem (a + int j)"
proof (rule bit_word_eqI)
  fix n assume "n < LENGTH(32)"
  then have n: "n < 32" by simp
  show "bit (drop_bit (8 * j) (word_at mem a AND push_bit (8 * j) (mask (32 - 8 * j)))
     OR push_bit (32 - 8 * j) (word_at mem (a + 4) AND mask (8 * j))) n = bit (word_at mem (a + int j)) n"
  proof (cases "n + 8 * j < 32")
    case True
    have d: "(8 * j + n) div 8 = n div 8 + j" "(8 * j + n) mod 8 = n mod 8" by simp_all
    have "bit (drop_bit (8 * j) (word_at mem a AND push_bit (8 * j) (mask (32 - 8 * j)))
       OR push_bit (32 - 8 * j) (word_at mem (a + 4) AND mask (8 * j))) n = bit (word_at mem a) (8 * j + n)"
      using True n by (auto simp: bit_or_iff bit_drop_bit_eq bit_and_iff bit_push_bit_iff bit_mask_iff)
    also have "\<dots> = bit (word_at mem (a + int j)) n"
      using True n unfolding bit_word_at d by (simp add: ac_simps)
    finally show ?thesis .
  next
    case False
    let ?k = "n - (32 - 8 * j)"
    have j: "j \<le> 4" "32 - 8 * j = 8 * (4 - j)" using assms by auto
    have "8 * (4 - j) \<le> n" using False j by linarith
    then obtain m where m: "n = 8 * (4 - j) + m" using le_Suc_ex by blast
    then have k: "?k div 8 + 4 = n div 8 + j" "?k mod 8 = n mod 8" using j by simp_all
    then have e: "a + 4 + int (?k div 8) = a + int j + int (n div 8)" by linarith
    have "bit (drop_bit (8 * j) (word_at mem a AND push_bit (8 * j) (mask (32 - 8 * j)))
       OR push_bit (32 - 8 * j) (word_at mem (a + 4) AND mask (8 * j))) n = bit (word_at mem (a + 4)) ?k"
      using False n by (auto simp: bit_or_iff bit_drop_bit_eq bit_and_iff bit_push_bit_iff bit_mask_iff dest: bit_imp_le_length)
    also have "\<dots> = bit (word_at mem (a + int j)) n"
      using False n unfolding bit_word_at e k(2) by auto
    finally show ?thesis .
  qed
qed

lemma getblock_unaligned:
  assumes "p mod 4 \<noteq> 0"
  shows "MUR_GETBLOCK mem p i = word_at mem p"
proof -
  have "p mod 4 = 1 \<or> p mod 4 = 2 \<or> p mod 4 = 3" using assms by presburger
  moreover have "WP p + p mod 4 = p" by (simp add: WP_def)
  moreover have "(0xffffff00 :: u32) = push_bit 8 (mask 24)" "(0xffff0000 :: u32) = push_bit 16 (mask 16)"
    "(0xff000000 :: u32) = push_bit 24 (mask 8)" "(0xff :: u32) = mask 8" "(0xffff :: u32) = mask 16" "(0xffffff :: u32) = mask 24"
    by (simp_all add: mask_eq_exp_minus_1)
  ultimately show ?thesis
    using word_at_shift [of 1 mem "WP p"] word_at_shift [of 2 mem "WP p"] word_at_shift [of 3 mem "WP p"]
    by (auto simp: MUR_GETBLOCK_def MUR_THREE_ONE_def MUR_TWO_TWO_def MUR_ONE_THREE_def)
qed


section \<open>The Bloom filter\<close>

definition HASH_BLOOM_BITLEN :: "nat \<Rightarrow> nat" where
  "HASH_BLOOM_BITLEN nbits = 2 ^ nbits"

definition HASH_BLOOM_BYTELEN :: "nat \<Rightarrow> nat" where
  "HASH_BLOOM_BYTELEN nbits = HASH_BLOOM_BITLEN nbits div 8 + (if HASH_BLOOM_BITLEN nbits mod 8 \<noteq> 0 then 1 else 0)"

definition HASH_BLOOM_MAKE :: "nat \<Rightarrow> byte list" where
  "HASH_BLOOM_MAKE nbits = replicate (HASH_BLOOM_BYTELEN nbits) 0"

definition HASH_BLOOM_BITSET :: "byte list \<Rightarrow> nat \<Rightarrow> byte list res" where
  "HASH_BLOOM_BITSET bv idx =
     res_bind (check OutOfBounds (idx div 8 < length bv)) (\<lambda>_.
     Inr (bv[idx div 8 := bv ! (idx div 8) OR push_bit (idx mod 8) 1]))"

definition HASH_BLOOM_BITTEST :: "byte list \<Rightarrow> nat \<Rightarrow> bool res" where
  "HASH_BLOOM_BITTEST bv idx =
     res_bind (check OutOfBounds (idx div 8 < length bv)) (\<lambda>_.
     Inr (bv ! (idx div 8) AND push_bit (idx mod 8) 1 \<noteq> 0))"

text \<open>\<^verbatim>\<open>(hashv & (uint32_t)((1ULL << (tbl)->bloom_nbits) - 1))\<close>\<close>

definition bloom_index :: "nat \<Rightarrow> u32 \<Rightarrow> nat" where
  "bloom_index nbits hv = unat (hv AND (word_of_nat (2 ^ nbits - 1)))"

definition HASH_BLOOM_ADD :: "nat \<Rightarrow> byte list \<Rightarrow> u32 \<Rightarrow> byte list res" where
  "HASH_BLOOM_ADD nbits bv hv = HASH_BLOOM_BITSET bv (bloom_index nbits hv)"

definition HASH_BLOOM_TEST :: "nat \<Rightarrow> byte list \<Rightarrow> u32 \<Rightarrow> bool res" where
  "HASH_BLOOM_TEST nbits bv hv = HASH_BLOOM_BITTEST bv (bloom_index nbits hv)"

text \<open>\<^verbatim>\<open>HASH_FIND\<close> in a build with the filter.\<close>

definition bloom_find :: "nat \<Rightarrow> byte list \<Rightarrow> ('p \<Rightarrow> byte list) \<Rightarrow> 'p uthash \<Rightarrow> byte list \<Rightarrow> 'p option res" where
  "bloom_find nbits bv keyof head k =
     (case head of
        None \<Rightarrow> Inr None
      | Some tbl \<Rightarrow>
          res_bind (HASH_BLOOM_TEST nbits bv (HASH_JEN k)) (\<lambda>hit.
          if hit then Inr (HASH_FIND_IN_BKT keyof
              (hh_chain (buckets tbl ! HASH_TO_BKT (HASH_JEN k) (num_buckets tbl))) k)
          else Inr None))"

fun bloom_adds :: "nat \<Rightarrow> byte list \<Rightarrow> u32 list \<Rightarrow> byte list res" where
  "bloom_adds nbits bv [] = Inr bv"
| "bloom_adds nbits bv (h # hs) = res_bind (HASH_BLOOM_ADD nbits bv h) (\<lambda>bv'. bloom_adds nbits bv' hs)"

lemma unat_word_le: "unat (word_of_nat n :: u32) \<le> n"
  by (simp add: unat_of_nat take_bit_nat_less_eq_self)

lemma bloom_index_less: "nbits \<le> 32 \<Longrightarrow> bloom_index nbits h < 2 ^ nbits"
proof -
  have "unat (h AND word_of_nat (2 ^ nbits - 1)) \<le> unat (word_of_nat (2 ^ nbits - 1) :: u32)"
    by (metis word_and_le1 word_le_nat_alt)
  also have "\<dots> \<le> 2 ^ nbits - 1" by (rule unat_word_le)
  also have "\<dots> < (2 :: nat) ^ nbits" by (intro diff_less) simp_all
  finally show ?thesis unfolding bloom_index_def .
qed

lemma bloom_in_range: "nbits \<le> 32 \<Longrightarrow> length bv = HASH_BLOOM_BYTELEN nbits \<Longrightarrow> bloom_index nbits h div 8 < length bv"
proof -
  assume n: "nbits \<le> 32" and l: "length bv = HASH_BLOOM_BYTELEN nbits"
  have i: "bloom_index nbits h < HASH_BLOOM_BITLEN nbits" using bloom_index_less [OF n] by (simp add: HASH_BLOOM_BITLEN_def)
  have "n div 8 < b div 8 + (if b mod 8 \<noteq> 0 then 1 else 0)" if nb: "n < b" for n b :: nat
  proof (cases "b mod 8 = 0")
    case True
    then have "b = b div 8 * 8" by presburger
    with nb have "n < b div 8 * 8" by linarith
    then have "n div 8 < b div 8" by (rule less_mult_imp_div_less)
    with True show ?thesis by simp
  next
    case False
    have "n div 8 \<le> b div 8" using nb by (intro div_le_mono) simp
    with False show ?thesis by simp
  qed
  from this [OF i] show ?thesis using l by (simp only: HASH_BLOOM_BYTELEN_def)
qed

definition bloom_bit :: "byte list \<Rightarrow> nat \<Rightarrow> bool" where
  "bloom_bit bv i \<longleftrightarrow> bit (bv ! (i div 8)) (i mod 8)"

lemma and_push_bit_1:
  assumes "k < 8"
  shows "(b AND push_bit k 1 \<noteq> (0 :: byte)) = bit b k"
proof
  assume "b AND push_bit k 1 \<noteq> 0"
  then obtain n where "bit (b AND push_bit k 1) n" by (metis bit_0_eq bit_eqI bot_apply bot_bool_def)
  then show "bit b k" by (auto simp: bit_simps)
next
  assume "bit b k"
  then have "bit (b AND push_bit k 1) k" using assms by (simp add: bit_and_iff bit_exp_iff possible_bit_word)
  then show "b AND push_bit k 1 \<noteq> 0" by (metis bit_0_eq bot_apply bot_bool_def)
qed

lemma bloom_test_bit:
  assumes "nbits \<le> 32" "length bv = HASH_BLOOM_BYTELEN nbits"
  shows "HASH_BLOOM_TEST nbits bv h = Inr (bloom_bit bv (bloom_index nbits h))"
proof -
  have "bloom_index nbits h mod 8 < 8" by simp
  from and_push_bit_1 [OF this] show ?thesis
    using bloom_in_range [OF assms, of h]
    unfolding HASH_BLOOM_TEST_def HASH_BLOOM_BITTEST_def bloom_bit_def by (simp only: check_True res_bind_Inr)
qed

lemma bloom_add_ok:
  assumes "nbits \<le> 32" "length bv = HASH_BLOOM_BYTELEN nbits"
  shows "\<exists>bv'. HASH_BLOOM_ADD nbits bv h = Inr bv' \<and> length bv' = length bv \<and> bloom_bit bv' (bloom_index nbits h)
    \<and> (\<forall>i. bloom_bit bv i \<longrightarrow> bloom_bit bv' i)"
proof -
  let ?i = "bloom_index nbits h"
  have r: "?i div 8 < length bv" by (rule bloom_in_range [OF assms])
  have "\<not> LENGTH(8) \<le> ?i mod 8" by simp
  then have "bit (push_bit (?i mod 8) 1 :: byte) (?i mod 8)" by (simp add: bit_simps)
  with r show ?thesis
    by (auto simp: HASH_BLOOM_ADD_def HASH_BLOOM_BITSET_def bloom_bit_def nth_list_update bit_or_iff)
qed

lemma bloom_adds_ok:
  "nbits \<le> 32 \<Longrightarrow> length bv = HASH_BLOOM_BYTELEN nbits \<Longrightarrow>
     \<exists>bv'. bloom_adds nbits bv hs = Inr bv' \<and> length bv' = length bv \<and> (\<forall>h \<in> set hs. bloom_bit bv' (bloom_index nbits h))
       \<and> (\<forall>i. bloom_bit bv i \<longrightarrow> bloom_bit bv' i)"
proof (induction hs arbitrary: bv)
  case (Cons h hs)
  from bloom_add_ok [OF Cons.prems] obtain b1 where b1: "HASH_BLOOM_ADD nbits bv h = Inr b1" "length b1 = length bv"
    "bloom_bit b1 (bloom_index nbits h)" "\<forall>i. bloom_bit bv i \<longrightarrow> bloom_bit b1 i" by blast
  have "length b1 = HASH_BLOOM_BYTELEN nbits" using b1(2) Cons.prems(2) by simp
  from Cons.IH [OF Cons.prems(1) this] b1 show ?case by fastforce
qed simp

section \<open>Properties\<close>

text \<open>C30: a Bloom filter of up to 32 index bits is never accessed outside its bytes, and after the hashes of
  all elements ever inserted were added to it, whatever was deleted since, a lookup through it gives
  the answer of the lookup without it: there are no false negatives.\<close>

theorem bloom_filter_changes_nothing:
  assumes "wf_uthash keyof head" "nbits \<le> 32" "(HASH_JEN \<circ> keyof) ` set (HASH_ITER head) \<subseteq> set hs"
  shows "\<exists>bv. bloom_adds nbits (HASH_BLOOM_MAKE nbits) hs = Inr bv \<and> bloom_find nbits bv keyof head k = Inr (HASH_FIND keyof head k)"
proof -
  have "length (HASH_BLOOM_MAKE nbits) = HASH_BLOOM_BYTELEN nbits" by (simp add: HASH_BLOOM_MAKE_def)
  from bloom_adds_ok [OF assms(2) this, of hs] obtain bv where
    bv: "bloom_adds nbits (HASH_BLOOM_MAKE nbits) hs = Inr bv" "length bv = HASH_BLOOM_BYTELEN nbits"
      "\<forall>h \<in> set hs. bloom_bit bv (bloom_index nbits h)" by (auto simp: HASH_BLOOM_MAKE_def)
  have "bloom_find nbits bv keyof head k = Inr (HASH_FIND keyof head k)"
  proof (cases "HASH_FIND keyof head k")
    case None
    then show ?thesis
      by (auto simp: bloom_find_def HASH_FIND_def bloom_test_bit [OF assms(2) bv(2)] split: option.splits)
  next
    case (Some p)
    with HASH_FIND_Some [OF assms(1) Some] assms(3) have "HASH_JEN k \<in> set hs" by auto
    with bv(3) Some show ?thesis
      by (auto simp: bloom_find_def HASH_FIND_def bloom_test_bit [OF assms(2) bv(2)] split: option.splits)
  qed
  with bv(1) show ?thesis by blast
qed

lemma bloom_filter_changes_nothing_witness:
  "\<exists>bv. bloom_adds 5 (HASH_BLOOM_MAKE 5) [HASH_JEN (bytes_of_u32 7)] = Inr bv
     \<and> bloom_find 5 bv bytes_of_u32 (HASH_ADD bytes_of_u32 None 7) (bytes_of_u32 9)
       = Inr (HASH_FIND bytes_of_u32 (HASH_ADD bytes_of_u32 None 7) (bytes_of_u32 9))"
proof -
  have "wf_uthash bytes_of_u32 (HASH_ADD bytes_of_u32 None 7) \<and> HASH_ITER (HASH_ADD bytes_of_u32 None 7) = [7]"
    using HASH_ADD_wf [of bytes_of_u32 None 7] by (simp add: wf_uthash_def can_expand_def HASH_ITER_def)
  then show ?thesis
    using bloom_filter_changes_nothing [of bytes_of_u32 "HASH_ADD bytes_of_u32 None 7" 5 "[HASH_JEN (bytes_of_u32 7)]" "bytes_of_u32 9"] by simp
qed

text \<open>On a machine that is not Intel, MurmurHash of a key at an unaligned address reads the word behind the
  last block for every block, so the hash does not depend on the blocks of the key at all: keys that
  differ only there collide.\<close>

theorem murmur_unaligned_ignores_blocks:
  assumes "data mod 4 \<noteq> 0" "\<forall>a \<ge> data + 4 * int (keylen div 4). mem' a = mem a"
  shows "HASH_MUR MUR_GETBLOCK mem' data keylen = HASH_MUR MUR_GETBLOCK mem data keylen"
proof -
  let ?p = "data + 4 * int (keylen div 4)"
  have "?p mod 4 \<noteq> 0" using assms(1) by presburger
  then have "MUR_GETBLOCK m ?p i = word_at m ?p" for m i by (rule getblock_unaligned)
  moreover have "word_at mem' ?p = word_at mem ?p" using assms(2) by (simp add: word_at_def)
  moreover have "mur_rest mem' ?p r h = mur_rest mem ?p r h" for r h using assms(2) by (simp add: mur_rest_def)
  ultimately show ?thesis by (simp add: HASH_MUR_def)
qed

lemma murmur_unaligned_ignores_blocks_witness:
  "HASH_MUR MUR_GETBLOCK (\<lambda>a. if a < 9 then 1 else 0) 5 4 = HASH_MUR MUR_GETBLOCK (\<lambda>a. if a < 9 then 2 else 0) 5 4"
  using murmur_unaligned_ignores_blocks [of 5 4 "\<lambda>a. if a < 9 then 1 else 0" "\<lambda>a. if a < 9 then 2 else 0"] by simp

text \<open>On Intel, MurmurHash is injective on keys of four bytes: the integer keys of a table never collide.\<close>

theorem murmur_injective_on_ints:
  assumes "HASH_MUR MUR_GETBLOCK_intel m1 d1 4 = HASH_MUR MUR_GETBLOCK_intel m2 d2 4"
  shows "map m1 [d1, d1 + 1, d1 + 2, d1 + 3] = map m2 [d2, d2 + 1, d2 + 2, d2 + 3]"
proof -
  have "mur_block 0xf88D5353 (word_at m1 d1) XOR 4 = mur_block 0xf88D5353 (word_at m2 d2) XOR 4"
    using assms by - (rule fmix_inj, simp add: HASH_MUR_def MUR_GETBLOCK_intel_def mur_rest_def)
  then have "mur_block 0xf88D5353 (word_at m1 d1) = mur_block 0xf88D5353 (word_at m2 d2)"
    by (rule xor_right_inj)
  then have w: "word_at m1 d1 = word_at m2 d2" by (rule mur_block_inj)
  have "m1 (d1 + int j) = m2 (d2 + int j)" if "j < 4" for j
  proof (rule bit_word_eqI)
    fix i assume "i < LENGTH(8)"
    then have i: "8 * j + i < 32" "(8 * j + i) div 8 = j" "(8 * j + i) mod 8 = i" using that by auto
    have "bit (word_at m1 d1) (8 * j + i) = bit (word_at m2 d2) (8 * j + i)" using w by simp
    then show "bit (m1 (d1 + int j)) i = bit (m2 (d2 + int j)) i" unfolding bit_word_at i using i(1) by simp
  qed
  from this [of 0] this [of 1] this [of 2] this [of 3] show ?thesis by simp
qed

lemma murmur_injective_on_ints_witness:
  "map (\<lambda>a. if a < 9 then 1 else (0 :: byte)) [5 :: int, 6, 7, 8] = map (\<lambda>_. 1) [0, 1, 2, 3 :: int]"
  using murmur_injective_on_ints [of "\<lambda>a. if a < 9 then 1 else 0" 5 "\<lambda>_. 1" 0]
  by (simp add: HASH_MUR_def MUR_GETBLOCK_intel_def word_at_def mur_rest_def)

end
