(* ===== verification/Spec2Isabelle.thy ===== *)
theory Spec2Isabelle
  imports Mutex_System Barrier Shutdown Timing Release Debug Substring Utarray Uthash_Select Uthash_Functions
begin

text \<open>
  A verification library for EDSM, a daemon that shares memory and synchronises tasks between
  nodes over TCP (the C program under \<^verbatim>\<open>src/src\<close>), and for the container library it is
  built on (\<^verbatim>\<open>src/uthash\<close>).

  \<^bold>\<open>The program.\<close> Every node runs a listener thread that accepts connections and reads framed
  messages from its peers. A message starts with a type; the handler registered for the type gets the
  rest. Two handlers are registered: up calls of tasks, and messages of distributed objects. An
  object has an id, a list of the peers that hold it too, and a handler of its own; mutexes, barriers and
  memory regions embed an object. A region of memory is kept protected; the first store to a page traps,
  makes a copy (the twin) and opens the page; when a mutex is released or a barrier is notified, the
  transaction ends: pages are compared with their twins and the differing bytes are sent to the holders
  of the region, who apply them. Mutexes follow Ricart and Agrawala with Lamport clocks. A node
  joins a group through one member, which gives it an id and the list of its peers.

  \<^bold>\<open>The theories and the code they model.\<close>
  \<^item> \<open>Prelude\<close>: outcomes of calls, machine integers, bytes and cells of memory, the runtime (allocator
    and clock) as a parameter.
  \<^item> \<open>Timing\<close>: \<^verbatim>\<open>timing.c\<close>. \<open>Debug\<close>: \<^verbatim>\<open>debug.c\<close> and \<^verbatim>\<open>debug.h\<close>.
  \<^item> \<open>Message\<close>: \<^verbatim>\<open>message.c\<close>. A message is a record with its block of cells, cursor and sizes.
  \<^item> \<open>Uthash\<close>, \<open>Utlist\<close>: the macros of \<^verbatim>\<open>uthash.h\<close> and \<^verbatim>\<open>utlist.h\<close> the program uses,
    with Jenkins' hash, bucket expansion and the bottom-up merge sort; chains and orders of a table are lists
    of handles. The theories of the program use these.
  \<^item> \<open>Utlist_Double\<close>, \<open>Linked_Sort\<close>: all macros of \<^verbatim>\<open>utlist.h\<close> on the link fields of
    the nodes: singly linked, doubly linked and circular lists, safe traversals, and the three merge sorts.
  \<^item> \<open>Uthash_Nodes\<close>, \<open>Uthash_Refines\<close>, \<open>Uthash_Map\<close>, \<open>Uthash_Select\<close>: all operations of
    \<^verbatim>\<open>uthash.h\<close> on the link fields, the bucket array and the tail; that they compute the operations of
    \<open>Uthash\<close>; and deletion, sorting and selection.
  \<^item> \<open>Uthash_Functions\<close>: the other hash functions of \<^verbatim>\<open>uthash.h\<close> and its Bloom filter.
  \<^item> \<open>Blocks\<close>, \<open>Utstring\<close>, \<open>Substring\<close>, \<open>Utarray\<close>: the growing strings of
    \<^verbatim>\<open>utstring.h\<close> with their substring search, and the arrays of \<^verbatim>\<open>utarray.h\<close>.
  \<^item> \<open>Reply_Waiter\<close>: \<^verbatim>\<open>dobj/reply_waiter.c\<close>, on nodes in memory and as a list of ids.
  \<^item> \<open>Socket\<close>: \<^verbatim>\<open>socket.c\<close> and \<^verbatim>\<open>slash_to_netmask\<close>. The system calls are the fields of the
    record \<open>os\<close>, over a world of any type.
  \<^item> \<open>Protocol\<close>: \<^verbatim>\<open>protocol_util.c\<close> and the sending, dispatch and registration of
    \<^verbatim>\<open>protocol.c\<close>. The record \<open>proto\<close> has the global variables of the program; the
    records of the later theories extend it, in the order \<open>dobjs\<close>, \<open>memory\<close>, \<open>tasks\<close>.
  \<^item> \<open>Handshake\<close>: \<^verbatim>\<open>protocol_handshake.c\<close> and \<^verbatim>\<open>edsm_proto_group_join\<close>.
  \<^item> \<open>Listener\<close>: the listener thread of \<^verbatim>\<open>protocol.c\<close>, its start and its shutdown.
  \<^item> \<open>Dobj\<close>: \<^verbatim>\<open>dobj/dobj.c\<close>, and the structures of the objects. \<open>Object_Lookup\<close>: looking up
    an object, composed from the call, the requests at the peers and their answers.
  \<^item> \<open>Memory\<close>: \<^verbatim>\<open>memory/memory.c\<close>, with the store instruction that traps.
  \<^item> \<open>Memory_Dobj\<close>: \<^verbatim>\<open>memory/memory_dobj.c\<close>.
  \<^item> \<open>Mutex\<close>, \<open>Barrier\<close>: \<^verbatim>\<open>dobj/mutex.c\<close>, \<^verbatim>\<open>dobj/barrier.c\<close>.
  \<^item> \<open>Mutex_System\<close>: nodes that use one mutex, connected by FIFO channels, as a transition system over
    the protocol of \<open>Mutex\<close>.
  \<^item> \<open>Task\<close>: \<^verbatim>\<open>task.c\<close>.
  \<^item> \<open>Safe_Calls\<close>, \<open>Node\<close>: a whole node, with the handlers of the components behind the function pointers of its
    tables, and the actions its listener and its tasks can take.
  \<^item> \<open>Release\<close>: an unlock at one node and a lock at another, composed from \<open>Memory_Dobj\<close>, \<open>Mutex\<close> and \<open>Node\<close>.
  \<^item> \<open>Edsmd\<close>: start-up in \<^verbatim>\<open>edsmd.c\<close>. \<open>Shutdown\<close>: its last loop, the handler of signals and the
    listener, which share the variable \<^verbatim>\<open>running\<close>, as parties of a schedule.

  \<^bold>\<open>How state and operations correspond.\<close> A function of the program is a function of the same name
  from a state to a result: \<^term>\<open>Inr\<close> of the returned value and the new state, or \<^term>\<open>Inl\<close> of a fault
  where the C program fails an assertion, uses a null, freed or uninitialised object, leaves an object's
  bounds, or overflows a signed integer. Where the program shares structures by address (peers,
  objects, tasks) the state has a map from addresses to structures, and tables hold addresses; other
  structures are values. A 32-bit integer is a word and wraps as in C. A message argument
  that may be a null pointer is an option. Each operation is one step, as the locks of the program
  make it; a function that waits is split where it waits, or has the result \<^term>\<open>None\<close> while it is blocked.
  Message handlers are values of a type parameter, run by a parameter \<open>call\<close>.

  \<^bold>\<open>What the lemmas show.\<close>
  \<^item> Messages and frames: the cursor operations refine three windows of a block; messages are byte
    queues; what one node writes another reads, in any pieces; nested messages and strings come back.
    The interface \<open>byte_queue\<close> is interpreted on messages.
  \<^item> Tables: insertion keeps the table well formed across expansion and lookups answer as a map
    does (interface \<open>key_table\<close>). The relation \<open>rep\<close> between nodes and lists of handles is kept by every
    operation; from it, sequences of insertions and deletions are changes of a map, and sorting changes only
    the iteration. A selection leaves a table that the next insertion breaks. Bloom filters have no false negatives.
  \<^item> Lists: the three kinds of list meet one contract (interface \<open>linked_list\<close>), from which
    sequences of calls and deletion during traversal are proved once. The merge sort on lists sorts
    (interface \<open>comparator\<close>), and with the order of requests it computes \<^term>\<open>sort\<close>; the passes on the
    nodes compute it for every way of moving a cursor and of closing a list (interfaces \<open>cursor\<close>, \<open>sort_code\<close>).
  \<^item> Strings and arrays: appending, searching and the array operations do what the operations on lists of
    characters and elements do; the search is the naive one; destructors run once on each element. An array with an
    initialiser is covered except for growing by a resize, which always faults.
  \<^item> Sending: the interface \<open>transport\<close> promises that a send appends one frame to the output of exactly
    the peers addressed; objects, tasks, mutexes and barriers rest on its interpretation on
    \<open>edsm_proto_send\<close>.
  \<^item> Joining: the ids given are new, both sides of a handshake end with the same group, and connecting to the
    peers named ends within a bound on the recursion.
  \<^item> Memory: a store changes one byte and loses no committed one; the end of a transaction brings exactly the
    changed bytes to the replicas, also when they have uncommitted stores; crossing diffs swap the bytes both
    changed.
  \<^item> Objects: looking one up returns when every peer has answered, and the caller then knows the holders.
  \<^item> Mutexes: the handler refines a protocol on the fields of the object; with two nodes mutual
    exclusion and progress hold; with three nodes mutual exclusion fails, by a run of the model.
    Unlocking publishes memory before it grants the mutex; who is let in by it has the bytes in every region.
  \<^item> Barriers and waiters: released exactly when every awaited peer has replied since.
  \<^item> Nodes: an invariant types the blocks of the objects. Every action keeps it, for messages of any bytes, so that tasks
    which use each id with one kind of object never confuse structures or use missing ones.
  \<^item> Shutdown: once all threads are in their loops, a signal ends the program of a node without peers; with peers, the
    listener uses them after freeing them. A signal that comes earlier is lost.
  \<^item> Printing: messages stay inside their buffers; time stamps determine the time; an error message shows the
    \<^verbatim>\<open>errno\<close> that printing and formatting have left.
  \<^item> Errors: descriptors do not leak from a failed connection; a number of faults of the program are
    stated as theorems: lengths that wrap, lists that are misread, freed memory that is used, paths that overrun
    their buffers, handlers that are registered too late.

  \<^bold>\<open>Bounds and fuel.\<close> Lemmas on messages assume at most \<open>message_room\<close> bytes, a third of
  \<open>2\<^sup>3\<^sup>1\<close>, because a message may double and its size is a signed integer. Lemmas that insert peers
  assume fewer than 26 of them, because every insertion may double the buckets once and their number
  is a 32-bit integer. Runs of the mutex have fewer than \<open>2\<^sup>3\<^sup>1\<close> steps, over which no clock
  wraps. Regions are below \<open>2\<^sup>3\<^sup>2\<close> bytes and pages below 65536, as offsets are sent in 32 and 16
  bits. Lists that are sorted have at most \<open>2\<^sup>3\<^sup>0\<close> nodes, because the length of a run is a signed integer that
  is doubled; on a longer list of requests the handler of the mutex faults, which its theorem says. A loop with a signed
  counter and an unsigned bound faults after \<open>2\<^sup>3\<^sup>1\<close> rounds (\<open>int_loop\<close>). Products and sums of sizes
  wrap at 64 bits (\<open>realloc_or_exit\<close>, \<open>round_up\<close>); elements of arrays have at most
  \<open>2\<^sup>3\<^sup>2\<close> bytes, and the size of a page of a node divides \<open>2\<^sup>6\<^sup>4\<close>, so that a wrapped size is still one
  of whole pages. A table with fewer than 26 insertions asks for less than \<open>2\<^sup>3\<^sup>5\<close> bytes (\<open>bounded_memory\<close>); a
  selection has at most eight elements, so that no bucket of the new table expands; a Bloom filter has at
  most 32 index bits, as its hash values have; strings that are searched are shorter than \<open>2\<^sup>3\<^sup>1\<close>
  bytes. Only \<open>peer_connect\<close> and \<open>node_call\<close> carry fuel; the latter bounds handlers
  called from a send to the own node, which typed nodes do not do from a handler. \<open>(l + 1)\<^sup>2 + l\<close> is enough for \<open>l\<close> peers. Loops over a
  list in memory that may be cyclic are partial functions.

  \<^bold>\<open>Not modelled.\<close> The failures of the single system calls on the shadow page of a diff (\<^verbatim>\<open>mprotect\<close>,
  \<^verbatim>\<open>mmap\<close>, \<^verbatim>\<open>mremap\<close>): the parameter \<open>mprotect\<close> says of a page whether they all succeed, and if
  not the handler fails an assertion, while the program would use the result of a failed \<^verbatim>\<open>mmap\<close>. The calls of the debugging macros inside the other functions (they only print); the
  conversion of the arguments of a format; signals that arrive before the listener is created; the key dumps of \<^verbatim>\<open>uthash.h\<close>; the code of tasks, dynamic loading, regular
  expressions and system calls, which are parameters. Races between threads that the locks of the
  program do not exclude (for instance a join that changes the table of peers while the listener goes over
  it) are outside the model, because every operation is one step.

  \<^bold>\<open>Plan.\<close> A whole group of nodes as one transition system over the listener, the handshake and the
  objects; the mutex with any number of nodes and a reply that is sent to the requester alone.
\<close>

end
